(* ===== verification/Prelude.thy ===== *)
theory Prelude
  imports Main "HOL-Library.Word" "HOL-Library.Monad_Syntax"
begin

text \<open>
  Shared types, lemma collections and generic lemmas of the development.

  \<^item> bytes are 8-bit words, C strings with a length are byte lists;
  \<^item> indices of the double-array trie (\<open>etdb_id_t\<close>, \<open>int64_t\<close>) are \<^typ>\<open>int\<close>; the
    lemmas on \<open>XOR\<close> say that combining an index with a byte label stays inside the
    256-slot block of the index, and that every slot of the block is reached by exactly
    one label;
  \<^item> \<open>ring\<close> is the invariant of the circular doubly-linked lists of the code: two
    mutually inverse link functions on a set of cells.
\<close>

unbundle bit_operations_syntax

type_synonym byte = "8 word"
type_synonym bytes = "byte list"

named_theorems trie_acc \<open>reads of a trie after a write to one of its fields\<close>
named_theorems bits_simps \<open>index arithmetic with XOR and byte labels\<close>

section \<open>Index arithmetic\<close>

lemma uint_byte_bounds [simp]: "0 \<le> uint (c :: byte)" "uint c < 256"
  using uint_lt2p [of c] by auto

lemma xor_xor_cancel [bits_simps, simp]:
  fixes a b :: int
  shows "(a XOR b) XOR b = a" "b XOR (b XOR a) = a" "(b XOR a) XOR b = a" "a XOR (b XOR a) = b"
  by (simp_all add: xor.assoc xor.left_commute xor.commute)

lemma xor_left_inj [bits_simps, simp]:
  fixes a b c :: int
  shows "a XOR b = a XOR c \<longleftrightarrow> b = c" "b XOR a = c XOR a \<longleftrightarrow> b = c"
  by (metis xor_xor_cancel(2), metis xor_xor_cancel(1))

lemma uint_byte_inj [bits_simps, simp]: "uint (c :: byte) = uint d \<longleftrightarrow> c = d"
  by (rule word_uint_eq_iff [symmetric])

lemma drop_byte [simp]: "drop_bit 8 (uint (c :: byte)) = 0"
proof -
  have "uint c div 256 = 0"
    by (simp add: div_pos_pos_trivial)
  then show ?thesis by (simp add: drop_bit_eq_div)
qed

lemma xor_block [bits_simps, simp]: "(b XOR uint (c :: byte)) div 256 = b div 256"
proof -
  have "drop_bit 8 (b XOR uint c) = drop_bit 8 b"
    by (simp add: drop_bit_xor)
  then show ?thesis by (simp add: drop_bit_eq_div)
qed

lemma xor_block' [bits_simps, simp]: "(uint (c :: byte) XOR b) div 256 = b div 256"
  using xor_block [of b c] by (simp only: xor.commute)

lemma xor_byte_nonneg [bits_simps, simp]: "0 \<le> b XOR uint (c :: byte) \<longleftrightarrow> 0 \<le> b"
  by simp

lemma block_label:
  assumes "e div 256 = b div (256 :: int)"
  obtains c :: byte where "e = b XOR uint c"
proof -
  have "drop_bit 8 e = drop_bit 8 b"
    using assms by (simp add: drop_bit_eq_div)
  then have "drop_bit 8 (b XOR e) = 0"
    by (simp only: drop_bit_xor bit.xor_self)
  then have "(b XOR e) div 256 = 0"
    by (simp add: drop_bit_eq_div)
  then have "0 \<le> b XOR e" "b XOR e < 256"
    by presburger+
  then have "uint (word_of_int (b XOR e) :: byte) = b XOR e"
    by (simp add: uint_word_of_int take_bit_int_eq_self)
  then have "e = b XOR uint (word_of_int (b XOR e) :: byte)"
    by simp
  then show ?thesis by (rule that)
qed

lemma block_range:
  assumes "a div 256 = b div (256 :: int)" "b < 256 * n"
  shows "a < 256 * n"
proof -
  have "256 * (b div 256) \<le> b" "a < 256 * (a div 256) + 256"
    by (simp_all add: mult_div_mod_eq [symmetric])
  then have "256 * (b div 256) < 256 * n" "a < 256 * (b div 256) + 256"
    using assms by simp_all
  then have "b div 256 < n" "a < 256 * (b div 256) + 256"
    by simp_all
  then show ?thesis by linarith
qed

section \<open>Circular doubly-linked lists\<close>

text \<open>
  \<open>ring S nx pv\<close>: the links \<open>nx\<close> and \<open>pv\<close> map \<open>S\<close> into itself and are inverse to each
  other there. Removing a cell and inserting one next to another are the pointer
  assignments of the code.
\<close>

definition ring :: "int set \<Rightarrow> (int \<Rightarrow> int) \<Rightarrow> (int \<Rightarrow> int) \<Rightarrow> bool" where
  "ring S nx pv \<longleftrightarrow> (\<forall>x\<in>S. nx x \<in> S \<and> pv x \<in> S \<and> pv (nx x) = x \<and> nx (pv x) = x)"

lemma ringD:
  assumes "ring S nx pv" "x \<in> S"
  shows "nx x \<in> S" "pv x \<in> S" "pv (nx x) = x" "nx (pv x) = x"
  using assms by (auto simp: ring_def)

lemma ring_empty [simp]: "ring {} nx pv"
  by (simp add: ring_def)

lemma ring_cong:
  assumes "ring S nx pv" "\<And>x. x \<in> S \<Longrightarrow> nx' x = nx x" "\<And>x. x \<in> S \<Longrightarrow> pv' x = pv x"
  shows "ring S nx' pv'"
  using assms by (simp add: ring_def)

lemma ring_upd [simp]:
  assumes "x \<notin> S"
  shows "ring S (nx(x := a)) pv \<longleftrightarrow> ring S nx pv" "ring S nx (pv(x := a)) \<longleftrightarrow> ring S nx pv"
  using assms by (auto simp: ring_def)

lemma ring_remove:
  assumes "ring S nx pv" "x \<in> S"
  shows "ring (S - {x}) (nx(pv x := nx x)) (pv(nx x := pv x))"
  using assms unfolding ring_def by (auto; metis)

lemma ring_insert_before:
  assumes "ring S nx pv" "h \<in> S" "x \<notin> S"
  shows "ring (insert x S) (nx(pv h := x, x := h)) (pv(h := x, x := pv h))"
  unfolding ring_def
proof
  fix y
  assume "y \<in> insert x S"
  then consider "y = x" | "y \<in> S" "y \<noteq> x" "y \<noteq> h" | "y = h" "y \<noteq> x"
    by blast
  then show "(nx(pv h := x, x := h)) y \<in> insert x S \<and> (pv(h := x, x := pv h)) y \<in> insert x S \<and>
    (pv(h := x, x := pv h)) ((nx(pv h := x, x := h)) y) = y \<and>
    (nx(pv h := x, x := h)) ((pv(h := x, x := pv h)) y) = y"
  proof cases
    case 1
    then show ?thesis
      using assms ringD [OF assms(1,2)] by auto
  next
    case 2
    then show ?thesis
      using assms(2,3) ringD [OF assms(1) 2(1)] ringD [OF assms(1,2)] by auto
  next
    case 3
    then show ?thesis
      using assms(2,3) ringD [OF assms(1,2)] by auto
  qed
qed

lemma ring_insert_single:
  assumes "ring S nx pv" "x \<notin> S"
  shows "ring (insert x S) (nx(x := x)) (pv(x := x))"
  using assms unfolding ring_def by auto

lemma ring_Un:
  assumes "ring S nx pv" "ring T nx pv"
  shows "ring (S \<union> T) nx pv"
  using assms by (auto simp: ring_def)

lemma ring_funpow: "ring S nx pv \<Longrightarrow> x \<in> S \<Longrightarrow> (nx ^^ k) x \<in> S"
  by (induction k) (auto simp: ring_def)

lemma ring_inj:
  assumes "ring S nx pv" "x \<in> S" "y \<in> S" "nx x = nx y"
  shows "x = y"
  using assms by (metis ringD(3))

text \<open>Following the links of a finite ring comes back to the start.\<close>

lemma ring_funpow_cancel:
  assumes "ring S nx pv" "x \<in> S" "(nx ^^ (i + k)) x = (nx ^^ i) x"
  shows "(nx ^^ k) x = x"
  using assms(3)
proof (induction i)
  case (Suc i)
  have "(nx ^^ (i + k)) x \<in> S" "(nx ^^ i) x \<in> S"
    using assms(1,2) by (auto intro: ring_funpow)
  moreover have "nx ((nx ^^ (i + k)) x) = nx ((nx ^^ i) x)"
    using Suc.prems by simp
  ultimately have "(nx ^^ (i + k)) x = (nx ^^ i) x"
    using assms(1) by (blast dest: ring_inj)
  then show ?case by (rule Suc.IH)
qed simp

lemma ring_orbit:
  assumes "ring S nx pv" "finite S" "x \<in> S"
  obtains k where "0 < k" "(nx ^^ k) x = x"
proof -
  have "(\<lambda>k. (nx ^^ k) x) ` UNIV \<subseteq> S"
    using assms by (auto intro: ring_funpow)
  then have "finite ((\<lambda>k. (nx ^^ k) x) ` UNIV)"
    using assms(2) by (rule finite_subset)
  then have "\<not> inj (\<lambda>k. (nx ^^ k) x)"
    using finite_imageD by blast
  then obtain i j where "i \<noteq> j" "(nx ^^ i) x = (nx ^^ j) x"
    by (auto simp: inj_def)
  then obtain a k where "0 < k" "(nx ^^ (a + k)) x = (nx ^^ a) x"
    by (metis less_imp_add_positive linorder_neqE_nat)
  with assms(1,3) that show ?thesis
    by (blast dest: ring_funpow_cancel)
qed

text \<open>
  A \<open>cycle\<close> is a ring that is one round: no proper part of it is closed under the links.
\<close>

definition cycle :: "int set \<Rightarrow> (int \<Rightarrow> int) \<Rightarrow> (int \<Rightarrow> int) \<Rightarrow> bool" where
  "cycle S nx pv \<longleftrightarrow> ring S nx pv \<and> (\<forall>T\<subseteq>S. T \<noteq> {} \<longrightarrow> nx ` T \<subseteq> T \<longrightarrow> T = S)"

lemma cycle_ring: "cycle S nx pv \<Longrightarrow> ring S nx pv"
  by (simp add: cycle_def)

lemma cycle_round: "cycle S nx pv \<Longrightarrow> T \<subseteq> S \<Longrightarrow> T \<noteq> {} \<Longrightarrow> nx ` T \<subseteq> T \<Longrightarrow> T = S"
  by (simp add: cycle_def)

lemma cycle_empty [simp]: "cycle {} nx pv"
  by (simp add: cycle_def)

lemma cycle_single [simp]: "cycle {x} nx pv \<longleftrightarrow> nx x = x \<and> pv x = x"
  by (auto simp: cycle_def ring_def)

lemma cycle_fixed:
  assumes "cycle S nx pv" "x \<in> S" "nx x = x"
  shows "S = {x}"
  using cycle_round [OF assms(1), of "{x}"] assms(2,3) by simp

lemma cycle_cong:
  assumes "cycle S nx pv" "\<And>x. x \<in> S \<Longrightarrow> nx' x = nx x" "\<And>x. x \<in> S \<Longrightarrow> pv' x = pv x"
  shows "cycle S nx' pv'"
proof -
  have "nx' ` T = nx ` T" if "T \<subseteq> S" for T
    using that assms(2) by (intro image_cong) auto
  then show ?thesis
    using assms ring_cong [of S nx pv nx' pv'] by (simp add: cycle_def)
qed

lemma cycle_remove:
  assumes "cycle S nx pv" "x \<in> S"
  shows "cycle (S - {x}) (nx(pv x := nx x)) (pv(nx x := pv x))"
proof -
  have r: "ring S nx pv" by (rule cycle_ring [OF assms(1)])
  have "T = S - {x}"
    if T: "T \<subseteq> S - {x}" "T \<noteq> {}" "(nx(pv x := nx x)) ` T \<subseteq> T" for T
  proof (cases "pv x \<in> T")
    case True
    then have "nx x \<in> T" using T(3) by (auto dest: subsetD)
    have "nx y \<in> insert x T" if "y \<in> insert x T" for y
    proof (cases "y = x \<or> y = pv x")
      case True
      then show ?thesis using \<open>nx x \<in> T\<close> ringD(4) [OF r assms(2)] by auto
    next
      case False
      then have "y \<in> T" using that by simp
      then have "(nx(pv x := nx x)) y \<in> T" using T(3) by blast
      then show ?thesis using False by simp
    qed
    then have "insert x T = S"
      using T(1) assms(2) by (intro cycle_round [OF assms(1)]) auto
    then show ?thesis using T(1) by blast
  next
    case False
    have "nx y \<in> T" if "y \<in> T" for y
    proof -
      have "(nx(pv x := nx x)) y \<in> T" using T(3) that by blast
      then show ?thesis using False that by (auto split: if_splits)
    qed
    then have "T = S"
      using T(1,2) by (intro cycle_round [OF assms(1)]) auto
    then show ?thesis using T(1) assms(2) by blast
  qed
  then show ?thesis
    using ring_remove [OF r assms(2)] by (simp add: cycle_def)
qed

lemma cycle_insert_after:
  assumes "cycle S nx pv" "h \<in> S" "x \<notin> S"
  shows "cycle (insert x S) (nx(x := nx h, h := x)) (pv(x := h, nx h := x))"
proof -
  have r: "ring S nx pv" by (rule cycle_ring [OF assms(1)])
  have h: "nx h \<in> S" "nx h \<noteq> x" "h \<noteq> x" "pv (nx h) = h"
    using ringD [OF r assms(2)] assms(2,3) by auto
  have "ring (insert x S) (nx(pv (nx h) := x, x := nx h)) (pv(nx h := x, x := pv (nx h)))"
    by (rule ring_insert_before [OF r h(1) assms(3)])
  then have "ring (insert x S) (nx(x := nx h, h := x)) (pv(x := h, nx h := x))"
    using h by (simp add: fun_upd_twist)
  moreover have "T = insert x S"
    if T: "T \<subseteq> insert x S" "T \<noteq> {}" "(nx(x := nx h, h := x)) ` T \<subseteq> T" for T
  proof -
    have nxh: "nx h \<in> T" if "x \<in> T"
      using T(3) that h by (force dest: subsetD)
    have clos: "nx y \<in> T - {x}" if "y \<in> T - {x}" for y
    proof -
      have "nx y \<noteq> x" using that T(1) ringD(1) [OF r, of y] assms(3) by auto
      moreover have "nx y \<in> T"
      proof (cases "y = h")
        case True
        then have "x \<in> T" using that T(3) by (force dest: subsetD)
        then show ?thesis using nxh True by simp
      next
        case False
        then have "(nx(x := nx h, h := x)) y \<in> T" using T(3) that by blast
        then show ?thesis using False that by auto
      qed
      ultimately show ?thesis by simp
    qed
    have "T - {x} \<noteq> {}"
    proof
      assume "T - {x} = {}"
      then have "x \<in> T" using T(2) by auto
      then have "nx h \<in> T - {x}" using nxh h(2) by simp
      then show False using \<open>T - {x} = {}\<close> by simp
    qed
    then have S: "T - {x} = S"
      using T(1) clos by (intro cycle_round [OF assms(1)]) auto
    then have "h \<in> T" using assms(2) by blast
    then have "x \<in> T" using T(3) by (force dest: subsetD)
    then show ?thesis using S by blast
  qed
  ultimately show ?thesis by (simp add: cycle_def)
qed

text \<open>The links that count up from \<open>a\<close> to \<open>b\<close> and start again are a cycle.\<close>

lemma cycle_interval:
  assumes "a \<le> b" "\<And>i. a \<le> i \<Longrightarrow> i \<le> b \<Longrightarrow> nx i = (if i = b then a else i + 1)"
    "\<And>i. a \<le> i \<Longrightarrow> i \<le> b \<Longrightarrow> pv i = (if i = a then b else i - 1)"
  shows "cycle {a..b} nx pv"
proof -
  have "T = {a..b}" if T: "T \<subseteq> {a..b}" "T \<noteq> {}" "nx ` T \<subseteq> T" for T
  proof -
    have up: "j \<in> T" if "i \<in> T" "i \<le> j" "j \<le> b" for i j
      using that(2,1,3)
    proof (induction j rule: int_ge_induct)
      case (step j)
      then have j: "j \<in> T" "j < b" "a \<le> j"
        using T(1) by auto
      then have "nx j = j + 1" using assms(2) by simp
      then show ?case using j(1) T(3) by (metis image_subset_iff)
    qed simp
    obtain x where x: "x \<in> T" using T(2) by blast
    then have "b \<in> T" using T(1) up by auto
    then have "a \<in> T" using T(3) assms(1,2) by (metis image_subset_iff order_refl)
    then show ?thesis using up T(1) by fastforce
  qed
  moreover have "ring {a..b} nx pv"
    using assms by (auto simp: ring_def)
  ultimately show ?thesis by (simp add: cycle_def)
qed

end
