(* ===== verification/Strings.thy ===== *)
theory Strings
  imports Prelude Complex_Main
begin

text \<open>
  \<open>src/store/etdb_string.c\<close>: splitting, case conversion, number parsing and trimming of
  counted strings.

  An \<open>etdb_str_t\<close> that points into a buffer is a length and an offset into that buffer, the
  offset \<^term>\<open>None\<close> for \<open>NULL\<close>; \<open>str_bytes\<close> reads it. \<open>int\<close> is a 32-bit word; \<open>float\<close> and
  \<open>double\<close> are the rationals they denote, every operation followed by the rounding to 24 or
  53 significant bits (to nearest, ties to even) of IEEE 754; the limits of the exponent are
  not part of the model.
\<close>

record etdb_str =
  slen :: nat
  sdata :: "nat option"

definition str_bytes :: "bytes \<Rightarrow> etdb_str \<Rightarrow> bytes" where
  "str_bytes buf s = (case sdata s of None \<Rightarrow> [] | Some off \<Rightarrow> take (slen s) (drop off buf))"

section \<open>Splitting\<close>

text \<open>
  \<open>i\<close> is the start of the current field, \<open>j\<close> the read position, \<open>splits\<close> the part of the
  array that is filled and \<open>n\<close> the value of \<open>*split_num\<close>. The result is the filled part and
  the final \<open>*split_num\<close>, which is also the value returned.
\<close>

function split_loop ::
    "bytes \<Rightarrow> byte \<Rightarrow> nat \<Rightarrow> nat \<Rightarrow> nat \<Rightarrow> etdb_str list \<Rightarrow> etdb_str list \<times> nat" where
  "split_loop s split n i j splits =
     (if j < length s then
        if s ! j = split then
          if length splits < n
          then split_loop s split n (j + 1) (j + 1) (splits @ [\<lparr>slen = j - i, sdata = Some i\<rparr>])
          else (splits, n)
        else split_loop s split n i (j + 1) splits
      else if length splits < n
      then (splits @ [\<lparr>slen = j - i, sdata = Some i\<rparr>], length splits + 1)
      else (splits, n))"
  by pat_completeness auto
termination by (relation "measure (\<lambda>(s, _, _, _, j, _). length s - j)") auto

declare split_loop.simps [simp del]

definition etdb_str_split :: "bytes \<Rightarrow> byte \<Rightarrow> nat \<Rightarrow> etdb_str list \<times> nat" where
  "etdb_str_split s split split_num = split_loop s split split_num 0 0 []"

text \<open>The fields of a string between separators.\<close>

fun split_fields :: "byte \<Rightarrow> bytes \<Rightarrow> bytes list" where
  "split_fields c [] = [[]]"
| "split_fields c (x # xs) = (if x = c then [] # split_fields c xs
     else (case split_fields c xs of f # fs \<Rightarrow> (x # f) # fs | [] \<Rightarrow> []))"

fun join_fields :: "byte \<Rightarrow> bytes list \<Rightarrow> bytes" where
  "join_fields c [] = []"
| "join_fields c [f] = f"
| "join_fields c (f # fs) = f @ c # join_fields c fs"

lemma fields_nonempty [simp]: "split_fields c s \<noteq> []" "length (split_fields c s) > 0"
  by (induction s) (auto split: list.splits)

lemma join_split_fields: "join_fields c (split_fields c s) = s"
proof (induction s)
  case (Cons x xs)
  then show ?case
    using fields_nonempty [of c xs] by (cases "split_fields c xs"; cases "tl (split_fields c xs)") auto
qed simp

lemma fields_free: "f \<in> set (split_fields c s) \<Longrightarrow> c \<notin> set f"
  by (induction s arbitrary: f) (auto split: list.splits if_splits)

lemma fields_no_sep:
  assumes "c \<notin> set p"
  shows "split_fields c p = [p]" "split_fields c (p @ c # r) = p # split_fields c r"
  using assms by (induction p) auto

lemma split_loop_fields:
  assumes "i \<le> j" "j \<le> length s" "c \<notin> set (take (j - i) (drop i s))" "length splits \<le> n"
  shows "map (str_bytes s) (fst (split_loop s c n i j splits)) =
           map (str_bytes s) splits @ take (n - length splits) (split_fields c (drop i s)) \<and>
         snd (split_loop s c n i j splits) = min n (length splits + length (split_fields c (drop i s)))"
  using assms
proof (induction "length s - j" arbitrary: i j splits rule: less_induct)
  case less
  let ?p = "take (j - i) (drop i s)"
  have drop_i: "drop i s = ?p @ drop j s"
    using less.prems(1,2) by (metis append_take_drop_id drop_drop le_add_diff_inverse2)
  have one: "str_bytes s \<lparr>slen = j - i, sdata = Some i\<rparr> = ?p"
    by (simp add: str_bytes_def)
  show ?case
  proof (cases "j < length s")
    case True
    then have dj: "drop j s = s ! j # drop (Suc j) s"
      by (simp add: Cons_nth_drop_Suc)
    show ?thesis
    proof (cases "s ! j = c")
      case sep: True
      have F: "split_fields c (drop i s) = ?p # split_fields c (drop (Suc j) s)"
        by (subst drop_i) (use sep dj less.prems(3) in \<open>simp add: fields_no_sep\<close>)
      show ?thesis
      proof (cases "length splits < n")
        case room: True
        let ?sp = "splits @ [\<lparr>slen = j - i, sdata = Some i\<rparr>]"
        have "map (str_bytes s) (fst (split_loop s c n (j + 1) (j + 1) ?sp)) =
              map (str_bytes s) ?sp @ take (n - length ?sp) (split_fields c (drop (j + 1) s)) \<and>
            snd (split_loop s c n (j + 1) (j + 1) ?sp) =
              min n (length ?sp + length (split_fields c (drop (j + 1) s)))"
          using True room by (intro less.hyps) auto
        moreover obtain d where "n - length splits = Suc d"
          using room by (metis Suc_diff_Suc)
        moreover then have "n - length ?sp = d" by simp
        ultimately show ?thesis
          using True sep room F one by (subst (1 2) split_loop.simps) simp
      next
        case False
        then show ?thesis
          using True sep less.prems(4) by (subst (1 2) split_loop.simps) simp
      qed
    next
      case False
      have "take (j + 1 - i) (drop i s) = ?p @ [s ! j]"
        using True less.prems(1) by (simp add: Suc_diff_le take_Suc_conv_app_nth)
      then have "c \<notin> set (take (j + 1 - i) (drop i s))"
        using False less.prems(3) by simp
      then have "map (str_bytes s) (fst (split_loop s c n i (j + 1) splits)) =
           map (str_bytes s) splits @ take (n - length splits) (split_fields c (drop i s)) \<and>
         snd (split_loop s c n i (j + 1) splits) =
           min n (length splits + length (split_fields c (drop i s)))"
        using True less.prems by (intro less.hyps) auto
      then show ?thesis
        using True False by (subst (1 2) split_loop.simps) simp
    qed
  next
    case False
    then have F: "split_fields c (drop i s) = [?p]"
      using less.prems fields_no_sep(1) [OF less.prems(3)] drop_i by simp
    show ?thesis
      using False less.prems(4) F one
      by (subst (1 2) split_loop.simps) (auto simp: take_Cons')
  qed
qed

lemma etdb_str_split_fields':
  "map (str_bytes s) (fst (etdb_str_split s c n)) = take n (split_fields c s)"
  "snd (etdb_str_split s c n) = min n (length (split_fields c s))"
  using split_loop_fields [of 0 0 s c "[]" n] by (simp_all add: etdb_str_split_def)

text \<open>
  C36: \<open>etdb_str_split\<close> fills its array with the first \<open>split_num\<close> fields of the string, in
  order, and returns how many there are; a field beyond the capacity is dropped without an
  error.
\<close>

theorem etdb_str_split_fields:
  "map (str_bytes s) (fst (etdb_str_split s c n)) = take n (split_fields c s) \<and>
   snd (etdb_str_split s c n) = min n (length (split_fields c s))"
  by (simp add: etdb_str_split_fields')

section \<open>Case conversion\<close>

definition to_lower_byte :: "byte \<Rightarrow> byte" where
  "to_lower_byte w = (if 65 \<le> w \<and> w \<le> 90 then 97 + w - 65 else w)"

definition to_upper_byte :: "byte \<Rightarrow> byte" where
  "to_upper_byte w = (if 97 \<le> w \<and> w \<le> 122 then 65 + w - 97 else w)"

text \<open>The loops run over the positions in order, each touched once.\<close>

fun etdb_str_tolower :: "bytes \<Rightarrow> bytes" where
  "etdb_str_tolower [] = []"
| "etdb_str_tolower (w # ws) = to_lower_byte w # etdb_str_tolower ws"

fun etdb_str_toupper :: "bytes \<Rightarrow> bytes" where
  "etdb_str_toupper [] = []"
| "etdb_str_toupper (w # ws) = to_upper_byte w # etdb_str_toupper ws"

lemma lower_upper_byte: "to_lower_byte (to_upper_byte w) = to_lower_byte w"
  unfolding to_lower_byte_def to_upper_byte_def by (uint_arith; simp)

lemma upper_lower_byte: "to_upper_byte (to_lower_byte w) = to_upper_byte w"
  unfolding to_lower_byte_def to_upper_byte_def by (uint_arith; simp)

lemma lower_byte_eq_iff: "to_lower_byte v = to_lower_byte w \<longleftrightarrow> to_upper_byte v = to_upper_byte w"
  by (metis lower_upper_byte upper_lower_byte)

lemma etdb_str_tolower_map: "etdb_str_tolower ws = map to_lower_byte ws"
  by (induction ws) auto

lemma etdb_str_toupper_map: "etdb_str_toupper ws = map to_upper_byte ws"
  by (induction ws) auto

lemma length_case [simp]:
  "length (etdb_str_tolower ws) = length ws" "length (etdb_str_toupper ws) = length ws"
  by (simp_all add: etdb_str_tolower_map etdb_str_toupper_map)

text \<open>
  the two conversions define the same case-insensitive comparison: strings agree after
  \<open>etdb_str_tolower\<close> exactly when they agree after \<open>etdb_str_toupper\<close>, and either conversion
  undoes the effect of the other on that comparison.
\<close>

theorem etdb_str_case_fold:
  "(etdb_str_tolower v = etdb_str_tolower w \<longleftrightarrow> etdb_str_toupper v = etdb_str_toupper w) \<and>
   etdb_str_tolower (etdb_str_toupper w) = etdb_str_tolower w \<and>
   etdb_str_toupper (etdb_str_tolower w) = etdb_str_toupper w"
  by (auto simp: etdb_str_tolower_map etdb_str_toupper_map lower_upper_byte upper_lower_byte
      list_eq_iff_nth_eq lower_byte_eq_iff)

section \<open>Trimming\<close>

fun skip_front :: "bytes \<Rightarrow> nat \<Rightarrow> nat" where
  "skip_front [] pos = pos"
| "skip_front (w # ws) pos = (if w = 32 then skip_front ws (pos + 1) else pos)"

text \<open>\<open>while(*data == ' ') --data\<close>; \<^term>\<open>None\<close> is a read before the start of the buffer.\<close>

fun skip_back :: "bytes \<Rightarrow> nat \<Rightarrow> nat option" where
  "skip_back data 0 = (if data ! 0 = 32 then None else Some 0)"
| "skip_back data (Suc d) = (if data ! Suc d = 32 then skip_back data d else Some (Suc d))"

text \<open>The string starts at offset 0 of \<open>data\<close> and has its length.\<close>

definition etdb_trim :: "bytes \<Rightarrow> etdb_str option" where
  "etdb_trim data =
     (let pos = skip_front data 0 in
      if pos = length data then Some \<lparr>slen = 0, sdata = None\<rparr>
      else map_option (\<lambda>d. \<lparr>slen = d - pos + 1, sdata = Some pos\<rparr>)
             (skip_back data (length data - 1)))"

abbreviation strip :: "bytes \<Rightarrow> bytes" where
  "strip ws \<equiv> rev (dropWhile (\<lambda>w. w = 32) (rev (dropWhile (\<lambda>w. w = 32) ws)))"

lemma skip_front_takeWhile: "skip_front ws pos = pos + length (takeWhile (\<lambda>w. w = 32) ws)"
  by (induction ws pos rule: skip_front.induct) auto

lemma skip_back_spec:
  assumes "i \<le> d" "d < length data" "data ! i \<noteq> 32"
  shows "\<exists>k. skip_back data d = Some k \<and> i \<le> k \<and> k \<le> d \<and> data ! k \<noteq> 32 \<and>
           (\<forall>m. k < m \<longrightarrow> m \<le> d \<longrightarrow> data ! m = 32)"
  using assms
proof (induction d)
  case (Suc d)
  show ?case
  proof (cases "data ! Suc d = 32")
    case True
    then have "i \<le> d" using Suc.prems by (metis le_Suc_eq)
    with Suc obtain k where "skip_back data d = Some k" "i \<le> k" "k \<le> d" "data ! k \<noteq> 32"
      "\<forall>m. k < m \<longrightarrow> m \<le> d \<longrightarrow> data ! m = 32" by auto
    with True show ?thesis by (auto simp: le_Suc_eq)
  qed (use Suc.prems in auto)
qed auto

lemma dropWhile_spaces:
  assumes "pos = length (takeWhile (\<lambda>w. w = 32) data)"
  shows "dropWhile (\<lambda>w. w = (32::byte)) data = drop pos data"
  using assms by (simp add: dropWhile_eq_drop)

lemma strip_slice:
  assumes "xs = drop pos data" "k < length data" "pos \<le> k" "data ! k \<noteq> (32::byte)"
    "\<And>m. k < m \<Longrightarrow> m < length data \<Longrightarrow> data ! m = 32"
  shows "rev (dropWhile (\<lambda>w. w = 32) (rev xs)) = take (k - pos + 1) (drop pos data)"
proof -
  have split: "xs = take (k - pos) xs @ data ! k # drop (Suc k) data"
    using assms(1-3) id_take_nth_drop [of "k - pos" xs] by simp
  have "\<forall>w\<in>set (drop (Suc k) data). w = 32"
    using assms(5) by (auto simp: in_set_conv_nth)
  then have "dropWhile (\<lambda>w. w = 32) (rev (drop (Suc k) data) @ data ! k # rev (take (k - pos) xs))
      = data ! k # rev (take (k - pos) xs)"
    using assms(4) by (subst dropWhile_append2) auto
  then have "rev (dropWhile (\<lambda>w. w = 32) (rev xs)) = take (k - pos) xs @ [data ! k]"
    by (subst split) simp
  also have "\<dots> = take (k - pos + 1) (drop pos data)"
    using assms(1-3) by (simp add: take_Suc_conv_app_nth)
  finally show ?thesis .
qed

text \<open>
  \<open>etdb_trim\<close> removes exactly the spaces at both ends and never reads before the buffer;
  a string of spaces becomes the null string.
\<close>

theorem etdb_trim_strip:
  "\<exists>r. etdb_trim data = Some r \<and> str_bytes data r = strip data \<and>
       (sdata r = None \<longleftrightarrow> strip data = [])"
proof (cases "skip_front data 0 = length data")
  case True
  then have "takeWhile (\<lambda>w. w = 32) data = data"
    by (metis add_0 length_takeWhile_le skip_front_takeWhile takeWhile_eq_take take_all_iff)
  then have e: "dropWhile (\<lambda>w. w = 32) data = []"
    by (metis append_self_conv takeWhile_dropWhile_id)
  show ?thesis
    unfolding e using True by (simp add: etdb_trim_def str_bytes_def)
next
  case False
  let ?pos = "skip_front data 0"
  have pos: "?pos = length (takeWhile (\<lambda>w. w = 32) data)"
    by (simp add: skip_front_takeWhile)
  with False have lt: "?pos < length data"
    by (metis length_takeWhile_le nat_less_le)
  then have nz: "data ! ?pos \<noteq> 32"
    using nth_length_takeWhile [of "\<lambda>w. w = 32" data] pos by simp
  from lt nz obtain k where k: "skip_back data (length data - 1) = Some k" "?pos \<le> k"
      "k \<le> length data - 1" "data ! k \<noteq> 32" "\<forall>m. k < m \<longrightarrow> m \<le> length data - 1 \<longrightarrow> data ! m = 32"
    using skip_back_spec [of ?pos "length data - 1" data] by (metis Suc_pred' diff_less le_add_diff_inverse
        less_Suc_eq_le less_nat_zero_code not_less_zero plus_1_eq_Suc zero_less_one gr0I)
  have "strip data = take (k - ?pos + 1) (drop ?pos data)"
    using k lt by (intro strip_slice) (auto simp: dropWhile_spaces [OF pos])
  moreover from this have "strip data \<noteq> []"
    using lt by simp
  ultimately show ?thesis
    using False k(1) by (simp add: etdb_trim_def Let_def str_bytes_def)
qed

section \<open>Integers\<close>

definition is_digit :: "byte \<Rightarrow> bool" where
  "is_digit w \<longleftrightarrow> 48 \<le> w \<and> w \<le> 57"

definition digit_val :: "byte \<Rightarrow> int" where
  "digit_val w = uint w - 48"

text \<open>
  The loop of \<open>etdb_atoi\<close>: \<open>i\<close> is the position, \<open>flag\<close> the sign, \<open>ret\<close> the value of \<open>*ret\<close>.
  The result is the code returned and the final \<open>*ret\<close>; additions and products wrap at 32 bits.
\<close>

fun atoi_loop :: "nat \<Rightarrow> 32 word \<Rightarrow> bytes \<Rightarrow> 32 word \<Rightarrow> int \<times> 32 word" where
  "atoi_loop i flag [] ret = (0, ret * flag)"
| "atoi_loop i flag (w # ws) ret =
     (let flag' = (if i = 0 then (if w = 43 then 1 else if w = 45 then -1 else flag) else flag)
      in if is_digit w then atoi_loop (i + 1) flag' ws (ret * 10 + word_of_int (digit_val w))
         else (-1, ret))"

definition etdb_atoi :: "bytes \<Rightarrow> int \<times> 32 word" where
  "etdb_atoi data = atoi_loop 0 1 data 0"

definition dec_val :: "bytes \<Rightarrow> int" where
  "dec_val ws = fold (\<lambda>w a. a * 10 + digit_val w) ws 0"

lemma digit_val_bounds:
  assumes "is_digit w" shows "0 \<le> digit_val w" "digit_val w \<le> 9"
  using assms by (simp_all add: is_digit_def digit_val_def word_le_def)

lemma not_digit_sign [simp]: "\<not> is_digit 43" "\<not> is_digit 45"
  by (simp_all add: is_digit_def)

lemma atoi_loop_digits:
  assumes "\<forall>w\<in>set ws. is_digit w"
  shows "atoi_loop i 1 ws (word_of_int a) =
    (0, word_of_int (fold (\<lambda>w a. a * 10 + digit_val w) ws a))"
  using assms
proof (induction ws arbitrary: i a)
  case (Cons w ws)
  then have "w \<noteq> 43" "w \<noteq> 45" by auto
  moreover have "word_of_int a * 10 + word_of_int (digit_val w) =
      (word_of_int (a * 10 + digit_val w) :: 32 word)" by simp
  moreover have "atoi_loop (i + 1) 1 ws (word_of_int (a * 10 + digit_val w)) =
      (0, word_of_int (fold (\<lambda>w a. a * 10 + digit_val w) ws (a * 10 + digit_val w)))"
    using Cons.prems by (intro Cons.IH) auto
  ultimately show ?case
    using Cons.prems by (simp only: atoi_loop.simps Let_def if_cancel if_False if_True set_simps
        insert_iff simp_thms ball_simps fold_simps)
qed simp

lemma atoi_loop_error:
  assumes "\<not> (\<forall>w\<in>set ws. is_digit w)"
  shows "fst (atoi_loop i f ws r) = -1"
  using assms by (induction i f ws r rule: atoi_loop.induct) (auto simp: Let_def)

lemma fold_dec_nonneg:
  assumes "\<forall>w\<in>set ws. is_digit w" "0 \<le> a"
  shows "0 \<le> fold (\<lambda>w a. a * 10 + digit_val w) ws a"
  using assms by (induction ws arbitrary: a) (auto simp: digit_val_bounds)

text \<open>
  C37: \<open>etdb_atoi\<close> succeeds exactly on strings of decimal digits, and the signed value it
  stores is the number they denote whenever that number fits a 32-bit \<open>int\<close>.
\<close>

theorem etdb_atoi_value:
  "(fst (etdb_atoi ws) = 0 \<longleftrightarrow> (\<forall>w\<in>set ws. is_digit w)) \<and>
   ((\<forall>w\<in>set ws. is_digit w) \<longrightarrow> dec_val ws < 2 ^ 31 \<longrightarrow> sint (snd (etdb_atoi ws)) = dec_val ws)"
proof (intro conjI impI iffI)
  show "\<forall>w\<in>set ws. is_digit w" if "fst (etdb_atoi ws) = 0"
    using that atoi_loop_error [of ws 0 1 0] by (auto simp: etdb_atoi_def)
next
  assume D: "\<forall>w\<in>set ws. is_digit w"
  from atoi_loop_digits [OF D, of 0 0]
  have e: "etdb_atoi ws = (0, word_of_int (dec_val ws))"
    by (simp add: etdb_atoi_def dec_val_def)
  then show "fst (etdb_atoi ws) = 0" by simp
  assume "dec_val ws < 2 ^ 31"
  moreover have "0 \<le> dec_val ws"
    unfolding dec_val_def using D by (rule fold_dec_nonneg) simp
  ultimately show "sint (snd (etdb_atoi ws)) = dec_val ws"
    using e by (simp add: int_word_sint)
qed

theorem etdb_atoi_value_witness:
  "fst (etdb_atoi [49, 50, 51]) = 0 \<and> sint (snd (etdb_atoi [49, 50, 51])) = 123"
  using etdb_atoi_value [of "[49, 50, 51]"]
  by (simp add: is_digit_def dec_val_def digit_val_def)

text \<open>
  A number with a leading sign is always rejected: the test for the sign is not followed
  by a step to the next character, which then fails the test for a digit.
\<close>

theorem etdb_atoi_rejects_sign:
  "fst (etdb_atoi (45 # ws)) = -1 \<and> fst (etdb_atoi (43 # ws)) = -1"
  by (simp add: etdb_atoi_def Let_def)

section \<open>Decimal output\<close>

text \<open>What \<open>printf\<close> writes for \<open>%d\<close>.\<close>

fun dec_str :: "nat \<Rightarrow> bytes" where
  "dec_str n = (if n < 10 then [48 + of_nat n] else dec_str (n div 10) @ [48 + of_nat (n mod 10)])"

declare dec_str.simps [simp del]

definition dec_int :: "int \<Rightarrow> bytes" where
  "dec_int i = (if i < 0 then 45 # dec_str (nat (- i)) else dec_str (nat i))"

lemma digit_byte:
  assumes "n < 10"
  shows "is_digit (48 + of_nat n)" "digit_val (48 + of_nat n) = int n"
proof -
  have "uint (48 + of_nat n :: byte) = 48 + int n"
  proof -
    have "48 + of_nat n = (word_of_int (48 + int n) :: byte)" by simp
    then have "uint (48 + of_nat n :: byte) = (48 + int n) mod 256" by (simp only: uint_word_of_int_eq take_bit_eq_mod) simp
    then show ?thesis using assms by simp
  qed
  then show "is_digit (48 + of_nat n)" "digit_val (48 + of_nat n) = int n"
    using assms by (simp_all add: is_digit_def digit_val_def word_le_def)
qed

lemma dec_str_digits: "\<forall>w\<in>set (dec_str n). is_digit w"
proof (induction n rule: dec_str.induct)
  case (1 n)
  show ?case
    by (subst dec_str.simps) (use 1 in \<open>auto simp: digit_byte\<close>)
qed

lemma dec_str_nonempty [simp]: "dec_str n \<noteq> []" "0 < length (dec_str n)"
proof -
  show "dec_str n \<noteq> []" by (subst dec_str.simps) simp
  then show "0 < length (dec_str n)" by simp
qed

lemma dec_val_snoc: "dec_val (ws @ [w]) = dec_val ws * 10 + digit_val w"
  by (simp add: dec_val_def)

lemma dec_val_dec_str [simp]: "dec_val (dec_str n) = int n"
proof (induction n rule: dec_str.induct)
  case (1 n)
  show ?case
  proof (cases "n < 10")
    case True
    then show ?thesis by (subst dec_str.simps) (simp add: dec_val_def digit_byte)
  next
    case False
    then have "dec_val (dec_str n) = int (n div 10) * 10 + int (n mod 10)"
      using 1 by (subst dec_str.simps) (simp add: dec_val_snoc digit_byte)
    also have "\<dots> = int (n div 10 * 10 + n mod 10)" by (simp only: of_nat_add of_nat_mult of_nat_numeral)
    finally show ?thesis by simp
  qed
qed

lemma length_dec_str: "n < 10 ^ Suc k \<Longrightarrow> length (dec_str n) \<le> Suc k"
proof (induction k arbitrary: n)
  case 0
  then show ?case by (subst dec_str.simps) simp
next
  case (Suc k)
  show ?case
  proof (cases "n < 10")
    case False
    have "n div 10 < 10 ^ Suc k" using Suc.prems by (simp add: less_mult_imp_div_less)
    then have "length (dec_str (n div 10)) \<le> Suc k" by (rule Suc.IH)
    with False show ?thesis by (subst dec_str.simps) simp
  qed (subst dec_str.simps, simp)
qed

lemma hd_dec_str: "is_digit (hd (dec_str n))"
  using dec_str_digits [of n] by (cases "dec_str n") (use dec_str_nonempty [of n] in auto)

section \<open>Floating-point numbers\<close>

text \<open>\<open>rnd p x\<close> rounds to \<open>p\<close> significant bits, to nearest with ties to even.\<close>

fun ilog2 :: "nat \<Rightarrow> nat" where
  "ilog2 n = (if n \<le> 1 then 0 else Suc (ilog2 (n div 2)))"

declare ilog2.simps [simp del]

definition expo :: "rat \<Rightarrow> int" where
  "expo x = (let (n, d) = quotient_of x; k = int (ilog2 (nat n)) - int (ilog2 (nat d))
     in if 2 powi k \<le> x then k else k - 1)"

definition round_even :: "rat \<Rightarrow> int" where
  "round_even y = (let f = \<lfloor>y\<rfloor>; r = y - of_int f
     in if r < 1 / 2 \<or> (r = 1 / 2 \<and> even f) then f else f + 1)"

definition rnd :: "nat \<Rightarrow> rat \<Rightarrow> rat" where
  "rnd p x = (if x = 0 then 0
     else let e = expo \<bar>x\<bar> - (int p - 1) in of_int (round_even (x / 2 powi e)) * 2 powi e)"

abbreviation to_float :: "rat \<Rightarrow> rat" where "to_float \<equiv> rnd 24"
abbreviation to_double :: "rat \<Rightarrow> rat" where "to_double \<equiv> rnd 53"

fun atof_loop :: "nat \<Rightarrow> rat \<Rightarrow> rat \<Rightarrow> bytes \<Rightarrow> rat \<Rightarrow> int \<times> rat" where
  "atof_loop i flag step [] ret = (0, to_double (ret * flag))"
| "atof_loop i flag step (w # ws) ret =
     (let flag' = (if i = 0 then (if w = 45 then -1 else if w = 43 then 1 else flag) else flag)
      in if w = 46 then atof_loop (i + 1) flag' (to_float (to_double (1 / 10))) ws ret
         else if is_digit w then
           (if step < 1
            then atof_loop (i + 1) flag' (to_float (to_double (step * to_double (1 / 10)))) ws
                   (to_double (ret + to_float (of_int (digit_val w) * step)))
            else atof_loop (i + 1) flag' step ws
                   (to_double (to_double (ret * 10) + of_int (digit_val w))))
         else (-1, ret))"

definition etdb_atof :: "bytes \<Rightarrow> int \<times> rat" where
  "etdb_atof data = atof_loop 0 1 1 data 0"

lemma ilog2_less: "0 < p \<Longrightarrow> n < 2 ^ p \<Longrightarrow> ilog2 n < p"
proof (induction n arbitrary: p rule: ilog2.induct)
  case (1 n)
  show ?case
  proof (cases "n \<le> 1")
    case False
    with 1 obtain q where q: "p = Suc q" "0 < q"
      by (cases p) (auto, metis One_nat_def less_2_cases_iff not_less_eq_eq power_0 One_nat_def
          less_one linorder_neqE_nat mult.right_neutral not_less numeral_2_eq_2 less_Suc_eq_le)
    then have "n div 2 < 2 ^ q" using 1(3) by simp
    with 1(1) [OF False] q have "ilog2 (n div 2) < q" by simp
    with False q show ?thesis by (subst ilog2.simps) simp
  qed (use 1 in \<open>simp add: ilog2.simps\<close>)
qed

lemma round_even_of_int [simp]: "round_even (of_int m) = m"
  by (simp add: round_even_def)

lemma rnd_of_int:
  assumes "0 \<le> n" "n < 2 ^ p" "0 < p"
  shows "rnd p (of_int n) = of_int n"
proof (cases "n = 0")
  case False
  then have pos: "0 < n" using assms(1) by simp
  let ?e = "expo \<bar>of_int n\<bar> - (int p - 1)"
  have "nat n < 2 ^ p"
    using assms(1,2) by (simp add: nat_less_iff)
  then have "int (ilog2 (nat n)) < int p"
    using ilog2_less assms(3) by simp
  moreover have "ilog2 1 = 0" by (simp add: ilog2.simps)
  ultimately have "?e \<le> 0"
    using pos by (simp add: expo_def Let_def)
  then obtain k where k: "?e = - int k"
    by (metis neg_0_le_iff_le nonneg_int_cases minus_equation_iff)
  have "(of_int n :: rat) / 2 powi ?e = of_int (n * 2 ^ k)"
    unfolding k by (simp add: power_int_minus field_simps)
  then have "rnd p (of_int n) = of_int (n * 2 ^ k) * 2 powi ?e"
    using False by (simp only: rnd_def Let_def of_int_eq_0_iff if_False round_even_of_int)
  also have "\<dots> = of_int n"
    unfolding k by (simp add: power_int_minus)
  finally show ?thesis .
qed (simp add: rnd_def)

lemma fold_dec_mono:
  assumes "\<forall>w\<in>set ws. is_digit w" "0 \<le> a"
  shows "a \<le> fold (\<lambda>w a. a * 10 + digit_val w) ws a"
  using assms
proof (induction ws arbitrary: a)
  case (Cons w ws)
  have "a \<le> a * 10 + digit_val w" "0 \<le> a * 10 + digit_val w"
    using Cons.prems digit_val_bounds [of w] by auto
  with Cons show ?case by (simp, meson order_trans)
qed simp

lemma atof_loop_digits:
  assumes "\<forall>w\<in>set ws. is_digit w" "0 \<le> a" "fold (\<lambda>w a. a * 10 + digit_val w) ws a < 2 ^ 53"
  shows "atof_loop i 1 1 ws (of_int a) =
    (0, of_int (fold (\<lambda>w a. a * 10 + digit_val w) ws a))"
  using assms
proof (induction ws arbitrary: i a)
  case Nil
  then show ?case by (simp add: rnd_of_int)
next
  case (Cons w ws)
  let ?b = "a * 10 + digit_val w"
  from Cons.prems have w: "is_digit w" "w \<noteq> 45" "w \<noteq> 43" "w \<noteq> 46"
    by (auto simp: is_digit_def)
  note dv = digit_val_bounds [OF w(1)]
  have b: "?b < 2 ^ 53"
    using fold_dec_mono [of ws ?b] Cons.prems dv by auto
  have "to_double (of_int a * 10) = of_int (a * 10)"
    using rnd_of_int [of "a * 10" 53] Cons.prems(2) dv b by simp
  then have "to_double (to_double (of_int a * 10) + of_int (digit_val w)) = to_double (of_int ?b)"
    by simp
  also have "\<dots> = of_int ?b"
    using Cons.prems(2) dv b by (intro rnd_of_int) auto
  finally have r: "to_double (to_double (of_int a * 10) + of_int (digit_val w)) = of_int ?b" .
  have "atof_loop (i + 1) 1 1 ws (of_int ?b) =
      (0, of_int (fold (\<lambda>w a. a * 10 + digit_val w) ws ?b))"
    using Cons.prems dv by (intro Cons.IH) auto
  then show ?case
    using w by (simp only: atof_loop.simps Let_def if_cancel if_False if_True r less_irrefl fold_simps)
qed

lemma atof_loop_error:
  "fst (atof_loop i f st ws r) = 0 \<longleftrightarrow> (\<forall>w\<in>set ws. is_digit w \<or> w = 46)"
  by (induction i f st ws r rule: atof_loop.induct) (auto simp: Let_def)

text \<open>
  C38: \<open>etdb_atof\<close> accepts exactly the strings of digits and points (any number of points, no
  sign), and reads a string of digits below \<open>2 ^ 53\<close> without a rounding error.
\<close>

theorem etdb_atof_value:
  "(fst (etdb_atof ws) = 0 \<longleftrightarrow> (\<forall>w\<in>set ws. is_digit w \<or> w = 46)) \<and>
   ((\<forall>w\<in>set ws. is_digit w) \<longrightarrow> dec_val ws < 2 ^ 53 \<longrightarrow>
     etdb_atof ws = (0, of_int (dec_val ws)))"
  using atof_loop_digits [of ws 0 0] by (simp add: etdb_atof_def atof_loop_error dec_val_def)

theorem etdb_atof_value_witness:
  "fst (etdb_atof [49, 46, 46, 53]) = 0 \<and> etdb_atof [49, 50] = (0, 12)"
  using etdb_atof_value [of "[49, 46, 46, 53]"] etdb_atof_value [of "[49, 50]"]
  by (simp add: is_digit_def dec_val_def digit_val_def)

section \<open>Formatted output\<close>

text \<open>
  \<open>buf\<close> is the array of 1024 bytes, \<open>args\<close> are the arguments and the result is what is written to
  the stream: \<open>pos\<close> is the start of the array again after the \<open>memcpy\<close>, and everything but \<open>%V\<close> is
  skipped. \<^term>\<open>None\<close> is the end of the arguments, of the array, or of the format behind a \<open>%\<close>.
\<close>

fun etdb_vslprintf :: "bytes \<Rightarrow> bytes \<Rightarrow> bytes list \<Rightarrow> bytes option" where
  "etdb_vslprintf buf [] args = Some []"
| "etdb_vslprintf buf (c # format) args =
     (if c \<noteq> 37 then etdb_vslprintf buf format args
      else case format of
             [] \<Rightarrow> None
           | d # format \<Rightarrow>
               if d \<noteq> 86 then etdb_vslprintf buf format args
               else case args of
                      [] \<Rightarrow> None
                    | v # args \<Rightarrow>
                        if length v > length buf then None
                        else
                          let buf = (v @ drop (length v) buf)[1 := 0]
                          in map_option ((@) (takeWhile (\<lambda>w. w \<noteq> 0) buf)) (etdb_vslprintf buf format args))"

definition etdb_fprintf :: "(nat \<Rightarrow> byte) \<Rightarrow> bytes \<Rightarrow> bytes list \<Rightarrow> bytes option" where
  "etdb_fprintf raw format args = etdb_vslprintf (map raw [0..<1024]) format args"

text \<open>Of every string only the first byte is written.\<close>

lemma vslprintf_heads:
  assumes "\<forall>v\<in>set vs. v \<noteq> [] \<and> hd v \<noteq> 0 \<and> length v \<le> length buf" "2 \<le> length buf"
  shows "etdb_vslprintf buf (concat (map (\<lambda>_. [37, 86]) vs)) vs = Some (map hd vs)"
  using assms
proof (induction vs arbitrary: buf)
  case (Cons v vs)
  let ?buf = "(v @ drop (length v) buf)[1 := 0]"
  obtain x w where v: "v = x # w" using Cons.prems by (cases v) auto
  have len: "length ?buf = length buf" using Cons.prems(1) by simp
  obtain y r where r: "w @ drop (length v) buf = y # r"
    using Cons.prems v by (cases "w @ drop (length v) buf") (auto simp: Suc_le_eq)
  have "takeWhile (\<lambda>w. w \<noteq> 0) ?buf = [hd v]" using Cons.prems(1) r by (simp add: v)
  then show ?case using Cons.prems Cons.IH [of ?buf] len by (simp add: Let_def)
qed simp

end
