(* ===== verification/Buf.thy ===== *)
theory Buf
  imports Strings
begin

text \<open>
  The I/O buffer of \<open>src/etdb_buf.c\<close> and the record format it writes.

  The memory of a buffer is a function from the offset to \<open>start\<close>; \<open>data\<close> is an offset too.
  What \<open>realloc\<close> leaves in the new part is whatever that function says there. \<open>ok n\<close> tells
  whether \<open>etdb_prealloc_large\<close> can provide \<open>n\<close> bytes. Sizes are numbers below \<open>2 ^ 64\<close>, the values of
  a \<open>size_t\<close>, and capacities are bounded by the memory: a subtraction that goes below 0 wraps, and a
  size that has wrapped, which is then larger than the capacity, wraps back by addition.
\<close>

record etdb_buf =
  bmem :: "nat \<Rightarrow> byte"
  bdata :: nat
  bsize :: nat
  bcap :: nat

definition size_sub :: "nat \<Rightarrow> nat \<Rightarrow> nat" where
  "size_sub a b = (if b \<le> a then a - b else 2 ^ 64 + a - b)"

definition size_plus :: "etdb_buf \<Rightarrow> nat \<Rightarrow> nat" where
  "size_plus b n = (if bsize b \<le> bcap b then bsize b + n else (bsize b + n) mod 2 ^ 64)"

definition etdb_buf_init :: "(nat \<Rightarrow> byte) \<Rightarrow> nat \<Rightarrow> etdb_buf" where
  "etdb_buf_init mem cap = \<lparr>bmem = mem, bdata = 0, bsize = 0, bcap = cap\<rparr>"

definition etdb_buf_nice :: "etdb_buf \<Rightarrow> etdb_buf" where
  "etdb_buf_nice b =
     (if bdata b > bcap b div 2
      then b\<lparr>bmem := (\<lambda>i. if i < bsize b then bmem b (bdata b + i) else bmem b i), bdata := 0\<rparr>
      else b)"

text \<open>The copy reads behind the memory of the buffer: the size has wrapped.\<close>

definition nice_leaves :: "etdb_buf \<Rightarrow> bool" where
  "nice_leaves b \<longleftrightarrow> bdata b > bcap b div 2 \<and> bcap b < bdata b + bsize b"

definition etdb_buf_space :: "etdb_buf \<Rightarrow> nat" where
  "etdb_buf_space b = size_sub (size_sub (bcap b) (bdata b)) (bsize b)"

definition etdb_buf_incr :: "etdb_buf \<Rightarrow> nat \<Rightarrow> etdb_buf" where
  "etdb_buf_incr b num = b\<lparr>bsize := size_plus b num\<rparr>"

definition etdb_buf_decr :: "etdb_buf \<Rightarrow> nat \<Rightarrow> etdb_buf" where
  "etdb_buf_decr b num = b\<lparr>bsize := size_sub (bsize b) num, bdata := bdata b + num\<rparr>"

definition etdb_buf_slot :: "etdb_buf \<Rightarrow> nat" where
  "etdb_buf_slot b = size_plus b (bdata b)"

text \<open>The code returned and the buffer.\<close>

definition etdb_buf_grow :: "(nat \<Rightarrow> bool) \<Rightarrow> etdb_buf \<Rightarrow> int \<times> etdb_buf" where
  "etdb_buf_grow ok b =
     (let n = bcap b * 2 in if \<not> ok n then (-1, b) else (0, b\<lparr>bcap := n\<rparr>))"

text \<open>\<open>while(size > space) grow\<close>; \<^term>\<open>Inl b\<close> when the growth failed.\<close>

partial_function (option) grow_loop ::
    "(nat \<Rightarrow> bool) \<Rightarrow> nat \<Rightarrow> etdb_buf \<Rightarrow> (etdb_buf + etdb_buf) option" where
  "grow_loop ok need b =
     (if need > etdb_buf_space b then
        (case etdb_buf_grow ok b of (r, b') \<Rightarrow>
           if r = -1 then Some (Inl b') else grow_loop ok need b')
      else Some (Inr b))"

definition mem_write :: "etdb_buf \<Rightarrow> nat \<Rightarrow> bytes \<Rightarrow> etdb_buf" where
  "mem_write b p s = b\<lparr>bmem := (\<lambda>i. if p \<le> i \<and> i < p + length s then s ! (i - p) else bmem b i)\<rparr>"

definition etdb_buf_append_record :: "(nat \<Rightarrow> bool) \<Rightarrow> etdb_buf \<Rightarrow> bytes \<Rightarrow> (int \<times> etdb_buf) option" where
  "etdb_buf_append_record ok b str =
     (let size = 16 + 2 * length str + 1 in
      map_option (\<lambda>r. case r of
          Inl b1 \<Rightarrow> (-1, b1)
        | Inr b1 \<Rightarrow>
            let len = dec_int (sint (of_nat (length str) :: 32 word)) @ [10];
                num = length len;
                p = etdb_buf_slot b1;
                b2 = mem_write b1 p len;
                p = p + num;
                b3 = mem_write b2 p str;
                p = p + length str;
                b4 = mem_write b3 p [10]
            in (int (num + length str + 1), etdb_buf_incr b4 (num + length str + 1)))
        (grow_loop ok size b))"

definition etdb_buf_append_record_tail :: "(nat \<Rightarrow> bool) \<Rightarrow> etdb_buf \<Rightarrow> (int \<times> etdb_buf) option" where
  "etdb_buf_append_record_tail ok b =
     map_option (\<lambda>(r, b'). (0, b')) (etdb_buf_append_record ok b [])"

section \<open>Contents\<close>

text \<open>The bytes between \<open>data\<close> and \<open>data + size\<close>, and the record format.\<close>

definition mem_read :: "(nat \<Rightarrow> byte) \<Rightarrow> nat \<Rightarrow> nat \<Rightarrow> bytes" where
  "mem_read mem p n = map mem [p..<p + n]"

definition buf_bytes :: "etdb_buf \<Rightarrow> bytes" where
  "buf_bytes b = mem_read (bmem b) (bdata b) (bsize b)"

definition buf_wf :: "etdb_buf \<Rightarrow> bool" where
  "buf_wf b \<longleftrightarrow> bdata b + bsize b \<le> bcap b \<and> 0 < bcap b"

definition encode_record :: "bytes \<Rightarrow> bytes" where
  "encode_record s = dec_str (length s) @ [10] @ s @ [10]"

lemma wf_sizes [simp]:
  assumes "buf_wf b"
  shows "size_plus b n = bsize b + n" "etdb_buf_slot b = bdata b + bsize b" "\<not> nice_leaves b"
    "etdb_buf_space b = bcap b - bdata b - bsize b" "n \<le> bsize b \<Longrightarrow> size_sub (bsize b) n = bsize b - n"
  using assms by (auto simp: buf_wf_def size_plus_def etdb_buf_slot_def nice_leaves_def etdb_buf_space_def size_sub_def)

lemma mem_read_length [simp]: "length (mem_read mem p n) = n"
  by (simp add: mem_read_def)

lemma mem_read_append: "mem_read mem p (m + n) = mem_read mem p m @ mem_read mem (p + m) n"
  unfolding mem_read_def add.assoc [symmetric] upt_add_eq_append [OF le_add1] map_append by (rule refl)

lemma mem_read_cong: "(\<And>i. p \<le> i \<Longrightarrow> i < p + n \<Longrightarrow> m i = m' i) \<Longrightarrow> mem_read m p n = mem_read m' p n"
  by (simp add: mem_read_def)

lemma mem_read_written: "mem_read (bmem (mem_write b p s)) p (length s) = s"
  by (rule nth_equalityI) (simp_all add: mem_write_def mem_read_def)

lemma mem_read_below: "q + n \<le> p \<Longrightarrow> mem_read (bmem (mem_write b p s)) q n = mem_read (bmem b) q n"
  by (rule mem_read_cong) (simp add: mem_write_def)

lemma mem_write_acc [simp]:
  "bdata (mem_write b p s) = bdata b" "bsize (mem_write b p s) = bsize b" "bcap (mem_write b p s) = bcap b"
  by (simp_all add: mem_write_def)

lemma append_bytes:
  assumes "buf_wf b"
  shows "buf_bytes (etdb_buf_incr (mem_write b (etdb_buf_slot b) s) (length s)) = buf_bytes b @ s"
proof -
  have "size_plus (mem_write b p s) n = bsize b + n" for p n using assms by (simp add: size_plus_def buf_wf_def)
  then show ?thesis
    using mem_read_written [of b "bdata b + bsize b" s] assms
    by (simp add: buf_bytes_def etdb_buf_incr_def mem_read_append mem_read_below)
qed

lemma mem_write_append:
  "mem_write (mem_write b p s) (p + length s) r = mem_write b p (s @ r)"
  by (rule etdb_buf.equality) (auto simp: mem_write_def fun_eq_iff nth_append)

text \<open>\<open>etdb_buf_nice\<close> moves the data without changing or overlapping it.\<close>

lemma buf_nice:
  assumes "buf_wf b"
  shows "buf_bytes (etdb_buf_nice b) = buf_bytes b" "buf_wf (etdb_buf_nice b)"
    "bdata b > bcap b div 2 \<Longrightarrow> bsize b \<le> bdata b"
  using assms by (auto simp: buf_bytes_def etdb_buf_nice_def buf_wf_def mem_read_def
      intro!: nth_equalityI)

lemma buf_decr:
  assumes "buf_wf b" "n \<le> bsize b"
  shows "buf_bytes (etdb_buf_decr b n) = drop n (buf_bytes b)" "buf_wf (etdb_buf_decr b n)"
  using assms by (auto simp: buf_bytes_def etdb_buf_decr_def size_sub_def mem_read_def buf_wf_def drop_map)

lemma grow_loop_total:
  assumes "buf_wf b"
  shows "\<exists>r. grow_loop ok need b = Some r \<and>
    (case r of Inl b' \<Rightarrow> bmem b' = bmem b \<and> bdata b' = bdata b \<and> bsize b' = bsize b \<and> bcap b \<le> bcap b'
     | Inr b' \<Rightarrow> bmem b' = bmem b \<and> bdata b' = bdata b \<and> bsize b' = bsize b \<and> bcap b \<le> bcap b' \<and>
         need \<le> etdb_buf_space b') \<and> ((\<forall>n. ok n) \<longrightarrow> (\<exists>b'. r = Inr b'))"
  using assms
proof (induction "need + bdata b + bsize b - bcap b" arbitrary: b rule: less_induct)
  case less
  show ?case
  proof (cases "need > etdb_buf_space b \<and> ok (bcap b * 2)")
    case True
    let ?b = "b\<lparr>bcap := bcap b * 2\<rparr>"
    have "need + bdata ?b + bsize ?b - bcap ?b < need + bdata b + bsize b - bcap b" "buf_wf ?b"
      using True less.prems by (auto simp: buf_wf_def)
    from less.hyps [OF this] obtain r where
      "grow_loop ok need ?b = Some r" and r: "case r of
        Inl b' \<Rightarrow> bmem b' = bmem ?b \<and> bdata b' = bdata ?b \<and> bsize b' = bsize ?b \<and> bcap ?b \<le> bcap b'
      | Inr b' \<Rightarrow> bmem b' = bmem ?b \<and> bdata b' = bdata ?b \<and> bsize b' = bsize ?b \<and> bcap ?b \<le> bcap b' \<and>
         need \<le> etdb_buf_space b'" "(\<forall>n. ok n) \<longrightarrow> (\<exists>b'. r = Inr b')"
      by auto
    then have "grow_loop ok need b = Some r"
      using True by (subst grow_loop.simps) (simp add: etdb_buf_grow_def)
    with r show ?thesis by (auto split: sum.splits)
  next
    case False
    then show ?thesis
      by (subst (1) grow_loop.simps) (auto simp: etdb_buf_grow_def Let_def)
  qed
qed

text \<open>A record is appended whole or not at all.\<close>

lemma append_record_run:
  assumes "buf_wf b" "length s < 2 ^ 31"
  shows "\<exists>r b'. etdb_buf_append_record ok b s = Some (r, b') \<and> buf_wf b' \<and>
    (if r = -1 then buf_bytes b' = buf_bytes b
     else buf_bytes b' = buf_bytes b @ encode_record s \<and> r = int (length (encode_record s))) \<and>
    ((\<forall>n. ok n) \<longrightarrow> r \<noteq> -1)"
proof -
  let ?need = "16 + 2 * length s + 1"
  from grow_loop_total [OF assms(1), of ok ?need] obtain r where g: "grow_loop ok ?need b = Some r" and
    r: "case r of
        Inl b' \<Rightarrow> bmem b' = bmem b \<and> bdata b' = bdata b \<and> bsize b' = bsize b \<and> bcap b \<le> bcap b'
      | Inr b' \<Rightarrow> bmem b' = bmem b \<and> bdata b' = bdata b \<and> bsize b' = bsize b \<and> bcap b \<le> bcap b' \<and>
         ?need \<le> etdb_buf_space b'" "(\<forall>n. ok n) \<longrightarrow> (\<exists>b'. r = Inr b')"
    by blast
  show ?thesis
  proof (cases r)
    case (Inl b1)
    with r have "buf_bytes b1 = buf_bytes b" "buf_wf b1" "\<not> (\<forall>n. ok n)"
      using assms(1) by (auto simp: buf_bytes_def buf_wf_def)
    then show ?thesis
      using g Inl by (auto simp: etdb_buf_append_record_def)
  next
    case (Inr b1)
    have sint: "sint (of_nat (length s) :: 32 word) = int (length s)"
      using assms(2) int_word_sint [of "int (length s)", where ?'a = 32] by simp
    have len: "dec_int (sint (of_nat (length s) :: 32 word)) = dec_str (length s)"
      by (simp add: sint dec_int_def)
    have num: "length (dec_str (length s)) \<le> 10"
      using length_dec_str [of "length s" 9] assms(2) by simp
    let ?rec = "encode_record s"
    let ?b4 = "etdb_buf_incr (mem_write b1 (etdb_buf_slot b1) ?rec) (length ?rec)"
    have e: "etdb_buf_append_record ok b s = Some (int (length ?rec), ?b4)"
      using g Inr mem_write_append [of b1 "etdb_buf_slot b1" "dec_str (length s) @ [10]" s]
        mem_write_append [of b1 "etdb_buf_slot b1" "dec_str (length s) @ [10] @ s" "[10]"]
      by (simp add: etdb_buf_append_record_def len Let_def encode_record_def add.assoc)
    have "buf_bytes b1 = buf_bytes b"
      using r(1) Inr by (simp add: buf_bytes_def)
    moreover have w1: "buf_wf b1" using r(1) Inr assms(1) by (auto simp: buf_wf_def)
    ultimately have bytes: "buf_bytes ?b4 = buf_bytes b @ ?rec"
      using append_bytes [of b1 ?rec] by simp
    have "?need \<le> etdb_buf_space b1" using r(1) Inr by simp
    then have "?need \<le> bcap b1 - bdata b1 - bsize b1" by (simp only: wf_sizes(4) [OF w1])
    then have "buf_wf ?b4"
      using w1 num by (auto simp: buf_wf_def etdb_buf_incr_def size_plus_def encode_record_def)
    then show ?thesis
      using bytes by (simp add: e encode_record_def)
  qed
qed

text \<open>
  C31: \<open>etdb_buf_append_record\<close> always returns; it either appends exactly the record to the
  buffered bytes, inside the capacity, or fails to grow and leaves them unchanged.
\<close>

theorem etdb_buf_append_record_spec:
  assumes "buf_wf b" "length s < 2 ^ 31"
  shows "\<exists>r b'. etdb_buf_append_record ok b s = Some (r, b') \<and> buf_wf b' \<and>
    (if r = -1 then buf_bytes b' = buf_bytes b
     else buf_bytes b' = buf_bytes b @ encode_record s \<and> r = int (length (encode_record s))) \<and>
    ((\<forall>n. ok n) \<longrightarrow> r \<noteq> -1)"
  by (rule append_record_run [OF assms])

theorem etdb_buf_append_record_spec_witness:
  "\<exists>r b'. etdb_buf_append_record (\<lambda>_. True) (etdb_buf_init (\<lambda>_. 0) 4) [97, 98] = Some (r, b') \<and>
     buf_bytes b' = [50, 10, 97, 98, 10]"
proof -
  have "buf_wf (etdb_buf_init (\<lambda>_. 0) 4)" by (simp add: buf_wf_def etdb_buf_init_def)
  moreover have "length ([97, 98] :: bytes) < 2 ^ 31" by simp
  moreover have "encode_record [97, 98] = [50, 10, 97, 98, 10]"
    by (simp add: encode_record_def dec_str.simps)
  moreover have "buf_bytes (etdb_buf_init (\<lambda>_. 0) 4) = []"
    by (simp add: buf_bytes_def etdb_buf_init_def mem_read_def)
  ultimately show ?thesis
    using etdb_buf_append_record_spec [of "etdb_buf_init (\<lambda>_. 0) 4" "[97, 98]" "\<lambda>_. True"] by force
qed

end
