(* ===== verification/Resp.thy ===== *)
theory Resp
  imports Buf
begin

text \<open>
  The request parser of \<open>src/etdb_resp.c\<close> and the part of \<open>etdb_connection_t\<close> it works on.

  A parsed argument is a slice of the input buffer (\<open>etdb_bytes_set\<close> stores a pointer): the
  queues \<open>recv_cmd\<close> and \<open>free_cmd\<close> are lists of slices, \<open>queue\<close> cells as lists (theory
  \<open>Queue\<close>). \<open>size\<close> and \<open>parsed\<close> are \<open>size_t\<close>, 64-bit words that wrap; reads of the buffer
  memory at or beyond its capacity are the outcome \<open>Outside\<close>.
\<close>

record slice =
  soff :: nat
  slength :: nat

record etdb_connection =
  sock :: int
  noblock :: bool
  buf_in :: etdb_buf
  buf_out :: etdb_buf
  recv_cmd :: "slice list"
  free_cmd :: "slice list"
  slot :: int

definition slice_bytes :: "etdb_connection \<Rightarrow> slice \<Rightarrow> bytes" where
  "slice_bytes conn s = mem_read (bmem (buf_in conn)) (soff s) (slength s)"

definition ETDB_MAX_PACKET_SIZE :: "64 word" where
  "ETDB_MAX_PACKET_SIZE = 32 * 1024 * 1024"

section \<open>Library functions\<close>

datatype search = NotFound | Found nat | Beyond

text \<open>\<open>memchr(p, '\n', n)\<close> on a memory of \<open>cap\<close> bytes.\<close>

function memchr :: "(nat \<Rightarrow> byte) \<Rightarrow> nat \<Rightarrow> nat \<Rightarrow> nat \<Rightarrow> search" where
  "memchr mem cap p n =
     (if n = 0 then NotFound else if cap \<le> p then Beyond
      else if mem p = 10 then Found p else memchr mem cap (p + 1) (n - 1))"
  by pat_completeness auto
termination by (relation "measure (\<lambda>(_, _, _, n). n)") auto

declare memchr.simps [simp del]

text \<open>\<open>atoi\<close> of a string that starts with a digit.\<close>

definition c_atoi :: "bytes \<Rightarrow> int" where
  "c_atoi s = sint (word_of_int (dec_val (takeWhile is_digit s)) :: 32 word)"

lemma memchr_bounds: "memchr mem cap p n = Found q \<Longrightarrow> p \<le> q \<and> q < cap"
proof (induction mem cap p n rule: memchr.induct)
  case (1 mem cap p n)
  then show ?case
    by (subst (asm) (2) memchr.simps) (auto split: if_splits)
qed

section \<open>The parser\<close>

definition etdb_connect_alloc_bytes :: "slice list \<Rightarrow> slice list" where
  "etdb_connect_alloc_bytes free = (case free of [] \<Rightarrow> [] | _ # r \<Rightarrow> r)"

text \<open>
  \<open>Complete\<close> (0), \<open>Partial\<close> (1) and \<open>Malformed\<close> (-1) carry the number of bytes parsed and the
  two queues; \<open>Outside\<close> is a read beyond the memory of the buffer.
\<close>

datatype parse_result =
    Complete "64 word" "slice list" "slice list"
  | Partial "slice list" "slice list"
  | Malformed "slice list" "slice list"
  | Outside

definition parse_end :: "slice list \<Rightarrow> slice list \<Rightarrow> parse_result" where
  "parse_end recv free = (if recv \<noteq> [] then Partial [] (free @ recv) else Partial recv free)"

function parse_loop ::
    "(nat \<Rightarrow> byte) \<Rightarrow> nat \<Rightarrow> nat \<Rightarrow> 64 word \<Rightarrow> 64 word \<Rightarrow> slice list \<Rightarrow> slice list \<Rightarrow> parse_result"
where
  "parse_loop mem cap head sz parsed recv free =
     (if sz > 0 then
        (case memchr mem cap head (unat sz) of
           Beyond \<Rightarrow> Outside
         | NotFound \<Rightarrow> parse_end recv free
         | Found nl \<Rightarrow>
             let body = nl + 1; head_len = body - head in
             if \<not> is_digit (mem head) then Malformed recv free
             else if head_len > 16 - 1 then Malformed recv free
             else
               let body_len = c_atoi (mem_read mem head (head_len - 1)) in
               if body_len < 0 then Malformed recv free
               else
                 let step = word_of_int (sint (of_nat head_len + word_of_int body_len :: 32 word));
                     sz = sz - step in
                 if cap \<le> body then Outside
                 else if mem body = 10 \<and> body_len = 0 then Complete (parsed + step) recv free
                 else
                   let free = etdb_connect_alloc_bytes free;
                       recv = recv @ [\<lparr>soff = body, slength = nat body_len\<rparr>];
                       head' = head + head_len + nat body_len;
                       parsed = parsed + step in
                   if sz > 0 then
                     if cap \<le> head' then Outside
                     else if mem head' = 10 then
                       if parsed + 1 > ETDB_MAX_PACKET_SIZE then Malformed recv free
                       else parse_loop mem cap (head' + 1) (sz - 1) (parsed + 1) recv free
                     else parse_end recv free
                   else parse_end recv free)
      else parse_end recv free)"
  by pat_completeness auto
termination
  by (relation "measure (\<lambda>(_, cap, head, _). cap - head)") (auto dest!: memchr_bounds)

declare parse_loop.simps [simp del]

text \<open>\<open>while(size > 0 && head[0] == '\n')\<close>; behind the memory the parser finds out.\<close>

function skip_newlines ::
    "(nat \<Rightarrow> byte) \<Rightarrow> nat \<Rightarrow> nat \<Rightarrow> 64 word \<Rightarrow> 64 word \<Rightarrow> nat \<times> 64 word \<times> 64 word" where
  "skip_newlines mem cap head sz parsed =
     (if sz > 0 \<and> head < cap \<and> mem head = 10 then skip_newlines mem cap (head + 1) (sz - 1) (parsed + 1)
      else (head, sz, parsed))"
  by pat_completeness auto
termination
  by (relation "measure (\<lambda>(_, _, _, sz, _). unat sz)")
    (auto simp: unat_minus_one word_neq_0_conv [symmetric] unat_gt_0)

declare skip_newlines.simps [simp del]

definition etdb_resp_parse_req :: "etdb_connection \<Rightarrow> (int \<times> etdb_connection) option" where
  "etdb_resp_parse_req conn =
     (let b = buf_in conn;
          (head, sz, parsed) = skip_newlines (bmem b) (bcap b) (bdata b) (of_nat (bsize b)) 0
      in case parse_loop (bmem b) (bcap b) head sz parsed (recv_cmd conn) (free_cmd conn) of
           Complete n recv free \<Rightarrow>
             Some (0, conn\<lparr>recv_cmd := recv, free_cmd := free, buf_in := etdb_buf_decr b (unat n)\<rparr>)
         | Partial recv free \<Rightarrow> Some (1, conn\<lparr>recv_cmd := recv, free_cmd := free\<rparr>)
         | Malformed recv free \<Rightarrow> Some (-1, conn\<lparr>recv_cmd := recv, free_cmd := free\<rparr>)
         | Outside \<Rightarrow> None)"

text \<open>
  \<open>etdb_resp_recv_req\<close> ends without a \<open>return\<close> when a request was parsed: \<open>junk\<close> is the
  value its caller then sees.
\<close>

definition etdb_resp_recv_req ::
    "int \<Rightarrow> (nat \<Rightarrow> bool) \<Rightarrow> etdb_connection \<Rightarrow> (int \<times> etdb_connection) option" where
  "etdb_resp_recv_req junk ok conn =
     (case etdb_resp_parse_req conn of
        None \<Rightarrow> None
      | Some (ret, conn) \<Rightarrow>
          if ret = -1 then Some (-1, conn)
          else if recv_cmd conn = [] then
            if etdb_buf_space (buf_in conn) = 0 then
              if nice_leaves (buf_in conn) then None
              else let conn = conn\<lparr>buf_in := etdb_buf_nice (buf_in conn)\<rparr> in
              if etdb_buf_space (buf_in conn) = 0 then
                let (r, b) = etdb_buf_grow ok (buf_in conn); conn = conn\<lparr>buf_in := b\<rparr> in
                if r = -1 then Some (-1, conn) else Some (1, conn)
              else Some (1, conn)
            else Some (1, conn)
          else Some (junk, conn))"

section \<open>Requests\<close>

definition encode_request :: "bytes list \<Rightarrow> bytes" where
  "encode_request args = concat (map encode_record args) @ encode_record []"

lemma memchr_found:
  assumes "mem_read mem p n = xs @ 10 # ys" "10 \<notin> set xs" "p + n \<le> cap"
  shows "memchr mem cap p n = Found (p + length xs)"
  using assms
proof (induction xs arbitrary: p n)
  case Nil
  then have "n \<noteq> 0" by (cases n) (auto simp: mem_read_def)
  with Nil show ?case
    by (subst memchr.simps) (auto simp: mem_read_def upt_rec [of p])
next
  case (Cons x xs)
  from Cons.prems(1) have "n \<noteq> 0" by (cases n) (auto simp: mem_read_def)
  then obtain m where m: "n = Suc m" by (cases n) auto
  have "mem_read mem p n = mem p # mem_read mem (p + 1) m"
    using m by (simp add: mem_read_def upt_conv_Cons del: upt_Suc)
  with Cons.prems have "mem p = x" "mem_read mem (p + 1) m = xs @ 10 # ys" by simp_all
  with Cons m show ?case by (subst memchr.simps) auto
qed

lemma takeWhile_digits: "\<forall>w\<in>set s. is_digit w \<Longrightarrow> takeWhile is_digit s = s"
  by (simp add: takeWhile_eq_all_conv)

lemma c_atoi_dec_str: "n < 2 ^ 31 \<Longrightarrow> c_atoi (dec_str n) = int n"
  using int_word_sint [of "int n", where ?'a = 32]
  by (simp add: c_atoi_def takeWhile_digits dec_str_digits)

lemma newline_not_digit [simp]: "\<not> is_digit 10"
  by (simp add: is_digit_def)

lemma newline_dec_str [simp]: "10 \<notin> set (dec_str n)"
  using dec_str_digits [of n] by auto

lemma mem_read_nth: "i < n \<Longrightarrow> mem (p + i) = mem_read mem p n ! i"
  by (simp add: mem_read_def)

lemma mem_read_prefix:
  assumes "mem_read mem p n = xs @ ys"
  shows "mem_read mem p (length xs) = xs" "mem_read mem (p + length xs) (n - length xs) = ys"
    "length xs \<le> n"
proof -
  have l: "n = length xs + length ys"
    using arg_cong [OF assms, of length] by simp
  then show "length xs \<le> n" by simp
  have "mem_read mem p (length xs) @ mem_read mem (p + length xs) (length ys) = xs @ ys"
    using assms unfolding l mem_read_append .
  then show "mem_read mem p (length xs) = xs" "mem_read mem (p + length xs) (n - length xs) = ys"
    using l by simp_all
qed

text \<open>The header of a record: the loop finds the length it denotes.\<close>

lemma header:
  assumes "mem_read mem head n = dec_str k @ 10 # r" "head + n \<le> cap"
  shows "memchr mem cap head n = Found (head + length (dec_str k))"
    "is_digit (mem head)" "mem_read mem head (length (dec_str k)) = dec_str k"
    "mem_read mem (head + length (dec_str k) + 1) (n - length (dec_str k) - 1) = r"
    "length (dec_str k) + 1 \<le> n"
proof -
  show "memchr mem cap head n = Found (head + length (dec_str k))"
    using assms by (intro memchr_found) auto
  note p = mem_read_prefix [OF assms(1)]
  show d: "mem_read mem head (length (dec_str k)) = dec_str k" by (rule p)
  have "mem head = dec_str k ! 0"
    using mem_read_nth [of 0 "length (dec_str k)" mem head] d by simp
  then show "is_digit (mem head)"
    using hd_dec_str [of k] by (simp add: hd_conv_nth)
  have "mem_read mem head n = (dec_str k @ [10]) @ r" using assms(1) by simp
  from mem_read_prefix [OF this]
  show "mem_read mem (head + length (dec_str k) + 1) (n - length (dec_str k) - 1) = r"
    "length (dec_str k) + 1 \<le> n" by simp_all
qed

lemma step_val:
  "a + k < 2 ^ 31 \<Longrightarrow>
    word_of_int (sint (of_nat a + word_of_int (int k) :: 32 word)) = (of_nat (a + k) :: 64 word)"
  using int_word_sint [of "int (a + k)", where ?'a = 32] by simp

lemma of_nat_pos64: "n < 2 ^ 64 \<Longrightarrow> (of_nat n :: 64 word) > 0 \<longleftrightarrow> 0 < n"
  by (simp add: word_less_nat_alt unat_of_nat)

lemma unat_of_nat64: "n < 2 ^ 64 \<Longrightarrow> unat (of_nat n :: 64 word) = n"
  by (simp add: unat_of_nat)

lemma max_packet: "n < 2 ^ 64 \<Longrightarrow> (of_nat n :: 64 word) > ETDB_MAX_PACKET_SIZE \<longleftrightarrow> 33554432 < n"
  by (simp add: word_less_nat_alt unat_of_nat ETDB_MAX_PACKET_SIZE_def)

lemma of_nat_diff64: "k \<le> n \<Longrightarrow> (of_nat n :: 64 word) - of_nat k = of_nat (n - k)"
  by simp

text \<open>
  One record of the request. The size \<open>w\<close> need not be that of the memory that is read: the loop
  only needs the header inside it, and something left of it after the body.
\<close>

lemma memchr_size: "memchr mem cap p n = Found q \<Longrightarrow> q < p + n' \<Longrightarrow> memchr mem cap p n' = Found q"
proof (induction mem cap p n arbitrary: n' rule: memchr.induct)
  case (1 mem cap p n)
  have h: "\<not> n = 0" "\<not> cap \<le> p" "mem p \<noteq> 10 \<Longrightarrow> memchr mem cap (p + 1) (n - 1) = Found q"
    "mem p = 10 \<Longrightarrow> q = p"
    using "1.prems"(1) by (subst (asm) memchr.simps, simp split: if_splits)+
  have "p \<le> q" using memchr_bounds [OF "1.prems"(1)] by simp
  then have "\<not> n' = 0" using "1.prems"(2) by simp
  moreover have "memchr mem cap (p + 1) (n' - 1) = Found q" if "mem p \<noteq> 10"
  proof (rule "1.IH" [OF h(1,2) that h(3) [OF that]])
    show "q < p + 1 + (n' - 1)" using "1.prems"(2) by simp
  qed
  ultimately show ?case using h by (subst memchr.simps) simp
qed

lemma record_reads:
  assumes "mem_read mem head N = encode_record s @ r" "head + N \<le> cap"
  shows "mem_read mem (head + length (dec_str (length s)) + 1) (length s) = s"
    "mem_read mem (head + length (encode_record s)) (N - length (encode_record s)) = r"
    "length (encode_record s) \<le> N"
proof -
  have "mem_read mem head N = dec_str (length s) @ 10 # (s @ 10 # r)"
    using assms(1) by (simp add: encode_record_def)
  note h = header [OF this assms(2)]
  show "mem_read mem (head + length (dec_str (length s)) + 1) (length s) = s"
    using mem_read_prefix(1) [OF h(4)] .
  show "mem_read mem (head + length (encode_record s)) (N - length (encode_record s)) = r"
    "length (encode_record s) \<le> N"
    using mem_read_prefix [OF assms(1)] by simp_all
qed

lemma parse_record_w:
  fixes w :: "64 word"
  assumes "mem_read mem head N = encode_record s @ r" "head + N \<le> cap" "s \<noteq> []"
    "m + length (encode_record s) \<le> 33554432" "length (dec_str (length s)) < unat w"
    "0 < w - of_nat (length (dec_str (length s)) + 1 + length s)"
  shows "parse_loop mem cap head w (of_nat m) recv free =
    parse_loop mem cap (head + length (encode_record s)) (w - of_nat (length (encode_record s)))
      (of_nat (m + length (encode_record s)))
      (recv @ [\<lparr>soff = head + length (dec_str (length s)) + 1, slength = length s\<rparr>])
      (etdb_connect_alloc_bytes free)"
proof -
  let ?k = "length s" and ?l = "length (dec_str (length s))"
  let ?b = "head + ?l + 1"
  have "mem_read mem head N = dec_str ?k @ 10 # (s @ 10 # r)"
    using assms(1) by (simp add: encode_record_def)
  note h = header [OF this assms(2)]
  have N: "N = length (encode_record s) + length r"
    using arg_cong [OF assms(1), of length] by simp
  have lenr: "length (encode_record s) = ?l + ?k + 2" by (simp add: encode_record_def)
  have k: "?k < 2 ^ 31" "?l \<le> 10" "?l + 1 + ?k < 2 ^ 31"
    using assms(4) length_dec_str [of ?k 9] lenr by auto
  have nl: "mem (?b + ?k) = 10"
    using mem_read_nth [of "?k" "N - ?l - 1" mem ?b] h(4) N lenr by (simp add: nth_append)
  have ne: "\<not> (mem ?b = 10 \<and> int ?k = 0)" using assms(3) by simp
  have f: "memchr mem cap head (unat w) = Found (head + ?l)"
    using memchr_size [OF h(1), of "unat w"] assms(5) by simp
  have b: "\<not> cap \<le> ?b" "\<not> cap \<le> ?b + ?k"
    using assms(2) N lenr by simp_all
  have st: "word_of_int (sint (of_nat (?l + 1) + word_of_int (int ?k) :: 32 word)) = (of_nat (?l + 1 + ?k) :: 64 word)"
    by (rule step_val) (use k in simp)
  have one: "w - of_nat (?l + 1 + ?k) - 1 = w - of_nat (length (encode_record s))"
    by (simp add: lenr algebra_simps)
  have par: "of_nat m + of_nat (?l + 1 + ?k) + 1 = (of_nat (m + length (encode_record s)) :: 64 word)"
    by (simp add: lenr)
  have hb: "head + ?l + 1 - head = ?l + 1" "head + (?l + 1) + ?k = ?b + ?k"
    "?b + ?k + 1 = head + length (encode_record s)" by (simp_all add: lenr)
  have a: "c_atoi (mem_read mem head ?l) = int ?k"
    using c_atoi_dec_str k(1) h(3) by simp
  have z: "w > 0" "\<not> (of_nat (m + length (encode_record s)) :: 64 word) > ETDB_MAX_PACKET_SIZE"
    "\<not> ?l + 1 > 16 - 1" "\<not> int ?k < 0" "?l + 1 - 1 = ?l" "nat (int ?k) = ?k"
    using assms(4,5) max_packet [of "m + length (encode_record s)"] k(2) by (auto simp: word_less_nat_alt)
  show "parse_loop mem cap head w (of_nat m) recv free =
    parse_loop mem cap (head + length (encode_record s)) (w - of_nat (length (encode_record s)))
      (of_nat (m + length (encode_record s)))
      (recv @ [\<lparr>soff = head + length (dec_str (length s)) + 1, slength = length s\<rparr>])
      (etdb_connect_alloc_bytes free)"
    apply (subst (1) parse_loop.simps)
    apply (simp only: z f h(2) search.case Let_def if_True if_False not_True_eq_False hb a st b ne nl
        one par assms(6) HOL.simp_thms)
    done
qed

lemma parse_record:
  assumes "mem_read mem head N = encode_record s @ r" "head + N \<le> cap" "n < 2 ^ 64"
    "s \<noteq> []" "length (encode_record s) \<le> n" "m + length (encode_record s) \<le> 33554432"
  shows "parse_loop mem cap head (of_nat n) (of_nat m) recv free =
    parse_loop mem cap (head + length (encode_record s)) (of_nat (n - length (encode_record s)))
      (of_nat (m + length (encode_record s)))
      (recv @ [\<lparr>soff = head + length (dec_str (length s)) + 1, slength = length s\<rparr>])
      (etdb_connect_alloc_bytes free)"
    "mem_read mem (head + length (dec_str (length s)) + 1) (length s) = s"
    "mem_read mem (head + length (encode_record s)) (N - length (encode_record s)) = r"
    "length (encode_record s) \<le> N"
proof -
  let ?l = "length (dec_str (length s))"
  have lenr: "length (encode_record s) = ?l + length s + 2" by (simp add: encode_record_def)
  have u: "?l < unat (of_nat n :: 64 word)"
    using assms(5) lenr unat_of_nat64 [OF assms(3)] by simp
  have "of_nat n - of_nat (?l + 1 + length s) = (of_nat (n - (?l + 1 + length s)) :: 64 word)"
    using assms(5) lenr by (intro of_nat_diff64) simp
  then have p: "0 < of_nat n - (of_nat (?l + 1 + length s) :: 64 word)"
    using of_nat_pos64 [of "n - (?l + 1 + length s)"] assms(3,5) lenr by simp
  note w = parse_record_w [OF assms(1,2,4,6) u p]
  show "parse_loop mem cap head (of_nat n) (of_nat m) recv free =
    parse_loop mem cap (head + length (encode_record s)) (of_nat (n - length (encode_record s)))
      (of_nat (m + length (encode_record s)))
      (recv @ [\<lparr>soff = head + ?l + 1, slength = length s\<rparr>]) (etdb_connect_alloc_bytes free)"
    by (simp only: w of_nat_diff64 [OF assms(5)])
  show "mem_read mem (head + ?l + 1) (length s) = s"
    "mem_read mem (head + length (encode_record s)) (N - length (encode_record s)) = r"
    "length (encode_record s) \<le> N"
    by (rule record_reads [OF assms(1,2)])+
qed

text \<open>The empty record that ends a request.\<close>

lemma parse_tail:
  assumes "mem_read mem head N = encode_record [] @ r" "head + N \<le> cap" "n < 2 ^ 64" "3 \<le> n"
  shows "parse_loop mem cap head (of_nat n) (of_nat m) recv free = Complete (of_nat (m + 2)) recv free"
proof -
  have e: "encode_record [] = [48, 10, 10]" "dec_str 0 = [48]"
    by (simp_all add: encode_record_def dec_str.simps)
  have N: "N = 3 + length r"
    using arg_cong [OF assms(1), of length] e by simp
  have "mem_read mem head N = dec_str 0 @ 10 # (10 # r)"
    using assms(1) e by simp
  note h = header [OF this assms(2)]
  have f: "memchr mem cap head n = Found (head + length (dec_str 0))"
    by (rule memchr_size [OF h(1)]) (use assms(4) e in simp)
  have nl: "mem (head + 2) = 10"
    using mem_read_nth [of 2 N mem head] assms(1) N e by simp
  have a: "c_atoi [48] = 0"
    using c_atoi_dec_str [of 0] e by simp
  have z: "(of_nat n :: 64 word) > 0" "unat (of_nat n :: 64 word) = n"
  proof -
    have "0 < n" using assms(4) by simp
    then show "(of_nat n :: 64 word) > 0" by (simp only: of_nat_pos64 [OF assms(3)])
    show "unat (of_nat n :: 64 word) = n" by (rule unat_of_nat64 [OF assms(3)])
  qed
  have c: "\<not> cap \<le> head + 2" using assms(2) N by simp
  have st: "word_of_int (sint (of_nat 2 + word_of_int (int 0) :: 32 word)) = (of_nat 2 :: 64 word)"
    using step_val [of 2 0] by simp
  have i: "head + length (dec_str 0) + 1 = head + 2" "head + 2 - head = 2"
    "mem_read mem head 1 = [48]"
    using h(3) e by simp_all
  show "parse_loop mem cap head (of_nat n) (of_nat m) recv free = Complete (of_nat (m + 2)) recv free"
    using h(2) f z nl a c st i by (subst parse_loop.simps) (simp add: Let_def)
qed

lemma parse_request:
  assumes "mem_read mem head N = encode_request args @ r" "head + N \<le> cap" "n < 2 ^ 64"
    "[] \<notin> set args" "length (encode_request args) \<le> n" "m + length (encode_request args) \<le> 33554432"
  shows "\<exists>ss free'. parse_loop mem cap head (of_nat n) (of_nat m) recv free =
      Complete (of_nat (m + length (encode_request args) - 1)) (recv @ ss) free' \<and>
    map (\<lambda>s. mem_read mem (soff s) (slength s)) ss = args"
  using assms
proof (induction args arbitrary: head N n m recv free)
  case Nil
  have "length (encode_request []) = 3"
    by (simp add: encode_request_def encode_record_def dec_str.simps)
  then show ?case
    using parse_tail [of mem head N r cap n m recv free] Nil by (auto simp: encode_request_def)
next
  case (Cons a args)
  let ?l = "length (encode_record a)"
  have lens: "length (encode_request (a # args)) = ?l + length (encode_request args)"
    "0 < length (encode_request args)"
    by (simp_all add: encode_request_def encode_record_def)
  have mr: "mem_read mem head N = encode_record a @ (encode_request args @ r)"
    using Cons.prems(1) by (simp add: encode_request_def)
  have ne: "a \<noteq> []" "?l \<le> n" "m + ?l \<le> 33554432"
    using Cons.prems(4-6) lens by auto
  note rec = parse_record [OF mr Cons.prems(2,3) ne]
  have pr: "parse_loop mem cap head (of_nat n) (of_nat m) recv free =
      parse_loop mem cap (head + ?l) (of_nat (n - ?l)) (of_nat (m + ?l))
        (recv @ [\<lparr>soff = head + length (dec_str (length a)) + 1, slength = length a\<rparr>])
        (etdb_connect_alloc_bytes free)"
    "mem_read mem (head + length (dec_str (length a)) + 1) (length a) = a"
    "mem_read mem (head + ?l) (N - ?l) = encode_request args @ r" "?l \<le> N"
    by (rule rec)+
  have side: "head + ?l + (N - ?l) \<le> cap" "n - ?l < 2 ^ 64" "[] \<notin> set args"
    "length (encode_request args) \<le> n - ?l" "m + ?l + length (encode_request args) \<le> 33554432"
    using Cons.prems(2-6) pr(4) lens by auto
  let ?s = "\<lparr>soff = head + length (dec_str (length a)) + 1, slength = length a\<rparr>"
  from Cons.IH [OF pr(3) side] obtain ss free' where ih:
    "parse_loop mem cap (head + ?l) (of_nat (n - ?l)) (of_nat (m + ?l)) (recv @ [?s])
        (etdb_connect_alloc_bytes free) =
      Complete (of_nat (m + ?l + length (encode_request args) - 1)) ((recv @ [?s]) @ ss) free'"
    "map (\<lambda>s. mem_read mem (soff s) (slength s)) ss = args"
    by blast
  have "m + ?l + length (encode_request args) - 1 = m + length (encode_request (a # args)) - 1"
    using lens by simp
  then have "parse_loop mem cap head (of_nat n) (of_nat m) recv free =
      Complete (of_nat (m + length (encode_request (a # args)) - 1)) (recv @ ?s # ss) free'"
    unfolding pr(1) ih(1) by simp
  moreover have "map (\<lambda>s. mem_read mem (soff s) (slength s)) (?s # ss) = a # args"
    using ih(2) pr(2) by simp
  ultimately show ?case by (intro exI conjI)
qed

lemma skip_newlines_run:
  assumes "mem_read mem head n = replicate k 10 @ x # r" "x \<noteq> 10" "n < 2 ^ 64" "head + n \<le> cap"
  shows "skip_newlines mem cap head (of_nat n) (of_nat m) =
    (head + k, of_nat (n - k), of_nat (m + k)) \<and> mem_read mem (head + k) (n - k) = x # r"
  using assms
proof (induction k arbitrary: head n m)
  case 0
  then have "n \<noteq> 0" by (cases n) (auto simp: mem_read_def)
  then have "mem head = x" using mem_read_nth [of 0 n mem head] 0 by simp
  then show ?case using 0 by (subst skip_newlines.simps) simp
next
  case (Suc k)
  have n: "n \<noteq> 0" using Suc.prems(1) by (cases n) (auto simp: mem_read_def)
  have "mem head = 10" using mem_read_nth [of 0 n mem head] Suc.prems(1) n by simp
  moreover have "(of_nat n :: 64 word) > 0"
    using of_nat_pos64 [OF Suc.prems(3)] n by simp
  ultimately have c: "(of_nat n :: 64 word) > 0 \<and> head < cap \<and> mem head = 10"
    using Suc.prems(4) n by simp
  have "mem_read mem head n = [10] @ (replicate k 10 @ x # r)" using Suc.prems(1) by simp
  note p = mem_read_prefix [OF this]
  have ih: "skip_newlines mem cap (head + 1) (of_nat (n - 1)) (of_nat (m + 1)) =
      (head + 1 + k, of_nat (n - 1 - k), of_nat (m + 1 + k)) \<and>
      mem_read mem (head + 1 + k) (n - 1 - k) = x # r"
    using Suc.prems p by (intro Suc.IH) auto
  have e: "of_nat n - (1 :: 64 word) = of_nat (n - 1)" "(of_nat m :: 64 word) + 1 = of_nat (m + 1)"
    using n of_nat_diff64 [of 1 n] by simp_all
  have "skip_newlines mem cap head (of_nat n) (of_nat m) =
      skip_newlines mem cap (head + 1) (of_nat (n - 1)) (of_nat (m + 1))"
    by (subst (1) skip_newlines.simps) (simp only: c e simp_thms if_True)
  moreover have "head + 1 + k = head + Suc k" "n - 1 - k = n - Suc k" "m + 1 + k = m + Suc k"
    by simp_all
  ultimately show ?case using ih by simp
qed

text \<open>A request does not begin with a newline.\<close>

lemma request_head:
  obtains x xs where "encode_request args = x # xs" "x \<noteq> 10"
proof (cases args)
  case Nil
  then show ?thesis
    by (intro that [of 48 "[10, 10]"]) (simp_all add: encode_request_def encode_record_def dec_str.simps)
next
  case (Cons a as)
  show ?thesis
  proof (cases "dec_str (length a)")
    case (Cons y ys)
    then show ?thesis
      using \<open>args = a # as\<close> newline_dec_str [of "length a"]
      by (intro that [of y "tl (encode_request args)"]) (auto simp: encode_request_def encode_record_def)
  qed simp
qed

lemma parse_req_run:
  assumes "buf_bytes (buf_in conn) = replicate k 10 @ encode_request args @ rest"
    "buf_wf (buf_in conn)" "bcap (buf_in conn) < 2 ^ 64" "[] \<notin> set args" "recv_cmd conn = []"
    "k + length (encode_request args) \<le> 33554432"
  shows "\<exists>conn'. etdb_resp_parse_req conn = Some (0, conn') \<and>
    map (slice_bytes conn') (recv_cmd conn') = args \<and>
    buf_bytes (buf_in conn') = 10 # rest \<and> buf_wf (buf_in conn')"
proof -
  let ?b = "buf_in conn"
  let ?mem = "bmem ?b" and ?h = "bdata ?b" and ?n = "bsize ?b" and ?req = "encode_request args"
  obtain x xs where x: "?req = x # xs" "x \<noteq> 10" by (rule request_head)
  have n: "?n < 2 ^ 64" "?h + ?n \<le> bcap ?b"
    using assms(2,3) by (simp_all add: buf_wf_def)
  have rd: "mem_read ?mem ?h ?n = replicate k 10 @ x # (xs @ rest)"
    using assms(1) x by (simp add: buf_bytes_def)
  from skip_newlines_run [OF this x(2) n, of 0]
  have sk: "skip_newlines ?mem (bcap ?b) ?h (of_nat ?n) 0 = (?h + k, of_nat (?n - k), of_nat k)"
    and rd': "mem_read ?mem (?h + k) (?n - k) = ?req @ rest"
    using x by simp_all
  have len: "?n = k + length ?req + length rest"
    using arg_cong [OF assms(1), of length] by (simp add: buf_bytes_def)
  from parse_request [OF rd', of "bcap ?b" "?n - k" k "[]" "free_cmd conn"]
  obtain ss free' where p: "parse_loop ?mem (bcap ?b) (?h + k) (of_nat (?n - k)) (of_nat k) [] (free_cmd conn) =
      Complete (of_nat (k + length ?req - 1)) ss free'"
    "map (\<lambda>s. mem_read ?mem (soff s) (slength s)) ss = args"
    using assms(4,6) n len by auto
  have u: "unat (of_nat (k + length ?req - 1) :: 64 word) = k + length ?req - 1"
    using assms(6) by (intro unat_of_nat64) simp
  let ?c = "conn\<lparr>recv_cmd := ss, free_cmd := free', buf_in := etdb_buf_decr ?b (k + length ?req - 1)\<rparr>"
  have e: "etdb_resp_parse_req conn = Some (0, ?c)"
    using assms(5) sk p(1) u by (simp add: etdb_resp_parse_req_def)
  have "slice_bytes ?c = (\<lambda>s. mem_read ?mem (soff s) (slength s))"
    by (simp add: slice_bytes_def etdb_buf_decr_def fun_eq_iff)
  then have m: "map (slice_bytes ?c) ss = args"
    using p(2) by simp
  have "length ?req > 0" using x by simp
  have "k + length ?req - 1 \<le> ?n" using len by simp
  note d = buf_decr [OF assms(2) this]
  have "?req = butlast ?req @ [10]" by (simp add: encode_request_def encode_record_def butlast_append)
  then have "replicate k 10 @ ?req @ rest = (replicate k 10 @ butlast ?req) @ 10 # rest"
    by (metis append.assoc append_Cons append_Nil)
  then have "drop (k + length ?req - 1) (replicate k 10 @ ?req @ rest) = 10 # rest"
    using \<open>length ?req > 0\<close> by (simp add: x(1))
  then have "buf_bytes (buf_in ?c) = 10 # rest" "buf_wf (buf_in ?c)"
    using d assms(1) by simp_all
  with e m show ?thesis by auto
qed

text \<open>
  C21: a complete request is parsed into exactly the arguments that were encoded, any
  newlines left from the request before are skipped, and what follows stays in the buffer.
\<close>

theorem etdb_resp_parse_roundtrip:
  assumes "buf_bytes (buf_in conn) = replicate k 10 @ encode_request args @ rest"
    "buf_wf (buf_in conn)" "bcap (buf_in conn) < 2 ^ 64" "[] \<notin> set args" "recv_cmd conn = []"
    "k + length (encode_request args) \<le> 33554432"
  shows "\<exists>conn'. etdb_resp_parse_req conn = Some (0, conn') \<and>
    map (slice_bytes conn') (recv_cmd conn') = args \<and>
    buf_bytes (buf_in conn') = 10 # rest \<and> buf_wf (buf_in conn')"
  by (rule parse_req_run [OF assms])

theorem etdb_resp_parse_roundtrip_witness:
  "\<exists>conn conn'. etdb_resp_parse_req conn = Some (0, conn') \<and>
     map (slice_bytes conn') (recv_cmd conn') = [[103, 101, 116], [107]]"
proof -
  let ?req = "encode_request [[103, 101, 116], [107]]"
  let ?b = "\<lparr>bmem = (\<lambda>i. ?req ! i), bdata = 0, bsize = length ?req, bcap = 64\<rparr>"
  let ?c = "\<lparr>sock = 5, noblock = True, buf_in = ?b, buf_out = ?b, recv_cmd = [], free_cmd = [], slot = 0\<rparr>"
  have l: "length ?req = 13"
    by (simp add: encode_request_def encode_record_def dec_str.simps)
  have "buf_bytes ?b = ?req"
    by (rule nth_equalityI) (simp_all add: buf_bytes_def mem_read_def)
  then have r: "buf_bytes (buf_in ?c) = replicate 0 10 @ ?req @ []" by simp
  have w: "buf_wf (buf_in ?c)" "bcap (buf_in ?c) < 2 ^ 64"
    using l by (simp_all add: buf_wf_def)
  have a: "[] \<notin> set [[103, 101, 116], [107 :: byte]]" "recv_cmd ?c = []"
    "0 + length ?req \<le> 33554432"
    using l by simp_all
  from etdb_resp_parse_roundtrip [OF r w a] obtain conn'
    where "etdb_resp_parse_req ?c = Some (0, conn')"
      "map (slice_bytes conn') (recv_cmd conn') = [[103, 101, 116], [107]]"
    by (elim exE conjE)
  then show ?thesis by (intro exI conjI)
qed

section \<open>A record that has not arrived\<close>

text \<open>The records of a request before the one that is cut off.\<close>

lemma parse_records:
  assumes "mem_read mem head N = concat (map encode_record args) @ r" "head + N \<le> cap" "n < 2 ^ 64"
    "[] \<notin> set args" "length (concat (map encode_record args)) \<le> n"
    "m + length (concat (map encode_record args)) \<le> 33554432"
  shows "\<exists>ss free'. parse_loop mem cap head (of_nat n) (of_nat m) recv free =
      parse_loop mem cap (head + length (concat (map encode_record args)))
        (of_nat (n - length (concat (map encode_record args))))
        (of_nat (m + length (concat (map encode_record args)))) (recv @ ss) free' \<and>
    map (\<lambda>s. mem_read mem (soff s) (slength s)) ss = args"
  using assms
proof (induction args arbitrary: head N n m recv free)
  case Nil
  then show ?case by auto
next
  case (Cons a args)
  let ?l = "length (encode_record a)" and ?rest = "concat (map encode_record args)"
  have mr: "mem_read mem head N = encode_record a @ (?rest @ r)"
    using Cons.prems(1) by simp
  have ne: "a \<noteq> []" "?l \<le> n" "m + ?l \<le> 33554432"
    using Cons.prems(4-6) by auto
  note rec = parse_record [OF mr Cons.prems(2,3) ne]
  let ?s = "\<lparr>soff = head + length (dec_str (length a)) + 1, slength = length a\<rparr>"
  have side: "head + ?l + (N - ?l) \<le> cap" "n - ?l < 2 ^ 64" "[] \<notin> set args"
    "length ?rest \<le> n - ?l" "m + ?l + length ?rest \<le> 33554432"
    using Cons.prems(2-6) rec(4) by auto
  from Cons.IH [OF rec(3) side] obtain ss free' where ih:
    "parse_loop mem cap (head + ?l) (of_nat (n - ?l)) (of_nat (m + ?l)) (recv @ [?s])
        (etdb_connect_alloc_bytes free) =
      parse_loop mem cap (head + ?l + length ?rest) (of_nat (n - ?l - length ?rest))
        (of_nat (m + ?l + length ?rest)) ((recv @ [?s]) @ ss) free'"
    "map (\<lambda>s. mem_read mem (soff s) (slength s)) ss = args"
    by blast
  have e: "head + ?l + length ?rest = head + length (concat (map encode_record (a # args)))"
    "n - ?l - length ?rest = n - length (concat (map encode_record (a # args)))"
    "m + ?l + length ?rest = m + length (concat (map encode_record (a # args)))"
    "(recv @ [?s]) @ ss = recv @ (?s # ss)" by simp_all
  have "map (\<lambda>s. mem_read mem (soff s) (slength s)) (?s # ss) = a # args"
    using ih(2) rec(2) by simp
  with ih(1) rec(1) show ?case unfolding e by (intro exI [of _ "?s # ss"] exI [of _ free'] conjI) simp_all
qed

text \<open>The record that is cut off inside its body: what is left of the size goes below 0.\<close>

lemma parse_record_cut:
  assumes "mem_read mem head N = encode_record s @ r" "head + N \<le> cap" "s \<noteq> []"
    "m + length (encode_record s) \<le> 33554432" "n = length (dec_str (length s)) + 1 + j" "j < length s"
  shows "parse_loop mem cap head (of_nat n) (of_nat m) recv free =
    parse_loop mem cap (head + length (encode_record s)) (of_nat (2 ^ 64 + n - length (encode_record s)))
      (of_nat (m + length (encode_record s)))
      (recv @ [\<lparr>soff = head + length (dec_str (length s)) + 1, slength = length s\<rparr>])
      (etdb_connect_alloc_bytes free)"
proof -
  let ?l = "length (dec_str (length s))" and ?r = "length (encode_record s)"
  have lenr: "?r = ?l + length s + 2" by (simp add: encode_record_def)
  have n: "n < 2 ^ 64" "?r < 2 ^ 64" "?l + 1 + length s < 2 ^ 64" "n < ?r"
    "n < ?l + 1 + length s" using assms(4-6) lenr by auto
  have wrap: "of_nat n - of_nat x = (of_nat (2 ^ 64 + n - x) :: 64 word)" if "x < 2 ^ 64" for x
  proof -
    have "of_nat (2 ^ 64 + n - x) + of_nat x = (of_nat (2 ^ 64 + n) :: 64 word)"
      using that by (simp only: of_nat_add [symmetric]) simp
    also have "\<dots> = of_nat n" by simp
    finally show ?thesis by (metis add_diff_cancel_right')
  qed
  have u: "?l < unat (of_nat n :: 64 word)"
    using unat_of_nat64 [OF n(1)] assms(5) by simp
  have "0 < (of_nat (2 ^ 64 + n - (?l + 1 + length s)) :: 64 word)"
    using of_nat_pos64 [of "2 ^ 64 + n - (?l + 1 + length s)"] n by auto
  then have "0 < of_nat n - (of_nat (?l + 1 + length s) :: 64 word)"
    unfolding wrap [OF n(3)] .
  from parse_record_w [OF assms(1-4) u this] show ?thesis
    unfolding wrap [OF n(2)] .
qed

text \<open>
  C22: a record whose body has not arrived yet is not recognised as incomplete: the test
  \<open>size < 0\<close> of an unsigned \<open>size\<close> never holds. When only a part of a request has been received,
  up to some byte inside the body of an argument, and the memory behind the received bytes
  happens to hold the rest (the bytes of an earlier request, for one), the parser takes that memory
  for the rest of the request, reports a complete request, and leaves the buffer with a size below
  0, that is near 2^64.
\<close>

theorem etdb_resp_parse_overread:
  assumes "args = pre @ s # post" "[] \<notin> set args" "recv_cmd conn = []"
    "mem_read (bmem (buf_in conn)) (bdata (buf_in conn)) (length (encode_request args)) = encode_request args"
    "bdata (buf_in conn) + length (encode_request args) \<le> bcap (buf_in conn)"
    "length (encode_request args) \<le> 33554432"
    "bsize (buf_in conn) = length (concat (map encode_record pre)) + length (dec_str (length s)) + 1 + j"
    "j < length s"
  shows "\<exists>c. etdb_resp_parse_req conn = Some (0, c) \<and> map (slice_bytes c) (recv_cmd c) = args \<and>
    bsize (buf_in c) = 2 ^ 64 + bsize (buf_in conn) - (length (encode_request args) - 1) \<and>
    bsize (buf_in conn) < length (encode_request args) - 1"
proof -
  let ?b = "buf_in conn" and ?req = "encode_request args" and ?A = "concat (map encode_record pre)"
  let ?mem = "bmem ?b" and ?h = "bdata ?b" and ?n = "bsize ?b" and ?R = "encode_record s"
  have req: "?req = ?A @ ?R @ encode_request post"
    using assms(1) by (simp add: encode_request_def)
  have tl: "3 \<le> length (encode_request post)"
    by (simp add: encode_request_def encode_record_def dec_str.simps)
  have lenR: "length ?R = length (dec_str (length s)) + length s + 2" by (simp add: encode_record_def)
  have mr: "mem_read ?mem ?h (length ?req) = ?A @ (?R @ encode_request post)"
    using assms(4) req by simp
  have n: "?n < 2 ^ 64" "length ?A \<le> ?n" "?n < length ?req - 1"
    using assms(6-8) req lenR tl by auto
  obtain x xs where x: "?req = x # xs" "x \<noteq> 10" by (rule request_head)
  have "?mem ?h = x"
    using mem_read_nth [of 0 "length ?req" ?mem ?h] assms(4) x by simp
  then have sk: "skip_newlines ?mem (bcap ?b) ?h (of_nat ?n) 0 = (?h, of_nat ?n, of_nat 0)"
    using x(2) by (subst skip_newlines.simps) simp
  have nes: "[] \<notin> set pre" "[] \<notin> set post" "s \<noteq> []" using assms(1,2) by auto
  have lA: "0 + length ?A \<le> 33554432" using assms(6) req by simp
  from parse_records [OF mr assms(5) n(1) nes(1) n(2) lA, of "[]" "free_cmd conn"] obtain ss1 f1 where
    p1: "parse_loop ?mem (bcap ?b) ?h (of_nat ?n) (of_nat 0) [] (free_cmd conn) =
      parse_loop ?mem (bcap ?b) (?h + length ?A) (of_nat (?n - length ?A)) (of_nat (length ?A)) ss1 f1"
      "map (\<lambda>s. mem_read ?mem (soff s) (slength s)) ss1 = pre"
    by auto
  let ?h2 = "?h + length ?A" and ?N2 = "length ?req - length ?A"
  have m2: "mem_read ?mem ?h2 ?N2 = ?R @ encode_request post" "length ?A \<le> length ?req"
    by (rule mem_read_prefix [OF mr])+
  have side2: "?h2 + ?N2 \<le> bcap ?b" "length ?A + length ?R \<le> 33554432"
    "?n - length ?A = length (dec_str (length s)) + 1 + j"
    using assms(5-7) req by simp_all
  note p2 = parse_record_cut [OF m2(1) side2(1) nes(3) side2(2,3) assms(8), of ss1 f1]
  let ?sl = "\<lparr>soff = ?h2 + length (dec_str (length s)) + 1, slength = length s\<rparr>"
  note w2 = record_reads [OF m2(1) side2(1)]
  then have w3: "mem_read ?mem (?h2 + length ?R) (?N2 - length ?R) = encode_request post @ []" by simp
  let ?n3 = "2 ^ 64 + (?n - length ?A) - length ?R"
  have n3: "?n3 < 2 ^ 64" "length (encode_request post) \<le> ?n3"
    using assms(6,7,8) req lenR by auto
  have side3: "?h2 + length ?R + (?N2 - length ?R) \<le> bcap ?b"
    "length ?A + length ?R + length (encode_request post) \<le> 33554432"
    using assms(5,6) req by simp_all
  from parse_request [OF w3 side3(1) n3(1) nes(2) n3(2) side3(2), of "ss1 @ [?sl]" "etdb_connect_alloc_bytes f1"]
  obtain ss2 f2 where p3: "parse_loop ?mem (bcap ?b) (?h2 + length ?R) (of_nat ?n3)
        (of_nat (length ?A + length ?R)) (ss1 @ [?sl]) (etdb_connect_alloc_bytes f1) =
      Complete (of_nat (length ?A + length ?R + length (encode_request post) - 1)) (ss1 @ [?sl] @ ss2) f2"
      "map (\<lambda>s. mem_read ?mem (soff s) (slength s)) ss2 = post" by auto
  have l: "length ?A + length ?R + length (encode_request post) - 1 = length ?req - 1" using req by simp
  have u: "unat (of_nat (length ?req - 1) :: 64 word) = length ?req - 1"
    using assms(6) by (intro unat_of_nat64) simp
  let ?c = "conn\<lparr>recv_cmd := ss1 @ [?sl] @ ss2, free_cmd := f2, buf_in := etdb_buf_decr ?b (length ?req - 1)\<rparr>"
  have "parse_loop ?mem (bcap ?b) ?h (of_nat ?n) (of_nat 0) [] (free_cmd conn) =
      Complete (of_nat (length ?req - 1)) (ss1 @ [?sl] @ ss2) f2"
    by (simp only: p1(1) p2 p3(1) l)
  then have e: "etdb_resp_parse_req conn = Some (0, ?c)"
    using sk u by (simp add: etdb_resp_parse_req_def assms(3) Let_def)
  have "slice_bytes ?c = (\<lambda>s. mem_read ?mem (soff s) (slength s))"
    by (simp add: slice_bytes_def etdb_buf_decr_def fun_eq_iff)
  then have "map (slice_bytes ?c) (recv_cmd ?c) = args"
    using p1(2) p3(2) w2(1) assms(1) by simp
  moreover have "bsize (buf_in ?c) = 2 ^ 64 + ?n - (length ?req - 1)"
    using n(3) by (simp add: etdb_buf_decr_def size_sub_def)
  ultimately show ?thesis using e n(3) by blast
qed

text \<open>Three bytes \<open>3 \n g\<close> of the request \<open>get k\<close> received, where the same request had been before.\<close>

definition stale_conn :: etdb_connection where
  "stale_conn = \<lparr>sock = 5, noblock = True,
     buf_in = \<lparr>bmem = (\<lambda>i. encode_request [[103, 101, 116], [107]] ! i), bdata = 0, bsize = 3, bcap = 16\<rparr>,
     buf_out = \<lparr>bmem = (\<lambda>_. 0), bdata = 0, bsize = 0, bcap = 16\<rparr>,
     recv_cmd = [], free_cmd = [], slot = 0\<rparr>"

theorem etdb_resp_parse_overread_witness:
  "\<exists>c. etdb_resp_parse_req stale_conn = Some (0, c) \<and>
     map (slice_bytes c) (recv_cmd c) = [[103, 101, 116], [107]] \<and> bsize (buf_in c) = 2 ^ 64 - 9"
proof -
  let ?args = "[[103, 101, 116], [107]] :: bytes list"
  have l: "length (encode_request ?args) = 13"
    by (simp add: encode_request_def encode_record_def dec_str.simps)
  have a: "?args = [] @ [103, 101, 116] # [[107]]" "[] \<notin> set ?args" "recv_cmd stale_conn = []"
    by (simp_all add: stale_conn_def)
  have m: "mem_read (bmem (buf_in stale_conn)) (bdata (buf_in stale_conn)) (length (encode_request ?args)) =
      encode_request ?args"
    by (rule nth_equalityI) (simp_all add: mem_read_def stale_conn_def)
  have c: "bdata (buf_in stale_conn) + length (encode_request ?args) \<le> bcap (buf_in stale_conn)"
    "length (encode_request ?args) \<le> 33554432"
    by (simp_all only: l, simp_all add: stale_conn_def)
  have z: "bsize (buf_in stale_conn) = length (concat (map encode_record [])) +
      length (dec_str (length ([103, 101, 116] :: bytes))) + 1 + 1" "1 < length ([103, 101, 116] :: bytes)"
    by (simp_all add: stale_conn_def dec_str.simps)
  from etdb_resp_parse_overread [OF a m c z] obtain c where "etdb_resp_parse_req stale_conn = Some (0, c)"
    "map (slice_bytes c) (recv_cmd c) = ?args"
    "bsize (buf_in c) = 2 ^ 64 + bsize (buf_in stale_conn) - (length (encode_request ?args) - 1)"
    by (elim exE conjE)
  then show ?thesis
    by (intro exI [of _ c] conjI) (simp_all only: l, simp_all add: stale_conn_def)
qed

end
