(* ===== verification/Connection.thy ===== *)
theory Connection
  imports Resp
begin

text \<open>
  \<open>src/etdb_connection.c\<close>: moving bytes between the buffers of a connection and its socket, and
  queueing requests and responses. \<open>read\<close> and \<open>write\<close> are system calls; what they return, call
  by call, is a list given to the functions, and \<^term>\<open>None\<close> is a call beyond the end of that
  list. The bytes passed to the kernel are collected in \<open>sent\<close>.
\<close>

datatype io_result = Moved nat | Interrupted | WouldBlock | Failed

datatype read_result = Got bytes | RInterrupted | RWouldBlock | RFailed

section \<open>Writing\<close>

text \<open>\<open>int want = size\<close>: a size of 2^31 bytes or more does not fit.\<close>

definition want_int :: "nat \<Rightarrow> int" where
  "want_int n = sint (of_nat n :: 32 word)"

fun write_loop ::
    "bool \<Rightarrow> etdb_buf \<Rightarrow> int \<Rightarrow> bytes \<Rightarrow> io_result list \<Rightarrow> (int \<times> etdb_buf \<times> bytes \<times> io_result list) option"
where
  "write_loop nb b ret sent [] =
     (if want_int (bsize b) > 0 then None else Some (ret, etdb_buf_nice b, sent, []))"
| "write_loop nb b ret sent (r # os) =
     (if want_int (bsize b) > 0 then
        (case r of
           Interrupted \<Rightarrow> write_loop nb b ret sent os
         | WouldBlock \<Rightarrow> Some (ret, etdb_buf_nice b, sent, os)
         | Failed \<Rightarrow> Some (-1, b, sent, os)
         | Moved len \<Rightarrow>
             if len = 0 then Some (ret, etdb_buf_nice b, sent, os)
             else
               let sent = sent @ take len (buf_bytes b);
                   ret = ret + int len;
                   b = etdb_buf_decr b len
               in if \<not> nb then Some (ret, etdb_buf_nice b, sent, os)
                  else write_loop nb b ret sent os)
      else Some (ret, etdb_buf_nice b, sent, r # os))"

definition etdb_connect_write ::
    "etdb_connection \<Rightarrow> io_result list \<Rightarrow> (int \<times> etdb_connection \<times> bytes \<times> io_result list) option" where
  "etdb_connect_write conn os =
     map_option (\<lambda>(ret, b, sent, os'). (ret, conn\<lparr>buf_out := b\<rparr>, sent, os'))
       (write_loop (noblock conn) (buf_out conn) 0 [] os)"

text \<open>\<open>etdb_connect_flush\<close> calls \<open>etdb_connect_write\<close> until the buffer is empty.\<close>

partial_function (option) flush_loop ::
    "etdb_connection \<Rightarrow> io_result list \<Rightarrow> int \<Rightarrow> bytes \<Rightarrow> (int \<times> etdb_connection \<times> bytes) option" where
  "flush_loop conn os len sent =
     (if bsize (buf_out conn) > 0 then
        Option.bind (etdb_connect_write conn os)
          (\<lambda>(ret, conn', s, os').
             if ret = -1 then Some (-1, conn', sent @ s)
             else flush_loop conn' os' (len + ret) (sent @ s))
      else Some (len, conn, sent))"

definition etdb_connect_flush ::
    "etdb_connection \<Rightarrow> io_result list \<Rightarrow> (int \<times> etdb_connection \<times> bytes) option" where
  "etdb_connect_flush conn os = flush_loop conn os 0 []"

section \<open>Reading\<close>

fun read_loop ::
    "bool \<Rightarrow> etdb_buf \<Rightarrow> int \<Rightarrow> read_result list \<Rightarrow> (int \<times> etdb_buf) option" where
  "read_loop nb b ret [] = (if want_int (etdb_buf_space b) > 0 then None else Some (ret, b))"
| "read_loop nb b ret (r # os) =
     (if want_int (etdb_buf_space b) > 0 then
        (case r of
           RInterrupted \<Rightarrow> read_loop nb b ret os
         | RWouldBlock \<Rightarrow> Some (ret, b)
         | RFailed \<Rightarrow> Some (-1, b)
         | Got bs \<Rightarrow>
             if bs = [] then Some (0, b)
             else
               let b = etdb_buf_incr (mem_write b (etdb_buf_slot b) bs) (length bs);
                   ret = ret + int (length bs)
               in if \<not> nb then Some (ret, b) else read_loop nb b ret os)
      else Some (ret, b))"

text \<open>\<^term>\<open>None\<close> also when \<open>etdb_buf_nice\<close> would read behind the memory of the buffer.\<close>

definition etdb_connect_read_to_buf ::
    "etdb_connection \<Rightarrow> read_result list \<Rightarrow> (int \<times> etdb_connection) option" where
  "etdb_connect_read_to_buf conn os =
     (if nice_leaves (buf_in conn) then None
      else map_option (\<lambda>(ret, b). (ret, conn\<lparr>buf_in := b\<rparr>))
        (read_loop (noblock conn) (etdb_buf_nice (buf_in conn)) 0 os))"

text \<open>
  The result is \<open>Inl\<close> for \<open>NULL\<close> and \<open>Inr\<close> for \<open>&recv_cmd\<close>; \<open>junk\<close> as in
  \<open>etdb_resp_recv_req\<close>, \<^term>\<open>None\<close> for a read outside of the buffer.
\<close>

definition etdb_connect_recv ::
    "int \<Rightarrow> (nat \<Rightarrow> bool) \<Rightarrow> etdb_connection \<Rightarrow> (etdb_connection + etdb_connection) option" where
  "etdb_connect_recv junk ok conn =
     (let conn = (if recv_cmd conn \<noteq> []
                  then conn\<lparr>free_cmd := free_cmd conn @ recv_cmd conn, recv_cmd := []\<rparr> else conn)
      in if bsize (buf_in conn) = 0 then Some (Inr conn)
         else map_option (\<lambda>(r, c). if r < 0 then Inl c else Inr c) (etdb_resp_recv_req junk ok conn))"

section \<open>Requests and responses\<close>

text \<open>The result of \<open>etdb_buf_append_record\<close> is ignored by these callers.\<close>

definition append_out :: "(nat \<Rightarrow> bool) \<Rightarrow> etdb_connection \<Rightarrow> bytes \<Rightarrow> etdb_connection option" where
  "append_out ok conn s =
     map_option (\<lambda>(r, b). conn\<lparr>buf_out := b\<rparr>) (etdb_buf_append_record ok (buf_out conn) s)"

fun append_all :: "(nat \<Rightarrow> bool) \<Rightarrow> etdb_connection \<Rightarrow> bytes list \<Rightarrow> etdb_connection option" where
  "append_all ok conn [] = Some conn"
| "append_all ok conn (s # ss) = Option.bind (append_out ok conn s) (\<lambda>c. append_all ok c ss)"

definition etdb_connect_send_to_buf ::
    "(nat \<Rightarrow> bool) \<Rightarrow> etdb_connection \<Rightarrow> bytes list \<Rightarrow> etdb_connection option" where
  "etdb_connect_send_to_buf ok conn resp =
     Option.bind (append_all ok conn resp) (\<lambda>c. append_out ok c [])"

fun send_splits :: "(nat \<Rightarrow> bool) \<Rightarrow> etdb_connection \<Rightarrow> bytes list \<Rightarrow> nat \<Rightarrow> (etdb_connection \<times> nat) option"
where
  "send_splits ok conn [] cmd_num = Some (conn, cmd_num)"
| "send_splits ok conn (s # ss) cmd_num =
     (if length s \<noteq> 0
      then Option.bind (append_out ok conn s) (\<lambda>c. send_splits ok c ss (cmd_num + 1))
      else send_splits ok conn ss cmd_num)"

definition etdb_connect_send_cmd ::
    "(nat \<Rightarrow> bool) \<Rightarrow> etdb_connection \<Rightarrow> bytes \<Rightarrow> (int \<times> etdb_connection) option" where
  "etdb_connect_send_cmd ok conn cmd =
     (let (splits, splits_num) = etdb_str_split cmd 32 256
      in Option.bind (send_splits ok conn (map (str_bytes cmd) (take splits_num splits)) 0)
           (\<lambda>(c, cmd_num). if cmd_num = 0 then Some (-1, c)
              else map_option (\<lambda>c'. (0, c')) (append_out ok c [])))"

section \<open>Writing loses nothing\<close>

text \<open>What \<open>write(2)\<close> promises: it takes at most the bytes it was offered.\<close>

fun io_ok :: "bool \<Rightarrow> nat \<Rightarrow> io_result list \<Rightarrow> bool" where
  "io_ok nb n [] = True"
| "io_ok nb n (Moved k # os) \<longleftrightarrow> k \<le> n \<and> io_ok nb (n - k) os"
| "io_ok nb n (_ # os) \<longleftrightarrow> io_ok nb n os"

lemma want_int_small [simp]: "n < 2 ^ 31 \<Longrightarrow> want_int n = int n"
  using int_word_sint [of "int n", where ?'a = 32] by (simp add: want_int_def)

lemma write_loop_spec:
  assumes "write_loop nb b ret sent os = Some (r, b', sent', os')" "buf_wf b" "io_ok nb (bsize b) os"
    "0 \<le> ret"
  shows "sent' @ buf_bytes b' = sent @ buf_bytes b \<and> buf_wf b' \<and>
    (r = -1 \<or> r = ret + int (length sent') - int (length sent)) \<and>
    io_ok nb (bsize b') os'"
  using assms
proof (induction nb b ret sent os arbitrary: r b' sent' os' rule: write_loop.induct)
  case (1 nb b ret sent)
  then show ?case by (auto simp: buf_nice split: if_splits)
next
  case (2 nb b ret sent x os)
  have nice: "bsize (etdb_buf_nice b) = bsize b" for b by (simp add: etdb_buf_nice_def)
  show ?case
  proof (cases "want_int (bsize b) > 0")
    case False
    then show ?thesis using 2 by (auto simp: buf_nice nice)
  next
    case pos: True
    show ?thesis
    proof (cases x)
      case (Moved len)
      show ?thesis
      proof (cases "len = 0")
        case True
        then show ?thesis using 2 pos Moved by (auto simp: buf_nice nice)
      next
        case False
        have len: "len \<le> bsize b" "io_ok nb (bsize b - len) os" using 2(5) Moved by simp_all
        let ?b = "etdb_buf_decr b len" and ?sent = "sent @ take len (buf_bytes b)"
        note d = buf_decr [OF 2(4) len(1)]
        have app: "?sent @ buf_bytes ?b = sent @ buf_bytes b" using d by simp
        have ls: "length ?sent = length sent + len"
          using len(1) by (simp add: buf_bytes_def)
        have sz: "bsize ?b = bsize b - len" using len(1) by (simp add: etdb_buf_decr_def size_sub_def)
        show ?thesis
        proof (cases nb)
          case True
          from 2(1) [OF pos Moved False refl refl refl] True
          have "sent' @ buf_bytes b' = ?sent @ buf_bytes ?b \<and> buf_wf b' \<and>
            (r = -1 \<or> r = ret + int len + int (length sent') - int (length ?sent)) \<and>
            io_ok nb (bsize b') os'"
            using 2(3,6) pos Moved False d len sz by (auto simp: Let_def)
          then show ?thesis using app ls by (auto simp: algebra_simps)
        next
          case False
          then have "r = ret + int len" "b' = etdb_buf_nice ?b" "sent' = ?sent" "os' = os"
            using 2(3) pos Moved \<open>len \<noteq> 0\<close> by (auto simp: Let_def)
          then show ?thesis using d app ls len sz by (auto simp: buf_nice nice)
        qed
      qed
    next
      case Interrupted
      then show ?thesis using 2(2) [OF pos Interrupted] 2(3-6) pos by simp
    next
      case WouldBlock
      then show ?thesis using 2(3-6) pos by (auto simp: buf_nice nice)
    next
      case Failed
      then show ?thesis using 2(3-6) pos by auto
    qed
  qed
qed

text \<open>
  C29: whatever the socket does, \<open>etdb_connect_write\<close> sends a prefix of the buffered bytes and
  keeps the rest, in order, without loss or repetition; without an error it returns their number.
\<close>

theorem etdb_connect_write_stream:
  assumes "etdb_connect_write conn os = Some (r, conn', sent, os')" "buf_wf (buf_out conn)"
    "io_ok (noblock conn) (bsize (buf_out conn)) os"
  shows "sent @ buf_bytes (buf_out conn') = buf_bytes (buf_out conn) \<and> buf_wf (buf_out conn') \<and>
    (r \<noteq> -1 \<longrightarrow> r = int (length sent))"
proof -
  from assms(1) obtain b where
    "write_loop (noblock conn) (buf_out conn) 0 [] os = Some (r, b, sent, os')" "conn' = conn\<lparr>buf_out := b\<rparr>"
    by (auto simp: etdb_connect_write_def)
  with write_loop_spec [OF this(1) assms(2,3)] show ?thesis by auto
qed

definition example_conn :: etdb_connection where
  "example_conn = \<lparr>sock = 7, noblock = True, buf_in = etdb_buf_init (\<lambda>_. 0) 16,
     buf_out = \<lparr>bmem = (\<lambda>i. [43, 79, 75] ! i), bdata = 0, bsize = 3, bcap = 16\<rparr>,
     recv_cmd = [], free_cmd = [], slot = 0\<rparr>"

theorem etdb_connect_write_stream_witness:
  "\<exists>conn'. etdb_connect_write example_conn [Interrupted, Moved 2, WouldBlock] = Some (2, conn', [43, 79], []) \<and>
     buf_bytes (buf_out conn') = [75]"
proof -
  let ?os = "[Interrupted, Moved 2, WouldBlock]"
  have e: "\<exists>conn'. etdb_connect_write example_conn ?os = Some (2, conn', [43, 79], [])"
    by (simp add: etdb_connect_write_def example_conn_def etdb_buf_decr_def size_sub_def buf_bytes_def mem_read_def
        upt_conv_Cons)
  then obtain conn' where c: "etdb_connect_write example_conn ?os = Some (2, conn', [43, 79], [])" by blast
  have "buf_wf (buf_out example_conn)" "io_ok (noblock example_conn) (bsize (buf_out example_conn)) ?os"
    "buf_bytes (buf_out example_conn) = [43, 79, 75]"
    by (simp_all add: example_conn_def buf_wf_def buf_bytes_def mem_read_def upt_conv_Cons)
  with etdb_connect_write_stream [OF c] c show ?thesis by simp
qed

section \<open>Queued requests\<close>

lemma append_out_spec:
  assumes "buf_wf (buf_out conn)" "length s < 2 ^ 31" "ok = (\<lambda>_. True)"
  obtains c where "append_out ok conn s = Some c" "buf_wf (buf_out c)"
    "buf_bytes (buf_out c) = buf_bytes (buf_out conn) @ encode_record s"
  using append_record_run [OF assms(1,2), of ok] assms(3)
  by (auto simp: append_out_def)

lemma append_all_spec:
  assumes "buf_wf (buf_out conn)" "\<forall>s\<in>set ss. length s < 2 ^ 31" "ok = (\<lambda>_. True)"
  shows "\<exists>c. append_all ok conn ss = Some c \<and> buf_wf (buf_out c) \<and>
    buf_bytes (buf_out c) = buf_bytes (buf_out conn) @ concat (map encode_record ss)"
  using assms
proof (induction ss arbitrary: conn)
  case (Cons s ss)
  obtain c where c: "append_out ok conn s = Some c" "buf_wf (buf_out c)"
    "buf_bytes (buf_out c) = buf_bytes (buf_out conn) @ encode_record s"
    using append_out_spec [of conn s ok] Cons.prems by auto
  with Cons.IH [OF c(2)] Cons.prems show ?case by auto
qed simp

lemma send_splits_spec:
  assumes "buf_wf (buf_out conn)" "\<forall>s\<in>set ss. length s < 2 ^ 31" "ok = (\<lambda>_. True)"
  shows "\<exists>c. send_splits ok conn ss k = Some (c, k + length (filter (\<lambda>s. s \<noteq> []) ss)) \<and>
    buf_wf (buf_out c) \<and>
    buf_bytes (buf_out c) = buf_bytes (buf_out conn) @ concat (map encode_record (filter (\<lambda>s. s \<noteq> []) ss))"
  using assms
proof (induction ss arbitrary: conn k)
  case (Cons s ss)
  show ?case
  proof (cases "s = []")
    case False
    obtain c where c: "append_out ok conn s = Some c" "buf_wf (buf_out c)"
      "buf_bytes (buf_out c) = buf_bytes (buf_out conn) @ encode_record s"
      using append_out_spec [of conn s ok] Cons.prems by auto
    with False Cons.IH [OF c(2), of "k + 1"] Cons.prems show ?thesis by auto
  qed (use Cons in auto)
qed simp

lemma send_to_buf_spec:
  assumes "buf_wf (buf_out conn)" "\<forall>s\<in>set resp. length s < 2 ^ 31" "\<forall>n. ok n"
  shows "\<exists>c. etdb_connect_send_to_buf ok conn resp = Some c \<and> buf_wf (buf_out c) \<and>
    buf_bytes (buf_out c) = buf_bytes (buf_out conn) @ encode_request resp"
proof -
  have ok: "ok = (\<lambda>_. True)" using assms(3) by auto
  obtain c where c: "append_all ok conn resp = Some c" "buf_wf (buf_out c)"
    "buf_bytes (buf_out c) = buf_bytes (buf_out conn) @ concat (map encode_record resp)"
    using append_all_spec [OF assms(1,2) ok] by blast
  obtain d where "append_out ok c [] = Some d" "buf_wf (buf_out d)"
    "buf_bytes (buf_out d) = buf_bytes (buf_out c) @ encode_record []"
    using append_out_spec [OF c(2) _ ok, of "[]"] by auto
  with c show ?thesis
    by (auto simp: etdb_connect_send_to_buf_def encode_request_def)
qed

text \<open>
  \<open>etdb_connect_send_to_buf\<close> queues the response records followed by the empty record, the
  encoding that \<open>etdb_resp_parse_roundtrip\<close> decodes.
\<close>

theorem etdb_connect_send_to_buf_encodes:
  assumes "buf_wf (buf_out conn)" "\<forall>s\<in>set resp. length s < 2 ^ 31" "\<forall>n. ok n"
  shows "\<exists>c. etdb_connect_send_to_buf ok conn resp = Some c \<and> buf_wf (buf_out c) \<and>
    buf_bytes (buf_out c) = buf_bytes (buf_out conn) @ encode_request resp"
  by (rule send_to_buf_spec [OF assms])

lemma example_conn_out: "buf_wf (buf_out example_conn)"
  by (simp add: example_conn_def buf_wf_def)

theorem etdb_connect_send_to_buf_encodes_witness:
  "\<exists>c. etdb_connect_send_to_buf (\<lambda>_. True) example_conn [[43, 79, 75]] = Some c \<and> buf_wf (buf_out c)"
  using etdb_connect_send_to_buf_encodes [OF example_conn_out, of "[[43, 79, 75]]" "\<lambda>_. True"] by auto

lemma length_fields: "f \<in> set (split_fields c s) \<Longrightarrow> length f \<le> length s"
proof (induction s arbitrary: f)
  case (Cons x s)
  then show ?case
    using fields_nonempty [of c s]
    by (cases "split_fields c s") (auto split: if_splits intro: le_SucI)
qed simp

lemma send_cmd_spec:
  assumes "buf_wf (buf_out conn)" "length cmd < 2 ^ 31" "\<forall>n. ok n"
  shows "\<exists>r c. etdb_connect_send_cmd ok conn cmd = Some (r, c) \<and> buf_wf (buf_out c) \<and>
    (let words = filter (\<lambda>s. s \<noteq> []) (take 256 (split_fields 32 cmd)) in
     (words = [] \<longrightarrow> r = -1 \<and> buf_bytes (buf_out c) = buf_bytes (buf_out conn)) \<and>
     (words \<noteq> [] \<longrightarrow> r = 0 \<and> buf_bytes (buf_out c) = buf_bytes (buf_out conn) @ encode_request words))"
proof -
  have ok: "ok = (\<lambda>_. True)" using assms(3) by auto
  obtain splits n where sp: "etdb_str_split cmd 32 256 = (splits, n)" by fastforce
  with etdb_str_split_fields' [of cmd 32 256]
  have f: "map (str_bytes cmd) splits = take 256 (split_fields 32 cmd)" "n = min 256 (length (split_fields 32 cmd))"
    by simp_all
  have "length splits = n" using arg_cong [OF f(1), of length] f(2) by simp
  then have ss: "map (str_bytes cmd) (take n splits) = take 256 (split_fields 32 cmd)"
    using f(1) by simp
  let ?words = "filter (\<lambda>s. s \<noteq> []) (take 256 (split_fields 32 cmd))"
  have "\<forall>s\<in>set (take 256 (split_fields 32 cmd)). length s < 2 ^ 31"
    using length_fields [of _ 32 cmd] assms(2) by (auto dest!: in_set_takeD) (meson le_less_trans)
  from send_splits_spec [OF assms(1) this ok, of 0] obtain c where
    c: "send_splits ok conn (take 256 (split_fields 32 cmd)) 0 = Some (c, length ?words)" "buf_wf (buf_out c)"
    "buf_bytes (buf_out c) = buf_bytes (buf_out conn) @ concat (map encode_record ?words)"
    by auto
  obtain d where d: "append_out ok c [] = Some d" "buf_wf (buf_out d)"
    "buf_bytes (buf_out d) = buf_bytes (buf_out c) @ encode_record []"
    using append_out_spec [OF c(2) _ ok, of "[]"] by auto
  have "etdb_connect_send_cmd ok conn cmd = (if ?words = [] then Some (-1, c) else Some (0, d))"
    using sp ss c(1) d(1) by (simp add: etdb_connect_send_cmd_def)
  then show ?thesis
    using c(2,3) d(2,3) by (cases "?words = []") (simp_all add: Let_def encode_request_def)
qed

text \<open>Queueing changes the output buffer alone.\<close>

lemma send_cmd_frame:
  assumes "etdb_connect_send_cmd ok conn cmd = Some (r, c)"
  shows "c = conn\<lparr>buf_out := buf_out c\<rparr>"
proof -
  have app: "d = c\<lparr>buf_out := buf_out d\<rparr>" if "append_out ok c s = Some d" for c d s
    using that by (auto simp: append_out_def)
  have splits: "d = c\<lparr>buf_out := buf_out d\<rparr>" if "send_splits ok c ss k = Some (d, n)" for c d ss k n
    using that
  proof (induction ss arbitrary: c k)
    case (Cons s ss)
    show ?case
    proof (cases "s = []")
      case False
      then obtain e where e: "append_out ok c s = Some e" "send_splits ok e ss (k + 1) = Some (d, n)"
        using Cons.prems by (auto simp: Option.bind_eq_Some_conv)
      have "e = c\<lparr>buf_out := buf_out e\<rparr>" "d = e\<lparr>buf_out := buf_out d\<rparr>" by (rule app [OF e(1)], rule Cons.IH [OF e(2)])
      then show ?thesis by (metis etdb_connection.update_convs(4) etdb_connection.surjective)
    qed (use Cons in simp)
  qed simp
  obtain d n where d: "send_splits ok conn (map (str_bytes cmd) (take (snd (etdb_str_split cmd 32 256)) (fst (etdb_str_split cmd 32 256)))) 0 =
      Some (d, n)" "c = d \<or> append_out ok d [] = Some c"
    using assms by (auto simp: etdb_connect_send_cmd_def Option.bind_eq_Some_conv split: prod.splits if_splits)
  then have "d = conn\<lparr>buf_out := buf_out d\<rparr>" "c = d\<lparr>buf_out := buf_out c\<rparr>" using splits app by auto
  then show ?thesis by (metis etdb_connection.update_convs(4) etdb_connection.surjective)
qed

text \<open>
  \<open>etdb_connect_send_cmd\<close> queues the request that consists of the non-empty words of the
  command line, at most 256 fields of it, and rejects a line without words.
\<close>

theorem etdb_connect_send_cmd_words:
  assumes "buf_wf (buf_out conn)" "length cmd < 2 ^ 31" "\<forall>n. ok n"
  shows "\<exists>r c. etdb_connect_send_cmd ok conn cmd = Some (r, c) \<and>
    (let words = filter (\<lambda>s. s \<noteq> []) (take 256 (split_fields 32 cmd)) in
     (words = [] \<longrightarrow> r = -1 \<and> buf_bytes (buf_out c) = buf_bytes (buf_out conn)) \<and>
     (words \<noteq> [] \<longrightarrow> r = 0 \<and> buf_bytes (buf_out c) = buf_bytes (buf_out conn) @ encode_request words))"
  using send_cmd_spec [OF assms] by blast

theorem etdb_connect_send_cmd_words_witness:
  "\<exists>c. etdb_connect_send_cmd (\<lambda>_. True) example_conn [32, 107] = Some (0, c) \<and>
     buf_bytes (buf_out c) = buf_bytes (buf_out example_conn) @ encode_request [[107]]"
  using etdb_connect_send_cmd_words [OF example_conn_out, of "[32, 107]" "\<lambda>_. True"] by auto

end
