(* ===== verification/Sockets.thy ===== *)
theory Sockets
  imports Connection
begin

text \<open>
  Creating, configuring and closing connections, the first half of \<open>src/etdb_connection.c\<close>.

  A system call is an argument that says how it ended: \<open>sockfd\<close> is the result of \<open>socket\<close>, a
  \<^typ>\<open>bool\<close> tells whether \<open>connect\<close>, \<open>setsockopt\<close>, \<open>bind\<close> or \<open>listen\<close> succeeded, and
  \<open>accept_result\<close> is the outcome of one call of \<open>accept\<close>. The functions yield the
  connection, \<^term>\<open>None\<close> for \<open>NULL\<close>, and the descriptors passed to \<open>close\<close>. The memory of a
  new buffer is arbitrary: \<open>raw\<close>. The pool of the connection is a region (theory \<open>Palloc\<close>).
\<close>

definition ETDB_CONNECTION_BUF_SIZE :: nat where
  "ETDB_CONNECTION_BUF_SIZE = 8192"

text \<open>\<open>etdb_pcalloc\<close> fills the struct with zeros; a buffer at \<open>NULL\<close> has no room.\<close>

definition zero_connection :: etdb_connection where
  "zero_connection = \<lparr>sock = 0, noblock = False,
     buf_in = \<lparr>bmem = (\<lambda>_. 0), bdata = 0, bsize = 0, bcap = 0\<rparr>,
     buf_out = \<lparr>bmem = (\<lambda>_. 0), bdata = 0, bsize = 0, bcap = 0\<rparr>,
     recv_cmd = [], free_cmd = [], slot = 0\<rparr>"

definition etdb_connect_init_buf ::
    "(nat \<Rightarrow> byte) \<Rightarrow> (nat \<Rightarrow> byte) \<Rightarrow> etdb_connection \<Rightarrow> etdb_connection" where
  "etdb_connect_init_buf raw_in raw_out conn =
     conn\<lparr>buf_in := etdb_buf_init raw_in ETDB_CONNECTION_BUF_SIZE,
          buf_out := etdb_buf_init raw_out ETDB_CONNECTION_BUF_SIZE,
          recv_cmd := [], free_cmd := []\<rparr>"

text \<open>The descriptors closed; the pools are returned as a whole.\<close>

definition etdb_connect_close :: "etdb_connection \<Rightarrow> int list" where
  "etdb_connect_close conn = (if sock conn \<ge> 0 then [sock conn] else [])"

definition etdb_connect_noblock :: "etdb_connection \<Rightarrow> bool \<Rightarrow> etdb_connection" where
  "etdb_connect_noblock conn enable = conn\<lparr>noblock := enable\<rparr>"

definition sock_err :: "int \<Rightarrow> etdb_connection option \<times> int list" where
  "sock_err s = (None, if s \<ge> 0 then [s] else [])"

definition etdb_connect_request ::
    "(nat \<Rightarrow> byte) \<Rightarrow> (nat \<Rightarrow> byte) \<Rightarrow> int \<Rightarrow> bool \<Rightarrow> etdb_connection option \<times> int list" where
  "etdb_connect_request raw_in raw_out sockfd conn_ok =
     (if sockfd = -1 then sock_err sockfd
      else if \<not> conn_ok then sock_err sockfd
      else (Some (etdb_connect_init_buf raw_in raw_out (zero_connection\<lparr>sock := sockfd\<rparr>)), []))"

definition etdb_connect_listen ::
    "int \<Rightarrow> bool \<Rightarrow> bool \<Rightarrow> bool \<Rightarrow> etdb_connection option \<times> int list" where
  "etdb_connect_listen sockfd reused bound listening =
     (if sockfd = -1 then sock_err sockfd
      else if \<not> reused then sock_err sockfd
      else if \<not> bound then sock_err sockfd
      else if \<not> listening then sock_err sockfd
      else (Some (zero_connection\<lparr>sock := sockfd\<rparr>), []))"

datatype accept_result = Accepted int | AInterrupted | AFailed

text \<open>\<^term>\<open>None\<close>: \<open>accept\<close> is interrupted as long as the list of its results is.\<close>

fun etdb_connect_accept ::
    "(nat \<Rightarrow> byte) \<Rightarrow> (nat \<Rightarrow> byte) \<Rightarrow> accept_result list \<Rightarrow> etdb_connection option option" where
  "etdb_connect_accept raw_in raw_out [] = None"
| "etdb_connect_accept raw_in raw_out (r # rs) =
     (case r of
        AInterrupted \<Rightarrow> etdb_connect_accept raw_in raw_out rs
      | AFailed \<Rightarrow> Some None
      | Accepted client_sock \<Rightarrow>
          Some (Some (etdb_connect_init_buf raw_in raw_out (zero_connection\<lparr>sock := client_sock\<rparr>))))"

text \<open>A new connection is ready for requests.\<close>

definition fresh_conn :: "etdb_connection \<Rightarrow> bool" where
  "fresh_conn conn \<longleftrightarrow> buf_wf (buf_in conn) \<and> buf_wf (buf_out conn) \<and> buf_bytes (buf_in conn) = [] \<and>
     buf_bytes (buf_out conn) = [] \<and> recv_cmd conn = [] \<and> free_cmd conn = [] \<and> slot conn = 0 \<and>
     \<not> noblock conn"

lemma init_buf_fresh: "fresh_conn (etdb_connect_init_buf ri ro (zero_connection\<lparr>sock := s\<rparr>))"
  by (simp add: fresh_conn_def etdb_connect_init_buf_def zero_connection_def etdb_buf_init_def
      buf_wf_def buf_bytes_def mem_read_def ETDB_CONNECTION_BUF_SIZE_def)

end
