(* ===== verification/Trie_Model.thy ===== *)
theory Trie_Model
  imports Prelude
begin

text \<open>
  The double-array trie of \<open>src/store/etdb_trie.c\<close> and \<open>etdb_trie.h\<close>: its state and every
  operation that changes or searches it, in the order of the source.

  \<^item> \<open>trie_node\<close>, \<open>trie_ninfo\<close>, \<open>trie_block\<close> and \<open>trie\<close> are the structs. The three arrays are
    functions from the index; a read or write of \<open>NodeAt(trie, i)->f\<close> is \<open>f_at t i\<close> or
    \<open>put_f t i x\<close>. What lies outside the allocated part of an array is arbitrary: nothing is
    assumed of it, and the invariant (theory \<open>Trie_Space\<close>) keeps every index inside.
  \<^item> \<open>etdb_id_t\<close> (\<open>int64_t\<close>) is \<^typ>\<open>int\<close>: indices are bounded by twice the memory the arrays
    take, so no index computation comes near \<open>2 ^ 63\<close>; \<open>e >> 8\<close> is \<open>e div 256\<close>.
  \<^item> an argument that points to one of the three list heads is a \<open>blist\<close>, a pointer into a
    sibling chain (\<open>uint8_t *c\<close>) a \<open>cptr\<close>; the array \<open>child[256]\<close> between \<open>first\<close> and \<open>last\<close>
    is a list of labels.
  \<^item> loops whose end depends on the shape of the data are \<^theory_text>\<open>partial_function\<close>s: \<^term>\<open>None\<close>
    means that the loop does not end. \<open>realloc\<close> is taken to succeed.
\<close>

section \<open>Data\<close>

record trie_node =
  nbase :: int
  ncheck :: int

record trie_ninfo =
  nsibling :: byte
  nchild :: byte

record trie_block =
  bprev :: int
  bnext :: int
  bnum :: int
  breject :: int
  btrial :: int
  behead :: int

record trie =
  node :: "int \<Rightarrow> trie_node"
  ninfo :: "int \<Rightarrow> trie_ninfo"
  block :: "int \<Rightarrow> trie_block"
  head_full :: int
  head_close :: int
  head_open :: int
  capacity :: int
  tsize :: int
  treject :: "int \<Rightarrow> int"

definition ETDB_TRIE_NO_PATH :: int where
  "ETDB_TRIE_NO_PATH = -1"

definition ETDB_TRIE_NO_VALUE :: int where
  "ETDB_TRIE_NO_VALUE = -2"

definition ETDB_TRIE_MAX_TRIAL :: int where
  "ETDB_TRIE_MAX_TRIAL = 1"

definition NodeAt :: "trie \<Rightarrow> int \<Rightarrow> trie_node" where
  "NodeAt t i = node t i"

definition NinfoAt :: "trie \<Rightarrow> int \<Rightarrow> trie_ninfo" where
  "NinfoAt t i = ninfo t i"

definition BlockAt :: "trie \<Rightarrow> int \<Rightarrow> trie_block" where
  "BlockAt t i = block t i"

definition base_at :: "trie \<Rightarrow> int \<Rightarrow> int" where
  "base_at t i = nbase (NodeAt t i)"

definition check_at :: "trie \<Rightarrow> int \<Rightarrow> int" where
  "check_at t i = ncheck (NodeAt t i)"

definition sibling_at :: "trie \<Rightarrow> int \<Rightarrow> byte" where
  "sibling_at t i = nsibling (NinfoAt t i)"

definition child_at :: "trie \<Rightarrow> int \<Rightarrow> byte" where
  "child_at t i = nchild (NinfoAt t i)"

definition bprev_at :: "trie \<Rightarrow> int \<Rightarrow> int" where
  "bprev_at t i = bprev (BlockAt t i)"

definition bnext_at :: "trie \<Rightarrow> int \<Rightarrow> int" where
  "bnext_at t i = bnext (BlockAt t i)"

definition bnum_at :: "trie \<Rightarrow> int \<Rightarrow> int" where
  "bnum_at t i = bnum (BlockAt t i)"

definition breject_at :: "trie \<Rightarrow> int \<Rightarrow> int" where
  "breject_at t i = breject (BlockAt t i)"

definition btrial_at :: "trie \<Rightarrow> int \<Rightarrow> int" where
  "btrial_at t i = btrial (BlockAt t i)"

definition behead_at :: "trie \<Rightarrow> int \<Rightarrow> int" where
  "behead_at t i = behead (BlockAt t i)"

definition put_base :: "trie \<Rightarrow> int \<Rightarrow> int \<Rightarrow> trie" where
  "put_base t i x = t\<lparr>node := (node t)(i := (NodeAt t i)\<lparr>nbase := x\<rparr>)\<rparr>"

definition put_check :: "trie \<Rightarrow> int \<Rightarrow> int \<Rightarrow> trie" where
  "put_check t i x = t\<lparr>node := (node t)(i := (NodeAt t i)\<lparr>ncheck := x\<rparr>)\<rparr>"

definition put_sibling :: "trie \<Rightarrow> int \<Rightarrow> byte \<Rightarrow> trie" where
  "put_sibling t i x = t\<lparr>ninfo := (ninfo t)(i := (NinfoAt t i)\<lparr>nsibling := x\<rparr>)\<rparr>"

definition put_child :: "trie \<Rightarrow> int \<Rightarrow> byte \<Rightarrow> trie" where
  "put_child t i x = t\<lparr>ninfo := (ninfo t)(i := (NinfoAt t i)\<lparr>nchild := x\<rparr>)\<rparr>"

definition put_bprev :: "trie \<Rightarrow> int \<Rightarrow> int \<Rightarrow> trie" where
  "put_bprev t i x = t\<lparr>block := (block t)(i := (BlockAt t i)\<lparr>bprev := x\<rparr>)\<rparr>"

definition put_bnext :: "trie \<Rightarrow> int \<Rightarrow> int \<Rightarrow> trie" where
  "put_bnext t i x = t\<lparr>block := (block t)(i := (BlockAt t i)\<lparr>bnext := x\<rparr>)\<rparr>"

definition put_bnum :: "trie \<Rightarrow> int \<Rightarrow> int \<Rightarrow> trie" where
  "put_bnum t i x = t\<lparr>block := (block t)(i := (BlockAt t i)\<lparr>bnum := x\<rparr>)\<rparr>"

definition put_breject :: "trie \<Rightarrow> int \<Rightarrow> int \<Rightarrow> trie" where
  "put_breject t i x = t\<lparr>block := (block t)(i := (BlockAt t i)\<lparr>breject := x\<rparr>)\<rparr>"

definition put_btrial :: "trie \<Rightarrow> int \<Rightarrow> int \<Rightarrow> trie" where
  "put_btrial t i x = t\<lparr>block := (block t)(i := (BlockAt t i)\<lparr>btrial := x\<rparr>)\<rparr>"

definition put_behead :: "trie \<Rightarrow> int \<Rightarrow> int \<Rightarrow> trie" where
  "put_behead t i x = t\<lparr>block := (block t)(i := (BlockAt t i)\<lparr>behead := x\<rparr>)\<rparr>"

text \<open>The three lists of blocks; a pointer to a list head is the name of the list.\<close>

datatype blist = Full | Close | Open

primrec head_of :: "blist \<Rightarrow> trie \<Rightarrow> int" where
  "head_of Full t = head_full t"
| "head_of Close t = head_close t"
| "head_of Open t = head_open t"

primrec set_head :: "blist \<Rightarrow> int \<Rightarrow> trie \<Rightarrow> trie" where
  "set_head Full x t = t\<lparr>head_full := x\<rparr>"
| "set_head Close x t = t\<lparr>head_close := x\<rparr>"
| "set_head Open x t = t\<lparr>head_open := x\<rparr>"

text \<open>A pointer into a chain of siblings: the \<open>child\<close> or the \<open>sibling\<close> byte of an entry.\<close>

datatype cptr = PChild int | PSibling int

primrec deref :: "trie \<Rightarrow> cptr \<Rightarrow> byte" where
  "deref t (PChild i) = child_at t i"
| "deref t (PSibling i) = sibling_at t i"

primrec assign :: "trie \<Rightarrow> cptr \<Rightarrow> byte \<Rightarrow> trie" where
  "assign t (PChild i) x = put_child t i x"
| "assign t (PSibling i) x = put_sibling t i x"

section \<open>Reads after writes\<close>

lemmas trie_acc_defs =
  base_at_def check_at_def sibling_at_def child_at_def bprev_at_def bnext_at_def
  bnum_at_def breject_at_def btrial_at_def behead_at_def put_base_def put_check_def
  put_sibling_def put_child_def put_bprev_def put_bnext_def put_bnum_def put_breject_def
  put_btrial_def put_behead_def NodeAt_def NinfoAt_def BlockAt_def

lemma put_base_acc [simp, trie_acc]:
  "base_at (put_base t i x) j = (if j = i then x else base_at t j)"
  "check_at (put_base t i x) j = check_at t j"
  "sibling_at (put_base t i x) j = sibling_at t j"
  "child_at (put_base t i x) j = child_at t j"
  "bprev_at (put_base t i x) j = bprev_at t j"
  "bnext_at (put_base t i x) j = bnext_at t j"
  "bnum_at (put_base t i x) j = bnum_at t j"
  "breject_at (put_base t i x) j = breject_at t j"
  "btrial_at (put_base t i x) j = btrial_at t j"
  "behead_at (put_base t i x) j = behead_at t j"
  "head_full (put_base t i x) = head_full t"
  "head_close (put_base t i x) = head_close t"
  "head_open (put_base t i x) = head_open t"
  "capacity (put_base t i x) = capacity t"
  "tsize (put_base t i x) = tsize t"
  "treject (put_base t i x) = treject t"
  by (simp_all add: trie_acc_defs)

lemma put_check_acc [simp, trie_acc]:
  "base_at (put_check t i x) j = base_at t j"
  "check_at (put_check t i x) j = (if j = i then x else check_at t j)"
  "sibling_at (put_check t i x) j = sibling_at t j"
  "child_at (put_check t i x) j = child_at t j"
  "bprev_at (put_check t i x) j = bprev_at t j"
  "bnext_at (put_check t i x) j = bnext_at t j"
  "bnum_at (put_check t i x) j = bnum_at t j"
  "breject_at (put_check t i x) j = breject_at t j"
  "btrial_at (put_check t i x) j = btrial_at t j"
  "behead_at (put_check t i x) j = behead_at t j"
  "head_full (put_check t i x) = head_full t"
  "head_close (put_check t i x) = head_close t"
  "head_open (put_check t i x) = head_open t"
  "capacity (put_check t i x) = capacity t"
  "tsize (put_check t i x) = tsize t"
  "treject (put_check t i x) = treject t"
  by (simp_all add: trie_acc_defs)

lemma put_sibling_acc [simp, trie_acc]:
  "base_at (put_sibling t i x) j = base_at t j"
  "check_at (put_sibling t i x) j = check_at t j"
  "sibling_at (put_sibling t i x) j = (if j = i then x else sibling_at t j)"
  "child_at (put_sibling t i x) j = child_at t j"
  "bprev_at (put_sibling t i x) j = bprev_at t j"
  "bnext_at (put_sibling t i x) j = bnext_at t j"
  "bnum_at (put_sibling t i x) j = bnum_at t j"
  "breject_at (put_sibling t i x) j = breject_at t j"
  "btrial_at (put_sibling t i x) j = btrial_at t j"
  "behead_at (put_sibling t i x) j = behead_at t j"
  "head_full (put_sibling t i x) = head_full t"
  "head_close (put_sibling t i x) = head_close t"
  "head_open (put_sibling t i x) = head_open t"
  "capacity (put_sibling t i x) = capacity t"
  "tsize (put_sibling t i x) = tsize t"
  "treject (put_sibling t i x) = treject t"
  by (simp_all add: trie_acc_defs)

lemma put_child_acc [simp, trie_acc]:
  "base_at (put_child t i x) j = base_at t j"
  "check_at (put_child t i x) j = check_at t j"
  "sibling_at (put_child t i x) j = sibling_at t j"
  "child_at (put_child t i x) j = (if j = i then x else child_at t j)"
  "bprev_at (put_child t i x) j = bprev_at t j"
  "bnext_at (put_child t i x) j = bnext_at t j"
  "bnum_at (put_child t i x) j = bnum_at t j"
  "breject_at (put_child t i x) j = breject_at t j"
  "btrial_at (put_child t i x) j = btrial_at t j"
  "behead_at (put_child t i x) j = behead_at t j"
  "head_full (put_child t i x) = head_full t"
  "head_close (put_child t i x) = head_close t"
  "head_open (put_child t i x) = head_open t"
  "capacity (put_child t i x) = capacity t"
  "tsize (put_child t i x) = tsize t"
  "treject (put_child t i x) = treject t"
  by (simp_all add: trie_acc_defs)

lemma put_bprev_acc [simp, trie_acc]:
  "base_at (put_bprev t i x) j = base_at t j"
  "check_at (put_bprev t i x) j = check_at t j"
  "sibling_at (put_bprev t i x) j = sibling_at t j"
  "child_at (put_bprev t i x) j = child_at t j"
  "bprev_at (put_bprev t i x) j = (if j = i then x else bprev_at t j)"
  "bnext_at (put_bprev t i x) j = bnext_at t j"
  "bnum_at (put_bprev t i x) j = bnum_at t j"
  "breject_at (put_bprev t i x) j = breject_at t j"
  "btrial_at (put_bprev t i x) j = btrial_at t j"
  "behead_at (put_bprev t i x) j = behead_at t j"
  "head_full (put_bprev t i x) = head_full t"
  "head_close (put_bprev t i x) = head_close t"
  "head_open (put_bprev t i x) = head_open t"
  "capacity (put_bprev t i x) = capacity t"
  "tsize (put_bprev t i x) = tsize t"
  "treject (put_bprev t i x) = treject t"
  by (simp_all add: trie_acc_defs)

lemma put_bnext_acc [simp, trie_acc]:
  "base_at (put_bnext t i x) j = base_at t j"
  "check_at (put_bnext t i x) j = check_at t j"
  "sibling_at (put_bnext t i x) j = sibling_at t j"
  "child_at (put_bnext t i x) j = child_at t j"
  "bprev_at (put_bnext t i x) j = bprev_at t j"
  "bnext_at (put_bnext t i x) j = (if j = i then x else bnext_at t j)"
  "bnum_at (put_bnext t i x) j = bnum_at t j"
  "breject_at (put_bnext t i x) j = breject_at t j"
  "btrial_at (put_bnext t i x) j = btrial_at t j"
  "behead_at (put_bnext t i x) j = behead_at t j"
  "head_full (put_bnext t i x) = head_full t"
  "head_close (put_bnext t i x) = head_close t"
  "head_open (put_bnext t i x) = head_open t"
  "capacity (put_bnext t i x) = capacity t"
  "tsize (put_bnext t i x) = tsize t"
  "treject (put_bnext t i x) = treject t"
  by (simp_all add: trie_acc_defs)

lemma put_bnum_acc [simp, trie_acc]:
  "base_at (put_bnum t i x) j = base_at t j"
  "check_at (put_bnum t i x) j = check_at t j"
  "sibling_at (put_bnum t i x) j = sibling_at t j"
  "child_at (put_bnum t i x) j = child_at t j"
  "bprev_at (put_bnum t i x) j = bprev_at t j"
  "bnext_at (put_bnum t i x) j = bnext_at t j"
  "bnum_at (put_bnum t i x) j = (if j = i then x else bnum_at t j)"
  "breject_at (put_bnum t i x) j = breject_at t j"
  "btrial_at (put_bnum t i x) j = btrial_at t j"
  "behead_at (put_bnum t i x) j = behead_at t j"
  "head_full (put_bnum t i x) = head_full t"
  "head_close (put_bnum t i x) = head_close t"
  "head_open (put_bnum t i x) = head_open t"
  "capacity (put_bnum t i x) = capacity t"
  "tsize (put_bnum t i x) = tsize t"
  "treject (put_bnum t i x) = treject t"
  by (simp_all add: trie_acc_defs)

lemma put_breject_acc [simp, trie_acc]:
  "base_at (put_breject t i x) j = base_at t j"
  "check_at (put_breject t i x) j = check_at t j"
  "sibling_at (put_breject t i x) j = sibling_at t j"
  "child_at (put_breject t i x) j = child_at t j"
  "bprev_at (put_breject t i x) j = bprev_at t j"
  "bnext_at (put_breject t i x) j = bnext_at t j"
  "bnum_at (put_breject t i x) j = bnum_at t j"
  "breject_at (put_breject t i x) j = (if j = i then x else breject_at t j)"
  "btrial_at (put_breject t i x) j = btrial_at t j"
  "behead_at (put_breject t i x) j = behead_at t j"
  "head_full (put_breject t i x) = head_full t"
  "head_close (put_breject t i x) = head_close t"
  "head_open (put_breject t i x) = head_open t"
  "capacity (put_breject t i x) = capacity t"
  "tsize (put_breject t i x) = tsize t"
  "treject (put_breject t i x) = treject t"
  by (simp_all add: trie_acc_defs)

lemma put_btrial_acc [simp, trie_acc]:
  "base_at (put_btrial t i x) j = base_at t j"
  "check_at (put_btrial t i x) j = check_at t j"
  "sibling_at (put_btrial t i x) j = sibling_at t j"
  "child_at (put_btrial t i x) j = child_at t j"
  "bprev_at (put_btrial t i x) j = bprev_at t j"
  "bnext_at (put_btrial t i x) j = bnext_at t j"
  "bnum_at (put_btrial t i x) j = bnum_at t j"
  "breject_at (put_btrial t i x) j = breject_at t j"
  "btrial_at (put_btrial t i x) j = (if j = i then x else btrial_at t j)"
  "behead_at (put_btrial t i x) j = behead_at t j"
  "head_full (put_btrial t i x) = head_full t"
  "head_close (put_btrial t i x) = head_close t"
  "head_open (put_btrial t i x) = head_open t"
  "capacity (put_btrial t i x) = capacity t"
  "tsize (put_btrial t i x) = tsize t"
  "treject (put_btrial t i x) = treject t"
  by (simp_all add: trie_acc_defs)

lemma put_behead_acc [simp, trie_acc]:
  "base_at (put_behead t i x) j = base_at t j"
  "check_at (put_behead t i x) j = check_at t j"
  "sibling_at (put_behead t i x) j = sibling_at t j"
  "child_at (put_behead t i x) j = child_at t j"
  "bprev_at (put_behead t i x) j = bprev_at t j"
  "bnext_at (put_behead t i x) j = bnext_at t j"
  "bnum_at (put_behead t i x) j = bnum_at t j"
  "breject_at (put_behead t i x) j = breject_at t j"
  "btrial_at (put_behead t i x) j = btrial_at t j"
  "behead_at (put_behead t i x) j = (if j = i then x else behead_at t j)"
  "head_full (put_behead t i x) = head_full t"
  "head_close (put_behead t i x) = head_close t"
  "head_open (put_behead t i x) = head_open t"
  "capacity (put_behead t i x) = capacity t"
  "tsize (put_behead t i x) = tsize t"
  "treject (put_behead t i x) = treject t"
  by (simp_all add: trie_acc_defs)

lemma head_full_update_acc [simp, trie_acc]:
  "base_at (head_full_update f t) j = base_at t j"
  "check_at (head_full_update f t) j = check_at t j"
  "sibling_at (head_full_update f t) j = sibling_at t j"
  "child_at (head_full_update f t) j = child_at t j"
  "bprev_at (head_full_update f t) j = bprev_at t j"
  "bnext_at (head_full_update f t) j = bnext_at t j"
  "bnum_at (head_full_update f t) j = bnum_at t j"
  "breject_at (head_full_update f t) j = breject_at t j"
  "btrial_at (head_full_update f t) j = btrial_at t j"
  "behead_at (head_full_update f t) j = behead_at t j"
  by (simp_all add: trie_acc_defs)

lemma head_close_update_acc [simp, trie_acc]:
  "base_at (head_close_update f t) j = base_at t j"
  "check_at (head_close_update f t) j = check_at t j"
  "sibling_at (head_close_update f t) j = sibling_at t j"
  "child_at (head_close_update f t) j = child_at t j"
  "bprev_at (head_close_update f t) j = bprev_at t j"
  "bnext_at (head_close_update f t) j = bnext_at t j"
  "bnum_at (head_close_update f t) j = bnum_at t j"
  "breject_at (head_close_update f t) j = breject_at t j"
  "btrial_at (head_close_update f t) j = btrial_at t j"
  "behead_at (head_close_update f t) j = behead_at t j"
  by (simp_all add: trie_acc_defs)

lemma head_open_update_acc [simp, trie_acc]:
  "base_at (head_open_update f t) j = base_at t j"
  "check_at (head_open_update f t) j = check_at t j"
  "sibling_at (head_open_update f t) j = sibling_at t j"
  "child_at (head_open_update f t) j = child_at t j"
  "bprev_at (head_open_update f t) j = bprev_at t j"
  "bnext_at (head_open_update f t) j = bnext_at t j"
  "bnum_at (head_open_update f t) j = bnum_at t j"
  "breject_at (head_open_update f t) j = breject_at t j"
  "btrial_at (head_open_update f t) j = btrial_at t j"
  "behead_at (head_open_update f t) j = behead_at t j"
  by (simp_all add: trie_acc_defs)

lemma capacity_update_acc [simp, trie_acc]:
  "base_at (capacity_update f t) j = base_at t j"
  "check_at (capacity_update f t) j = check_at t j"
  "sibling_at (capacity_update f t) j = sibling_at t j"
  "child_at (capacity_update f t) j = child_at t j"
  "bprev_at (capacity_update f t) j = bprev_at t j"
  "bnext_at (capacity_update f t) j = bnext_at t j"
  "bnum_at (capacity_update f t) j = bnum_at t j"
  "breject_at (capacity_update f t) j = breject_at t j"
  "btrial_at (capacity_update f t) j = btrial_at t j"
  "behead_at (capacity_update f t) j = behead_at t j"
  by (simp_all add: trie_acc_defs)

lemma tsize_update_acc [simp, trie_acc]:
  "base_at (tsize_update f t) j = base_at t j"
  "check_at (tsize_update f t) j = check_at t j"
  "sibling_at (tsize_update f t) j = sibling_at t j"
  "child_at (tsize_update f t) j = child_at t j"
  "bprev_at (tsize_update f t) j = bprev_at t j"
  "bnext_at (tsize_update f t) j = bnext_at t j"
  "bnum_at (tsize_update f t) j = bnum_at t j"
  "breject_at (tsize_update f t) j = breject_at t j"
  "btrial_at (tsize_update f t) j = btrial_at t j"
  "behead_at (tsize_update f t) j = behead_at t j"
  by (simp_all add: trie_acc_defs)

lemma treject_update_acc [simp, trie_acc]:
  "base_at (treject_update f t) j = base_at t j"
  "check_at (treject_update f t) j = check_at t j"
  "sibling_at (treject_update f t) j = sibling_at t j"
  "child_at (treject_update f t) j = child_at t j"
  "bprev_at (treject_update f t) j = bprev_at t j"
  "bnext_at (treject_update f t) j = bnext_at t j"
  "bnum_at (treject_update f t) j = bnum_at t j"
  "breject_at (treject_update f t) j = breject_at t j"
  "btrial_at (treject_update f t) j = btrial_at t j"
  "behead_at (treject_update f t) j = behead_at t j"
  by (simp_all add: trie_acc_defs)

lemma set_head_acc [simp, trie_acc]:
  "base_at (set_head l x t) j = base_at t j"
  "check_at (set_head l x t) j = check_at t j"
  "sibling_at (set_head l x t) j = sibling_at t j"
  "child_at (set_head l x t) j = child_at t j"
  "bprev_at (set_head l x t) j = bprev_at t j"
  "bnext_at (set_head l x t) j = bnext_at t j"
  "bnum_at (set_head l x t) j = bnum_at t j"
  "breject_at (set_head l x t) j = breject_at t j"
  "btrial_at (set_head l x t) j = btrial_at t j"
  "behead_at (set_head l x t) j = behead_at t j"
  "capacity (set_head l x t) = capacity t"
  "tsize (set_head l x t) = tsize t"
  "treject (set_head l x t) = treject t"
  "head_of k (set_head l x t) = (if k = l then x else head_of k t)"
  by (cases l; cases k; simp)+

lemma head_of_put_base [simp, trie_acc]: "head_of l (put_base t i x) = head_of l t"
  by (cases l) simp_all

lemma head_of_put_check [simp, trie_acc]: "head_of l (put_check t i x) = head_of l t"
  by (cases l) simp_all

lemma head_of_put_sibling [simp, trie_acc]: "head_of l (put_sibling t i x) = head_of l t"
  by (cases l) simp_all

lemma head_of_put_child [simp, trie_acc]: "head_of l (put_child t i x) = head_of l t"
  by (cases l) simp_all

lemma head_of_put_bprev [simp, trie_acc]: "head_of l (put_bprev t i x) = head_of l t"
  by (cases l) simp_all

lemma head_of_put_bnext [simp, trie_acc]: "head_of l (put_bnext t i x) = head_of l t"
  by (cases l) simp_all

lemma head_of_put_bnum [simp, trie_acc]: "head_of l (put_bnum t i x) = head_of l t"
  by (cases l) simp_all

lemma head_of_put_breject [simp, trie_acc]: "head_of l (put_breject t i x) = head_of l t"
  by (cases l) simp_all

lemma head_of_put_btrial [simp, trie_acc]: "head_of l (put_btrial t i x) = head_of l t"
  by (cases l) simp_all

lemma head_of_put_behead [simp, trie_acc]: "head_of l (put_behead t i x) = head_of l t"
  by (cases l) simp_all

section \<open>Creation and growth\<close>

definition etdb_trie_node_realloc :: "trie \<Rightarrow> int \<Rightarrow> int \<Rightarrow> trie" where
  "etdb_trie_node_realloc t size_n size_p =
     t\<lparr>node := (\<lambda>i. if size_p \<le> i \<and> i < size_n then \<lparr>nbase = 0, ncheck = 0\<rparr> else node t i)\<rparr>"

definition etdb_trie_ninfo_realloc :: "trie \<Rightarrow> int \<Rightarrow> int \<Rightarrow> trie" where
  "etdb_trie_ninfo_realloc t size_n size_p =
     t\<lparr>ninfo := (\<lambda>i. if size_p \<le> i \<and> i < size_n then \<lparr>nsibling = 0, nchild = 0\<rparr> else ninfo t i)\<rparr>"

definition etdb_trie_block_realloc :: "trie \<Rightarrow> int \<Rightarrow> int \<Rightarrow> trie" where
  "etdb_trie_block_realloc t size_n size_p =
     t\<lparr>block := (\<lambda>i. if size_p \<le> i \<and> i < size_n
       then \<lparr>bprev = 0, bnext = 0, bnum = 256, breject = 257, btrial = 0, behead = 0\<rparr>
       else block t i)\<rparr>"

text \<open>
  The initialisation loop writes slot \<open>i\<close> in round \<open>i\<close> only, so it is one pointwise update.
  The argument is the struct before the call; all its scalar fields are reset.
\<close>

definition etdb_trie_init :: "trie \<Rightarrow> trie" where
  "etdb_trie_init raw =
     (let t0 = raw\<lparr>head_full := 0, head_close := 0, head_open := 0, capacity := 0, tsize := 0,
                 treject := (\<lambda>_. 0)\<rparr>;
          t1 = etdb_trie_node_realloc t0 256 256;
          t2 = etdb_trie_ninfo_realloc t1 256 0;
          t3 = etdb_trie_block_realloc t2 1 0;
          t4 = t3\<lparr>capacity := 256, tsize := 256\<rparr>;
          t5 = t4\<lparr>node := (\<lambda>i.
                 if i = 0 then \<lparr>nbase = 0, ncheck = -1\<rparr>
                 else if i = 1 then \<lparr>nbase = -255, ncheck = - (i + 1)\<rparr>
                 else if i = 255 then \<lparr>nbase = - (i - 1), ncheck = -1\<rparr>
                 else if 1 < i \<and> i < 256 then \<lparr>nbase = - (i - 1), ncheck = - (i + 1)\<rparr>
                 else node t4 i)\<rparr>;
          t6 = put_behead t5 0 1
      in t6\<lparr>treject := (\<lambda>i. if 0 \<le> i \<and> i \<le> 256 then i + 1 else treject t6 i)\<rparr>)"

text \<open>
  \<open>etdb_trie_destory\<close> frees the three arrays and clears the pointers; a pointer that is not
  \<open>NULL\<close> is the address of its array.
\<close>

record trie_ptrs =
  node_ptr :: "int option"
  ninfo_ptr :: "int option"
  block_ptr :: "int option"

definition etdb_trie_destory :: "trie_ptrs \<Rightarrow> trie_ptrs \<times> int list" where
  "etdb_trie_destory p =
     (let (p1, f1) = (case node_ptr p of Some a \<Rightarrow> (p\<lparr>node_ptr := None\<rparr>, [a]) | None \<Rightarrow> (p, []));
          (p2, f2) = (case ninfo_ptr p1 of Some a \<Rightarrow> (p1\<lparr>ninfo_ptr := None\<rparr>, f1 @ [a]) | None \<Rightarrow> (p1, f1))
      in case block_ptr p2 of Some a \<Rightarrow> (p2\<lparr>block_ptr := None\<rparr>, f2 @ [a]) | None \<Rightarrow> (p2, f2))"

section \<open>The lists of blocks\<close>

definition etdb_trie_pop_block :: "trie \<Rightarrow> int \<Rightarrow> blist \<Rightarrow> bool \<Rightarrow> trie" where
  "etdb_trie_pop_block t bi head_in is_last =
     (if is_last then set_head head_in 0 t
      else let t1 = put_bnext t (bprev_at t bi) (bnext_at t bi);
               t2 = put_bprev t1 (bnext_at t1 bi) (bprev_at t1 bi)
           in if bi = head_of head_in t2 then set_head head_in (bnext_at t2 bi) t2 else t2)"

definition etdb_trie_push_block :: "trie \<Rightarrow> int \<Rightarrow> blist \<Rightarrow> bool \<Rightarrow> trie" where
  "etdb_trie_push_block t bi head_out is_empty =
     (if is_empty then set_head head_out bi (put_bprev (put_bnext t bi bi) bi bi)
      else let h = head_of head_out t;
               t1 = put_bprev t bi (bprev_at t h);
               t2 = put_bnext t1 bi h;
               t3 = put_bnext t2 (bprev_at t2 h) bi;
               t4 = put_bprev t3 h bi
           in set_head head_out bi t4)"

definition link_block :: "trie \<Rightarrow> int \<Rightarrow> trie" where
  "link_block t s = t\<lparr>node := (\<lambda>i.
     if i = s then \<lparr>nbase = - (s + 255), ncheck = - (s + 1)\<rparr>
     else if s < i \<and> i < s + 255 then \<lparr>nbase = - (i - 1), ncheck = - (i + 1)\<rparr>
     else if i = s + 255 then \<lparr>nbase = - (s + 254), ncheck = - s\<rparr>
     else node t i)\<rparr>"

definition etdb_trie_add_block :: "trie \<Rightarrow> trie \<times> int" where
  "etdb_trie_add_block t =
     (let t1 = (if tsize t = capacity t
                then let old_cap = capacity t;
                         ta = t\<lparr>capacity := 2 * capacity t\<rparr>;
                         tb = etdb_trie_node_realloc ta (capacity ta) old_cap;
                         tc = etdb_trie_ninfo_realloc tb (capacity tb) old_cap
                     in etdb_trie_block_realloc tc (capacity tc div 256) (old_cap div 256)
                else t);
          t2 = put_behead t1 (tsize t1 div 256) (tsize t1);
          t3 = link_block t2 (tsize t2);
          t4 = etdb_trie_push_block t3 (tsize t3 div 256) Open (head_open t3 = 0);
          t5 = t4\<lparr>tsize := tsize t4 + 256\<rparr>
      in (t5, tsize t5 div 256 - 1))"

definition etdb_trie_transfer_block :: "trie \<Rightarrow> int \<Rightarrow> blist \<Rightarrow> blist \<Rightarrow> trie" where
  "etdb_trie_transfer_block t bi head_in head_out =
     (let t1 = etdb_trie_pop_block t bi head_in (bi = bnext_at t bi)
      in etdb_trie_push_block t1 bi head_out (head_of head_out t1 = 0 \<and> bnum_at t1 bi \<noteq> 0))"

section \<open>Finding free slots\<close>

definition etdb_trie_find_place :: "trie \<Rightarrow> trie \<times> int" where
  "etdb_trie_find_place t =
     (if head_close t \<noteq> 0 then (t, behead_at t (head_close t))
      else if head_open t \<noteq> 0 then (t, behead_at t (head_open t))
      else let (t1, b) = etdb_trie_add_block t in (t1, b * 256))"

text \<open>
  \<open>for(; check[base ^ *++p] < 0; ) if(p == last) return ...\<close>: the labels after the first are
  tried in order. The list is never exhausted before \<open>p == last\<close>.
\<close>

fun probe :: "trie \<Rightarrow> int \<Rightarrow> bytes \<Rightarrow> bool" where
  "probe t b [] = False"
| "probe t b [c] = (check_at t (b XOR uint c) < 0)"
| "probe t b (c # cs) = (check_at t (b XOR uint c) < 0 \<and> probe t b cs)"

text \<open>
  The inner \<open>for(;;)\<close> over the free slots \<open>e\<close> of one block, from its \<open>ehead\<close> on: \<open>Some e\<close> when
  the labels fit at \<open>e\<close>, \<open>None\<close> when the walk is back at \<open>ehead\<close>.
\<close>

partial_function (option) scan_block ::
    "trie \<Rightarrow> int \<Rightarrow> byte \<Rightarrow> bytes \<Rightarrow> int \<Rightarrow> int option option" where
  "scan_block t eh first rest e =
     (if probe t (e XOR uint first) rest then Some (Some e)
      else let e' = - check_at t e
           in if e' = eh then Some None else scan_block t eh first rest e')"

text \<open>The \<open>while(1)\<close> over the open blocks.\<close>

partial_function (option) find_interval_loop ::
    "trie \<Rightarrow> int \<Rightarrow> int \<Rightarrow> bytes \<Rightarrow> (trie \<times> int) option" where
  "find_interval_loop t bi bz cs =
     (let nc = int (length cs) in
      Option.bind
        (if bnum_at t bi \<ge> nc \<and> nc \<le> breject_at t bi
         then scan_block t (behead_at t bi) (hd cs) (tl cs) (behead_at t bi) else Some None)
        (\<lambda>r. case r of
           Some e \<Rightarrow> Some (put_behead t bi e, e)
         | None \<Rightarrow>
             let t1 = put_breject t bi nc;
                 t2 = (if breject_at t1 bi < treject t1 (bnum_at t1 bi)
                       then t1\<lparr>treject := (treject t1)(bnum_at t1 bi := breject_at t1 bi)\<rparr>
                       else t1);
                 nxt = bnext_at t2 bi;
                 t3 = put_btrial t2 bi (btrial_at t2 bi + 1);
                 t4 = (if btrial_at t3 bi = ETDB_TRIE_MAX_TRIAL
                       then etdb_trie_transfer_block t3 bi Open Close else t3)
             in if bi = bz then (let (t5, b) = etdb_trie_add_block t4 in Some (t5, b * 256))
                else find_interval_loop t4 nxt bz cs))"

definition etdb_trie_find_place_interval :: "trie \<Rightarrow> bytes \<Rightarrow> (trie \<times> int) option" where
  "etdb_trie_find_place_interval t cs =
     (let bi = head_open t in
      if bi \<noteq> 0 then find_interval_loop t bi (bprev_at t (head_open t)) cs
      else let (t1, b) = etdb_trie_add_block t in Some (t1, b * 256))"

section \<open>Taking and returning slots\<close>

definition etdb_trie_pop_empty_node :: "trie \<Rightarrow> int \<Rightarrow> byte \<Rightarrow> int \<Rightarrow> trie \<times> int" where
  "etdb_trie_pop_empty_node t base label from =
     (let (t0, e) = (if base < 0 then etdb_trie_find_place t else (t, base XOR uint label));
          bi = e div 256;
          t1 = put_bnum t0 bi (bnum_at t0 bi - 1);
          t2 = (if bnum_at t1 bi = 0 \<and> bi \<noteq> 0
                then etdb_trie_transfer_block t1 bi Close Full
                else let ta = put_check t1 (- base_at t1 e) (check_at t1 e);
                         tb = put_base ta (- check_at ta e) (base_at ta e);
                         tc = (if e = behead_at tb bi
                               then put_behead tb bi (- check_at tb e) else tb)
                     in if bi \<noteq> 0 \<and> bnum_at tc bi = 1 \<and> btrial_at tc bi \<noteq> ETDB_TRIE_MAX_TRIAL
                        then etdb_trie_transfer_block tc bi Open Close else tc);
          t3 = put_base t2 e (if label \<noteq> 0 then -1 else 0);
          t4 = put_check t3 e from;
          t5 = (if base < 0 then put_base t4 from (e XOR uint label) else t4)
      in (t5, e))"

definition etdb_trie_push_empty_node :: "trie \<Rightarrow> int \<Rightarrow> trie" where
  "etdb_trie_push_empty_node t e =
     (let bi = e div 256;
          t1 = put_bnum t bi (bnum_at t bi + 1);
          t2 = (if bnum_at t1 bi = 1
                then let ta = put_behead t1 bi e;
                         tb = put_base ta e (- e);
                         tc = put_check tb e (- e)
                     in if bi \<noteq> 0 then etdb_trie_transfer_block tc bi Full Close else tc
                else let prv = behead_at t1 bi;
                         nxt = - check_at t1 prv;
                         ta = put_base t1 e (- prv);
                         tb = put_check ta e (- nxt);
                         tc = put_check (put_base tb nxt (- e)) prv (- e);
                         td = (if bnum_at tc bi = 2 \<or> btrial_at tc bi = ETDB_TRIE_MAX_TRIAL
                               then if bi \<noteq> 0 then etdb_trie_transfer_block tc bi Close Open else tc
                               else tc)
                     in put_btrial td bi 0);
          t3 = (if breject_at t2 bi < treject t2 (bnum_at t2 bi)
                then put_breject t2 bi (treject t2 (bnum_at t2 bi)) else t2)
      in put_child (put_sibling t3 e 0) e 0)"

section \<open>Sibling chains\<close>

definition etdb_trie_push_sibling :: "trie \<Rightarrow> int \<Rightarrow> int \<Rightarrow> byte \<Rightarrow> bool \<Rightarrow> trie" where
  "etdb_trie_push_sibling t from base label flag =
     (let c = PChild from;
          c' = (if flag \<and> deref t c = 0 then PSibling (base XOR uint (deref t c)) else c);
          t1 = put_sibling t (base XOR uint label) (deref t c')
      in assign t1 c' label)"

partial_function (option) sibling_ptr :: "trie \<Rightarrow> int \<Rightarrow> byte \<Rightarrow> cptr \<Rightarrow> cptr option" where
  "sibling_ptr t base label c =
     (if deref t c \<noteq> label then sibling_ptr t base label (PSibling (base XOR uint (deref t c)))
      else Some c)"

definition etdb_trie_pop_sibling :: "trie \<Rightarrow> int \<Rightarrow> int \<Rightarrow> byte \<Rightarrow> trie option" where
  "etdb_trie_pop_sibling t from base label =
     map_option (\<lambda>c. assign t c (sibling_at t (base XOR uint label)))
       (sibling_ptr t base label (PChild from))"

partial_function (option) etdb_trie_consult ::
    "trie \<Rightarrow> int \<Rightarrow> int \<Rightarrow> byte \<Rightarrow> byte \<Rightarrow> byte option" where
  "etdb_trie_consult t base_n base_p c_n c_p =
     (let c_n' = sibling_at t (base_n XOR uint c_n);
          c_p' = sibling_at t (base_p XOR uint c_p)
      in if c_n' \<noteq> 0 \<and> c_p' \<noteq> 0 then etdb_trie_consult t base_n base_p c_n' c_p'
         else Some c_p')"

partial_function (option) sibling_list :: "trie \<Rightarrow> int \<Rightarrow> byte \<Rightarrow> bytes option" where
  "sibling_list t base c =
     (if c = 0 then Some []
      else Option.bind (sibling_list t base (sibling_at t (base XOR uint c)))
             (\<lambda>cs. Some (c # cs)))"

definition etdb_trie_set_child :: "trie \<Rightarrow> int \<Rightarrow> byte \<Rightarrow> byte option \<Rightarrow> bytes option" where
  "etdb_trie_set_child t base c label =
     (let p0 = (if c = 0 then [c] else []);
          c' = (if c = 0 then sibling_at t (base XOR uint c) else c);
          p1 = (case label of None \<Rightarrow> [] | Some l \<Rightarrow> [l])
      in map_option (\<lambda>cs. p0 @ p1 @ cs) (sibling_list t base c'))"

section \<open>Resolving a conflict\<close>

text \<open>\<open>do{ check[nb ^ c] = to; }while((c = sibling[nb ^ c]))\<close>\<close>

partial_function (option) adopt :: "trie \<Rightarrow> int \<Rightarrow> byte \<Rightarrow> int \<Rightarrow> trie option" where
  "adopt t nb c to =
     (let t1 = put_check t (nb XOR uint c) to;
          c' = sibling_at t1 (nb XOR uint c)
      in if c' \<noteq> 0 then adopt t1 nb c' to else Some t1)"

text \<open>The body of the \<open>for\<close> over \<open>child[]\<close>; \<open>ps\<close> are the labels after \<open>p\<close>.\<close>

definition relocate_one ::
    "bool \<Rightarrow> int \<Rightarrow> int \<Rightarrow> int \<Rightarrow> int \<Rightarrow> byte \<Rightarrow> byte \<Rightarrow> bytes \<Rightarrow> trie \<Rightarrow> int \<Rightarrow> (trie \<times> int) option" where
  "relocate_one flag base base_o from to_pn label_n p ps t from_n =
     (let (t1, to) = etdb_trie_pop_empty_node t base p from;
          to_o = base_o XOR uint p;
          t2 = put_sibling t1 to (case ps of [] \<Rightarrow> 0 | q # _ \<Rightarrow> q)
      in if flag \<and> to_o = to_pn then Some (t2, from_n)
         else let t3 = put_base t2 to (base_at t2 to_o)
              in Option.bind
                   (if base_at t3 to > 0 \<and> p \<noteq> 0
                    then let c = child_at t3 to_o;
                             t4 = put_child t3 to c
                         in adopt t4 (base_at t4 to) c to
                    else Some t3)
                   (\<lambda>t5.
                     let from_n' = (if \<not> flag \<and> to_o = from_n then to else from_n)
                     in if \<not> flag \<and> to_o = to_pn
                        then let ta = etdb_trie_push_sibling t5 from_n' (to_pn XOR uint label_n) label_n True;
                                 tb = put_child ta to_o 0;
                                 tc = put_base tb to_o (if label_n \<noteq> 0 then -1 else 0)
                             in Some (put_check tc to_o from_n', from_n')
                        else Some (etdb_trie_push_empty_node t5 to_o, from_n')))"

fun relocate ::
    "bool \<Rightarrow> int \<Rightarrow> int \<Rightarrow> int \<Rightarrow> int \<Rightarrow> byte \<Rightarrow> bytes \<Rightarrow> trie \<Rightarrow> int \<Rightarrow> (trie \<times> int) option" where
  "relocate flag base base_o from to_pn label_n [] t from_n = Some (t, from_n)"
| "relocate flag base base_o from to_pn label_n (p # ps) t from_n =
     Option.bind (relocate_one flag base base_o from to_pn label_n p ps t from_n)
       (\<lambda>(t', from_n'). relocate flag base base_o from to_pn label_n ps t' from_n')"

definition etdb_trie_resolve :: "trie \<Rightarrow> int \<Rightarrow> int \<Rightarrow> byte \<Rightarrow> (trie \<times> int \<times> int) option" where
  "etdb_trie_resolve t from_n base_n label_n =
     (let to_pn = base_n XOR uint label_n;
          from_p = check_at t to_pn;
          base_p = base_at t from_p
      in do {
        c \<leftarrow> etdb_trie_consult t base_n base_p (child_at t from_n) (child_at t from_p);
        let flag = (c \<noteq> 0);
        cs \<leftarrow> (if flag then etdb_trie_set_child t base_n (child_at t from_n) (Some label_n)
               else etdb_trie_set_child t base_p (child_at t from_p) None);
        (t1, e) \<leftarrow> (if length cs = 1 then Some (etdb_trie_find_place t)
                    else etdb_trie_find_place_interval t cs);
        let base = e XOR uint (hd cs);
        let from = (if flag then from_n else from_p);
        let base_o = (if flag then base_n else base_p);
        let t2 = (if flag \<and> hd cs = label_n then put_child t1 from label_n else t1);
        let t3 = put_base t2 from base;
        (t4, from_n') \<leftarrow> relocate flag base base_o from to_pn label_n cs t3 from_n;
        Some (t4, from_n', if flag then base XOR uint label_n else to_pn)
      })"

section \<open>Insertion\<close>

definition etdb_trie_follow :: "trie \<Rightarrow> int \<Rightarrow> byte \<Rightarrow> (trie \<times> int \<times> int) option" where
  "etdb_trie_follow t from label =
     (let base = base_at t from
      in if base < 0 \<or> check_at t (base XOR uint label) < 0
         then let (t1, to) = etdb_trie_pop_empty_node t base label from;
                  t2 = etdb_trie_push_sibling t1 from (to XOR uint label) label (base \<ge> 0)
              in Some (t2, from, to)
         else if check_at t (base XOR uint label) \<noteq> from
         then etdb_trie_resolve t from base label
         else Some (t, from, base XOR uint label))"

text \<open>\<open>*from = etdb_trie_follow(trie, from, label)\<close>\<close>

definition follow_to :: "trie \<Rightarrow> int \<Rightarrow> byte \<Rightarrow> (trie \<times> int) option" where
  "follow_to t from label = map_option (\<lambda>(t', from', to). (t', to)) (etdb_trie_follow t from label)"

definition update_entry_sp :: "trie \<Rightarrow> int \<Rightarrow> byte \<Rightarrow> (trie \<times> int) option" where
  "update_entry_sp t from word = follow_to t from word"

definition etdb_trie_update_entry :: "trie \<Rightarrow> int \<Rightarrow> byte \<Rightarrow> (trie \<times> int) option" where
  "etdb_trie_update_entry t from word =
     (if word = 0 then do { (t1, f1) \<leftarrow> follow_to t from 37; update_entry_sp t1 f1 48 }
      else if word = 37 then do { (t1, f1) \<leftarrow> follow_to t from 37; update_entry_sp t1 f1 37 }
      else follow_to t from word)"

fun update_entries :: "trie \<Rightarrow> int \<Rightarrow> bytes \<Rightarrow> (trie \<times> int) option" where
  "update_entries t from [] = Some (t, from)"
| "update_entries t from (w # ws) =
     Option.bind (etdb_trie_update_entry t from w) (\<lambda>(t', from'). update_entries t' from' ws)"

definition etdb_trie_update :: "trie \<Rightarrow> bytes \<Rightarrow> int \<Rightarrow> (trie \<times> int) option" where
  "etdb_trie_update t key val =
     (if key = [] then Some (t, -1)
      else do {
        (t1, from) \<leftarrow> update_entries t 0 key;
        (t2, _, to) \<leftarrow> etdb_trie_follow t1 from 0;
        Some (put_base t2 to val, base_at t2 to)
      })"

section \<open>Search\<close>

text \<open>One transition of \<open>etdb_trie_find\<close> on an encoded label, \<^term>\<open>None\<close> for no path.\<close>

definition find_step :: "trie \<Rightarrow> int \<Rightarrow> byte \<Rightarrow> int option" where
  "find_step t from word =
     (let to = base_at t from XOR uint word
      in if check_at t to \<noteq> from then None else Some to)"

text \<open>The word and, for an escaped byte, the second word of \<open>again_word\<close>.\<close>

definition encode_byte :: "byte \<Rightarrow> bytes" where
  "encode_byte w = (if w = 0 then [37, 48] else if w = 37 then [37, 37] else [w])"

definition encode_key :: "bytes \<Rightarrow> bytes" where
  "encode_key key = concat (map encode_byte key)"

text \<open>
  \<open>etdb_trie_find\<close> returns the value and leaves \<open>*from\<close> at the last node reached.
\<close>

fun find_word :: "trie \<Rightarrow> int \<Rightarrow> bytes \<Rightarrow> bool \<times> int" where
  "find_word t from [] = (True, from)"
| "find_word t from (w # ws) =
     (case find_step t from w of None \<Rightarrow> (False, from) | Some to \<Rightarrow> find_word t to ws)"

fun etdb_trie_find :: "trie \<Rightarrow> bytes \<Rightarrow> int \<Rightarrow> int \<times> int" where
  "etdb_trie_find t [] from =
     (let n = base_at t from XOR 0
      in if check_at t n \<noteq> from then (ETDB_TRIE_NO_VALUE, from) else (base_at t n, from))"
| "etdb_trie_find t (w # ws) from =
     (case find_word t from (encode_byte w) of
        (False, f) \<Rightarrow> (ETDB_TRIE_NO_PATH, f)
      | (True, f) \<Rightarrow> etdb_trie_find t ws f)"

definition etdb_trie_exact_match_search :: "trie \<Rightarrow> bytes \<Rightarrow> int" where
  "etdb_trie_exact_match_search t key =
     (let b = fst (etdb_trie_find t key 0)
      in if b = ETDB_TRIE_NO_PATH then ETDB_TRIE_NO_VALUE else b)"

text \<open>
  \<open>etdb_trie_match_longest_search\<close>: the value and the match length of the longest stored prefix
  so far are carried along; \<^term>\<open>Inl\<close> is the early return. The \<open>match_len\<close> of the caller is
  \<^term>\<open>None\<close> until it is written.
\<close>

fun longest_word ::
    "trie \<Rightarrow> int \<Rightarrow> bytes \<Rightarrow> nat \<Rightarrow> int \<times> nat option \<Rightarrow> (int \<times> nat option) + (int \<times> int \<times> nat option)" where
  "longest_word t from [] pos r = Inr (from, r)"
| "longest_word t from (w # ws) pos r =
     (let to = base_at t from XOR uint w
      in if check_at t to \<noteq> from then Inl r
         else let n = base_at t to XOR 0;
                  r' = (if check_at t n = to then (base_at t n, Some (pos + 1)) else r)
              in longest_word t to ws pos r')"

fun longest_loop :: "trie \<Rightarrow> int \<Rightarrow> bytes \<Rightarrow> nat \<Rightarrow> int \<times> nat option \<Rightarrow> int \<times> nat option" where
  "longest_loop t from [] pos r = r"
| "longest_loop t from (w # ws) pos r =
     (case longest_word t from (encode_byte w) pos r of
        Inl r' \<Rightarrow> r'
      | Inr (from', r') \<Rightarrow> longest_loop t from' ws (pos + 1) r')"

definition etdb_trie_match_longest_search :: "trie \<Rightarrow> bytes \<Rightarrow> int \<times> nat option" where
  "etdb_trie_match_longest_search t key = longest_loop t 0 key 0 (ETDB_TRIE_NO_PATH, None)"

text \<open>
  The depth-first searches. One function is the loop over the children; the recursive call for a
  child enters it with the first child of the node reached.
\<close>

definition first_child :: "trie \<Rightarrow> int \<Rightarrow> byte" where
  "first_child t from =
     (let base = base_at t from; child = child_at t from
      in if child = 0 then sibling_at t (base XOR uint child) else child)"

partial_function (option) prefix_dfs ::
    "trie \<Rightarrow> int \<Rightarrow> int \<Rightarrow> byte \<Rightarrow> int list \<Rightarrow> int list option" where
  "prefix_dfs t from base child stack_out =
     (if child = 0 then Some stack_out
      else Option.bind
        (case etdb_trie_find t [child] from of (b, l_from) \<Rightarrow>
           if b \<noteq> ETDB_TRIE_NO_PATH then
             prefix_dfs t l_from (base_at t l_from) (first_child t l_from)
               (if b \<noteq> ETDB_TRIE_NO_VALUE then stack_out @ [b] else stack_out)
           else Some stack_out)
        (\<lambda>out. prefix_dfs t from base (sibling_at t (base XOR uint child)) out))"

definition etdb_trie_common_prefix_search_dfs :: "trie \<Rightarrow> int \<Rightarrow> int list \<Rightarrow> int list option" where
  "etdb_trie_common_prefix_search_dfs t from stack_out =
     prefix_dfs t from (base_at t from) (first_child t from) stack_out"

definition etdb_trie_common_prefix_search :: "trie \<Rightarrow> bytes \<Rightarrow> int list \<Rightarrow> int list option" where
  "etdb_trie_common_prefix_search t key stack_result =
     (let (b, from) = etdb_trie_find t key 0
      in if b = ETDB_TRIE_NO_PATH then Some stack_result
         else etdb_trie_common_prefix_search_dfs t from
                (if b \<noteq> ETDB_TRIE_NO_VALUE then stack_result @ [b] else stack_result))"

text \<open>The entries of \<open>result\<close> are the bytes on the stack and the value copied behind them.\<close>

partial_function (option) path_dfs ::
    "trie \<Rightarrow> int \<Rightarrow> int \<Rightarrow> byte \<Rightarrow> bytes \<Rightarrow> (bytes \<times> int) list \<Rightarrow> (bytes \<times> int) list option" where
  "path_dfs t from base child stack_in result =
     (if child = 0 then Some result
      else Option.bind
        (case etdb_trie_find t [child] from of (b, l_from) \<Rightarrow>
           if b \<noteq> ETDB_TRIE_NO_PATH then
             path_dfs t l_from (base_at t l_from) (first_child t l_from) (stack_in @ [child])
               (if b \<noteq> ETDB_TRIE_NO_VALUE then result @ [(stack_in @ [child], b)] else result)
           else Some result)
        (\<lambda>res. path_dfs t from base (sibling_at t (base XOR uint child)) stack_in res))"

definition etdb_trie_common_prefix_path_search_dfs ::
    "trie \<Rightarrow> int \<Rightarrow> bytes \<Rightarrow> (bytes \<times> int) list \<Rightarrow> (bytes \<times> int) list option" where
  "etdb_trie_common_prefix_path_search_dfs t from stack_in result =
     path_dfs t from (base_at t from) (first_child t from) stack_in result"

text \<open>The code returned is meaningless in the case of no path (a \<open>return\<close> without a value).\<close>

definition etdb_trie_common_prefix_path_search ::
    "trie \<Rightarrow> bytes \<Rightarrow> bytes \<Rightarrow> (bytes \<times> int) list \<Rightarrow> (int option \<times> (bytes \<times> int) list) option" where
  "etdb_trie_common_prefix_path_search t key stack_in result =
     (let (b, from) = etdb_trie_find t key 0
      in if b = ETDB_TRIE_NO_PATH then Some (None, result)
         else map_option (\<lambda>res. (Some (if b \<noteq> ETDB_TRIE_NO_VALUE then 1 else 0), res))
                (etdb_trie_common_prefix_path_search_dfs t from stack_in result))"

section \<open>Deletion\<close>

partial_function (option) etdb_trie_erase_loop :: "trie \<Rightarrow> int \<Rightarrow> int \<Rightarrow> trie option" where
  "etdb_trie_erase_loop t from e =
     (let nb = base_at t from;
          flag = sibling_at t (nb XOR uint (child_at t from))
      in Option.bind
           (if flag \<noteq> 0 then etdb_trie_pop_sibling t from nb (word_of_int (nb XOR e)) else Some t)
           (\<lambda>t1.
             let t2 = etdb_trie_push_empty_node t1 e
             in if flag \<noteq> 0 then Some t2 else etdb_trie_erase_loop t2 (check_at t2 from) from))"

definition etdb_trie_erase_impl :: "trie \<Rightarrow> int \<Rightarrow> trie option" where
  "etdb_trie_erase_impl t from = etdb_trie_erase_loop t from (base_at t from XOR 0)"

definition etdb_trie_erase :: "trie \<Rightarrow> bytes \<Rightarrow> (trie \<times> int) option" where
  "etdb_trie_erase t key =
     (let (b, from) = etdb_trie_find t key 0
      in if b = ETDB_TRIE_NO_PATH \<or> b = ETDB_TRIE_NO_VALUE then Some (t, -1)
         else map_option (\<lambda>t'. (t', b)) (etdb_trie_erase_impl t from))"

section \<open>Sizes\<close>

definition etdb_trie_total_size :: "trie \<Rightarrow> int" where
  "etdb_trie_total_size t = tsize t"

definition etdb_trie_nonzero_size :: "trie \<Rightarrow> int" where
  "etdb_trie_nonzero_size t = int (length (filter (\<lambda>to. check_at t (int to) \<ge> 0) [0..<nat (tsize t)]))"

definition etdb_trie_num_keys :: "trie \<Rightarrow> int" where
  "etdb_trie_num_keys t = int (length (filter (\<lambda>to. check_at t (int to) \<ge> 0 \<and>
     base_at t (check_at t (int to)) = int to) [0..<nat (tsize t)]))"

text \<open>The recursive equations of the loops are what concrete runs compute with.\<close>

declare
  scan_block.simps [code] find_interval_loop.simps [code] sibling_ptr.simps [code]
  etdb_trie_consult.simps [code] sibling_list.simps [code] adopt.simps [code]
  etdb_trie_erase_loop.simps [code] prefix_dfs.simps [code] path_dfs.simps [code]

end
