(* ===== verification/Config.thy ===== *)
theory Config
  imports Strings Trie_Model
begin

text \<open>
  The commands of the server, \<open>src/etdb_config.h\<close> and \<open>src/etdb_config.c\<close>: the flags that
  bound the number of arguments, the tables of the modules and the trie from the name of a command
  to its place, module number and index, in the tables.

  A pointer to a handler is a constructor of \<open>handler\<close>; the theories \<open>Handlers\<close> and \<open>Sys\<close> give the function
  behind each. \<open>init_handler\<close> is the result of the call, if there is a handler.
\<close>

section \<open>Tables\<close>

definition str :: "string \<Rightarrow> bytes" where
  "str s = map of_char s"

datatype handler =
    H_kv_set | H_kv_get | H_kv_del | H_kv_matchlongest
  | H_hash_set | H_hash_get | H_hash_del
  | H_list_lpush | H_list_rpush | H_list_lpop | H_list_rpop | H_list_ltop | H_list_rtop
  | H_set_add | H_set_del | H_set_members | H_set_ismember
  | H_sp_set | H_sp_get | H_sp_del | H_sp_rect | H_sp_knn | H_geo_hash_info
  | H_sys_info | H_sys_perf | H_sys_use | H_sys_where | H_sys_help | H_sys_bgsave
  | H_sys_ping | H_sys_sync

definition ETDB_CMD_FLAG_READ :: "32 word" where "ETDB_CMD_FLAG_READ = push_bit 0 1"
definition ETDB_CMD_FLAG_WRITE :: "32 word" where "ETDB_CMD_FLAG_WRITE = push_bit 1 1"
definition ETDB_CMD_FLAG_BACKEND :: "32 word" where "ETDB_CMD_FLAG_BACKEND = push_bit 2 1"
definition ETDB_CMD_FLAG_THREAD :: "32 word" where "ETDB_CMD_FLAG_THREAD = push_bit 3 1"
definition ETDB_CMD_FLAG_NOARG :: "32 word" where "ETDB_CMD_FLAG_NOARG = push_bit 4 1"
definition ETDB_CMD_FLAG_ARG1 :: "32 word" where "ETDB_CMD_FLAG_ARG1 = push_bit 5 1"
definition ETDB_CMD_FLAG_ARG2 :: "32 word" where "ETDB_CMD_FLAG_ARG2 = push_bit 6 1"
definition ETDB_CMD_FLAG_ARG3 :: "32 word" where "ETDB_CMD_FLAG_ARG3 = push_bit 7 1"
definition ETDB_CMD_FLAG_ARG4 :: "32 word" where "ETDB_CMD_FLAG_ARG4 = push_bit 8 1"
definition ETDB_CMD_FLAG_ARG1MORE :: "32 word" where "ETDB_CMD_FLAG_ARG1MORE = push_bit 9 1"
definition ETDB_CMD_FLAG_ARG2MORE :: "32 word" where "ETDB_CMD_FLAG_ARG2MORE = push_bit 10 1"
definition ETDB_CMD_FLAG_ARG3MORE :: "32 word" where "ETDB_CMD_FLAG_ARG3MORE = push_bit 11 1"
definition ETDB_CMD_FLAG_ARG4MORE :: "32 word" where "ETDB_CMD_FLAG_ARG4MORE = push_bit 12 1"
definition ETDB_CMD_FLAG_ARG5MORE :: "32 word" where "ETDB_CMD_FLAG_ARG5MORE = push_bit 13 1"

lemmas flag_defs =
  ETDB_CMD_FLAG_READ_def ETDB_CMD_FLAG_WRITE_def ETDB_CMD_FLAG_BACKEND_def ETDB_CMD_FLAG_THREAD_def
  ETDB_CMD_FLAG_NOARG_def ETDB_CMD_FLAG_ARG1_def ETDB_CMD_FLAG_ARG2_def ETDB_CMD_FLAG_ARG3_def
  ETDB_CMD_FLAG_ARG4_def ETDB_CMD_FLAG_ARG1MORE_def ETDB_CMD_FLAG_ARG2MORE_def
  ETDB_CMD_FLAG_ARG3MORE_def ETDB_CMD_FLAG_ARG4MORE_def ETDB_CMD_FLAG_ARG5MORE_def

record etdb_command =
  cmd_name :: bytes
  flags :: "32 word"
  handler :: handler
  calls :: int
  time_wait :: int
  time_proc :: int
  time_proc_max :: int

record etdb_module =
  mod_name :: bytes
  commands :: "etdb_command list option"
  init_handler :: "int option"
  module_id :: int

text \<open>A row of a table, \<open>etdb_command_padding\<close> included, and a table with its padding.\<close>

definition command :: "string \<Rightarrow> 32 word \<Rightarrow> handler \<Rightarrow> etdb_command" where
  "command name fl h =
     \<lparr>cmd_name = str name, flags = fl, handler = h, calls = 0, time_wait = 0, time_proc = 0,
      time_proc_max = 0\<rparr>"

definition module :: "string \<Rightarrow> etdb_command list \<Rightarrow> etdb_module" where
  "module name cs =
     \<lparr>mod_name = str name, commands = Some cs, init_handler = None, module_id = 0\<rparr>"

section \<open>Operations\<close>

text \<open>The inner loop of \<open>etdb_module_init\<close>: \<open>value | idx\<close> for every command of a module.\<close>

fun insert_commands :: "int \<Rightarrow> int \<Rightarrow> etdb_command list \<Rightarrow> trie \<Rightarrow> (trie \<times> int) option" where
  "insert_commands val idx [] t = Some (t, 0)"
| "insert_commands val idx (c # cs) t =
     Option.bind (etdb_trie_update t (cmd_name c) (val OR idx))
       (\<lambda>(t', r). if r < 0 then Some (t', -1) else insert_commands val (idx + 1) cs t')"

text \<open>The outer loop: the modules, with their numbers set, the trie and the code returned.\<close>

fun init_modules :: "int \<Rightarrow> etdb_module list \<Rightarrow> trie \<Rightarrow> (etdb_module list \<times> trie \<times> int) option"
and init_module ::
    "int \<Rightarrow> etdb_module \<Rightarrow> etdb_module list \<Rightarrow> trie \<Rightarrow> (etdb_module list \<times> trie \<times> int) option"
where
  "init_modules pos [] t = Some ([], t, 0)"
| "init_modules pos (m # ms) t =
     (case init_handler m of
        Some r \<Rightarrow> if r < 0 then Some (m # ms, t, -1) else init_module pos m ms t
      | None \<Rightarrow> init_module pos m ms t)"
| "init_module pos m ms t =
     (case commands m of
        None \<Rightarrow> map_option (\<lambda>(ms', t', r). (m # ms', t', r)) (init_modules (pos + 1) ms t)
      | Some cs \<Rightarrow>
          let m' = m\<lparr>module_id := pos\<rparr> in
          Option.bind (insert_commands (push_bit 16 pos) 0 cs t)
            (\<lambda>(t', r). if r < 0 then Some (m' # ms, t', -1)
                else map_option (\<lambda>(ms', t', r). (m' # ms', t', r)) (init_modules (pos + 1) ms t')))"

definition etdb_module_init ::
    "etdb_module list \<Rightarrow> trie \<Rightarrow> (etdb_module list \<times> trie \<times> int) option" where
  "etdb_module_init ms command_trie = init_modules 0 ms (etdb_trie_init command_trie)"

text \<open>\<open>etdb_module_find_command\<close> yields the place of a command in the tables.\<close>

definition etdb_module_find_command :: "trie \<Rightarrow> bytes \<Rightarrow> (int \<times> int) option" where
  "etdb_module_find_command command_trie s =
     (let value_insert = etdb_trie_exact_match_search command_trie s
      in if value_insert = ETDB_TRIE_NO_VALUE then None
         else Some (drop_bit 16 value_insert, value_insert AND 65535))"

definition command_at :: "etdb_module list \<Rightarrow> int \<times> int \<Rightarrow> etdb_command" where
  "command_at ms p = the (commands (ms ! nat (fst p))) ! nat (snd p)"

definition put_command :: "etdb_module list \<Rightarrow> int \<times> int \<Rightarrow> etdb_command \<Rightarrow> etdb_module list" where
  "put_command ms p c =
     (let m = ms ! nat (fst p)
      in ms[nat (fst p) := m\<lparr>commands := map_option (\<lambda>cs. cs[nat (snd p) := c]) (commands m)\<rparr>])"

text \<open>A place survives its encoding as a value of the trie.\<close>

lemma place_roundtrip:
  assumes "0 \<le> pos" "0 \<le> idx" "idx < 65536"
  shows "drop_bit 16 (push_bit 16 pos OR idx) = pos"
    and "(push_bit 16 pos OR idx) AND 65535 = (idx :: int)"
proof -
  have small: "take_bit 16 idx = idx" "drop_bit 16 idx = 0"
    using assms(2,3) by (simp_all add: take_bit_int_eq_self drop_bit_eq_div)
  then show "drop_bit 16 (push_bit 16 pos OR idx) = pos"
    by (simp add: drop_bit_or drop_bit_push_bit)
  have "take_bit 16 (push_bit 16 pos OR idx) = idx"
    by (simp only: take_bit_or take_bit_push_bit small) simp
  then show "(push_bit 16 pos OR idx) AND 65535 = idx"
    by (simp add: take_bit_eq_mask mask_eq_exp_minus_1)
qed

end
