(* ===== verification/Queue.thy ===== *)
theory Queue
  imports Prelude
begin

text \<open>
  The intrusive circular list of \<open>src/store/etdb_queue.h\<close> and \<open>etdb_queue.c\<close>.

  The links of all queue cells are the two functions of a \<open>qmem\<close>; a cell is its address. The
  macros are the assignments in their order, so that aliasing between their arguments has the
  effect it has in the code. \<open>queue m h xs\<close> says that the cells reached from the head \<open>h\<close> are
  \<open>xs\<close>, in order; every operation is shown to be the operation on \<open>xs\<close>.
\<close>

type_synonym addr = int

record qmem =
  qprev :: "addr \<Rightarrow> addr"
  qnext :: "addr \<Rightarrow> addr"

definition set_prev :: "addr \<Rightarrow> addr \<Rightarrow> 'a qmem_scheme \<Rightarrow> 'a qmem_scheme" where
  "set_prev q x m = m\<lparr>qprev := (qprev m)(q := x)\<rparr>"

definition set_next :: "addr \<Rightarrow> addr \<Rightarrow> 'a qmem_scheme \<Rightarrow> 'a qmem_scheme" where
  "set_next q x m = m\<lparr>qnext := (qnext m)(q := x)\<rparr>"

lemma set_link_acc [simp]:
  "qprev (set_prev q x m) = (qprev m)(q := x)" "qnext (set_prev q x m) = qnext m"
  "qnext (set_next q x m) = (qnext m)(q := x)" "qprev (set_next q x m) = qprev m"
  "qmem.more (set_prev q x m) = qmem.more m" "qmem.more (set_next q x m) = qmem.more m"
  by (simp_all add: set_prev_def set_next_def)

section \<open>Operations\<close>

definition etdb_queue_init :: "addr \<Rightarrow> 'a qmem_scheme \<Rightarrow> 'a qmem_scheme" where
  "etdb_queue_init q m = set_next q q (set_prev q q m)"

definition etdb_queue_empty :: "'a qmem_scheme \<Rightarrow> addr \<Rightarrow> bool" where
  "etdb_queue_empty m h \<longleftrightarrow> h = qprev m h"

definition etdb_queue_insert_head :: "addr \<Rightarrow> addr \<Rightarrow> 'a qmem_scheme \<Rightarrow> 'a qmem_scheme" where
  "etdb_queue_insert_head h x m =
     (let m1 = set_next x (qnext m h) m;
          m2 = set_prev (qnext m1 x) x m1;
          m3 = set_prev x h m2
      in set_next h x m3)"

definition etdb_queue_insert_tail :: "addr \<Rightarrow> addr \<Rightarrow> 'a qmem_scheme \<Rightarrow> 'a qmem_scheme" where
  "etdb_queue_insert_tail h x m =
     (let m1 = set_prev x (qprev m h) m;
          m2 = set_next (qprev m1 x) x m1;
          m3 = set_next x h m2
      in set_prev h x m3)"

definition etdb_queue_head :: "'a qmem_scheme \<Rightarrow> addr \<Rightarrow> addr" where
  "etdb_queue_head m h = qnext m h"

definition etdb_queue_last :: "'a qmem_scheme \<Rightarrow> addr \<Rightarrow> addr" where
  "etdb_queue_last m h = qprev m h"

definition etdb_queue_remove :: "addr \<Rightarrow> 'a qmem_scheme \<Rightarrow> 'a qmem_scheme" where
  "etdb_queue_remove x m =
     (let m1 = set_prev (qnext m x) (qprev m x) m
      in set_next (qprev m1 x) (qnext m1 x) m1)"

definition etdb_queue_add :: "addr \<Rightarrow> addr \<Rightarrow> 'a qmem_scheme \<Rightarrow> 'a qmem_scheme" where
  "etdb_queue_add h n m =
     (let m1 = set_next (qprev m h) (qnext m n) m;
          m2 = set_prev (qnext m1 n) (qprev m1 h) m1;
          m3 = set_prev h (qprev m2 n) m2
      in set_next (qprev m3 h) h m3)"

text \<open>The loops run from \<open>n\<close> until they meet \<open>q\<close>; \<^term>\<open>None\<close> when they never do.\<close>

partial_function (option) count_loop :: "'a qmem_scheme \<Rightarrow> addr \<Rightarrow> addr \<Rightarrow> int \<Rightarrow> int option" where
  "count_loop m q n cnt = (if n \<noteq> q then count_loop m q (qnext m n) (cnt + 1) else Some cnt)"

definition etdb_queue_count :: "'a qmem_scheme \<Rightarrow> addr \<Rightarrow> int option" where
  "etdb_queue_count m q = count_loop m q (qnext m q) 0"

text \<open>The addresses passed to \<open>etdb_free\<close>, in order; the successor is read before a cell is freed.\<close>

partial_function (option) free_loop :: "'a qmem_scheme \<Rightarrow> addr \<Rightarrow> addr \<Rightarrow> addr list \<Rightarrow> addr list option"
where
  "free_loop m h n freed =
     (if n \<noteq> h then free_loop m h (qnext m n) (freed @ [n]) else Some freed)"

definition etdb_queue_free :: "'a qmem_scheme \<Rightarrow> addr \<Rightarrow> addr list option" where
  "etdb_queue_free m h = free_loop m h (qnext m h) [h]"

section \<open>Queues as lists\<close>

fun linked :: "'a qmem_scheme \<Rightarrow> addr list \<Rightarrow> bool" where
  "linked m (x # y # r) \<longleftrightarrow> qnext m x = y \<and> qprev m y = x \<and> linked m (y # r)"
| "linked m _ \<longleftrightarrow> True"

definition queue :: "'a qmem_scheme \<Rightarrow> addr \<Rightarrow> addr list \<Rightarrow> bool" where
  "queue m h xs \<longleftrightarrow> distinct (h # xs) \<and> linked m (h # xs @ [h])"

lemma linked_append:
  "linked m (xs @ y # ys) \<longleftrightarrow> linked m (xs @ [y]) \<and> linked m (y # ys)"
  by (induction m xs rule: linked.induct) (cases ys; simp)+

lemmas linked_split = linked_append [THEN iffD1, THEN conjunct1]
  linked_append [THEN iffD1, THEN conjunct2]
lemmas linked_join = linked_append [THEN iffD2, OF conjI]

lemma linked_cong:
  assumes "linked m xs"
    "\<And>x. x \<in> set (butlast xs) \<Longrightarrow> qnext m' x = qnext m x"
    "\<And>x. x \<in> set (tl xs) \<Longrightarrow> qprev m' x = qprev m x"
  shows "linked m' xs"
  using assms by (induction m xs rule: linked.induct) auto

lemma queue_frame:
  assumes "queue m h xs"
    "\<And>x. x \<in> set (h # xs) \<Longrightarrow> qnext m' x = qnext m x \<and> qprev m' x = qprev m x"
  shows "queue m' h xs"
  using assms unfolding queue_def
  by (auto intro!: linked_cong [of m "h # xs @ [h]"] simp: butlast_append)

lemma queue_nil: "queue m h [] \<longleftrightarrow> qnext m h = h \<and> qprev m h = h"
  by (auto simp: queue_def)

lemma queue_ends:
  assumes "queue m h xs"
  shows "qnext m h = hd (xs @ [h])" "qprev m h = last (h # xs)"
proof -
  have l: "linked m (h # xs @ [h])" using assms by (simp add: queue_def)
  from l show "qnext m h = hd (xs @ [h])" by (cases xs) auto
  from l show "qprev m h = last (h # xs)"
  proof (cases xs rule: rev_cases)
    case (snoc ys y)
    with l have "linked m ((h # ys) @ y # [h])" by simp
    then have "linked m (y # [h])" by (rule linked_split)
    then show ?thesis using snoc by simp
  qed simp
qed

lemma queue_cell:
  assumes "queue m h (xs @ x # ys)"
  shows "qnext m x = hd (ys @ [h])" "qprev m x = last (h # xs)"
proof -
  have "linked m ((h # xs) @ x # ys @ [h])" using assms by (simp add: queue_def)
  then have l: "linked m ((h # xs) @ [x])" "linked m (x # ys @ [h])"
    by (rule linked_split)+
  from l(2) show "qnext m x = hd (ys @ [h])" by (cases ys) auto
  show "qprev m x = last (h # xs)"
  proof (cases xs rule: rev_cases)
    case (snoc zs z)
    with l(1) have "linked m ((h # zs) @ z # [x])" by simp
    then have "linked m (z # [x])" by (rule linked_split)
    then show ?thesis using snoc by simp
  qed (use l(1) in simp)
qed

lemma queue_split_ends:
  obtains ps p n ns where "h # xs = ps @ [p]" "p = last (h # xs)" "ys @ [h] = n # ns"
    "n = hd (ys @ [h])"
  by (metis append_butlast_last_id list.distinct(1) list.exhaust_sel snoc_eq_iff_butlast)

section \<open>The operations on lists\<close>

lemma queue_init [simp]: "queue (etdb_queue_init q m) q []"
  by (simp add: etdb_queue_init_def queue_nil)

lemma queue_empty_iff: "queue m h xs \<Longrightarrow> etdb_queue_empty m h \<longleftrightarrow> xs = []"
  using queue_ends(2) [of m h xs]
  by (auto simp: etdb_queue_empty_def queue_def split: if_splits)

lemma insert_head_links:
  assumes "x \<noteq> h" "qnext m h \<noteq> x"
  shows "qnext (etdb_queue_insert_head h x m) = (qnext m)(x := qnext m h, h := x)"
    "qprev (etdb_queue_insert_head h x m) = (qprev m)(qnext m h := x, x := h)"
  using assms by (simp_all add: etdb_queue_insert_head_def Let_def fun_upd_twist)

lemma queue_insert_head:
  assumes "queue m h xs" "x \<notin> set (h # xs)"
  shows "queue (etdb_queue_insert_head h x m) h (x # xs)"
proof -
  have n: "qnext m h = hd (xs @ [h])" by (rule queue_ends [OF assms(1)])
  then have "qnext m h \<noteq> x" using assms(2) by (cases xs) auto
  note links = insert_head_links [OF _ this]
  have "linked (etdb_queue_insert_head h x m) (h # x # xs @ [h])"
  proof (cases xs)
    case Nil
    then show ?thesis using n assms(2) by (simp add: links)
  next
    case (Cons y ys)
    have "linked m (y # ys @ [h])" using assms(1) Cons by (simp add: queue_def)
    then have "linked (etdb_queue_insert_head h x m) (y # ys @ [h])"
      using assms Cons n by (elim linked_cong) (auto simp: links queue_def butlast_append)
    then show ?thesis using n assms Cons by (auto simp: links queue_def)
  qed
  then show ?thesis using assms by (simp add: queue_def)
qed

lemma insert_tail_links:
  assumes "x \<noteq> h" "qprev m h \<noteq> x"
  shows "qnext (etdb_queue_insert_tail h x m) = (qnext m)(qprev m h := x, x := h)"
    "qprev (etdb_queue_insert_tail h x m) = (qprev m)(x := qprev m h, h := x)"
  using assms by (simp_all add: etdb_queue_insert_tail_def Let_def fun_upd_twist)

lemma queue_insert_tail:
  assumes "queue m h xs" "x \<notin> set (h # xs)"
  shows "queue (etdb_queue_insert_tail h x m) h (xs @ [x])"
proof -
  let ?m = "etdb_queue_insert_tail h x m"
  have pv: "qprev m h = last (h # xs)" by (rule queue_ends [OF assms(1)])
  obtain ps p where ps: "h # xs = ps @ [p]" "p = last (h # xs)"
    by (metis append_butlast_last_id list.distinct(1))
  then have "p \<in> set (h # xs)" by simp
  then have "qprev m h \<noteq> x" using assms(2) pv ps by metis
  note links = insert_tail_links [OF _ this]
  have "linked m (ps @ p # [h])"
    using assms(1) ps(1) by (metis append.assoc append_Cons append_Nil queue_def)
  then have "linked m (ps @ [p])" by (rule linked_split)
  moreover have "tl (ps @ [p]) = xs" using ps(1) by (metis list.sel(3))
  moreover have "distinct (ps @ [p])" "x \<notin> set (ps @ [p])" "h \<notin> set xs" "x \<notin> set xs"
    using assms unfolding ps(1) [symmetric] queue_def by auto
  ultimately have "linked ?m (ps @ [p])"
    using assms(2) pv ps(2)
    by (elim linked_cong) (auto simp: links butlast_append)
  moreover have "p \<noteq> x" using assms(2) \<open>p \<in> set (h # xs)\<close> by metis
  then have "linked ?m (p # x # [h])"
    using assms(2) pv ps(2) by (auto simp: links)
  ultimately have "linked ?m (ps @ p # x # [h])"
    by (rule linked_join)
  then have "linked ?m ((h # xs) @ x # [h])"
    by (simp add: ps(1))
  then show ?thesis using assms by (simp add: queue_def)
qed

lemma remove_links:
  assumes "qprev m x \<noteq> x" "qnext m x \<noteq> x"
  shows "qnext (etdb_queue_remove x m) = (qnext m)(qprev m x := qnext m x)"
    "qprev (etdb_queue_remove x m) = (qprev m)(qnext m x := qprev m x)"
  using assms by (simp_all add: etdb_queue_remove_def Let_def)

lemma queue_remove:
  assumes "queue m h (xs @ x # ys)"
  shows "queue (etdb_queue_remove x m) h (xs @ ys)"
proof -
  let ?m = "etdb_queue_remove x m"
  obtain ps p n ns where S: "h # xs = ps @ [p]" "p = last (h # xs)" "ys @ [h] = n # ns"
    "n = hd (ys @ [h])" by (rule queue_split_ends)
  have nx: "qnext m x = n" and pv: "qprev m x = p"
    using queue_cell [OF assms] S(2,4) by simp_all
  have D: "distinct ((h # xs) @ x # ys)" using assms by (simp add: queue_def)
  have tl: "tl (ps @ [p]) = xs" using S(1) by (metis list.sel(3))
  have bl: "butlast (n # ns) = ys" using S(3) by (metis butlast_snoc)
  have D1: "distinct (ps @ [p])" "x \<notin> set (ps @ [p])" "distinct (n # ns)" "x \<notin> set (n # ns)"
    using D unfolding S(1) [symmetric] S(3) [symmetric] by auto
  have "n \<in> set (ys @ [h])" "p \<in> set (h # xs)"
    using S(1,3) by simp_all
  then have D2: "n \<notin> set xs" "p \<notin> set ys"
    using D by auto
  have "x \<noteq> p" "x \<noteq> n" using D1 by auto
  then have links: "qnext ?m = (qnext m)(p := n)" "qprev ?m = (qprev m)(n := p)"
    using remove_links [of m x] nx pv by auto
  have "linked m (ps @ p # x # n # ns)"
    using assms S(1,3) unfolding queue_def
    by (metis append.assoc append_Cons append_Nil)
  then have L: "linked m (ps @ [p])" "linked m (n # ns)"
    by (auto dest: linked_split)
  have "linked ?m (ps @ [p])"
    using L(1) D1(1,2) D2 by (elim linked_cong) (auto simp: links tl butlast_append)
  moreover have "linked ?m (n # ns)"
    using L(2) D1(3,4) D2 by (elim linked_cong) (auto simp: links bl simp del: butlast.simps)
  then have "linked ?m (p # n # ns)" by (simp add: links)
  ultimately have "linked ?m (ps @ p # n # ns)" by (rule linked_join)
  then have "linked ?m ((h # xs) @ ys @ [h])"
    by (simp add: S(1,3))
  then show ?thesis using D by (simp add: queue_def)
qed

lemma queue_add:
  assumes "queue m h xs" "queue m n ys" "set (h # xs) \<inter> set (n # ys) = {}"
  shows "queue (etdb_queue_add h n m) h (xs @ ys)"
proof (cases ys)
  case Nil
  have e: "qprev m h = last (h # xs)" "qnext m h = hd (xs @ [h])"
    by (rule queue_ends [OF assms(1)])+
  have n: "qnext m n = n" "qprev m n = n" using assms(2) Nil by (simp_all add: queue_nil)
  have d: "n \<notin> set (h # xs)" using assms(3) by auto
  have "qnext m (last (h # xs)) = h"
  proof (cases xs rule: rev_cases)
    case (snoc zs z)
    then show ?thesis using queue_cell(1) [of m h zs z "[]"] assms(1) by auto
  qed (use e in simp)
  then have "qnext (etdb_queue_add h n m) y = qnext m y \<and> qprev (etdb_queue_add h n m) y = qprev m y"
    if "y \<in> set (h # xs)" for y
    using that e n d last_in_set [of "h # xs"]
    by (auto simp: etdb_queue_add_def Let_def)
  then have "queue (etdb_queue_add h n m) h xs"
    by (rule queue_frame [OF assms(1)])
  then show ?thesis using Nil by simp
next
  case (Cons y r)
  let ?m = "etdb_queue_add h n m"
  let ?p = "last (h # xs)" and ?z = "last (y # r)"
  have e: "qprev m h = ?p" by (rule queue_ends [OF assms(1)])
  have ey: "qnext m n = y" "qprev m n = ?z"
    using queue_ends [OF assms(2)] Cons by simp_all
  obtain ps where ps: "h # xs = ps @ [?p]"
    by (metis append_butlast_last_id list.distinct(1))
  obtain zs where zs: "y # r = zs @ [?z]"
    by (metis append_butlast_last_id list.distinct(1))
  have p: "?p \<in> set (h # xs)" and z: "?z \<in> set (y # r)"
    by (simp_all only: last_in_set list.distinct not_False_eq_True)
  have dj: "n \<notin> set (h # xs)" "y \<notin> set (h # xs)" "set (y # r) \<inter> set (h # xs) = {}"
      "h \<notin> set (n # y # r)"
    using assms(3) Cons by auto
  have dy: "n \<notin> set (y # r)" "distinct (y # r)" "distinct (h # xs)"
    using assms(1,2) Cons by (auto simp: queue_def)
  have ne: "?p \<noteq> n" "?z \<noteq> n" "?p \<noteq> y" "?z \<noteq> h" "?p \<noteq> ?z" "n \<noteq> h" "y \<noteq> h" "n \<noteq> y"
    using p z dj dy(1) unfolding disjoint_iff by (metis list.set_intros(1))+
  have links: "qnext ?m = (qnext m)(?p := y, ?z := h)" "qprev ?m = (qprev m)(y := ?p, h := ?z)"
    using e ey ne by (simp_all add: etdb_queue_add_def Let_def del: last.simps)
  have "linked m (ps @ ?p # [h])"
    using assms(1) ps unfolding queue_def by (metis append.assoc append_Cons append_Nil)
  then have l1: "linked m (ps @ [?p])" by (rule linked_split)
  have "linked m ([n] @ y # r @ [n])"
    using assms(2) Cons by (simp add: queue_def)
  then have "linked m (y # r @ [n])" by (rule linked_split)
  then have "linked m (zs @ ?z # [n])"
    using zs by (metis append.assoc append_Cons append_Nil)
  then have l2: "linked m (zs @ [?z])" by (rule linked_split)
  have bp: "butlast (ps @ [?p]) = ps" "tl (ps @ [?p]) = xs"
    "butlast (zs @ [?z]) = zs" "tl (zs @ [?z]) = r"
    using ps zs by (simp, metis list.sel(3), simp, metis list.sel(3))
  have in_ps: "v \<in> set ps \<Longrightarrow> v \<in> set (h # xs) \<and> v \<noteq> ?p"
    and in_zs: "v \<in> set zs \<Longrightarrow> v \<in> set (y # r) \<and> v \<noteq> ?z" for v
    using dy(2,3) ps zs by (metis Un_iff distinct_append disjoint_iff list.set_intros(1) set_append)+
  have z': "?z \<notin> set (h # xs)" and p': "?p \<notin> set (y # r)"
    using z p dj(3) by blast+
  have L1: "linked ?m (ps @ [?p])"
  proof (rule linked_cong [OF l1], unfold bp)
    show "qnext ?m v = qnext m v" if "v \<in> set ps" for v
      using in_ps [OF that] z' unfolding links by (metis fun_upd_other)
    show "qprev ?m v = qprev m v" if "v \<in> set xs" for v
      using that dj(2) dy(3) unfolding links by (auto simp del: last.simps)
  qed
  have L2: "linked ?m (zs @ [?z])"
  proof (rule linked_cong [OF l2], unfold bp)
    show "qnext ?m v = qnext m v" if "v \<in> set zs" for v
      using in_zs [OF that] p' unfolding links by (metis fun_upd_other)
    show "qprev ?m v = qprev m v" if "v \<in> set r" for v
      using that dj(4) dy(2) unfolding links by (auto simp del: last.simps)
  qed
  have "linked ?m (zs @ ?z # [h])"
    by (rule linked_join [OF L2]) (simp add: links del: last.simps)
  then have "linked ?m (y # r @ [h])"
    using zs by (metis append.assoc append_Cons append_Nil)
  then have "linked ?m (?p # y # r @ [h])"
    using ne by (simp add: links del: last.simps)
  with L1 have "linked ?m (ps @ ?p # y # r @ [h])"
    by (rule linked_join)
  then have "linked ?m (h # xs @ y # r @ [h])"
    using ps by (metis append.assoc append_Cons append_Nil)
  then show ?thesis
    using assms Cons unfolding queue_def by auto
qed

lemma count_loop_run:
  assumes "linked m (xs @ [h])" "h \<notin> set xs"
  shows "count_loop m h (hd (xs @ [h])) c = Some (c + int (length xs))"
  using assms
proof (induction xs arbitrary: c)
  case Nil
  then show ?case by (subst count_loop.simps) simp
next
  case (Cons x xs)
  from Cons.prems have "qnext m x = hd (xs @ [h])" "linked m (xs @ [h])"
    by (cases xs; simp)+
  with Cons show ?case by (subst count_loop.simps) simp
qed

lemma free_loop_run:
  assumes "linked m (xs @ [h])" "h \<notin> set xs"
  shows "free_loop m h (hd (xs @ [h])) fs = Some (fs @ xs)"
  using assms
proof (induction xs arbitrary: fs)
  case Nil
  then show ?case by (subst free_loop.simps) simp
next
  case (Cons x xs)
  from Cons.prems have "qnext m x = hd (xs @ [h])" "linked m (xs @ [h])"
    by (cases xs; simp)+
  with Cons show ?case by (subst free_loop.simps) simp
qed

lemma queue_linked_tl: "queue m h xs \<Longrightarrow> linked m (xs @ [h]) \<and> h \<notin> set xs"
  by (cases xs) (auto simp: queue_def)

lemma queue_count: "queue m h xs \<Longrightarrow> etdb_queue_count m h = Some (int (length xs))"
  using count_loop_run [of m xs h 0] queue_ends(1) [of m h xs] queue_linked_tl [of m h xs]
  by (simp add: etdb_queue_count_def)

lemma queue_free: "queue m h xs \<Longrightarrow> etdb_queue_free m h = Some (h # xs)"
  using free_loop_run [of m xs h "[h]"] queue_ends(1) [of m h xs] queue_linked_tl [of m h xs]
  by (simp add: etdb_queue_free_def)

end
