(* ===== verification/Queue_Heap.thy ===== *)
theory Queue_Heap
  imports Queue
begin

text \<open>
  Many queues in one memory. \<open>qheap m R\<close>: the heads in the domain of \<open>R\<close> have the cells \<open>R\<close>
  gives them, and no cell belongs to two queues. The locale \<open>queue_store\<close> is the interface
  the users of the queues rely on; it is interpreted on the macros of \<open>etdb_queue.h\<close>.
\<close>

definition cells :: "(addr \<rightharpoonup> addr list) \<Rightarrow> addr set" where
  "cells R = (\<Union>h\<in>dom R. set (h # the (R h)))"

definition qheap :: "'a qmem_scheme \<Rightarrow> (addr \<rightharpoonup> addr list) \<Rightarrow> bool" where
  "qheap m R \<longleftrightarrow> (\<forall>h xs. R h = Some xs \<longrightarrow> queue m h xs) \<and>
     (\<forall>h xs g ys. R h = Some xs \<longrightarrow> R g = Some ys \<longrightarrow> h \<noteq> g \<longrightarrow>
        set (h # xs) \<inter> set (g # ys) = {})"

lemma cells_iff: "x \<in> cells R \<longleftrightarrow> (\<exists>h xs. R h = Some xs \<and> x \<in> set (h # xs))"
  unfolding cells_def by (auto simp: dom_def) (metis option.sel)+

lemma cellsI: "R h = Some xs \<Longrightarrow> x \<in> set (h # xs) \<Longrightarrow> x \<in> cells R"
  unfolding cells_iff by blast

lemma cells_upd:
  shows "set (h # ys) \<subseteq> cells (R(h \<mapsto> ys))"
    "cells (R(h \<mapsto> ys)) \<subseteq> cells R \<union> set (h # ys)"
proof -
  show "set (h # ys) \<subseteq> cells (R(h \<mapsto> ys))"
    using cellsI [of "R(h \<mapsto> ys)" h ys] by auto
  show "cells (R(h \<mapsto> ys)) \<subseteq> cells R \<union> set (h # ys)"
  proof
    fix x
    assume "x \<in> cells (R(h \<mapsto> ys))"
    then obtain g zs where "(R(h \<mapsto> ys)) g = Some zs" "x \<in> set (g # zs)"
      unfolding cells_iff by blast
    then show "x \<in> cells R \<union> set (h # ys)"
      using cellsI [of R g zs x] by (cases "g = h") auto
  qed
qed

lemma qheapD:
  assumes "qheap m R" "R h = Some xs"
  shows "queue m h xs" "set (h # xs) \<subseteq> cells R"
  using assms(1) [unfolded qheap_def] assms(2) cellsI [where R = R and h = h and xs = xs] by blast+

lemma qheap_disjoint:
  "qheap m R \<Longrightarrow> R h = Some xs \<Longrightarrow> R g = Some ys \<Longrightarrow> h \<noteq> g \<Longrightarrow> set (h # xs) \<inter> set (g # ys) = {}"
  unfolding qheap_def by meson

text \<open>One queue changes; the links of the cells of all others do not.\<close>

lemma qheap_change:
  assumes "qheap m R" "queue m' h ys"
    "\<And>g zs. R g = Some zs \<Longrightarrow> g \<noteq> h \<Longrightarrow> set (h # ys) \<inter> set (g # zs) = {}"
    "\<And>g zs v. R g = Some zs \<Longrightarrow> g \<noteq> h \<Longrightarrow> v \<in> set (g # zs) \<Longrightarrow>
       qnext m' v = qnext m v \<and> qprev m' v = qprev m v"
  shows "qheap m' (R(h \<mapsto> ys))"
  unfolding qheap_def
proof (intro conjI allI impI)
  fix g zs
  assume g: "(R(h \<mapsto> ys)) g = Some zs"
  show "queue m' g zs"
  proof (cases "g = h")
    case False
    with g have "R g = Some zs" by simp
    then show ?thesis
      using queue_frame [OF qheapD(1) [OF assms(1)], of g zs m'] assms(4) [OF _ False] by blast
  qed (use g assms(2) in simp)
next
  fix g xs k zs
  assume a: "(R(h \<mapsto> ys)) g = Some xs" "(R(h \<mapsto> ys)) k = Some zs" "g \<noteq> k"
  consider "g = h" | "k = h" | "g \<noteq> h" "k \<noteq> h" by blast
  then show "set (g # xs) \<inter> set (k # zs) = {}"
  proof cases
    case 1
    then show ?thesis using a assms(3) [of k zs] by simp
  next
    case 2
    then show ?thesis using a assms(3) [of g xs] by (simp add: Int_commute)
  next
    case 3
    then show ?thesis using a qheap_disjoint [OF assms(1), of g xs k zs] by simp
  qed
qed

lemma last_hd_cells:
  "hd (xs @ [h]) \<in> set (h # xs)" "last (h # xs) \<in> set (h # xs)"
  by (cases xs) auto

lemma qheap_empty [simp]: "qheap m Map.empty"
  by (simp add: qheap_def)

lemma qheap_init:
  assumes "qheap m R" "h \<notin> cells R"
  shows "qheap (etdb_queue_init h m) (R(h \<mapsto> []))"
  using assms(2) by (intro qheap_change [OF assms(1) queue_init])
    (auto simp: cells_iff etdb_queue_init_def)

lemma fresh_other:
  assumes "x \<notin> cells R" "R g = Some zs"
  shows "x \<notin> set (g # zs)"
  using assms by (auto simp: cells_iff)

lemma qheap_insert_head:
  assumes "qheap m R" "R h = Some xs" "x \<notin> cells R"
  shows "qheap (etdb_queue_insert_head h x m) (R(h \<mapsto> x # xs))"
proof (rule qheap_change [OF assms(1)])
  have x: "x \<notin> set (h # xs)" using fresh_other assms by blast
  then show "queue (etdb_queue_insert_head h x m) h (x # xs)"
    using queue_insert_head qheapD(1) [OF assms(1,2)] by blast
  fix g zs
  assume g: "R g = Some zs" "g \<noteq> h"
  then have d: "set (h # xs) \<inter> set (g # zs) = {}"
    using qheap_disjoint [OF assms(1,2)] by metis
  moreover have xg: "x \<notin> set (g # zs)" using fresh_other assms(3) g(1) by blast
  ultimately show "set (h # x # xs) \<inter> set (g # zs) = {}" by auto
  fix v
  assume v: "v \<in> set (g # zs)"
  have n: "qnext m h \<in> set (h # xs)"
    using queue_ends(1) [OF qheapD(1) [OF assms(1,2)]] last_hd_cells(1) by metis
  then have "qnext m h \<noteq> x" "x \<noteq> h" "v \<noteq> qnext m h" "v \<noteq> x" "v \<noteq> h"
    using x d v xg by auto
  then show "qnext (etdb_queue_insert_head h x m) v = qnext m v \<and>
      qprev (etdb_queue_insert_head h x m) v = qprev m v"
    by (simp add: insert_head_links)
qed

lemma qheap_insert_tail:
  assumes "qheap m R" "R h = Some xs" "x \<notin> cells R"
  shows "qheap (etdb_queue_insert_tail h x m) (R(h \<mapsto> xs @ [x]))"
proof (rule qheap_change [OF assms(1)])
  have x: "x \<notin> set (h # xs)" using fresh_other assms by blast
  then show "queue (etdb_queue_insert_tail h x m) h (xs @ [x])"
    using queue_insert_tail qheapD(1) [OF assms(1,2)] by blast
  fix g zs
  assume g: "R g = Some zs" "g \<noteq> h"
  then have d: "set (h # xs) \<inter> set (g # zs) = {}"
    using qheap_disjoint [OF assms(1,2)] by metis
  moreover have xg: "x \<notin> set (g # zs)" using fresh_other assms(3) g(1) by blast
  ultimately show "set (h # xs @ [x]) \<inter> set (g # zs) = {}" by auto
  fix v
  assume v: "v \<in> set (g # zs)"
  have n: "qprev m h \<in> set (h # xs)"
    using queue_ends(2) [OF qheapD(1) [OF assms(1,2)]] last_hd_cells(2) by metis
  then have "qprev m h \<noteq> x" "x \<noteq> h" "v \<noteq> qprev m h" "v \<noteq> x" "v \<noteq> h"
    using x d v xg by auto
  then show "qnext (etdb_queue_insert_tail h x m) v = qnext m v \<and>
      qprev (etdb_queue_insert_tail h x m) v = qprev m v"
    by (simp add: insert_tail_links)
qed

lemma qheap_remove:
  assumes "qheap m R" "R h = Some (xs @ x # ys)"
  shows "qheap (etdb_queue_remove x m) (R(h \<mapsto> xs @ ys))"
proof (rule qheap_change [OF assms(1)])
  note q = qheapD(1) [OF assms]
  show "queue (etdb_queue_remove x m) h (xs @ ys)" by (rule queue_remove [OF q])
  fix g zs
  assume g: "R g = Some zs" "g \<noteq> h"
  then have d: "set (h # xs @ x # ys) \<inter> set (g # zs) = {}"
    using qheap_disjoint [OF assms] by metis
  then show "set (h # xs @ ys) \<inter> set (g # zs) = {}" by auto
  fix v
  assume v: "v \<in> set (g # zs)"
  have n: "qnext m x = hd (ys @ [h])" "qprev m x = last (h # xs)"
    by (rule queue_cell [OF q])+
  have c: "hd (ys @ [h]) \<in> set (h # xs @ x # ys)" "last (h # xs) \<in> set (h # xs @ x # ys)"
    using last_hd_cells(1) [of ys h] last_hd_cells(2) [of h xs] by auto
  have "x \<notin> set (h # xs)" "x \<notin> set (h # ys)"
    using q by (auto simp: queue_def)
  then have "qnext m x \<noteq> x" "qprev m x \<noteq> x"
    using n last_hd_cells(1) [of ys h] last_hd_cells(2) [of h xs] by metis+
  moreover have "v \<noteq> qnext m x" "v \<noteq> qprev m x"
    using n c d v by (metis disjoint_iff)+
  ultimately show "qnext (etdb_queue_remove x m) v = qnext m v \<and>
      qprev (etdb_queue_remove x m) v = qprev m v"
    by (simp add: remove_links)
qed

lemma qheap_drop: "qheap m R \<Longrightarrow> qheap m (R(h := None))"
  unfolding qheap_def by (auto split: if_splits)

lemma qheap_links:
  assumes "qnext m' = qnext m" "qprev m' = qprev m"
  shows "qheap m' R \<longleftrightarrow> qheap m R"
proof -
  have "queue m' h xs \<longleftrightarrow> queue m h xs" for h xs
    using queue_frame [of m h xs m'] queue_frame [of m' h xs m] assms by metis
  then show ?thesis by (simp only: qheap_def)
qed

section \<open>The interface\<close>

locale queue_store =
  fixes rep :: "'m \<Rightarrow> (addr \<rightharpoonup> addr list) \<Rightarrow> bool"
    and q_init :: "addr \<Rightarrow> 'm \<Rightarrow> 'm"
    and q_insert_head :: "addr \<Rightarrow> addr \<Rightarrow> 'm \<Rightarrow> 'm"
    and q_insert_tail :: "addr \<Rightarrow> addr \<Rightarrow> 'm \<Rightarrow> 'm"
    and q_remove :: "addr \<Rightarrow> 'm \<Rightarrow> 'm"
    and q_next :: "'m \<Rightarrow> addr \<Rightarrow> addr"
    and q_prev :: "'m \<Rightarrow> addr \<Rightarrow> addr"
  assumes init: "rep m R \<Longrightarrow> h \<notin> cells R \<Longrightarrow> rep (q_init h m) (R(h \<mapsto> []))"
    and insert_head: "rep m R \<Longrightarrow> R h = Some xs \<Longrightarrow> x \<notin> cells R \<Longrightarrow>
      rep (q_insert_head h x m) (R(h \<mapsto> x # xs))"
    and insert_tail: "rep m R \<Longrightarrow> R h = Some xs \<Longrightarrow> x \<notin> cells R \<Longrightarrow>
      rep (q_insert_tail h x m) (R(h \<mapsto> xs @ [x]))"
    and remove: "rep m R \<Longrightarrow> R h = Some (xs @ x # ys) \<Longrightarrow> rep (q_remove x m) (R(h \<mapsto> xs @ ys))"
    and next_first: "rep m R \<Longrightarrow> R h = Some xs \<Longrightarrow> q_next m h = hd (xs @ [h])"
    and prev_last: "rep m R \<Longrightarrow> R h = Some xs \<Longrightarrow> q_prev m h = last (h # xs)"
    and separate: "rep m R \<Longrightarrow> R h = Some xs \<Longrightarrow> R g = Some ys \<Longrightarrow> h \<noteq> g \<Longrightarrow>
      set (h # xs) \<inter> set (g # ys) = {}"
    and distinct_cells: "rep m R \<Longrightarrow> R h = Some xs \<Longrightarrow> distinct (h # xs)"
begin

lemma remove_first:
  assumes "rep m R" "R h = Some (x # xs)"
  shows "rep (q_remove (q_next m h) m) (R(h \<mapsto> xs))"
  using remove [OF assms(1), of h "[]" x xs] next_first [OF assms] assms(2) by simp

lemma remove_last:
  assumes "rep m R" "R h = Some (xs @ [x])"
  shows "rep (q_remove (q_prev m h) m) (R(h \<mapsto> xs))"
  using remove [OF assms(1), of h xs x "[]"] prev_last [OF assms] assms(2) by simp

lemma removed_fresh:
  assumes "rep m R" "R h = Some (xs @ x # ys)"
  shows "x \<notin> cells (R(h \<mapsto> xs @ ys))"
proof
  assume "x \<in> cells (R(h \<mapsto> xs @ ys))"
  then obtain g zs where g: "(R(h \<mapsto> xs @ ys)) g = Some zs" "x \<in> set (g # zs)"
    unfolding cells_iff by blast
  have d: "distinct (h # xs @ x # ys)" by (rule distinct_cells [OF assms])
  have "g \<noteq> h" using g d by auto
  then have "R g = Some zs" "set (h # xs @ x # ys) \<inter> set (g # zs) = {}"
    using g(1) separate [OF assms, of g zs] by auto
  then show False using g(2) by auto
qed

text \<open>Moving a cell to the front of its own queue, the \<open>remove\<close> and \<open>insert_head\<close> of a cache.\<close>

lemma move_to_front:
  assumes "rep m R" "R h = Some (xs @ x # ys)"
  shows "rep (q_insert_head h x (q_remove x m)) (R(h \<mapsto> x # xs @ ys))"
  using insert_head [OF remove [OF assms], of h "xs @ ys" x] removed_fresh [OF assms] by simp

lemma empty_iff: "rep m R \<Longrightarrow> R h = Some xs \<Longrightarrow> h = q_prev m h \<longleftrightarrow> xs = []"
  using prev_last [of m R h xs] distinct_cells [of m R h xs] by (auto split: if_splits)

end

interpretation qs: queue_store qheap etdb_queue_init etdb_queue_insert_head
    etdb_queue_insert_tail etdb_queue_remove qnext qprev
proof unfold_locales
  fix m :: "'a qmem_scheme" and R h xs
  assume a: "qheap m R" "R h = Some xs"
  show "qnext m h = hd (xs @ [h])" "qprev m h = last (h # xs)" "distinct (h # xs)"
    using qheapD(1) [OF a] queue_ends [of m h xs] by (simp_all add: queue_def)
qed (auto intro: qheap_init qheap_insert_head qheap_insert_tail qheap_remove
      dest: qheap_disjoint simp del: list.set)

end
