(* ===== verification/Lists.thy ===== *)
theory Lists
  imports Queue_Heap
begin

text \<open>
  The value lists of \<open>src/store/etdb_list.h\<close>: nodes that carry a length, a queue cell and the
  bytes, allocated one by one and linked from a head node.

  A node and its queue cell have one address. \<open>live\<close> is the set of allocated addresses;
  \<open>alloc\<close> stands for the allocator behind \<open>etdb_alloc\<close> (jemalloc), which is not part of the
  program: it maps the live blocks to the address of a new one, \<open>fresh_alloc\<close> is what the code
  relies on, that the address is not in use (and is positive). Freed nodes leave \<open>live\<close>.
\<close>

record lheap = qmem +
  live :: "addr set"
  lsize :: "addr \<Rightarrow> 32 word"
  ldata :: "addr \<Rightarrow> bytes"

definition fresh_alloc :: "(addr set \<Rightarrow> addr) \<Rightarrow> bool" where
  "fresh_alloc alloc \<longleftrightarrow> (\<forall>L. finite L \<longrightarrow> alloc L \<notin> L \<and> 0 < alloc L)"

section \<open>Operations\<close>

definition etdb_alloc :: "(addr set \<Rightarrow> addr) \<Rightarrow> 'a lheap_scheme \<Rightarrow> 'a lheap_scheme \<times> addr" where
  "etdb_alloc alloc m = (let a = alloc (live m) in (m\<lparr>live := insert a (live m)\<rparr>, a))"

definition etdb_free :: "addr \<Rightarrow> 'a lheap_scheme \<Rightarrow> 'a lheap_scheme" where
  "etdb_free a m = m\<lparr>live := live m - {a}\<rparr>"

definition put_size :: "addr \<Rightarrow> 32 word \<Rightarrow> 'a lheap_scheme \<Rightarrow> 'a lheap_scheme" where
  "put_size a x m = m\<lparr>lsize := (lsize m)(a := x)\<rparr>"

definition put_data :: "addr \<Rightarrow> bytes \<Rightarrow> 'a lheap_scheme \<Rightarrow> 'a lheap_scheme" where
  "put_data a x m = m\<lparr>ldata := (ldata m)(a := x)\<rparr>"

definition etdb_list_next :: "'a lheap_scheme \<Rightarrow> addr \<Rightarrow> addr" where
  "etdb_list_next m l = qnext m l"

definition etdb_list_prev :: "'a lheap_scheme \<Rightarrow> addr \<Rightarrow> addr" where
  "etdb_list_prev m l = qprev m l"

definition etdb_list_new :: "(addr set \<Rightarrow> addr) \<Rightarrow> 'a lheap_scheme \<Rightarrow> 'a lheap_scheme \<times> addr" where
  "etdb_list_new alloc m =
     (let (m1, new_list) = etdb_alloc alloc m;
          m2 = put_size new_list 0 m1
      in (etdb_queue_init new_list m2, new_list))"

definition etdb_list_lpush ::
    "(addr set \<Rightarrow> addr) \<Rightarrow> addr \<Rightarrow> bytes \<Rightarrow> 'a lheap_scheme \<Rightarrow> 'a lheap_scheme" where
  "etdb_list_lpush alloc head value m =
     (let (m1, new_list) = etdb_alloc alloc m;
          m2 = put_size new_list (of_nat (length value)) m1;
          m3 = put_data new_list value m2
      in etdb_queue_insert_head head new_list m3)"

definition etdb_list_rpush ::
    "(addr set \<Rightarrow> addr) \<Rightarrow> addr \<Rightarrow> bytes \<Rightarrow> 'a lheap_scheme \<Rightarrow> 'a lheap_scheme" where
  "etdb_list_rpush alloc head value m =
     (let (m1, new_list) = etdb_alloc alloc m;
          m2 = put_size new_list (of_nat (length value)) m1;
          m3 = put_data new_list value m2
      in etdb_queue_insert_tail head new_list m3)"

definition etdb_list_empty :: "'a lheap_scheme \<Rightarrow> addr \<Rightarrow> bool" where
  "etdb_list_empty m head = etdb_queue_empty m head"

definition etdb_list_size :: "'a lheap_scheme \<Rightarrow> addr \<Rightarrow> int option" where
  "etdb_list_size m head = count_loop m head (qnext m head) 0"

definition etdb_list_lpop :: "addr \<Rightarrow> 'a lheap_scheme \<Rightarrow> 'a lheap_scheme" where
  "etdb_list_lpop head m =
     (let l = etdb_list_next m head in etdb_free l (etdb_queue_remove l m))"

definition etdb_list_rpop :: "addr \<Rightarrow> 'a lheap_scheme \<Rightarrow> 'a lheap_scheme" where
  "etdb_list_rpop head m =
     (let l = etdb_list_prev m head in etdb_free l (etdb_queue_remove l m))"

text \<open>The bytes a node shows to a reader: \<open>size\<close> bytes from \<open>data\<close>.\<close>

definition node_bytes :: "'a lheap_scheme \<Rightarrow> addr \<Rightarrow> bytes" where
  "node_bytes m l = take (unat (lsize m l)) (ldata m l)"

section \<open>The heap of lists\<close>

text \<open>\<open>lists_at m L\<close>: the list at head \<open>h\<close> holds the strings \<open>L h\<close>, for every head of \<open>L\<close>.\<close>

definition lists_at :: "'a lheap_scheme \<Rightarrow> (addr \<rightharpoonup> bytes list) \<Rightarrow> bool" where
  "lists_at m L \<longleftrightarrow> finite (live m) \<and> (\<exists>R. qheap m R \<and> cells R \<subseteq> live m \<and>
     L = map_option (map (node_bytes m)) \<circ> R)"

text \<open>Only the cell \<open>a\<close> has another content.\<close>

lemma lists_content:
  assumes "\<And>v. v \<in> cells R \<Longrightarrow> v \<noteq> a \<Longrightarrow> node_bytes m' v = node_bytes m v" "a \<notin> cells R"
  shows "map_option (map (node_bytes m')) \<circ> R = map_option (map (node_bytes m)) \<circ> R"
proof
  fix h
  show "(map_option (map (node_bytes m')) \<circ> R) h = (map_option (map (node_bytes m)) \<circ> R) h"
  proof (cases "R h")
    case (Some xs)
    then have "v \<in> cells R" if "v \<in> set xs" for v
      using that cellsI [of R h xs v] Some by simp
    then show ?thesis
      using Some assms by (auto intro!: map_cong [OF refl])
  qed simp
qed

lemma queue_acc [simp]:
  "lsize (etdb_queue_insert_head h x m) = lsize m" "ldata (etdb_queue_insert_head h x m) = ldata m"
  "live (etdb_queue_insert_head h x m) = live m"
  "lsize (etdb_queue_insert_tail h x m) = lsize m" "ldata (etdb_queue_insert_tail h x m) = ldata m"
  "live (etdb_queue_insert_tail h x m) = live m"
  "lsize (etdb_queue_remove x m) = lsize m" "ldata (etdb_queue_remove x m) = ldata m"
  "live (etdb_queue_remove x m) = live m"
  "lsize (etdb_queue_init x m) = lsize m" "ldata (etdb_queue_init x m) = ldata m"
  "live (etdb_queue_init x m) = live m"
  by (simp_all add: etdb_queue_insert_head_def etdb_queue_insert_tail_def etdb_queue_remove_def
      etdb_queue_init_def Let_def set_next_def set_prev_def)

lemma qheap_upd [simp]:
  "qheap (m\<lparr>live := A\<rparr>) R \<longleftrightarrow> qheap m R" "qheap (put_size a x m) R \<longleftrightarrow> qheap m R"
  "qheap (put_data a d m) R \<longleftrightarrow> qheap m R" "qheap (etdb_free a m) R \<longleftrightarrow> qheap m R"
  by (rule qheap_links; simp add: put_size_def put_data_def etdb_free_def)+

lemma put_acc [simp]:
  "live (put_size a x m) = live m" "live (put_data a d m) = live m"
  "lsize (put_size a x m) = (lsize m)(a := x)" "lsize (put_data a d m) = lsize m"
  "ldata (put_size a x m) = ldata m" "ldata (put_data a d m) = (ldata m)(a := d)"
  "lsize (etdb_free a m) = lsize m" "ldata (etdb_free a m) = ldata m"
  "live (etdb_free a m) = live m - {a}"
  by (simp_all add: put_size_def put_data_def etdb_free_def)

lemma fresh_cells:
  assumes "fresh_alloc alloc" "lists_at m L"
  shows "alloc (live m) \<notin> live m" "0 < alloc (live m)"
  using assms by (auto simp: fresh_alloc_def lists_at_def)

text \<open>\<open>etdb_list_new\<close> adds an empty list at a new address and leaves every list as it was.\<close>

lemma list_new:
  assumes "fresh_alloc alloc" "lists_at m L" "etdb_list_new alloc m = (m', h)"
  shows "lists_at m' (L(h \<mapsto> []))" "h \<notin> live m"
proof -
  obtain R where R: "qheap m R" "cells R \<subseteq> live m" "L = map_option (map (node_bytes m)) \<circ> R"
    using assms(2) by (auto simp: lists_at_def)
  let ?a = "alloc (live m)"
  have a: "?a \<notin> cells R" using fresh_cells [OF assms(1,2)] R(2) by auto
  have m': "m' = etdb_queue_init ?a (put_size ?a 0 (m\<lparr>live := insert ?a (live m)\<rparr>))" "h = ?a"
    using assms(3) by (auto simp: etdb_list_new_def etdb_alloc_def Let_def)
  then show "h \<notin> live m" using fresh_cells [OF assms(1,2)] by simp
  have "qheap m' (R(h \<mapsto> []))"
    using a R(1) unfolding m' by (intro qs.init) simp_all
  moreover have "cells (R(h \<mapsto> [])) \<subseteq> live m'"
    using cells_upd(2) [of R h "[]"] R(2) by (auto simp: m')
  moreover have "map_option (map (node_bytes m')) \<circ> R = L"
    unfolding R(3) by (rule lists_content [where a = h])
      (use a in \<open>simp_all add: m' node_bytes_def\<close>)
  then have "L(h \<mapsto> []) = map_option (map (node_bytes m')) \<circ> R(h \<mapsto> [])"
    by (auto simp: fun_eq_iff)
  moreover have "finite (live m')"
    using assms(2) by (simp add: m' lists_at_def)
  ultimately show "lists_at m' (L(h \<mapsto> []))"
    unfolding lists_at_def by blast
qed

text \<open>A new node with the bytes of \<open>value\<close>, not yet linked.\<close>

definition new_node :: "(addr set \<Rightarrow> addr) \<Rightarrow> bytes \<Rightarrow> 'a lheap_scheme \<Rightarrow> 'a lheap_scheme" where
  "new_node alloc value m = put_data (alloc (live m)) value
     (put_size (alloc (live m)) (of_nat (length value)) (m\<lparr>live := insert (alloc (live m)) (live m)\<rparr>))"

lemma push_new_node:
  "etdb_list_lpush alloc h v m = etdb_queue_insert_head h (alloc (live m)) (new_node alloc v m)"
  "etdb_list_rpush alloc h v m = etdb_queue_insert_tail h (alloc (live m)) (new_node alloc v m)"
  by (simp_all add: etdb_list_lpush_def etdb_list_rpush_def etdb_alloc_def new_node_def Let_def)

lemma lists_atE:
  assumes "lists_at m L" "L h = Some vs"
  obtains R xs where "qheap m R" "cells R \<subseteq> live m" "L = map_option (map (node_bytes m)) \<circ> R"
    "R h = Some xs" "vs = map (node_bytes m) xs"
  using assms by (auto simp: lists_at_def)

lemma lists_push:
  assumes "fresh_alloc alloc" "lists_at m L" "L h = Some vs" "length v < 2 ^ 32"
    and R: "qheap m R" "cells R \<subseteq> live m" "L = map_option (map (node_bytes m)) \<circ> R" "R h = Some xs"
    and m': "qheap m' (R(h \<mapsto> ys))" "live m' = live (new_node alloc v m)"
      "lsize m' = lsize (new_node alloc v m)" "ldata m' = ldata (new_node alloc v m)"
    and ys: "set ys \<subseteq> insert (alloc (live m)) (set xs)"
  shows "lists_at m' (L(h \<mapsto> map (node_bytes m') ys))"
proof -
  let ?a = "alloc (live m)"
  have a: "?a \<notin> cells R" using fresh_cells [OF assms(1,2)] R(2) by auto
  have "map_option (map (node_bytes m')) \<circ> R = L"
    unfolding R(3) by (rule lists_content [where a = ?a])
      (use a in \<open>simp_all add: m' node_bytes_def new_node_def\<close>)
  then have "L(h \<mapsto> map (node_bytes m') ys) = map_option (map (node_bytes m')) \<circ> R(h \<mapsto> ys)"
    by (auto simp: fun_eq_iff)
  moreover have "cells (R(h \<mapsto> ys)) \<subseteq> live m'"
    using cells_upd(2) [of R h ys] ys R(2) cellsI [of R h xs] R(4)
    by (fastforce simp: m' new_node_def)
  moreover have "finite (live m')"
    using assms(2) by (simp add: m' lists_at_def new_node_def)
  ultimately show "lists_at m' (L(h \<mapsto> map (node_bytes m') ys))"
    using m'(1) unfolding lists_at_def by blast
qed

lemma node_bytes_new:
  assumes "length v < 2 ^ 32" "lsize m' = lsize (new_node alloc v m)" "ldata m' = ldata (new_node alloc v m)"
  shows "node_bytes m' (alloc (live m)) = v"
    "b \<noteq> alloc (live m) \<Longrightarrow> node_bytes m' b = node_bytes m b"
  using assms(1) by (simp_all add: node_bytes_def assms(2,3) new_node_def unat_of_nat take_bit_nat_eq_self)

lemma qheap_new_node [simp]: "qheap (new_node alloc v m) R \<longleftrightarrow> qheap m R"
  by (simp add: new_node_def)

lemma list_lpush:
  assumes "fresh_alloc alloc" "lists_at m L" "L h = Some vs" "length v < 2 ^ 32"
  shows "lists_at (etdb_list_lpush alloc h v m) (L(h \<mapsto> v # vs))"
proof -
  let ?m = "etdb_list_lpush alloc h v m" and ?a = "alloc (live m)"
  obtain R xs where R: "qheap m R" "cells R \<subseteq> live m" "L = map_option (map (node_bytes m)) \<circ> R"
    "R h = Some xs" "vs = map (node_bytes m) xs"
    using lists_atE [OF assms(2,3)] .
  have a: "?a \<notin> cells R" using fresh_cells [OF assms(1,2)] R(2) by auto
  then have "?a \<notin> set xs" using fresh_other R(4) by fastforce
  then have e: "map (node_bytes ?m) (?a # xs) = v # vs"
    using node_bytes_new [OF assms(4), of ?m alloc m] R(5)
    by (simp add: push_new_node) (metis \<open>?a \<notin> set xs\<close>)
  have "qheap ?m (R(h \<mapsto> ?a # xs))"
    unfolding push_new_node using R(1,4) a by (intro qs.insert_head) simp_all
  then have "lists_at ?m (L(h \<mapsto> map (node_bytes ?m) (?a # xs)))"
    by (rule lists_push [OF assms R(1-4)]) (auto simp: push_new_node)
  then show ?thesis by (simp only: e)
qed

lemma list_rpush:
  assumes "fresh_alloc alloc" "lists_at m L" "L h = Some vs" "length v < 2 ^ 32"
  shows "lists_at (etdb_list_rpush alloc h v m) (L(h \<mapsto> vs @ [v]))"
proof -
  let ?m = "etdb_list_rpush alloc h v m" and ?a = "alloc (live m)"
  obtain R xs where R: "qheap m R" "cells R \<subseteq> live m" "L = map_option (map (node_bytes m)) \<circ> R"
    "R h = Some xs" "vs = map (node_bytes m) xs"
    using lists_atE [OF assms(2,3)] .
  have a: "?a \<notin> cells R" using fresh_cells [OF assms(1,2)] R(2) by auto
  then have "?a \<notin> set xs" using fresh_other R(4) by fastforce
  then have e: "map (node_bytes ?m) (xs @ [?a]) = vs @ [v]"
    using node_bytes_new [OF assms(4), of ?m alloc m] R(5)
    by (simp add: push_new_node) (metis \<open>?a \<notin> set xs\<close>)
  have "qheap ?m (R(h \<mapsto> xs @ [?a]))"
    unfolding push_new_node using R(1,4) a by (intro qs.insert_tail) simp_all
  then have "lists_at ?m (L(h \<mapsto> map (node_bytes ?m) (xs @ [?a])))"
    by (rule lists_push [OF assms R(1-4)]) (auto simp: push_new_node)
  then show ?thesis by (simp only: e)
qed

text \<open>A cell is unlinked and freed.\<close>

lemma lists_unlink:
  assumes "lists_at m L" and R: "qheap m R" "cells R \<subseteq> live m"
    "L = map_option (map (node_bytes m)) \<circ> R" "R h = Some (xs @ x # ys)"
  shows "lists_at (etdb_free x (etdb_queue_remove x m)) (L(h \<mapsto> map (node_bytes m) (xs @ ys)))"
proof -
  let ?m = "etdb_free x (etdb_queue_remove x m)" and ?R = "R(h \<mapsto> xs @ ys)"
  have nb: "node_bytes ?m = node_bytes m" by (simp add: fun_eq_iff node_bytes_def)
  have "qheap ?m ?R" using qs.remove [OF R(1,4)] by simp
  moreover have "x \<notin> cells ?R" by (rule qs.removed_fresh [OF R(1,4)])
  then have "cells ?R \<subseteq> live ?m"
    using cells_upd(2) [of R h "xs @ ys"] R(2) cellsI [of R h "xs @ x # ys"] R(4) by fastforce
  moreover have "L(h \<mapsto> map (node_bytes m) (xs @ ys)) = map_option (map (node_bytes ?m)) \<circ> ?R"
    unfolding nb R(3) by (auto simp: fun_eq_iff)
  moreover have "finite (live ?m)" using assms(1) by (simp add: lists_at_def)
  ultimately show ?thesis unfolding lists_at_def by blast
qed

lemma list_lpop:
  assumes "lists_at m L" "L h = Some (v # vs)"
  shows "lists_at (etdb_list_lpop h m) (L(h \<mapsto> vs))"
proof -
  obtain R xs where R: "qheap m R" "cells R \<subseteq> live m" "L = map_option (map (node_bytes m)) \<circ> R"
    "R h = Some xs" "v # vs = map (node_bytes m) xs"
    using lists_atE [OF assms] .
  then obtain y ys where y: "xs = y # ys" "vs = map (node_bytes m) ys" by (cases xs) auto
  then have "qnext m h = y" using qs.next_first [OF R(1,4)] by simp
  with lists_unlink [OF assms(1) R(1-3), of h "[]" y ys] R(4) y show ?thesis
    by (simp add: etdb_list_lpop_def etdb_list_next_def Let_def)
qed

lemma list_rpop:
  assumes "lists_at m L" "L h = Some (vs @ [v])"
  shows "lists_at (etdb_list_rpop h m) (L(h \<mapsto> vs))"
proof -
  obtain R xs where R: "qheap m R" "cells R \<subseteq> live m" "L = map_option (map (node_bytes m)) \<circ> R"
    "R h = Some xs" "vs @ [v] = map (node_bytes m) xs"
    using lists_atE [OF assms] .
  then obtain y ys where y: "xs = ys @ [y]" "vs = map (node_bytes m) ys"
    by (cases xs rule: rev_cases) auto
  then have "qprev m h = y" using qs.prev_last [OF R(1,4)] by simp
  with lists_unlink [OF assms(1) R(1-3), of h ys y "[]"] R(4) y show ?thesis
    by (simp add: etdb_list_rpop_def etdb_list_prev_def Let_def)
qed

lemma list_ends:
  assumes "lists_at m L" "L h = Some vs"
  shows "etdb_list_empty m h \<longleftrightarrow> vs = []"
    "vs \<noteq> [] \<Longrightarrow> node_bytes m (etdb_list_next m h) = hd vs"
    "vs \<noteq> [] \<Longrightarrow> node_bytes m (etdb_list_prev m h) = last vs"
    "etdb_list_size m h = Some (int (length vs))"
proof -
  obtain R xs where R: "qheap m R" "cells R \<subseteq> live m" "L = map_option (map (node_bytes m)) \<circ> R"
    "R h = Some xs" "vs = map (node_bytes m) xs"
    using lists_atE [OF assms] .
  note q = qheapD(1) [OF R(1,4)]
  show "etdb_list_empty m h \<longleftrightarrow> vs = []"
    using queue_empty_iff [OF q] R(5) by (simp add: etdb_list_empty_def)
  show "vs \<noteq> [] \<Longrightarrow> node_bytes m (etdb_list_next m h) = hd vs"
    using queue_ends(1) [OF q] R(5) by (cases xs) (auto simp: etdb_list_next_def)
  show "vs \<noteq> [] \<Longrightarrow> node_bytes m (etdb_list_prev m h) = last vs"
    using queue_ends(2) [OF q] R(5) by (auto simp: etdb_list_prev_def last_map)
  show "etdb_list_size m h = Some (int (length vs))"
    using queue_count [OF q] R(5) by (simp add: etdb_list_size_def etdb_queue_count_def)
qed

text \<open>
  C32: the value lists refine lists of strings. Each operation changes the list at its head the
  way the list operation does, leaves all others alone, and keeps the heap well formed.
\<close>

theorem etdb_list_refines:
  assumes "fresh_alloc alloc" "lists_at m L" "L h = Some vs" "length v < 2 ^ 32"
  shows "lists_at (etdb_list_lpush alloc h v m) (L(h \<mapsto> v # vs)) \<and>
    lists_at (etdb_list_rpush alloc h v m) (L(h \<mapsto> vs @ [v])) \<and>
    (vs \<noteq> [] \<longrightarrow> lists_at (etdb_list_lpop h m) (L(h \<mapsto> tl vs)) \<and>
       lists_at (etdb_list_rpop h m) (L(h \<mapsto> butlast vs)) \<and>
       node_bytes m (etdb_list_next m h) = hd vs \<and> node_bytes m (etdb_list_prev m h) = last vs) \<and>
    (etdb_list_empty m h \<longleftrightarrow> vs = []) \<and> etdb_list_size m h = Some (int (length vs))"
proof (intro conjI impI)
  assume ne: "vs \<noteq> []"
  show "lists_at (etdb_list_lpop h m) (L(h \<mapsto> tl vs))"
    using list_lpop [of m L h "hd vs" "tl vs"] assms(2,3) ne by simp
  show "lists_at (etdb_list_rpop h m) (L(h \<mapsto> butlast vs))"
    using list_rpop [of m L h "butlast vs" "last vs"] assms(2,3) ne by simp
  show "node_bytes m (etdb_list_next m h) = hd vs" "node_bytes m (etdb_list_prev m h) = last vs"
    using list_ends [OF assms(2,3)] ne by simp_all
qed (simp_all only: list_lpush [OF assms] list_rpush [OF assms] list_ends [OF assms(2,3)])

definition example_alloc :: "addr set \<Rightarrow> addr" where
  "example_alloc L = 1 + Max (insert 0 L)"

lemma example_alloc: "fresh_alloc example_alloc"
  unfolding fresh_alloc_def
proof (intro allI impI)
  fix L :: "addr set"
  assume "finite L"
  then have le: "x \<le> Max (insert 0 L)" if "x \<in> insert 0 L" for x
    using that by (intro Max_ge) auto
  then show "example_alloc L \<notin> L \<and> 0 < example_alloc L"
    using le [of 0] le by (fastforce simp: example_alloc_def)
qed

definition empty_lheap :: lheap where
  "empty_lheap = \<lparr>qprev = \<lambda>_. 0, qnext = \<lambda>_. 0, live = {}, lsize = \<lambda>_. 0, ldata = \<lambda>_. []\<rparr>"

lemma empty_lheap: "lists_at empty_lheap Map.empty"
  unfolding lists_at_def by (auto intro!: exI [of _ Map.empty] simp: empty_lheap_def cells_def)

theorem etdb_list_refines_witness:
  "\<exists>(m :: lheap) h. lists_at (etdb_list_lpush example_alloc h [7, 8] m) [h \<mapsto> [[7, 8]]] \<and>
     lists_at (etdb_list_rpush example_alloc h [7, 8] m) [h \<mapsto> [[7, 8]]]"
proof -
  obtain m h where m: "etdb_list_new example_alloc empty_lheap = (m, h)" by fastforce
  then have "lists_at m [h \<mapsto> []]"
    using list_new(1) [OF example_alloc empty_lheap] by simp
  from etdb_list_refines [OF example_alloc this, of h "[]" "[7, 8]"] show ?thesis
    by auto
qed

end
