(* ===== verification/Geo.thy ===== *)
theory Geo
  imports Strings
begin

text \<open>
  Geohashes, \<open>src/etdb_geo_hash.c\<close>: interleaved bisection of longitude and
     latitude, five bits
  to a character, and the longest prefix common to a rectangle.

  Coordinates are the rationals the \<open>double\<close>s denote. The bounds of the bisection
     are multiples
  of \<open>90 / 2 ^ 30\<close> below \<open>180\<close> for the at most 60 steps there are, so
     its additions and halvings
  are exact in a \<open>double\<close> and are exact here; \<open>etdb_swap\<close> adds
     arbitrary coordinates and
  rounds. Strings are byte lists; \<open>hash\<close> is the list of the characters written.
\<close>

section \<open>Tables\<close>

definition etdb_geo_hash_char_map :: bytes where
  "etdb_geo_hash_char_map = [48, 49, 50, 51, 52, 53, 54, 55, 56, 57, 98, 99, 100, 101, 102, 103,
     104, 106, 107, 109, 110, 112, 113, 114, 115, 116, 117, 118, 119, 120, 121, 122]"

definition etdb_geo_hash_even_neighbors :: "bytes list" where
  "etdb_geo_hash_even_neighbors = [
    [112, 48, 114, 50, 49, 52, 51, 54, 120, 56, 122, 98, 57, 100, 99, 102, 53, 104, 55, 107,
     106, 110, 109, 113, 101, 115, 103, 117, 116, 119, 118, 121],
    [98, 99, 48, 49, 102, 103, 52, 53, 50, 51, 56, 57, 54, 55, 100, 101, 117, 118, 104, 106,
     121, 122, 110, 112, 107, 109, 115, 116, 113, 114, 119, 120],
    [49, 52, 51, 54, 53, 104, 55, 107, 57, 100, 99, 102, 101, 115, 103, 117, 106, 110, 109, 113,
     112, 48, 114, 50, 116, 119, 118, 121, 120, 56, 122, 98],
    [50, 51, 56, 57, 54, 55, 100, 101, 98, 99, 48, 49, 102, 103, 52, 53, 107, 109, 115, 116,
     113, 114, 119, 120, 117, 118, 104, 106, 121, 122, 110, 112]]"

definition etdb_geo_hash_odd_neighbors :: "bytes list" where
  "etdb_geo_hash_odd_neighbors = [
    [98, 99, 48, 49, 102, 103, 52, 53, 50, 51, 56, 57, 54, 55, 100, 101, 117, 118, 104, 106,
     121, 122, 110, 112, 107, 109, 115, 116, 113, 114, 119, 120],
    [112, 48, 114, 50, 49, 52, 51, 54, 120, 56, 122, 98, 57, 100, 99, 102, 53, 104, 55, 107,
     106, 110, 109, 113, 101, 115, 103, 117, 116, 119, 118, 121],
    [50, 51, 56, 57, 54, 55, 100, 101, 98, 99, 48, 49, 102, 103, 52, 53, 107, 109, 115, 116,
     113, 114, 119, 120, 117, 118, 104, 106, 121, 122, 110, 112],
    [49, 52, 51, 54, 53, 104, 55, 107, 57, 100, 99, 102, 101, 115, 103, 117, 106, 110, 109, 113,
     112, 48, 114, 50, 116, 119, 118, 121, 120, 56, 122, 98]]"

definition etdb_geo_hash_even_borders :: "bytes list" where
  "etdb_geo_hash_even_borders = [
    [112, 114, 120, 122],
    [98, 99, 102, 103, 117, 118, 121, 122],
    [48, 50, 56, 98],
    [48, 49, 52, 53, 104, 106, 110, 112]]"

definition etdb_geo_hash_odd_borders :: "bytes list" where
  "etdb_geo_hash_odd_borders = [
    [98, 99, 102, 103, 117, 118, 121, 122],
    [112, 114, 120, 122],
    [48, 49, 52, 53, 104, 106, 110, 112],
    [48, 50, 56, 98]]"

record geo_interval =
  ihigh :: rat
  ilow :: rat

record geo_box_dimension =
  height :: rat
  width :: rat

record geo_corrd =
  latitude :: rat
  longitude :: rat
  north :: rat
  east :: rat
  south :: rat
  west :: rat

section \<open>Operations\<close>

fun index_loop :: "byte \<Rightarrow> bytes \<Rightarrow> int \<Rightarrow> int" where
  "index_loop c [] i = -1"
| "index_loop c (x # xs) i = (if c = x then i else index_loop c xs (i + 1))"

definition etdb_geo_hash_index_for_char :: "byte \<Rightarrow> bytes \<Rightarrow> int" where
  "etdb_geo_hash_index_for_char c string = index_loop c string 0"

text \<open>
  The characters \<open>nei[0], ..., nei[char_amount - 1]\<close>; \<^term>\<open>None\<close> when the recursion reaches
  the empty string, whose last character \<open>hash[-1]\<close> does not exist, or when the last character
  is not one of the map.
\<close>

fun etdb_geo_hash_get_neighbor :: "bytes \<Rightarrow> nat \<Rightarrow> nat \<Rightarrow> bytes option" where
  "etdb_geo_hash_get_neighbor hash 0 direction = None"
| "etdb_geo_hash_get_neighbor hash (Suc k) direction =
     (let last_char = hash ! k;
          is_odd = (Suc k mod 2 = 1);
          border = (if is_odd then etdb_geo_hash_odd_borders else etdb_geo_hash_even_borders);
          neighbor = (if is_odd then etdb_geo_hash_odd_neighbors else etdb_geo_hash_even_neighbors);
          front = (if etdb_geo_hash_index_for_char last_char (border ! direction) \<noteq> -1
                   then etdb_geo_hash_get_neighbor hash k direction
                   else Some (take k hash));
          neighbor_index = etdb_geo_hash_index_for_char last_char (neighbor ! direction)
      in if neighbor_index < 0 then None
         else map_option (\<lambda>nei. nei @ [etdb_geo_hash_char_map ! nat neighbor_index]) front)"

text \<open>The bisection steps \<open>i, ..., n\<close>; \<open>hashChar\<close> is an \<open>unsigned int\<close>.\<close>

function encode_loop ::
    "rat \<Rightarrow> rat \<Rightarrow> nat \<Rightarrow> nat \<Rightarrow> geo_interval \<Rightarrow> geo_interval \<Rightarrow> bool \<Rightarrow> 32 word \<Rightarrow> bytes \<Rightarrow> bytes"
where
  "encode_loop lat lng n i lat_interval lng_interval is_even hashChar hash =
     (if i \<le> n then
        let interval = (if is_even then lng_interval else lat_interval);
            coord = (if is_even then lng else lat);
            mid = (ilow interval + ihigh interval) / 2;
            hc = push_bit 1 hashChar;
            interval' = (if coord > mid then interval\<lparr>ilow := mid\<rparr> else interval\<lparr>ihigh := mid\<rparr>);
            hc' = (if coord > mid then hc OR 1 else hc);
            lat' = (if is_even then lat_interval else interval');
            lng' = (if is_even then interval' else lng_interval)
        in if i mod 5 = 0
           then encode_loop lat lng n (i + 1) lat' lng' (\<not> is_even) 0
                  (hash @ [etdb_geo_hash_char_map ! unat hc'])
           else encode_loop lat lng n (i + 1) lat' lng' (\<not> is_even) hc' hash
      else hash)"
  by pat_completeness auto
termination by (relation "measure (\<lambda>(_, _, n, i, _). Suc n - i)") auto

declare encode_loop.simps [simp del]

definition etdb_geo_hash_encode :: "rat \<Rightarrow> rat \<Rightarrow> int \<Rightarrow> bytes" where
  "etdb_geo_hash_encode lat lng precision =
     (let precision = (if precision < 1 \<or> precision > 12 then 6 else precision)
      in if lat \<le> 90 \<and> lat \<ge> -90 \<and> lng \<le> 180 \<and> lng \<ge> -180
         then encode_loop lat lng (nat (precision * 5)) 1
                \<lparr>ihigh = 90, ilow = -90\<rparr> \<lparr>ihigh = 180, ilow = -180\<rparr> True 0 []
         else [])"

text \<open>The five bits of one character, and the loop over the characters.\<close>

primrec decode_bits ::
    "32 word \<Rightarrow> nat list \<Rightarrow> geo_interval \<Rightarrow> geo_interval \<Rightarrow> bool \<Rightarrow> geo_interval \<times> geo_interval \<times> bool"
where
  "decode_bits idx [] lat_interval lng_interval is_even = (lat_interval, lng_interval, is_even)"
| "decode_bits idx (j # js) lat_interval lng_interval is_even =
     (let interval = (if is_even then lng_interval else lat_interval);
          delta = (ihigh interval - ilow interval) / 2;
          interval' = (if push_bit j idx AND 16 \<noteq> 0 then interval\<lparr>ilow := ilow interval + delta\<rparr>
                       else interval\<lparr>ihigh := ihigh interval - delta\<rparr>)
      in decode_bits idx js (if is_even then lat_interval else interval')
           (if is_even then interval' else lng_interval) (\<not> is_even))"

primrec decode_loop ::
    "bytes \<Rightarrow> geo_interval \<Rightarrow> geo_interval \<Rightarrow> bool \<Rightarrow> geo_interval \<times> geo_interval \<times> bool" where
  "decode_loop [] lat_interval lng_interval is_even = (lat_interval, lng_interval, is_even)"
| "decode_loop (c # cs) lat_interval lng_interval is_even =
     (let idx = word_of_int (etdb_geo_hash_index_for_char c etdb_geo_hash_char_map);
          (lat', lng', even') = decode_bits idx [0, 1, 2, 3, 4] lat_interval lng_interval is_even
      in decode_loop cs lat' lng' even')"

definition etdb_geo_hash_decode :: "bytes \<Rightarrow> geo_corrd" where
  "etdb_geo_hash_decode hash =
     (if hash = [] then
        \<lparr>latitude = 0, longitude = 0, north = 0, east = 0, south = 0, west = 0\<rparr>
      else
        let (lat_interval, lng_interval, _) =
              decode_loop hash \<lparr>ihigh = 90, ilow = -90\<rparr> \<lparr>ihigh = 180, ilow = -180\<rparr> True
        in \<lparr>latitude = ihigh lat_interval - (ihigh lat_interval - ilow lat_interval) / 2,
            longitude = ihigh lng_interval - (ihigh lng_interval - ilow lng_interval) / 2,
            north = ihigh lat_interval, east = ihigh lng_interval,
            south = ilow lat_interval, west = ilow lng_interval\<rparr>)"

text \<open>The eight neighbours; an entry is computed from the one before it.\<close>

definition etdb_geo_hash_neighbors :: "bytes \<Rightarrow> nat \<Rightarrow> bytes option list" where
  "etdb_geo_hash_neighbors hash n =
     (let nb = (\<lambda>h d. Option.bind h (\<lambda>h'. etdb_geo_hash_get_neighbor h' n d));
          n0 = nb (Some hash) 0; n1 = nb n0 1; n2 = nb (Some hash) 1; n3 = nb n2 2;
          n4 = nb (Some hash) 2; n5 = nb n4 3; n6 = nb (Some hash) 3; n7 = nb n6 0
      in [n0, n1, n2, n3, n4, n5, n6, n7])"

fun halve :: "nat \<Rightarrow> rat \<Rightarrow> rat" where
  "halve 0 x = x"
| "halve (Suc n) x = halve n (x / 2)"

definition etdb_geo_hash_dimensions_for_precision :: "int \<Rightarrow> geo_box_dimension" where
  "etdb_geo_hash_dimensions_for_precision precision =
     (if precision > 0 then
        let lat_times_to_cut = precision * 5 div 2;
            lng_times_to_cut = precision * 5 div 2 + (if precision mod 2 \<noteq> 0 then 1 else 0)
        in \<lparr>height = halve (nat lat_times_to_cut) 180, width = halve (nat lng_times_to_cut) 360\<rparr>
      else \<lparr>height = 0, width = 0\<rparr>)"

definition etdb_swap :: "rat \<Rightarrow> rat \<Rightarrow> rat \<times> rat" where
  "etdb_swap a b =
     (let a = to_double (a + b); b = to_double (a - b); a = to_double (a - b) in (a, b))"

text \<open>The result is the list of characters written and the final \<open>*precision\<close>.\<close>

function cover_loop ::
    "geo_interval \<Rightarrow> geo_interval \<Rightarrow> nat \<Rightarrow> nat \<Rightarrow> geo_interval \<Rightarrow> geo_interval \<Rightarrow> bool \<Rightarrow> 32 word \<Rightarrow>
     bytes \<Rightarrow> int \<Rightarrow> bytes \<times> int"
where
  "cover_loop lat_range lng_range n i lat_interval lng_interval is_even hashChar hash precision =
     (if i \<le> n then
        let interval = (if is_even then lng_interval else lat_interval);
            range = (if is_even then lng_range else lat_range);
            mid = (ilow interval + ihigh interval) / 2;
            hc = push_bit 1 hashChar
        in if ilow range > mid \<or> ihigh range < mid then
             let hi = (ilow range > mid);
                 interval' = (if hi then interval\<lparr>ilow := mid\<rparr> else interval\<lparr>ihigh := mid\<rparr>);
                 hc' = (if hi then hc OR 1 else hc);
                 lat' = (if is_even then lat_interval else interval');
                 lng' = (if is_even then interval' else lng_interval)
             in if i mod 5 = 0
                then cover_loop lat_range lng_range n (i + 1) lat' lng' (\<not> is_even) 0
                       (hash @ [etdb_geo_hash_char_map ! unat hc']) (int ((i - 1) div 5 + 1))
                else cover_loop lat_range lng_range n (i + 1) lat' lng' (\<not> is_even) hc' hash precision
           else (hash, precision)
      else (hash, precision))"
  by pat_completeness auto
termination by (relation "measure (\<lambda>(_, _, n, i, _). Suc n - i)") auto

declare cover_loop.simps [simp del]

definition etdb_geo_hash_get_max_cover :: "rat \<Rightarrow> rat \<Rightarrow> rat \<Rightarrow> rat \<Rightarrow> int \<Rightarrow> bytes \<times> int" where
  "etdb_geo_hash_get_max_cover lat1 lat2 lng1 lng2 precision =
     (let (lat1, lat2) = (if lat1 > lat2 then etdb_swap lat1 lat2 else (lat1, lat2));
          (lng1, lng2) = (if lng1 > lng2 then etdb_swap lng1 lng2 else (lng1, lng2))
      in cover_loop \<lparr>ihigh = lat2, ilow = lat1\<rparr> \<lparr>ihigh = lng2, ilow = lng1\<rparr> (nat (precision * 5)) 1
           \<lparr>ihigh = 90, ilow = -90\<rparr> \<lparr>ihigh = 180, ilow = -180\<rparr> True 0 [] precision)"

section \<open>Bisection as a bit sequence\<close>

text \<open>One step: which half, and the half.\<close>

definition half :: "bool \<Rightarrow> geo_interval \<Rightarrow> geo_interval" where
  "half b I = (let mid = (ilow I + ihigh I) / 2 in if b then I\<lparr>ilow := mid\<rparr> else I\<lparr>ihigh := mid\<rparr>)"

fun bisect :: "rat \<Rightarrow> rat \<Rightarrow> nat \<Rightarrow> geo_interval \<Rightarrow> geo_interval \<Rightarrow> bool \<Rightarrow> bool list" where
  "bisect lat lng 0 A B ev = []"
| "bisect lat lng (Suc n) A B ev =
     (if ev then (let b = (lng > (ilow B + ihigh B) / 2) in b # bisect lat lng n A (half b B) False)
      else (let b = (lat > (ilow A + ihigh A) / 2) in b # bisect lat lng n (half b A) B True))"

fun narrow :: "bool list \<Rightarrow> geo_interval \<Rightarrow> geo_interval \<Rightarrow> bool \<Rightarrow> geo_interval \<times> geo_interval \<times> bool" where
  "narrow [] A B ev = (A, B, ev)"
| "narrow (b # bs) A B ev = (if ev then narrow bs A (half b B) False else narrow bs (half b A) B True)"

text \<open>Five bits to a character.\<close>

definition char5 :: "bool list \<Rightarrow> byte" where
  "char5 bs = etdb_geo_hash_char_map ! (fold (\<lambda>b n. 2 * n + of_bool b) bs 0)"

fun chars :: "bool list \<Rightarrow> bytes" where
  "chars (a # b # c # d # e # r) = char5 [a, b, c, d, e] # chars r"
| "chars _ = []"

lemma length_bisect [simp]: "length (bisect lat lng n A B ev) = n"
  by (induction lat lng n A B ev rule: bisect.induct) (auto simp: Let_def)

lemma narrow_append: "narrow (xs @ ys) A B ev = (case narrow xs A B ev of (A', B', e) \<Rightarrow> narrow ys A' B' e)"
  by (induction xs A B ev rule: narrow.induct) auto

text \<open>One step of the loop as one bit; \<open>bits\<close> are those read since the last character.\<close>

definition acc :: "bool list \<Rightarrow> 32 word" where
  "acc bs = fold (\<lambda>b w. push_bit 1 w OR of_bool b) bs 0"

lemma acc_Nil [simp]: "acc [] = 0"
  by (simp add: acc_def)

lemma acc_snoc: "acc (bs @ [b]) = push_bit 1 (acc bs) OR of_bool b"
  by (simp add: acc_def)

lemma char5_acc: "etdb_geo_hash_char_map ! unat (acc [a, b, c, d, e]) = char5 [a, b, c, d, e]"
proof -
  have "unat (acc [a, b, c, d, e]) = fold (\<lambda>b n. 2 * n + of_bool b) [a, b, c, d, e] (0 :: nat)"
    by (cases a; cases b; cases c; cases d; cases e) (simp_all add: acc_def push_bit_eq_mult)
  then show ?thesis by (simp only: char5_def)
qed

definition next_bit :: "rat \<Rightarrow> rat \<Rightarrow> geo_interval \<Rightarrow> geo_interval \<Rightarrow> bool \<Rightarrow> bool" where
  "next_bit lat lng A B ev = (if ev then lng > (ilow B + ihigh B) / 2 else lat > (ilow A + ihigh A) / 2)"

definition next_lat :: "bool \<Rightarrow> geo_interval \<Rightarrow> bool \<Rightarrow> geo_interval" where
  "next_lat b A ev = (if ev then A else half b A)"

definition next_lng :: "bool \<Rightarrow> geo_interval \<Rightarrow> bool \<Rightarrow> geo_interval" where
  "next_lng b B ev = (if ev then half b B else B)"

lemma bisect_Suc: "bisect lat lng (Suc n) A B ev =
    (let b = next_bit lat lng A B ev in b # bisect lat lng n (next_lat b A ev) (next_lng b B ev) (\<not> ev))"
  by (simp add: Let_def next_bit_def next_lat_def next_lng_def)

lemma narrow_Cons: "narrow (b # bs) A B ev = narrow bs (next_lat b A ev) (next_lng b B ev) (\<not> ev)"
  by (simp add: next_lat_def next_lng_def)

lemma encode_step:
  assumes "i \<le> n" "b = next_bit lat lng A B ev"
  shows "encode_loop lat lng n i A B ev (acc bs) hash =
    (if i mod 5 = 0
     then encode_loop lat lng n (i + 1) (next_lat b A ev) (next_lng b B ev) (\<not> ev) 0
            (hash @ [etdb_geo_hash_char_map ! unat (acc (bs @ [b]))])
     else encode_loop lat lng n (i + 1) (next_lat b A ev) (next_lng b B ev) (\<not> ev) (acc (bs @ [b])) hash)"
  using assms by (subst encode_loop.simps)
    (auto simp: Let_def acc_snoc next_bit_def next_lat_def next_lng_def half_def)

lemma encode_five:
  fixes lat lng :: rat and A B :: geo_interval and ev :: bool
  assumes "i + 4 \<le> n" "i mod 5 = 1"
  defines "bs \<equiv> bisect lat lng 5 A B ev"
  shows "encode_loop lat lng n i A B ev 0 hash =
    (case narrow bs A B ev of (A', B', ev') \<Rightarrow> encode_loop lat lng n (i + 5) A' B' ev' 0 (hash @ [char5 bs]))"
proof -
  have m: "(i + 1) mod 5 \<noteq> 0" "(i + 1 + 1) mod 5 \<noteq> 0" "(i + 1 + 1 + 1) mod 5 \<noteq> 0"
    "(i + 1 + 1 + 1 + 1) mod 5 = 0" "i mod 5 \<noteq> 0" "i + 1 + 1 + 1 + 1 + 1 = i + 5"
    using assms(2) by presburger+
  define b1 where "b1 = next_bit lat lng A B ev"
  define A1 B1 where "A1 = next_lat b1 A ev" "B1 = next_lng b1 B ev"
  define b2 where "b2 = next_bit lat lng A1 B1 (\<not> ev)"
  define A2 B2 where "A2 = next_lat b2 A1 (\<not> ev)" "B2 = next_lng b2 B1 (\<not> ev)"
  define b3 where "b3 = next_bit lat lng A2 B2 ev"
  define A3 B3 where "A3 = next_lat b3 A2 ev" "B3 = next_lng b3 B2 ev"
  define b4 where "b4 = next_bit lat lng A3 B3 (\<not> ev)"
  define A4 B4 where "A4 = next_lat b4 A3 (\<not> ev)" "B4 = next_lng b4 B3 (\<not> ev)"
  define b5 where "b5 = next_bit lat lng A4 B4 ev"
  note ds = b1_def A1_B1_def b2_def A2_B2_def b3_def A3_B3_def b4_def A4_B4_def b5_def
  note fs = ds [symmetric]
  have "bisect lat lng (Suc (Suc (Suc (Suc (Suc 0))))) A B ev = [b1, b2, b3, b4, b5]"
    by (simp only: bisect_Suc bisect.simps(1) Let_def fs not_not)
  then have bs: "bs = [b1, b2, b3, b4, b5]" by (simp add: bs_def numeral_eq_Suc)
  have nw: "narrow bs A B ev = (next_lat b5 A4 ev, next_lng b5 B4 ev, \<not> ev)"
    by (simp only: bs narrow_Cons narrow.simps(1) fs not_not)
  have s1: "encode_loop lat lng n i A B ev (acc []) hash = encode_loop lat lng n (i + 1) A1 B1 (\<not> ev) (acc [b1]) hash"
    using encode_step [OF _ b1_def, of i n "[]" hash] assms(1) m by (simp add: fs)
  have s2: "encode_loop lat lng n (i + 1) A1 B1 (\<not> ev) (acc [b1]) hash =
      encode_loop lat lng n (i + 1 + 1) A2 B2 ev (acc [b1, b2]) hash"
    using encode_step [OF _ b2_def, of "i + 1" n "[b1]" hash] assms(1) m by (simp add: fs)
  have s3: "encode_loop lat lng n (i + 1 + 1) A2 B2 ev (acc [b1, b2]) hash =
      encode_loop lat lng n (i + 1 + 1 + 1) A3 B3 (\<not> ev) (acc [b1, b2, b3]) hash"
    using encode_step [OF _ b3_def, of "i + 1 + 1" n "[b1, b2]" hash] assms(1) m by (simp add: fs)
  have s4: "encode_loop lat lng n (i + 1 + 1 + 1) A3 B3 (\<not> ev) (acc [b1, b2, b3]) hash =
      encode_loop lat lng n (i + 1 + 1 + 1 + 1) A4 B4 ev (acc [b1, b2, b3, b4]) hash"
    using encode_step [OF _ b4_def, of "i + 1 + 1 + 1" n "[b1, b2, b3]" hash] assms(1) m by (simp add: fs)
  have s5: "encode_loop lat lng n (i + 1 + 1 + 1 + 1) A4 B4 ev (acc [b1, b2, b3, b4]) hash =
      encode_loop lat lng n (i + 1 + 1 + 1 + 1 + 1) (next_lat b5 A4 ev) (next_lng b5 B4 ev) (\<not> ev) 0
        (hash @ [char5 bs])"
    using encode_step [OF _ b5_def, of "i + 1 + 1 + 1 + 1" n "[b1, b2, b3, b4]" hash] assms(1) m
      char5_acc [of b1 b2 b3 b4 b5] bs by simp
  show ?thesis
    using s1 unfolding acc_Nil by (simp only: s2 s3 s4 s5 nw prod.case m(6))
qed

lemma bisect_add:
  "bisect lat lng (m + n) A B ev = bisect lat lng m A B ev @
    (case narrow (bisect lat lng m A B ev) A B ev of (A', B', e) \<Rightarrow> bisect lat lng n A' B' e)"
  by (induction lat lng m A B ev rule: bisect.induct) (auto simp: Let_def)

lemma chars_append: "length xs = 5 \<Longrightarrow> chars (xs @ ys) = char5 xs # chars ys"
  by (auto simp: numeral_eq_Suc length_Suc_conv)

lemma encode_chars:
  assumes "i mod 5 = 1"
  shows "encode_loop lat lng (i + 5 * m - 1) i A B ev 0 hash = hash @ chars (bisect lat lng (5 * m) A B ev)"
  using assms
proof (induction m arbitrary: i A B ev hash)
  case 0
  then have "0 < i" by (cases i) auto
  then have "\<not> i \<le> i + 5 * 0 - 1" by simp
  then show ?case by (subst encode_loop.simps) (simp only: if_False, simp)
next
  case (Suc m)
  let ?bs = "bisect lat lng 5 A B ev"
  obtain A' B' ev' where n: "narrow ?bs A B ev = (A', B', ev')" by (cases "narrow ?bs A B ev")
  have i0: "0 < i" using Suc.prems by presburger
  have i5: "(i + 5) mod 5 = 1" using Suc.prems by presburger
  note i = i0 i5
  have "encode_loop lat lng (i + 5 * Suc m - 1) i A B ev 0 hash =
      encode_loop lat lng (i + 5 * Suc m - 1) (i + 5) A' B' ev' 0 (hash @ [char5 ?bs])"
    using encode_five [of i "i + 5 * Suc m - 1" lat lng A B ev hash] Suc.prems i n by simp
  also have "\<dots> = encode_loop lat lng ((i + 5) + 5 * m - 1) (i + 5) A' B' ev' 0 (hash @ [char5 ?bs])"
    by simp
  also have "\<dots> = (hash @ [char5 ?bs]) @ chars (bisect lat lng (5 * m) A' B' ev')"
    by (rule Suc.IH [OF i(2)])
  also have "\<dots> = hash @ chars (bisect lat lng (5 + 5 * m) A B ev)"
    using n chars_append [of ?bs] by (simp only: bisect_add length_bisect prod.case) simp
  finally show ?case by simp
qed

lemma bits_of_char5:
  "map (\<lambda>j. push_bit j (word_of_int (etdb_geo_hash_index_for_char (char5 [a, b, c, d, e])
      etdb_geo_hash_char_map) :: 32 word) AND 16 \<noteq> 0) [0, 1, 2, 3, 4] = [a, b, c, d, e]"
  by (cases a; cases b; cases c; cases d; cases e)
    (simp_all add: char5_def etdb_geo_hash_index_for_char_def etdb_geo_hash_char_map_def push_bit_eq_mult)

lemma half_delta:
  "I\<lparr>ilow := ilow I + (ihigh I - ilow I) / 2\<rparr> = half True I"
  "I\<lparr>ihigh := ihigh I - (ihigh I - ilow I) / 2\<rparr> = half False I"
  by (cases I; simp add: half_def field_simps)+

lemma decode_bits_narrow:
  "decode_bits idx js A B ev = narrow (map (\<lambda>j. push_bit j idx AND 16 \<noteq> 0) js) A B ev"
  by (induction js arbitrary: A B ev) (auto simp: Let_def half_delta)

lemma decode_chars:
  assumes "length bs mod 5 = 0"
  shows "decode_loop (chars bs) A B ev = narrow bs A B ev"
  using assms
proof (induction bs arbitrary: A B ev rule: chars.induct)
  case (1 a b c d e r)
  then have r: "length r mod 5 = 0" by simp
  obtain A' B' ev' where n: "narrow [a, b, c, d, e] A B ev = (A', B', ev')"
    by (cases "narrow [a, b, c, d, e] A B ev")
  have "decode_loop (chars (a # b # c # d # e # r)) A B ev = decode_loop (chars r) A' B' ev'"
    unfolding chars.simps decode_loop.simps Let_def decode_bits_narrow bits_of_char5 n by simp
  also have "\<dots> = narrow r A' B' ev'" by (rule 1(1) [OF r])
  also have "\<dots> = narrow ([a, b, c, d, e] @ r) A B ev"
    by (simp only: narrow_append n prod.case)
  finally show ?case by (simp only: append.simps)
qed auto

section \<open>Encoding and decoding\<close>

definition inside :: "rat \<Rightarrow> geo_interval \<Rightarrow> bool" where
  "inside x I \<longleftrightarrow> ilow I \<le> x \<and> x \<le> ihigh I"

lemma half_inside:
  "inside x I \<Longrightarrow> inside x (half (x > (ilow I + ihigh I) / 2) I)"
  by (auto simp: inside_def half_def Let_def)

lemma half_width: "ihigh (half b I) - ilow (half b I) = (ihigh I - ilow I) / 2"
  by (simp add: half_def Let_def field_simps)

lemma half_inside':
  "inside x I \<Longrightarrow> inside x (half (ilow I + ihigh I < x * 2) I)"
  using half_inside [of x I] by simp

lemma halve_half: "halve n (x / 2) = halve n x / 2"
  by (induction n arbitrary: x) (simp_all only: halve.simps)

lemma narrow_bisect_inside:
  assumes "narrow (bisect lat lng n A B ev) A B ev = (A', B', e)" "inside lat A" "inside lng B"
  shows "inside lat A' \<and> inside lng B'"
  using assms
  by (induction lat lng n A B ev rule: bisect.induct) (auto simp: Let_def half_inside' split: if_splits)

lemma narrow_width:
  assumes "narrow bs A B ev = (A', B', e)"
  shows "ihigh A' - ilow A' = halve ((length bs + of_bool (\<not> ev)) div 2) (ihigh A - ilow A) \<and>
    ihigh B' - ilow B' = halve ((length bs + of_bool ev) div 2) (ihigh B - ilow B)"
  using assms
proof (induction bs A B ev rule: narrow.induct)
  case (2 b bs A B ev)
  then show ?case by (cases ev) (simp_all add: half_width halve_half)
qed simp

lemma div5_same: "i mod 5 \<noteq> 0 \<Longrightarrow> (i - 1) div 5 = (i + 1 - 1) div (5 :: nat)"
  by (cases i) (simp_all add: div_Suc)

lemma div5_step: "0 < i \<Longrightarrow> i mod 5 = 0 \<Longrightarrow> (i - 1) div 5 + 1 = (i + 1 - 1) div (5 :: nat)"
  by (cases i) (simp_all add: div_Suc)

lemma odd_cut: "(5 * k + 1) div 2 = 5 * k div 2 + (if k mod 2 \<noteq> 0 then 1 else 0)" for k :: nat
  by presburger

lemma length_chars: "length (chars bs) = length bs div 5"
  by (induction bs rule: chars.induct) auto

lemma encode_is_chars:
  assumes "1 \<le> p" "p \<le> 12" "-90 \<le> lat" "lat \<le> 90" "-180 \<le> lng" "lng \<le> 180"
  shows "etdb_geo_hash_encode lat lng p =
    chars (bisect lat lng (5 * nat p) \<lparr>ihigh = 90, ilow = -90\<rparr> \<lparr>ihigh = 180, ilow = -180\<rparr> True)"
proof -
  have "nat (p * 5) = 1 + 5 * nat p - 1" using assms(1) by (simp add: nat_mult_distrib)
  then show ?thesis
    using assms encode_chars [of 1 lat lng "nat p" "\<lparr>ihigh = 90, ilow = -90\<rparr>" "\<lparr>ihigh = 180, ilow = -180\<rparr>" True "[]"]
    by (simp add: etdb_geo_hash_encode_def Let_def)
qed

lemma char5_nonzero: "char5 [a, b, c, d, e] \<noteq> 0"
  by (cases a; cases b; cases c; cases d; cases e; simp add: char5_def etdb_geo_hash_char_map_def)

lemma chars_nonzero: "0 \<notin> set (chars bs)"
  by (induction bs rule: chars.induct) (auto simp: char5_nonzero [symmetric] dest: sym)

lemma encode_shape:
  assumes "1 \<le> p" "p \<le> 12" "-90 \<le> lat" "lat \<le> 90" "-180 \<le> lng" "lng \<le> 180"
  shows "length (etdb_geo_hash_encode lat lng p) = nat p" "0 \<notin> set (etdb_geo_hash_encode lat lng p)"
  unfolding encode_is_chars [OF assms] by (simp_all add: length_chars chars_nonzero)

text \<open>
  C33: the box that \<open>etdb_geo_hash_decode\<close> gives for a geohash contains the point that was
  encoded, and has the dimensions \<open>etdb_geo_hash_dimensions_for_precision\<close> promises.
\<close>

theorem etdb_geo_hash_decode_encode:
  assumes "1 \<le> p" "p \<le> 12" "-90 \<le> lat" "lat \<le> 90" "-180 \<le> lng" "lng \<le> 180"
  defines "h \<equiv> etdb_geo_hash_encode lat lng p"
  shows "south (etdb_geo_hash_decode h) \<le> lat \<and> lat \<le> north (etdb_geo_hash_decode h) \<and>
    west (etdb_geo_hash_decode h) \<le> lng \<and> lng \<le> east (etdb_geo_hash_decode h) \<and>
    north (etdb_geo_hash_decode h) - south (etdb_geo_hash_decode h) =
      height (etdb_geo_hash_dimensions_for_precision p) \<and>
    east (etdb_geo_hash_decode h) - west (etdb_geo_hash_decode h) =
      width (etdb_geo_hash_dimensions_for_precision p) \<and> int (length h) = p"
proof -
  let ?A = "\<lparr>ihigh = 90, ilow = -90\<rparr> :: geo_interval" and ?B = "\<lparr>ihigh = 180, ilow = -180\<rparr> :: geo_interval"
  let ?m = "nat p"
  let ?bs = "bisect lat lng (5 * ?m) ?A ?B True"
  have h: "h = chars ?bs" unfolding h_def by (rule encode_is_chars [OF assms(1-6)])
  obtain A' B' e where nw: "narrow ?bs ?A ?B True = (A', B', e)" by (cases "narrow ?bs ?A ?B True")
  have dl: "decode_loop h ?A ?B True = (A', B', e)"
    unfolding h using decode_chars [of ?bs ?A ?B True] nw by simp
  have len: "length h = ?m" by (simp add: h length_chars)
  then have "h \<noteq> []" using assms(1) by auto
  then have d: "north (etdb_geo_hash_decode h) = ihigh A'" "south (etdb_geo_hash_decode h) = ilow A'"
    "east (etdb_geo_hash_decode h) = ihigh B'" "west (etdb_geo_hash_decode h) = ilow B'"
    by (simp_all add: etdb_geo_hash_decode_def dl)
  have "inside lat A' \<and> inside lng B'"
    using assms(3-6) by (intro narrow_bisect_inside [OF nw]) (simp_all add: inside_def)
  moreover have "ihigh A' - ilow A' = halve (5 * ?m div 2) 180"
    "ihigh B' - ilow B' = halve ((5 * ?m + 1) div 2) 360"
    using narrow_width [OF nw] by simp_all
  moreover have p5: "p * 5 div 2 = int (5 * ?m div 2)"
    using assms(1) by (simp add: zdiv_int)
  then have "nat (p * 5 div 2) = 5 * ?m div 2" by simp
  moreover have "(5 * ?m + 1) div 2 = 5 * ?m div 2 + (if ?m mod 2 \<noteq> 0 then 1 else 0)"
    by (rule odd_cut)
  moreover have "?m mod 2 \<noteq> 0 \<longleftrightarrow> p mod 2 \<noteq> 0"
    using assms(1) by (metis even_iff_mod_2_eq_zero even_nat_iff order_trans zero_le_one)
  ultimately have lng_cut: "nat (p * 5 div 2 + (if p mod 2 \<noteq> 0 then 1 else 0)) = (5 * ?m + 1) div 2"
    using p5 by (simp add: nat_add_distrib)
  have lat_cut: "nat (p * 5 div 2) = 5 * ?m div 2" using p5 by simp
  have "inside lat A' \<and> inside lng B'"
    using assms(3-6) by (intro narrow_bisect_inside [OF nw]) (simp_all add: inside_def)
  moreover have "ihigh A' - ilow A' = halve (5 * ?m div 2) 180"
    "ihigh B' - ilow B' = halve ((5 * ?m + 1) div 2) 360"
    using narrow_width [OF nw] by simp_all
  moreover note lng_cut lat_cut
  ultimately show ?thesis
    using assms(1) d len by (simp add: inside_def etdb_geo_hash_dimensions_for_precision_def Let_def)
qed

theorem etdb_geo_hash_decode_encode_witness:
  "south (etdb_geo_hash_decode (etdb_geo_hash_encode 31 121 9)) \<le> 31 \<and>
   31 \<le> north (etdb_geo_hash_decode (etdb_geo_hash_encode 31 121 9))"
  using etdb_geo_hash_decode_encode [of 9 31 121] by simp

section \<open>The cover of a rectangle\<close>

lemma encode_loop_extends: "\<exists>zs. encode_loop lat lng n i A B ev hc hash = hash @ zs"
proof (induction lat lng n i A B ev hc hash rule: encode_loop.induct)
  case (1 lat lng n i A B ev hc hash)
  show ?case
  proof (cases "i \<le> n")
    case False
    then show ?thesis by (subst encode_loop.simps) simp
  next
    case True
    note IH1 = 1(1) [OF True refl refl refl refl refl refl refl refl]
    note IH2 = 1(2) [OF True refl refl refl refl refl refl refl refl]
    show ?thesis
    proof (cases "i mod 5 = 0")
      case t: True
      from IH1 [OF t] show ?thesis
        using True t by (subst encode_loop.simps) (simp only: if_True Let_def, metis append.assoc)
    next
      case f: False
      from IH2 [OF f] show ?thesis
        using True f by (subst encode_loop.simps) (simp only: if_True if_False Let_def)
    qed
  qed
qed

definition next_char :: "bool \<Rightarrow> 32 word \<Rightarrow> 32 word" where
  "next_char b hc = (if b then push_bit 1 hc OR 1 else push_bit 1 hc)"

lemma encode_loop_step:
  assumes "i \<le> n" "next_bit lat lng A B ev = b"
  shows "encode_loop lat lng n i A B ev hc hash =
    (if i mod 5 = 0
     then encode_loop lat lng n (i + 1) (next_lat b A ev) (next_lng b B ev) (\<not> ev) 0
            (hash @ [etdb_geo_hash_char_map ! unat (next_char b hc)])
     else encode_loop lat lng n (i + 1) (next_lat b A ev) (next_lng b B ev) (\<not> ev) (next_char b hc) hash)"
  using assms by (subst encode_loop.simps)
    (auto simp: Let_def next_char_def next_bit_def next_lat_def next_lng_def half_def)

definition range_mid :: "geo_interval \<Rightarrow> geo_interval \<Rightarrow> bool \<Rightarrow> rat" where
  "range_mid A B ev = (if ev then (ilow B + ihigh B) / 2 else (ilow A + ihigh A) / 2)"

lemma cover_loop_step:
  assumes "i \<le> n" "R = (if ev then LB else LA)" "ilow R > range_mid A B ev \<longleftrightarrow> b"
    "b \<or> ihigh R < range_mid A B ev"
  shows "cover_loop LA LB n i A B ev hc hash prec =
    (if i mod 5 = 0
     then cover_loop LA LB n (i + 1) (next_lat b A ev) (next_lng b B ev) (\<not> ev) 0
            (hash @ [etdb_geo_hash_char_map ! unat (next_char b hc)]) (int ((i - 1) div 5 + 1))
     else cover_loop LA LB n (i + 1) (next_lat b A ev) (next_lng b B ev) (\<not> ev) (next_char b hc) hash prec)"
  using assms by (subst cover_loop.simps)
    (auto simp: Let_def next_char_def range_mid_def next_lat_def next_lng_def half_def)

lemma cover_loop_stop:
  assumes "\<not> (i \<le> n \<and> (ilow (if ev then LB else LA) > range_mid A B ev \<or>
      ihigh (if ev then LB else LA) < range_mid A B ev))"
  shows "cover_loop LA LB n i A B ev hc hash prec = (hash, prec)"
  using assms by (subst cover_loop.simps) (auto simp: Let_def range_mid_def)

text \<open>The cover follows the bisection of every point of the rectangle until it stops.\<close>

lemma cover_prefix:
  assumes "inside lat LA" "inside lng LB" "length hash = (i - 1) div 5" "0 < i"
    "cover_loop LA LB n i A B ev hc hash prec = (h, q)"
  shows "(\<exists>zs. encode_loop lat lng n i A B ev hc hash = h @ zs) \<and> length hash \<le> length h \<and>
    q = (if length h = length hash then prec else int (length h))"
  using assms(3-)
proof (induction "Suc n - i" arbitrary: i A B ev hc hash prec rule: less_induct)
  case less
  let ?R = "if ev then LB else LA"
  show ?case
  proof (cases "i \<le> n \<and> (ilow ?R > range_mid A B ev \<or> ihigh ?R < range_mid A B ev)")
    case False
    then have "h = hash" "q = prec"
      using cover_loop_stop [OF False, of hc hash prec] less.prems(3) by simp_all
    then show ?thesis using encode_loop_extends by simp
  next
    case True
    define b where "b \<longleftrightarrow> ilow ?R > range_mid A B ev"
    have nb: "next_bit lat lng A B ev = b"
      using True assms(1,2) by (auto simp: inside_def next_bit_def range_mid_def b_def)
    have le: "i \<le> n" and br: "b \<or> ihigh ?R < range_mid A B ev" using True by (simp_all add: b_def)
    note e = encode_loop_step [OF le nb, of hc hash]
    note c = cover_loop_step [OF le refl b_def [symmetric] br, of hc hash prec]
    let ?h = "hash @ [etdb_geo_hash_char_map ! unat (next_char b hc)]"
    have dec: "Suc n - (i + 1) < Suc n - i" and pos: "0 < i + 1" using le by simp_all
    show ?thesis
    proof (cases "i mod 5 = 0")
      case t: True
      then have "(i - 1) div 5 + 1 = (i + 1 - 1) div 5"
        by (rule div5_step [OF less.prems(2)])
      then have l: "length ?h = (i + 1 - 1) div 5" "(i - 1) div 5 + 1 = length ?h"
        using less.prems(1) by simp_all
      have r: "(\<exists>zs. encode_loop lat lng n (i + 1) (next_lat b A ev) (next_lng b B ev) (\<not> ev) 0 ?h = h @ zs) \<and>
          length ?h \<le> length h \<and> q = (if length h = length ?h then int (length ?h) else int (length h))"
        using less.prems(3) unfolding c l(2) if_P [OF t] by (rule less.hyps [OF dec l(1) pos])
      have L: "length hash < length h" using r [THEN conjunct2, THEN conjunct1] by simp
      have Q: "q = int (length h)" using r [THEN conjunct2, THEN conjunct2] by presburger
      show ?thesis unfolding e if_P [OF t]
        using r [THEN conjunct1] L Q by (intro conjI) (assumption, simp_all)
    next
      case f: False
      then have "(i - 1) div 5 = (i + 1 - 1) div 5"
        by (rule div5_same)
      then have l: "length hash = (i + 1 - 1) div 5"
        using less.prems(1) by simp
      have r: "(\<exists>zs. encode_loop lat lng n (i + 1) (next_lat b A ev) (next_lng b B ev) (\<not> ev)
            (next_char b hc) hash = h @ zs) \<and>
          length hash \<le> length h \<and> q = (if length h = length hash then prec else int (length h))"
        using less.prems(3) unfolding c if_not_P [OF f] by (rule less.hyps [OF dec l pos])
      show ?thesis unfolding e if_not_P [OF f] by (rule r)
    qed
  qed
qed

lemma max_cover_prefix:
  assumes "1 \<le> p" "p \<le> 12" "lat1 \<le> lat" "lat \<le> lat2" "lng1 \<le> lng" "lng \<le> lng2"
    "-90 \<le> lat" "lat \<le> 90" "-180 \<le> lng" "lng \<le> 180"
    "etdb_geo_hash_get_max_cover lat1 lat2 lng1 lng2 p = (h, q)"
  shows "take (length h) (etdb_geo_hash_encode lat lng p) = h \<and>
    (h \<noteq> [] \<longrightarrow> q = int (length h)) \<and> (h = [] \<longrightarrow> q = p)"
proof -
  let ?A = "\<lparr>ihigh = 90, ilow = -90\<rparr> :: geo_interval" and ?B = "\<lparr>ihigh = 180, ilow = -180\<rparr> :: geo_interval"
  have "cover_loop \<lparr>ihigh = lat2, ilow = lat1\<rparr> \<lparr>ihigh = lng2, ilow = lng1\<rparr> (nat (p * 5)) 1
      ?A ?B True 0 [] p = (h, q)"
    using assms(3-6,11) by (simp add: etdb_geo_hash_get_max_cover_def)
  from cover_prefix [OF _ _ _ _ this, of lat lng] assms(3-6)
  obtain zs where "encode_loop lat lng (nat (p * 5)) 1 ?A ?B True 0 [] = h @ zs"
    "q = (if h = [] then p else int (length h))"
    by (auto simp: inside_def)
  moreover have "etdb_geo_hash_encode lat lng p = encode_loop lat lng (nat (p * 5)) 1 ?A ?B True 0 []"
    using assms(1,2,7-10) by (simp add: etdb_geo_hash_encode_def)
  ultimately show ?thesis by simp
qed

text \<open>
  C34: \<open>etdb_geo_hash_get_max_cover\<close> yields a prefix of the geohash of every point of the
  rectangle, so a prefix search for it misses none of them; \<open>*precision\<close> is its length when at
  least one character is common, and is left at its old value otherwise.
\<close>

theorem etdb_geo_hash_max_cover_prefix:
  assumes "1 \<le> p" "p \<le> 12" "lat1 \<le> lat" "lat \<le> lat2" "lng1 \<le> lng" "lng \<le> lng2"
    "-90 \<le> lat" "lat \<le> 90" "-180 \<le> lng" "lng \<le> 180"
    "etdb_geo_hash_get_max_cover lat1 lat2 lng1 lng2 p = (h, q)"
  shows "take (length h) (etdb_geo_hash_encode lat lng p) = h \<and>
    (h \<noteq> [] \<longrightarrow> q = int (length h)) \<and> (h = [] \<longrightarrow> q = p)"
  by (rule max_cover_prefix [OF assms])

theorem etdb_geo_hash_max_cover_prefix_witness:
  "\<exists>h q. etdb_geo_hash_get_max_cover 30 32 120 122 9 = (h, q) \<and>
     take (length h) (etdb_geo_hash_encode 31 121 9) = h"
proof -
  obtain h q where "etdb_geo_hash_get_max_cover 30 32 120 122 9 = (h, q)" by fastforce
  with etdb_geo_hash_max_cover_prefix [OF _ _ _ _ _ _ _ _ _ _ this, of 31 121] show ?thesis by auto
qed

text \<open>
  A rectangle that crosses the first bisection has no common character; \<open>*precision\<close> then
  stays at 9 although no character of \<open>hash\<close> was written, and the caller searches for nine
  zero bytes.
\<close>

theorem etdb_geo_hash_max_cover_none:
  assumes "lat1 \<le> lat2" "lng1 \<le> 0" "0 \<le> lng2" "1 \<le> p"
  shows "etdb_geo_hash_get_max_cover lat1 lat2 lng1 lng2 p = ([], p)"
  using assms by (simp add: etdb_geo_hash_get_max_cover_def cover_loop_stop range_mid_def)

theorem etdb_geo_hash_max_cover_none_witness:
  "etdb_geo_hash_get_max_cover 10 20 (-5) 5 9 = ([], 9)"
  by (rule etdb_geo_hash_max_cover_none) simp_all

end
