(* ===== verification/Database.thy ===== *)
theory Database
  imports Trie_Model Lists Geo
begin

text \<open>
  The data model of \<open>src/etdb_database.c\<close>: sixteen tries from encoded keys to the addresses of
  values on the heap, and one group of operations per type of value.

  \<^item> the heap extends the heap of lists (theory \<open>Lists\<close>) by the two other kinds of value, the
    bytes behind an \<open>etdb_value_head_t\<close> and the \<open>etdb_value_sp_head_t\<close> of a spatial point; an
    address is the integer stored in the trie;
  \<^item> writing the type byte in front of a key inside the request buffer is prepending it;
  \<^item> \<^term>\<open>None\<close> means that a loop of the trie does not end; otherwise the result is the code
    returned, with what the operation stores through its pointers, and the database.
\<close>

record value_head =
  vtype :: byte
  vsize :: "24 word"

record sp_head =
  sp_type :: byte
  lat_d :: rat
  lon_d :: rat
  geo_hash_code :: bytes
  indexed_len :: "6 word"
  ref :: "2 word"

record dheap = lheap +
  vhead :: "addr \<Rightarrow> value_head"
  vbody :: "addr \<Rightarrow> bytes"
  vsp :: "addr \<Rightarrow> sp_head"

record etdb_database =
  tries :: "int \<Rightarrow> trie"
  heap :: dheap

definition ETDB_DATABASE_MAX_SLOT :: int where "ETDB_DATABASE_MAX_SLOT = 16"
definition TYPE_KV :: byte where "TYPE_KV = 1"
definition TYPE_HASH :: byte where "TYPE_HASH = 2"
definition TYPE_SET :: byte where "TYPE_SET = 3"
definition TYPE_LIST :: byte where "TYPE_LIST = 4"
definition TYPE_SPATIAL_POINT :: byte where "TYPE_SPATIAL_POINT = 5"
definition ETDB_GEO_HASH_PRECISION_LEN :: nat where "ETDB_GEO_HASH_PRECISION_LEN = 9"
definition ETDB_KV_HEAD :: byte where "ETDB_KV_HEAD = 48"
definition ETDB_HASH_HEAD :: byte where "ETDB_HASH_HEAD = 49"
definition ETDB_SET_HEAD :: byte where "ETDB_SET_HEAD = 50"
definition ETDB_LIST_HEAD :: byte where "ETDB_LIST_HEAD = 51"
definition ETDB_SPATIAL_POINT_HEAD1 :: byte where "ETDB_SPATIAL_POINT_HEAD1 = 97"
definition ETDB_SPATIAL_POINT_HEAD2 :: byte where "ETDB_SPATIAL_POINT_HEAD2 = 98"

section \<open>Access\<close>

definition put_trie :: "int \<Rightarrow> trie \<Rightarrow> etdb_database \<Rightarrow> etdb_database" where
  "put_trie sl t db = db\<lparr>tries := (tries db)(sl := t)\<rparr>"

definition put_heap :: "dheap \<Rightarrow> etdb_database \<Rightarrow> etdb_database" where
  "put_heap m db = db\<lparr>heap := m\<rparr>"

text \<open>The loop over the slots of a fresh database.\<close>

fun init_slots :: "nat \<Rightarrow> nat \<Rightarrow> (int \<Rightarrow> trie) \<Rightarrow> (int \<Rightarrow> trie)" where
  "init_slots cnt 0 ts = ts"
| "init_slots cnt (Suc n) ts = init_slots (cnt + 1) n (ts(int cnt := etdb_trie_init (ts (int cnt))))"

definition etdb_database_init :: "etdb_database option \<Rightarrow> etdb_database \<Rightarrow> int \<times> etdb_database" where
  "etdb_database_init db raw =
     (case db of
        None \<Rightarrow> (0, raw\<lparr>tries := init_slots 0 (nat ETDB_DATABASE_MAX_SLOT) (tries raw)\<rparr>)
      | Some d \<Rightarrow> (0, d))"

text \<open>A value head with its bytes, \<open>memcpy(head + 1, value->data, value->len)\<close>.\<close>

definition new_value ::
    "(addr set \<Rightarrow> addr) \<Rightarrow> byte \<Rightarrow> bytes \<Rightarrow> etdb_database \<Rightarrow> etdb_database \<times> addr" where
  "new_value alloc ty value db =
     (let (m, a) = etdb_alloc alloc (heap db);
          m = m\<lparr>vhead := (vhead m)(a := \<lparr>vtype = ty, vsize = of_nat (length value)\<rparr>),
                vbody := (vbody m)(a := value)\<rparr>
      in (put_heap m db, a))"

text \<open>What a reader of a value sees: \<open>head->size\<close> bytes behind the head.\<close>

definition value_bytes :: "dheap \<Rightarrow> addr \<Rightarrow> bytes" where
  "value_bytes m a = take (unat (vsize (vhead m a))) (vbody m a)"

definition free_value :: "addr \<Rightarrow> etdb_database \<Rightarrow> etdb_database" where
  "free_value a db = put_heap (etdb_free a (heap db)) db"

section \<open>Keys and values\<close>

definition encode_kv_head :: "bytes \<Rightarrow> bytes" where
  "encode_kv_head key = ETDB_KV_HEAD # key"

definition etdb_database_kv_set ::
    "(addr set \<Rightarrow> addr) \<Rightarrow> int \<Rightarrow> bytes \<Rightarrow> bytes \<Rightarrow> etdb_database \<Rightarrow> (int \<times> etdb_database) option" where
  "etdb_database_kv_set alloc sl key value db =
     (let (db, a) = new_value alloc TYPE_KV value db
      in map_option (\<lambda>(t, old).
             if old < 0 then (-1, free_value a (put_trie sl t db)) else (0, put_trie sl t db))
           (etdb_trie_update (tries db sl) (encode_kv_head key) a))"

definition etdb_database_kv_get :: "int \<Rightarrow> bytes \<Rightarrow> etdb_database \<Rightarrow> int \<times> bytes" where
  "etdb_database_kv_get sl key db =
     (let p = etdb_trie_exact_match_search (tries db sl) (encode_kv_head key)
      in if p < 0 then (-1, []) else (0, value_bytes (heap db) p))"

definition etdb_database_kv_del ::
    "int \<Rightarrow> bytes \<Rightarrow> etdb_database \<Rightarrow> (int \<times> etdb_database) option" where
  "etdb_database_kv_del sl key db =
     map_option (\<lambda>(t, p).
         if p < 0 then (-1, put_trie sl t db) else (0, free_value p (put_trie sl t db)))
       (etdb_trie_erase (tries db sl) (encode_kv_head key))"

text \<open>The code, the match length and the value; \<open>--(*match_len)\<close> drops the type byte.\<close>

definition etdb_database_kv_match_longest ::
    "int \<Rightarrow> bytes \<Rightarrow> etdb_database \<Rightarrow> int \<times> nat option \<times> bytes" where
  "etdb_database_kv_match_longest sl key db =
     (let (p, match_len) = etdb_trie_match_longest_search (tries db sl) (encode_kv_head key)
      in if p < 0 then (-1, match_len, [])
         else (0, map_option (\<lambda>n. n - 1) match_len, value_bytes (heap db) p))"

section \<open>Hashes\<close>

text \<open>
  The macro copies \<open>pos\<close> bytes of the name, from its end, in front of the key, then the length
  of the name and the type. \<open>pos\<close> is initialised with 0.
\<close>

definition encode_hash_head :: "bytes \<Rightarrow> bytes \<Rightarrow> bytes" where
  "encode_hash_head name key =
     (let pos = 0 in ETDB_HASH_HEAD # of_nat (length name) # drop (length name - pos) name @ key)"

definition etdb_database_hash_set ::
    "(addr set \<Rightarrow> addr) \<Rightarrow> int \<Rightarrow> bytes \<Rightarrow> bytes \<Rightarrow> bytes \<Rightarrow> etdb_database \<Rightarrow> (int \<times> etdb_database) option" where
  "etdb_database_hash_set alloc sl hash_name key value db =
     (let (db, a) = new_value alloc TYPE_HASH value db
      in map_option (\<lambda>(t, old).
             if old < 0 then (-1, free_value a (put_trie sl t db)) else (0, put_trie sl t db))
           (etdb_trie_update (tries db sl) (encode_hash_head hash_name key) a))"

definition etdb_database_hash_get :: "int \<Rightarrow> bytes \<Rightarrow> bytes \<Rightarrow> etdb_database \<Rightarrow> int \<times> bytes" where
  "etdb_database_hash_get sl hash_name key db =
     (let p = etdb_trie_exact_match_search (tries db sl) (encode_hash_head hash_name key)
      in if p < 0 then (-1, []) else (0, value_bytes (heap db) p))"

definition etdb_database_hash_del ::
    "int \<Rightarrow> bytes \<Rightarrow> bytes \<Rightarrow> etdb_database \<Rightarrow> (int \<times> etdb_database) option" where
  "etdb_database_hash_del sl hash_name key db =
     map_option (\<lambda>(t, p).
         if p < 0 then (-1, put_trie sl t db) else (0, free_value p (put_trie sl t db)))
       (etdb_trie_erase (tries db sl) (encode_hash_head hash_name key))"

section \<open>Sets\<close>

definition encode_set_head :: "bytes \<Rightarrow> bytes \<Rightarrow> bytes" where
  "encode_set_head name key =
     (let pos = 0 in ETDB_SET_HEAD # of_nat (length name) # drop (length name - pos) name @ key)"

definition etdb_database_set_add ::
    "int \<Rightarrow> bytes \<Rightarrow> bytes \<Rightarrow> etdb_database \<Rightarrow> (int \<times> etdb_database) option" where
  "etdb_database_set_add sl set_name key db =
     map_option (\<lambda>(t, old). (if old < 0 then -1 else 0, put_trie sl t db))
       (etdb_trie_update (tries db sl) (encode_set_head set_name key) 1)"

definition etdb_database_set_del ::
    "int \<Rightarrow> bytes \<Rightarrow> bytes \<Rightarrow> etdb_database \<Rightarrow> (int \<times> etdb_database) option" where
  "etdb_database_set_del sl set_name key db =
     map_option (\<lambda>(t, p). (if p < 0 then -1 else 0, put_trie sl t db))
       (etdb_trie_erase (tries db sl) (encode_set_head set_name key))"

definition etdb_database_set_members :: "int \<Rightarrow> bytes \<Rightarrow> etdb_database \<Rightarrow> (int \<times> bytes list) option" where
  "etdb_database_set_members sl set_name db =
     map_option (\<lambda>(_, res). (0, map fst res))
       (etdb_trie_common_prefix_path_search (tries db sl) (encode_set_head set_name []) [] [])"

definition etdb_database_set_ismember :: "int \<Rightarrow> bytes \<Rightarrow> bytes \<Rightarrow> etdb_database \<Rightarrow> int" where
  "etdb_database_set_ismember sl set_name key db =
     (let p = etdb_trie_exact_match_search (tries db sl) (encode_set_head set_name key)
      in if p < 0 then 0 else 1)"

section \<open>Lists\<close>

definition encode_list_head :: "bytes \<Rightarrow> bytes" where
  "encode_list_head key = ETDB_LIST_HEAD # key"

text \<open>
  \<open>v_head->type = TYPE_LIST\<close> on a list head: the type byte is the low byte of the \<open>size\<close> of
  the head node.
\<close>

definition set_list_type :: "addr \<Rightarrow> dheap \<Rightarrow> dheap" where
  "set_list_type a m = put_size a ((lsize m a AND (-256)) OR ucast TYPE_LIST) m"

definition etdb_database_list_push ::
    "((addr set \<Rightarrow> addr) \<Rightarrow> addr \<Rightarrow> bytes \<Rightarrow> dheap \<Rightarrow> dheap) \<Rightarrow>
     (addr set \<Rightarrow> addr) \<Rightarrow> int \<Rightarrow> bytes \<Rightarrow> bytes \<Rightarrow> etdb_database \<Rightarrow> (int \<times> etdb_database) option" where
  "etdb_database_list_push push alloc sl list_name value db =
     (let p = etdb_trie_exact_match_search (tries db sl) (encode_list_head list_name)
      in if p < 0 then
           let (m1, head) = etdb_list_new alloc (heap db);
               m2 = set_list_type head m1;
               m3 = push alloc head value m2
           in Option.bind (etdb_trie_update (tries db sl) (encode_list_head list_name) head)
                (\<lambda>(t, old).
                   let db = put_heap m3 (put_trie sl t db) in
                   if old < 0 then
                     map_option (\<lambda>freed. (-1, put_heap (fold etdb_free freed m3) db)) (etdb_queue_free m3 head)
                   else Some (0, db))
         else Some (0, put_heap (push alloc p value (heap db)) db))"

definition etdb_database_list_lpush ::
    "(addr set \<Rightarrow> addr) \<Rightarrow> int \<Rightarrow> bytes \<Rightarrow> bytes \<Rightarrow> etdb_database \<Rightarrow> (int \<times> etdb_database) option" where
  "etdb_database_list_lpush = etdb_database_list_push etdb_list_lpush"

definition etdb_database_list_rpush ::
    "(addr set \<Rightarrow> addr) \<Rightarrow> int \<Rightarrow> bytes \<Rightarrow> bytes \<Rightarrow> etdb_database \<Rightarrow> (int \<times> etdb_database) option" where
  "etdb_database_list_rpush = etdb_database_list_push etdb_list_rpush"

definition etdb_database_list_pop ::
    "(addr \<Rightarrow> dheap \<Rightarrow> dheap) \<Rightarrow> int \<Rightarrow> bytes \<Rightarrow> etdb_database \<Rightarrow> (int \<times> etdb_database) option" where
  "etdb_database_list_pop pop sl list_name db =
     (let p = etdb_trie_exact_match_search (tries db sl) (encode_list_head list_name)
      in if p < 0 then Some (-1, db)
         else if etdb_list_empty (heap db) p then Some (-1, db)
         else
           let m = pop p (heap db); db = put_heap m db in
           if etdb_queue_empty m p then
             map_option (\<lambda>(t, q).
                 if q < 0 then (-1, put_trie sl t db) else (0, free_value q (put_trie sl t db)))
               (etdb_trie_erase (tries db sl) (encode_list_head list_name))
           else Some (0, db))"

definition etdb_database_list_lpop :: "int \<Rightarrow> bytes \<Rightarrow> etdb_database \<Rightarrow> (int \<times> etdb_database) option" where
  "etdb_database_list_lpop = etdb_database_list_pop etdb_list_lpop"

definition etdb_database_list_rpop :: "int \<Rightarrow> bytes \<Rightarrow> etdb_database \<Rightarrow> (int \<times> etdb_database) option" where
  "etdb_database_list_rpop = etdb_database_list_pop etdb_list_rpop"

definition etdb_database_list_top ::
    "(dheap \<Rightarrow> addr \<Rightarrow> addr) \<Rightarrow> int \<Rightarrow> bytes \<Rightarrow> etdb_database \<Rightarrow> int \<times> bytes" where
  "etdb_database_list_top nb sl list_name db =
     (let p = etdb_trie_exact_match_search (tries db sl) (encode_list_head list_name)
      in if p < 0 then (-1, [])
         else if etdb_list_empty (heap db) p then (-1, [])
         else (0, node_bytes (heap db) (nb (heap db) p)))"

definition etdb_database_list_ltop :: "int \<Rightarrow> bytes \<Rightarrow> etdb_database \<Rightarrow> int \<times> bytes" where
  "etdb_database_list_ltop = etdb_database_list_top etdb_list_next"

definition etdb_database_list_rtop :: "int \<Rightarrow> bytes \<Rightarrow> etdb_database \<Rightarrow> int \<times> bytes" where
  "etdb_database_list_rtop = etdb_database_list_top etdb_list_prev"

section \<open>Spatial points\<close>

definition sp_id_key :: "bytes \<Rightarrow> bytes" where
  "sp_id_key ident = ETDB_SPATIAL_POINT_HEAD1 # ident"

text \<open>\<open>geo_hash_code[0]\<close>, the nine characters and the id.\<close>

definition sp_index_key :: "bytes \<Rightarrow> bytes \<Rightarrow> bytes" where
  "sp_index_key code ident = ETDB_SPATIAL_POINT_HEAD2 # code @ ident"

definition bad_coords :: "rat \<Rightarrow> rat \<Rightarrow> bool" where
  "bad_coords lat lon \<longleftrightarrow> lat < -90 \<or> lat > 90 \<or> lon < -180 \<or> lon > 180"

definition put_sp :: "addr \<Rightarrow> sp_head \<Rightarrow> etdb_database \<Rightarrow> etdb_database" where
  "put_sp a h db = put_heap ((heap db)\<lparr>vsp := (vsp (heap db))(a := h)\<rparr>) db"

definition etdb_database_sp_set ::
    "(addr set \<Rightarrow> addr) \<Rightarrow> int \<Rightarrow> bytes \<Rightarrow> bytes \<Rightarrow> bytes \<Rightarrow> etdb_database \<Rightarrow> (int \<times> etdb_database) option"
where
  "etdb_database_sp_set alloc sl ident lat lon db =
     (let (r1, lat_v) = etdb_atof lat; (r2, lon_v) = etdb_atof lon
      in if r1 = -1 \<or> r2 = -1 \<or> bad_coords lat_v lon_v then Some (-1, db)
         else
           let p = etdb_trie_exact_match_search (tries db sl) (sp_id_key ident);
               code = etdb_geo_hash_encode lat_v lon_v (int ETDB_GEO_HASH_PRECISION_LEN)
           in if p < 0 then
                let (m, head) = etdb_alloc alloc (heap db);
                    db = put_sp head \<lparr>sp_type = TYPE_SPATIAL_POINT, lat_d = lat_v, lon_d = lon_v,
                           geo_hash_code = code, indexed_len = 0, ref = 2\<rparr> (put_heap m db)
                in Option.bind (etdb_trie_update (tries db sl) (sp_id_key ident) head)
                     (\<lambda>(t1, old1).
                       if old1 < 0 then Some (-1, free_value head (put_trie sl t1 db))
                       else Option.bind (etdb_trie_update t1 (sp_index_key code ident) head)
                         (\<lambda>(t2, old2).
                           if old2 < 0 then
                             map_option (\<lambda>(t3, _). (-1, free_value head (put_trie sl t3 db)))
                               (etdb_trie_erase t2 (sp_id_key ident))
                           else Some (0, put_trie sl t2 db)))
              else
                let head = vsp (heap db) p in
                if code \<noteq> geo_hash_code head then
                  Option.bind (etdb_trie_update (tries db sl) (sp_index_key code ident) p)
                    (\<lambda>(t1, old).
                      if old < 0 then Some (-1, put_trie sl t1 db)
                      else map_option (\<lambda>(t2, _).
                          (0, put_sp p (head\<lparr>geo_hash_code := code, lat_d := lat_v, lon_d := lon_v\<rparr>)
                                (put_trie sl t2 db)))
                        (etdb_trie_erase t1 (sp_index_key (geo_hash_code head) ident)))
                else Some (0, put_sp p (head\<lparr>lat_d := lat_v, lon_d := lon_v\<rparr>) db))"

definition etdb_database_sp_get :: "int \<Rightarrow> bytes \<Rightarrow> etdb_database \<Rightarrow> int \<times> rat \<times> rat \<times> bytes" where
  "etdb_database_sp_get sl ident db =
     (let p = etdb_trie_exact_match_search (tries db sl) (sp_id_key ident)
      in if p < 0 then (-1, 0, 0, [])
         else let head = vsp (heap db) p in (0, lat_d head, lon_d head, geo_hash_code head))"

definition etdb_database_sp_del :: "int \<Rightarrow> bytes \<Rightarrow> etdb_database \<Rightarrow> (int \<times> etdb_database) option" where
  "etdb_database_sp_del sl ident db =
     Option.bind (etdb_trie_erase (tries db sl) (sp_id_key ident))
       (\<lambda>(t1, p).
         if p < 0 then Some (-1, put_trie sl t1 db)
         else map_option (\<lambda>(t2, _). (0, free_value p (put_trie sl t2 db)))
                (etdb_trie_erase t1 (sp_index_key (geo_hash_code (vsp (heap db) p)) ident)))"

text \<open>
  The search string is \<open>precision + 1\<close> bytes of a zeroed array of 13; the results lose the rest of
  the geohash, and those outside of the rectangle are removed.
\<close>

definition sp_search_key :: "bytes \<Rightarrow> int \<Rightarrow> bytes" where
  "sp_search_key hash precision =
     take (nat (precision + 1)) (ETDB_SPATIAL_POINT_HEAD2 # hash @ replicate (12 - length hash) 0)"

definition outside_rect :: "rat \<Rightarrow> rat \<Rightarrow> rat \<Rightarrow> rat \<Rightarrow> sp_head \<Rightarrow> bool" where
  "outside_rect lat1 lat2 lon1 lon2 head \<longleftrightarrow>
     lat_d head < lat1 \<or> lat_d head > lat2 \<or> lon_d head < lon1 \<or> lon_d head > lon2"

definition etdb_database_sp_rect ::
    "int \<Rightarrow> bytes \<Rightarrow> bytes \<Rightarrow> bytes \<Rightarrow> bytes \<Rightarrow> etdb_database \<Rightarrow> (int \<times> bytes list) option" where
  "etdb_database_sp_rect sl lat1 lat2 lon1 lon2 db =
     (let (r1, lat1_d) = etdb_atof lat1; (r2, lat2_d) = etdb_atof lat2;
          (r3, lon1_d) = etdb_atof lon1; (r4, lon2_d) = etdb_atof lon2
      in if r1 = -1 \<or> r2 = -1 \<or> r3 = -1 \<or> r4 = -1 \<or> bad_coords lat1_d lon1_d \<or> bad_coords lat2_d lon2_d
         then Some (-1, [])
         else
           let (hash, precision) = etdb_geo_hash_get_max_cover lat1_d lat2_d lon1_d lon2_d
                                     (int ETDB_GEO_HASH_PRECISION_LEN)
           in map_option (\<lambda>(_, res).
                  (0, map (\<lambda>(s, _). drop (nat (int ETDB_GEO_HASH_PRECISION_LEN - precision)) s)
                        (filter (\<lambda>(_, p). \<not> outside_rect lat1_d lat2_d lon1_d lon2_d (vsp (heap db) p)) res)))
                (etdb_trie_common_prefix_path_search (tries db sl) (sp_search_key hash precision) [] []))"

section \<open>Information\<close>

text \<open>\<open>sizeof(etdb_trie_node_t)\<close> is 16.\<close>

definition etdb_database_info_mem :: "etdb_database \<Rightarrow> int" where
  "etdb_database_info_mem db =
     sum_list (map (\<lambda>i. etdb_trie_total_size (tries db (int i)) * 16) [0..<nat ETDB_DATABASE_MAX_SLOT])"

text \<open>
  \<open>etdb_database_info_keys\<close> adds up \<open>num_keys\<close> and does not return it: the caller sees \<open>junk\<close>.
\<close>

definition info_num_keys :: "etdb_database \<Rightarrow> int" where
  "info_num_keys db =
     sum_list (map (\<lambda>i. etdb_trie_num_keys (tries db (int i))) [0..<nat ETDB_DATABASE_MAX_SLOT])"

definition etdb_database_info_keys :: "int \<Rightarrow> etdb_database \<Rightarrow> int" where
  "etdb_database_info_keys junk db = (let num_keys = info_num_keys db in junk)"

definition etdb_database_sys_max_slot :: int where
  "etdb_database_sys_max_slot = ETDB_DATABASE_MAX_SLOT"

end
