(* ===== verification/Handlers.thy ===== *)
theory Handlers
  imports Config Database "HOL-Library.Signed_Division"
begin

text \<open>
  The handlers of the commands, \<open>src/modules/etdb_kv.c\<close>, \<open>etdb_hash.c\<close>, \<open>etdb_set.c\<close>,
  \<open>etdb_list.c\<close>, \<open>etdb_spatial_point.c\<close>, \<open>etdb_sys.c\<close>, their tables, and the list of modules
  of \<open>src/etdb_modules.c\<close>.

  A handler gets the request (\<open>args ! 0\<close> is the name of the command), the server and the slot
  of the connection. It yields the code returned, the server, the slot and the bytes appended to the
  response; \<^term>\<open>None\<close> means that it does not return. \<open>host\<close> is what the machine supplies:
  the allocator, the result of \<open>fork\<close>, whether the database file can be opened for writing, and
  the value the caller sees of a function that ends without \<open>return\<close>.
\<close>

record server =
  database :: etdb_database
  modules :: "etdb_module list"
  command_trie :: trie
  bgsave_pid :: int

record host =
  allocate :: "addr set \<Rightarrow> addr"
  fork_result :: int
  db_file_opens :: bool
  no_return :: int

type_synonym reply = "(int \<times> server \<times> int \<times> bytes list) option"

section \<open>Formatted output\<close>

text \<open>\<open>%d\<close> of an argument wider than \<open>int\<close> prints its low 32 bits.\<close>

definition print_d :: "int \<Rightarrow> bytes" where
  "print_d n = dec_int (sint (word_of_int n :: 32 word))"

text \<open>\<open>%.nf\<close> of a double, to nearest with ties to even.\<close>

fun pad_digits :: "nat \<Rightarrow> nat \<Rightarrow> bytes" where
  "pad_digits 0 m = []"
| "pad_digits (Suc n) m = pad_digits n (m div 10) @ [48 + of_nat (m mod 10)]"

definition print_f :: "nat \<Rightarrow> rat \<Rightarrow> bytes" where
  "print_f n q =
     (let m = nat (round_even (\<bar>q\<bar> * 10 ^ n))
      in (if q < 0 then [45] else []) @ dec_str (m div 10 ^ n) @ [46] @ pad_digits n (m mod 10 ^ n))"

section \<open>Replies\<close>

definition only_code :: "server \<Rightarrow> int \<Rightarrow> int \<Rightarrow> reply" where
  "only_code srv slot r = Some (r, srv, slot, [])"

definition with_bytes :: "server \<Rightarrow> int \<Rightarrow> int \<Rightarrow> bytes list \<Rightarrow> reply" where
  "with_bytes srv slot r bs = Some (r, srv, slot, bs)"

definition updated :: "server \<Rightarrow> int \<Rightarrow> (int \<times> etdb_database) option \<Rightarrow> reply" where
  "updated srv slot r = map_option (\<lambda>(c, db). (c, srv\<lparr>database := db\<rparr>, slot, [])) r"

text \<open>The handlers of readers fail without bytes, and answer a value otherwise.\<close>

definition answer :: "server \<Rightarrow> int \<Rightarrow> int \<times> bytes \<Rightarrow> reply" where
  "answer srv slot r =
     (if fst r < 0 then only_code srv slot (-1) else with_bytes srv slot 0 [snd r])"

section \<open>Keys and values\<close>

definition etdb_kv_set_handler :: "host \<Rightarrow> bytes list \<Rightarrow> server \<Rightarrow> int \<Rightarrow> reply" where
  "etdb_kv_set_handler hst args srv slot =
     updated srv slot (etdb_database_kv_set (allocate hst) slot (args ! 1) (args ! 2) (database srv))"

definition etdb_kv_get_handler :: "bytes list \<Rightarrow> server \<Rightarrow> int \<Rightarrow> reply" where
  "etdb_kv_get_handler args srv slot =
     answer srv slot (etdb_database_kv_get slot (args ! 1) (database srv))"

definition etdb_kv_del_handler :: "bytes list \<Rightarrow> server \<Rightarrow> int \<Rightarrow> reply" where
  "etdb_kv_del_handler args srv slot =
     updated srv slot (etdb_database_kv_del slot (args ! 1) (database srv))"

definition etdb_kv_matchlongest_handler :: "bytes list \<Rightarrow> server \<Rightarrow> int \<Rightarrow> reply" where
  "etdb_kv_matchlongest_handler args srv slot =
     (case etdb_database_kv_match_longest slot (args ! 1) (database srv) of
        (r, match_len, value) \<Rightarrow>
          if r < 0 then only_code srv slot (-1)
          else with_bytes srv slot 0 [value, print_d (int (the match_len))])"

definition etdb_kv_commands :: "etdb_command list" where
  "etdb_kv_commands =
     [command ''set'' (ETDB_CMD_FLAG_WRITE OR ETDB_CMD_FLAG_ARG2) H_kv_set,
      command ''get'' (ETDB_CMD_FLAG_READ OR ETDB_CMD_FLAG_ARG1) H_kv_get,
      command ''del'' ETDB_CMD_FLAG_ARG1 H_kv_del,
      command ''matchlongest'' ETDB_CMD_FLAG_ARG1 H_kv_matchlongest]"

definition etdb_kv_module :: etdb_module where
  "etdb_kv_module = module ''kv'' etdb_kv_commands"

section \<open>Hashes\<close>

definition etdb_hash_set_handler :: "host \<Rightarrow> bytes list \<Rightarrow> server \<Rightarrow> int \<Rightarrow> reply" where
  "etdb_hash_set_handler hst args srv slot =
     (if length (args ! 1) > 255 then only_code srv slot (-1)
      else updated srv slot
        (etdb_database_hash_set (allocate hst) slot (args ! 1) (args ! 2) (args ! 3) (database srv)))"

definition etdb_hash_get_handler :: "bytes list \<Rightarrow> server \<Rightarrow> int \<Rightarrow> reply" where
  "etdb_hash_get_handler args srv slot =
     (if length (args ! 1) > 255 then only_code srv slot (-1)
      else answer srv slot (etdb_database_hash_get slot (args ! 1) (args ! 2) (database srv)))"

definition etdb_hash_del_handler :: "bytes list \<Rightarrow> server \<Rightarrow> int \<Rightarrow> reply" where
  "etdb_hash_del_handler args srv slot =
     (if length (args ! 1) > 255 then only_code srv slot (-1)
      else updated srv slot (etdb_database_hash_del slot (args ! 1) (args ! 2) (database srv)))"

definition etdb_hash_commands :: "etdb_command list" where
  "etdb_hash_commands =
     [command ''hset'' ETDB_CMD_FLAG_ARG3 H_hash_set,
      command ''hget'' ETDB_CMD_FLAG_ARG2 H_hash_get,
      command ''hdel'' ETDB_CMD_FLAG_ARG2 H_hash_del]"

definition etdb_hash_module :: etdb_module where
  "etdb_hash_module = module ''hash'' etdb_hash_commands"

section \<open>Sets\<close>

text \<open>The \<open>do\<close> loops over the keys behind the name, up to the first failure.\<close>

fun each_key ::
    "(bytes \<Rightarrow> etdb_database \<Rightarrow> (int \<times> etdb_database) option) \<Rightarrow> bytes list \<Rightarrow> etdb_database \<Rightarrow>
     (int \<times> etdb_database) option" where
  "each_key f [] db = Some (0, db)"
| "each_key f (k # ks) db =
     Option.bind (f k db) (\<lambda>(r, db'). if r < 0 then Some (-1, db') else each_key f ks db')"

definition etdb_set_add_handler :: "bytes list \<Rightarrow> server \<Rightarrow> int \<Rightarrow> reply" where
  "etdb_set_add_handler args srv slot =
     (if length (args ! 1) > 255 then only_code srv slot (-1)
      else updated srv slot
        (each_key (etdb_database_set_add slot (args ! 1)) (drop 2 args) (database srv)))"

definition etdb_set_del_handler :: "bytes list \<Rightarrow> server \<Rightarrow> int \<Rightarrow> reply" where
  "etdb_set_del_handler args srv slot =
     (if length (args ! 1) > 255 then only_code srv slot (-1)
      else updated srv slot
        (each_key (etdb_database_set_del slot (args ! 1)) (drop 2 args) (database srv)))"

definition etdb_set_members_handler :: "bytes list \<Rightarrow> server \<Rightarrow> int \<Rightarrow> reply" where
  "etdb_set_members_handler args srv slot =
     Option.bind (etdb_database_set_members slot (args ! 1) (database srv))
       (\<lambda>(_, resp). with_bytes srv slot 0 resp)"

definition etdb_set_ismember_handler :: "bytes list \<Rightarrow> server \<Rightarrow> int \<Rightarrow> reply" where
  "etdb_set_ismember_handler args srv slot =
     (let contain = etdb_database_set_ismember slot (args ! 1) (args ! 2) (database srv)
      in with_bytes srv slot 0 [if contain \<noteq> 0 then str ''1'' else str ''0''])"

definition etdb_set_commands :: "etdb_command list" where
  "etdb_set_commands =
     [command ''sadd'' ETDB_CMD_FLAG_ARG2MORE H_set_add,
      command ''sdel'' ETDB_CMD_FLAG_ARG2MORE H_set_del,
      command ''smembers'' ETDB_CMD_FLAG_ARG1 H_set_members,
      command ''sismember'' ETDB_CMD_FLAG_ARG2 H_set_ismember]"

definition etdb_set_module :: etdb_module where
  "etdb_set_module = module ''set'' etdb_set_commands"

section \<open>Lists\<close>

definition etdb_list_lpush_handler :: "host \<Rightarrow> bytes list \<Rightarrow> server \<Rightarrow> int \<Rightarrow> reply" where
  "etdb_list_lpush_handler hst args srv slot =
     updated srv slot (etdb_database_list_lpush (allocate hst) slot (args ! 1) (args ! 2) (database srv))"

definition etdb_list_rpush_handler :: "host \<Rightarrow> bytes list \<Rightarrow> server \<Rightarrow> int \<Rightarrow> reply" where
  "etdb_list_rpush_handler hst args srv slot =
     updated srv slot (etdb_database_list_rpush (allocate hst) slot (args ! 1) (args ! 2) (database srv))"

text \<open>The handlers of the pops turn the code of the database into 0 or -1.\<close>

definition popped :: "server \<Rightarrow> int \<Rightarrow> (int \<times> etdb_database) option \<Rightarrow> reply" where
  "popped srv slot r =
     map_option (\<lambda>(c, db). (if c < 0 then -1 else 0, srv\<lparr>database := db\<rparr>, slot, [])) r"

definition etdb_list_lpop_handler :: "bytes list \<Rightarrow> server \<Rightarrow> int \<Rightarrow> reply" where
  "etdb_list_lpop_handler args srv slot =
     popped srv slot (etdb_database_list_lpop slot (args ! 1) (database srv))"

definition etdb_list_rpop_handler :: "bytes list \<Rightarrow> server \<Rightarrow> int \<Rightarrow> reply" where
  "etdb_list_rpop_handler args srv slot =
     popped srv slot (etdb_database_list_rpop slot (args ! 1) (database srv))"

definition etdb_list_ltop_handler :: "bytes list \<Rightarrow> server \<Rightarrow> int \<Rightarrow> reply" where
  "etdb_list_ltop_handler args srv slot =
     answer srv slot (etdb_database_list_ltop slot (args ! 1) (database srv))"

definition etdb_list_rtop_handler :: "bytes list \<Rightarrow> server \<Rightarrow> int \<Rightarrow> reply" where
  "etdb_list_rtop_handler args srv slot =
     answer srv slot (etdb_database_list_rtop slot (args ! 1) (database srv))"

definition etdb_list_commands :: "etdb_command list" where
  "etdb_list_commands =
     [command ''lpush'' ETDB_CMD_FLAG_ARG2MORE H_list_lpush,
      command ''rpush'' ETDB_CMD_FLAG_ARG2MORE H_list_rpush,
      command ''lpop'' ETDB_CMD_FLAG_ARG1 H_list_lpop,
      command ''rpop'' ETDB_CMD_FLAG_ARG1 H_list_rpop,
      command ''ltop'' ETDB_CMD_FLAG_ARG1 H_list_ltop,
      command ''rtop'' ETDB_CMD_FLAG_ARG1 H_list_rtop]"

definition etdb_list_module :: etdb_module where
  "etdb_list_module = module ''list'' etdb_list_commands"

section \<open>Spatial points\<close>

definition etdb_sp_set_handler :: "host \<Rightarrow> bytes list \<Rightarrow> server \<Rightarrow> int \<Rightarrow> reply" where
  "etdb_sp_set_handler hst args srv slot =
     updated srv slot
       (etdb_database_sp_set (allocate hst) slot (args ! 1) (args ! 2) (args ! 3) (database srv))"

text \<open>\<open>%s\<close> prints the geohash up to its terminating zero.\<close>

definition etdb_sp_get_handler :: "bytes list \<Rightarrow> server \<Rightarrow> int \<Rightarrow> reply" where
  "etdb_sp_get_handler args srv slot =
     (case etdb_database_sp_get slot (args ! 1) (database srv) of
        (r, lat, lon, code) \<Rightarrow>
          if r < 0 then only_code srv slot (-1)
          else with_bytes srv slot 0
            [print_f 2 lat @ str '' '' @ print_f 2 lon @ str '' ('' @
             takeWhile (\<lambda>c. c \<noteq> 0) (take ETDB_GEO_HASH_PRECISION_LEN code) @ str '')''])"

definition etdb_sp_del_handler :: "bytes list \<Rightarrow> server \<Rightarrow> int \<Rightarrow> reply" where
  "etdb_sp_del_handler args srv slot =
     updated srv slot (etdb_database_sp_del slot (args ! 1) (database srv))"

definition etdb_sp_rect_handler :: "bytes list \<Rightarrow> server \<Rightarrow> int \<Rightarrow> reply" where
  "etdb_sp_rect_handler args srv slot =
     Option.bind (etdb_database_sp_rect slot (args ! 1) (args ! 2) (args ! 3) (args ! 4) (database srv))
       (\<lambda>(r, resp). with_bytes srv slot r resp)"

definition etdb_sp_knn_handler :: "server \<Rightarrow> int \<Rightarrow> reply" where
  "etdb_sp_knn_handler srv slot = with_bytes srv slot 0 [str ''knn'']"

definition etdb_geo_hash_info_handler :: "server \<Rightarrow> int \<Rightarrow> reply" where
  "etdb_geo_hash_info_handler srv slot =
     (let dim = etdb_geo_hash_dimensions_for_precision (int ETDB_GEO_HASH_PRECISION_LEN)
      in with_bytes srv slot 0 [str ''range: '' @ print_f 6 (width dim) @ str '' '' @ print_f 6 (height dim)])"

definition etdb_sidx_commands :: "etdb_command list" where
  "etdb_sidx_commands =
     [command ''spset'' ETDB_CMD_FLAG_ARG3 H_sp_set,
      command ''spget'' ETDB_CMD_FLAG_ARG1 H_sp_get,
      command ''spdel'' ETDB_CMD_FLAG_ARG1 H_sp_del,
      command ''sprect'' ETDB_CMD_FLAG_ARG4 H_sp_rect,
      command ''spknn'' (ETDB_CMD_FLAG_ARG2 OR ETDB_CMD_FLAG_ARG3) H_sp_knn,
      command ''geo_hash_info'' ETDB_CMD_FLAG_NOARG H_geo_hash_info]"

definition etdb_sidx_module :: etdb_module where
  "etdb_sidx_module = module ''spatial point'' etdb_sidx_commands"

end
