(* ===== verification/Client.thy ===== *)
theory Client
  imports Sockets Handlers
begin

text \<open>
  The client library \<open>src/hietdb.c\<close>: every operation queues one request, sends it, waits for the
  answer and picks the status and the value out of it.

  \<open>channel\<close> is what the system calls of one operation return: \<open>writes\<close> for \<open>write\<close>, and one list
  in \<open>reads\<close> for every call of \<open>etdb_connect_read_to_buf\<close>. \<open>may_grow\<close> and \<open>unreturned\<close> are the
  allocator and the missing return value of theories \<open>Buf\<close> and \<open>Resp\<close>. An operation yields the
  status, the value where it writes one, the connection and the bytes it sent; \<^term>\<open>None\<close> is a
  wait without end (or a read outside of the buffer).
\<close>

record channel =
  may_grow :: "nat \<Rightarrow> bool"
  unreturned :: int
  writes :: "io_result list"
  reads :: "read_result list list"

record etdb_client =
  chost :: bytes
  cport :: int
  clink :: "etdb_connection option"

section \<open>Connecting\<close>

text \<open>\<open>host[32]\<close> is filled by \<open>strcpy\<close>: a longer name is written past its end, \<^term>\<open>None\<close>.\<close>

definition etdb_client_connect ::
    "(nat \<Rightarrow> byte) \<Rightarrow> (nat \<Rightarrow> byte) \<Rightarrow> int \<Rightarrow> bool \<Rightarrow> bytes \<Rightarrow> int \<Rightarrow> (int \<times> etdb_client) option" where
  "etdb_client_connect raw_in raw_out sockfd conn_ok host port =
     (if length host + 1 > 32 then None
      else let client = \<lparr>chost = host, cport = port,
                         clink = fst (etdb_connect_request raw_in raw_out sockfd conn_ok)\<rparr>
           in case clink client of None \<Rightarrow> Some (-1, client) | Some _ \<Rightarrow> Some (0, client))"

section \<open>Request and answer\<close>

fun await_answer ::
    "channel \<Rightarrow> read_result list list \<Rightarrow> etdb_connection \<Rightarrow> (etdb_connection + etdb_connection) option"
where
  "await_answer ch rs conn =
     Option.bind (etdb_connect_recv (unreturned ch) (may_grow ch) conn)
       (\<lambda>r. case r of
          Inl conn \<Rightarrow> Some (Inl conn)
        | Inr conn \<Rightarrow>
            if recv_cmd conn = [] then
              (case rs of
                 [] \<Rightarrow> None
               | os # rs' \<Rightarrow>
                   Option.bind (etdb_connect_read_to_buf conn os)
                     (\<lambda>(n, conn). if n \<le> 0 then Some (Inl conn) else await_answer ch rs' conn))
            else Some (Inr conn))"

text \<open>The answer, \<^term>\<open>None\<close> for \<open>NULL\<close>, the connection and the bytes sent.\<close>

definition etdb_client_request ::
    "channel \<Rightarrow> etdb_connection \<Rightarrow> (bytes list option \<times> etdb_connection \<times> bytes) option" where
  "etdb_client_request ch conn =
     Option.bind (etdb_connect_flush conn (writes ch))
       (\<lambda>(n, conn, sent).
          if n = -1 then Some (None, conn, sent)
          else map_option (\<lambda>r. case r of
                 Inl conn \<Rightarrow> (None, conn, sent)
               | Inr conn \<Rightarrow> (Some (map (slice_bytes conn) (recv_cmd conn)), conn, sent))
             (await_answer ch (reads ch) conn))"

text \<open>The part the operations share: append the records and the tail, then the request.\<close>

definition client_call ::
    "channel \<Rightarrow> bytes list \<Rightarrow> etdb_connection \<Rightarrow> (bytes list option \<times> etdb_connection \<times> bytes) option" where
  "client_call ch args conn =
     Option.bind (append_all (may_grow ch) conn args)
       (\<lambda>conn. Option.bind (append_out (may_grow ch) conn []) (etdb_client_request ch))"

definition status_of :: "bytes list option \<Rightarrow> bytes" where
  "status_of resp = (case resp of Some (s # _) \<Rightarrow> s | _ \<Rightarrow> str ''+ERROR'')"

text \<open>\<open>*value\<close> stays as it was when the answer has no second record.\<close>

definition value_of :: "bytes list option \<Rightarrow> bytes option" where
  "value_of resp = (case resp of Some (_ # v # _) \<Rightarrow> Some v | _ \<Rightarrow> None)"

text \<open>\<open>*value = resp\<close>: the whole answer.\<close>

definition list_of :: "bytes list option \<Rightarrow> bytes list option" where
  "list_of resp = (case resp of Some (s # vs) \<Rightarrow> Some (s # vs) | _ \<Rightarrow> None)"

type_synonym 'v outcome = "(bytes \<times> 'v option \<times> etdb_connection \<times> bytes) option"

definition with_status ::
    "(bytes list option \<times> etdb_connection \<times> bytes) option \<Rightarrow> (bytes \<times> etdb_connection \<times> bytes) option" where
  "with_status r = map_option (\<lambda>(resp, conn, sent). (status_of resp, conn, sent)) r"

definition with_value :: "(bytes list option \<times> etdb_connection \<times> bytes) option \<Rightarrow> bytes outcome" where
  "with_value r = map_option (\<lambda>(resp, conn, sent). (status_of resp, value_of resp, conn, sent)) r"

definition with_list :: "(bytes list option \<times> etdb_connection \<times> bytes) option \<Rightarrow> bytes list outcome" where
  "with_list r = map_option (\<lambda>(resp, conn, sent). (status_of resp, list_of resp, conn, sent)) r"

section \<open>Keys and values\<close>

definition etdb_kv_set ::
    "channel \<Rightarrow> bytes \<Rightarrow> bytes \<Rightarrow> etdb_connection \<Rightarrow> (bytes \<times> etdb_connection \<times> bytes) option" where
  "etdb_kv_set ch key val conn = with_status (client_call ch [str ''set'', key, val] conn)"

definition etdb_kv_get :: "channel \<Rightarrow> bytes \<Rightarrow> etdb_connection \<Rightarrow> bytes outcome" where
  "etdb_kv_get ch key conn = with_value (client_call ch [str ''get'', key] conn)"

definition etdb_kv_del ::
    "channel \<Rightarrow> bytes \<Rightarrow> etdb_connection \<Rightarrow> (bytes \<times> etdb_connection \<times> bytes) option" where
  "etdb_kv_del ch key conn = with_status (client_call ch [str ''del'', key] conn)"

definition etdb_kv_matchlongest :: "channel \<Rightarrow> bytes \<Rightarrow> etdb_connection \<Rightarrow> bytes list outcome" where
  "etdb_kv_matchlongest ch key conn = with_list (client_call ch [str ''matchlongest'', key] conn)"

section \<open>Hashes\<close>

definition etdb_hash_set ::
    "channel \<Rightarrow> bytes \<Rightarrow> bytes \<Rightarrow> bytes \<Rightarrow> etdb_connection \<Rightarrow> (bytes \<times> etdb_connection \<times> bytes) option" where
  "etdb_hash_set ch tb key val conn = with_status (client_call ch [str ''hset'', tb, key, val] conn)"

definition etdb_hash_get :: "channel \<Rightarrow> bytes \<Rightarrow> bytes \<Rightarrow> etdb_connection \<Rightarrow> bytes outcome" where
  "etdb_hash_get ch tb key conn = with_value (client_call ch [str ''hget'', tb, key] conn)"

definition etdb_hash_del ::
    "channel \<Rightarrow> bytes \<Rightarrow> bytes \<Rightarrow> etdb_connection \<Rightarrow> (bytes \<times> etdb_connection \<times> bytes) option" where
  "etdb_hash_del ch tb key conn = with_status (client_call ch [str ''hdel'', tb, key] conn)"

section \<open>Sets\<close>

definition etdb_set_add ::
    "channel \<Rightarrow> bytes \<Rightarrow> bytes \<Rightarrow> etdb_connection \<Rightarrow> (bytes \<times> etdb_connection \<times> bytes) option" where
  "etdb_set_add ch sn item conn = with_status (client_call ch [str ''sadd'', sn, item] conn)"

definition etdb_set_del ::
    "channel \<Rightarrow> bytes \<Rightarrow> bytes \<Rightarrow> etdb_connection \<Rightarrow> (bytes \<times> etdb_connection \<times> bytes) option" where
  "etdb_set_del ch sn item conn = with_status (client_call ch [str ''sdel'', sn, item] conn)"

definition etdb_set_members :: "channel \<Rightarrow> bytes \<Rightarrow> etdb_connection \<Rightarrow> bytes list outcome" where
  "etdb_set_members ch sn conn = with_list (client_call ch [str ''smembers'', sn] conn)"

definition etdb_set_ismember ::
    "channel \<Rightarrow> bytes \<Rightarrow> bytes \<Rightarrow> etdb_connection \<Rightarrow> (bytes \<times> etdb_connection \<times> bytes) option" where
  "etdb_set_ismember ch sn item conn = with_status (client_call ch [str ''sismember'', sn, item] conn)"

section \<open>Lists\<close>

definition etdb_lst_lpush ::
    "channel \<Rightarrow> bytes \<Rightarrow> bytes \<Rightarrow> etdb_connection \<Rightarrow> (bytes \<times> etdb_connection \<times> bytes) option" where
  "etdb_lst_lpush ch lname item conn = with_status (client_call ch [str ''lpush'', lname, item] conn)"

definition etdb_lst_rpush ::
    "channel \<Rightarrow> bytes \<Rightarrow> bytes \<Rightarrow> etdb_connection \<Rightarrow> (bytes \<times> etdb_connection \<times> bytes) option" where
  "etdb_lst_rpush ch lname item conn = with_status (client_call ch [str ''rpush'', lname, item] conn)"

definition etdb_lst_ltop :: "channel \<Rightarrow> bytes \<Rightarrow> etdb_connection \<Rightarrow> bytes outcome" where
  "etdb_lst_ltop ch lname conn = with_value (client_call ch [str ''ltop'', lname] conn)"

definition etdb_lst_rtop :: "channel \<Rightarrow> bytes \<Rightarrow> etdb_connection \<Rightarrow> bytes outcome" where
  "etdb_lst_rtop ch lname conn = with_value (client_call ch [str ''rtop'', lname] conn)"

definition etdb_lst_lpop ::
    "channel \<Rightarrow> bytes \<Rightarrow> etdb_connection \<Rightarrow> (bytes \<times> etdb_connection \<times> bytes) option" where
  "etdb_lst_lpop ch lname conn = with_status (client_call ch [str ''lpop'', lname] conn)"

definition etdb_lst_rpop ::
    "channel \<Rightarrow> bytes \<Rightarrow> etdb_connection \<Rightarrow> (bytes \<times> etdb_connection \<times> bytes) option" where
  "etdb_lst_rpop ch lname conn = with_status (client_call ch [str ''rpop'', lname] conn)"

section \<open>Points\<close>

text \<open>Coordinates are printed by \<open>%f\<close>, with six digits after the point.\<close>

definition etdb_spatial_point_set ::
    "channel \<Rightarrow> bytes \<Rightarrow> rat \<Rightarrow> rat \<Rightarrow> etdb_connection \<Rightarrow> (bytes \<times> etdb_connection \<times> bytes) option" where
  "etdb_spatial_point_set ch pid lat lon conn =
     with_status (client_call ch [str ''spset'', pid, print_f 6 lat, print_f 6 lon] conn)"

text \<open>
  The value \<open>lat lon (code)\<close> is split at spaces; \<open>etdb_atof\<close> writes its result also when it
  fails. The code loses its first and last byte: when it has less than two, the unsigned length
  wraps and \<open>memcpy\<close> leaves the memory, \<^term>\<open>None\<close>.
\<close>

definition parse_point :: "bytes \<Rightarrow> rat \<times> rat \<times> bytes option \<Rightarrow> (rat \<times> rat \<times> bytes option) option" where
  "parse_point v old =
     (case etdb_str_split v 32 3 of (splits, split_num) \<Rightarrow>
        if split_num = 3 then
          (let code = str_bytes v (splits ! 2)
           in if length code < 2 then None
              else Some (snd (etdb_atof (str_bytes v (splits ! 0))), snd (etdb_atof (str_bytes v (splits ! 1))),
                         Some (take (length code - 2) (drop 1 code))))
        else Some old)"

definition etdb_spatial_point_get ::
    "channel \<Rightarrow> bytes \<Rightarrow> rat \<times> rat \<times> bytes option \<Rightarrow> etdb_connection \<Rightarrow>
     (bytes \<times> (rat \<times> rat \<times> bytes option) \<times> etdb_connection \<times> bytes) option" where
  "etdb_spatial_point_get ch pid old conn =
     Option.bind (client_call ch [str ''spget'', pid] conn)
       (\<lambda>(resp, conn, sent).
          map_option (\<lambda>point. (status_of resp, point, conn, sent))
            (case value_of resp of None \<Rightarrow> Some old | Some v \<Rightarrow> parse_point v old))"

definition etdb_spatial_point_rect_query ::
    "channel \<Rightarrow> rat \<Rightarrow> rat \<Rightarrow> rat \<Rightarrow> rat \<Rightarrow> etdb_connection \<Rightarrow> bytes list outcome" where
  "etdb_spatial_point_rect_query ch lat1 lat2 lon1 lon2 conn =
     with_list (client_call ch
       [str ''sprect'', print_f 6 lat1, print_f 6 lat2, print_f 6 lon1, print_f 6 lon2] conn)"

end
