(* ===== verification/Client_Exchange.thy ===== *)
theory Client_Exchange
  imports Client
begin

text \<open>
  One call of the client library, from the arguments to the answer: the request goes out complete,
  however the socket takes it, and the answer comes in and is taken apart. The connection is then
  ready for the next call.
\<close>

section \<open>Sending\<close>

text \<open>What \<open>write\<close> returns until \<open>n\<close> bytes are sent, without a failure.\<close>

fun delivers :: "io_result list \<Rightarrow> nat \<Rightarrow> bool" where
  "delivers [] n \<longleftrightarrow> n = 0"
| "delivers (Moved k # ws) n \<longleftrightarrow> 0 < k \<and> k \<le> n \<and> delivers ws (n - k)"
| "delivers (Failed # ws) n \<longleftrightarrow> False"
| "delivers (_ # ws) n \<longleftrightarrow> 0 < n \<and> delivers ws n"

lemma flush_delivers:
  assumes "delivers ws (bsize (buf_out conn))" "buf_wf (buf_out conn)" "\<not> noblock conn" "bsize (buf_out conn) < 2 ^ 31"
  shows "\<exists>n b. flush_loop conn ws len sent = Some (n, conn\<lparr>buf_out := b\<rparr>, sent @ buf_bytes (buf_out conn)) \<and>
    buf_bytes b = [] \<and> buf_wf b \<and> (0 \<le> len \<longrightarrow> n \<noteq> -1)"
  using assms
proof (induction ws arbitrary: conn len sent)
  case Nil
  then show ?case by (subst flush_loop.simps) (auto simp: buf_bytes_def mem_read_def intro!: exI [of _ "buf_out conn"])
next
  case (Cons w ws)
  show ?case
  proof (cases w)
    case (Moved k)
    let ?b = "etdb_buf_nice (etdb_buf_decr (buf_out conn) k)"
    have k: "0 < k" "k \<le> bsize (buf_out conn)" "delivers ws (bsize (buf_out conn) - k)" using Cons.prems(1) Moved by simp_all
    note d = buf_decr [OF Cons.prems(2) k(2)]
    have b: "buf_wf ?b" "buf_bytes ?b = drop k (buf_bytes (buf_out conn))" "bsize ?b = bsize (buf_out conn) - k"
      using buf_nice [OF d(2)] d(1) k(2) by (simp_all add: etdb_buf_nice_def etdb_buf_decr_def size_sub_def)
    have w: "etdb_connect_write conn (w # ws) = Some (int k, conn\<lparr>buf_out := ?b\<rparr>, take k (buf_bytes (buf_out conn)), ws)"
      using k(1,2) Cons.prems(3,4) Moved by (simp add: etdb_connect_write_def Let_def)
    have "bsize (buf_out conn) - k < 2 ^ 31" using Cons.prems(4) by linarith
    then obtain n c where c: "flush_loop (conn\<lparr>buf_out := ?b\<rparr>) ws (len + int k) (sent @ take k (buf_bytes (buf_out conn))) =
        Some (n, conn\<lparr>buf_out := c\<rparr>, (sent @ take k (buf_bytes (buf_out conn))) @ buf_bytes ?b)"
      "buf_bytes c = []" "buf_wf c" "0 \<le> len + int k \<longrightarrow> n \<noteq> -1"
      using Cons.IH [of "conn\<lparr>buf_out := ?b\<rparr>" "len + int k" "sent @ take k (buf_bytes (buf_out conn))"] k(3) b Cons.prems(3) by auto
    have "flush_loop conn (w # ws) len sent = Some (n, conn\<lparr>buf_out := c\<rparr>, sent @ buf_bytes (buf_out conn))"
      using k(1,2) w c(1) b(2) by (subst flush_loop.simps) simp
    then show ?thesis using c(2-4) by auto
  next
    case Interrupted
    have n: "0 < bsize (buf_out conn)" "delivers ws (bsize (buf_out conn))" using Cons.prems(1) Interrupted by simp_all
    have "flush_loop conn (w # ws) len sent = flush_loop conn ws len sent"
      using n(1) Cons.prems(4) Interrupted by (subst (1 2) flush_loop.simps) (simp add: etdb_connect_write_def)
    then show ?thesis using Cons.IH [OF n(2) Cons.prems(2-4)] by simp
  next
    case WouldBlock
    let ?b = "etdb_buf_nice (buf_out conn)"
    have n: "0 < bsize (buf_out conn)" "delivers ws (bsize (buf_out conn))" using Cons.prems(1) WouldBlock by simp_all
    have b: "bsize ?b = bsize (buf_out conn)" by (simp add: etdb_buf_nice_def)
    note N = buf_nice [OF Cons.prems(2)]
    have "flush_loop conn (w # ws) len sent = flush_loop (conn\<lparr>buf_out := ?b\<rparr>) ws len sent"
      using n(1) Cons.prems(4) WouldBlock by (subst (1) flush_loop.simps) (simp add: etdb_connect_write_def)
    then show ?thesis using Cons.IH [of "conn\<lparr>buf_out := ?b\<rparr>" len sent] n(2) N b Cons.prems(3,4) by auto
  next
    case Failed
    then show ?thesis using Cons.prems(1) by simp
  qed
qed

section \<open>Frames\<close>

lemma send_to_buf_frame:
  assumes "etdb_connect_send_to_buf ok conn ss = Some c"
  shows "c = conn\<lparr>buf_out := buf_out c\<rparr>"
proof -
  have app: "d = c\<lparr>buf_out := buf_out d\<rparr>" if "append_out ok c s = Some d" for c d s
    using that by (auto simp: append_out_def)
  have "d = c\<lparr>buf_out := buf_out d\<rparr>" if "append_all ok c ss = Some d" for c d ss
    using that
  proof (induction ss arbitrary: c)
    case (Cons s ss)
    then obtain e where e: "append_out ok c s = Some e" "append_all ok e ss = Some d" by (auto simp: Option.bind_eq_Some_conv)
    have "e = c\<lparr>buf_out := buf_out e\<rparr>" "d = e\<lparr>buf_out := buf_out d\<rparr>" by (rule app [OF e(1)], rule Cons.IH [OF e(2)])
    then show ?case by (metis etdb_connection.update_convs(4) etdb_connection.surjective)
  qed simp
  then show ?thesis
    using assms app by (auto simp: etdb_connect_send_to_buf_def Option.bind_eq_Some_conv)
      (metis etdb_connection.update_convs(4) etdb_connection.surjective)
qed

lemma parse_req_frame:
  assumes "etdb_resp_parse_req conn = Some (0, c)"
  shows "\<exists>recv fr n. c = conn\<lparr>recv_cmd := recv, free_cmd := fr, buf_in := etdb_buf_decr (buf_in conn) n\<rparr>"
  using assms by (auto simp: etdb_resp_parse_req_def Let_def split: prod.splits parse_result.splits)

section \<open>Receiving\<close>

text \<open>The newline that ends the last answer is all that is left.\<close>

definition client_ready :: "etdb_connection \<Rightarrow> bool" where
  "client_ready conn \<longleftrightarrow> \<not> noblock conn \<and> buf_wf (buf_out conn) \<and> buf_bytes (buf_out conn) = [] \<and>
     buf_wf (buf_in conn) \<and> buf_bytes (buf_in conn) \<in> {[], [10]} \<and> 4 \<le> bcap (buf_in conn) \<and> bcap (buf_in conn) < 2 ^ 31"

lemma read_answer:
  assumes "noblock conn \<longrightarrow> os = [RWouldBlock]" "buf_wf (buf_in conn)" "bs \<noteq> []"
    "bsize (buf_in conn) + length bs \<le> bcap (buf_in conn) div 2" "bcap (buf_in conn) < 2 ^ 31"
  shows "\<exists>b. etdb_connect_read_to_buf conn (replicate j RInterrupted @ Got bs # os) = Some (int (length bs), conn\<lparr>buf_in := b\<rparr>) \<and>
    buf_wf b \<and> buf_bytes b = buf_bytes (buf_in conn) @ bs \<and> bcap b = bcap (buf_in conn)"
proof -
  let ?b = "etdb_buf_nice (buf_in conn)"
  let ?c = "etdb_buf_incr (mem_write ?b (etdb_buf_slot ?b) bs) (length bs)"
  note n = buf_nice [OF assms(2)]
  have s: "bsize ?b = bsize (buf_in conn)" "bcap ?b = bcap (buf_in conn)" "bdata ?b \<le> bcap (buf_in conn) div 2"
    by (simp_all add: etdb_buf_nice_def)
  have "0 < length bs" "bcap (buf_in conn) div 2 + bcap (buf_in conn) div 2 \<le> bcap (buf_in conn)" using assms(3) by simp_all
  then have sp: "bdata ?b + bsize ?b + length bs \<le> bcap ?b" "bdata ?b + bsize ?b < bcap ?b"
    using s assms(4) by linarith+
  have "etdb_buf_space ?b = bcap ?b - bdata ?b - bsize ?b" by (rule wf_sizes(4) [OF n(2)])
  then have "0 < etdb_buf_space ?b" "etdb_buf_space ?b < 2 ^ 31" using sp(2) s assms(5) by linarith+
  then have w: "0 < want_int (etdb_buf_space ?b)" by (simp only: want_int_small of_nat_0_less_iff)
  have "read_loop (noblock conn) ?b 0 (Got bs # os) = Some (int (length bs), ?c)"
    using w assms(1,3) by (cases "noblock conn") (simp_all add: Let_def)
  then have "read_loop (noblock conn) ?b 0 (replicate j RInterrupted @ Got bs # os) = Some (int (length bs), ?c)"
    using w by (induction j) simp_all
  moreover have "buf_wf ?c" using n(2) sp(1) by (auto simp: buf_wf_def etdb_buf_incr_def size_plus_def)
  ultimately show ?thesis
    using n s(2) append_bytes [of ?b bs] assms(2) by (auto simp: etdb_connect_read_to_buf_def etdb_buf_incr_def)
qed

text \<open>Nothing but newlines: there is no answer yet.\<close>

lemma parse_nothing:
  assumes "buf_bytes (buf_in conn) \<in> {[], [10]}" "recv_cmd conn = []" "buf_wf (buf_in conn)"
  shows "etdb_resp_parse_req conn = Some (1, conn)"
proof -
  let ?b = "buf_in conn"
  obtain p where p: "skip_newlines (bmem ?b) (bcap ?b) (bdata ?b) (of_nat (bsize ?b)) 0 = (p, 0, of_nat (bsize ?b))"
  proof (cases "buf_bytes ?b = []")
    case True
    then have "bsize ?b = 0" by (simp add: buf_bytes_def flip: length_0_conv)
    then show ?thesis using that by (subst (asm) skip_newlines.simps) simp
  next
    case False
    then have b: "buf_bytes ?b = [10]" using assms(1) by simp
    have s: "bsize ?b = 1" using arg_cong [OF b, of length] by (simp add: buf_bytes_def)
    have "bmem ?b (bdata ?b) = 10" using b s by (simp add: buf_bytes_def mem_read_def)
    moreover have "bdata ?b < bcap ?b" using s assms(3) by (simp add: buf_wf_def)
    ultimately have "skip_newlines (bmem ?b) (bcap ?b) (bdata ?b) 1 0 = (bdata ?b + 1, 0, 1)"
      by (subst skip_newlines.simps, subst skip_newlines.simps) simp
    then show ?thesis using that s by simp
  qed
  have "parse_loop (bmem ?b) (bcap ?b) p 0 n [] fr = Partial [] fr" for n fr
    by (subst parse_loop.simps) (simp add: parse_end_def)
  then show ?thesis using p assms(2) by (simp add: etdb_resp_parse_req_def)
qed

lemma recv_nothing:
  assumes "buf_bytes (buf_in conn) \<in> {[], [10]}" "buf_wf (buf_in conn)" "4 \<le> bcap (buf_in conn)"
  shows "\<exists>fr b. etdb_connect_recv junk ok conn = Some (Inr (conn\<lparr>recv_cmd := [], free_cmd := fr, buf_in := b\<rparr>)) \<and>
    buf_bytes b = buf_bytes (buf_in conn) \<and> buf_wf b \<and> bcap b = bcap (buf_in conn)"
proof -
  define c where "c = (if recv_cmd conn \<noteq> [] then conn\<lparr>free_cmd := free_cmd conn @ recv_cmd conn, recv_cmd := []\<rparr> else conn)"
  have c: "c = conn\<lparr>recv_cmd := [], free_cmd := free_cmd c, buf_in := buf_in conn\<rparr>" "recv_cmd c = []" "buf_in c = buf_in conn"
    by (auto simp: c_def)
  note n = buf_nice [OF assms(2)]
  have "bsize (buf_in conn) = length (buf_bytes (buf_in conn))" by (simp add: buf_bytes_def)
  then have "bsize (buf_in conn) \<le> 1" using assms(1) by auto
  then have sp: "etdb_buf_space (buf_in conn) = 0 \<Longrightarrow> etdb_buf_space (etdb_buf_nice (buf_in conn)) \<noteq> 0"
    using assms(3) assms(2) n(2) by (auto simp: etdb_buf_nice_def)
  have p: "etdb_resp_parse_req c = Some (1, c)" using parse_nothing [of c] assms(1,2) c(2,3) by simp
  have "etdb_connect_recv junk ok conn = Some (Inr c) \<or> etdb_connect_recv junk ok conn = Some (Inr (c\<lparr>buf_in := etdb_buf_nice (buf_in conn)\<rparr>))"
    using p sp c(2,3) assms(2) by (auto simp: etdb_connect_recv_def c_def [symmetric] etdb_resp_recv_req_def Let_def)
  then show ?thesis
  proof
    assume "etdb_connect_recv junk ok conn = Some (Inr c)"
    then show ?thesis using c(1) assms(2) by metis
  next
    assume r: "etdb_connect_recv junk ok conn = Some (Inr (c\<lparr>buf_in := etdb_buf_nice (buf_in conn)\<rparr>))"
    have "c\<lparr>buf_in := etdb_buf_nice (buf_in conn)\<rparr> =
        conn\<lparr>recv_cmd := [], free_cmd := free_cmd c, buf_in := etdb_buf_nice (buf_in conn)\<rparr>"
      by (subst c(1)) simp
    moreover have "bcap (etdb_buf_nice (buf_in conn)) = bcap (buf_in conn)" by (simp add: etdb_buf_nice_def)
    ultimately show ?thesis using r n by metis
  qed
qed

text \<open>The answer is there: exactly its records are taken, and the connection is ready again.\<close>

lemma recv_complete:
  assumes "buf_bytes (buf_in conn) = replicate k 10 @ encode_request resp" "buf_wf (buf_in conn)" "bcap (buf_in conn) < 2 ^ 64"
    "[] \<notin> set resp" "resp \<noteq> []" "k + length (encode_request resp) \<le> 33554432" "recv_cmd conn = []" "0 \<le> junk"
  shows "\<exists>recv fr b. etdb_connect_recv junk ok conn = Some (Inr (conn\<lparr>recv_cmd := recv, free_cmd := fr, buf_in := b\<rparr>)) \<and>
    map (slice_bytes (conn\<lparr>recv_cmd := recv, free_cmd := fr, buf_in := b\<rparr>)) recv = resp \<and> buf_bytes b = [10] \<and> buf_wf b \<and>
    bcap b = bcap (buf_in conn)"
proof -
  obtain c where c: "etdb_resp_parse_req conn = Some (0, c)" "map (slice_bytes c) (recv_cmd c) = resp"
    "buf_bytes (buf_in c) = [10]" "buf_wf (buf_in c)"
    using parse_req_run [of conn k resp "[]"] assms by auto
  obtain recv fr n where f: "c = conn\<lparr>recv_cmd := recv, free_cmd := fr, buf_in := etdb_buf_decr (buf_in conn) n\<rparr>"
    using parse_req_frame [OF c(1)] by blast
  have "recv_cmd c \<noteq> []" using c(2) assms(5) by auto
  then have "etdb_resp_recv_req junk ok conn = Some (junk, c)" using c(1) by (simp add: etdb_resp_recv_req_def)
  moreover have "bsize (buf_in conn) \<noteq> 0"
    using arg_cong [OF assms(1), of length] by (auto simp: buf_bytes_def encode_request_def encode_record_def)
  ultimately have "etdb_connect_recv junk ok conn = Some (Inr c)" using assms(7,8) by (simp add: etdb_connect_recv_def)
  moreover have "bcap (buf_in c) = bcap (buf_in conn)" by (simp add: f etdb_buf_decr_def)
  ultimately show ?thesis using c(2-4) f by (intro exI [of _ recv] exI [of _ fr] exI [of _ "buf_in c"]) simp
qed

section \<open>The exchange\<close>

text \<open>
  The answer \<open>resp\<close> comes in by the first \<open>read\<close> that is not interrupted, and the request of \<open>n\<close> bytes is
  accepted without a failure.
\<close>

definition answers :: "channel \<Rightarrow> nat \<Rightarrow> bytes list \<Rightarrow> etdb_connection \<Rightarrow> bool" where
  "answers ch n resp conn \<longleftrightarrow> (\<forall>n. may_grow ch n) \<and> 0 \<le> unreturned ch \<and> delivers (writes ch) n \<and> resp \<noteq> [] \<and> [] \<notin> set resp \<and>
     length (encode_request resp) + 1 \<le> min 33554432 (bcap (buf_in conn) div 2) \<and>
     (\<exists>j os rs. reads ch = (replicate j RInterrupted @ Got (encode_request resp) # os) # rs)"

lemma client_call_alt:
  "client_call ch args conn = Option.bind (etdb_connect_send_to_buf (may_grow ch) conn args) (etdb_client_request ch)"
  by (cases "append_all (may_grow ch) conn args") (simp_all add: client_call_def etdb_connect_send_to_buf_def)

lemma client_call_answer:
  assumes R: "client_ready conn" and a: "\<forall>s\<in>set args. length s < 2 ^ 31" "length (encode_request args) < 2 ^ 31" and A: "answers ch (length (encode_request args)) resp conn"
  shows "\<exists>conn'. client_call ch args conn = Some (Some resp, conn', encode_request args) \<and> client_ready conn' \<and>
    bcap (buf_in conn') = bcap (buf_in conn)"
proof -
  note C = R [unfolded client_ready_def]
  have g: "\<forall>n. may_grow ch n" "0 \<le> unreturned ch" "resp \<noteq> []" "[] \<notin> set resp" "delivers (writes ch) (length (encode_request args))"
    and len: "length (encode_request resp) + 1 \<le> 33554432" "length (encode_request resp) + 1 \<le> bcap (buf_in conn) div 2"
    using A by (auto simp: answers_def)
  obtain j os rs where rd: "reads ch = (replicate j RInterrupted @ Got (encode_request resp) # os) # rs" using A by (auto simp: answers_def)
  obtain c1 where c1: "etdb_connect_send_to_buf (may_grow ch) conn args = Some c1" "buf_wf (buf_out c1)"
    "buf_bytes (buf_out c1) = encode_request args"
    using send_to_buf_spec [OF _ a(1) g(1)] C by fastforce
  define out where "out = buf_out c1"
  have f1: "c1 = conn\<lparr>buf_out := out\<rparr>" unfolding out_def by (rule send_to_buf_frame [OF c1(1)])
  have "length (buf_bytes out) = bsize out" by (simp add: buf_bytes_def)
  then have out: "buf_wf out" "buf_bytes out = encode_request args" "bsize out = length (encode_request args)"
    using c1(2,3) by (simp_all add: out_def)
  obtain n out' where fl: "etdb_connect_flush c1 (writes ch) = Some (n, conn\<lparr>buf_out := out'\<rparr>, encode_request args)"
    "buf_bytes out' = []" "buf_wf out'" "n \<noteq> -1"
    using flush_delivers [of "writes ch" c1 0 "[]"] g(5) out C a(2) by (auto simp: f1 etdb_connect_flush_def)
  let ?c2 = "conn\<lparr>buf_out := out'\<rparr>"
  obtain fr b where w: "etdb_connect_recv (unreturned ch) (may_grow ch) ?c2 = Some (Inr (?c2\<lparr>recv_cmd := [], free_cmd := fr, buf_in := b\<rparr>))"
    "buf_bytes b = buf_bytes (buf_in conn)" "buf_wf b" "bcap b = bcap (buf_in conn)"
    using recv_nothing [of ?c2 "unreturned ch" "may_grow ch"] C by auto
  let ?c3 = "?c2\<lparr>recv_cmd := [], free_cmd := fr, buf_in := b\<rparr>"
  obtain k where k: "buf_bytes (buf_in conn) = replicate k 10" "k \<le> 1"
  proof -
    have "buf_bytes (buf_in conn) = replicate 0 10 \<or> buf_bytes (buf_in conn) = replicate 1 10" using C by simp
    then show thesis using that [of 0] that [of 1] by auto
  qed
  have "length (buf_bytes b) = bsize b" by (simp add: buf_bytes_def)
  then have sz: "bsize b = k" using w(2) k(1) by simp
  have ne: "encode_request resp \<noteq> []" by (simp add: encode_request_def encode_record_def)
  obtain b' where r: "etdb_connect_read_to_buf ?c3 (replicate j RInterrupted @ Got (encode_request resp) # os) =
      Some (int (length (encode_request resp)), ?c3\<lparr>buf_in := b'\<rparr>)" "buf_wf b'" "buf_bytes b' = replicate k 10 @ encode_request resp"
    "bcap b' = bcap (buf_in conn)"
    using read_answer [of ?c3 os "encode_request resp" j] C w(2-4) k sz ne len(2) by auto
  obtain recv fr' b'' where q: "etdb_connect_recv (unreturned ch) (may_grow ch) (?c3\<lparr>buf_in := b'\<rparr>) =
      Some (Inr (?c3\<lparr>recv_cmd := recv, free_cmd := fr', buf_in := b''\<rparr>))"
    "map (slice_bytes (?c3\<lparr>recv_cmd := recv, free_cmd := fr', buf_in := b''\<rparr>)) recv = resp" "buf_bytes b'' = [10]" "buf_wf b''"
    "bcap b'' = bcap (buf_in conn)"
    using recv_complete [of "?c3\<lparr>buf_in := b'\<rparr>" k resp "unreturned ch" "may_grow ch"] r(2-4) C g(2-4) len(1) k(2) by auto
  let ?c4 = "?c3\<lparr>recv_cmd := recv, free_cmd := fr', buf_in := b''\<rparr>"
  have "recv \<noteq> []" using q(2) g(3) by auto
  moreover have "\<not> int (length (encode_request resp)) \<le> 0" using ne by simp
  ultimately have "await_answer ch (reads ch) ?c2 = Some (Inr ?c4)"
    unfolding rd using w(1) r(1) q(1) by simp
  then have "client_call ch args conn = Some (Some resp, ?c4, encode_request args)"
    using c1(1) fl(1,4) q(2) by (simp add: client_call_alt etdb_client_request_def del: await_answer.simps)
  moreover have "client_ready ?c4" using C fl(2,3) q(3-5) by (simp add: client_ready_def)
  moreover have "bcap (buf_in ?c4) = bcap (buf_in conn)" using q(5) by simp
  ultimately show ?thesis by blast
qed

end
