(* ===== verification/Sys.thy ===== *)
theory Sys
  imports Handlers
begin

text \<open>
  The commands of the system, \<open>src/modules/etdb_sys.c\<close>, the list of all modules
  (\<open>src/etdb_modules.c\<close>) and the call of a handler through its pointer.
\<close>

section \<open>Information\<close>

definition etdb_database_info_version :: bytes where
  "etdb_database_info_version = str ''1.0.0''"

definition newline :: bytes where
  "newline = [10]"

definition etdb_sys_info_handler :: "host \<Rightarrow> server \<Rightarrow> int \<Rightarrow> reply" where
  "etdb_sys_info_handler hst srv slot =
     (let info_mem = etdb_database_info_mem (database srv);
          info_keys = etdb_database_info_keys (no_return hst) (database srv)
      in with_bytes srv slot 0
        [str ''version: '' @ etdb_database_info_version @ newline @ str ''mem: '' @ print_d info_mem @
         newline @ str ''keys: '' @ print_d info_keys])"

text \<open>The average is a division of two \<open>long int\<close>.\<close>

definition perf_line :: "etdb_command \<Rightarrow> bytes" where
  "perf_line cmd =
     cmd_name cmd @ str '':'' @ str '' calls->'' @ print_d (calls cmd) @
     str '' time_proc->'' @ print_d (if calls cmd \<noteq> 0 then time_proc cmd sdiv calls cmd else 0) @
     str '' time_proc_max->'' @ print_d (time_proc_max cmd)"

definition etdb_sys_perf_handler :: "bytes list \<Rightarrow> server \<Rightarrow> int \<Rightarrow> reply" where
  "etdb_sys_perf_handler args srv slot =
     (case etdb_module_find_command (command_trie srv) (args ! 1) of
        None \<Rightarrow> only_code srv slot (-1)
      | Some p \<Rightarrow> with_bytes srv slot 0 [perf_line (command_at (modules srv) p)])"

section \<open>The slot of a connection\<close>

text \<open>\<open>etdb_atoi\<close> stores through the pointer only on success; \<open>slot\<close> starts as 0.\<close>

definition etdb_sys_use_handler :: "bytes list \<Rightarrow> server \<Rightarrow> int \<Rightarrow> reply" where
  "etdb_sys_use_handler args srv slot =
     (let (status, n) = etdb_atoi (args ! 1); new = sint n
      in if status < 0 \<or> new \<le> 0 \<or> new > etdb_database_sys_max_slot then only_code srv slot (-1)
         else only_code srv (new - 1) 0)"

text \<open>The handler of \<open>where\<close> has no \<open>return\<close>.\<close>

definition etdb_sys_where_handler :: "host \<Rightarrow> server \<Rightarrow> int \<Rightarrow> reply" where
  "etdb_sys_where_handler hst srv slot = with_bytes srv slot (no_return hst) [print_d (slot + 1)]"

section \<open>Other commands\<close>

definition etdb_help_msg :: bytes where
  "etdb_help_msg = concat (map (\<lambda>l. str l @ newline)
     [''command list:'',
      ''set get del                          key-value operation'',
      ''hset hget hdel                       hashtable operation'',
      ''sadd sdel smembers sismember         set operation'',
      ''lpush rpush ltop rtop lpop rpop      list operation'',
      ''spset spget spdel sprect siknn geo_hash_info      spatial index operation'']) @
     str ''bgsave                               system command''"

definition etdb_sys_help_handler :: "server \<Rightarrow> int \<Rightarrow> reply" where
  "etdb_sys_help_handler srv slot = with_bytes srv slot 0 [etdb_help_msg]"

text \<open>
  In the child, \<open>fork\<close> yields 0; it writes the file and exits, or comes back when the file cannot
  be opened.
\<close>

definition etdb_sys_bgsave_handler :: "host \<Rightarrow> server \<Rightarrow> int \<Rightarrow> reply" where
  "etdb_sys_bgsave_handler hst srv slot =
     (if bgsave_pid srv > 0 then only_code srv slot (-1)
      else
        let pid = fork_result hst; srv = srv\<lparr>bgsave_pid := pid\<rparr> in
        if pid = -1 then only_code srv slot (-1)
        else if pid = 0 then (if db_file_opens hst then None else only_code srv slot 0)
        else only_code srv slot 0)"

definition etdb_sys_ping_handler :: "server \<Rightarrow> int \<Rightarrow> reply" where
  "etdb_sys_ping_handler srv slot = only_code srv slot 0"

definition etdb_sys_sync_handler :: "server \<Rightarrow> int \<Rightarrow> reply" where
  "etdb_sys_sync_handler srv slot = only_code srv slot (-1)"

definition etdb_sys_commands :: "etdb_command list" where
  "etdb_sys_commands =
     [command ''info'' ETDB_CMD_FLAG_NOARG H_sys_info,
      command ''perf'' ETDB_CMD_FLAG_ARG1 H_sys_perf,
      command ''use'' ETDB_CMD_FLAG_ARG1 H_sys_use,
      command ''where'' ETDB_CMD_FLAG_NOARG H_sys_where,
      command ''help'' (ETDB_CMD_FLAG_NOARG OR ETDB_CMD_FLAG_ARG1) H_sys_help,
      command ''bgsave'' ETDB_CMD_FLAG_NOARG H_sys_bgsave,
      command ''ping'' ETDB_CMD_FLAG_NOARG H_sys_ping,
      command ''sync'' ETDB_CMD_FLAG_NOARG H_sys_sync]"

definition etdb_sys_module :: etdb_module where
  "etdb_sys_module = module ''sys'' etdb_sys_commands"

section \<open>All modules\<close>

definition etdb_modules :: "etdb_module list" where
  "etdb_modules =
     [etdb_kv_module, etdb_hash_module, etdb_list_module, etdb_set_module, etdb_sidx_module,
      etdb_sys_module]"

definition call_handler :: "handler \<Rightarrow> host \<Rightarrow> bytes list \<Rightarrow> server \<Rightarrow> int \<Rightarrow> reply" where
  "call_handler h hst args srv slot =
     (case h of
        H_kv_set \<Rightarrow> etdb_kv_set_handler hst args srv slot
      | H_kv_get \<Rightarrow> etdb_kv_get_handler args srv slot
      | H_kv_del \<Rightarrow> etdb_kv_del_handler args srv slot
      | H_kv_matchlongest \<Rightarrow> etdb_kv_matchlongest_handler args srv slot
      | H_hash_set \<Rightarrow> etdb_hash_set_handler hst args srv slot
      | H_hash_get \<Rightarrow> etdb_hash_get_handler args srv slot
      | H_hash_del \<Rightarrow> etdb_hash_del_handler args srv slot
      | H_list_lpush \<Rightarrow> etdb_list_lpush_handler hst args srv slot
      | H_list_rpush \<Rightarrow> etdb_list_rpush_handler hst args srv slot
      | H_list_lpop \<Rightarrow> etdb_list_lpop_handler args srv slot
      | H_list_rpop \<Rightarrow> etdb_list_rpop_handler args srv slot
      | H_list_ltop \<Rightarrow> etdb_list_ltop_handler args srv slot
      | H_list_rtop \<Rightarrow> etdb_list_rtop_handler args srv slot
      | H_set_add \<Rightarrow> etdb_set_add_handler args srv slot
      | H_set_del \<Rightarrow> etdb_set_del_handler args srv slot
      | H_set_members \<Rightarrow> etdb_set_members_handler args srv slot
      | H_set_ismember \<Rightarrow> etdb_set_ismember_handler args srv slot
      | H_sp_set \<Rightarrow> etdb_sp_set_handler hst args srv slot
      | H_sp_get \<Rightarrow> etdb_sp_get_handler args srv slot
      | H_sp_del \<Rightarrow> etdb_sp_del_handler args srv slot
      | H_sp_rect \<Rightarrow> etdb_sp_rect_handler args srv slot
      | H_sp_knn \<Rightarrow> etdb_sp_knn_handler srv slot
      | H_geo_hash_info \<Rightarrow> etdb_geo_hash_info_handler srv slot
      | H_sys_info \<Rightarrow> etdb_sys_info_handler hst srv slot
      | H_sys_perf \<Rightarrow> etdb_sys_perf_handler args srv slot
      | H_sys_use \<Rightarrow> etdb_sys_use_handler args srv slot
      | H_sys_where \<Rightarrow> etdb_sys_where_handler hst srv slot
      | H_sys_help \<Rightarrow> etdb_sys_help_handler srv slot
      | H_sys_bgsave \<Rightarrow> etdb_sys_bgsave_handler hst srv slot
      | H_sys_ping \<Rightarrow> etdb_sys_ping_handler srv slot
      | H_sys_sync \<Rightarrow> etdb_sys_sync_handler srv slot)"

end
