(* ===== verification/Serv.thy ===== *)
theory Serv
  imports Sys Connection
begin

text \<open>
  One request of a connection, \<open>src/etdb_serv.c\<close>: the number of arguments is checked against
  the flags of the command, the handler is called and its code and answer are queued, and the
  statistics of the command are updated.

  A request is the list of its strings (the slices of theory \<open>Resp\<close> read from the buffer);
  lowering the name of the command in place is a new head of that list. \<open>t_start\<close> and \<open>t_end\<close>
  are the two readings of the clock, \<open>ok\<close> tells which reallocations of the output buffer succeed.
\<close>

section \<open>Requests as bytes\<close>

text \<open>\<open>src/store/etdb_bytes.c\<close>: every string and a space.\<close>

fun total_len_loop :: "bytes list \<Rightarrow> nat \<Rightarrow> nat" where
  "total_len_loop [] total_len = total_len"
| "total_len_loop (b # bs) total_len = total_len_loop bs (total_len + (length b + 1))"

definition etdb_bytes_total_len :: "bytes list \<Rightarrow> nat" where
  "etdb_bytes_total_len bs = total_len_loop bs 0"

text \<open>The memory from \<open>pos\<close> on is overwritten string by string.\<close>

fun etdb_bytes_total_copy :: "bytes list \<Rightarrow> bytes \<Rightarrow> bytes" where
  "etdb_bytes_total_copy [] mem = mem"
| "etdb_bytes_total_copy (b # bs) mem =
     b @ [32] @ etdb_bytes_total_copy bs (drop (length b + 1) mem)"

definition etdb_resp_tolower :: "bytes list \<Rightarrow> bytes list" where
  "etdb_resp_tolower req = (case req of [] \<Rightarrow> [] | c # as \<Rightarrow> etdb_str_tolower c # as)"

section \<open>Arity\<close>

definition has_flag :: "32 word \<Rightarrow> 32 word \<Rightarrow> bool" where
  "has_flag fl f \<longleftrightarrow> fl AND f \<noteq> 0"

definition etdb_serv_parse_args :: "bytes list \<Rightarrow> etdb_command \<Rightarrow> int" where
  "etdb_serv_parse_args req cmd =
     (let cmd_cnt = int (length req) - 1; fl = flags cmd in
      if cmd_cnt = 0 then
        (if \<not> has_flag fl ETDB_CMD_FLAG_NOARG then -1 else 0)
      else if cmd_cnt = 1 then
        (if has_flag fl ETDB_CMD_FLAG_ARG1MORE then 0
         else if \<not> has_flag fl ETDB_CMD_FLAG_ARG1 then -1 else 0)
      else if cmd_cnt = 2 then
        (if has_flag fl ETDB_CMD_FLAG_ARG1MORE then 0
         else if has_flag fl ETDB_CMD_FLAG_ARG2MORE then 0
         else if \<not> has_flag fl ETDB_CMD_FLAG_ARG2 then -1 else 0)
      else if cmd_cnt = 3 then
        (if has_flag fl ETDB_CMD_FLAG_ARG1MORE then 0
         else if has_flag fl ETDB_CMD_FLAG_ARG2MORE then 0
         else if has_flag fl ETDB_CMD_FLAG_ARG3MORE then 0
         else if \<not> has_flag fl ETDB_CMD_FLAG_ARG3 then -1 else 0)
      else if cmd_cnt = 4 then
        (if has_flag fl ETDB_CMD_FLAG_ARG1MORE then 0
         else if has_flag fl ETDB_CMD_FLAG_ARG2MORE then 0
         else if has_flag fl ETDB_CMD_FLAG_ARG3MORE then 0
         else if has_flag fl ETDB_CMD_FLAG_ARG4MORE then 0
         else if \<not> has_flag fl ETDB_CMD_FLAG_ARG4 then -1 else 0)
      else (if has_flag fl ETDB_CMD_FLAG_ARG5MORE then 0 else -1))"

section \<open>Execution\<close>

definition unknown_command :: bytes where
  "unknown_command = str ''Unkown Command: ''"

text \<open>The record allocated for the answer is filled from \<open>mem\<close>, its length is computed first.\<close>

definition unknown_reply :: "bytes list \<Rightarrow> bytes \<Rightarrow> bytes" where
  "unknown_reply req mem =
     (let len = length unknown_command + etdb_bytes_total_len req;
          pos = etdb_bytes_total_copy req (drop (length unknown_command) mem)
      in take len (unknown_command @ pos))"

definition count_call :: "etdb_command \<Rightarrow> etdb_command" where
  "count_call cmd = cmd\<lparr>calls := calls cmd + 1\<rparr>"

definition count_time :: "int \<Rightarrow> int \<Rightarrow> etdb_command \<Rightarrow> etdb_command" where
  "count_time t_start t_end cmd =
     (let cmd = cmd\<lparr>time_proc := time_proc cmd + (t_end - t_start)\<rparr>
      in if time_proc_max cmd < t_end - t_start then cmd\<lparr>time_proc_max := t_end - t_start\<rparr> else cmd)"

definition change_command :: "int \<times> int \<Rightarrow> (etdb_command \<Rightarrow> etdb_command) \<Rightarrow> server \<Rightarrow> server" where
  "change_command p f srv =
     srv\<lparr>modules := put_command (modules srv) p (f (command_at (modules srv) p))\<rparr>"

text \<open>The result holds the server, the connection and whether its output is to be watched.\<close>

definition etdb_serv_exec_proc ::
    "host \<Rightarrow> (nat \<Rightarrow> bool) \<Rightarrow> int \<Rightarrow> int \<Rightarrow> bytes \<Rightarrow> bytes list \<Rightarrow> server \<Rightarrow> etdb_connection \<Rightarrow>
     (server \<times> etdb_connection \<times> bool) option"
where
  "etdb_serv_exec_proc hst ok t_start t_end mem req srv conn =
     (let req = etdb_resp_tolower req;
          cmd = etdb_module_find_command (command_trie srv) (req ! 0)
      in Option.bind
        (case cmd of
           Some p \<Rightarrow>
             if etdb_serv_parse_args req (command_at (modules srv) p) < 0
             then map_option (\<lambda>conn. (srv, conn)) (etdb_connect_send_to_buf ok conn [unknown_reply req mem])
             else
               let srv = change_command p count_call srv in
               Option.bind
                 (call_handler (handler (command_at (modules srv) p)) hst req srv (slot conn))
                 (\<lambda>(ret, srv, sl, resp).
                   map_option (\<lambda>conn. (change_command p (count_time t_start t_end) srv, conn))
                     (etdb_connect_send_to_buf ok (conn\<lparr>slot := sl\<rparr>)
                        ((if ret = 0 then str ''+OK'' else str ''+FAIL'') # resp)))
         | None \<Rightarrow> map_option (\<lambda>conn. (srv, conn)) (etdb_connect_send_to_buf ok conn [unknown_reply req mem]))
        (\<lambda>(srv, conn). Some (srv, conn, bsize (buf_out conn) > 0)))"

end
