(* ===== verification/Event.thy ===== *)
theory Event
  imports Prelude
begin

unbundle bit_operations_syntax

text \<open>
  The event manager, \<open>src/etdb_event.c\<close> and \<open>src/etdb_epoll.c\<close>: a table from descriptors to the
  flags watched, kept in step with the interest list of the kernel.

  \<open>interest\<close> is that list, and \<open>epoll_ctl\<close> does what epoll(7) documents: \<open>EPOLL_CTL_ADD\<close> fails for
  a descriptor in the list, \<open>EPOLL_CTL_MOD\<close> and \<open>EPOLL_CTL_DEL\<close> for one that is not in it.
  A connection in \<open>data.ptr\<close> is its address, an integer.
\<close>

section \<open>State\<close>

record etdb_event =
  efd :: int
  s_flags :: "32 word"
  events :: "32 word"
  data_num :: int
  data_ptr :: int

record etdb_event_mgr =
  table :: "int \<Rightarrow> etdb_event option"
  event_size :: int
  interest :: "int \<Rightarrow> 32 word option"

definition FDEVENT_NONE :: "32 word" where "FDEVENT_NONE = 0"
definition FDEVENT_IN :: "32 word" where "FDEVENT_IN = push_bit 0 1"
definition FDEVENT_PRI :: "32 word" where "FDEVENT_PRI = push_bit 1 1"
definition FDEVENT_OUT :: "32 word" where "FDEVENT_OUT = push_bit 2 1"
definition FDEVENT_HUP :: "32 word" where "FDEVENT_HUP = push_bit 3 1"
definition FDEVENT_ERR :: "32 word" where "FDEVENT_ERR = push_bit 4 1"

definition EPOLLIN :: "32 word" where "EPOLLIN = 1"
definition EPOLLPRI :: "32 word" where "EPOLLPRI = 2"
definition EPOLLOUT :: "32 word" where "EPOLLOUT = 4"
definition EPOLLERR :: "32 word" where "EPOLLERR = 8"
definition EPOLLHUP :: "32 word" where "EPOLLHUP = 16"

lemmas fdevent_defs = FDEVENT_NONE_def FDEVENT_IN_def FDEVENT_PRI_def FDEVENT_OUT_def
  FDEVENT_HUP_def FDEVENT_ERR_def

lemmas epoll_defs = EPOLLIN_def EPOLLPRI_def EPOLLOUT_def EPOLLERR_def EPOLLHUP_def

datatype epoll_op = EPOLL_CTL_ADD | EPOLL_CTL_MOD | EPOLL_CTL_DEL

definition epoll_ctl ::
    "(int \<Rightarrow> 32 word option) \<Rightarrow> epoll_op \<Rightarrow> int \<Rightarrow> 32 word \<Rightarrow> int \<times> (int \<Rightarrow> 32 word option)" where
  "epoll_ctl il opn fd ev =
     (case opn of
        EPOLL_CTL_ADD \<Rightarrow> if il fd = None then (0, il(fd \<mapsto> ev)) else (-1, il)
      | EPOLL_CTL_MOD \<Rightarrow> if il fd \<noteq> None then (0, il(fd \<mapsto> ev)) else (-1, il)
      | EPOLL_CTL_DEL \<Rightarrow> if il fd \<noteq> None then (0, il(fd := None)) else (-1, il))"

section \<open>Operations\<close>

definition etdb_event_mgr_init :: etdb_event_mgr where
  "etdb_event_mgr_init = \<lparr>table = (\<lambda>_. None), event_size = 8, interest = (\<lambda>_. None)\<rparr>"

definition new_event :: "int \<Rightarrow> etdb_event" where
  "new_event fd = \<lparr>efd = fd, s_flags = FDEVENT_NONE, events = 0, data_num = 0, data_ptr = 0\<rparr>"

text \<open>The table grows to hold \<open>fd\<close>; the new part is cleared.\<close>

definition etdb_event_mgr_get_event :: "etdb_event_mgr \<Rightarrow> int \<Rightarrow> etdb_event_mgr \<times> etdb_event" where
  "etdb_event_mgr_get_event mgr fd =
     (let mgr = (if event_size mgr \<le> fd
                 then mgr\<lparr>table := (\<lambda>i. if event_size mgr \<le> i \<and> i < fd + 1 then None else table mgr i),
                          event_size := fd + 1\<rparr>
                 else mgr)
      in case table mgr fd of
           None \<Rightarrow> (mgr\<lparr>table := (table mgr)(fd \<mapsto> new_event fd)\<rparr>, new_event fd)
         | Some ev \<Rightarrow> (mgr, ev))"

definition put_event :: "int \<Rightarrow> etdb_event \<Rightarrow> etdb_event_mgr \<Rightarrow> etdb_event_mgr" where
  "put_event fd ev mgr = mgr\<lparr>table := (table mgr)(fd \<mapsto> ev)\<rparr>"

definition epoll_events :: "32 word \<Rightarrow> 32 word" where
  "epoll_events fl =
     (if fl AND FDEVENT_IN \<noteq> 0 then EPOLLIN else 0) OR (if fl AND FDEVENT_OUT \<noteq> 0 then EPOLLOUT else 0)"

definition etdb_event_mgr_isset :: "etdb_event_mgr \<Rightarrow> int \<Rightarrow> 32 word \<Rightarrow> etdb_event_mgr \<times> bool" where
  "etdb_event_mgr_isset mgr fd flag =
     (let (mgr, ev) = etdb_event_mgr_get_event mgr fd in (mgr, s_flags ev AND flag \<noteq> 0))"

definition etdb_event_mgr_set ::
    "etdb_event_mgr \<Rightarrow> int \<Rightarrow> 32 word \<Rightarrow> int \<Rightarrow> int \<Rightarrow> int \<times> etdb_event_mgr" where
  "etdb_event_mgr_set mgr fd fl num ptr =
     (let (mgr, ev) = etdb_event_mgr_get_event mgr fd;
          ctl_op = (if s_flags ev \<noteq> 0 then EPOLL_CTL_MOD else EPOLL_CTL_ADD);
          ev = ev\<lparr>s_flags := s_flags ev OR fl, data_num := num, data_ptr := ptr\<rparr>;
          mgr = put_event fd ev mgr;
          (ret, il) = epoll_ctl (interest mgr) ctl_op fd (epoll_events (s_flags ev));
          mgr = mgr\<lparr>interest := il\<rparr>
      in if ret = -1 then (-1, mgr) else (0, mgr))"

definition etdb_event_mgr_del :: "etdb_event_mgr \<Rightarrow> int \<Rightarrow> int \<times> etdb_event_mgr" where
  "etdb_event_mgr_del mgr fd =
     (let (ret, il) = epoll_ctl (interest mgr) EPOLL_CTL_DEL fd 0;
          mgr = mgr\<lparr>interest := il\<rparr>
      in if ret = -1 then (-1, mgr)
         else let (mgr, ev) = etdb_event_mgr_get_event mgr fd
              in (0, put_event fd (ev\<lparr>s_flags := FDEVENT_NONE\<rparr>) mgr))"

definition etdb_event_mgr_ctr :: "etdb_event_mgr \<Rightarrow> int \<Rightarrow> 32 word \<Rightarrow> int \<times> etdb_event_mgr" where
  "etdb_event_mgr_ctr mgr fd fl =
     (let (mgr, ev) = etdb_event_mgr_get_event mgr fd;
          ev = ev\<lparr>s_flags := s_flags ev AND NOT fl\<rparr>;
          mgr = put_event fd ev mgr;
          ctl_op = (if s_flags ev \<noteq> 0 then EPOLL_CTL_MOD else EPOLL_CTL_DEL);
          (ret, il) = epoll_ctl (interest mgr) ctl_op fd (epoll_events (s_flags ev));
          mgr = mgr\<lparr>interest := il\<rparr>
      in if ret = -1 then (-1, mgr) else (0, mgr))"

text \<open>
  \<open>epoll_wait\<close> is given by the descriptors it reports with their flags, \<open>EINTR\<close> or another
  error. The list of ready events is the list of their descriptors; \<^term>\<open>None\<close> is \<open>NULL\<close>.
\<close>

datatype wait_result = Ready "(int \<times> 32 word) list" | WInterrupted | WFailed

definition fd_events :: "32 word \<Rightarrow> 32 word" where
  "fd_events e =
     FDEVENT_NONE OR (if e AND EPOLLIN \<noteq> 0 then FDEVENT_IN else 0)
       OR (if e AND EPOLLPRI \<noteq> 0 then FDEVENT_IN else 0)
       OR (if e AND EPOLLOUT \<noteq> 0 then FDEVENT_OUT else 0)
       OR (if e AND EPOLLHUP \<noteq> 0 then FDEVENT_ERR else 0)
       OR (if e AND EPOLLERR \<noteq> 0 then FDEVENT_ERR else 0)"

fun ready_loop :: "(int \<times> 32 word) list \<Rightarrow> etdb_event_mgr \<Rightarrow> int list \<Rightarrow> etdb_event_mgr \<times> int list" where
  "ready_loop [] mgr queue = (mgr, queue)"
| "ready_loop ((fd, e) # rs) mgr queue =
     ready_loop rs (put_event fd ((the (table mgr fd))\<lparr>events := fd_events e\<rparr>) mgr) (queue @ [fd])"

definition etdb_event_mgr_wait :: "etdb_event_mgr \<Rightarrow> wait_result \<Rightarrow> etdb_event_mgr \<times> int list option" where
  "etdb_event_mgr_wait mgr w =
     (case w of
        WInterrupted \<Rightarrow> (mgr, Some [])
      | WFailed \<Rightarrow> (mgr, None)
      | Ready rs \<Rightarrow> (let (mgr, q) = ready_loop rs mgr [] in (mgr, Some q)))"

section \<open>The table and the interest list\<close>

text \<open>The flags watched for a descriptor, 0 for one the table does not hold.\<close>

definition watched :: "etdb_event_mgr \<Rightarrow> int \<Rightarrow> 32 word" where
  "watched mgr fd = (case table mgr fd of None \<Rightarrow> 0 | Some ev \<Rightarrow> s_flags ev)"

definition watch_inv :: "etdb_event_mgr \<Rightarrow> bool" where
  "watch_inv mgr \<longleftrightarrow>
     (\<forall>fd. interest mgr fd = (if watched mgr fd = 0 then None else Some (epoll_events (watched mgr fd)))) \<and>
     (\<forall>fd. event_size mgr \<le> fd \<longrightarrow> table mgr fd = None) \<and>
     (\<forall>fd ev. table mgr fd = Some ev \<longrightarrow> efd ev = fd)"

lemma watch_invD:
  assumes "watch_inv mgr"
  shows "interest mgr fd = (if watched mgr fd = 0 then None else Some (epoll_events (watched mgr fd)))"
    "event_size mgr \<le> fd \<Longrightarrow> table mgr fd = None" "table mgr fd = Some ev \<Longrightarrow> efd ev = fd"
  using assms by (auto simp: watch_inv_def)

lemma init_watch_inv: "watch_inv etdb_event_mgr_init"
  by (simp add: watch_inv_def etdb_event_mgr_init_def watched_def)

lemma get_event_spec:
  assumes "watch_inv mgr" "etdb_event_mgr_get_event mgr fd = (mgr', ev)"
  shows "s_flags ev = watched mgr fd" "table mgr' fd = Some ev" "efd ev = fd" "interest mgr' = interest mgr"
    "watched mgr' = watched mgr" "watch_inv mgr'" "i \<noteq> fd \<Longrightarrow> table mgr' i = table mgr i" "fd < event_size mgr'"
    "table mgr fd = Some ev' \<Longrightarrow> ev = ev'"
proof -
  note inv = watch_invD [OF assms(1)]
  let ?m = "if event_size mgr \<le> fd
    then mgr\<lparr>table := (\<lambda>i. if event_size mgr \<le> i \<and> i < fd + 1 then None else table mgr i), event_size := fd + 1\<rparr>
    else mgr"
  have m: "table ?m = table mgr" "interest ?m = interest mgr" "fd < event_size ?m"
    "event_size mgr \<le> event_size ?m"
    using inv(2) by (auto simp: fun_eq_iff)
  have m': "mgr' = (if table mgr fd = None then ?m\<lparr>table := (table mgr)(fd \<mapsto> new_event fd)\<rparr> else ?m)"
    "ev = (case table mgr fd of None \<Rightarrow> new_event fd | Some e \<Rightarrow> e)"
    using assms(2) unfolding etdb_event_mgr_get_event_def Let_def m(1)
    by (auto split: option.splits)
  show w: "watched mgr' = watched mgr"
    by (auto simp: fun_eq_iff m'(1) watched_def m(1) new_event_def FDEVENT_NONE_def split: option.splits)
  show "s_flags ev = watched mgr fd"
    by (simp add: m'(2) watched_def new_event_def FDEVENT_NONE_def split: option.splits)
  show t: "table mgr' fd = Some ev" using m(1) by (simp add: m' split: option.splits)
  show e: "efd ev = fd" using inv(3) by (simp add: m'(2) new_event_def split: option.splits)
  show i: "interest mgr' = interest mgr" using m(2) by (simp add: m'(1))
  show o: "table mgr' i = table mgr i" if "i \<noteq> fd" for i using m(1) that by (simp add: m'(1))
  show s: "fd < event_size mgr'" using m(3) by (simp add: m'(1))
  have s': "event_size mgr \<le> event_size mgr'" using m(4) by (simp add: m'(1))
  show "ev = ev'" if "table mgr fd = Some ev'" using that by (simp add: m'(2))
  show "watch_inv mgr'"
    unfolding watch_inv_def
  proof (intro conjI allI impI)
    show "interest mgr' j = (if watched mgr' j = 0 then None else Some (epoll_events (watched mgr' j)))" for j
      using inv(1) by (simp add: i w)
    show "table mgr' j = None" if "event_size mgr' \<le> j" for j
      using that s s' inv(2) [of j] o [of j] by (cases "j = fd") auto
    show "efd x = j" if "table mgr' j = Some x" for j x
      using that t e inv(3) [of j x] o [of j] by (cases "j = fd") auto
  qed
qed

lemma get_event_interest:
  "etdb_event_mgr_get_event (mgr\<lparr>interest := il\<rparr>) fd =
     (case etdb_event_mgr_get_event mgr fd of (m, ev) \<Rightarrow> (m\<lparr>interest := il\<rparr>, ev))"
  by (cases mgr) (auto simp: etdb_event_mgr_get_event_def Let_def fun_eq_iff split: option.split)

text \<open>Writing the flags of a descriptor to the table and to the interest list.\<close>

lemma put_event_inv:
  assumes "watch_inv mgr" "fd < event_size mgr" "efd ev = fd"
    "il = (interest mgr)(fd := if s_flags ev = 0 then None else Some (epoll_events (s_flags ev)))"
  shows "watch_inv ((put_event fd ev mgr)\<lparr>interest := il\<rparr>)"
    "watched ((put_event fd ev mgr)\<lparr>interest := il\<rparr>) = (watched mgr)(fd := s_flags ev)"
proof -
  show w: "watched ((put_event fd ev mgr)\<lparr>interest := il\<rparr>) = (watched mgr)(fd := s_flags ev)"
    by (auto simp: watched_def put_event_def fun_eq_iff)
  show "watch_inv ((put_event fd ev mgr)\<lparr>interest := il\<rparr>)"
    using assms watch_invD [OF assms(1)] unfolding watch_inv_def w by (auto simp: put_event_def)
qed

lemma event_mgr_set:
  assumes "watch_inv mgr" "fl \<noteq> 0"
  obtains mgr' where "etdb_event_mgr_set mgr fd fl num ptr = (0, mgr')" "watch_inv mgr'"
    "watched mgr' = (watched mgr)(fd := watched mgr fd OR fl)"
    "\<And>i. i \<noteq> fd \<Longrightarrow> table mgr' i = table mgr i" "\<exists>ev. table mgr' fd = Some ev \<and> data_ptr ev = ptr"
proof -
  obtain m ev where g: "etdb_event_mgr_get_event mgr fd = (m, ev)" by fastforce
  note s = get_event_spec [OF assms(1) g]
  let ?ev = "ev\<lparr>s_flags := s_flags ev OR fl, data_num := num, data_ptr := ptr\<rparr>"
  let ?il = "(interest m)(fd := if s_flags ?ev = 0 then None else Some (epoll_events (s_flags ?ev)))"
  have nz: "s_flags ?ev \<noteq> 0" using assms(2) by (simp add: or_eq_0_iff)
  have "epoll_ctl (interest m) (if s_flags ev \<noteq> 0 then EPOLL_CTL_MOD else EPOLL_CTL_ADD) fd
      (epoll_events (s_flags ?ev)) = (0, ?il)"
    using nz s(1,4) watch_invD(1) [OF assms(1), of fd] by (simp add: epoll_ctl_def)
  then have r: "etdb_event_mgr_set mgr fd fl num ptr = (0, (put_event fd ?ev m)\<lparr>interest := ?il\<rparr>)"
    by (simp add: etdb_event_mgr_set_def g Let_def put_event_def)
  have "efd ?ev = fd" using s(3) by simp
  note p = put_event_inv [OF s(6,8) this refl]
  show thesis
    by (rule that [OF r p(1)]) (use p(2) s in \<open>simp_all add: put_event_def\<close>)
qed

lemma event_mgr_del:
  assumes "watch_inv mgr"
  obtains r mgr' where "etdb_event_mgr_del mgr fd = (r, mgr')" "watch_inv mgr'"
    "watched mgr' = (watched mgr)(fd := 0)" "r = (if watched mgr fd = 0 then -1 else 0)"
    "\<And>i. i \<noteq> fd \<Longrightarrow> table mgr' i = table mgr i"
proof (cases "watched mgr fd = 0")
  case True
  then have "etdb_event_mgr_del mgr fd = (-1, mgr)"
    using watch_invD(1) [OF assms, of fd] by (simp add: etdb_event_mgr_del_def epoll_ctl_def)
  then show thesis using that assms True by (simp add: fun_upd_idem)
next
  case False
  let ?m1 = "mgr\<lparr>interest := (interest mgr)(fd := None)\<rparr>"
  obtain m ev where g: "etdb_event_mgr_get_event mgr fd = (m, ev)" by fastforce
  have g1: "etdb_event_mgr_get_event ?m1 fd = (m\<lparr>interest := (interest mgr)(fd := None)\<rparr>, ev)"
    using g by (simp add: get_event_interest)
  note s = get_event_spec [OF assms g]
  let ?ev = "ev\<lparr>s_flags := FDEVENT_NONE\<rparr>"
  let ?il = "(interest m)(fd := if s_flags ?ev = 0 then None else Some (epoll_events (s_flags ?ev)))"
  have il: "?il = (interest mgr)(fd := None)" using s(4) by (simp add: FDEVENT_NONE_def)
  have r: "etdb_event_mgr_del mgr fd = (0, (put_event fd ?ev m)\<lparr>interest := ?il\<rparr>)"
    using False watch_invD(1) [OF assms, of fd] g1
    unfolding il by (simp add: etdb_event_mgr_del_def epoll_ctl_def put_event_def)
  have "efd ?ev = fd" using s(3) by simp
  note p = put_event_inv [OF s(6,8) this refl]
  show thesis
    by (rule that [OF r p(1)]) (use p(2) s False in \<open>simp_all add: put_event_def FDEVENT_NONE_def\<close>)
qed

lemma event_mgr_ctr:
  assumes "watch_inv mgr"
  obtains r mgr' where "etdb_event_mgr_ctr mgr fd fl = (r, mgr')" "watch_inv mgr'"
    "watched mgr' = (watched mgr)(fd := watched mgr fd AND NOT fl)"
    "r = (if watched mgr fd = 0 then -1 else 0)" "\<And>i. i \<noteq> fd \<Longrightarrow> table mgr' i = table mgr i"
    "\<And>ev. table mgr fd = Some ev \<Longrightarrow> \<exists>ev'. table mgr' fd = Some ev' \<and> data_ptr ev' = data_ptr ev"
proof -
  obtain m ev where g: "etdb_event_mgr_get_event mgr fd = (m, ev)" by fastforce
  note s = get_event_spec [OF assms g]
  let ?ev = "ev\<lparr>s_flags := s_flags ev AND NOT fl\<rparr>"
  let ?il = "(interest m)(fd := if s_flags ?ev = 0 then None else Some (epoll_events (s_flags ?ev)))"
  have ze: "watched mgr fd = 0 \<Longrightarrow> s_flags ?ev = 0 \<and> interest m fd = None"
    using s(1,4) watch_invD(1) [OF assms, of fd] by simp
  have "epoll_ctl (interest m) (if s_flags ?ev \<noteq> 0 then EPOLL_CTL_MOD else EPOLL_CTL_DEL) fd
      (epoll_events (s_flags ?ev)) = (if watched mgr fd = 0 then -1 else 0, ?il)"
    using ze s(1,4) watch_invD(1) [OF assms, of fd] by (auto simp: epoll_ctl_def fun_upd_idem)
  then have r: "etdb_event_mgr_ctr mgr fd fl =
      (if watched mgr fd = 0 then -1 else 0, (put_event fd ?ev m)\<lparr>interest := ?il\<rparr>)"
    by (simp add: etdb_event_mgr_ctr_def g Let_def put_event_def)
  have "efd ?ev = fd" using s(3) by simp
  note p = put_event_inv [OF s(6,8) this refl]
  show thesis
    by (rule that [OF r p(1)]) (use p(2) s in \<open>auto simp: put_event_def\<close>)
qed

end
