(* ===== verification/File_Config.thy ===== *)
theory File_Config
  imports Strings Trie_Model
begin

text \<open>
  The configuration file, \<open>src/etdb_file_config.c\<close>, and the log, \<open>src/store/etdb_log.c\<close>.

  The trie maps the name of an option, in upper case, to the address of its value: a \<open>size_t\<close>,
  the bytes and a final zero, kept in \<open>cvalues\<close>. \<open>alloc\<close> gives an address outside of the given
  set, a file is the list of its bytes.
\<close>

record file_config =
  ctrie :: trie
  cvalues :: "int \<Rightarrow> bytes option"

definition MAX_CONFIG_LINE_SIZE :: nat where
  "MAX_CONFIG_LINE_SIZE = 512"

section \<open>Reading the file\<close>

text \<open>\<open>while(end >= 0 && (buf[end] == ' ' || buf[end] == '\n'))\<close>; the result is \<open>end + 1\<close>.\<close>

fun back_blanks :: "bytes \<Rightarrow> nat \<Rightarrow> nat" where
  "back_blanks buf 0 = 0"
| "back_blanks buf (Suc e) =
     (if buf ! e = 32 \<or> buf ! e = 10 then back_blanks buf e else Suc e)"

text \<open>\<open>while(pos < end && buf[pos] == ' ')\<close>\<close>

function front_blanks :: "bytes \<Rightarrow> nat \<Rightarrow> nat \<Rightarrow> nat" where
  "front_blanks buf pos e =
     (if pos < e \<and> buf ! pos = 32 then front_blanks buf (pos + 1) e else pos)"
  by pat_completeness auto
termination by (relation "measure (\<lambda>(_, pos, e). e - pos)") auto

declare front_blanks.simps [simp del]

text \<open>
  \<open>end\<close> is -1 for the empty line: \<open>n\<close> is \<open>end + 1\<close>. The line is the part between the blanks
  when it has two bytes at least.
\<close>

definition config_line :: "bytes \<Rightarrow> bytes option" where
  "config_line buf =
     (let n = length buf;
          pos = front_blanks buf 0 (n - 1)
      in if n > 0 \<and> buf ! pos = 35 then None
         else let e = back_blanks buf n
              in if int e - 1 \<le> int pos then None else Some (take (e - pos) (drop pos buf)))"

definition etdb_file_config_parse_line ::
    "(int set \<Rightarrow> int) \<Rightarrow> bytes \<Rightarrow> file_config \<Rightarrow> file_config option" where
  "etdb_file_config_parse_line alloc buf cfg =
     (case config_line buf of
        None \<Rightarrow> Some cfg
      | Some line \<Rightarrow>
          (case etdb_str_split line 61 2 of (splits, splits_num) \<Rightarrow>
             if splits_num = 2 then
               do {
                 let kb = str_bytes line (splits ! 0);
                 let vb = str_bytes line (splits ! 1);
                 k \<leftarrow> etdb_trim kb;
                 v \<leftarrow> etdb_trim vb;
                 let a = alloc (dom (cvalues cfg));
                 (t, old) \<leftarrow> etdb_trie_update (ctrie cfg) (etdb_str_toupper (str_bytes kb k)) a;
                 Some (cfg\<lparr>ctrie := t, cvalues := (cvalues cfg)(a \<mapsto> str_bytes vb v)\<rparr>)
               }
             else Some cfg))"

text \<open>
  \<open>fgets(buf, 512, fp)\<close>: at most 511 bytes, up to and with the next newline. \<open>strlen\<close> stops at
  the first zero byte.
\<close>

fun take_line :: "nat \<Rightarrow> bytes \<Rightarrow> bytes \<times> bytes" where
  "take_line 0 s = ([], s)"
| "take_line (Suc n) [] = ([], [])"
| "take_line (Suc n) (c # s) =
     (if c = 10 then ([c], s) else (case take_line n s of (l, r) \<Rightarrow> (c # l, r)))"

lemma take_line_length: "length (snd (take_line n s)) \<le> length s"
  by (induction n s rule: take_line.induct) (auto split: prod.splits simp: le_SucI)

lemma take_line_shorter: "s \<noteq> [] \<Longrightarrow> length (snd (take_line (Suc n) s)) < length s"
  using take_line_length [of n "tl s"]
  by (cases s) (auto split: prod.splits simp: less_Suc_eq_le)

function config_lines :: "bytes \<Rightarrow> bytes list" where
  "config_lines s =
     (if s = [] then []
      else let (l, r) = take_line (MAX_CONFIG_LINE_SIZE - 1) s
           in takeWhile (\<lambda>c. c \<noteq> 0) l # config_lines r)"
  by pat_completeness auto
termination
proof (relation "measure length")
  fix s :: bytes and x l r
  assume "s \<noteq> []" "x = take_line (MAX_CONFIG_LINE_SIZE - 1) s" "(l, r) = x"
  then show "(r, s) \<in> measure length"
    using take_line_shorter [of s 510] by (simp add: MAX_CONFIG_LINE_SIZE_def) (metis snd_conv)
qed simp

declare config_lines.simps [simp del]

fun parse_lines ::
    "(int set \<Rightarrow> int) \<Rightarrow> bytes list \<Rightarrow> file_config \<Rightarrow> file_config option" where
  "parse_lines alloc [] cfg = Some cfg"
| "parse_lines alloc (l # ls) cfg =
     Option.bind (etdb_file_config_parse_line alloc l cfg) (parse_lines alloc ls)"

text \<open>\<^term>\<open>Inl\<close> is the exit code of the process when the file cannot be opened.\<close>

definition etdb_init_file_config ::
    "(int set \<Rightarrow> int) \<Rightarrow> bytes option \<Rightarrow> file_config \<Rightarrow> (int + file_config) option" where
  "etdb_init_file_config alloc fp raw =
     (case fp of
        None \<Rightarrow> Some (Inl 1)
      | Some s \<Rightarrow>
          map_option Inr (parse_lines alloc (config_lines s) (raw\<lparr>ctrie := etdb_trie_init (ctrie raw)\<rparr>)))"

section \<open>Options\<close>

definition etdb_file_config_get_int :: "file_config \<Rightarrow> bytes \<Rightarrow> int \<Rightarrow> int" where
  "etdb_file_config_get_int cfg key ini =
     (let i = etdb_trie_exact_match_search (ctrie cfg) key
      in if i < 0 then ini
         else (case etdb_atoi (the (cvalues cfg i)) of (r, ret) \<Rightarrow> if r < 0 then ini else sint ret))"

text \<open>The value is a C string: it ends at its first zero byte.\<close>

definition etdb_file_config_get_string :: "file_config \<Rightarrow> bytes \<Rightarrow> bytes \<Rightarrow> bytes" where
  "etdb_file_config_get_string cfg key ini =
     (let i = etdb_trie_exact_match_search (ctrie cfg) key
      in if i < 0 then ini
         else if length (the (cvalues cfg i)) \<le> 0 then ini
         else takeWhile (\<lambda>c. c \<noteq> 0) (the (cvalues cfg i)))"

end
