(* ===== verification/Server.thy ===== *)
theory Server
  imports Serv Sockets Event File_Config
begin

text \<open>
  The server process, \<open>src/etdb_server.c\<close>: start-up, signals, and the cycle that waits for
  events, moves bytes and executes the requests that are complete.

  A connection is known by its address; \<open>conns\<close> are the ones that exist and \<open>wire\<close> collects what
  was sent to each. \<open>event_io\<close> is what the system calls made for one connection in one round
  return. Closing a connection in the second loop frees the memory that the loop reads the next
  connection from: \<open>still_linked\<close> tells whether that memory is unchanged.
\<close>

record server_state =
  srv :: server
  mgr :: etdb_event_mgr
  server_conn :: int
  server_fd :: int
  conns :: "int \<Rightarrow> etdb_connection option"
  wire :: "int \<Rightarrow> bytes"
  conn_cnt :: "32 word"
  quit :: bool

record event_io =
  accepts :: "accept_result list"
  new_addr :: int
  raw_in :: "nat \<Rightarrow> byte"
  raw_out :: "nat \<Rightarrow> byte"
  got :: "read_result list"
  took :: "io_result list"
  junk :: int
  grows :: "nat \<Rightarrow> bool"
  answer_mem :: bytes
  time1 :: int
  time2 :: int
  still_linked :: bool

section \<open>Start and signals\<close>

datatype signal = SIGTERM | SIGINT | SIGCHLD | SIGPIPE

definition etdb_process_get_status :: "server \<Rightarrow> server" where
  "etdb_process_get_status s = s\<lparr>bgsave_pid := 0\<rparr>"

definition etdb_signal_handler :: "signal \<Rightarrow> server_state \<Rightarrow> server_state" where
  "etdb_signal_handler sig s =
     (case sig of
        SIGTERM \<Rightarrow> s\<lparr>quit := True\<rparr>
      | SIGINT \<Rightarrow> s\<lparr>quit := True\<rparr>
      | SIGCHLD \<Rightarrow> s\<lparr>srv := etdb_process_get_status (srv s)\<rparr>
      | SIGPIPE \<Rightarrow> s)"

text \<open>
  The listening connection gets the address \<open>addr\<close>; without it the log message ends the process,
  \<^term>\<open>None\<close>. \<open>ip\<close> and \<open>port\<close> are what the configuration says.
\<close>

definition listen_ip :: "file_config \<Rightarrow> bytes" where
  "listen_ip cfg = etdb_file_config_get_string cfg (str ''IP'') (str ''0.0.0.0'')"

definition listen_port :: "file_config \<Rightarrow> int" where
  "listen_port cfg = etdb_file_config_get_int cfg (str ''PORT'') 19000"

definition etdb_init_server_conn ::
    "int \<Rightarrow> bool \<Rightarrow> bool \<Rightarrow> bool \<Rightarrow> int \<Rightarrow> server_state \<Rightarrow> server_state option" where
  "etdb_init_server_conn sockfd reused bound listening addr s =
     (case fst (etdb_connect_listen sockfd reused bound listening) of
        None \<Rightarrow> None
      | Some c \<Rightarrow>
          let m = snd (etdb_event_mgr_set etdb_event_mgr_init (sock c) FDEVENT_IN 0 addr)
          in Some (s\<lparr>server_conn := addr, server_fd := sock c, mgr := m\<rparr>))"

section \<open>One event\<close>

definition put_conn :: "int \<Rightarrow> etdb_connection \<Rightarrow> server_state \<Rightarrow> server_state" where
  "put_conn a c s = s\<lparr>conns := (conns s)(a \<mapsto> c)\<rparr>"

definition watch :: "int \<Rightarrow> 32 word \<Rightarrow> int \<Rightarrow> int \<Rightarrow> server_state \<Rightarrow> server_state" where
  "watch fd fl num a s = s\<lparr>mgr := snd (etdb_event_mgr_set (mgr s) fd fl num a)\<rparr>"

definition unwatch :: "int \<Rightarrow> 32 word \<Rightarrow> server_state \<Rightarrow> server_state" where
  "unwatch fd fl s = s\<lparr>mgr := snd (etdb_event_mgr_ctr (mgr s) fd fl)\<rparr>"

text \<open>Count, stop watching, close.\<close>

definition drop_conn :: "int \<Rightarrow> server_state \<Rightarrow> server_state" where
  "drop_conn a s =
     s\<lparr>conn_cnt := conn_cnt s - 1,
       mgr := snd (etdb_event_mgr_del (mgr s) (sock (the (conns s a)))),
       conns := (conns s)(a := None)\<rparr>"

definition accept_event :: "event_io \<Rightarrow> server_state \<Rightarrow> server_state option" where
  "accept_event io s =
     map_option (\<lambda>r. case r of
         None \<Rightarrow> s
       | Some c \<Rightarrow>
           let c = etdb_connect_noblock c True;
               s = watch (sock c) FDEVENT_IN 0 (new_addr io) (put_conn (new_addr io) c s)
           in s\<lparr>conn_cnt := conn_cnt s + 1, wire := (wire s)(new_addr io := [])\<rparr>)
       (etdb_connect_accept (raw_in io) (raw_out io) (accepts io))"

definition read_event :: "event_io \<Rightarrow> int \<Rightarrow> server_state \<Rightarrow> int list \<Rightarrow> (server_state \<times> int list) option" where
  "read_event io a s ready =
     map_option (\<lambda>(n, c).
         if n \<le> 0 then (drop_conn a (put_conn a c s), ready)
         else (put_conn a c s, ready @ [a]))
       (etdb_connect_read_to_buf (the (conns s a)) (got io))"

definition write_event :: "event_io \<Rightarrow> int \<Rightarrow> server_state \<Rightarrow> int list \<Rightarrow> (server_state \<times> int list) option" where
  "write_event io a s ready =
     map_option (\<lambda>(n, c, sent, _).
         let s = (put_conn a c s)\<lparr>wire := (wire s)(a := wire s a @ sent)\<rparr>
         in if n \<le> 0 then (drop_conn a s, ready)
            else if bsize (buf_out c) = 0 then
              let s = unwatch (sock c) FDEVENT_OUT s
              in if bsize (buf_in c) \<noteq> 0 then (s, ready @ [a])
                 else (watch (sock c) FDEVENT_IN 1 a s, ready)
            else (s, ready))
       (etdb_connect_write (the (conns s a)) (took io))"

definition handle_event ::
    "event_io \<Rightarrow> int \<Rightarrow> server_state \<Rightarrow> int list \<Rightarrow> (server_state \<times> int list) option" where
  "handle_event io fd s ready =
     (let ev = the (table (mgr s) fd);
          a = data_ptr ev
      in if a = server_conn s then map_option (\<lambda>s. (s, ready)) (accept_event io s)
         else if events ev AND FDEVENT_ERR \<noteq> 0 then Some (drop_conn a s, ready)
         else if events ev AND FDEVENT_IN \<noteq> 0 then read_event io a s ready
         else if events ev AND FDEVENT_OUT \<noteq> 0 then write_event io a s ready
         else Some (s, ready))"

fun event_loop ::
    "(int \<Rightarrow> event_io) \<Rightarrow> int list \<Rightarrow> server_state \<Rightarrow> int list \<Rightarrow> (server_state \<times> int list) option" where
  "event_loop ios [] s ready = Some (s, ready)"
| "event_loop ios (fd # fds) s ready =
     Option.bind (handle_event (ios fd) fd s ready) (\<lambda>(s, ready). event_loop ios fds s ready)"

section \<open>Complete requests\<close>

text \<open>The request is executed and a non-empty output is watched for.\<close>

definition exec_request :: "host \<Rightarrow> event_io \<Rightarrow> int \<Rightarrow> etdb_connection \<Rightarrow> server_state \<Rightarrow> server_state option" where
  "exec_request hst io a c s =
     map_option (\<lambda>(sv, c, out).
         let s = (put_conn a c s)\<lparr>srv := sv\<rparr>
         in if out then watch (sock c) FDEVENT_OUT 1 a s else s)
       (etdb_serv_exec_proc hst (grows io) (time1 io) (time2 io) (answer_mem io)
          (map (slice_bytes c) (recv_cmd c)) (srv s) c)"

definition process_conn :: "host \<Rightarrow> event_io \<Rightarrow> int \<Rightarrow> server_state \<Rightarrow> server_state option" where
  "process_conn hst io a s =
     Option.bind (etdb_connect_recv (junk io) (grows io) (the (conns s a)))
       (\<lambda>r. case r of
          Inl c \<Rightarrow> if still_linked io then Some (drop_conn a (put_conn a c s)) else None
        | Inr c \<Rightarrow>
            if recv_cmd c = [] then
              let s = put_conn a c s;
                  (m, set) = etdb_event_mgr_isset (mgr s) (sock c) FDEVENT_IN;
                  s = s\<lparr>mgr := m\<rparr>
              in Some (if \<not> set then watch (sock c) FDEVENT_IN 1 a s else s)
            else exec_request hst io a c (put_conn a c s))"

fun process_loop ::
    "host \<Rightarrow> (int \<Rightarrow> event_io) \<Rightarrow> int list \<Rightarrow> server_state \<Rightarrow> server_state option" where
  "process_loop hst ios [] s = Some s"
| "process_loop hst ios (a # as) s =
     Option.bind (process_conn hst (ios a) a s) (process_loop hst ios as)"

section \<open>The cycle\<close>

text \<open>
  One round: \<^term>\<open>Inr\<close> when the cycle goes on, \<^term>\<open>Inl\<close> when waiting failed. \<open>ev_io\<close> is given by
  descriptor and \<open>req_io\<close> by connection.
\<close>

record round_io =
  waited :: wait_result
  ev_io :: "int \<Rightarrow> event_io"
  req_io :: "int \<Rightarrow> event_io"

definition cycle_round :: "host \<Rightarrow> round_io \<Rightarrow> server_state \<Rightarrow> (server_state + server_state) option" where
  "cycle_round hst rd s =
     (let (m, evs) = etdb_event_mgr_wait (mgr s) (waited rd);
          s = s\<lparr>mgr := m\<rparr>
      in case evs of
           None \<Rightarrow> Some (Inl s)
         | Some fds \<Rightarrow>
             map_option Inr
               (Option.bind (event_loop (ev_io rd) fds s [])
                  (\<lambda>(s, ready). process_loop hst (req_io rd) ready s)))"

text \<open>\<open>while(!etdb_quit)\<close>: one round per element; \<^term>\<open>None\<close> also when the list ends before the loop.\<close>

fun etdb_master_cycle :: "host \<Rightarrow> round_io list \<Rightarrow> server_state \<Rightarrow> server_state option" where
  "etdb_master_cycle hst rds s =
     (if quit s then Some s
      else case rds of
             [] \<Rightarrow> None
           | rd # rds' \<Rightarrow>
               Option.bind (cycle_round hst rd s)
                 (\<lambda>r. case r of Inl s \<Rightarrow> Some s | Inr s \<Rightarrow> etdb_master_cycle hst rds' s))"

end
