(* ===== verification/Trie_Space.thy ===== *)
theory Trie_Space
  imports Trie_Model
begin

text \<open>
  The allocator of the trie: free slots and blocks.

  \<^item> \<open>slots t b\<close> are the free slots of block \<open>b\<close>; their \<open>check\<close> and \<open>base\<close> link them in one
    cycle that \<open>ehead\<close> points into, and \<open>num\<close> counts them (in block 0 one more, see
    \<open>free_count\<close>);
  \<^item> \<open>members l t\<close> are the blocks of each of the three lists, given by \<open>num\<close> and \<open>trial\<close>;
  \<^item> \<open>space_inv\<close> is the invariant, and every operation that takes or returns slots keeps it.
\<close>

definition nb :: "trie \<Rightarrow> int" where
  "nb t = tsize t div 256"

definition nxt :: "trie \<Rightarrow> int \<Rightarrow> int" where
  "nxt t e = - check_at t e"

definition prv :: "trie \<Rightarrow> int \<Rightarrow> int" where
  "prv t e = - base_at t e"

definition slots :: "trie \<Rightarrow> int \<Rightarrow> int set" where
  "slots t b = {e. 0 < e \<and> e < tsize t \<and> check_at t e < 0 \<and> e div 256 = b}"

definition free :: "trie \<Rightarrow> int set" where
  "free t = {e. 0 < e \<and> e < tsize t \<and> check_at t e < 0}"

fun members :: "blist \<Rightarrow> trie \<Rightarrow> int set" where
  "members Full t = insert 0 {b. 0 < b \<and> b < nb t \<and> bnum_at t b = 0}"
| "members Close t = {b. 0 < b \<and> b < nb t \<and> (bnum_at t b = 1 \<or> 1 < bnum_at t b \<and> btrial_at t b = 1)}"
| "members Open t = {b. 0 < b \<and> b < nb t \<and> 1 < bnum_at t b \<and> btrial_at t b \<noteq> 1}"

definition free_count :: "trie \<Rightarrow> int \<Rightarrow> int" where
  "free_count t b = int (card (slots t b)) + (if b = 0 then 1 else 0)"

definition size_ok :: "trie \<Rightarrow> bool" where
  "size_ok t \<longleftrightarrow> tsize t mod 256 = 0 \<and> 256 \<le> tsize t \<and> tsize t \<le> capacity t \<and> capacity t mod 256 = 0"

definition slots_ok :: "trie \<Rightarrow> int \<Rightarrow> bool" where
  "slots_ok t b \<longleftrightarrow> cycle (slots t b) (nxt t) (prv t) \<and>
     (slots t b \<noteq> {} \<longrightarrow> behead_at t b \<in> slots t b) \<and> bnum_at t b = free_count t b \<and>
     (btrial_at t b = 0 \<or> btrial_at t b = 1)"

definition lists_ok :: "trie \<Rightarrow> (blist \<Rightarrow> int set) \<Rightarrow> bool" where
  "lists_ok t M \<longleftrightarrow> (\<forall>l. ring (M l) (bnext_at t) (bprev_at t) \<and> head_of l t \<in> insert 0 (M l)) \<and>
     (\<forall>k l. k \<noteq> l \<longrightarrow> M k \<inter> M l = {}) \<and> 0 \<in> M Full"

definition rest_ok :: "trie \<Rightarrow> bool" where
  "rest_ok t \<longleftrightarrow>
     (\<forall>b. nb t \<le> b \<and> b < capacity t div 256 \<longrightarrow> bnum_at t b = 256 \<and> btrial_at t b = 0) \<and>
     (\<forall>e. (e \<in> free t \<or> tsize t \<le> e \<and> e < capacity t) \<longrightarrow> sibling_at t e = 0 \<and> child_at t e = 0)"

definition space_inv :: "trie \<Rightarrow> bool" where
  "space_inv t \<longleftrightarrow> size_ok t \<and> (\<forall>b. 0 \<le> b \<and> b < nb t \<longrightarrow> slots_ok t b) \<and>
     lists_ok t (\<lambda>l. members l t) \<and> rest_ok t"

section \<open>Free slots\<close>

lemma slots_free: "e \<in> slots t b \<longleftrightarrow> e \<in> free t \<and> e div 256 = b"
  by (auto simp: slots_def free_def)

lemma finite_free [simp]: "finite (free t)"
  by (rule finite_subset [of _ "{0..tsize t}"]) (auto simp: free_def)

lemma finite_slots [simp]: "finite (slots t b)"
  by (rule finite_subset [OF _ finite_free [of t]]) (auto simp: slots_free)

lemma zero_not_free [simp]: "0 \<notin> free t"
  by (simp add: free_def)

lemma size_nb: "size_ok t \<Longrightarrow> tsize t = 256 * nb t \<and> 0 < nb t"
  by (auto simp: size_ok_def nb_def)

lemma free_block: "size_ok t \<Longrightarrow> e \<in> free t \<Longrightarrow> 0 \<le> e div 256 \<and> e div 256 < nb t"
  using size_nb [of t] by (auto simp: free_def)

lemma free_slots_ok: "space_inv t \<Longrightarrow> e \<in> free t \<Longrightarrow> slots_ok t (e div 256)"
  using free_block [of t e] by (simp add: space_inv_def)

lemma free_links:
  assumes "space_inv t" "e \<in> free t"
  shows "nxt t e \<in> free t" "prv t e \<in> free t" "nxt t e div 256 = e div 256"
    "prv t e div 256 = e div 256" "prv t (nxt t e) = e" "nxt t (prv t e) = e"
proof -
  have r: "ring (slots t (e div 256)) (nxt t) (prv t)" and m: "e \<in> slots t (e div 256)"
    using free_slots_ok [OF assms] assms(2) by (auto simp: slots_ok_def cycle_def slots_free)
  show "nxt t e \<in> free t" "prv t e \<in> free t" "nxt t e div 256 = e div 256"
    "prv t e div 256 = e div 256" "prv t (nxt t e) = e" "nxt t (prv t e) = e"
    using ringD [OF r m] by (auto simp: slots_free)
qed

text \<open>A state that agrees on a block has the same slots there.\<close>

lemma slots_ok_cong:
  assumes "slots_ok t b" "slots t' b = slots t b"
    "\<And>e. e \<in> slots t b \<Longrightarrow> base_at t' e = base_at t e \<and> check_at t' e = check_at t e"
    "behead_at t' b = behead_at t b" "bnum_at t' b = bnum_at t b" "btrial_at t' b = btrial_at t b"
  shows "slots_ok t' b"
proof -
  have "cycle (slots t b) (nxt t') (prv t')"
    using assms(1,3) by (auto intro: cycle_cong simp: slots_ok_def nxt_def prv_def)
  then show ?thesis
    using assms by (simp add: slots_ok_def free_count_def)
qed

section \<open>Moving a block to another list\<close>

lemma lists_okD:
  assumes "lists_ok t M"
  shows "ring (M l) (bnext_at t) (bprev_at t)" "head_of l t \<in> insert 0 (M l)" "0 \<in> M Full"
    "k \<noteq> l \<Longrightarrow> M k \<inter> M l = {}"
  using assms by (auto simp: lists_ok_def)

lemma lists_okI:
  assumes "\<And>l. ring (M l) (bnext_at t) (bprev_at t)" "\<And>l. head_of l t \<in> insert 0 (M l)"
    "\<And>k l. k \<noteq> l \<Longrightarrow> M k \<inter> M l = {}" "0 \<in> M Full"
  shows "lists_ok t M"
  using assms by (simp add: lists_ok_def)

text \<open>Disjointness after a block left a list or joined one.\<close>

lemma disjoint_remove:
  assumes "k \<noteq> j \<Longrightarrow> M k \<inter> M j = {}" "k \<noteq> j"
  shows "(M(l := M l - {b})) k \<inter> (M(l := M l - {b})) j = {}"
  using assms by (cases "k = l"; cases "j = l") auto

lemma disjoint_insert:
  assumes "k \<noteq> j \<Longrightarrow> M k \<inter> M j = {}" "k \<noteq> j" "b \<notin> M k" "b \<notin> M j"
  shows "(M(l := insert b (M l))) k \<inter> (M(l := insert b (M l))) j = {}"
  using assms by (cases "k = l"; cases "j = l") auto

lemma lists_ok_cong:
  assumes "lists_ok t M" "bnext_at t' = bnext_at t" "bprev_at t' = bprev_at t"
    "\<And>l. head_of l t' = head_of l t" "\<And>l. M' l = M l"
  shows "lists_ok t' M'"
  using assms by (simp add: lists_ok_def)

lemma links_set_head: "bnext_at (set_head l x t) = bnext_at t" "bprev_at (set_head l x t) = bprev_at t"
  by (simp_all add: fun_eq_iff)

lemma pop_block_ok:
  assumes "lists_ok t M" "bi \<in> M l" "bi \<noteq> 0"
  shows "lists_ok (etdb_trie_pop_block t bi l (bi = bnext_at t bi)) (M(l := M l - {bi}))"
proof (cases "bi = bnext_at t bi")
  case True
  have prev: "bprev_at t bi = bi"
    using ringD(3) [OF lists_okD(1) [OF assms(1)] assms(2)] True by simp
  have "ring (M l - {bi}) (bnext_at t) (bprev_at t)"
    using ring_remove [OF lists_okD(1) [OF assms(1)] assms(2)] True prev by (simp add: fun_upd_idem)
  then have "ring ((M(l := M l - {bi})) k) (bnext_at t) (bprev_at t)" for k
    using lists_okD(1) [OF assms(1), of k] by simp
  moreover have "head_of k (set_head l 0 t) \<in> insert 0 ((M(l := M l - {bi})) k)" for k
    using lists_okD(2) [OF assms(1), of k] by simp
  ultimately show ?thesis
    unfolding etdb_trie_pop_block_def True [symmetric] if_P [OF refl]
    using lists_okD(3) [OF assms(1)] assms(3)
    by (intro lists_okI disjoint_remove lists_okD(4) [OF assms(1)]) (simp_all add: links_set_head)
next
  case False
  let ?t = "etdb_trie_pop_block t bi l False"
  have in_ring: "bnext_at t bi \<in> M l" "bprev_at t bi \<in> M l"
    using ringD [OF lists_okD(1) [OF assms(1)] assms(2)] by auto
  have links: "bnext_at ?t = (bnext_at t)(bprev_at t bi := bnext_at t bi)"
    "bprev_at ?t = (bprev_at t)(bnext_at t bi := bprev_at t bi)"
    using ringD [OF lists_okD(1) [OF assms(1)] assms(2)] False
    by (auto simp: etdb_trie_pop_block_def Let_def fun_eq_iff)
  have heads: "head_of k ?t = (if k = l \<and> bi = head_of l t then bnext_at t bi else head_of k t)" for k
    using ringD [OF lists_okD(1) [OF assms(1)] assms(2)] False
    by (auto simp: etdb_trie_pop_block_def Let_def)
  have "ring ((M(l := M l - {bi})) k) (bnext_at ?t) (bprev_at ?t)" for k
  proof (cases "k = l")
    case True
    then show ?thesis
      using ring_remove [OF lists_okD(1) [OF assms(1)] assms(2)] by (simp add: links)
  next
    case k: False
    then have "bnext_at t bi \<notin> M k" "bprev_at t bi \<notin> M k"
      using in_ring lists_okD(4) [OF assms(1), of k l] by auto
    then show ?thesis
      using k lists_okD(1) [OF assms(1), of k] by (simp add: links)
  qed
  moreover have "head_of k ?t \<in> insert 0 ((M(l := M l - {bi})) k)" for k
    using lists_okD(2) [OF assms(1), of k] in_ring(1) False by (auto simp: heads)
  ultimately show ?thesis
    using False lists_okD(3) [OF assms(1)] assms(3)
    by (intro lists_okI disjoint_remove lists_okD(4) [OF assms(1)]) simp_all
qed

lemma push_block_ok:
  assumes "lists_ok t M" "\<And>k. bi \<notin> M k" "is_empty \<longleftrightarrow> (head_of l t = 0 \<and> 0 \<notin> M l)" "bi \<noteq> 0"
  shows "lists_ok (etdb_trie_push_block t bi l is_empty) (M(l := insert bi (M l)))"
proof (cases is_empty)
  case True
  let ?t = "etdb_trie_push_block t bi l True"
  have links: "bnext_at ?t = (bnext_at t)(bi := bi)" "bprev_at ?t = (bprev_at t)(bi := bi)"
    by (auto simp: etdb_trie_push_block_def fun_eq_iff)
  have heads: "head_of k ?t = (if k = l then bi else head_of k t)" for k
    by (simp add: etdb_trie_push_block_def)
  have "ring ((M(l := insert bi (M l))) k) (bnext_at ?t) (bprev_at ?t)" for k
  proof (cases "k = l")
    case True
    then show ?thesis
      using ring_insert_single [OF lists_okD(1) [OF assms(1)] assms(2)] by (simp add: links)
  next
    case False
    then show ?thesis
      using assms(2) [of k] lists_okD(1) [OF assms(1), of k] by (simp add: links)
  qed
  moreover have "head_of k ?t \<in> insert 0 ((M(l := insert bi (M l))) k)" for k
    using lists_okD(2) [OF assms(1), of k] by (simp add: heads)
  ultimately show ?thesis
    using True lists_okD(3) [OF assms(1)]
    by (intro lists_okI disjoint_insert lists_okD(4) [OF assms(1)] assms(2)) simp_all
next
  case False
  let ?t = "etdb_trie_push_block t bi l False" and ?h = "head_of l t"
  have h: "?h \<in> M l"
    using assms(3) False lists_okD(2) [OF assms(1), of l] by auto
  have hp: "bprev_at t ?h \<in> M l" "bnext_at t (bprev_at t ?h) = ?h"
    using ringD [OF lists_okD(1) [OF assms(1)] h] by auto
  have ne: "?h \<noteq> bi" "bprev_at t ?h \<noteq> bi"
    using h hp assms(2) by auto
  have links: "bnext_at ?t = (bnext_at t)(bprev_at t ?h := bi, bi := ?h)"
    "bprev_at ?t = (bprev_at t)(?h := bi, bi := bprev_at t ?h)"
    using ne by (auto simp: etdb_trie_push_block_def Let_def fun_eq_iff)
  have heads: "head_of k ?t = (if k = l then bi else head_of k t)" for k
    by (simp add: etdb_trie_push_block_def Let_def)
  have "ring ((M(l := insert bi (M l))) k) (bnext_at ?t) (bprev_at ?t)" for k
  proof (cases "k = l")
    case True
    then show ?thesis
      using ring_insert_before [OF lists_okD(1) [OF assms(1)] h assms(2)] by (simp add: links)
  next
    case k: False
    then have "?h \<notin> M k" "bprev_at t ?h \<notin> M k"
      using h hp lists_okD(4) [OF assms(1), of k l] by auto
    then show ?thesis
      using k assms(2) [of k] lists_okD(1) [OF assms(1), of k] by (simp add: links)
  qed
  moreover have "head_of k ?t \<in> insert 0 ((M(l := insert bi (M l))) k)" for k
    using lists_okD(2) [OF assms(1), of k] by (simp add: heads)
  ultimately show ?thesis
    using False lists_okD(3) [OF assms(1)]
    by (intro lists_okI disjoint_insert lists_okD(4) [OF assms(1)] assms(2)) simp_all
qed

lemma pop_block_acc [simp]:
  "base_at (etdb_trie_pop_block t bi l z) = base_at t" "check_at (etdb_trie_pop_block t bi l z) = check_at t"
  "sibling_at (etdb_trie_pop_block t bi l z) = sibling_at t" "child_at (etdb_trie_pop_block t bi l z) = child_at t"
  "bnum_at (etdb_trie_pop_block t bi l z) = bnum_at t" "btrial_at (etdb_trie_pop_block t bi l z) = btrial_at t"
  "behead_at (etdb_trie_pop_block t bi l z) = behead_at t" "breject_at (etdb_trie_pop_block t bi l z) = breject_at t"
  "tsize (etdb_trie_pop_block t bi l z) = tsize t" "capacity (etdb_trie_pop_block t bi l z) = capacity t"
  "treject (etdb_trie_pop_block t bi l z) = treject t"
  by (auto simp: etdb_trie_pop_block_def Let_def fun_eq_iff)

lemma push_block_acc [simp]:
  "base_at (etdb_trie_push_block t bi l z) = base_at t" "check_at (etdb_trie_push_block t bi l z) = check_at t"
  "sibling_at (etdb_trie_push_block t bi l z) = sibling_at t" "child_at (etdb_trie_push_block t bi l z) = child_at t"
  "bnum_at (etdb_trie_push_block t bi l z) = bnum_at t" "btrial_at (etdb_trie_push_block t bi l z) = btrial_at t"
  "behead_at (etdb_trie_push_block t bi l z) = behead_at t" "breject_at (etdb_trie_push_block t bi l z) = breject_at t"
  "tsize (etdb_trie_push_block t bi l z) = tsize t" "capacity (etdb_trie_push_block t bi l z) = capacity t"
  "treject (etdb_trie_push_block t bi l z) = treject t"
  by (auto simp: etdb_trie_push_block_def Let_def fun_eq_iff)

lemma transfer_block_acc [simp]:
  "base_at (etdb_trie_transfer_block t bi k l) = base_at t" "check_at (etdb_trie_transfer_block t bi k l) = check_at t"
  "sibling_at (etdb_trie_transfer_block t bi k l) = sibling_at t" "child_at (etdb_trie_transfer_block t bi k l) = child_at t"
  "bnum_at (etdb_trie_transfer_block t bi k l) = bnum_at t" "btrial_at (etdb_trie_transfer_block t bi k l) = btrial_at t"
  "behead_at (etdb_trie_transfer_block t bi k l) = behead_at t" "breject_at (etdb_trie_transfer_block t bi k l) = breject_at t"
  "tsize (etdb_trie_transfer_block t bi k l) = tsize t" "capacity (etdb_trie_transfer_block t bi k l) = capacity t"
  "treject (etdb_trie_transfer_block t bi k l) = treject t"
  by (simp_all add: etdb_trie_transfer_block_def Let_def)

text \<open>A full block has no free slot, every other one has: the last condition.\<close>

lemma transfer_block_ok:
  assumes "lists_ok t M" "bi \<in> M k" "bi \<noteq> 0" "k \<noteq> l" "l = Full \<longleftrightarrow> bnum_at t bi = 0"
  shows "lists_ok (etdb_trie_transfer_block t bi k l) (M(k := M k - {bi}, l := insert bi (M l)))"
proof -
  let ?t = "etdb_trie_pop_block t bi k (bi = bnext_at t bi)"
  have a: "lists_ok ?t (M(k := M k - {bi}))"
    by (rule pop_block_ok [OF assms(1,2,3)])
  have b: "bi \<notin> (M(k := M k - {bi})) j" for j
    using assms(2) lists_okD(4) [OF assms(1), of j k] by auto
  have c: "(head_of l ?t = 0 \<and> bnum_at ?t bi \<noteq> 0) \<longleftrightarrow> (head_of l ?t = 0 \<and> 0 \<notin> (M(k := M k - {bi})) l)"
  proof (cases "l = Full")
    case True
    then show ?thesis using assms(4,5) lists_okD(3) [OF assms(1)] by simp
  next
    case False
    then show ?thesis
      using assms(4,5) lists_okD(3) [OF assms(1)] lists_okD(4) [OF assms(1), of l Full] by auto
  qed
  show ?thesis
    using push_block_ok [OF a b c assms(3)]
    by (simp only: etdb_trie_transfer_block_def Let_def fun_upd_other [OF assms(4) [symmetric]])
qed

end
