(* ===== verification/Trie_Alloc.thy ===== *)
theory Trie_Alloc
  imports Trie_Space
begin

text \<open>
  The operations that take a slot, return one, add a block and search for slots keep \<open>space_inv\<close>;
  each lemma says which slots are free afterwards and that the used entries are left alone.
\<close>

lemma members_cong:
  assumes "tsize t' = tsize t" "\<And>b. 0 < b \<Longrightarrow> bnum_at t' b = bnum_at t b"
    "\<And>b. 0 < b \<Longrightarrow> btrial_at t' b = btrial_at t b"
  shows "members l t' = members l t"
  using assms by (cases l) (auto simp: nb_def)

lemma free_count_nonneg: "0 \<le> free_count t b"
  by (simp add: free_count_def)

lemma slots_num:
  assumes "slots_ok t b" "b \<noteq> 0"
  shows "bnum_at t b = int (card (slots t b))"
  using assms by (simp add: slots_ok_def free_count_def)

lemma xor_free_ne: "(e :: int) \<in> free t \<Longrightarrow> i \<notin> free t \<Longrightarrow> e \<noteq> i"
  by auto

lemma links_eq: "check_at t' = check_at t \<Longrightarrow> nxt t' = nxt t" "base_at t' = base_at t \<Longrightarrow> prv t' = prv t"
  by (simp_all add: nxt_def prv_def fun_eq_iff)

lemma links_transfer [simp]:
  "nxt (etdb_trie_transfer_block t bi k l) = nxt t" "prv (etdb_trie_transfer_block t bi k l) = prv t"
  by (rule links_eq; simp)+

section \<open>Taking a slot\<close>

definition unlink :: "trie \<Rightarrow> int \<Rightarrow> trie" where
  "unlink t e =
     (let ta = put_check t (- base_at t e) (check_at t e);
          tb = put_base ta (- check_at ta e) (base_at ta e)
      in if e = behead_at tb (e div 256) then put_behead tb (e div 256) (- check_at tb e) else tb)"

definition use_slot :: "trie \<Rightarrow> int \<Rightarrow> byte \<Rightarrow> int \<Rightarrow> trie" where
  "use_slot t e label from = put_check (put_base t e (if label \<noteq> 0 then -1 else 0)) e from"

lemma pop_empty_node_unfold:
  assumes "0 \<le> base" "e = base XOR uint label" "bi = e div 256" "n = bnum_at t bi - 1"
    "t1 = put_bnum t bi n"
  shows "etdb_trie_pop_empty_node t base label from =
    (use_slot (if n = 0 \<and> bi \<noteq> 0 then etdb_trie_transfer_block t1 bi Close Full
       else if bi \<noteq> 0 \<and> n = 1 \<and> btrial_at t bi \<noteq> 1
         then etdb_trie_transfer_block (unlink t1 e) bi Open Close else unlink t1 e) e label from, e)"
proof -
  have nlt: "\<not> base < 0" using assms(1) by simp
  have un: "bnum_at (unlink t1 e) bi = n" "btrial_at (unlink t1 e) bi = btrial_at t bi"
    unfolding assms(3,5) unlink_def Let_def by simp_all
  have b1: "bnum_at t1 bi = n" unfolding assms(5) by simp
  show ?thesis
    unfolding etdb_trie_pop_empty_node_def Let_def if_not_P [OF nlt] split_conv assms(2) [symmetric]
      assms(3) [symmetric] assms(4) [symmetric] assms(5) [symmetric] b1
      unlink_def [unfolded Let_def, symmetric] use_slot_def [symmetric] un ETDB_TRIE_MAX_TRIAL_def
    by (simp only:)
qed

lemma unlink_acc:
  assumes "space_inv t" "e \<in> free t" "t1 = put_bnum t (e div 256) n"
  shows "nxt (unlink t1 e) = (nxt t)(prv t e := nxt t e)"
    "prv (unlink t1 e) = (prv t)(nxt t e := prv t e)"
    "behead_at (unlink t1 e) = (behead_at t)(e div 256 := (if behead_at t (e div 256) = e then nxt t e
       else behead_at t (e div 256)))"
    "sibling_at (unlink t1 e) = sibling_at t" "child_at (unlink t1 e) = child_at t"
    "bnum_at (unlink t1 e) = (bnum_at t)(e div 256 := n)" "btrial_at (unlink t1 e) = btrial_at t"
    "bnext_at (unlink t1 e) = bnext_at t" "bprev_at (unlink t1 e) = bprev_at t"
    "head_of l (unlink t1 e) = head_of l t" "tsize (unlink t1 e) = tsize t"
    "capacity (unlink t1 e) = capacity t"
  by (auto simp: unlink_def assms(3) Let_def nxt_def prv_def fun_eq_iff)

lemma use_slot_acc [simp]:
  "base_at (use_slot t e label from) = (base_at t)(e := (if label \<noteq> 0 then -1 else 0))"
  "check_at (use_slot t e label from) = (check_at t)(e := from)"
  "sibling_at (use_slot t e label from) = sibling_at t" "child_at (use_slot t e label from) = child_at t"
  "bnum_at (use_slot t e label from) = bnum_at t" "btrial_at (use_slot t e label from) = btrial_at t"
  "behead_at (use_slot t e label from) = behead_at t" "bnext_at (use_slot t e label from) = bnext_at t"
  "bprev_at (use_slot t e label from) = bprev_at t" "head_of l (use_slot t e label from) = head_of l t"
  "tsize (use_slot t e label from) = tsize t" "capacity (use_slot t e label from) = capacity t"
  by (auto simp: use_slot_def fun_eq_iff)

text \<open>
  What a state needs to have slot \<open>e\<close> taken out of its block: the links of the remaining free
  slots go around \<open>e\<close>.
\<close>

definition bypassed :: "trie \<Rightarrow> int \<Rightarrow> trie \<Rightarrow> bool" where
  "bypassed t e t' \<longleftrightarrow> free t' = free t - {e} \<and>
     (\<forall>x\<in>free t - {e}. nxt t' x = ((nxt t)(prv t e := nxt t e)) x) \<and>
     (\<forall>x\<in>free t - {e}. prv t' x = ((prv t)(nxt t e := prv t e)) x) \<and>
     (\<forall>b. behead_at t' b = (if b = e div 256 \<and> behead_at t b = e then nxt t e else behead_at t b)) \<and>
     (\<forall>b. bnum_at t' b = (if b = e div 256 then bnum_at t b - 1 else bnum_at t b)) \<and>
     btrial_at t' = btrial_at t \<and> tsize t' = tsize t \<and> capacity t' = capacity t"

lemma bypassed_slots:
  assumes "space_inv t" "e \<in> free t" "bypassed t e t'" "slots_ok t b"
  shows "slots_ok t' b"
proof (cases "b = e div 256")
  case True
  let ?S = "slots t b"
  have S: "slots t' b = ?S - {e}" and e: "e \<in> ?S"
    using assms(2,3) True by (auto simp: slots_free bypassed_def)
  have c: "cycle ?S (nxt t) (prv t)" and h: "behead_at t b \<in> ?S"
    using assms(4) e by (auto simp: slots_ok_def)
  have "cycle (?S - {e}) (nxt t') (prv t')"
    using assms(3) by (intro cycle_cong [OF cycle_remove [OF c e]]) (auto simp: bypassed_def slots_free)
  moreover have "behead_at t' b \<in> ?S - {e}" if "?S - {e} \<noteq> {}"
  proof -
    have "nxt t e \<noteq> e"
      using cycle_fixed [OF c e] that by auto
    then have "nxt t e \<in> ?S - {e}"
      using ringD(1) [OF cycle_ring [OF c] e] by simp
    then show ?thesis
      using h assms(3) True by (auto simp: bypassed_def)
  qed
  moreover have "bnum_at t' b = free_count t' b"
  proof -
    have "0 < card ?S" using e by (auto simp: card_gt_0_iff)
    then have "int (card (?S - {e})) = int (card ?S) - 1"
      using e by simp
    then show ?thesis
      using assms(3,4) True S by (simp add: bypassed_def slots_ok_def free_count_def)
  qed
  ultimately show ?thesis
    using assms(3,4) S by (simp add: slots_ok_def bypassed_def)
next
  case False
  have S: "slots t' b = slots t b"
    using assms(3) False by (auto simp: slots_free bypassed_def)
  have "base_at t' x = base_at t x \<and> check_at t' x = check_at t x" if "x \<in> slots t b" for x
  proof -
    have x: "x \<in> free t - {e}" using that False by (auto simp: slots_free)
    have "x \<noteq> prv t e" "x \<noteq> nxt t e"
      using that False free_links [OF assms(1,2)] by (auto simp: slots_free)
    then have "nxt t' x = nxt t x" "prv t' x = prv t x"
      using assms(3) x by (auto simp: bypassed_def)
    then show ?thesis by (simp add: nxt_def prv_def)
  qed
  then show ?thesis
    using assms(3) False by (intro slots_ok_cong [OF assms(4) S]) (auto simp: bypassed_def)
qed

lemma space_invI:
  assumes "size_ok t" "\<And>b. 0 \<le> b \<Longrightarrow> b < nb t \<Longrightarrow> slots_ok t b" "lists_ok t (\<lambda>l. members l t)" "rest_ok t"
  shows "space_inv t"
  using assms by (simp add: space_inv_def)

lemma bypassed_space:
  assumes "space_inv t" "e \<in> free t" "bypassed t e t'" "lists_ok t' (\<lambda>l. members l t')"
    "sibling_at t' = sibling_at t" "child_at t' = child_at t"
  shows "space_inv t'"
proof (rule space_invI)
  show "slots_ok t' b" if "0 \<le> b" "b < nb t'" for b
    using that assms(1,3) by (intro bypassed_slots [OF assms(1-3)]) (auto simp: space_inv_def bypassed_def nb_def)
  have "e div 256 < nb t"
    using assms(1,2) free_block by (auto simp: space_inv_def)
  then show "rest_ok t'"
    using assms(1,3,5,6) by (auto simp: rest_ok_def bypassed_def space_inv_def nb_def)
qed (use assms in \<open>auto simp: space_inv_def size_ok_def bypassed_def\<close>)

text \<open>The block of a slot that is taken is in the list it has to leave.\<close>

lemma members_after_take:
  assumes "space_inv t" "e \<in> free t" "e div 256 = bi" "tsize t' = tsize t" "btrial_at t' = btrial_at t"
    "\<And>b. bnum_at t' b = (if b = bi then bnum_at t b - 1 else bnum_at t b)"
  shows "bi \<noteq> 0 \<Longrightarrow> bnum_at t bi = 1 \<Longrightarrow>
      bi \<in> members Close t \<and> (\<forall>l. members l t' =
        ((\<lambda>l. members l t)(Close := members Close t - {bi}, Full := insert bi (members Full t))) l)"
    and "bi \<noteq> 0 \<Longrightarrow> bnum_at t bi = 2 \<Longrightarrow> btrial_at t bi \<noteq> 1 \<Longrightarrow>
      bi \<in> members Open t \<and> (\<forall>l. members l t' =
        ((\<lambda>l. members l t)(Open := members Open t - {bi}, Close := insert bi (members Close t))) l)"
    and "bi = 0 \<or> bnum_at t bi \<noteq> 1 \<and> (bnum_at t bi = 2 \<longrightarrow> btrial_at t bi = 1) \<Longrightarrow>
      members l t' = members l t"
proof -
  have b: "0 \<le> bi" "bi < nb t" "nb t' = nb t"
    using free_block [of t e] assms by (auto simp: space_inv_def nb_def)
  have pos: "0 < card (slots t bi)"
    using assms(2,3) by (auto simp: card_gt_0_iff slots_free)
  have num: "bi \<noteq> 0 \<Longrightarrow> 1 \<le> bnum_at t bi"
    using slots_num [of t bi] free_slots_ok [OF assms(1,2)] assms(3) pos by simp
  show "bi \<in> members Close t \<and> (\<forall>l. members l t' =
      ((\<lambda>l. members l t)(Close := members Close t - {bi}, Full := insert bi (members Full t))) l)"
    if "bi \<noteq> 0" "bnum_at t bi = 1"
  proof (intro conjI allI)
    show "members l t' = ((\<lambda>l. members l t)(Close := members Close t - {bi},
        Full := insert bi (members Full t))) l" for l
      using that b assms(5,6) by (cases l) (auto split: if_splits)
  qed (use that b in auto)
  show "bi \<in> members Open t \<and> (\<forall>l. members l t' =
      ((\<lambda>l. members l t)(Open := members Open t - {bi}, Close := insert bi (members Close t))) l)"
    if "bi \<noteq> 0" "bnum_at t bi = 2" "btrial_at t bi \<noteq> 1"
  proof (intro conjI allI)
    show "members l t' = ((\<lambda>l. members l t)(Open := members Open t - {bi},
        Close := insert bi (members Close t))) l" for l
      using that b assms(5,6) by (cases l) (auto split: if_splits)
  qed (use that b in auto)
  show "members l t' = members l t"
    if "bi = 0 \<or> bnum_at t bi \<noteq> 1 \<and> (bnum_at t bi = 2 \<longrightarrow> btrial_at t bi = 1)"
    using that b assms(5,6) num by (cases l) (auto split: if_splits)
qed

text \<open>The state behind a taken slot, and what is left alone.\<close>

definition slot_taken :: "trie \<Rightarrow> int \<Rightarrow> byte \<Rightarrow> int \<Rightarrow> trie \<Rightarrow> bool" where
  "slot_taken t e label from t' \<longleftrightarrow> space_inv t' \<and> free t' = free t - {e} \<and>
     tsize t' = tsize t \<and> capacity t' = capacity t \<and>
     (\<forall>i. i \<notin> free t \<longrightarrow> base_at t' i = base_at t i \<and> check_at t' i = check_at t i) \<and>
     base_at t' e = (if label \<noteq> 0 then -1 else 0) \<and> check_at t' e = from \<and>
     sibling_at t' = sibling_at t \<and> child_at t' = child_at t"

lemma pop_empty_node_taken:
  assumes "space_inv t" "e \<in> free t" "e = base XOR uint label" "0 \<le> base" "0 \<le> from"
  shows "\<exists>t'. etdb_trie_pop_empty_node t base label from = (t', e) \<and> slot_taken t e label from t'"
proof -
  define bi where "bi = e div 256"
  define n where "n = bnum_at t bi - 1"
  define t1 where "t1 = put_bnum t bi n"
  define t2 where "t2 = (if n = 0 \<and> bi \<noteq> 0 then etdb_trie_transfer_block t1 bi Close Full
       else if bi \<noteq> 0 \<and> n = 1 \<and> btrial_at t bi \<noteq> 1
         then etdb_trie_transfer_block (unlink t1 e) bi Open Close else unlink t1 e)"
  define t' where "t' = use_slot t2 e label from"
  have eq: "etdb_trie_pop_empty_node t base label from = (t', e)"
    unfolding t'_def t2_def by (rule pop_empty_node_unfold [OF assms(4,3) bi_def n_def t1_def])
  note un = unlink_acc [OF assms(1,2) t1_def [unfolded bi_def], folded bi_def]
  have t1: "base_at t1 = base_at t" "check_at t1 = check_at t" "sibling_at t1 = sibling_at t"
    "child_at t1 = child_at t" "bnum_at t1 = (bnum_at t)(bi := n)" "btrial_at t1 = btrial_at t"
    "behead_at t1 = behead_at t" "bnext_at t1 = bnext_at t" "bprev_at t1 = bprev_at t"
    "tsize t1 = tsize t" "capacity t1 = capacity t" "head_of l t1 = head_of l t" for l
    by (auto simp: t1_def fun_eq_iff)
  note lnk = free_links [OF assms(1,2)]
  have L: "lists_ok t (\<lambda>l. members l t)" and so: "size_ok t"
    using assms(1) by (auto simp: space_inv_def)
  have nums: "bnum_at t2 = (bnum_at t)(bi := n)" "btrial_at t2 = btrial_at t" "tsize t2 = tsize t"
    "capacity t2 = capacity t" "sibling_at t2 = sibling_at t" "child_at t2 = child_at t"
    by (simp_all add: t2_def un t1)
  have single: "slots t bi = {e}" if "n = 0" "bi \<noteq> 0"
  proof -
    have "card (slots t bi) = 1"
      using slots_num [of t bi] free_slots_ok [OF assms(1,2)] that by (simp add: n_def bi_def)
    moreover have "e \<in> slots t bi"
      using assms(2) by (simp add: slots_free bi_def)
    ultimately show ?thesis by (auto simp: card_1_singleton_iff)
  qed
  have self: "nxt t e = e \<and> prv t e = e" if "n = 0" "bi \<noteq> 0"
    using single [OF that] lnk by (auto simp: slots_free set_eq_iff bi_def)
  have head: "behead_at t2 b = (if b = bi \<and> behead_at t b = e then nxt t e else behead_at t b)" for b
    using self by (auto simp: t2_def un t1)
  have links: "nxt t2 = (nxt t)(prv t e := nxt t e)" "prv t2 = (prv t)(nxt t e := prv t e)"
    using self by (auto simp: t2_def un links_eq [of t1 t] t1)
  have un_links: "base_at t2 i = base_at t i \<and> check_at t2 i = check_at t i" if "i \<notin> free t" for i
  proof -
    have "i \<noteq> prv t e" "i \<noteq> nxt t e" using that lnk by auto
    then have "nxt t2 i = nxt t i" "prv t2 i = prv t i" by (simp_all add: links)
    then show ?thesis by (simp add: nxt_def prv_def)
  qed
  have fr: "free t' = free t - {e}"
  proof -
    have "x \<in> free t' \<longleftrightarrow> x \<in> free t - {e}" for x
    proof (cases "x = e")
      case False
      have "check_at t' x < 0 \<longleftrightarrow> check_at t x < 0"
      proof (cases "x = prv t e")
        case True
        have "0 < nxt t e" "check_at t x < 0"
          using lnk(1,2) True by (auto simp: free_def)
        moreover have "nxt t2 x = nxt t e" by (simp add: links True)
        ultimately show ?thesis using False by (simp add: t'_def nxt_def)
      next
        case x: False
        then have "nxt t2 x = nxt t x" by (simp add: links)
        then show ?thesis using False by (simp add: t'_def nxt_def)
      qed
      then show ?thesis using False by (auto simp: free_def t'_def nums)
    qed (use assms(5) in \<open>auto simp: free_def t'_def\<close>)
    then show ?thesis by blast
  qed
  have byp: "bypassed t e t'"
    using links head nums fr
    by (auto simp: bypassed_def t'_def nxt_def prv_def fun_eq_iff bi_def n_def)
  have mem: "lists_ok t' (\<lambda>l. members l t')"
  proof -
    have a: "tsize t' = tsize t" "btrial_at t' = btrial_at t"
      "bnum_at t' b = (if b = bi then bnum_at t b - 1 else bnum_at t b)" for b
      by (auto simp: t'_def nums n_def)
    note after = members_after_take [OF assms(1,2) bi_def [symmetric] a]
    have L1: "lists_ok t1 (\<lambda>l. members l t)" "lists_ok (unlink t1 e) (\<lambda>l. members l t)"
      by (rule lists_ok_cong [OF L]; simp add: t1 un)+
    have tacc: "bnext_at t' = bnext_at t2" "bprev_at t' = bprev_at t2" "head_of l t' = head_of l t2" for l
      by (simp_all add: t'_def)
    consider (full) "n = 0" "bi \<noteq> 0" | (close) "n = 1" "bi \<noteq> 0" "btrial_at t bi \<noteq> 1"
      | (same) "bi = 0 \<or> n \<noteq> 0 \<and> (n = 1 \<longrightarrow> btrial_at t bi = 1)" by blast
    then show ?thesis
    proof cases
      case full
      have "lists_ok t2 ((\<lambda>l. members l t)(Close := members Close t - {bi}, Full := insert bi (members Full t)))"
      proof -
        have t2: "t2 = etdb_trie_transfer_block t1 bi Close Full"
          using full by (simp add: t2_def)
        have "bnum_at t bi = 1" using full(1) by (simp add: n_def)
        then have "bi \<in> members Close t" using full(2) after(1) by blast
        then show ?thesis
          unfolding t2 using full by (intro transfer_block_ok [OF L1(1)]) (simp_all add: t1)
      qed
      note L2 = this
      have "bnum_at t bi = 1" using full(1) by (simp add: n_def)
      note m = after(1) [OF full(2) this, THEN conjunct2, rule_format]
      show ?thesis by (rule lists_ok_cong [OF L2 tacc m])
    next
      case close
      have "lists_ok t2 ((\<lambda>l. members l t)(Open := members Open t - {bi}, Close := insert bi (members Close t)))"
      proof -
        have t2: "t2 = etdb_trie_transfer_block (unlink t1 e) bi Open Close"
          using close by (simp add: t2_def)
        have "bnum_at t bi = 2" using close(1) by (simp add: n_def)
        then have "bi \<in> members Open t" using close(2,3) after(2) by blast
        then show ?thesis
          unfolding t2 using close by (intro transfer_block_ok [OF L1(2)]) (simp_all add: un)
      qed
      note L2 = this
      have "bnum_at t bi = 2" using close(1) by (simp add: n_def)
      note m = after(2) [OF close(2) this close(3), THEN conjunct2, rule_format]
      show ?thesis by (rule lists_ok_cong [OF L2 tacc m])
    next
      case same
      then have t2: "t2 = unlink t1 e" by (auto simp: t2_def)
      have "bi = 0 \<or> bnum_at t bi \<noteq> 1 \<and> (bnum_at t bi = 2 \<longrightarrow> btrial_at t bi = 1)"
        using same by (auto simp: n_def)
      note m = after(3) [OF this]
      show ?thesis by (rule lists_ok_cong [OF L1(2) tacc [unfolded t2] m])
    qed
  qed
  have "space_inv t'"
    by (rule bypassed_space [OF assms(1,2) byp mem]) (simp_all add: t'_def nums)
  then have "slot_taken t e label from t'"
    using fr un_links assms(2) by (auto simp: slot_taken_def t'_def nums)
  then show ?thesis using eq by blast
qed

end
