(* ===== verification/Trie_Places.thy ===== *)
theory Trie_Places
  imports Trie_Alloc
begin

text \<open>
  A fresh trie has the space invariant; adding a block and the two searches for free slots keep it
  and leave the used entries alone. \<open>find_interval_loop\<close> ends: every round moves a block off the
  open list.
\<close>

section \<open>A fresh trie\<close>

lemma init_acc:
  "base_at (etdb_trie_init raw) i = (if i = 0 then 0 else if i = 1 then -255
     else if 1 < i \<and> i < 256 then - (i - 1) else base_at raw i)"
  "check_at (etdb_trie_init raw) i = (if i = 0 \<or> i = 255 then -1
     else if 0 < i \<and> i < 256 then - (i + 1) else check_at raw i)"
  "0 \<le> i \<Longrightarrow> i < 256 \<Longrightarrow> sibling_at (etdb_trie_init raw) i = 0"
  "0 \<le> i \<Longrightarrow> i < 256 \<Longrightarrow> child_at (etdb_trie_init raw) i = 0"
  "bprev_at (etdb_trie_init raw) 0 = 0" "bnext_at (etdb_trie_init raw) 0 = 0"
  "bnum_at (etdb_trie_init raw) 0 = 256" "btrial_at (etdb_trie_init raw) 0 = 0"
  "behead_at (etdb_trie_init raw) 0 = 1" "head_of l (etdb_trie_init raw) = 0"
  "tsize (etdb_trie_init raw) = 256" "capacity (etdb_trie_init raw) = 256"
  by (cases l; auto simp: etdb_trie_init_def Let_def trie_acc_defs etdb_trie_node_realloc_def
      etdb_trie_ninfo_realloc_def etdb_trie_block_realloc_def)+

lemma init_free: "free (etdb_trie_init raw) = {1..255}"
  by (auto simp: free_def init_acc)

lemma init_members: "members l (etdb_trie_init raw) = (if l = Full then {0} else {})"
  by (cases l) (auto simp: nb_def init_acc)

lemma init_space: "space_inv (etdb_trie_init raw)"
proof (rule space_invI)
  let ?t = "etdb_trie_init raw"
  show "size_ok ?t" by (simp add: size_ok_def init_acc)
  show "rest_ok ?t" by (auto simp: rest_ok_def init_free init_acc nb_def)
  have "ring (members l ?t) (bnext_at ?t) (bprev_at ?t)" for l
    by (simp add: init_members ring_def init_acc)
  then show "lists_ok ?t (\<lambda>l. members l ?t)"
    by (intro lists_okI) (auto simp: init_members init_acc)
  show "slots_ok ?t b" if "0 \<le> b" "b < nb ?t" for b
  proof -
    have b: "b = 0" using that by (simp add: nb_def init_acc)
    have s: "slots ?t 0 = {1..255}"
      by (auto simp: slots_free init_free)
    have "cycle {1..255} (nxt ?t) (prv ?t)"
      by (rule cycle_interval) (auto simp: nxt_def prv_def init_acc)
    then show ?thesis
      by (simp add: b slots_ok_def s free_count_def init_acc)
  qed
qed

section \<open>Adding a block\<close>

text \<open>The first half of \<open>etdb_trie_add_block\<close>: the arrays have room for one more block.\<close>

definition grown :: "trie \<Rightarrow> trie" where
  "grown t = (if tsize t = capacity t
     then let old_cap = capacity t;
              ta = t\<lparr>capacity := 2 * capacity t\<rparr>;
              tb = etdb_trie_node_realloc ta (capacity ta) old_cap;
              tc = etdb_trie_ninfo_realloc tb (capacity tb) old_cap
          in etdb_trie_block_realloc tc (capacity tc div 256) (old_cap div 256)
     else t)"

lemma grown_acc:
  "tsize (grown t) = tsize t" "capacity (grown t) = (if tsize t = capacity t then 2 * capacity t else capacity t)"
  "head_of l (grown t) = head_of l t"
  "i < tsize t \<Longrightarrow> base_at (grown t) i = base_at t i" "i < tsize t \<Longrightarrow> check_at (grown t) i = check_at t i"
  "i < tsize t \<Longrightarrow> sibling_at (grown t) i = sibling_at t i" "i < tsize t \<Longrightarrow> child_at (grown t) i = child_at t i"
  "b < nb t \<Longrightarrow> bnext_at (grown t) b = bnext_at t b" "b < nb t \<Longrightarrow> bprev_at (grown t) b = bprev_at t b"
  "b < nb t \<Longrightarrow> bnum_at (grown t) b = bnum_at t b" "b < nb t \<Longrightarrow> btrial_at (grown t) b = btrial_at t b"
  "b < nb t \<Longrightarrow> behead_at (grown t) b = behead_at t b"
  by (cases l; auto simp: grown_def Let_def trie_acc_defs etdb_trie_node_realloc_def nb_def
      etdb_trie_ninfo_realloc_def etdb_trie_block_realloc_def)+

lemma grown_rest:
  assumes "size_ok t" "rest_ok t"
  shows "nb t \<le> b \<Longrightarrow> b < capacity (grown t) div 256 \<Longrightarrow> bnum_at (grown t) b = 256 \<and> btrial_at (grown t) b = 0"
    and "tsize t \<le> e \<Longrightarrow> e < capacity (grown t) \<Longrightarrow> sibling_at (grown t) e = 0 \<and> child_at (grown t) e = 0"
    and "tsize t + 256 \<le> capacity (grown t)" "capacity (grown t) mod 256 = 0"
proof -
  show "bnum_at (grown t) b = 256 \<and> btrial_at (grown t) b = 0"
    if "nb t \<le> b" "b < capacity (grown t) div 256"
  proof (cases "tsize t = capacity t")
    case True
    then have "b < 2 * capacity t div 256" using that(2) by (simp only: grown_acc if_True simp_thms)
    then show ?thesis
      using True that(1) by (simp add: grown_def Let_def trie_acc_defs etdb_trie_node_realloc_def nb_def
          etdb_trie_ninfo_realloc_def etdb_trie_block_realloc_def)
  next
    case False
    then show ?thesis using that assms(2) by (auto simp: grown_def rest_ok_def)
  qed
  show "sibling_at (grown t) e = 0 \<and> child_at (grown t) e = 0"
    if "tsize t \<le> e" "e < capacity (grown t)"
  proof (cases "tsize t = capacity t")
    case True
    then have "e < 2 * capacity t" using that(2) by (simp only: grown_acc if_True simp_thms)
    then show ?thesis
      using True that(1) by (simp add: grown_def Let_def trie_acc_defs etdb_trie_node_realloc_def
          etdb_trie_ninfo_realloc_def etdb_trie_block_realloc_def)
  next
    case False
    then show ?thesis using that assms(2) by (auto simp: grown_def rest_ok_def)
  qed
  show "tsize t + 256 \<le> capacity (grown t)" "capacity (grown t) mod 256 = 0"
  proof -
    have gap: "a + 256 \<le> b" if "a mod 256 = 0" "b mod 256 = 0" "a < b" for a b :: int
    proof -
      have "a = 256 * (a div 256)" "b = 256 * (b div 256)"
        using that by auto
      moreover from this have "a div 256 < b div 256" using that(3) by linarith
      ultimately show ?thesis by linarith
    qed
    have twice: "2 * b mod 256 = 0" if "b mod 256 = 0" for b :: int
    proof -
      have "b = 256 * (b div 256)" using that by auto
      then have "2 * b = 256 * (2 * (b div 256))" by linarith
      then show ?thesis by (metis mod_mult_self1_is_0)
    qed
    have c: "tsize t mod 256 = 0" "capacity t mod 256 = 0" "256 \<le> tsize t" "tsize t \<le> capacity t"
      using assms(1) by (simp_all add: size_ok_def)
    then show "capacity (grown t) mod 256 = 0"
      using twice by (simp only: grown_acc split: if_split) blast
    show "tsize t + 256 \<le> capacity (grown t)"
    proof (cases "tsize t = capacity t")
      case True
      then show ?thesis using c(3) by (simp add: grown_acc)
    next
      case False
      then have "tsize t < capacity t" using c(4) by simp
      then show ?thesis using gap [OF c(1,2)] False by (simp add: grown_acc)
    qed
  qed
qed

lemma add_block_unfold:
  "etdb_trie_add_block t =
     (let t3 = link_block (put_behead (grown t) (nb t) (tsize t)) (tsize t);
          t4 = etdb_trie_push_block t3 (nb t) Open (head_of Open t3 = 0)
      in (t4\<lparr>tsize := tsize t + 256\<rparr>, (tsize t + 256) div 256 - 1))"
proof -
  have "etdb_trie_add_block t =
     (let t1 = grown t;
          t2 = put_behead t1 (tsize t1 div 256) (tsize t1);
          t3 = link_block t2 (tsize t2);
          t4 = etdb_trie_push_block t3 (tsize t3 div 256) Open (head_open t3 = 0);
          t5 = t4\<lparr>tsize := tsize t4 + 256\<rparr>
      in (t5, tsize t5 div 256 - 1))"
    unfolding etdb_trie_add_block_def grown_def by (rule refl)
  moreover have "tsize (link_block s i) = tsize s" for s i
    by (simp add: link_block_def)
  ultimately show ?thesis
    unfolding Let_def by (simp only: grown_acc(1) put_behead_acc push_block_acc nb_def [symmetric] trie.simps
        head_of.simps trie.select_convs) (simp add: nb_def)
qed

lemma link_block_acc [simp]:
  "base_at (link_block t s) i = (if i = s then - (s + 255) else if s < i \<and> i \<le> s + 255 then - (i - 1) else base_at t i)"
  "check_at (link_block t s) i = (if s \<le> i \<and> i < s + 255 then - (i + 1) else if i = s + 255 then - s else check_at t i)"
  "sibling_at (link_block t s) i = sibling_at t i" "child_at (link_block t s) i = child_at t i"
  "bnext_at (link_block t s) i = bnext_at t i" "bprev_at (link_block t s) i = bprev_at t i"
  "bnum_at (link_block t s) i = bnum_at t i" "btrial_at (link_block t s) i = btrial_at t i"
  "behead_at (link_block t s) i = behead_at t i" "head_of l (link_block t s) = head_of l t"
  "tsize (link_block t s) = tsize t" "capacity (link_block t s) = capacity t"
  by (cases l; auto simp: link_block_def trie_acc_defs)+

text \<open>What a new block leaves: the slots behind the old end are free, the rest is as it was.\<close>

definition block_added :: "trie \<Rightarrow> trie \<Rightarrow> bool" where
  "block_added t t' \<longleftrightarrow> space_inv t' \<and> free t' = free t \<union> {tsize t..tsize t + 255} \<and>
     tsize t' = tsize t + 256 \<and>
     (\<forall>i<tsize t. base_at t' i = base_at t i \<and> check_at t' i = check_at t i \<and>
        sibling_at t' i = sibling_at t i \<and> child_at t' i = child_at t i)"

lemma add_block_added:
  assumes inv: "space_inv t"
  shows "\<exists>t'. etdb_trie_add_block t = (t', nb t) \<and> block_added t t'"
proof -
  have so: "size_ok t" and ro: "rest_ok t" and L: "lists_ok t (\<lambda>l. members l t)"
    using inv by (auto simp: space_inv_def)
  let ?g = "grown t" and ?s = "tsize t" and ?n = "nb t"
  note sz = size_nb [OF so]
  define t3 where "t3 = link_block (put_behead ?g ?n ?s) ?s"
  define t4 where "t4 = etdb_trie_push_block t3 ?n Open (head_of Open t3 = 0)"
  define t' where "t' = t4\<lparr>tsize := ?s + 256\<rparr>"
  have pos: "0 < ?n" "256 \<le> ?s" "?s div 256 = ?n" using sz so by (auto simp: size_ok_def nb_def)
  have t3c: "tsize t3 = ?s" "capacity t3 = capacity ?g"
    by (simp_all add: t3_def grown_acc)
  have t': "base_at t' = base_at t3" "check_at t' = check_at t3" "sibling_at t' = sibling_at t3"
    "child_at t' = child_at t3" "bnum_at t' = bnum_at t3" "btrial_at t' = btrial_at t3"
    "behead_at t' = behead_at t3" "bnext_at t' = bnext_at t4" "bprev_at t' = bprev_at t4"
    "head_of l t' = head_of l t4" "tsize t' = ?s + 256" "capacity t' = capacity ?g" for l
  proof -
    have "base_at t' = base_at t4" "check_at t' = check_at t4" "sibling_at t' = sibling_at t4"
      "child_at t' = child_at t4" "bnum_at t' = bnum_at t4" "btrial_at t' = btrial_at t4"
      "behead_at t' = behead_at t4"
      by (simp_all add: t'_def fun_eq_iff)
    then show "base_at t' = base_at t3" "check_at t' = check_at t3" "sibling_at t' = sibling_at t3"
      "child_at t' = child_at t3" "bnum_at t' = bnum_at t3" "btrial_at t' = btrial_at t3"
      "behead_at t' = behead_at t3"
      by (simp_all only: t4_def push_block_acc)
    show "bnext_at t' = bnext_at t4" "bprev_at t' = bprev_at t4" "tsize t' = ?s + 256"
      by (simp_all add: t'_def fun_eq_iff)
    show "head_of l t' = head_of l t4" by (cases l) (simp_all add: t'_def)
    have "capacity t' = capacity t4" by (simp add: t'_def)
    then show "capacity t' = capacity ?g" by (simp only: t4_def push_block_acc t3c)
  qed
  have nb': "nb t' = ?n + 1"
  proof -
    have "nb t' = (?s + 256) div 256" by (simp only: nb_def t'(11))
    then show ?thesis using pos(3) by simp
  qed
  have eq: "etdb_trie_add_block t = (t', ?n)"
    unfolding add_block_unfold Let_def t3_def [symmetric] t4_def [symmetric] t'_def [symmetric]
    using pos by simp
  have old: "base_at t' i = base_at t i" "check_at t' i = check_at t i"
    "sibling_at t' i = sibling_at t i" "child_at t' i = child_at t i" if "i < ?s" for i
    using that by (auto simp: t' t3_def grown_acc)
  have "check_at t' i < 0" if "?s \<le> i" "i \<le> ?s + 255" for i
    using that pos by (auto simp: t' t3_def)
  then have fr: "free t' = free t \<union> {?s..?s + 255}"
    using old(2) pos by (auto simp: free_def t')
  have oldb: "bnum_at t' b = bnum_at t b" "btrial_at t' b = btrial_at t b" "behead_at t' b = behead_at t b"
    if "b < ?n" for b
    using that by (auto simp: t' t3_def grown_acc)
  note rest = grown_rest [OF so ro]
  have cap: "?n < capacity ?g div 256" using rest(3) pos by linarith
  have newb: "bnum_at t' ?n = 256" "btrial_at t' ?n = 0" "behead_at t' ?n = ?s"
    using rest(1) [OF order_refl cap] by (auto simp: t' t3_def)
  have "slots_ok t' b" if b: "0 \<le> b" "b < nb t'" for b
  proof (cases "b = ?n")
    case False
    then have "b < ?n" using b nb' by simp
    have "i < ?s" if "i \<in> slots t b" for i using that by (auto simp: slots_def)
    moreover have "slots t' b = slots t b"
    proof -
      have "i div 256 = ?n" if "?s \<le> i" "i \<le> ?s + 255" for i
        using that sz by auto
      then show ?thesis using fr False by (auto simp: slots_free)
    qed
    ultimately show ?thesis
      using \<open>b < ?n\<close> b inv old by (intro slots_ok_cong [of t b t']) (auto simp: space_inv_def oldb)
  next
    case True
    have s: "slots t' ?n = {?s..?s + 255}"
    proof -
      have "i div 256 = ?n" if "?s \<le> i" "i \<le> ?s + 255" for i
        using that sz by auto
      moreover have "i div 256 \<noteq> ?n" if "i \<in> free t" for i
        using free_block [OF so that] by auto
      ultimately show ?thesis by (auto simp: slots_free fr)
    qed
    have "cycle {?s..?s + 255} (nxt t') (prv t')"
      by (rule cycle_interval) (auto simp: nxt_def prv_def t' t3_def)
    then show ?thesis
      using pos by (simp add: True slots_ok_def s newb free_count_def)
  qed
  moreover have "lists_ok t' (\<lambda>l. members l t')"
  proof -
    have in_nb: "x < ?n" if "x \<in> members l t" for x l
      using that pos by (cases l) auto
    have g: "bnext_at t3 x = bnext_at t x" "bprev_at t3 x = bprev_at t x" if "x < ?n" for x
      using that by (auto simp: t3_def grown_acc)
    have "ring (members l t) (bnext_at t3) (bprev_at t3)" for l
      using in_nb [of _ l] g by (intro ring_cong [OF lists_okD(1) [OF L]]) auto
    then have L3: "lists_ok t3 (\<lambda>l. members l t)"
      using lists_okD [OF L] by (intro lists_okI) (auto simp: t3_def grown_acc)
    have "lists_ok t4 ((\<lambda>l. members l t)(Open := insert ?n (members Open t)))"
      unfolding t4_def using in_nb pos by (intro push_block_ok [OF L3]) auto
    moreover have "members l t' = ((\<lambda>l. members l t)(Open := insert ?n (members Open t))) l" for l
    proof -
      have up: "bnum_at t' b = (if b = ?n then 256 else bnum_at t b)"
        "btrial_at t' b = (if b = ?n then 0 else btrial_at t b)" if "b \<le> ?n" for b
        using that by (auto simp: oldb newb)
      show ?thesis
        using pos by (cases l) (auto simp: nb' up split: if_splits)
    qed
    ultimately show ?thesis by (rule lists_ok_cong [OF _ t'(8,9,10)])
  qed
  moreover have "rest_ok t'"
  proof -
    have "bnum_at t' b = 256 \<and> btrial_at t' b = 0" if "?n + 1 \<le> b" "b < capacity ?g div 256" for b
      using that rest(1) [of b] by (simp add: t' t3_def)
    moreover have "sibling_at t' e = 0 \<and> child_at t' e = 0" if "e \<in> free t" for e
      using that ro old(3,4) [of e] by (auto simp: rest_ok_def free_def)
    moreover have "sibling_at t' e = 0 \<and> child_at t' e = 0" if "?s \<le> e" "e < capacity ?g" for e
      using that rest(2) by (simp add: t' t3_def)
    ultimately show ?thesis
      using rest(3) by (auto simp: rest_ok_def nb' fr t'(11,12))
  qed
  moreover have "size_ok t'"
    using so rest(3,4) by (auto simp: size_ok_def t'(11,12))
  ultimately have "space_inv t'" by (intro space_invI)
  then have "block_added t t'"
    using fr old by (simp add: block_added_def t'(11))
  then show ?thesis using eq by blast
qed

end
