(* ===== verification/Trie_Return.thy ===== *)
theory Trie_Return
  imports Trie_Places
begin

text \<open>
  Returning a slot to its block (\<open>etdb_trie_push_empty_node\<close>) keeps \<open>space_inv\<close>. In block 0 the
  code relies on one slot being free already: there \<open>num\<close> counts one slot too many, so that the
  first slot returned to a block without free slots is not recognised.
\<close>

definition linked :: "trie \<Rightarrow> int \<Rightarrow> trie" where
  "linked t e = (let bi = e div 256; prv = behead_at t bi; nxt = - check_at t prv;
      ta = put_base t e (- prv); tb = put_check ta e (- nxt)
    in put_check (put_base tb nxt (- e)) prv (- e))"

definition alone :: "trie \<Rightarrow> int \<Rightarrow> trie" where
  "alone t e = put_check (put_base (put_behead t (e div 256) e) e (- e)) e (- e)"

definition cleared :: "trie \<Rightarrow> int \<Rightarrow> trie" where
  "cleared t e = (let bi = e div 256;
      t3 = (if breject_at t bi < treject t (bnum_at t bi) then put_breject t bi (treject t (bnum_at t bi)) else t)
    in put_child (put_sibling t3 e 0) e 0)"

lemma push_empty_node_unfold:
  assumes "bi = e div 256" "n = bnum_at t bi + 1" "t1 = put_bnum t bi n"
  shows "etdb_trie_push_empty_node t e =
    cleared (if n = 1 then (if bi \<noteq> 0 then etdb_trie_transfer_block (alone t1 e) bi Full Close else alone t1 e)
      else put_btrial (if n = 2 \<or> btrial_at t bi = 1 then
          (if bi \<noteq> 0 then etdb_trie_transfer_block (linked t1 e) bi Close Open else linked t1 e)
        else linked t1 e) bi 0) e"
  unfolding etdb_trie_push_empty_node_def alone_def linked_def cleared_def Let_def ETDB_TRIE_MAX_TRIAL_def
    assms
  by (simp only: put_bnum_acc put_check_acc put_base_acc if_True if_False simp_thms)

lemma linked_acc:
  assumes "e \<noteq> behead_at t (e div 256)" "e \<noteq> nxt t (behead_at t (e div 256))"
    "h = behead_at t (e div 256)"
  shows "nxt (linked t e) = (nxt t)(e := nxt t h, h := e)"
    "prv (linked t e) = (prv t)(e := h, nxt t h := e)"
    "sibling_at (linked t e) = sibling_at t" "child_at (linked t e) = child_at t"
    "bnum_at (linked t e) = bnum_at t" "btrial_at (linked t e) = btrial_at t"
    "behead_at (linked t e) = behead_at t"
    "bnext_at (linked t e) = bnext_at t" "bprev_at (linked t e) = bprev_at t"
    "head_of l (linked t e) = head_of l t" "tsize (linked t e) = tsize t"
    "capacity (linked t e) = capacity t"
  using assms by (auto simp: linked_def Let_def nxt_def prv_def fun_eq_iff)

lemma alone_acc:
  "nxt (alone t e) = (nxt t)(e := e)" "prv (alone t e) = (prv t)(e := e)"
  "sibling_at (alone t e) = sibling_at t" "child_at (alone t e) = child_at t"
  "bnum_at (alone t e) = bnum_at t" "btrial_at (alone t e) = btrial_at t"
  "behead_at (alone t e) = (behead_at t)(e div 256 := e)"
  "bnext_at (alone t e) = bnext_at t" "bprev_at (alone t e) = bprev_at t"
  "head_of l (alone t e) = head_of l t" "tsize (alone t e) = tsize t"
  "capacity (alone t e) = capacity t"
  by (auto simp: alone_def nxt_def prv_def fun_eq_iff)

lemma cleared_acc [simp]:
  "base_at (cleared t e) = base_at t" "check_at (cleared t e) = check_at t"
  "nxt (cleared t e) = nxt t" "prv (cleared t e) = prv t"
  "sibling_at (cleared t e) = (sibling_at t)(e := 0)" "child_at (cleared t e) = (child_at t)(e := 0)"
  "bnum_at (cleared t e) = bnum_at t" "btrial_at (cleared t e) = btrial_at t"
  "behead_at (cleared t e) = behead_at t" "bnext_at (cleared t e) = bnext_at t"
  "bprev_at (cleared t e) = bprev_at t" "head_of l (cleared t e) = head_of l t"
  "tsize (cleared t e) = tsize t" "capacity (cleared t e) = capacity t"
  by (auto simp: cleared_def Let_def nxt_def prv_def fun_eq_iff)

text \<open>A slot joins the cycle of its block behind \<open>ehead\<close>, or is alone.\<close>

definition joined :: "trie \<Rightarrow> int \<Rightarrow> trie \<Rightarrow> bool" where
  "joined t e t' \<longleftrightarrow> (let b = e div 256; h = behead_at t b in
     (if slots t b = {} then nxt t' e = e \<and> prv t' e = e \<and> behead_at t' b = e
      else (\<forall>x\<in>insert e (slots t b). nxt t' x = ((nxt t)(e := nxt t h, h := e)) x \<and>
          prv t' x = ((prv t)(e := h, nxt t h := e)) x) \<and> behead_at t' b = h) \<and>
     free t' = insert e (free t) \<and>
     (\<forall>i. i \<notin> insert e (slots t b) \<longrightarrow> base_at t' i = base_at t i \<and> check_at t' i = check_at t i) \<and>
     (\<forall>c. c \<noteq> b \<longrightarrow> behead_at t' c = behead_at t c) \<and>
     (\<forall>c. bnum_at t' c = (if c = b then bnum_at t c + 1 else bnum_at t c)) \<and>
     (\<forall>c. c \<noteq> b \<longrightarrow> btrial_at t' c = btrial_at t c) \<and> (btrial_at t' b = 0 \<or> btrial_at t' b = btrial_at t b) \<and>
     tsize t' = tsize t \<and> capacity t' = capacity t)"

lemma joined_slots:
  assumes "joined t e t'" "slots_ok t b" "e \<notin> free t"
  shows "slots_ok t' b"
proof (cases "b = e div 256")
  case False
  have "slots t' b = slots t b"
    using assms(1) False by (auto simp: slots_free joined_def Let_def)
  moreover have "base_at t' x = base_at t x \<and> check_at t' x = check_at t x" if "x \<in> slots t b" for x
    using that assms(1) False by (auto simp: joined_def Let_def slots_free)
  ultimately show ?thesis
    using assms(1) False by (intro slots_ok_cong [OF assms(2)]) (auto simp: joined_def Let_def)
next
  case True
  let ?S = "slots t b" and ?h = "behead_at t b"
  have S: "slots t' b = insert e ?S" and e: "e \<notin> ?S"
    using assms(1,3) True by (auto simp: slots_free joined_def Let_def)
  have c: "cycle ?S (nxt t) (prv t)" and h: "?S \<noteq> {} \<Longrightarrow> ?h \<in> ?S"
    using assms(2) by (auto simp: slots_ok_def)
  have "cycle (insert e ?S) (nxt t') (prv t') \<and> behead_at t' b \<in> insert e ?S"
  proof (cases "?S = {}")
    case empty: True
    then show ?thesis using assms(1) True by (simp add: joined_def Let_def)
  next
    case ne: False
    note j = cycle_insert_after [OF c h [OF ne] e]
    have l: "\<forall>x\<in>insert e ?S. nxt t' x = ((nxt t)(e := nxt t ?h, ?h := e)) x \<and>
        prv t' x = ((prv t)(e := ?h, nxt t ?h := e)) x"
      using assms(1) unfolding joined_def Let_def True [symmetric] if_not_P [OF ne] by blast
    have "cycle (insert e ?S) (nxt t') (prv t')"
      by (rule cycle_cong [OF j]) (use l in blast)+
    moreover have "behead_at t' b = ?h"
      using assms(1) True ne by (auto simp: joined_def Let_def)
    ultimately show ?thesis using h [OF ne] by simp
  qed
  moreover have "bnum_at t' b = free_count t' b"
    using assms(1,2) True S e by (simp add: joined_def Let_def slots_ok_def free_count_def)
  ultimately show ?thesis
    using assms(1,2) True S by (auto simp: slots_ok_def joined_def Let_def)
qed

definition slot_freed :: "trie \<Rightarrow> int \<Rightarrow> trie \<Rightarrow> bool" where
  "slot_freed t e t' \<longleftrightarrow> space_inv t' \<and> free t' = insert e (free t) \<and>
     tsize t' = tsize t \<and> capacity t' = capacity t \<and>
     (\<forall>i. i \<notin> insert e (free t) \<longrightarrow> base_at t' i = base_at t i \<and> check_at t' i = check_at t i) \<and>
     sibling_at t' = (sibling_at t)(e := 0) \<and> child_at t' = (child_at t)(e := 0)"

lemma joined_freed:
  assumes "space_inv t" "joined t e t'" "e \<notin> free t" "lists_ok t' (\<lambda>l. members l t')"
    "sibling_at t' = (sibling_at t)(e := 0)" "child_at t' = (child_at t)(e := 0)" "0 < e" "e < tsize t"
  shows "slot_freed t e t'"
proof -
  have "space_inv t'"
  proof (rule space_invI)
    show "slots_ok t' b" if "0 \<le> b" "b < nb t'" for b
      using that assms(1,2) by (intro joined_slots [OF assms(2) _ assms(3)])
        (auto simp: space_inv_def joined_def Let_def nb_def)
    have "e div 256 < nb t"
      using assms(1,8) size_nb [of t] by (auto simp: space_inv_def)
    then show "rest_ok t'"
      using assms(1,2,5,6) by (auto simp: rest_ok_def joined_def Let_def space_inv_def nb_def)
  qed (use assms in \<open>auto simp: space_inv_def size_ok_def joined_def Let_def\<close>)
  then show ?thesis
    using assms(2,5,6) by (auto simp: slot_freed_def joined_def Let_def slots_free)
qed

text \<open>The block of a slot that is returned is in the list it has to leave.\<close>

lemma members_after_return:
  assumes "0 \<le> bi" "bi < nb t" "tsize t' = tsize t"
    "\<And>b. bnum_at t' b = (if b = bi then bnum_at t b + 1 else bnum_at t b)"
    "\<forall>b. b \<noteq> bi \<longrightarrow> btrial_at t' b = btrial_at t b" "0 \<le> bnum_at t bi"
    "btrial_at t bi = 0 \<or> btrial_at t bi = 1"
  shows "bi \<noteq> 0 \<Longrightarrow> bnum_at t bi = 0 \<Longrightarrow>
      bi \<in> members Full t \<and> (\<forall>l. members l t' =
        ((\<lambda>l. members l t)(Full := members Full t - {bi}, Close := insert bi (members Close t))) l)"
    and "bi \<noteq> 0 \<Longrightarrow> bnum_at t bi \<noteq> 0 \<Longrightarrow> btrial_at t' bi = 0 \<Longrightarrow>
      bnum_at t bi = 1 \<or> btrial_at t bi = 1 \<Longrightarrow>
      bi \<in> members Close t \<and> (\<forall>l. members l t' =
        ((\<lambda>l. members l t)(Close := members Close t - {bi}, Open := insert bi (members Open t))) l)"
    and "bi = 0 \<or> bnum_at t bi \<noteq> 0 \<and> bnum_at t bi \<noteq> 1 \<and> btrial_at t bi = 0 \<and> btrial_at t' bi = 0 \<Longrightarrow>
      members l t' = members l t"
proof -
  have b: "nb t' = nb t" using assms(3) by (simp add: nb_def)
  show "bi \<in> members Full t \<and> (\<forall>l. members l t' =
      ((\<lambda>l. members l t)(Full := members Full t - {bi}, Close := insert bi (members Close t))) l)"
    if "bi \<noteq> 0" "bnum_at t bi = 0"
  proof (intro conjI allI)
    show "members l t' = ((\<lambda>l. members l t)(Full := members Full t - {bi},
        Close := insert bi (members Close t))) l" for l
      using that b assms(1,2,4,5) by (cases l) (auto split: if_splits)
  qed (use that assms in auto)
  show "bi \<in> members Close t \<and> (\<forall>l. members l t' =
      ((\<lambda>l. members l t)(Close := members Close t - {bi}, Open := insert bi (members Open t))) l)"
    if "bi \<noteq> 0" "bnum_at t bi \<noteq> 0" "btrial_at t' bi = 0" "bnum_at t bi = 1 \<or> btrial_at t bi = 1"
  proof (intro conjI allI)
    show "members l t' = ((\<lambda>l. members l t)(Close := members Close t - {bi},
        Open := insert bi (members Open t))) l" for l
      using that b assms(1,2,4,5,6) by (cases l) (auto split: if_splits)
  qed (use that assms in auto)
  show "members l t' = members l t"
    if "bi = 0 \<or> bnum_at t bi \<noteq> 0 \<and> bnum_at t bi \<noteq> 1 \<and> btrial_at t bi = 0 \<and> btrial_at t' bi = 0"
    using that b assms(1,2,4,5,6) by (cases l) (auto split: if_splits)
qed

lemma push_empty_node_freed:
  assumes inv: "space_inv t" and e: "e \<notin> free t" "0 < e" "e < tsize t"
    and zero: "e div 256 = 0 \<Longrightarrow> slots t 0 \<noteq> {}"
  shows "slot_freed t e (etdb_trie_push_empty_node t e)"
proof -
  define bi where "bi = e div 256"
  define n where "n = bnum_at t bi + 1"
  define t1 where "t1 = put_bnum t bi n"
  define t2 where "t2 = (if n = 1 then (if bi \<noteq> 0 then etdb_trie_transfer_block (alone t1 e) bi Full Close else alone t1 e)
      else put_btrial (if n = 2 \<or> btrial_at t bi = 1 then
          (if bi \<noteq> 0 then etdb_trie_transfer_block (linked t1 e) bi Close Open else linked t1 e)
        else linked t1 e) bi 0)"
  define t' where "t' = cleared t2 e"
  have eq: "etdb_trie_push_empty_node t e = t'"
    unfolding t'_def t2_def by (rule push_empty_node_unfold [OF bi_def n_def t1_def])
  have so: "size_ok t" and L: "lists_ok t (\<lambda>l. members l t)" using inv by (auto simp: space_inv_def)
  have b: "0 \<le> bi" "bi < nb t" using e(2,3) size_nb [OF so] by (auto simp: bi_def)
  then have sl: "slots_ok t bi" using inv by (auto simp: space_inv_def)
  have num: "bnum_at t bi = free_count t bi" and tr: "btrial_at t bi = 0 \<or> btrial_at t bi = 1"
    using sl by (auto simp: slots_ok_def)
  have n1: "n = 1 \<longleftrightarrow> slots t bi = {}"
    using num zero by (cases "bi = 0") (auto simp: n_def free_count_def bi_def)
  then have nz: "n = 1 \<Longrightarrow> bi \<noteq> 0" using zero by (auto simp: bi_def)
  let ?h = "behead_at t bi"
  have h: "?h \<in> slots t bi \<and> nxt t ?h \<in> slots t bi" if "n \<noteq> 1"
    using that n1 sl ringD(1) [of "slots t bi" "nxt t" "prv t" ?h] by (auto simp: slots_ok_def cycle_def)
  have e_new: "e \<noteq> ?h" "e \<noteq> nxt t ?h" if "n \<noteq> 1"
    using h [OF that] e(1) by (auto simp: slots_free)
  have t1: "nxt t1 = nxt t" "prv t1 = prv t" "sibling_at t1 = sibling_at t"
    "child_at t1 = child_at t" "bnum_at t1 = (bnum_at t)(bi := n)" "btrial_at t1 = btrial_at t"
    "behead_at t1 = behead_at t" "bnext_at t1 = bnext_at t" "bprev_at t1 = bprev_at t"
    "tsize t1 = tsize t" "capacity t1 = capacity t" "head_of l t1 = head_of l t" for l
    by (auto simp: t1_def fun_eq_iff nxt_def prv_def)
  note lk = linked_acc [of e t1, folded bi_def, unfolded t1, OF e_new refl]
  have bt: "nxt (put_btrial s x y) = nxt s" "prv (put_btrial s x y) = prv s"
    "bnum_at (put_btrial s x y) = bnum_at s" "btrial_at (put_btrial s x y) = (btrial_at s)(x := y)"
    "behead_at (put_btrial s x y) = behead_at s" "sibling_at (put_btrial s x y) = sibling_at s"
    "child_at (put_btrial s x y) = child_at s" "bnext_at (put_btrial s x y) = bnext_at s"
    "bprev_at (put_btrial s x y) = bprev_at s" for s x y
    by (auto simp: fun_eq_iff nxt_def prv_def)
  have same: "bnum_at t2 = (bnum_at t)(bi := n)" "tsize t2 = tsize t" "capacity t2 = capacity t"
    "sibling_at t2 = sibling_at t" "child_at t2 = child_at t"
    "btrial_at t2 = (if n = 1 then btrial_at t else (btrial_at t)(bi := 0))"
    "behead_at t2 = (if n = 1 then (behead_at t)(bi := e) else behead_at t)"
    "nxt t2 = (if n = 1 then (nxt t)(e := e) else (nxt t)(e := nxt t ?h, ?h := e))"
    "prv t2 = (if n = 1 then (prv t)(e := e) else (prv t)(e := ?h, nxt t ?h := e))"
    by (auto simp: t2_def lk alone_acc t1 bi_def [symmetric] bt)
  have keep: "base_at t' i = base_at t i \<and> check_at t' i = check_at t i" if "i \<notin> insert e (slots t bi)" for i
  proof -
    have "nxt t2 i = nxt t i \<and> prv t2 i = prv t i"
      using that h by (auto simp: same)
    then show ?thesis by (simp add: t'_def nxt_def prv_def)
  qed
  have neg: "check_at t' i < 0" if "i \<in> insert e (slots t bi)" for i
  proof -
    have "0 < nxt t2 i"
    proof (cases "n = 1")
      case True
      then have "i = e" using that n1 by simp
      then show ?thesis using True e(2) by (simp add: same)
    next
      case False
      have "0 < nxt t x" if "x \<in> slots t bi" for x
        using that by (simp add: slots_def nxt_def)
      then show ?thesis using False that h e(2) by (auto simp: same)
    qed
    then show ?thesis by (simp add: t'_def nxt_def)
  qed
  have "i \<in> free t' \<longleftrightarrow> i \<in> insert e (free t)" for i
  proof (cases "i \<in> insert e (slots t bi)")
    case True
    then show ?thesis using neg [OF True] e by (auto simp: free_def slots_def t'_def same)
  next
    case False
    then show ?thesis using keep [OF False] by (auto simp: free_def t'_def same)
  qed
  then have fr: "free t' = insert e (free t)" by blast
  have jn: "joined t e t'"
    unfolding joined_def Let_def bi_def [symmetric] n1 [symmetric]
    using keep fr tr by (auto simp: same t'_def n_def)
  have a: "tsize t' = tsize t" "bnum_at t' c = (if c = bi then bnum_at t c + 1 else bnum_at t c)"
    "\<forall>c. c \<noteq> bi \<longrightarrow> btrial_at t' c = btrial_at t c" for c
    by (auto simp: t'_def same n_def)
  have nn: "0 \<le> bnum_at t bi" using num free_count_nonneg by simp
  note after = members_after_return [OF b a nn tr]
  have tacc: "bnext_at t' = bnext_at t2" "bprev_at t' = bprev_at t2" "head_of l t' = head_of l t2" for l
    by (simp_all add: t'_def)
  have La: "lists_ok (alone t1 e) (\<lambda>l. members l t)"
    by (rule lists_ok_cong [OF L]) (simp_all add: alone_acc t1)
  have Ll: "lists_ok (linked t1 e) (\<lambda>l. members l t)" if "n \<noteq> 1"
    by (rule lists_ok_cong [OF L]) (simp_all add: lk that t1)
  have trial: "lists_ok (put_btrial s x y) M" if "lists_ok s M" for s x y M
    by (rule lists_ok_cong [OF that]) (simp_all add: bt)
  consider (full) "n = 1" | (close) "n \<noteq> 1" "bi \<noteq> 0" "n = 2 \<or> btrial_at t bi = 1"
    | (same) "n \<noteq> 1" "bi = 0 \<or> n \<noteq> 2 \<and> btrial_at t bi \<noteq> 1" by blast
  then have "lists_ok t' (\<lambda>l. members l t')"
  proof cases
    case full
    have t2: "t2 = etdb_trie_transfer_block (alone t1 e) bi Full Close"
      using full nz by (simp add: t2_def)
    have z: "bnum_at t bi = 0" using full by (simp add: n_def)
    note m = after(1) [OF nz [OF full] z]
    have "lists_ok t2 ((\<lambda>l. members l t)(Full := members Full t - {bi}, Close := insert bi (members Close t)))"
      unfolding t2 using m full nz by (intro transfer_block_ok [OF La]) (simp_all add: alone_acc t1)
    then show ?thesis by (rule lists_ok_cong [OF _ tacc m [THEN conjunct2, rule_format]])
  next
    case close
    have t2: "t2 = put_btrial (etdb_trie_transfer_block (linked t1 e) bi Close Open) bi 0"
      using close by (simp add: t2_def)
    have z: "bnum_at t bi \<noteq> 0" "bnum_at t bi = 1 \<or> btrial_at t bi = 1" "btrial_at t' bi = 0"
      using close by (auto simp: n_def t'_def same)
    note m = after(2) [OF close(2) z(1,3,2)]
    have "lists_ok t2 ((\<lambda>l. members l t)(Close := members Close t - {bi}, Open := insert bi (members Open t)))"
      unfolding t2 using m close nn by (intro trial transfer_block_ok [OF Ll]) (simp_all add: lk t1 n_def)
    then show ?thesis by (rule lists_ok_cong [OF _ tacc m [THEN conjunct2, rule_format]])
  next
    case same
    have t2: "t2 = put_btrial (linked t1 e) bi 0"
      using same by (auto simp: t2_def)
    have z: "bi = 0 \<or> bnum_at t bi \<noteq> 0 \<and> bnum_at t bi \<noteq> 1 \<and> btrial_at t bi = 0 \<and> btrial_at t' bi = 0"
      using same tr by (auto simp: n_def t'_def same(1) \<open>btrial_at t2 = _\<close>)
    show ?thesis
      by (rule lists_ok_cong [OF trial [OF Ll [OF same(1)]] tacc [unfolded t2] after(3) [OF z]])
  qed
  then have "slot_freed t e t'"
    using inv jn e by (intro joined_freed) (auto simp: t'_def same)
  then show ?thesis by (simp only: eq)
qed

end
