(* ===== verification/Trie_Pick.thy ===== *)
theory Trie_Pick
  imports Trie_Return
begin

text \<open>
  Choosing slots: \<open>etdb_trie_find_place\<close> for one slot and \<open>etdb_trie_find_place_interval\<close> for a set
  of labels. Both end, both may add a block, and neither changes a used entry.
\<close>

definition extends :: "trie \<Rightarrow> trie \<Rightarrow> bool" where
  "extends t t' \<longleftrightarrow> space_inv t' \<and> free t' = free t \<union> {tsize t..<tsize t'} \<and> tsize t \<le> tsize t' \<and>
     (\<forall>i<tsize t. base_at t' i = base_at t i \<and> check_at t' i = check_at t i \<and>
        sibling_at t' i = sibling_at t i \<and> child_at t' i = child_at t i)"

lemma extends_refl: "space_inv t \<Longrightarrow> extends t t"
  by (auto simp: extends_def)

lemma extends_trans:
  assumes "extends t s" "extends s u"
  shows "extends t u"
  using assms by (auto simp: extends_def)

lemma extends_same:
  assumes "space_inv t'" "tsize t' = tsize t" "base_at t' = base_at t" "check_at t' = check_at t"
    "sibling_at t' = sibling_at t" "child_at t' = child_at t"
  shows "extends t t'"
  using assms by (auto simp: extends_def free_def)

lemma block_added_extends: "block_added t t' \<Longrightarrow> extends t t'"
  by (auto simp: block_added_def extends_def)

lemma add_block_extends:
  assumes "space_inv t"
  shows "\<exists>t'. etdb_trie_add_block t = (t', nb t) \<and> extends t t' \<and> {tsize t..tsize t + 255} \<subseteq> free t'"
  using add_block_added [OF assms] by (auto simp: block_added_extends) (auto simp: block_added_def)

lemma member_pos: "b \<in> members l t \<Longrightarrow> l \<noteq> Full \<Longrightarrow> 0 < b \<and> b < nb t \<and> 1 \<le> bnum_at t b"
  by (cases l) auto

lemma member_head:
  assumes "space_inv t" "b \<in> members l t" "l \<noteq> Full"
  shows "behead_at t b \<in> slots t b" "behead_at t b \<in> free t" "256 \<le> behead_at t b"
proof -
  have b: "0 < b" "b < nb t" "1 \<le> bnum_at t b" using member_pos [OF assms(2,3)] by auto
  then have "slots_ok t b" using assms(1) by (simp add: space_inv_def)
  moreover from this have "slots t b \<noteq> {}" using b slots_num [of t b] by auto
  ultimately show h: "behead_at t b \<in> slots t b" by (simp add: slots_ok_def)
  then show "behead_at t b \<in> free t" by (simp add: slots_free)
  have "behead_at t b div 256 = b" using h by (simp add: slots_free)
  then have "behead_at t b div 256 \<ge> 1" using b(1) by linarith
  then show "256 \<le> behead_at t b" by linarith
qed

lemma head_member: "space_inv t \<Longrightarrow> head_of l t \<noteq> 0 \<Longrightarrow> head_of l t \<in> members l t"
  using lists_okD(2) [of t "\<lambda>l. members l t" l] by (auto simp: space_inv_def)

section \<open>One slot\<close>

lemma find_place_picks:
  assumes "space_inv t"
  shows "\<exists>t' e. etdb_trie_find_place t = (t', e) \<and> extends t t' \<and> e \<in> free t' \<and> 256 \<le> e"
proof -
  consider (close) "head_close t \<noteq> 0" | (opn) "head_close t = 0" "head_open t \<noteq> 0"
    | (none) "head_close t = 0" "head_open t = 0" by blast
  then show ?thesis
  proof cases
    case close
    have m: "head_close t \<in> members Close t" using head_member [OF assms, of Close] close by simp
    show ?thesis
      using close member_head [OF assms m] extends_refl [OF assms] by (simp add: etdb_trie_find_place_def)
  next
    case opn
    have m: "head_open t \<in> members Open t" using head_member [OF assms, of Open] opn by simp
    show ?thesis
      using opn member_head [OF assms m] extends_refl [OF assms] by (simp add: etdb_trie_find_place_def)
  next
    case none
    obtain t' where t': "etdb_trie_add_block t = (t', nb t)" "extends t t'" "{tsize t..tsize t + 255} \<subseteq> free t'"
      using add_block_extends [OF assms] by blast
    have so: "size_ok t" using assms by (simp add: space_inv_def)
    have "nb t * 256 = tsize t" "256 \<le> tsize t"
      using size_nb [OF so] so by (simp_all add: size_ok_def)
    moreover have "tsize t \<in> free t'" using t'(3) by auto
    ultimately show ?thesis using none t'(1,2) by (simp add: etdb_trie_find_place_def)
  qed
qed

section \<open>Several slots\<close>

declare scan_block.simps [code] find_interval_loop.simps [code]

lemma probe_iff: "cs \<noteq> [] \<Longrightarrow> probe t b cs \<longleftrightarrow> (\<forall>c\<in>set cs. check_at t (b XOR uint c) < 0)"
  by (induction t b cs rule: probe.induct) auto

lemma scan_block_ends:
  assumes "space_inv t" "e \<in> slots t b" "(nxt t ^^ Suc m) e = eh"
  shows "\<exists>r. scan_block t eh f rest e = Some r \<and>
    (\<forall>x. r = Some x \<longrightarrow> x \<in> slots t b \<and> probe t (x XOR uint f) rest)"
  using assms(2,3)
proof (induction m arbitrary: e)
  case 0
  then show ?case by (subst scan_block.simps) (auto simp: Let_def nxt_def)
next
  case (Suc m)
  have n: "nxt t e \<in> slots t b"
    using free_links [OF assms(1), of e] Suc.prems(1) by (auto simp: slots_free)
  have "(nxt t ^^ Suc m) (nxt t e) = eh"
    using Suc.prems(2) by (simp only: funpow_Suc_right o_apply)
  from Suc.IH [OF n this] show ?case
    using Suc.prems(1) by (subst scan_block.simps) (auto simp: Let_def nxt_def)
qed

lemma scan_block_total:
  assumes "space_inv t" "b \<in> members Open t"
  shows "\<exists>r. scan_block t (behead_at t b) f rest (behead_at t b) = Some r \<and>
    (\<forall>x. r = Some x \<longrightarrow> x \<in> slots t b \<and> probe t (x XOR uint f) rest)"
proof -
  have h: "behead_at t b \<in> slots t b" using member_head(1) [OF assms] by simp
  have "slots_ok t b" using assms by (auto simp: space_inv_def)
  then have "ring (slots t b) (nxt t) (prv t)" by (simp add: slots_ok_def cycle_def)
  then obtain k where k: "0 < k" "(nxt t ^^ k) (behead_at t b) = behead_at t b"
    using ring_orbit [of "slots t b" "nxt t" "prv t"] h by auto
  then have "(nxt t ^^ Suc (k - 1)) (behead_at t b) = behead_at t b" by simp
  from scan_block_ends [OF assms(1) h this] show ?thesis .
qed

text \<open>Labels that fit at a slot of a block are free slots of that block.\<close>

lemma block_bounds: "(i :: int) div 256 = b \<Longrightarrow> 0 < b \<Longrightarrow> b < n \<Longrightarrow> 0 < i \<and> i < 256 * n"
  by auto

lemma labels_free:
  fixes c :: byte
  assumes "space_inv t" "e \<in> slots t b" "0 < b" "\<forall>c\<in>set cs. check_at t (base XOR uint c) < 0"
    "base div 256 = b" "c \<in> set cs"
  shows "base XOR uint c \<in> free t"
proof -
  let ?i = "base XOR uint c"
  have d: "?i div 256 = b" using assms(5) by simp
  have "b < nb t" using free_block [of t e] assms(1,2) by (auto simp: space_inv_def slots_free)
  moreover have "tsize t = 256 * nb t" using assms(1) size_nb by (auto simp: space_inv_def)
  ultimately have "?i < tsize t" "0 < ?i" using block_bounds [OF d assms(3)] by (simp_all only:)
  then show ?thesis using assms(4,6) by (simp add: free_def)
qed

text \<open>Moving a block that did not fit to the closed list.\<close>

definition rejected :: "trie \<Rightarrow> int \<Rightarrow> int \<Rightarrow> trie" where
  "rejected t bi nc =
     (let t1 = put_breject t bi nc;
          t2 = (if breject_at t1 bi < treject t1 (bnum_at t1 bi)
                then t1\<lparr>treject := (treject t1)(bnum_at t1 bi := breject_at t1 bi)\<rparr> else t1)
      in put_btrial t2 bi (btrial_at t2 bi + 1))"

lemma rejected_acc:
  "base_at (rejected t bi nc) = base_at t" "check_at (rejected t bi nc) = check_at t"
  "sibling_at (rejected t bi nc) = sibling_at t" "child_at (rejected t bi nc) = child_at t"
  "bnum_at (rejected t bi nc) = bnum_at t" "btrial_at (rejected t bi nc) = (btrial_at t)(bi := btrial_at t bi + 1)"
  "behead_at (rejected t bi nc) = behead_at t" "bnext_at (rejected t bi nc) = bnext_at t"
  "bprev_at (rejected t bi nc) = bprev_at t" "head_of l (rejected t bi nc) = head_of l t"
  "tsize (rejected t bi nc) = tsize t" "capacity (rejected t bi nc) = capacity t"
  by (cases l; auto simp: rejected_def Let_def fun_eq_iff)+

lemma open_trial:
  assumes "space_inv t" "b \<in> members Open t"
  shows "btrial_at t b = 0"
proof -
  have "slots_ok t b" using assms by (simp add: space_inv_def)
  then show ?thesis using assms(2) by (auto simp: slots_ok_def)
qed

lemma find_interval_loop_unfold:
  "find_interval_loop t bi bz cs =
     Option.bind
        (if bnum_at t bi \<ge> int (length cs) \<and> int (length cs) \<le> breject_at t bi
         then scan_block t (behead_at t bi) (hd cs) (tl cs) (behead_at t bi) else Some None)
        (\<lambda>r. case r of
           Some e \<Rightarrow> Some (put_behead t bi e, e)
         | None \<Rightarrow>
             let t3 = rejected t bi (int (length cs));
                 t4 = (if btrial_at t bi + 1 = 1 then etdb_trie_transfer_block t3 bi Open Close else t3)
             in if bi = bz then (let (t5, b) = etdb_trie_add_block t4 in Some (t5, b * 256))
                else find_interval_loop t4 (bnext_at t bi) bz cs)"
  apply (subst find_interval_loop.simps)
  apply (simp only: Let_def ETDB_TRIE_MAX_TRIAL_def)
  apply (rule arg_cong [where f = "Option.bind _"])
  apply (rule ext)
  apply (rule option.case_cong [OF refl])
   apply (simp_all add: rejected_def Let_def)
  done

lemma rejected_step:
  assumes inv: "space_inv t" and bi: "bi = head_open t" "bi \<noteq> 0"
    and t4: "t4 = etdb_trie_transfer_block (rejected t bi nc) bi Open Close"
  shows "extends t t4" "tsize t4 = tsize t" "members Open t4 = members Open t - {bi}"
    "bi \<in> members Open t"
    "bnext_at t bi \<noteq> bi \<Longrightarrow> head_open t4 = bnext_at t bi \<and> bprev_at t4 (bnext_at t bi) = bprev_at t bi"
proof -
  let ?t3 = "rejected t bi nc"
  have L: "lists_ok t (\<lambda>l. members l t)" using inv by (simp add: space_inv_def)
  show m: "bi \<in> members Open t" using head_member [OF inv, of Open] bi by simp
  then have bb: "0 < bi" "bi < nb t" "1 < bnum_at t bi" "btrial_at t bi = 0"
    using open_trial [OF inv m] by auto
  have L3: "lists_ok ?t3 (\<lambda>l. members l t)"
    by (rule lists_ok_cong [OF L]) (simp_all add: rejected_acc)
  have L4: "lists_ok t4 ((\<lambda>l. members l t)(Open := members Open t - {bi}, Close := insert bi (members Close t)))"
    unfolding t4 using m bb by (intro transfer_block_ok [OF L3]) (simp_all add: rejected_acc)
  have a: "tsize t4 = tsize t" "bnum_at t4 = bnum_at t" "btrial_at t4 = (btrial_at t)(bi := 1)"
    "base_at t4 = base_at t" "check_at t4 = check_at t" "sibling_at t4 = sibling_at t"
    "child_at t4 = child_at t" "behead_at t4 = behead_at t" "capacity t4 = capacity t"
    by (simp_all add: t4 rejected_acc bb)
  then show "tsize t4 = tsize t" by blast
  have mem: "members l t4 = ((\<lambda>l. members l t)(Open := members Open t - {bi},
      Close := insert bi (members Close t))) l" for l
    using bb by (cases l) (auto simp: a nb_def split: if_splits)
  show "members Open t4 = members Open t - {bi}" using mem [of Open] by simp
  have sl: "slots t4 b = slots t b" "free t4 = free t" for b
    by (auto simp: slots_def free_def a)
  have "space_inv t4"
  proof (rule space_invI)
    show "slots_ok t4 b" if "0 \<le> b" "b < nb t4" for b
    proof -
      have "slots_ok t b" using that inv by (simp add: space_inv_def nb_def a)
      then show ?thesis
        by (simp add: slots_ok_def sl a free_count_def links_eq [of t4 t])
    qed
    show "lists_ok t4 (\<lambda>l. members l t4)"
      by (rule lists_ok_cong [OF L4 refl refl refl mem])
    show "size_ok t4" using inv by (simp add: space_inv_def size_ok_def a)
    have "rest_ok t" using inv by (simp add: space_inv_def)
    then show "rest_ok t4" using bb by (auto simp: rest_ok_def nb_def a sl)
  qed
  then show "extends t t4" by (rule extends_same) (simp_all add: a)
  show "head_open t4 = bnext_at t bi \<and> bprev_at t4 (bnext_at t bi) = bprev_at t bi" if ne: "bnext_at t bi \<noteq> bi"
  proof -
    let ?n = "bnext_at t bi"
    let ?t5 = "etdb_trie_pop_block ?t3 bi Open False"
    have r: "?n \<in> members Open t" "bprev_at t bi \<in> members Open t" "bprev_at t ?n = bi"
      "bnext_at t (bprev_at t bi) = bi"
      using ringD [OF lists_okD(1) [OF L, of Open] m] by auto
    have pn: "bprev_at t bi \<noteq> bi" using r(4) ne by metis
    have h5: "head_of l ?t5 = (if l = Open then ?n else head_of l t)" "bprev_at ?t5 ?n = bprev_at t bi" for l
      using ne pn bi(1) unfolding etdb_trie_pop_block_def Let_def
      by (cases l; simp add: rejected_acc rejected_acc(10) [of Full, simplified]
          rejected_acc(10) [of Close, simplified] rejected_acc(10) [of Open, simplified])+
    have t4': "t4 = etdb_trie_push_block ?t5 bi Close (head_of Close t = 0 \<and> bnum_at t bi \<noteq> 0)"
      using ne h5(1) [of Close] by (simp add: t4 etdb_trie_transfer_block_def Let_def rejected_acc)
    have nc: "?n \<notin> members Close t" using r(1) lists_okD(4) [OF L, of Open Close] by auto
    show ?thesis
    proof (cases "head_of Close t = 0 \<and> bnum_at t bi \<noteq> 0")
      case True
      then show ?thesis
        using h5(2) h5(1) [of Open] ne unfolding t4' by (simp add: etdb_trie_push_block_def)
    next
      case False
      then have "head_of Close t \<in> members Close t"
        using bb head_member [OF inv, of Close] by auto
      then have "?n \<noteq> head_of Close t" using nc by auto
      then show ?thesis
        using h5(2) h5(1) [of Open] h5(1) [of Close] ne False unfolding t4'
        by (simp add: etdb_trie_push_block_def Let_def)
    qed
  qed
qed

definition fits :: "trie \<Rightarrow> int \<Rightarrow> bytes \<Rightarrow> bool" where
  "fits t e cs \<longleftrightarrow> e \<in> free t \<and> 256 \<le> e \<and> (\<forall>c\<in>set cs. (e XOR uint (hd cs)) XOR uint c \<in> free t)"

lemma new_block_fits:
  assumes "space_inv t"
  shows "\<exists>t' b. etdb_trie_add_block t = (t', b) \<and> extends t t' \<and> fits t' (b * 256) cs"
proof -
  obtain t' where t': "etdb_trie_add_block t = (t', nb t)" "extends t t'" "{tsize t..tsize t + 255} \<subseteq> free t'"
    using add_block_extends [OF assms] by blast
  have so: "size_ok t" using assms by (simp add: space_inv_def)
  have sz: "nb t * 256 = tsize t" "256 \<le> tsize t"
    using size_nb [OF so] so by (simp_all add: size_ok_def)
  have "(nb t * 256 XOR uint (d :: byte)) XOR uint (c :: byte) \<in> free t'" for c d
  proof -
    have "((nb t * 256 XOR uint d) XOR uint c) div 256 = nb t"
      unfolding xor_block by simp
    then have "nb t * 256 \<le> (nb t * 256 XOR uint d) XOR uint c \<and>
        (nb t * 256 XOR uint d) XOR uint c \<le> nb t * 256 + 255"
      by linarith
    then show ?thesis using t'(3) sz(1) by auto
  qed
  moreover have "tsize t \<in> free t'" using t'(3) by auto
  ultimately have "fits t' (nb t * 256) cs" using sz by (simp add: fits_def)
  then show ?thesis using t'(1,2) by blast
qed

lemma behead_extends:
  assumes "space_inv t" "e \<in> slots t b"
  shows "extends t (put_behead t b e)"
proof -
  let ?t = "put_behead t b e"
  have sl: "slots ?t c = slots t c" "free ?t = free t" for c
    by (auto simp: slots_def free_def)
  have mem: "members l ?t = members l t" for l
    by (rule members_cong) simp_all
  have "space_inv ?t"
  proof (rule space_invI)
    show "slots_ok ?t c" if "0 \<le> c" "c < nb ?t" for c
    proof -
      have "slots_ok t c" using that assms(1) by (simp add: space_inv_def nb_def)
      then show ?thesis
        using assms(2) by (auto simp: slots_ok_def sl free_count_def links_eq [of ?t t] fun_eq_iff)
    qed
    have "lists_ok t (\<lambda>l. members l t)" using assms(1) by (simp add: space_inv_def)
    then show "lists_ok ?t (\<lambda>l. members l ?t)"
      by (rule lists_ok_cong) (simp_all only: mem, simp_all add: fun_eq_iff)
    show "size_ok ?t" using assms(1) by (simp add: space_inv_def size_ok_def)
    show "rest_ok ?t" using assms(1) by (simp add: space_inv_def rest_ok_def nb_def sl)
  qed
  then show ?thesis by (rule extends_same) (simp_all add: fun_eq_iff)
qed

lemma scan_fits:
  assumes "space_inv t" "bi \<in> members Open t" "e \<in> slots t bi" "probe t (e XOR uint (hd cs)) (tl cs)"
    "tl cs \<noteq> []"
  shows "extends t (put_behead t bi e) \<and> fits (put_behead t bi e) e cs"
proof -
  let ?t = "put_behead t bi e"
  have ext: "extends t ?t" by (rule behead_extends [OF assms(1,3)])
  have fr: "free ?t = free t" by (simp add: free_def)
  have bi: "0 < bi" using assms(2) by simp
  have e: "e \<in> free t" "e div 256 = bi" using assms(3) by (auto simp: slots_free)
  have cs: "cs = hd cs # tl cs" using assms(5) by (cases cs) auto
  have "check_at t e < 0" using e by (simp add: free_def)
  then have neg: "\<forall>c\<in>set cs. check_at t ((e XOR uint (hd cs)) XOR uint c) < 0"
    using assms(4,5) by (subst cs) (auto simp: probe_iff)
  have "(e XOR uint (hd cs)) XOR uint c \<in> free t" if "c \<in> set cs" for c
    by (rule labels_free [OF assms(1,3) bi neg _ that]) (simp add: e)
  moreover have "256 \<le> e" using e(2) bi by linarith
  ultimately show ?thesis using ext e by (simp add: fits_def fr)
qed

lemma find_interval_loop_fits:
  assumes "space_inv t" "bi = head_open t" "bi \<noteq> 0" "bprev_at t bi = bz" "tl cs \<noteq> []"
  shows "\<exists>t' e. find_interval_loop t bi bz cs = Some (t', e) \<and> extends t t' \<and> fits t' e cs"
  using assms
proof (induction "card (members Open t)" arbitrary: t bi rule: less_induct)
  case less
  let ?nc = "int (length cs)"
  define t4 where "t4 = etdb_trie_transfer_block (rejected t bi ?nc) bi Open Close"
  note st = rejected_step [OF less.prems(1,2,3) t4_def]
  have m: "bi \<in> members Open t" by (rule st(4))
  have tr: "btrial_at t bi = 0" by (rule open_trial [OF less.prems(1) m])
  obtain r where r: "(if bnum_at t bi \<ge> ?nc \<and> ?nc \<le> breject_at t bi
         then scan_block t (behead_at t bi) (hd cs) (tl cs) (behead_at t bi) else Some None) = Some r"
      "\<And>x. r = Some x \<Longrightarrow> x \<in> slots t bi \<and> probe t (x XOR uint (hd cs)) (tl cs)"
    using scan_block_total [OF less.prems(1) m, of "hd cs" "tl cs"] by (cases "bnum_at t bi \<ge> ?nc \<and> ?nc \<le> breject_at t bi") auto
  have step: "find_interval_loop t bi bz cs = (case r of
           Some e \<Rightarrow> Some (put_behead t bi e, e)
         | None \<Rightarrow> if bi = bz then (let (t5, b) = etdb_trie_add_block t4 in Some (t5, b * 256))
                else find_interval_loop t4 (bnext_at t bi) bz cs)"
    by (subst find_interval_loop_unfold, cases r; simp add: r(1) tr t4_def Let_def)
  show ?case
  proof (cases r)
    case (Some e)
    then show ?thesis
      using step scan_fits [OF less.prems(1) m _ _ less.prems(5)] r(2) [OF Some] by simp
  next
    case None
    have sp4: "space_inv t4" using st(1) by (simp add: extends_def)
    show ?thesis
    proof (cases "bi = bz")
      case True
      obtain t' b where "etdb_trie_add_block t4 = (t', b)" "extends t4 t'" "fits t' (b * 256) cs"
        using new_block_fits [OF sp4] by blast
      then show ?thesis using step None True extends_trans [OF st(1)] by simp
    next
      case False
      have L: "lists_ok t (\<lambda>l. members l t)" using less.prems(1) by (simp add: space_inv_def)
      have nx: "bnext_at t bi \<noteq> bi" "bnext_at t bi \<noteq> 0"
        using ringD [OF lists_okD(1) [OF L, of Open] m] False less.prems(4) by auto
      have fin: "finite (members Open t)"
        by (rule finite_subset [of _ "{0..nb t}"]) auto
      have "card (members Open t4) < card (members Open t)"
        unfolding st(3) by (rule card_Diff1_less [OF fin m])
      then have "\<exists>t' e. find_interval_loop t4 (bnext_at t bi) bz cs = Some (t', e) \<and> extends t4 t' \<and> fits t' e cs"
        using st(5) [OF nx(1)] nx(2) less.prems(4) by (intro less.hyps sp4 less.prems(5)) auto
      then show ?thesis using step None False extends_trans [OF st(1)] by auto
    qed
  qed
qed

text \<open>The search for a set of labels always finds a place where all of them are free.\<close>

lemma find_place_interval_fits:
  assumes "space_inv t" "tl cs \<noteq> []"
  shows "\<exists>t' e. etdb_trie_find_place_interval t cs = Some (t', e) \<and> extends t t' \<and> fits t' e cs"
proof (cases "head_open t = 0")
  case True
  obtain t' b where "etdb_trie_add_block t = (t', b)" "extends t t'" "fits t' (b * 256) cs"
    using new_block_fits [OF assms(1)] by blast
  then show ?thesis using True by (simp add: etdb_trie_find_place_interval_def)
next
  case False
  then show ?thesis
    using find_interval_loop_fits [OF assms(1) refl False refl assms(2)]
    by (simp add: etdb_trie_find_place_interval_def Let_def)
qed

section \<open>Taking the first slot of a node\<close>

lemma pop_empty_node_first:
  assumes "space_inv t" "0 \<le> from" "base < 0"
  shows "\<exists>t0 t1 e. extends t t0 \<and> e \<in> free t0 \<and> 256 \<le> e \<and> slot_taken t0 e label from t1 \<and>
    etdb_trie_pop_empty_node t base label from = (put_base t1 from (e XOR uint label), e)"
proof -
  obtain t0 e where p: "etdb_trie_find_place t = (t0, e)" "extends t t0" "e \<in> free t0" "256 \<le> e"
    using find_place_picks [OF assms(1)] by blast
  have sp: "space_inv t0" using p(2) by (simp add: extends_def)
  have "0 \<le> e XOR uint label" using p(4) by simp
  then obtain t1 where t1: "etdb_trie_pop_empty_node t0 (e XOR uint label) label from = (t1, e)"
      "slot_taken t0 e label from t1"
    using pop_empty_node_taken [OF sp p(3), of "e XOR uint label" label "from"] assms(2) by auto
  have "etdb_trie_pop_empty_node t base label from = (put_base t1 from (e XOR uint label), e)"
    using t1(1) p(1) assms(3) \<open>0 \<le> e XOR uint label\<close>
    unfolding etdb_trie_pop_empty_node_def Let_def by (simp split del: if_split cong: if_cong)
  then show ?thesis using p t1(2) by blast
qed

end
