(* ===== verification/Trie_Tree.thy ===== *)
theory Trie_Tree
  imports Trie_Pick
begin

text \<open>
  The shape of the trie. A ghost \<open>K\<close> gives the children of every node, and \<open>tree t K \<dots>\<close> says that
  the arrays represent it:

  \<^item> the child of \<open>p\<close> by label \<open>c\<close> is the slot \<open>base[p] ^ c\<close> and its \<open>check\<close> is \<open>p\<close>;
  \<^item> every used entry is such a child; children by label 0 carry the values and have none;
  \<^item> the bytes \<open>child\<close> and \<open>sibling\<close> chain the labels of a node, label 0 first; the root has an
    extra label 0 at the head of its chain;
  \<^item> nodes without children, but for the leaves of values, are in \<open>P\<close>: the node under construction.

  During a relocation the children of one node are in two places, a copied entry still occupies
  its old slot, and the chain of the node is incomplete: hence the set \<open>X\<close> of such nodes, the
  slot function \<open>g\<close> of their children and the set \<open>L\<close> of entries outside of the tree. In between,
  \<open>X\<close> and \<open>L\<close> are empty.
\<close>

type_synonym kids = "int \<Rightarrow> byte \<Rightarrow> int option"

definition used :: "trie \<Rightarrow> int set" where
  "used t = {i. 0 < i \<and> i < tsize t \<and> 0 \<le> check_at t i}"

definition slot_of :: "trie \<Rightarrow> int \<Rightarrow> byte \<Rightarrow> int" where
  "slot_of t p c = base_at t p XOR uint c"

primrec chain :: "trie \<Rightarrow> int \<Rightarrow> byte \<Rightarrow> bytes \<Rightarrow> bool" where
  "chain t b x [] \<longleftrightarrow> x = 0"
| "chain t b x (c # cs) \<longleftrightarrow> x = c \<and> chain t b (sibling_at t (b XOR uint c)) cs"

definition labels :: "kids \<Rightarrow> int \<Rightarrow> byte set" where
  "labels K p = dom (K p) \<union> (if p = 0 then {0} else {})"

definition chain_ok :: "trie \<Rightarrow> kids \<Rightarrow> int \<Rightarrow> bool" where
  "chain_ok t K p \<longleftrightarrow> (\<exists>cs. distinct cs \<and> 0 \<notin> set (tl cs) \<and> set cs = labels K p \<and>
     chain t (base_at t p) (child_at t p) cs)"

definition place :: "trie \<Rightarrow> int set \<Rightarrow> (byte \<Rightarrow> int) \<Rightarrow> int \<Rightarrow> byte \<Rightarrow> int" where
  "place t X g p c = (if p \<in> X then g c else slot_of t p c)"

definition tree :: "trie \<Rightarrow> kids \<Rightarrow> (byte \<Rightarrow> int) \<Rightarrow> int set \<Rightarrow> int set \<Rightarrow> int set \<Rightarrow> bool" where
  "tree t K g L X P \<longleftrightarrow> space_inv t \<and> L \<subseteq> used t \<and>
     base_at t 0 = 0 \<and> check_at t 0 = -1 \<and> child_at t 0 = 0 \<and> K 0 0 = None \<and>
     (\<exists>d :: int \<Rightarrow> nat. \<forall>p c q. K p c = Some q \<longrightarrow> d p < d q) \<and>
     (\<forall>p c q. K p c = Some q \<longrightarrow> q = place t X g p c \<and> q \<in> used t - L \<and> check_at t q = p \<and>
        p \<in> insert 0 (used t - L) \<and> (c = 0 \<longrightarrow> K q = Map.empty) \<and>
        (p \<noteq> 0 \<longrightarrow> 256 \<le> base_at t p \<and> 256 \<le> q) \<and>
        (c \<noteq> 0 \<and> K q = Map.empty \<longrightarrow> q \<in> P \<and> base_at t q = -1) \<and>
        (\<forall>d. K p d = Some q \<longrightarrow> d = c)) \<and>
     (\<forall>q\<in>used t - L. \<exists>p c. K p c = Some q) \<and>
     (\<forall>p\<in>insert 0 (used t - L) - X. chain_ok t K p)"

definition tree_inv :: "trie \<Rightarrow> kids \<Rightarrow> int set \<Rightarrow> bool" where
  "tree_inv t K P \<longleftrightarrow> tree t K (\<lambda>_. 0) {} {} P"

section \<open>Reading the invariant\<close>

lemma treeD:
  assumes "tree t K g L X P"
  shows "space_inv t" "L \<subseteq> used t" "base_at t 0 = 0" "check_at t 0 = -1" "child_at t 0 = 0" "K 0 0 = None"
    "q \<in> used t \<Longrightarrow> q \<notin> L \<Longrightarrow> \<exists>p c. K p c = Some q"
    "p \<in> insert 0 (used t - L) \<Longrightarrow> p \<notin> X \<Longrightarrow> chain_ok t K p"
    "\<exists>d :: int \<Rightarrow> nat. \<forall>p c q. K p c = Some q \<longrightarrow> d p < d q"
  using assms unfolding tree_def by blast+

lemma tree_kid:
  assumes "tree t K g L X P" "K p c = Some q"
  shows "q = place t X g p c" "q \<in> used t" "q \<notin> L" "check_at t q = p" "p \<in> insert 0 (used t - L)"
    "c = 0 \<Longrightarrow> K q = Map.empty" "p \<noteq> 0 \<Longrightarrow> 256 \<le> base_at t p" "p \<noteq> 0 \<Longrightarrow> 256 \<le> q"
    "c \<noteq> 0 \<Longrightarrow> K q = Map.empty \<Longrightarrow> q \<in> P" "c \<noteq> 0 \<Longrightarrow> K q = Map.empty \<Longrightarrow> base_at t q = -1"
    "K p d = Some q \<Longrightarrow> d = c" "p \<noteq> q"
proof -
  have "p \<noteq> q" using treeD(9) [OF assms(1)] assms(2) by blast
  then show "q = place t X g p c" "q \<in> used t" "q \<notin> L" "check_at t q = p" "p \<in> insert 0 (used t - L)"
    "c = 0 \<Longrightarrow> K q = Map.empty" "p \<noteq> 0 \<Longrightarrow> 256 \<le> base_at t p" "p \<noteq> 0 \<Longrightarrow> 256 \<le> q"
    "c \<noteq> 0 \<Longrightarrow> K q = Map.empty \<Longrightarrow> q \<in> P" "c \<noteq> 0 \<Longrightarrow> K q = Map.empty \<Longrightarrow> base_at t q = -1"
    "K p d = Some q \<Longrightarrow> d = c" "p \<noteq> q"
    using assms unfolding tree_def by blast+
qed

lemma tree_slot: "tree t K g L X P \<Longrightarrow> K p c = Some q \<Longrightarrow> p \<notin> X \<Longrightarrow> q = slot_of t p c"
  using tree_kid(1) [of t K g L X P p c q] by (simp add: place_def)

lemma treeI:
  assumes "space_inv t" "L \<subseteq> used t" "base_at t 0 = 0" "check_at t 0 = -1" "child_at t 0 = 0" "K 0 0 = None"
    "\<And>p c q. K p c = Some q \<Longrightarrow> d p < (d q :: nat)"
    "\<And>p c q. K p c = Some q \<Longrightarrow> q = place t X g p c \<and> q \<in> used t - L \<and> check_at t q = p \<and>
       p \<in> insert 0 (used t - L) \<and> (c = 0 \<longrightarrow> K q = Map.empty) \<and>
       (p \<noteq> 0 \<longrightarrow> 256 \<le> base_at t p \<and> 256 \<le> q) \<and> (c \<noteq> 0 \<and> K q = Map.empty \<longrightarrow> q \<in> P \<and> base_at t q = -1)"
    "\<And>p c d q. K p c = Some q \<Longrightarrow> K p d = Some q \<Longrightarrow> d = c"
    "\<And>q. q \<in> used t \<Longrightarrow> q \<notin> L \<Longrightarrow> \<exists>p c. K p c = Some q"
    "\<And>p. p \<in> insert 0 (used t - L) \<Longrightarrow> p \<notin> X \<Longrightarrow> chain_ok t K p"
  shows "tree t K g L X P"
proof -
  have "\<exists>d :: int \<Rightarrow> nat. \<forall>p c q. K p c = Some q \<longrightarrow> d p < d q" using assms(7) by blast
  moreover have "\<forall>p c q. K p c = Some q \<longrightarrow> q = place t X g p c \<and> q \<in> used t - L \<and> check_at t q = p \<and>
        p \<in> insert 0 (used t - L) \<and> (c = 0 \<longrightarrow> K q = Map.empty) \<and>
        (p \<noteq> 0 \<longrightarrow> 256 \<le> base_at t p \<and> 256 \<le> q) \<and>
        (c \<noteq> 0 \<and> K q = Map.empty \<longrightarrow> q \<in> P \<and> base_at t q = -1) \<and> (\<forall>d. K p d = Some q \<longrightarrow> d = c)"
  proof (intro allI impI)
    fix p c q
    assume k: "K p c = Some q"
    show "q = place t X g p c \<and> q \<in> used t - L \<and> check_at t q = p \<and>
        p \<in> insert 0 (used t - L) \<and> (c = 0 \<longrightarrow> K q = Map.empty) \<and>
        (p \<noteq> 0 \<longrightarrow> 256 \<le> base_at t p \<and> 256 \<le> q) \<and>
        (c \<noteq> 0 \<and> K q = Map.empty \<longrightarrow> q \<in> P \<and> base_at t q = -1) \<and> (\<forall>d. K p d = Some q \<longrightarrow> d = c)"
      using assms(8) [OF k] assms(9) [OF k] by blast
  qed
  moreover have "\<forall>q\<in>used t - L. \<exists>p c. K p c = Some q" using assms(10) by simp
  moreover have "\<forall>p\<in>insert 0 (used t - L) - X. chain_ok t K p" using assms(11) by simp
  ultimately show ?thesis using assms(1-6) unfolding tree_def by (intro conjI)
qed

lemma tree_parent: "tree t K g L X P \<Longrightarrow> K p c = Some q \<Longrightarrow> K p' c' = Some q \<Longrightarrow> p' = p \<and> c' = c"
  using tree_kid(4) tree_kid(11) by metis

lemma used_pos: "i \<in> used t \<Longrightarrow> 0 < i" "i \<in> used t \<Longrightarrow> i < tsize t" "i \<in> used t \<Longrightarrow> 0 \<le> check_at t i"
  by (auto simp: used_def)

lemma used_not_free: "i \<in> used t \<Longrightarrow> i \<notin> free t"
  by (auto simp: used_def free_def)

lemma free_not_used: "i \<in> free t \<Longrightarrow> i \<notin> used t"
  by (auto simp: used_def free_def)

lemma range_split: "0 < i \<Longrightarrow> i < tsize t \<Longrightarrow> i \<in> free t \<or> i \<in> used t"
  by (auto simp: used_def free_def)

lemma kid_nonzero: "tree t K g L X P \<Longrightarrow> K p c = Some q \<Longrightarrow> q \<noteq> 0"
  using tree_kid(2) used_pos(1) by force

text \<open>Slots of the labels of a node with children, or of the root, lie inside of the arrays.\<close>

lemma slot_range:
  assumes "tree t K g L X P" "p = 0 \<or> (256 \<le> base_at t p \<and> base_at t p < tsize t)"
  shows "0 \<le> slot_of t p c" "slot_of t p c < tsize t" "slot_of t p c = 0 \<Longrightarrow> p = 0 \<and> c = 0"
proof -
  have so: "size_ok t" using treeD(1) [OF assms(1)] by (simp add: space_inv_def)
  note sz = size_nb [OF so]
  have b: "0 \<le> base_at t p" "base_at t p < tsize t"
    using assms(2) treeD(3) [OF assms(1)] sz by auto
  then show "0 \<le> slot_of t p c" by (simp add: slot_of_def)
  show "slot_of t p c < tsize t"
    unfolding slot_of_def using sz block_range [OF xor_block, of "base_at t p" "nb t" c] b by simp
  show "p = 0 \<and> c = 0" if "slot_of t p c = 0"
  proof -
    have "slot_of t p c div 256 = base_at t p div 256" by (simp add: slot_of_def)
    then have "base_at t p div 256 = 0" using that by simp
    then have "p = 0" using assms(2) by auto
    then show ?thesis using that treeD(3) [OF assms(1)] by (simp add: slot_of_def unsigned_eq_0_iff)
  qed
qed

lemma kid_base_range:
  assumes "tree t K g L X P" "K p c = Some q" "p \<notin> X"
  shows "p = 0 \<or> (256 \<le> base_at t p \<and> base_at t p < tsize t)"
proof (cases "p = 0")
  case False
  have so: "size_ok t" using treeD(1) [OF assms(1)] by (simp add: space_inv_def)
  have q: "q = base_at t p XOR uint c" "q < tsize t"
    using tree_slot [OF assms] tree_kid(2) [OF assms(1,2)] used_pos(2) by (auto simp: slot_of_def)
  have "base_at t p div 256 = q div 256" using q(1) by simp
  then have "base_at t p < tsize t"
    using block_range [of "base_at t p" q "nb t"] q(2) size_nb [OF so] by simp
  then show ?thesis using tree_kid(7) [OF assms(1,2)] False by simp
qed simp

text \<open>The test of the code, \<open>check[base[p] ^ c] == p\<close>, finds exactly the children.\<close>

lemma check_kid:
  assumes T: "tree t K g L X P" and X: "p \<notin> X" and p: "p = 0 \<or> (256 \<le> base_at t p \<and> base_at t p < tsize t)"
    and L: "slot_of t p c \<notin> L" and p0: "0 \<le> p"
  shows "check_at t (slot_of t p c) = p \<longleftrightarrow> K p c = Some (slot_of t p c)"
    and "K p c \<noteq> None \<Longrightarrow> K p c = Some (slot_of t p c)"
proof -
  show "K p c = Some (slot_of t p c)" if "K p c \<noteq> None" using that tree_slot [OF T _ X] by auto
  show "check_at t (slot_of t p c) = p \<longleftrightarrow> K p c = Some (slot_of t p c)"
  proof
    assume a: "check_at t (slot_of t p c) = p"
    have "slot_of t p c \<noteq> 0" using a treeD(4) [OF T] p0 by auto
    then have u: "slot_of t p c \<in> used t"
      using slot_range(1,2) [OF T p, of c] a p0 by (auto simp: used_def)
    then obtain p' c' where k: "K p' c' = Some (slot_of t p c)"
      using treeD(7) [OF T _ L] by auto
    then have "p' = p" using tree_kid(4) [OF T k] a by simp
    then have "slot_of t p c' = slot_of t p c" using tree_slot [OF T k] X by simp
    then have "c' = c" by (simp add: slot_of_def)
    then show "K p c = Some (slot_of t p c)" using k \<open>p' = p\<close> by simp
  qed (use tree_kid(4) [OF T] in auto)
qed

section \<open>Writes to used entries\<close>

definition blocks_same :: "trie \<Rightarrow> trie \<Rightarrow> bool" where
  "blocks_same t t' \<longleftrightarrow> bnext_at t' = bnext_at t \<and> bprev_at t' = bprev_at t \<and> bnum_at t' = bnum_at t \<and>
     btrial_at t' = btrial_at t \<and> behead_at t' = behead_at t \<and> (\<forall>l. head_of l t' = head_of l t) \<and>
     tsize t' = tsize t \<and> capacity t' = capacity t"

lemma blocks_same_refl [simp]: "blocks_same t t"
  by (simp add: blocks_same_def)

lemma blocks_same_put [simp]:
  "blocks_same t (put_base t' i x) \<longleftrightarrow> blocks_same t t'" "blocks_same t (put_check t' i x) \<longleftrightarrow> blocks_same t t'"
  "blocks_same t (put_sibling t' i y) \<longleftrightarrow> blocks_same t t'" "blocks_same t (put_child t' i y) \<longleftrightarrow> blocks_same t t'"
  by (simp_all add: blocks_same_def fun_eq_iff)

lemma blocks_same_trans: "blocks_same t s \<Longrightarrow> blocks_same s u \<Longrightarrow> blocks_same t u"
  by (simp add: blocks_same_def)

definition touched :: "trie \<Rightarrow> trie \<Rightarrow> bool" where
  "touched t t' \<longleftrightarrow> blocks_same t t' \<and>
     (\<forall>i. i \<notin> insert 0 (used t) \<longrightarrow> base_at t' i = base_at t i \<and> check_at t' i = check_at t i \<and>
        sibling_at t' i = sibling_at t i \<and> child_at t' i = child_at t i) \<and>
     (\<forall>i\<in>used t. 0 \<le> check_at t' i)"

lemma touched_sets:
  assumes "touched t t'"
  shows "free t' = free t" "used t' = used t" "tsize t' = tsize t"
proof -
  show ts: "tsize t' = tsize t" using assms by (simp add: touched_def blocks_same_def)
  have u: "check_at t' i < 0 \<longleftrightarrow> check_at t i < 0" if "0 < i" for i
  proof (cases "i \<in> used t")
    case True
    then have "0 \<le> check_at t' i" "0 \<le> check_at t i" using assms by (auto simp: touched_def used_def)
    then show ?thesis by simp
  next
    case False
    then show ?thesis using assms that by (simp add: touched_def)
  qed
  then show "free t' = free t" by (auto simp: free_def ts)
  have "0 \<le> check_at t' i \<longleftrightarrow> 0 \<le> check_at t i" if "0 < i" for i
    using u [OF that] by linarith
  then show "used t' = used t" by (auto simp: used_def ts)
qed

lemma touched_space:
  assumes "space_inv t" "touched t t'"
  shows "space_inv t'"
proof (rule space_invI)
  note bs = assms(2) [unfolded touched_def, THEN conjunct1, unfolded blocks_same_def]
  have same: "base_at t' i = base_at t i" "check_at t' i = check_at t i"
    "sibling_at t' i = sibling_at t i" "child_at t' i = child_at t i" if "i \<in> free t \<or> tsize t \<le> i" for i
  proof -
    have "0 < tsize t" using assms(1) by (auto simp: space_inv_def size_ok_def)
    then have "i \<notin> insert 0 (used t)"
      using that free_not_used [of i t] used_pos(2) [of i t] by auto
    then show "base_at t' i = base_at t i" "check_at t' i = check_at t i"
      "sibling_at t' i = sibling_at t i" "child_at t' i = child_at t i"
      using assms(2) by (auto simp: touched_def)
  qed
  note fr = touched_sets [OF assms(2)]
  have sl: "slots t' b = slots t b" for b by (auto simp: slots_free fr)
  show "slots_ok t' b" if "0 \<le> b" "b < nb t'" for b
    using that assms(1) bs same by (intro slots_ok_cong [of t b t'])
      (auto simp: space_inv_def nb_def sl slots_free)
  have mem: "members l t' = members l t" for l
    using bs by (intro members_cong) simp_all
  have "lists_ok t (\<lambda>l. members l t)" using assms(1) by (simp add: space_inv_def)
  then show "lists_ok t' (\<lambda>l. members l t')"
    by (rule lists_ok_cong) (use bs mem in auto)
  show "size_ok t'" using assms(1) bs by (simp add: space_inv_def size_ok_def)
  show "rest_ok t'" using assms(1) bs same by (auto simp: space_inv_def rest_ok_def nb_def fr)
qed

lemma chain_cong:
  assumes "\<And>c. c \<in> set cs \<Longrightarrow> sibling_at t' (b' XOR uint c) = sibling_at t (b XOR uint c)"
  shows "chain t' b' x cs \<longleftrightarrow> chain t b x cs"
  using assms by (induction cs arbitrary: x) auto

lemma chain_hd: "chain t b x cs \<Longrightarrow> x = (case cs of [] \<Rightarrow> 0 | c # _ \<Rightarrow> c)"
  by (cases cs) auto

section \<open>Paths and contents\<close>

fun walk :: "kids \<Rightarrow> int \<Rightarrow> bytes \<Rightarrow> int option" where
  "walk K p [] = Some p"
| "walk K p (c # cs) = (case K p c of None \<Rightarrow> None | Some q \<Rightarrow> walk K q cs)"

text \<open>The values: label 0 below the node that the labels lead to.\<close>

definition content :: "trie \<Rightarrow> kids \<Rightarrow> bytes \<Rightarrow> int option" where
  "content t K ws = Option.bind (walk K 0 ws) (\<lambda>p. map_option (base_at t) (K p 0))"

lemma walk_append: "walk K p (us @ ws) = Option.bind (walk K p us) (\<lambda>q. walk K q ws)"
  by (induction us arbitrary: p) (auto split: option.split)

lemma walk_snoc: "walk K p (us @ [c]) = Option.bind (walk K p us) (\<lambda>q. K q c)"
  by (simp add: walk_append) (auto split: option.split intro!: arg_cong [where f = "Option.bind _"])

text \<open>Nodes that are not the leaf of a value.\<close>

definition inner :: "kids \<Rightarrow> int set" where
  "inner K = insert 0 {q. \<exists>p c. c \<noteq> 0 \<and> K p c = Some q}"

lemma walk_inner: "0 \<notin> set ws \<Longrightarrow> p \<in> inner K \<Longrightarrow> walk K p ws = Some q \<Longrightarrow> q \<in> inner K"
proof (induction ws arbitrary: p)
  case (Cons c ws)
  then obtain r where r: "K p c = Some r" "walk K r ws = Some q" by (auto split: option.splits)
  then have "r \<in> inner K" using Cons.prems(1) by (auto simp: inner_def)
  then show ?case using Cons r by auto
qed simp

lemma walk_node:
  assumes "tree t K g L X P" "walk K p ws = Some q" "p \<in> insert 0 (used t - L)"
  shows "q \<in> insert 0 (used t - L)"
  using assms(2,3)
proof (induction ws arbitrary: p)
  case (Cons c ws)
  then obtain r where "K p c = Some r" "walk K r ws = Some q" by (auto split: option.splits)
  then show ?case using Cons tree_kid(2,3) [OF assms(1)] by blast
qed simp

text \<open>A walk from the root that is not empty does not end in the root.\<close>

lemma walk_not_root:
  assumes "tree t K g L X P" "walk K 0 ws = Some q" "ws \<noteq> []"
  shows "q \<noteq> 0"
proof -
  obtain us c where "ws = us @ [c]" using assms(3) by (metis rev_exhaust)
  then show ?thesis using assms kid_nonzero [OF assms(1)]
    by (auto simp: walk_snoc Option.bind_eq_Some_conv)
qed

section \<open>A new child\<close>

lemma limbo_no_kids:
  assumes "tree t K g L X P" "q \<in> L"
  shows "K q = Map.empty"
proof
  fix c
  have "q \<noteq> 0" "q \<in> used t" using assms treeD(2) used_pos(1) by blast+
  then show "K q c = None"
    using tree_kid(5) [OF assms(1), of q c] assms(2) by (cases "K q c") auto
qed

lemma limbo_no_parent: "tree t K g L X P \<Longrightarrow> q \<in> L \<Longrightarrow> K p c \<noteq> Some q"
  using tree_kid(3) by blast

text \<open>The chain of a node does not depend on what happens elsewhere.\<close>

lemma chain_ok_frame:
  assumes "chain_ok t K p" "labels K' p' = labels K p" "base_at t' p' = base_at t p" "child_at t' p' = child_at t p"
    "\<And>c. c \<in> labels K p \<Longrightarrow> sibling_at t' (slot_of t p c) = sibling_at t (slot_of t p c)"
  shows "chain_ok t' K' p'"
proof -
  obtain cs where cs: "distinct cs" "0 \<notin> set (tl cs)" "set cs = labels K p"
      "chain t (base_at t p) (child_at t p) cs"
    using assms(1) by (auto simp: chain_ok_def)
  have "chain t' (base_at t p) (child_at t p) cs \<longleftrightarrow> chain t (base_at t p) (child_at t p) cs"
    by (rule chain_cong) (use cs(3) assms(5) in \<open>simp add: slot_of_def\<close>)
  then show ?thesis using cs assms(2-4) by (auto simp: chain_ok_def)
qed

text \<open>The bytes \<open>etdb_trie_push_sibling\<close> writes: the label goes to the front or behind label 0.\<close>

definition label_linked :: "trie \<Rightarrow> int \<Rightarrow> byte \<Rightarrow> int \<Rightarrow> trie \<Rightarrow> bool" where
  "label_linked t n c q t' \<longleftrightarrow>
     (if child_at t n = 0 \<and> 0 \<le> base_at t n
      then child_at t' = (child_at t)(q := 0) \<and>
        sibling_at t' = (sibling_at t)(q := sibling_at t (slot_of t n 0), slot_of t n 0 := c)
      else child_at t' = (child_at t)(q := 0, n := c) \<and> sibling_at t' = (sibling_at t)(q := child_at t n))"

lemma label_linked_chain:
  assumes ok: "chain_ok t K n" and new: "c \<notin> labels K n"
    and neg: "base_at t n < 0 \<Longrightarrow> labels K n = {}" and pos: "0 \<le> base_at t n \<Longrightarrow> labels K n \<noteq> {}"
    and b: "base_at t' n = b" "0 \<le> base_at t n \<Longrightarrow> b = base_at t n" and q: "q = b XOR uint c" "q \<noteq> n"
    and l: "label_linked t n c q t'" and K': "labels K' n = insert c (labels K n)"
  shows "chain_ok t' K' n"
proof -
  obtain cs where cs: "distinct cs" "0 \<notin> set (tl cs)" "set cs = labels K n"
      "chain t (base_at t n) (child_at t n) cs"
    using ok by (auto simp: chain_ok_def)
  have ch: "child_at t n = (case cs of [] \<Rightarrow> 0 | d # _ \<Rightarrow> d)" by (rule chain_hd [OF cs(4)])
  have new_slot: "q \<noteq> base_at t n XOR uint d" if "d \<in> set cs" "0 \<le> base_at t n" for d
    using that new cs(3) q(1) b(2) by auto
  show ?thesis
  proof (cases "child_at t n = 0 \<and> 0 \<le> base_at t n")
    case True
    then obtain ds where ds: "cs = 0 # ds"
      using ch pos cs(3) by (cases cs) auto
    have bb: "b = base_at t n" using b(2) True by simp
    have z: "slot_of t n 0 = base_at t n XOR uint (0 :: byte)" by (simp add: slot_of_def)
    have sib: "sibling_at t' = (sibling_at t)(q := sibling_at t (slot_of t n 0), slot_of t n 0 := c)"
        "child_at t' n = 0"
      using l True q(2) by (simp_all add: label_linked_def)
    have qz: "q \<noteq> slot_of t n 0" using new_slot [of 0] ds True by (simp add: slot_of_def)
    have c0: "c \<noteq> 0" using new cs(3) ds by auto
    have tail: "chain t' b (sibling_at t (slot_of t n 0)) ds"
    proof -
      have "sibling_at t' (b XOR uint d) = sibling_at t (base_at t n XOR uint d)" if "d \<in> set ds" for d
      proof -
        have "d \<noteq> 0" using that cs(2) ds by auto
        then have "base_at t n XOR uint d \<noteq> slot_of t n 0"
          by (simp only: slot_of_def xor_left_inj uint_byte_inj not_False_eq_True)
        moreover have "q \<noteq> base_at t n XOR uint d" using new_slot [of d] that ds True by simp
        ultimately show ?thesis
          by (simp add: sib bb)
      qed
      then have "chain t' b (sibling_at t (slot_of t n 0)) ds \<longleftrightarrow>
          chain t (base_at t n) (sibling_at t (slot_of t n 0)) ds"
        by (rule chain_cong)
      then show ?thesis using cs(4) ds by (simp add: slot_of_def)
    qed
    have "chain t' b (child_at t' n) (0 # c # ds)"
      using tail qz q(1) by (simp add: sib) (simp add: bb slot_of_def)
    moreover have "distinct (0 # c # ds)" "0 \<notin> set (tl (0 # c # ds))" "set (0 # c # ds) = labels K' n"
      using cs ds c0 new K' by auto
    ultimately show ?thesis unfolding chain_ok_def b(1) by blast
  next
    case False
    then have sib: "sibling_at t' = (sibling_at t)(q := child_at t n)" "child_at t' n = c"
      using l q(2) by (auto simp: label_linked_def)
    have "chain t' b (child_at t n) cs"
    proof (cases "0 \<le> base_at t n")
      case True
      have "chain t' b (child_at t n) cs \<longleftrightarrow> chain t (base_at t n) (child_at t n) cs"
        by (rule chain_cong) (use new_slot True b(2) in \<open>auto simp: sib\<close>)
      then show ?thesis using cs(4) by simp
    next
      case neg': False
      then have "cs = []" using neg cs(3) by simp
      then show ?thesis using ch by simp
    qed
    then have "chain t' b (child_at t' n) (c # cs)" using q(1) by (simp add: sib)
    moreover have "0 \<notin> set cs"
    proof
      assume "0 \<in> set cs"
      then obtain ds where "cs = 0 # ds" using cs(2) by (cases cs) auto
      then show False using False ch neg cs(3) by (cases "0 \<le> base_at t n") auto
    qed
    moreover have "distinct (c # cs)" "set (c # cs) = labels K' n"
      using cs new K' by auto
    ultimately show ?thesis unfolding chain_ok_def b(1) by (metis list.sel(3))
  qed
qed

end
