(* ===== verification/Trie_Move.thy ===== *)
theory Trie_Move
  imports Trie_Tree
begin

text \<open>
  How the tree changes when the allocator takes or returns a slot, when an entry gets its first
  place as a child, and when an entry moves to another slot. A move renames the entry: the new
  children are the old ones with two slots exchanged.
\<close>

section \<open>Slots taken and returned\<close>

lemma used_free: "used t = {i. 0 < i \<and> i < tsize t} - free t"
  by (auto simp: used_def free_def)

lemma label_slot:
  assumes "tree t K g L X P" "p \<notin> X" "c \<in> labels K p"
  shows "K p c = Some (slot_of t p c) \<or> p = 0 \<and> c = 0 \<and> slot_of t p c = 0"
    and "slot_of t p c \<in> insert 0 (used t - L)"
proof -
  show k: "K p c = Some (slot_of t p c) \<or> p = 0 \<and> c = 0 \<and> slot_of t p c = 0"
  proof (cases "K p c")
    case None
    then have "p = 0 \<and> c = 0" using assms(3) by (auto simp: labels_def split: if_splits)
    then show ?thesis using treeD(3) [OF assms(1)] by (simp add: slot_of_def)
  next
    case (Some q)
    then show ?thesis using tree_slot [OF assms(1) Some assms(2)] by simp
  qed
  then show "slot_of t p c \<in> insert 0 (used t - L)"
    using tree_kid(2,3) [OF assms(1)] by blast
qed

lemma tree_frame:
  assumes T: "tree t K g L X P" and sp: "space_inv t'" and U: "used t' - L' = used t - L" "L' \<subseteq> used t'"
    and same: "\<And>i. i \<in> insert 0 (used t - L) \<Longrightarrow> base_at t' i = base_at t i \<and> check_at t' i = check_at t i \<and>
       sibling_at t' i = sibling_at t i \<and> child_at t' i = child_at t i"
  shows "tree t' K g L' X P"
proof -
  note D = treeD [OF T]
  obtain d :: "int \<Rightarrow> nat" where d: "\<And>p c q. K p c = Some q \<Longrightarrow> d p < d q" using D(9) by blast
  show ?thesis
  proof (rule treeI [where d = d])
    fix p c q
    assume k: "K p c = Some q"
    note N = tree_kid [OF T k]
    have q: "q \<in> used t - L" using N(2,3) by simp
    have pl: "q = place t' X g p c"
      using same [OF N(5)] N(1) by (simp add: place_def slot_of_def)
    have sq: "base_at t' q = base_at t q" "check_at t' q = check_at t q" using same [of q] q by auto
    have sp: "base_at t' p = base_at t p" using same [OF N(5)] by simp
    show "q = place t' X g p c \<and> q \<in> used t' - L' \<and> check_at t' q = p \<and>
       p \<in> insert 0 (used t' - L') \<and> (c = 0 \<longrightarrow> K q = Map.empty) \<and>
       (p \<noteq> 0 \<longrightarrow> 256 \<le> base_at t' p \<and> 256 \<le> q) \<and> (c \<noteq> 0 \<and> K q = Map.empty \<longrightarrow> q \<in> P \<and> base_at t' q = -1)"
      unfolding U sq sp using pl N(4-10) q by blast
  next
    fix p
    assume p: "p \<in> insert 0 (used t' - L')" "p \<notin> X"
    then have p': "p \<in> insert 0 (used t - L)" using U(1) by auto
    show "chain_ok t' K p"
    proof (rule chain_ok_frame [OF D(8) [OF p' p(2)] refl])
      show "base_at t' p = base_at t p" "child_at t' p = child_at t p" using same [OF p'] by auto
      show "sibling_at t' (slot_of t p c) = sibling_at t (slot_of t p c)" if "c \<in> labels K p" for c
        using same label_slot(2) [OF T p(2) that] by blast
    qed
  next
    show "\<exists>p c. K p c = Some q" if "q \<in> used t'" "q \<notin> L'" for q
      using that U(1) D(7) [of q] by blast
  qed (use sp U D(3-6) same [of 0] d tree_kid(11) [OF T] in auto)
qed

lemma tree_take:
  assumes "tree t K g L X P" "e \<in> free t" "slot_taken t e label from t'"
  shows "used t' = insert e (used t)" "tree t' K g (insert e L) X P"
proof -
  have f: "free t' = free t - {e}" "tsize t' = tsize t" "space_inv t'" using assms(3) by (auto simp: slot_taken_def)
  show u: "used t' = insert e (used t)"
    unfolding used_free f using assms(2) by (auto simp: free_def)
  have z: "0 \<notin> free t" by simp
  show "tree t' K g (insert e L) X P"
  proof (rule tree_frame [OF assms(1) f(3)])
    show "used t' - insert e L = used t - L" "insert e L \<subseteq> used t'"
      unfolding u using treeD(2) [OF assms(1)] free_not_used [OF assms(2)] by auto
    show "base_at t' i = base_at t i \<and> check_at t' i = check_at t i \<and> sibling_at t' i = sibling_at t i \<and>
        child_at t' i = child_at t i" if "i \<in> insert 0 (used t - L)" for i
    proof -
      have "i \<notin> free t" using that used_not_free z by auto
      then show ?thesis using assms(3) by (simp add: slot_taken_def)
    qed
  qed
qed

lemma tree_return:
  assumes "tree t K g L X P" "e \<in> L" "slot_freed t e t'"
  shows "used t' = used t - {e}" "tree t' K g (L - {e}) X P"
proof -
  have f: "free t' = insert e (free t)" "tsize t' = tsize t" "space_inv t'" using assms(3) by (auto simp: slot_freed_def)
  show u: "used t' = used t - {e}"
    unfolding used_free f by auto
  have z: "0 \<notin> free t" "e \<noteq> 0" using assms(1,2) treeD(2) used_pos(1) by fastforce+
  show "tree t' K g (L - {e}) X P"
  proof (rule tree_frame [OF assms(1) f(3)])
    show "used t' - (L - {e}) = used t - L" "L - {e} \<subseteq> used t'"
      unfolding u using treeD(2) [OF assms(1)] assms(2) by auto
    show "base_at t' i = base_at t i \<and> check_at t' i = check_at t i \<and> sibling_at t' i = sibling_at t i \<and>
        child_at t' i = child_at t i" if "i \<in> insert 0 (used t - L)" for i
    proof -
      have "i \<notin> free t" "i \<noteq> e" using that used_not_free z assms(2) by auto
      then show ?thesis using assms(3) by (simp add: slot_freed_def)
    qed
  qed
qed

lemma tree_extend:
  assumes "tree t K g L X P" "extends t t'"
  shows "used t' = used t" "tree t' K g L X P"
proof -
  have f: "free t' = free t \<union> {tsize t..<tsize t'}" "tsize t \<le> tsize t'" "space_inv t'"
    using assms(2) by (auto simp: extends_def)
  have z: "0 < tsize t" using treeD(1) [OF assms(1)] by (auto simp: space_inv_def size_ok_def)
  show u: "used t' = used t"
    unfolding used_free f using f(2) by auto
  show "tree t' K g L X P"
  proof (rule tree_frame [OF assms(1) f(3)])
    show "base_at t' i = base_at t i \<and> check_at t' i = check_at t i \<and> sibling_at t' i = sibling_at t i \<and>
        child_at t' i = child_at t i" if "i \<in> insert 0 (used t - L)" for i
      using that assms(2) z used_pos(2) [of i t] by (auto simp: extends_def)
  qed (use u treeD(2) [OF assms(1)] in auto)
qed

section \<open>A new child\<close>

text \<open>
  The entry \<open>q\<close>, outside of the tree, becomes the child of \<open>n\<close> by label \<open>c\<close>; only bytes of \<open>n\<close> and
  of its children are written besides.
\<close>

lemma tree_graft:
  assumes T: "tree t K g L X P" and q: "q \<in> L" and n: "n \<in> insert 0 (used t - L)" and new: "K n c = None"
    and root: "\<not> (n = 0 \<and> c = 0)" and inner: "\<And>p. K p 0 \<noteq> Some n"
    and tch: "touched t t'" and nb: "n \<noteq> 0 \<Longrightarrow> 256 \<le> base_at t' n \<and> 256 \<le> q"
    and pl: "q = place t' X g n c" and base: "base_at t' n = base_at t n \<or> K n = Map.empty \<and> n \<noteq> 0"
    and bases: "\<And>i. i \<in> insert 0 (used t - L) \<Longrightarrow> i \<noteq> n \<Longrightarrow> base_at t' i = base_at t i"
    and baseq: "c \<noteq> 0 \<Longrightarrow> base_at t' q = -1"
    and checks: "\<And>i. i \<in> insert 0 (used t - L) \<Longrightarrow> check_at t' i = check_at t i" "check_at t' q = n"
    and child: "\<And>i. i \<in> insert 0 (used t - L) \<Longrightarrow> i \<noteq> n \<Longrightarrow> child_at t' i = child_at t i" "n = 0 \<Longrightarrow> child_at t' 0 = 0"
    and sib: "\<And>i. i \<in> insert 0 (used t - L) \<Longrightarrow> check_at t i \<noteq> n \<Longrightarrow> \<not> (n = 0 \<and> i = 0) \<Longrightarrow> sibling_at t' i = sibling_at t i"
    and ch: "n \<notin> X \<Longrightarrow> chain_ok t' (K(n := (K n)(c \<mapsto> q))) n"
    and chq: "child_at t' q = 0"
  shows "tree t' (K(n := (K n)(c \<mapsto> q))) g (L - {q}) X (if c = 0 then P - {n} else insert q (P - {n}))"
proof -
  note D = treeD [OF T]
  let ?K = "K(n := (K n)(c \<mapsto> q))" and ?P = "if c = 0 then P - {n} else insert q (P - {n})"
  obtain d0 :: "int \<Rightarrow> nat" where d0: "\<And>p c q. K p c = Some q \<Longrightarrow> d0 p < d0 q" using D(9) by blast
  let ?d = "d0(q := d0 n + 1)"
  have qu: "q \<in> used t" "q \<noteq> 0" using q D(2) used_pos(1) by blast+
  have qn: "q \<noteq> n" using n q qu by auto
  have Kq: "K q = Map.empty" by (rule limbo_no_kids [OF T q])
  have Kp: "K p x \<noteq> Some q" for p x by (rule limbo_no_parent [OF T q])
  note U = touched_sets(2) [OF tch]
  have nodes: "insert 0 (used t' - (L - {q})) = insert q (insert 0 (used t - L))"
    using U qu q by auto
  have kid: "p = n \<and> x = c \<and> r = q \<or> K p x = Some r" if "?K p x = Some r" for p x r
    using that by (auto split: if_splits)
  show ?thesis
  proof (rule treeI [where d = ?d])
    show "?d p < ?d r" if "?K p x = Some r" for p x r
      using kid [OF that] d0 [of p x r] qn Kp [of p x] Kq by auto
    show "\<exists>p x. ?K p x = Some r" if r: "r \<in> used t'" "r \<notin> L - {q}" for r
    proof (cases "r = q")
      case True
      then show ?thesis by (intro exI [of _ n] exI [of _ c]) simp
    next
      case False
      then obtain p x where k: "K p x = Some r" using D(7) [of r] r U by auto
      then have "?K p x = Some r" using new by auto
      then show ?thesis by blast
    qed
    show "y = x" if "?K p x = Some r" "?K p y = Some r" for p x y r
      using kid [OF that(1)] kid [OF that(2)] Kp [of p x] Kp [of p y] tree_kid(11) [OF T] by blast
    show "chain_ok t' ?K p" if p: "p \<in> insert 0 (used t' - (L - {q}))" "p \<notin> X" for p
    proof (cases "p = n \<or> p = q")
      case True
      moreover have "chain_ok t' ?K q"
        unfolding chain_ok_def using qn Kq qu(2) chq
        by (intro exI [of _ "[]"]) (simp add: labels_def)
      ultimately show ?thesis using ch p(2) by blast
    next
      case False
      then have p': "p \<in> insert 0 (used t - L)" using p(1) nodes by auto
      show ?thesis
      proof (rule chain_ok_frame [OF D(8) [OF p' p(2)]])
        show "labels ?K p = labels K p" using False by (simp add: labels_def)
        show "base_at t' p = base_at t p" "child_at t' p = child_at t p" using False p' bases child(1) by auto
        fix x
        assume x: "x \<in> labels K p"
        note s = label_slot [OF T p(2) x]
        have "check_at t (slot_of t p x) \<noteq> n \<and> \<not> (n = 0 \<and> slot_of t p x = 0)"
        proof (cases "K p x = Some (slot_of t p x)")
          case True
          then have "check_at t (slot_of t p x) = p" "slot_of t p x \<noteq> 0"
            using tree_kid(4) [OF T True] kid_nonzero [OF T True] by auto
          then show ?thesis using False by simp
        next
          case 2: False
          then have "p = 0" "slot_of t p x = 0" using s(1) by auto
          then show ?thesis using D(4) False n used_pos(1) [of n t] by auto
        qed
        then show "sibling_at t' (slot_of t p x) = sibling_at t (slot_of t p x)"
          using sib [OF s(2)] by blast
      qed
    qed
    show "r = place t' X g p x \<and> r \<in> used t' - (L - {q}) \<and> check_at t' r = p \<and>
       p \<in> insert 0 (used t' - (L - {q})) \<and> (x = 0 \<longrightarrow> ?K r = Map.empty) \<and>
       (p \<noteq> 0 \<longrightarrow> 256 \<le> base_at t' p \<and> 256 \<le> r) \<and> (x \<noteq> 0 \<and> ?K r = Map.empty \<longrightarrow> r \<in> ?P \<and> base_at t' r = -1)"
      if k: "?K p x = Some r" for p x r
    proof (cases "p = n \<and> x = c \<and> r = q")
      case True
      have "?K q = Map.empty" using Kq qn by simp
      then show ?thesis using True pl qu U checks(2) nodes n nb baseq by auto
    next
      case False
      then have k': "K p x = Some r" using kid [OF k] by blast
      note N = tree_kid [OF T k']
      have r: "r \<in> used t - L" "r \<noteq> q" using N(2,3) q by auto
      have bp: "base_at t' p = base_at t p"
        using bases [OF N(5)] base k' by (cases "p = n") auto
      have e0: "K r = Map.empty" if "?K r = Map.empty" using that by (auto split: if_splits)
      have "base_at t' r = -1 \<and> r \<in> ?P" if "x \<noteq> 0" "?K r = Map.empty"
      proof -
        have rn: "r \<noteq> n" using that(2) by auto
        then show ?thesis using N(9,10) [OF that(1) e0 [OF that(2)]] bases [of r] r by auto
      qed
      moreover have "?K r = Map.empty" if "x = 0"
      proof -
        have "r \<noteq> n" using inner k' that by auto
        then show ?thesis using N(6) that by simp
      qed
      moreover have "r = place t' X g p x" using N(1) bp by (simp add: place_def slot_of_def)
      moreover have "check_at t' r = p" using checks(1) [of r] r N(4) by simp
      moreover have "r \<in> used t' - (L - {q})" "p \<in> insert 0 (used t' - (L - {q}))"
        using r U N(5) nodes by auto
      moreover have "p \<noteq> 0 \<longrightarrow> 256 \<le> base_at t' p \<and> 256 \<le> r" using N(7,8) bp by simp
      ultimately show ?thesis by blast
    qed
    show "base_at t' 0 = 0" using D(3) base bases [of 0] by (cases "n = 0") auto
    show "child_at t' 0 = 0" using D(5) child(1) [of 0] child(2) by (cases "n = 0") auto
  qed (use touched_space [OF D(1) tch] D(2-6) U q root checks(1) [of 0] qn qu(2) in \<open>auto split: if_splits\<close>)
qed

section \<open>An entry moves\<close>

definition ren :: "int \<Rightarrow> int \<Rightarrow> int \<Rightarrow> int" where
  "ren a b x = (if x = a then b else if x = b then a else x)"

definition ren_kids :: "int \<Rightarrow> int \<Rightarrow> kids \<Rightarrow> kids" where
  "ren_kids a b K p c = map_option (ren a b) (K (ren a b p) c)"

lemma ren_ren [simp]: "ren a b (ren a b x) = x"
  by (simp add: ren_def)

lemma ren_simps [simp]: "ren a b a = b" "ren a b b = a" "x \<noteq> a \<Longrightarrow> x \<noteq> b \<Longrightarrow> ren a b x = x"
  by (simp_all add: ren_def)

lemma bij_ren: "bij (ren a b)"
  by (rule bij_betw_byWitness [where f' = "ren a b"]) auto

lemma ren_kids_Some: "ren_kids a b K p c = Some q \<longleftrightarrow> K (ren a b p) c = Some (ren a b q)"
  by (auto simp: ren_kids_def)

lemma ren_kids_empty: "ren_kids a b K p = Map.empty \<longleftrightarrow> K (ren a b p) = Map.empty"
  by (auto simp: ren_kids_def fun_eq_iff)

lemma dom_ren_kids: "dom (ren_kids a b K p) = dom (K (ren a b p))"
  by (auto simp: ren_kids_def)

lemma tree_move:
  assumes T: "tree t K g {e} {f} P" and k: "K f p = Some q" and e: "256 \<le> e" "check_at t e = f" and f: "f \<noteq> 0"
    and tch: "touched t t'" and base: "base_at t' = (base_at t)(e := base_at t q)"
    and check: "check_at t' = (\<lambda>i. if \<exists>c. K q c = Some i then e else check_at t i)"
    and child: "child_at t' = (child_at t)(e := child_at t q)"
    and sib: "\<And>i. i \<noteq> e \<Longrightarrow> sibling_at t' i = sibling_at t i"
  shows "tree t' (ren_kids q e K) (g(p := e)) {q} {f} (ren q e ` P)"
proof -
  note D = treeD [OF T] and Nq = tree_kid [OF T k]
  let ?K = "ren_kids q e K"
  obtain d :: "int \<Rightarrow> nat" where d: "\<And>p c q. K p c = Some q \<Longrightarrow> d p < d q" using D(9) by blast
  have eL: "K e = Map.empty" "K x c \<noteq> Some e" for x c
    by (rule limbo_no_kids [OF T], simp) (rule limbo_no_parent [OF T], simp)
  have q: "q \<in> used t" "q \<noteq> e" "q \<noteq> f" "q \<noteq> 0" using Nq(2,3,12) kid_nonzero [OF T k] by auto
  have eu: "e \<in> used t" "e \<noteq> 0" using D(2) e by auto
  have fe: "f \<noteq> e" "f \<in> used t" using Nq(5) f by auto
  note U = touched_sets(2) [OF tch]
  have nodes: "insert 0 (used t' - {q}) = insert e (insert 0 (used t - {e}) - {q})"
    using U q eu by auto
  have rf: "ren q e f = f" "ren q e 0 = 0" using q fe eu by auto
  have kid0: "r \<noteq> e \<and> x \<noteq> e" if "K x c = Some r" for x c r
    using that eL(1) eL(2) [of x c] by auto
  have pq: "K x c = Some q \<longleftrightarrow> x = f \<and> c = p" for x c using tree_parent [OF T k, of x c] k by blast
  show ?thesis
  proof (rule treeI [where d = "d \<circ> ren q e"])
    show "(d \<circ> ren q e) x < (d \<circ> ren q e) r" if "?K x c = Some r" for x c r
      using that d by (simp add: ren_kids_Some)
    show "c' = c" if "?K x c = Some r" "?K x c' = Some r" for x c c' r
      using that tree_kid(11) [OF T] by (simp add: ren_kids_Some)
    show "\<exists>x c. ?K x c = Some r" if r: "r \<in> used t'" "r \<notin> {q}" for r
    proof (cases "r = e")
      case True
      then have "?K f p = Some r" using k rf by (simp add: ren_kids_Some)
      then show ?thesis by blast
    next
      case False
      then obtain x c where "K x c = Some r" using D(7) [of r] r U by auto
      then have "?K (ren q e x) c = Some r" using False r by (simp add: ren_kids_Some)
      then show ?thesis by blast
    qed
    show "chain_ok t' ?K x" if x: "x \<in> insert 0 (used t' - {q})" "x \<notin> {f}" for x
    proof -
      define y where "y = ren q e x"
      have xq: "x \<noteq> q" using x(1) q by auto
      have y: "y \<in> insert 0 (used t - {e})" "y \<notin> {f}"
        using x nodes q fe xq rf unfolding y_def by (cases "x = e"; auto)+
      have yb: "base_at t' x = base_at t y" "child_at t' x = child_at t y"
        using xq base child unfolding y_def by (cases "x = e"; auto)+
      have "x = 0 \<longleftrightarrow> y = 0" unfolding y_def using q eu by (auto simp: ren_def)
      then have l: "labels ?K x = labels K y" by (simp add: labels_def dom_ren_kids y_def)
      show ?thesis
      proof (rule chain_ok_frame [OF D(8) [OF y] l yb])
        fix c
        assume "c \<in> labels K y"
        then have "slot_of t y c \<in> insert 0 (used t - {e})" using label_slot(2) [OF T y(2)] by blast
        then have "slot_of t y c \<noteq> e" using eu by auto
        then show "sibling_at t' (slot_of t y c) = sibling_at t (slot_of t y c)" by (rule sib)
      qed
    qed
    show "r = place t' {f} (g(p := e)) x c \<and> r \<in> used t' - {q} \<and> check_at t' r = x \<and>
       x \<in> insert 0 (used t' - {q}) \<and> (c = 0 \<longrightarrow> ?K r = Map.empty) \<and> (x \<noteq> 0 \<longrightarrow> 256 \<le> base_at t' x \<and> 256 \<le> r) \<and>
       (c \<noteq> 0 \<and> ?K r = Map.empty \<longrightarrow> r \<in> ren q e ` P \<and> base_at t' r = -1)"
      if kk: "?K x c = Some r" for x c r
    proof -
      define y s where "y = ren q e x" and "s = ren q e r"
      have ks: "K y c = Some s" using kk by (simp add: ren_kids_Some y_def s_def)
      have xy: "x = ren q e y" and rs: "r = ren q e s" by (simp_all add: y_def s_def)
      note N = tree_kid [OF T ks]
      have ne: "s \<noteq> e" "y \<noteq> e" using kid0 [OF ks] by simp_all
      have su: "s \<in> used t" using N(2) .
      have r: "r \<in> used t' - {q}" using rs ne(1) su U eu q by (cases "s = q") auto
      have x: "x \<in> insert 0 (used t' - {q})" "x = 0 \<longleftrightarrow> y = 0"
        using xy ne(2) N(5) U eu q by (cases "y = q"; auto)+
      have bx: "base_at t' x = base_at t y" using xy ne(2) base by (cases "y = q") auto
      have br: "base_at t' r = base_at t s" using rs ne(1) base by (cases "s = q") auto
      have kr: "?K r = Map.empty \<longleftrightarrow> K s = Map.empty" using rs by (simp add: ren_kids_empty)
      have ck: "check_at t' r = x"
      proof (cases "s = q")
        case True
        then have "y = f" "r = e" "x = f" using ks pq rs xy rf by auto
        then show ?thesis using check eL e(2) by simp
      next
        case False
        then have rr: "r = s" using rs ne by simp
        show ?thesis
        proof (cases "y = q")
          case True
          then show ?thesis using check ks rr xy by auto
        next
          case 2: False
          then have "\<not> (\<exists>c. K q c = Some s)" using tree_parent [OF T ks] by auto
          then show ?thesis using check rr N(4) xy 2 ne by simp
        qed
      qed
      have pl: "r = place t' {f} (g(p := e)) x c"
      proof (cases "y = f")
        case True
        then have xf: "x = f" using xy rf by simp
        show ?thesis
        proof (cases "c = p")
          case True
          then show ?thesis using \<open>y = f\<close> ks k rs xf by (simp add: place_def)
        next
          case False
          then have "s \<noteq> q" using ks pq by auto
          then show ?thesis using False \<open>y = f\<close> N(1) rs ne xf by (simp add: place_def)
        qed
      next
        case False
        then have xf: "x \<noteq> f" using xy rf q fe ne by (cases "y = q") auto
        have "s \<noteq> q" using ks pq False by auto
        then show ?thesis using False xf N(1) rs ne bx by (simp add: place_def slot_of_def)
      qed
      have big: "x \<noteq> 0 \<longrightarrow> 256 \<le> base_at t' x \<and> 256 \<le> r"
        using N(7,8) x(2) bx rs ne e by (cases "s = q") auto
      have "c = 0 \<longrightarrow> ?K r = Map.empty" using N(6) kr by simp
      moreover have "c \<noteq> 0 \<and> ?K r = Map.empty \<longrightarrow> r \<in> ren q e ` P \<and> base_at t' r = -1"
        using N(9,10) kr br rs by auto
      ultimately show ?thesis using pl r ck x(1) big by blast
    qed
    have "\<not> (\<exists>c. K q c = Some 0)" using kid_nonzero [OF T] by blast
    then show "check_at t' 0 = -1" using check D(4) by simp
  qed (use touched_space [OF D(1) tch] D(3,5,6) q eu U rf base child in \<open>auto simp: ren_kids_def\<close>)
qed

end
