(* ===== verification/Trie_Link.thy ===== *)
theory Trie_Link
  imports Trie_Move
begin

text \<open>
  The writes of the code that make an entry a child (\<open>etdb_trie_push_sibling\<close>), and the loop that
  makes the children of a moved entry point to its new slot.
\<close>

section \<open>Linking a label\<close>

lemma push_sibling_acc:
  fixes t n b c flag
  defines "t' \<equiv> etdb_trie_push_sibling t n b c flag"
  shows "child_at t' = (if flag \<and> child_at t n = 0 then child_at t else (child_at t)(n := c))"
    "sibling_at t' = (if flag \<and> child_at t n = 0 then (sibling_at t)(b XOR uint c := sibling_at t b, b := c)
       else (sibling_at t)(b XOR uint c := child_at t n))"
    "base_at t' = base_at t" "check_at t' = check_at t" "blocks_same s t' \<longleftrightarrow> blocks_same s t"
  by (auto simp: t'_def etdb_trie_push_sibling_def Let_def fun_eq_iff)

lemma push_sibling_linked:
  assumes "child_at t2 = child_at t" "sibling_at t2 = sibling_at t" "q = b XOR uint c" "flag \<longleftrightarrow> 0 \<le> base_at t n"
    "flag \<Longrightarrow> b = base_at t n" "n \<noteq> q"
    "child_at t' = (child_at (etdb_trie_push_sibling t2 n b c flag))(q := 0)"
    "sibling_at t' = sibling_at (etdb_trie_push_sibling t2 n b c flag)"
  shows "label_linked t n c q t'"
  using assms unfolding label_linked_def push_sibling_acc by (auto simp: slot_of_def fun_eq_iff)

lemma big_block:
  assumes "256 \<le> b"
  shows "256 \<le> b XOR uint (c :: byte)"
proof -
  define z where "z = b XOR uint c"
  have "z div 256 = b div 256" by (simp add: z_def)
  then have "256 \<le> z" using assms by presburger
  then show ?thesis by (simp add: z_def)
qed

lemma tree_link:
  assumes T: "tree t K g L X P" and q: "q \<in> L" and n: "n \<in> insert 0 (used t - L)" "n \<notin> X" and new: "K n c = None"
    and root: "\<not> (n = 0 \<and> c = 0)" and inner: "\<And>p. K p 0 \<noteq> Some n"
    and neg: "base_at t n < 0 \<Longrightarrow> K n = Map.empty \<and> n \<noteq> 0" and pos: "0 \<le> base_at t n \<Longrightarrow> labels K n \<noteq> {}"
    and l: "label_linked t n c q t'" and bs: "blocks_same t t'"
    and base: "base_at t' = (base_at t)(n := b, q := x)" and check: "check_at t' = (check_at t)(q := n)"
    and b: "0 \<le> base_at t n \<Longrightarrow> b = base_at t n" "q = b XOR uint c" "n \<noteq> 0 \<Longrightarrow> 256 \<le> b" and x: "c \<noteq> 0 \<Longrightarrow> x = -1"
  shows "touched t t'"
    and "tree t' (K(n := (K n)(c \<mapsto> q))) g (L - {q}) X (if c = 0 then P - {n} else insert q (P - {n}))"
    and "child_at t n = 0 \<Longrightarrow> 0 \<le> base_at t n \<Longrightarrow> K n 0 = Some (slot_of t n 0) \<or> n = 0 \<and> slot_of t n 0 = 0"
proof -
  note D = treeD [OF T]
  have qu: "q \<in> used t" "q \<noteq> 0" using q D(2) used_pos(1) by blast+
  have qn: "q \<noteq> n" using n q qu by auto
  have n0: "0 \<le> n" using n(1) used_pos(1) [of n t] by auto
  show head: "K n 0 = Some (slot_of t n 0) \<or> n = 0 \<and> slot_of t n 0 = 0" if "child_at t n = 0" "0 \<le> base_at t n"
  proof -
    obtain cs where cs: "set cs = labels K n" "chain t (base_at t n) (child_at t n) cs"
      using D(8) [OF n] by (auto simp: chain_ok_def)
    then have "0 \<in> labels K n"
      using chain_hd [OF cs(2)] that pos by (cases cs) auto
    then show ?thesis using label_slot(1) [OF T n(2)] by blast
  qed
  have sib: "sibling_at t' i = sibling_at t i" if "i \<noteq> q" "\<not> (child_at t n = 0 \<and> 0 \<le> base_at t n \<and> i = slot_of t n 0)" for i
    using l that by (auto simp: label_linked_def split: if_splits)
  have child: "child_at t' i = child_at t i" if "i \<noteq> n" "i \<noteq> q" for i
    using l that by (auto simp: label_linked_def split: if_splits)
  have chq: "child_at t' q = 0" using l qn by (auto simp: label_linked_def split: if_splits)
  have slot: "slot_of t n 0 \<in> insert 0 (used t)" if "child_at t n = 0" "0 \<le> base_at t n"
    using head [OF that] tree_kid(2) [OF T] by blast
  show tch: "touched t t'"
    unfolding touched_def
  proof (intro conjI allI impI ballI bs)
    fix i
    assume i: "i \<notin> insert 0 (used t)"
    then have ne: "i \<noteq> q" "i \<noteq> n" using qu n by auto
    then show "base_at t' i = base_at t i" "check_at t' i = check_at t i" "child_at t' i = child_at t i"
      using base check child by simp_all
    show "sibling_at t' i = sibling_at t i" using sib [OF ne(1)] slot i by blast
  next
    show "0 \<le> check_at t' i" if "i \<in> used t" for i using check used_pos(3) [OF that] n0 by simp
  qed
  show "tree t' (K(n := (K n)(c \<mapsto> q))) g (L - {q}) X (if c = 0 then P - {n} else insert q (P - {n}))"
  proof (rule tree_graft [OF T q n(1) new root inner tch])
    show "256 \<le> base_at t' n \<and> 256 \<le> q" if "n \<noteq> 0" using b(2) b(3) [OF that] base qn big_block by simp
    show "q = place t' X g n c" using n(2) b(2) base qn by (simp add: place_def slot_of_def)
    show "base_at t' n = base_at t n \<or> K n = Map.empty \<and> n \<noteq> 0" using neg b(1) base qn by fastforce
    show "base_at t' i = base_at t i" "child_at t' i = child_at t i" if "i \<in> insert 0 (used t - L)" "i \<noteq> n" for i
      using that base child [of i] q qu by auto
    show "base_at t' q = -1" if "c \<noteq> 0" using base x that by simp
    show "check_at t' i = check_at t i" if "i \<in> insert 0 (used t - L)" for i using that check q qu by auto
    show "check_at t' q = n" using check by simp
    show "child_at t' 0 = 0" if "n = 0"
      using l that D(3,5) qu by (auto simp: label_linked_def)
    show "sibling_at t' i = sibling_at t i"
      if i: "i \<in> insert 0 (used t - L)" "check_at t i \<noteq> n" "\<not> (n = 0 \<and> i = 0)" for i
    proof (rule sib)
      show "i \<noteq> q" using i(1) q qu by auto
      show "\<not> (child_at t n = 0 \<and> 0 \<le> base_at t n \<and> i = slot_of t n 0)"
        using head i(2,3) tree_kid(4) [OF T] by blast
    qed
    show "chain_ok t' (K(n := (K n)(c \<mapsto> q))) n"
    proof (rule label_linked_chain [OF D(8) [OF n] _ _ _ _ b(1) b(2) qn l])
      show "c \<notin> labels K n" using new root by (auto simp: labels_def)
      show "base_at t n < 0 \<Longrightarrow> labels K n = {}" using neg by (auto simp: labels_def)
      show "base_at t' n = b" using base qn by simp
      show "labels (K(n := (K n)(c \<mapsto> q))) n = insert c (labels K n)" by (auto simp: labels_def)
    qed (use pos in auto)
    show "child_at t' q = 0" by (rule chq)
  qed
qed

section \<open>New parents\<close>

lemma adopt_run:
  assumes "chain t b x ds" "ds \<noteq> []" "0 \<notin> set (tl ds)"
  shows "\<exists>t'. adopt t b x e = Some t' \<and> base_at t' = base_at t \<and> sibling_at t' = sibling_at t \<and>
    child_at t' = child_at t \<and> blocks_same t t' \<and>
    check_at t' = (\<lambda>i. if \<exists>d\<in>set ds. i = b XOR uint d then e else check_at t i)"
  using assms
proof (induction ds arbitrary: t x)
  case (Cons d ds)
  let ?t = "put_check t (b XOR uint d) e"
  have x: "x = d" "chain t b (sibling_at t (b XOR uint d)) ds" using Cons.prems(1) by simp_all
  have acc: "base_at ?t = base_at t" "sibling_at ?t = sibling_at t" "child_at ?t = child_at t"
    "check_at ?t = (check_at t)(b XOR uint d := e)"
    by (auto simp: fun_eq_iff)
  show ?case
  proof (cases ds)
    case Nil
    then have "sibling_at t (b XOR uint d) = 0" using x(2) by simp
    then have "adopt t b x e = Some ?t" using x(1) by (subst adopt.simps) simp
    then show ?thesis using Nil acc by (intro exI [of _ ?t]) (auto simp: fun_eq_iff)
  next
    case (Cons d' ds')
    then have ne: "sibling_at t (b XOR uint d) = d'" "d' \<noteq> 0" "0 \<notin> set (tl ds)" "ds \<noteq> []"
      using x(2) Cons.prems(3) by auto
    have "chain ?t b d' ds"
      using chain_cong [of ds ?t b t b d'] x(2) ne(1) acc(2) by simp
    from Cons.IH [OF this ne(4,3)] obtain t' where t': "adopt ?t b d' e = Some t'" "base_at t' = base_at ?t"
      "sibling_at t' = sibling_at ?t" "child_at t' = child_at ?t" "blocks_same ?t t'"
      "check_at t' = (\<lambda>i. if \<exists>d\<in>set ds. i = b XOR uint d then e else check_at ?t i)"
      by blast
    have "adopt t b x e = Some t'"
      using x(1) ne(1,2) t'(1) by (subst adopt.simps) simp
    moreover have "blocks_same t t'" using t'(5) by (rule blocks_same_trans [rotated]) simp
    ultimately show ?thesis using t' acc by (intro exI [of _ t']) (auto simp: fun_eq_iff)
  qed
qed simp

end
