(* ===== verification/Trie_Relocate.thy ===== *)
theory Trie_Relocate
  imports Trie_Link
begin

text \<open>
  The loop of \<open>etdb_trie_resolve\<close> that moves the children of a node \<open>f\<close>, label by label, from the
  slots \<open>base_o ^ c\<close> to \<open>base ^ c\<close>. \<open>reloc\<close> is its invariant: \<open>ds\<close> are the labels done and \<open>rs\<close> the
  ones to come; \<open>renames\<close> says that a state holds the same trie under other slots.
\<close>

section \<open>Renamings\<close>

definition renames :: "trie \<Rightarrow> kids \<Rightarrow> trie \<Rightarrow> kids \<Rightarrow> (int \<Rightarrow> int) \<Rightarrow> bool" where
  "renames t K t' K' r \<longleftrightarrow> bij r \<and> r 0 = 0 \<and> (\<forall>p c. K' (r p) c = map_option r (K p c)) \<and>
     (\<forall>i\<in>insert 0 (used t). r i \<in> insert 0 (used t') \<and> base_at t' (r i) = base_at t i)"

lemma renames_refl: "renames t K t K (\<lambda>x. x)"
  by (simp add: renames_def option.map_ident bij_id [unfolded id_def])

lemma renames_trans:
  assumes "renames t K t' K' r" "renames t' K' t'' K'' s"
  shows "renames t K t'' K'' (s \<circ> r)"
proof -
  have r: "bij r" "r 0 = 0" "\<And>p c. K' (r p) c = map_option r (K p c)"
      "\<And>i. i \<in> insert 0 (used t) \<Longrightarrow> r i \<in> insert 0 (used t')"
      "\<And>i. i \<in> insert 0 (used t) \<Longrightarrow> base_at t' (r i) = base_at t i"
    using assms(1) unfolding renames_def by blast+
  have s: "bij s" "s 0 = 0" "\<And>p c. K'' (s p) c = map_option s (K' p c)"
      "\<And>i. i \<in> insert 0 (used t') \<Longrightarrow> s i \<in> insert 0 (used t'')"
      "\<And>i. i \<in> insert 0 (used t') \<Longrightarrow> base_at t'' (s i) = base_at t' i"
    using assms(2) unfolding renames_def by blast+
  have "K'' ((s \<circ> r) p) c = map_option (s \<circ> r) (K p c)" for p c
    by (simp add: r(3) s(3) option.map_comp)
  moreover have "(s \<circ> r) i \<in> insert 0 (used t'') \<and> base_at t'' ((s \<circ> r) i) = base_at t i"
    if "i \<in> insert 0 (used t)" for i
    using r(4,5) [OF that] s(4,5) [OF r(4) [OF that]] by simp
  ultimately show ?thesis
    unfolding renames_def using r(2) s(2) bij_comp [OF r(1) s(1)] by simp
qed

section \<open>The invariant\<close>

primrec trail :: "trie \<Rightarrow> int \<Rightarrow> bytes \<Rightarrow> byte \<Rightarrow> bool" where
  "trail t b [] x \<longleftrightarrow> True"
| "trail t b (d # ds) x \<longleftrightarrow>
     sibling_at t (b XOR uint d) = (case ds of [] \<Rightarrow> x | d' # _ \<Rightarrow> d') \<and> trail t b ds x"

lemma trail_snoc: "trail t b (ds @ [d]) x \<longleftrightarrow> trail t b ds d \<and> sibling_at t (b XOR uint d) = x"
  by (induction ds) (auto split: list.split)

lemma trail_cong:
  "(\<And>d. d \<in> set ds \<Longrightarrow> sibling_at t' (b XOR uint d) = sibling_at t (b XOR uint d)) \<Longrightarrow>
     trail t' b ds x \<longleftrightarrow> trail t b ds x"
  by (induction ds) auto

lemma trail_chain: "trail t b (d # ds) 0 \<Longrightarrow> chain t b d (d # ds)"
  by (induction ds arbitrary: d) auto

definition next_of :: "bytes \<Rightarrow> byte" where
  "next_of cs = (case cs of [] \<Rightarrow> 0 | c # _ \<Rightarrow> c)"

definition spot :: "int \<Rightarrow> int \<Rightarrow> bytes \<Rightarrow> byte \<Rightarrow> int" where
  "spot base base_o ds c = (if c \<in> set ds then base XOR uint c else base_o XOR uint c)"

definition reloc ::
    "trie \<Rightarrow> kids \<Rightarrow> int \<Rightarrow> int \<Rightarrow> int \<Rightarrow> bytes \<Rightarrow> bytes \<Rightarrow> int set \<Rightarrow> int set \<Rightarrow> bool" where
  "reloc t K f base base_o ds rs P L \<longleftrightarrow> tree t K (spot base base_o ds) L {f} P \<and> f \<noteq> 0 \<and>
     base_at t f = base \<and> 256 \<le> base \<and> distinct (ds @ rs) \<and> child_at t f = hd (ds @ rs) \<and>
     (\<forall>c\<in>set rs. base XOR uint c \<in> free t) \<and> trail t base ds (next_of rs) \<and>
     set ds \<subseteq> dom (K f) \<and> dom (K f) \<subseteq> set (ds @ rs)"

lemma relocD:
  assumes "reloc t K f base base_o ds rs P L"
  shows "tree t K (spot base base_o ds) L {f} P" "f \<noteq> 0" "base_at t f = base" "256 \<le> base" "distinct (ds @ rs)"
    "child_at t f = hd (ds @ rs)" "c \<in> set rs \<Longrightarrow> base XOR uint c \<in> free t" "trail t base ds (next_of rs)"
    "set ds \<subseteq> dom (K f)" "dom (K f) \<subseteq> set (ds @ rs)"
  using assms by (auto simp: reloc_def)

text \<open>The slots of the labels done and to come.\<close>

lemma reloc_done:
  assumes "reloc t K f base base_o ds rs P L" "c \<in> set ds"
  shows "K f c = Some (base XOR uint c)"
proof -
  note D = relocD [OF assms(1)]
  obtain q where q: "K f c = Some q" using D(9) assms(2) by auto
  then show ?thesis using tree_kid(1) [OF D(1) q] assms(2) by (simp add: place_def spot_def)
qed

lemma reloc_todo:
  assumes "reloc t K f base base_o ds rs P L" "K f c = Some q" "c \<notin> set ds"
  shows "q = base_o XOR uint c"
  using tree_kid(1) [OF relocD(1) [OF assms(1)] assms(2)] assms(3) by (simp add: place_def spot_def)

lemma free_kids_zero:
  assumes "space_inv t" "e \<in> free t"
  shows "child_at t e = 0" "sibling_at t e = 0"
  using assms by (auto simp: space_inv_def rest_ok_def)

lemma tree_g_cong:
  assumes "tree t K g L X P" "\<And>p c. p \<in> X \<Longrightarrow> K p c \<noteq> None \<Longrightarrow> g' c = g c"
  shows "tree t K g' L X P"
proof -
  note D = treeD [OF assms(1)]
  obtain d :: "int \<Rightarrow> nat" where d: "\<And>p c q. K p c = Some q \<Longrightarrow> d p < d q" using D(9) by blast
  show ?thesis
  proof (rule treeI [where d = d])
    fix p c q
    assume k: "K p c = Some q"
    have pl: "q = place t X g' p c"
      using tree_kid(1) [OF assms(1) k] assms(2) [of p c] k by (simp add: place_def)
    show "q = place t X g' p c \<and> q \<in> used t - L \<and> check_at t q = p \<and>
       p \<in> insert 0 (used t - L) \<and> (c = 0 \<longrightarrow> K q = Map.empty) \<and>
       (p \<noteq> 0 \<longrightarrow> 256 \<le> base_at t p \<and> 256 \<le> q) \<and> (c \<noteq> 0 \<and> K q = Map.empty \<longrightarrow> q \<in> P \<and> base_at t q = -1)"
      using pl tree_kid(2-10) [OF assms(1) k] by blast
  qed (use D(1-8) d tree_kid(11) [OF assms(1)] in auto)
qed

text \<open>A node without children has no entry at the head of its chain.\<close>

lemma childless:
  assumes "tree t K g L X P" "q \<in> used t - L" "q \<notin> X" "K q = Map.empty"
  shows "child_at t q = 0"
proof -
  have "q \<noteq> 0" using assms(2) used_pos(1) by blast
  moreover obtain cs where "set cs = labels K q" "chain t (base_at t q) (child_at t q) cs"
    using treeD(8) [OF assms(1)] assms(2,3) by (auto simp: chain_ok_def)
  ultimately show ?thesis using assms(4) by (cases cs) (auto simp: labels_def)
qed

section \<open>One entry\<close>

text \<open>The writes between taking the new slot and returning the old one.\<close>

definition move_one :: "int \<Rightarrow> int \<Rightarrow> byte \<Rightarrow> bytes \<Rightarrow> trie \<Rightarrow> int \<Rightarrow> int \<Rightarrow> trie option" where
  "move_one base f p ps t1 to to_o =
     (let t3 = put_base (put_sibling t1 to (next_of ps)) to (base_at (put_sibling t1 to (next_of ps)) to_o)
      in if base_at t3 to > 0 \<and> p \<noteq> 0
         then adopt (put_child t3 to (child_at t3 to_o)) (base_at (put_child t3 to (child_at t3 to_o)) to)
                (child_at t3 to_o) to
         else Some t3)"

lemma relocate_one_unfold:
  assumes "etdb_trie_pop_empty_node t base p f = (t1, to)" "to_o = base_o XOR uint p" "\<not> (flag \<and> to_o = to_pn)"
    "move_one base f p ps t1 to to_o = Some t5" "n' = (if \<not> flag \<and> to_o = n then to else n)"
  shows "relocate_one flag base base_o f to_pn l p ps t n =
    (if \<not> flag \<and> to_o = to_pn
     then let ta = etdb_trie_push_sibling t5 n' (to_pn XOR uint l) l True;
              tb = put_child ta to_o 0;
              tc = put_base tb to_o (if l \<noteq> 0 then -1 else 0)
          in Some (put_check tc to_o n', n')
     else Some (etdb_trie_push_empty_node t5 to_o, n'))"
proof -
  have np: "(case ps of [] \<Rightarrow> 0 | q # _ \<Rightarrow> q) = next_of ps" by (simp add: next_of_def)
  show ?thesis
    unfolding relocate_one_def assms(1) Let_def np prod.case
    using assms(2-5) unfolding move_one_def Let_def by (auto split: if_splits)
qed

lemma move_one_run:
  assumes R: "reloc t K f base base_o ds (p # rs) P {}" and k: "K f p = Some q"
    and t1: "slot_taken t e p f t1" and e: "e = base XOR uint p"
  obtains t5 where "move_one base f p rs t1 e q = Some t5" "blocks_same t1 t5"
    "base_at t5 = (base_at t1)(e := base_at t1 q)"
    "check_at t5 = (\<lambda>i. if \<exists>c. K q c = Some i then e else check_at t1 i)"
    "child_at t5 = (child_at t1)(e := child_at t1 q)" "sibling_at t5 = (sibling_at t1)(e := next_of rs)"
    "tree t1 K (spot base base_o ds) {e} {f} P" "used t1 = insert e (used t)"
proof -
  note D = relocD [OF R]
  have ef: "e \<in> free t" using D(7) e by simp
  note T1 = tree_take [OF D(1) ef t1]
  have e1: "child_at t1 e = 0" using t1 free_kids_zero [OF treeD(1) [OF D(1)] ef] by (simp add: slot_taken_def)
  note N = tree_kid [OF T1(2) k]
  have qn: "q \<in> used t1 - {e}" "q \<notin> {f}" "q \<noteq> e" using N(2,3,12) by auto
  let ?t2 = "put_sibling t1 e (next_of rs)"
  let ?t3 = "put_base ?t2 e (base_at t1 q)"
  let ?t4 = "put_child ?t3 e (child_at t1 q)"
  have b3: "base_at ?t3 e = base_at t1 q" "child_at ?t3 q = child_at t1 q" by simp_all
  have acc: "base_at ?t4 = (base_at t1)(e := base_at t1 q)" "sibling_at ?t4 = (sibling_at t1)(e := next_of rs)"
    "child_at ?t4 = (child_at t1)(e := child_at t1 q)" "check_at ?t4 = check_at t1" "blocks_same t1 ?t4"
    by (auto simp: fun_eq_iff)
  have m: "move_one base f p rs t1 e q =
      (if base_at t1 q > 0 \<and> p \<noteq> 0 then adopt ?t4 (base_at t1 q) (child_at t1 q) e else Some ?t3)"
    by (simp add: move_one_def Let_def)
  show thesis
  proof (cases "K q = Map.empty")
    case True
    have "base_at t1 q = -1" if "p \<noteq> 0" using N(10) [OF that True] .
    then have "move_one base f p rs t1 e q = Some ?t3" using m by auto
    moreover have "child_at ?t3 = (child_at t1)(e := child_at t1 q)"
      using childless [OF T1(2) qn(1,2) True] e1 by (simp add: fun_eq_iff)
    moreover have "check_at ?t3 = (\<lambda>i. if \<exists>c. K q c = Some i then e else check_at t1 i)"
      using True by (simp add: fun_eq_iff)
    ultimately show ?thesis using that [of ?t3] T1 acc by (simp add: fun_eq_iff)
  next
    case False
    have p: "p \<noteq> 0" using N(6) False by auto
    obtain c r where cr: "K q c = Some r" using False by (auto simp: fun_eq_iff)
    have bq: "256 \<le> base_at t1 q" using tree_kid(7) [OF T1(2) cr] kid_nonzero [OF T1(2) k] by simp
    obtain cs where cs: "0 \<notin> set (tl cs)" "set cs = labels K q" "chain t1 (base_at t1 q) (child_at t1 q) cs"
      using treeD(8) [OF T1(2), of q] qn by (auto simp: chain_ok_def)
    have lq: "labels K q = dom (K q)" using kid_nonzero [OF T1(2) k] by (simp add: labels_def)
    have slots: "K q c = Some i \<longleftrightarrow> c \<in> set cs \<and> i = base_at t1 q XOR uint c" for c i
      using tree_slot [OF T1(2), of q c] qn(2) cs(2) lq by (auto simp: slot_of_def)
    have ne: "cs \<noteq> []" using cr slots by auto
    have "base_at t1 q XOR uint c \<noteq> e" if "c \<in> set cs" for c
      using slots [of c "base_at t1 q XOR uint c"] that limbo_no_parent [OF T1(2), of e q c] by auto
    then have "chain ?t4 (base_at t1 q) (child_at t1 q) cs"
      using chain_cong [of cs ?t4 "base_at t1 q" t1 "base_at t1 q"] cs(3) acc(2) by simp
    from adopt_run [OF this ne cs(1)] obtain t5 where t5: "adopt ?t4 (base_at t1 q) (child_at t1 q) e = Some t5"
      "base_at t5 = base_at ?t4" "sibling_at t5 = sibling_at ?t4" "child_at t5 = child_at ?t4" "blocks_same ?t4 t5"
      "check_at t5 = (\<lambda>i. if \<exists>d\<in>set cs. i = base_at t1 q XOR uint d then e else check_at ?t4 i)"
      by blast
    have "move_one base f p rs t1 e q = Some t5" using m t5(1) bq p by simp
    moreover have "check_at t5 = (\<lambda>i. if \<exists>c. K q c = Some i then e else check_at t1 i)"
      unfolding t5(6) acc(4) using slots by (intro ext) (metis (full_types))
    moreover have "blocks_same t1 t5" using blocks_same_trans [OF acc(5) t5(5)] .
    ultimately show ?thesis using that [of t5] T1 t5 acc by simp
  qed
qed

lemma reloc_move:
  assumes R: "reloc t K f base base_o ds (p # rs) P {}" and k: "K f p = Some q" and e: "e = base XOR uint p"
  obtains t1 t5 where "etdb_trie_pop_empty_node t base p f = (t1, e)" "move_one base f p rs t1 e q = Some t5"
    "reloc t5 (ren_kids q e K) f base base_o (ds @ [p]) rs (ren q e ` P) {q}"
    "used t5 = insert e (used t)" "free t5 = free t - {e}" "e \<notin> used t" "e \<noteq> 0"
    "\<And>i. i \<in> insert 0 (used t) \<Longrightarrow> base_at t5 i = base_at t i" "base_at t5 e = base_at t q"
proof -
  note D = relocD [OF R]
  have ef: "e \<in> free t" using D(7) e by simp
  have e': "256 \<le> e" using big_block [OF D(4)] e by simp
  have N: "q \<in> used t" "q \<noteq> f" "f \<in> used t"
    using tree_kid(2,5,12) [OF D(1) k] D(2) by auto
  have fe: "f \<noteq> e" "q \<noteq> e" "e \<notin> used t" using N free_not_used [OF ef] by auto
  obtain t1 where t1: "etdb_trie_pop_empty_node t base p f = (t1, e)" "slot_taken t e p f t1"
    using pop_empty_node_taken [OF treeD(1) [OF D(1)] ef e, of f] D(4) used_pos(1) [OF N(3)] by auto
  note st = t1(2) [unfolded slot_taken_def]
  obtain t5 where m: "move_one base f p rs t1 e q = Some t5" "blocks_same t1 t5"
    "base_at t5 = (base_at t1)(e := base_at t1 q)"
    "check_at t5 = (\<lambda>i. if \<exists>c. K q c = Some i then e else check_at t1 i)"
    "child_at t5 = (child_at t1)(e := child_at t1 q)" "sibling_at t5 = (sibling_at t1)(e := next_of rs)"
    "tree t1 K (spot base base_o ds) {e} {f} P" "used t1 = insert e (used t)"
    by (rule move_one_run [OF R k t1(2) e])
  have same: "base_at t1 i = base_at t i" if "i \<in> insert 0 (used t)" for i
  proof -
    have "i \<notin> free t" using that used_not_free by auto
    then show ?thesis using st by blast
  qed
  have tch: "touched t1 t5"
    unfolding touched_def
  proof (intro conjI allI impI ballI m(2))
    fix i
    assume i: "i \<notin> insert 0 (used t1)"
    have "\<not> (\<exists>c. K q c = Some i)" using i tree_kid(2) [OF m(7)] by blast
    then show "base_at t5 i = base_at t1 i" "check_at t5 i = check_at t1 i" "sibling_at t5 i = sibling_at t1 i"
      "child_at t5 i = child_at t1 i"
      using i m(3-6,8) by auto
  next
    show "0 \<le> check_at t5 i" if "i \<in> used t1" for i using m(4) e' used_pos(3) [OF that] by simp
  qed
  have "(spot base base_o ds)(p := e) = spot base base_o (ds @ [p])"
    by (auto simp: spot_def fun_eq_iff e)
  moreover have "check_at t1 e = f" using st by simp
  ultimately have T5: "tree t5 (ren_kids q e K) (spot base base_o (ds @ [p])) {q} {f} (ren q e ` P)"
    using tree_move [OF m(7) k e' _ D(2) tch m(3-5)] m(6) by simp
  note U = touched_sets [OF tch]
  have u5: "used t5 = insert e (used t)" "free t5 = free t - {e}" using U m(8) st by auto
  have ps: "p \<notin> set ds" "p \<notin> set rs" using D(5) by auto
  have "reloc t5 (ren_kids q e K) f base base_o (ds @ [p]) rs (ren q e ` P) {q}"
    unfolding reloc_def
  proof (intro conjI T5 D(2,4) ballI)
    show "base_at t5 f = base" using m(3) fe same [of f] N(3) D(3) by simp
    show "distinct ((ds @ [p]) @ rs)" using D(5) by simp
    show "child_at t5 f = hd ((ds @ [p]) @ rs)" using m(5) fe st D(6) by simp
    show "base XOR uint c \<in> free t5" if "c \<in> set rs" for c
      using that D(7) [of c] u5(2) ps e by auto
    have "trail t5 base ds p \<longleftrightarrow> trail t base ds p"
      by (rule trail_cong) (use ps e m(6) st in auto)
    then have "trail t5 base ds p" using D(8) by (simp add: next_of_def)
    then show "trail t5 base (ds @ [p]) (next_of rs)" using m(6) e by (simp add: trail_snoc)
    show "set (ds @ [p]) \<subseteq> dom (ren_kids q e K f)" "dom (ren_kids q e K f) \<subseteq> set ((ds @ [p]) @ rs)"
      using D(9,10) k N(2) fe by (auto simp: dom_ren_kids)
  qed
  moreover have "base_at t5 i = base_at t i" if "i \<in> insert 0 (used t)" for i
    using that same m(3) fe(3) e' by auto
  moreover have "base_at t5 e = base_at t q" using m(3) same [of q] N(1) fe by simp
  ultimately show thesis using that t1(1) m(1) u5 fe e' by simp
qed

lemma reloc_return:
  assumes R: "reloc t K f base base_o ds rs P {q}" and q: "256 \<le> q" and fr: "q \<notin> free t" and ne: "ds \<noteq> []"
  defines "t' \<equiv> etdb_trie_push_empty_node t q"
  shows "reloc t' K f base base_o ds rs P {}" "used t' = used t - {q}"
    "\<And>i. i \<in> insert 0 (used t - {q}) \<Longrightarrow> base_at t' i = base_at t i"
proof -
  note D = relocD [OF R]
  have qu: "q \<in> used t" using treeD(2) [OF D(1)] by simp
  have "q div 256 \<noteq> 0" using q by auto
  then have fd: "slot_freed t q t'"
    unfolding t'_def using push_empty_node_freed [OF treeD(1) [OF D(1)] fr] used_pos(1,2) [OF qu] by simp
  note T = tree_return [OF D(1) _ fd]
  show u: "used t' = used t - {q}" using T by simp
  note sf = fd [unfolded slot_freed_def]
  show b: "base_at t' i = base_at t i" if "i \<in> insert 0 (used t - {q})" for i
  proof -
    have "i \<notin> insert q (free t)" using that used_not_free q by auto
    then show ?thesis using sf by blast
  qed
  have f: "f \<noteq> q \<and> f \<in> used t"
  proof -
    obtain d where "d \<in> set ds" using ne by (cases ds) auto
    then show ?thesis using tree_kid(5) [OF D(1) reloc_done [OF R]] D(2) by auto
  qed
  have slots: "base XOR uint d \<noteq> q" if "d \<in> set ds" for d
    using tree_kid(3) [OF D(1) reloc_done [OF R that]] by simp
  show "reloc t' K f base base_o ds rs P {}"
    unfolding reloc_def
  proof (intro conjI D(2,4,5,9,10) ballI)
    show "tree t' K (spot base base_o ds) {} {f} P" using T by simp
    show "base_at t' f = base" using b [of f] f D(3) by simp
    show "child_at t' f = hd (ds @ rs)" using sf f D(6) by simp
    show "base XOR uint c \<in> free t'" if "c \<in> set rs" for c using D(7) [OF that] sf by simp
    have "trail t' base ds x = trail t base ds x" for x
      by (rule trail_cong) (use sf slots in auto)
    then show "trail t' base ds (next_of rs)" using D(8) by simp
  qed
qed

text \<open>One label of \<open>f\<close> that is not the one in conflict.\<close>

lemma relocate_one_move:
  assumes R: "reloc t K f base base_o ds (p # rs) P {}" and k: "K f p = Some q" and ne: "base_o XOR uint p \<noteq> to_pn"
    and e: "e = base XOR uint p" and n: "n \<in> insert 0 (used t)" "flag \<Longrightarrow> n = f"
  obtains t' where "relocate_one flag base base_o f to_pn l p rs t n = Some (t', ren q e n)"
    "reloc t' (ren_kids q e K) f base base_o (ds @ [p]) rs (ren q e ` P) {}"
    "renames t K t' (ren_kids q e K) (ren q e)" "q = base_o XOR uint p" "e \<in> used t'" "e \<notin> used t"
proof -
  note D = relocD [OF R]
  have q: "q = base_o XOR uint p" using reloc_todo [OF R k] D(5) by simp
  obtain t1 t5 where t5: "etdb_trie_pop_empty_node t base p f = (t1, e)" "move_one base f p rs t1 e q = Some t5"
    "reloc t5 (ren_kids q e K) f base base_o (ds @ [p]) rs (ren q e ` P) {q}"
    "used t5 = insert e (used t)" "free t5 = free t - {e}" "e \<notin> used t" "e \<noteq> 0"
    "\<And>i. i \<in> insert 0 (used t) \<Longrightarrow> base_at t5 i = base_at t i" "base_at t5 e = base_at t q"
    by (rule reloc_move [OF R k e]) blast
  have N: "q \<in> used t" "256 \<le> q" "f \<noteq> q" "f \<in> used t"
    using tree_kid(2,5,8,12) [OF D(1) k] D(2) by auto
  have ne': "e \<noteq> q" "n \<noteq> e" using N t5(6,7) n by auto
  have fr: "q \<notin> free t5" using t5(4) N(1) used_not_free by auto
  note Ret = reloc_return [OF t5(3) N(2) fr, simplified]
  let ?t' = "etdb_trie_push_empty_node t5 q"
  have n': "ren q e n = (if \<not> flag \<and> base_o XOR uint p = n then e else n)"
    using n N(3) ne' q by (auto simp: ren_def)
  have "relocate_one flag base base_o f to_pn l p rs t n = Some (?t', ren q e n)"
    using relocate_one_unfold [OF t5(1) refl _ _ n', of to_pn rs t5] t5(2) ne q by simp
  moreover have "renames t K ?t' (ren_kids q e K) (ren q e)"
    unfolding renames_def
  proof (intro conjI allI ballI bij_ren)
    show "ren q e 0 = 0" using N(2) t5(7) by simp
    show "ren_kids q e K (ren q e x) c = map_option (ren q e) (K x c)" for x c by (simp add: ren_kids_def)
    fix i
    assume i: "i \<in> insert 0 (used t)"
    then have ie: "i \<noteq> e" using t5(6,7) by auto
    show "ren q e i \<in> insert 0 (used ?t')" using i ie Ret(2) t5(4) ne' by (cases "i = q") auto
    show "base_at ?t' (ren q e i) = base_at t i"
      using i ie Ret(3) t5(4,8,9) ne' by (cases "i = q") auto
  qed
  moreover have "e \<in> used ?t'" using Ret(2) t5(4) ne' by simp
  ultimately show thesis using that Ret(1) q t5(6) by simp
qed

text \<open>A list of such labels.\<close>

lemma relocate_moves:
  assumes "reloc t K f base base_o ds (ps @ rs) P {}" "\<forall>p\<in>set ps. K f p \<noteq> None \<and> base_o XOR uint p \<noteq> to_pn"
    "n \<in> insert 0 (used t)" "flag \<Longrightarrow> n = f"
  shows "\<exists>t' K' r. relocate flag base base_o f to_pn l (ps @ rs) t n = relocate flag base base_o f to_pn l rs t' (r n) \<and>
    reloc t' K' f base base_o (ds @ ps) rs (r ` P) {} \<and> renames t K t' K' r \<and> r f = f \<and>
    (\<forall>x. (\<forall>p\<in>set ps. x \<noteq> base_o XOR uint p \<and> x \<noteq> base XOR uint p) \<longrightarrow> r x = x)"
  using assms
proof (induction ps arbitrary: t K ds P n)
  case Nil
  then show ?case using renames_refl [of t K] by (intro exI [of _ t] exI [of _ K] exI [of _ "\<lambda>x. x"]) simp
next
  case (Cons p ps)
  have R: "reloc t K f base base_o ds (p # ps @ rs) P {}" using Cons.prems(1) by simp
  note D = relocD [OF R]
  obtain q where k: "K f p = Some q" using Cons.prems(2) by auto
  define e where "e = base XOR uint p"
  have ne: "base_o XOR uint p \<noteq> to_pn" using Cons.prems(2) by simp
  obtain t1 where t1: "relocate_one flag base base_o f to_pn l p (ps @ rs) t n = Some (t1, ren q e n)"
    "reloc t1 (ren_kids q e K) f base base_o (ds @ [p]) (ps @ rs) (ren q e ` P) {}"
    "renames t K t1 (ren_kids q e K) (ren q e)" "q = base_o XOR uint p" "e \<in> used t1" "e \<notin> used t"
    by (rule relocate_one_move [OF R k ne e_def Cons.prems(3,4)])
  have fe: "ren q e f = f"
  proof -
    have "f \<noteq> q" using tree_kid(12) [OF D(1) k] .
    moreover have "f \<noteq> e" using t1(6) tree_kid(5) [OF D(1) k] D(2) by auto
    ultimately show ?thesis by simp
  qed
  have n1: "ren q e n \<in> insert 0 (used t1)" using t1(3) Cons.prems(3) unfolding renames_def by blast
  have k1: "\<forall>p\<in>set ps. ren_kids q e K f p \<noteq> None \<and> base_o XOR uint p \<noteq> to_pn"
    using Cons.prems(2) fe by (simp add: ren_kids_def)
  have f1: "flag \<Longrightarrow> ren q e n = f" using Cons.prems(4) fe by simp
  obtain t' K' r where I: "relocate flag base base_o f to_pn l (ps @ rs) t1 (ren q e n) =
      relocate flag base base_o f to_pn l rs t' (r (ren q e n))"
    "reloc t' K' f base base_o ((ds @ [p]) @ ps) rs (r ` ren q e ` P) {}"
    "renames t1 (ren_kids q e K) t' K' r" "r f = f"
    "\<forall>x. (\<forall>p\<in>set ps. x \<noteq> base_o XOR uint p \<and> x \<noteq> base XOR uint p) \<longrightarrow> r x = x"
    using Cons.IH [OF t1(2) k1 n1 f1] by blast
  have "relocate flag base base_o f to_pn l ((p # ps) @ rs) t n =
      relocate flag base base_o f to_pn l rs t' ((r \<circ> ren q e) n)"
    using t1(1) I(1) by simp
  moreover have "reloc t' K' f base base_o (ds @ p # ps) rs ((r \<circ> ren q e) ` P) {}"
    using I(2) by (simp add: image_comp)
  moreover have "(r \<circ> ren q e) x = x"
    if "\<forall>p\<in>set (p # ps). x \<noteq> base_o XOR uint p \<and> x \<noteq> base XOR uint p" for x
  proof -
    have "x \<noteq> q" "x \<noteq> e" using that t1(4) e_def by auto
    then show ?thesis using that I(5) by simp
  qed
  ultimately show ?case
    using renames_trans [OF t1(3) I(3), unfolded comp_def] fe I(4) by (intro exI [of _ t'] exI [of _ K'] exI [of _ "r \<circ> ren q e"]) simp
qed

section \<open>The new edge\<close>

text \<open>The trie under other slots, with one more edge, from \<open>n\<close> to the new entry \<open>q\<close>.\<close>

definition edged ::
    "trie \<Rightarrow> kids \<Rightarrow> int \<Rightarrow> byte \<Rightarrow> trie \<Rightarrow> kids \<Rightarrow> int \<Rightarrow> int \<Rightarrow> (int \<Rightarrow> int) \<Rightarrow> bool" where
  "edged t K n c t' K' n' q r \<longleftrightarrow> bij r \<and> r 0 = 0 \<and> n' = r n \<and>
     (\<forall>p d. K' (r p) d = (if p = n \<and> d = c then Some q else map_option r (K p d))) \<and> K' q = Map.empty \<and>
     (\<forall>p v. K p 0 = Some v \<longrightarrow> base_at t' (r v) = base_at t v) \<and> (c = 0 \<longrightarrow> base_at t' q = 0)"

text \<open>What adding the edge at \<open>m\<close> leaves alone.\<close>

definition edge_added :: "trie \<Rightarrow> kids \<Rightarrow> int \<Rightarrow> byte \<Rightarrow> int \<Rightarrow> trie \<Rightarrow> bool" where
  "edge_added t K m c q t' \<longleftrightarrow> q \<in> used t' \<and> q \<noteq> m \<and> K q = Map.empty \<and> (\<forall>x d. K x d \<noteq> Some q) \<and>
     base_at t' q = (if c \<noteq> 0 then -1 else 0) \<and>
     (\<forall>i\<in>insert 0 (used t). i \<noteq> q \<longrightarrow> i \<in> insert 0 (used t') \<and> base_at t' i = base_at t i)"

lemma edged_compose:
  assumes r: "renames t K tm Km r" and g: "edge_added tm Km (r n) c q t2"
    and s: "renames t2 (Km(r n := (Km (r n))(c \<mapsto> q))) t' K' s" "s q = q"
    and leaf: "\<And>p d v. K p d = Some v \<Longrightarrow> v \<in> used t"
  shows "edged t K n c t' K' (s (r n)) q (s \<circ> r)"
proof -
  have R: "bij r" "r 0 = 0" "\<And>p c. Km (r p) c = map_option r (K p c)"
      "\<And>i. i \<in> insert 0 (used t) \<Longrightarrow> r i \<in> insert 0 (used tm)"
      "\<And>i. i \<in> insert 0 (used t) \<Longrightarrow> base_at tm (r i) = base_at t i"
    using r unfolding renames_def by blast+
  let ?K = "Km(r n := (Km (r n))(c \<mapsto> q))"
  have S: "bij s" "s 0 = 0" "\<And>p c. K' (s p) c = map_option s (?K p c)"
      "\<And>i. i \<in> insert 0 (used t2) \<Longrightarrow> base_at t' (s i) = base_at t2 i"
    using s(1) unfolding renames_def by blast+
  note G = g [unfolded edge_added_def]
  have inj: "r p = r n \<longleftrightarrow> p = n" for p using R(1) by (simp add: bij_def inj_eq)
  have "K' ((s \<circ> r) p) d = (if p = n \<and> d = c then Some q else map_option (s \<circ> r) (K p d))" for p d
    using S(3) [of "r p" d] R(3) [of p d] s(2) by (auto simp: inj option.map_comp)
  moreover have "K' q = Map.empty"
    using S(3) [of q] s(2) G by (auto simp: fun_eq_iff)
  moreover have "base_at t' ((s \<circ> r) v) = base_at t v" if "K p 0 = Some v" for p v
  proof -
    have v: "v \<in> insert 0 (used t)" using leaf [OF that] by simp
    have "Km (r p) 0 = Some (r v)" using R(3) [of p 0] that by simp
    then have "r v \<noteq> q" using G by metis
    then have "r v \<in> insert 0 (used t2)" "base_at t2 (r v) = base_at tm (r v)" using G R(4) [OF v] by auto
    then show ?thesis using S(4) R(5) [OF v] by simp
  qed
  moreover have "base_at t' q = 0" if "c = 0"
    using S(4) [of q] s(2) G that by simp
  ultimately show ?thesis
    unfolding edged_def using R(2) S(2) bij_comp [OF R(1) S(1)] by simp
qed

text \<open>The label that is new at \<open>f\<close> itself.\<close>

lemma relocate_one_new:
  assumes R: "reloc t K f base base_o ds (p # rs) P {}" and k: "K f p = None" and f: "f \<in> used t"
    and inner: "\<And>x. K x 0 \<noteq> Some f" and e: "e = base XOR uint p"
  obtains t' where "relocate_one True base base_o f (base_o XOR uint p) l p rs t n = Some (t', n)"
    "reloc t' (K(f := (K f)(p \<mapsto> e))) f base base_o (ds @ [p]) rs (if p = 0 then P - {f} else insert e (P - {f})) {}"
    "edge_added t K f p e t'"
proof -
  note D = relocD [OF R]
  have ef: "e \<in> free t" using D(7) e by simp
  have e': "256 \<le> e" using big_block [OF D(4)] e by simp
  have fe: "f \<noteq> e" "e \<notin> used t" using f free_not_used [OF ef] by auto
  obtain t1 where t1: "etdb_trie_pop_empty_node t base p f = (t1, e)" "slot_taken t e p f t1"
    using pop_empty_node_taken [OF treeD(1) [OF D(1)] ef e, of f] D(4) used_pos(1) [OF f] by auto
  note st = t1(2) [unfolded slot_taken_def]
  note T1 = tree_take [OF D(1) ef t1(2)]
  let ?t' = "put_sibling t1 e (next_of rs)" and ?P = "if p = 0 then P - {f} else insert e (P - {f})"
  have same: "base_at t1 i = base_at t i" if "i \<in> insert 0 (used t)" for i
  proof -
    have "i \<notin> free t" using that used_not_free by auto
    then show ?thesis using st by blast
  qed
  have acc: "base_at ?t' = base_at t1" "check_at ?t' = check_at t1" "child_at ?t' = child_at t1"
    "sibling_at ?t' = (sibling_at t1)(e := next_of rs)"
    by (auto simp: fun_eq_iff)
  have eu: "e \<in> used t1" using T1(1) by simp
  have tch: "touched t1 ?t'" using eu used_pos(3) by (auto simp: touched_def)
  note U = touched_sets [OF tch]
  have ps: "p \<notin> set ds" "p \<notin> set rs" using D(5) by auto
  have g: "spot base base_o (ds @ [p]) c = spot base base_o ds c" if "c \<noteq> p" for c
    using that by (simp add: spot_def)
  have Tg: "tree t1 K (spot base base_o (ds @ [p])) {e} {f} P"
    using T1(2)
  proof (rule tree_g_cong)
    show "spot base base_o (ds @ [p]) c = spot base base_o ds c" if "x \<in> {f}" "K x c \<noteq> None" for x c
      using that k by (intro g) auto
  qed
  have "tree ?t' (K(f := (K f)(p \<mapsto> e))) (spot base base_o (ds @ [p])) ({e} - {e}) {f} ?P"
  proof (rule tree_graft [OF Tg _ _ k _ inner tch])
    show "256 \<le> base_at ?t' f \<and> 256 \<le> e" using e' D(3,4) same [of f] f by simp
    show "e = place ?t' {f} (spot base base_o (ds @ [p])) f p" using e by (simp add: place_def spot_def)
    show "base_at ?t' e = -1" if "p \<noteq> 0" using st that by simp
    show "check_at ?t' e = f" using st by simp
    show "child_at ?t' e = 0" using st free_kids_zero [OF treeD(1) [OF D(1)] ef] by simp
  qed (use f fe D(2) T1(1) acc e' in auto)
  then have T': "tree ?t' (K(f := (K f)(p \<mapsto> e))) (spot base base_o (ds @ [p])) {} {f} ?P" by simp
  have "reloc ?t' (K(f := (K f)(p \<mapsto> e))) f base base_o (ds @ [p]) rs ?P {}"
    unfolding reloc_def
  proof (intro conjI T' D(2,4) ballI)
    show "base_at ?t' f = base" using same [of f] f D(3) by simp
    show "distinct ((ds @ [p]) @ rs)" using D(5) by simp
    show "child_at ?t' f = hd ((ds @ [p]) @ rs)" using st D(6) by simp
    show "base XOR uint c \<in> free ?t'" if "c \<in> set rs" for c
      using that D(7) [of c] U(1) st ps e by auto
    have "trail ?t' base ds p \<longleftrightarrow> trail t base ds p"
      by (rule trail_cong) (use ps e st in auto)
    then have "trail ?t' base ds p" using D(8) by (simp add: next_of_def)
    then show "trail ?t' base (ds @ [p]) (next_of rs)" using e by (simp add: trail_snoc)
    show "set (ds @ [p]) \<subseteq> dom ((K(f := (K f)(p \<mapsto> e))) f)" "dom ((K(f := (K f)(p \<mapsto> e))) f) \<subseteq> set ((ds @ [p]) @ rs)"
      using D(9,10) by auto
  qed
  moreover have "edge_added t K f p e ?t'"
    unfolding edge_added_def
  proof (intro conjI allI)
    show "K e = Map.empty" using limbo_no_kids [OF T1(2)] by simp
    show "K x d \<noteq> Some e" for x d using limbo_no_parent [OF T1(2)] by simp
  qed (use same st fe U T1(1) in auto)
  moreover have "relocate_one True base base_o f (base_o XOR uint p) l p rs t n = Some (?t', n)"
    by (simp add: relocate_one_def t1(1) next_of_def)
  ultimately show thesis using that by blast
qed

end
