(* ===== verification/Trie_Resolve.thy ===== *)
theory Trie_Resolve
  imports Trie_Relocate
begin

text \<open>
  \<open>etdb_trie_resolve\<close>: two nodes claim one slot, the children of one of them move. The loops over
  the chains end, and the result is the same trie under other slots with the new edge.
\<close>

section \<open>The label in conflict\<close>

lemma relocate_one_conflict:
  assumes R: "reloc t K f base base_o ds (p # rs) P {}" and k: "K f p = Some q"
    and n: "n \<in> used t" "n \<noteq> f" and inner: "\<And>x. K x 0 \<noteq> Some n" and kids: "K n \<noteq> Map.empty" and new: "K n l = None"
    and b: "256 \<le> base_at t n" "q = base_at t n XOR uint l" and e: "e = base XOR uint p"
  obtains t' tm where "relocate_one False base base_o f q l p rs t n = Some (t', ren q e n)"
    "renames t K tm (ren_kids q e K) (ren q e)" "edge_added tm (ren_kids q e K) (ren q e n) l q t'"
    "reloc t' ((ren_kids q e K)(ren q e n := (ren_kids q e K (ren q e n))(l \<mapsto> q))) f base base_o (ds @ [p]) rs
       (if l = 0 then ren q e ` P - {ren q e n} else insert q (ren q e ` P - {ren q e n})) {}"
    "ren q e f = f"
proof -
  note D = relocD [OF R]
  have q: "q = base_o XOR uint p" using reloc_todo [OF R k] D(5) by simp
  obtain t1 t5 where t5: "etdb_trie_pop_empty_node t base p f = (t1, e)" "move_one base f p rs t1 e q = Some t5"
    "reloc t5 (ren_kids q e K) f base base_o (ds @ [p]) rs (ren q e ` P) {q}"
    "used t5 = insert e (used t)" "free t5 = free t - {e}" "e \<notin> used t" "e \<noteq> 0"
    "\<And>i. i \<in> insert 0 (used t) \<Longrightarrow> base_at t5 i = base_at t i" "base_at t5 e = base_at t q"
    by (rule reloc_move [OF R k e]) blast
  note D5 = relocD [OF t5(3)]
  let ?K = "ren_kids q e K" and ?n = "ren q e n"
  have N: "q \<in> used t" "256 \<le> q" "f \<noteq> q" "f \<in> used t" "q \<noteq> 0"
    using tree_kid(2,5,8,12) [OF D(1) k] D(2) kid_nonzero [OF D(1) k] by auto
  have ne: "e \<noteq> q" "n \<noteq> e" "f \<noteq> e" "n \<noteq> 0" using N t5(6,7) n used_pos(1) [OF n(1)] by auto
  have n5: "?n \<in> used t5 - {q}" "?n \<noteq> f" "?n \<noteq> 0" "?n \<noteq> q"
    using n ne N t5(4,7) by (auto simp: ren_def)
  have bn: "base_at t5 ?n = base_at t n" using n(1) ne t5(8,9) by (cases "n = q") auto
  let ?ta = "etdb_trie_push_sibling t5 ?n (base_at t n) l True"
  define t' where "t' = put_check (put_base (put_child ?ta q 0) q (if l \<noteq> 0 then -1 else 0)) q ?n"
  have n': "ren q e n = (if \<not> False \<and> base_o XOR uint p = n then e else n)"
    using ne q by (auto simp: ren_def)
  have un: "q XOR uint l = base_at t n" using b(2) by simp
  have code: "relocate_one False base base_o f q l p rs t n = Some (t', ?n)"
    using relocate_one_unfold [OF t5(1) refl _ _ n', of q rs t5 l] t5(2) un
    unfolding q [symmetric] t'_def by simp
  have ren: "renames t K t5 ?K (ren q e)"
    unfolding renames_def
  proof (intro conjI allI ballI bij_ren)
    show "ren q e 0 = 0" using N t5(7) by simp
    show "?K (ren q e x) c = map_option (ren q e) (K x c)" for x c by (simp add: ren_kids_def)
    show "ren q e i \<in> insert 0 (used t5)" "base_at t5 (ren q e i) = base_at t i" if i: "i \<in> insert 0 (used t)" for i
    proof -
      have "i \<noteq> e" using i t5(6,7) by auto
      then show "ren q e i \<in> insert 0 (used t5)" "base_at t5 (ren q e i) = base_at t i"
        using i t5(4,8,9) by (cases "i = q"; auto)+
    qed
  qed
  have acc: "base_at t' = (base_at t5)(?n := base_at t n, q := if l \<noteq> 0 then -1 else 0)"
    "check_at t' = (check_at t5)(q := ?n)" "child_at t' = (child_at ?ta)(q := 0)" "sibling_at t' = sibling_at ?ta"
    using bn n5 push_sibling_acc(3,4) [of t5 ?n "base_at t n" l True] by (auto simp: t'_def fun_eq_iff)
  have ll: "label_linked t5 ?n l q t'"
    by (rule push_sibling_linked [OF refl refl b(2) _ _ n5(4) acc(3,4)]) (use bn b(1) in auto)
  have bs: "blocks_same t5 t'" by (simp add: t'_def push_sibling_acc(5))
  have lab: "labels ?K ?n = labels K n"
    using ne(4) n5(3) by (simp add: labels_def dom_ren_kids)
  note link = tree_link [OF D5(1), of q ?n l t' "base_at t n" "if l \<noteq> 0 then -1 else 0"]
  have tl: "touched t5 t'" "tree t' (?K(?n := (?K ?n)(l \<mapsto> q))) (spot base base_o (ds @ [p])) ({q} - {q}) {f}
      (if l = 0 then ren q e ` P - {?n} else insert q (ren q e ` P - {?n}))"
    "child_at t5 ?n = 0 \<Longrightarrow> 0 \<le> base_at t5 ?n \<Longrightarrow> ?K ?n 0 = Some (slot_of t5 ?n 0) \<or> ?n = 0 \<and> slot_of t5 ?n 0 = 0"
  proof -
    have a: "q \<in> {q}" "?n \<in> insert 0 (used t5 - {q})" "?n \<notin> {f}" "?K ?n l = None" "\<not> (?n = 0 \<and> l = 0)"
      using n5 new by (auto simp: ren_kids_def)
    have i: "?K x 0 \<noteq> Some ?n" for x using inner by (simp add: ren_kids_Some)
    have l0: "base_at t5 ?n < 0 \<Longrightarrow> ?K ?n = Map.empty \<and> ?n \<noteq> 0" "0 \<le> base_at t5 ?n \<Longrightarrow> labels ?K ?n \<noteq> {}"
      using bn b(1) kids lab by (auto simp: labels_def)
    have bb: "0 \<le> base_at t5 ?n \<Longrightarrow> base_at t n = base_at t5 ?n" "?n \<noteq> 0 \<Longrightarrow> 256 \<le> base_at t n"
      "l \<noteq> 0 \<Longrightarrow> (if l \<noteq> 0 then -1 else 0) = (-1 :: int)"
      using bn b(1) by auto
    show "touched t5 t'" by (rule link [OF a i l0 ll bs acc(1,2) bb(1) b(2) bb(2,3)])
    show "tree t' (?K(?n := (?K ?n)(l \<mapsto> q))) (spot base base_o (ds @ [p])) ({q} - {q}) {f}
      (if l = 0 then ren q e ` P - {?n} else insert q (ren q e ` P - {?n}))"
      by (rule link [OF a i l0 ll bs acc(1,2) bb(1) b(2) bb(2,3)])
    show "?K ?n 0 = Some (slot_of t5 ?n 0) \<or> ?n = 0 \<and> slot_of t5 ?n 0 = 0"
      if "child_at t5 ?n = 0" "0 \<le> base_at t5 ?n"
      by (rule link(3) [OF a i l0 ll bs acc(1,2) bb(1) b(2) bb(2,3) that])
  qed
  note U = touched_sets [OF tl(1)]
  have sib: "sibling_at t' (base XOR uint d) = sibling_at t5 (base XOR uint d)" if "d \<in> set (ds @ [p])" for d
  proof -
    note kd = reloc_done [OF t5(3) that]
    have "base XOR uint d \<noteq> q" using tree_kid(3) [OF D5(1) kd] by simp
    moreover have "base XOR uint d \<noteq> slot_of t5 ?n 0" if "child_at t5 ?n = 0" "0 \<le> base_at t5 ?n"
      using tl(3) [OF that] tree_parent [OF D5(1) kd] n5(2,3) by metis
    ultimately show ?thesis using ll by (auto simp: label_linked_def split: if_splits)
  qed
  have "reloc t' (?K(?n := (?K ?n)(l \<mapsto> q))) f base base_o (ds @ [p]) rs
      (if l = 0 then ren q e ` P - {?n} else insert q (ren q e ` P - {?n})) {}"
    unfolding reloc_def
  proof (intro conjI D5(2,4,5) ballI)
    show "tree t' (?K(?n := (?K ?n)(l \<mapsto> q))) (spot base base_o (ds @ [p])) {} {f}
      (if l = 0 then ren q e ` P - {?n} else insert q (ren q e ` P - {?n}))" using tl(2) by simp
    show "base_at t' f = base" using acc(1) n5(2) N(3) D5(3) by simp
    show "child_at t' f = hd ((ds @ [p]) @ rs)"
      using ll n5(2) N(3) D5(6) by (auto simp: label_linked_def split: if_splits)
    show "base XOR uint c \<in> free t'" if "c \<in> set rs" for c using D5(7) [OF that] U by simp
    show "trail t' base (ds @ [p]) (next_of rs)"
      using D5(8) trail_cong [of "ds @ [p]" t' base t5, OF sib] by simp
    show "set (ds @ [p]) \<subseteq> dom ((?K(?n := (?K ?n)(l \<mapsto> q))) f)" "dom ((?K(?n := (?K ?n)(l \<mapsto> q))) f) \<subseteq> set ((ds @ [p]) @ rs)"
      using D5(9,10) n5(2) by auto
  qed
  moreover have "edge_added t5 ?K ?n l q t'"
    unfolding edge_added_def
  proof (intro conjI allI ballI impI)
    show "q \<in> used t'" using U t5(4) N(1) by simp
    show "q \<noteq> ?n" using n5(4) by simp
    show "?K q = Map.empty" using limbo_no_kids [OF D5(1)] by simp
    show "?K x d \<noteq> Some q" for x d using limbo_no_parent [OF D5(1)] by simp
    show "base_at t' q = (if l \<noteq> 0 then -1 else 0)" using acc(1) by simp
    show "i \<in> insert 0 (used t')" "base_at t' i = base_at t5 i" if "i \<in> insert 0 (used t5)" "i \<noteq> q" for i
      using that U acc(1) bn by auto
  qed
  moreover have "ren q e f = f" using N(3) ne(3) by simp
  ultimately show thesis using that code ren by blast
qed

section \<open>The whole loop\<close>

text \<open>When the last label is done, the chain of \<open>f\<close> is complete again.\<close>

lemma reloc_finish:
  assumes R: "reloc t K f base base_o cs [] P {}" and cs: "cs \<noteq> []" "0 \<notin> set (tl cs)"
  shows "tree_inv t K P"
proof -
  note D = relocD [OF R]
  note T = treeD [OF D(1)]
  have dom: "dom (K f) = set cs" using D(9,10) by auto
  have lab: "labels K f = set cs" using D(2) dom by (simp add: labels_def)
  obtain c ds where c: "cs = c # ds" using cs(1) by (cases cs) auto
  have tr: "trail t base (c # ds) 0" using D(8) c by (simp add: next_of_def)
  have f: "chain_ok t K f"
    unfolding chain_ok_def
    using trail_chain [OF tr] D(3,5,6) cs(2) lab c by (intro exI [of _ cs]) simp
  obtain d :: "int \<Rightarrow> nat" where d: "\<And>p c q. K p c = Some q \<Longrightarrow> d p < d q" using T(9) by blast
  show ?thesis
    unfolding tree_inv_def
  proof (rule treeI [where d = d])
    fix p x q
    assume k: "K p x = Some q"
    have "q = place t {} (\<lambda>_. 0) p x"
    proof (cases "p = f")
      case True
      then have "x \<in> set cs" using k dom by auto
      then show ?thesis using reloc_done [OF R] k True D(3) by (simp add: place_def slot_of_def)
    next
      case False
      then show ?thesis using tree_kid(1) [OF D(1) k] by (simp add: place_def)
    qed
    then show "q = place t {} (\<lambda>_. 0) p x \<and> q \<in> used t - {} \<and> check_at t q = p \<and>
       p \<in> insert 0 (used t - {}) \<and> (x = 0 \<longrightarrow> K q = Map.empty) \<and>
       (p \<noteq> 0 \<longrightarrow> 256 \<le> base_at t p \<and> 256 \<le> q) \<and> (x \<noteq> 0 \<and> K q = Map.empty \<longrightarrow> q \<in> P \<and> base_at t q = -1)"
      using tree_kid(2-10) [OF D(1) k] by blast
  next
    fix p
    assume "p \<in> insert 0 (used t - {})"
    then show "chain_ok t K p" using T(8) [of p] f by (cases "p = f") auto
  qed (use T(1-8) d tree_kid(11) [OF D(1)] in auto)
qed

lemma fixed_slot:
  assumes "reloc t K f base base_o ds rs P {}" "q \<in> used t" "p \<in> set rs"
  shows "q \<noteq> base XOR uint p"
  using relocD(7) [OF assms(1,3)] free_not_used assms(2) by blast

lemma pending_image:
  assumes "bij r" "r q = q"
  shows "r ` (if c = 0 then A - {n} else insert q (A - {n})) = (if c = 0 then r ` A - {r n} else insert q (r ` A - {r n}))"
  using assms by (auto simp: bij_def inj_eq image_set_diff [OF bij_is_inj])

text \<open>The children of the node that gets the new label move.\<close>

lemma relocate_own:
  assumes R: "reloc t K f base base_o [] (as @ l # bs) P {}" and new: "K f l = None" and dom: "dom (K f) = set as \<union> set bs"
    and f: "f \<in> used t" and inner: "\<And>x. K x 0 \<noteq> Some f" and zero: "0 \<notin> set (tl (as @ l # bs))"
  shows "\<exists>t' K' r. relocate True base base_o f (base_o XOR uint l) l (as @ l # bs) t f = Some (t', f) \<and>
    edged t K f l t' K' f (base XOR uint l) r \<and>
    tree_inv t' K' (if l = 0 then r ` P - {f} else insert (base XOR uint l) (r ` P - {f}))"
proof -
  let ?q = "base XOR uint l" and ?o = "base_o XOR uint l"
  note D0 = relocD [OF R]
  have dist: "distinct (as @ l # bs)" using D0(5) by simp
  have as: "\<forall>p\<in>set as. K f p \<noteq> None \<and> base_o XOR uint p \<noteq> ?o" using dist dom by auto
  have leaf: "v \<in> used t" if "K p d = Some v" for p d v using tree_kid(2) [OF D0(1) that] .
  obtain t1 K1 r where I: "relocate True base base_o f ?o l (as @ l # bs) t f = relocate True base base_o f ?o l (l # bs) t1 (r f)"
    "reloc t1 K1 f base base_o ([] @ as) (l # bs) (r ` P) {}" "renames t K t1 K1 r" "r f = f"
    using relocate_moves [OF R as, of f True l] f by auto
  note rn = I(3) [unfolded renames_def]
  have inj: "inj r" using rn bij_is_inj by blast
  have K1: "K1 (r p) c = map_option r (K p c)" for p c using rn by blast
  have new1: "K1 f l = None" using K1 [of f l] new I(4) by simp
  have dom1: "dom (K1 f) = dom (K f)" using K1 [of f] I(4) by (auto simp: dom_def)
  have in1: "K1 x 0 \<noteq> Some f" for x
  proof
    assume a: "K1 x 0 = Some f"
    obtain y where y: "x = r y" using rn bij_pointE by metis
    then have "map_option r (K y 0) = Some (r f)" using a K1 [of y 0] I(4) by simp
    then show False using inner [of y] inj by (auto simp: inj_eq)
  qed
  have f1: "f \<in> used t1" using rn f I(4) D0(2) by force
  obtain t2 where S: "relocate_one True base base_o f ?o l l bs t1 f = Some (t2, f)"
    "reloc t2 (K1(f := (K1 f)(l \<mapsto> ?q))) f base base_o (([] @ as) @ [l]) bs (if l = 0 then r ` P - {f} else insert ?q (r ` P - {f})) {}"
    "edge_added t1 K1 f l ?q t2"
    by (rule relocate_one_new [OF I(2) new1 f1 in1 refl])
  let ?K2 = "K1(f := (K1 f)(l \<mapsto> ?q))"
  have "\<forall>p\<in>set bs. ?K2 f p \<noteq> None \<and> base_o XOR uint p \<noteq> ?o" using dist dom dom1 by auto
  moreover have "reloc t2 ?K2 f base base_o (as @ [l]) (bs @ []) (if l = 0 then r ` P - {f} else insert ?q (r ` P - {f})) {}"
    using S(2) by simp
  moreover have "f \<in> insert 0 (used t2)" using tree_kid(5) [OF relocD(1) [OF S(2)], of f l] by simp
  ultimately obtain t3 K3 s where J: "relocate True base base_o f ?o l (bs @ []) t2 f = relocate True base base_o f ?o l [] t3 (s f)"
    "reloc t3 K3 f base base_o ((as @ [l]) @ bs) [] (s ` (if l = 0 then r ` P - {f} else insert ?q (r ` P - {f}))) {}"
    "renames t2 ?K2 t3 K3 s" "s f = f" "\<forall>x. (\<forall>p\<in>set bs. x \<noteq> base_o XOR uint p \<and> x \<noteq> base XOR uint p) \<longrightarrow> s x = x"
    using relocate_moves [of t2 ?K2 f base base_o "as @ [l]" bs "[]" _ ?o f True l] by metis
  have q2: "?q \<in> used t2" using S(3) by (simp add: edge_added_def)
  have "?q \<noteq> base_o XOR uint p \<and> ?q \<noteq> base XOR uint p" if "p \<in> set bs" for p
  proof
    have kp: "?K2 f p = Some (base_o XOR uint p)"
      using that dom dom1 dist reloc_todo [OF S(2), of p] by (cases "K1 f p") auto
    have "?K2 f l = Some ?q" by simp
    then show "?q \<noteq> base_o XOR uint p"
      using tree_kid(11) [OF relocD(1) [OF S(2)] kp, of l] dist that by auto
    show "?q \<noteq> base XOR uint p" using dist that by auto
  qed
  then have sq: "s ?q = ?q" using J(5) by blast
  have ed: "edged t K f l t3 K3 (s (r f)) ?q (s \<circ> r)"
    by (rule edged_compose [OF I(3), of f l ?q t2]) (use S(3) J(3) I(4) sq leaf in simp_all)
  have "bij s" using J(3) by (simp add: renames_def)
  then have im: "s ` (if l = 0 then r ` P - {f} else insert ?q (r ` P - {f})) =
      (if l = 0 then (s \<circ> r) ` P - {f} else insert ?q ((s \<circ> r) ` P - {f}))"
    using pending_image [of s ?q l "r ` P" f] sq J(4) by (simp add: image_comp)
  have "tree_inv t3 K3 (if l = 0 then (s \<circ> r) ` P - {f} else insert ?q ((s \<circ> r) ` P - {f}))"
    using reloc_finish [OF J(2)] zero unfolding im by simp
  moreover have "relocate True base base_o f ?o l (as @ l # bs) t f = Some (t3, f)"
    using I(1,4) S(1) J(1,4) by simp
  moreover have "edged t K f l t3 K3 f ?q (s \<circ> r)" using ed I(4) J(4) by simp
  ultimately show ?thesis by blast
qed

text \<open>The children of the other node move, the one in the contested slot among them.\<close>

lemma relocate_other:
  assumes R: "reloc t K f base base_o [] (as @ p # bs) P {}" and dom: "dom (K f) = set (as @ p # bs)"
    and q: "q = base_o XOR uint p" and n: "n \<in> used t" "n \<noteq> f" and inner: "\<And>x. K x 0 \<noteq> Some n"
    and kids: "K n \<noteq> Map.empty" and new: "K n l = None" and b: "256 \<le> base_at t n" "q = base_at t n XOR uint l"
    and zero: "0 \<notin> set (tl (as @ p # bs))"
  shows "\<exists>t' n' K' r. relocate False base base_o f q l (as @ p # bs) t n = Some (t', n') \<and>
    edged t K n l t' K' n' q r \<and> tree_inv t' K' (if l = 0 then r ` P - {n'} else insert q (r ` P - {n'}))"
proof -
  note D0 = relocD [OF R]
  have dist: "distinct (as @ p # bs)" using D0(5) by simp
  have as: "\<forall>x\<in>set as. K f x \<noteq> None \<and> base_o XOR uint x \<noteq> q" using dist dom q by auto
  have leaf: "v \<in> used t" if "K x d = Some v" for x d v using tree_kid(2) [OF D0(1) that] .
  obtain t1 K1 r where I: "relocate False base base_o f q l (as @ p # bs) t n = relocate False base base_o f q l (p # bs) t1 (r n)"
    "reloc t1 K1 f base base_o ([] @ as) (p # bs) (r ` P) {}" "renames t K t1 K1 r" "r f = f"
    using relocate_moves [OF R as, of n False l] n by auto
  note rn = I(3) [unfolded renames_def]
  have inj: "inj r" using rn bij_is_inj by blast
  have K1: "K1 (r y) c = map_option r (K y c)" for y c using rn by blast
  have dom1: "dom (K1 f) = dom (K f)" using K1 [of f] I(4) by (auto simp: dom_def)
  define n1 where "n1 = r n"
  have n0: "n \<noteq> 0" using used_pos(1) [OF n(1)] by simp
  have n1: "n1 \<in> used t1" "n1 \<noteq> f" "base_at t1 n1 = base_at t n"
  proof -
    have "n1 \<noteq> 0" using rn n0 inj unfolding n1_def by (metis injD)
    moreover have "n1 \<in> insert 0 (used t1) \<and> base_at t1 n1 = base_at t n" using rn n(1) unfolding n1_def by blast
    ultimately show "n1 \<in> used t1" "base_at t1 n1 = base_at t n" by auto
    show "n1 \<noteq> f" using I(4) n(2) inj unfolding n1_def by (metis injD)
  qed
  have in1: "K1 x 0 \<noteq> Some n1" for x
  proof
    assume a: "K1 x 0 = Some n1"
    obtain y where y: "x = r y" using rn bij_pointE by metis
    then have "map_option r (K y 0) = Some (r n)" using a K1 [of y 0] n1_def by simp
    then show False using inner [of y] inj by (auto simp: inj_eq)
  qed
  obtain c0 v0 where "K n c0 = Some v0" using kids by (auto simp: fun_eq_iff)
  then have kids1: "K1 n1 \<noteq> Map.empty" using K1 [of n c0] unfolding n1_def by (auto simp: fun_eq_iff)
  have new1: "K1 n1 l = None" using K1 [of n l] new unfolding n1_def by simp
  obtain q' where kq': "K1 f p = Some q'" using dom dom1 by auto
  have "q' = q" using reloc_todo [OF I(2) kq'] dist q by simp
  then have kq: "K1 f p = Some q" using kq' by simp
  have b1: "256 \<le> base_at t1 n1" "q = base_at t1 n1 XOR uint l" using b n1(3) by simp_all
  define e where "e = base XOR uint p"
  obtain t2 tm where S: "relocate_one False base base_o f q l p bs t1 n1 = Some (t2, ren q e n1)"
    "renames t1 K1 tm (ren_kids q e K1) (ren q e)" "edge_added tm (ren_kids q e K1) (ren q e n1) l q t2"
    "reloc t2 ((ren_kids q e K1)(ren q e n1 := (ren_kids q e K1 (ren q e n1))(l \<mapsto> q))) f base base_o (([] @ as) @ [p]) bs
       (if l = 0 then ren q e ` r ` P - {ren q e n1} else insert q (ren q e ` r ` P - {ren q e n1})) {}"
    "ren q e f = f"
    by (rule relocate_one_conflict [OF I(2) kq n1(1,2) in1 kids1 new1 b1 e_def])
  define n2 where "n2 = ren q e n1"
  let ?Km = "ren_kids q e K1"
  let ?K2 = "?Km(n2 := (?Km n2)(l \<mapsto> q))"
  let ?P2 = "if l = 0 then ren q e ` r ` P - {n2} else insert q (ren q e ` r ` P - {n2})"
  have R2: "reloc t2 ?K2 f base base_o (as @ [p]) (bs @ []) ?P2 {}"
    using S(4) unfolding n2_def append_Nil append_Nil2 .
  have n2f: "n2 \<noteq> f" using n1(2) S(5) unfolding n2_def by (metis ren_ren)
  have "dom (?K2 f) = dom (K f)" using n2f S(5) dom1 by (simp add: dom_ren_kids)
  then have "\<forall>x\<in>set bs. ?K2 f x \<noteq> None \<and> base_o XOR uint x \<noteq> q" using dom dist q by auto
  moreover have n2u: "n2 \<in> insert 0 (used t2)"
  proof -
    have "n2 \<in> insert 0 (used tm)" using S(2) n1(1) unfolding renames_def n2_def by blast
    then show ?thesis using S(3) unfolding edge_added_def n2_def [symmetric] by (cases "n2 = q") blast+
  qed
  ultimately obtain t3 K3 s where J: "relocate False base base_o f q l (bs @ []) t2 n2 = relocate False base base_o f q l [] t3 (s n2)"
    "reloc t3 K3 f base base_o ((as @ [p]) @ bs) [] (s ` ?P2) {}"
    "renames t2 ?K2 t3 K3 s" "\<forall>x. (\<forall>p\<in>set bs. x \<noteq> base_o XOR uint p \<and> x \<noteq> base XOR uint p) \<longrightarrow> s x = x"
    using relocate_moves [OF R2, of q n2 False l] by blast
  have "q \<in> used t2" using S(3) by (simp add: edge_added_def)
  then have "q \<noteq> base_o XOR uint x \<and> q \<noteq> base XOR uint x" if "x \<in> set bs" for x
    using fixed_slot [OF S(4)] that dist q by auto
  then have sq: "s q = q" using J(4) by blast
  have ed: "edged t K n l t3 K3 (s ((ren q e \<circ> r) n)) q (s \<circ> (ren q e \<circ> r))"
    by (rule edged_compose [OF renames_trans [OF I(3) S(2)], of n l q t2])
      (use S(3) J(3) sq leaf in \<open>simp_all add: n1_def n2_def\<close>)
  have "bij s" using J(3) by (simp add: renames_def)
  then have im: "s ` ?P2 = (if l = 0 then (s \<circ> (ren q e \<circ> r)) ` P - {s n2} else insert q ((s \<circ> (ren q e \<circ> r)) ` P - {s n2}))"
    using pending_image [of s q l "ren q e ` r ` P" n2] sq by (simp add: image_comp comp_assoc)
  have "tree_inv t3 K3 (s ` ?P2)"
    using reloc_finish [OF J(2)] zero by simp
  moreover have "relocate False base base_o f q l (as @ p # bs) t n = Some (t3, s n2)"
    using I(1) S(1) J(1) by (simp add: n1_def n2_def)
  moreover have "s ((ren q e \<circ> r) n) = s n2" by (simp add: n1_def n2_def)
  ultimately show ?thesis using ed unfolding im by metis
qed

section \<open>Reading the chains\<close>

lemma consult_ends:
  assumes "chain t bn x cs" "chain t bp y ds" "cs \<noteq> []" "ds \<noteq> []" "0 \<notin> set (tl cs)" "0 \<notin> set (tl ds)"
  shows "\<exists>c. etdb_trie_consult t bn bp x y = Some c"
  using assms
proof (induction cs arbitrary: x y ds)
  case (Cons c cs)
  obtain d ds' where d: "ds = d # ds'" using Cons.prems(4) by (cases ds) auto
  have xy: "x = c" "y = d" "chain t bn (sibling_at t (bn XOR uint c)) cs" "chain t bp (sibling_at t (bp XOR uint d)) ds'"
    using Cons.prems(1,2) d by simp_all
  show ?case
  proof (cases "sibling_at t (bn XOR uint c) \<noteq> 0 \<and> sibling_at t (bp XOR uint d) \<noteq> 0")
    case True
    then have ne: "cs \<noteq> []" "ds' \<noteq> []" using xy(3,4) by auto
    moreover have "0 \<notin> set (tl cs)" "0 \<notin> set (tl ds')"
      using Cons.prems(5,6) d by (cases cs; cases ds'; simp)+
    ultimately show ?thesis
      using Cons.IH [OF xy(3,4)] True xy(1,2) by (subst etdb_trie_consult.simps) (simp add: Let_def)
  next
    case False
    then show ?thesis using xy(1,2) by (subst etdb_trie_consult.simps) (auto simp: Let_def)
  qed
qed simp

lemma sibling_list_run: "chain t b x cs \<Longrightarrow> 0 \<notin> set cs \<Longrightarrow> sibling_list t b x = Some cs"
proof (induction cs arbitrary: x)
  case Nil
  then show ?case by (subst sibling_list.simps) simp
next
  case (Cons c cs)
  then show ?case by (subst sibling_list.simps) auto
qed

text \<open>A new label comes first, or behind label 0.\<close>

definition with_label :: "byte option \<Rightarrow> bytes \<Rightarrow> bytes" where
  "with_label l cs = (case l of None \<Rightarrow> cs | Some c \<Rightarrow>
     (case cs of d # ds \<Rightarrow> if d = 0 then d # c # ds else c # cs | [] \<Rightarrow> [c]))"

lemma set_child_run:
  assumes "chain t b x cs" "cs \<noteq> []" "0 \<notin> set (tl cs)"
  shows "etdb_trie_set_child t b x l = Some (with_label l cs)"
proof -
  obtain c ds where c: "cs = c # ds" using assms(2) by (cases cs) auto
  have x: "x = c" "chain t b (sibling_at t (b XOR uint c)) ds" "0 \<notin> set ds" using assms c by simp_all
  show ?thesis
  proof (cases "c = 0")
    case True
    have "sibling_list t b (sibling_at t (b XOR uint c)) = Some ds" by (rule sibling_list_run [OF x(2,3)])
    then show ?thesis
      using True x(1) c by (simp add: etdb_trie_set_child_def with_label_def Let_def split: option.split)
  next
    case False
    have "sibling_list t b x = Some (c # ds)"
      using sibling_list_run [of t b x "c # ds"] assms(1) c x(3) False by auto
    then show ?thesis
      using False x(1) c by (simp add: etdb_trie_set_child_def with_label_def Let_def split: option.split)
  qed
qed

lemma with_label_Some:
  assumes "distinct cs" "0 \<notin> set (tl cs)" "l \<notin> set cs" "cs \<noteq> []"
  obtains as bs where "with_label (Some l) cs = as @ l # bs" "set as \<union> set bs = set cs" "distinct (as @ l # bs)"
    "0 \<notin> set (tl (as @ l # bs))" "as = [] \<or> hd as = hd cs" "as = [] \<longrightarrow> hd cs \<noteq> 0"
proof (cases cs)
  case (Cons d ds)
  show thesis
  proof (cases "d = 0")
    case True
    then show thesis using that [of "[d]" ds] Cons assms by (auto simp: with_label_def)
  next
    case False
    then show thesis using that [of "[]" cs] Cons assms by (auto simp: with_label_def)
  qed
qed (use assms(4) in simp)

section \<open>Before the loop\<close>

text \<open>The children of \<open>f\<close> stay where they are while its base changes.\<close>

lemma tree_open:
  assumes T: "tree t K (\<lambda>_. 0) {} {} P" and f: "f \<in> used t" and kids: "K f \<noteq> Map.empty" and sp: "space_inv t'"
    and u: "used t' = used t" and b: "base_at t' = (base_at t)(f := b)" "256 \<le> b" and ck: "check_at t' = check_at t"
    and sib: "sibling_at t' = sibling_at t" and ch: "\<And>i. i \<noteq> f \<Longrightarrow> child_at t' i = child_at t i"
  shows "tree t' K (slot_of t f) {} {f} P"
proof -
  note D = treeD [OF T]
  have f0: "f \<noteq> 0" using used_pos(1) [OF f] by simp
  obtain d :: "int \<Rightarrow> nat" where d: "\<And>p c q. K p c = Some q \<Longrightarrow> d p < d q" using D(9) by blast
  show ?thesis
  proof (rule treeI [where d = d])
    fix p x q
    assume k: "K p x = Some q"
    note N = tree_kid [OF T k]
    have "q = place t' {f} (slot_of t f) p x"
      using N(1) b(1) by (auto simp: place_def slot_of_def)
    moreover have "q \<noteq> f" if "K q = Map.empty" using kids that by auto
    then have "x \<noteq> 0 \<and> K q = Map.empty \<longrightarrow> q \<in> P \<and> base_at t' q = -1" using N(9,10) b(1) by auto
    moreover have "p \<noteq> 0 \<longrightarrow> 256 \<le> base_at t' p \<and> 256 \<le> q" using N(7,8) b by auto
    ultimately show "q = place t' {f} (slot_of t f) p x \<and> q \<in> used t' - {} \<and> check_at t' q = p \<and>
       p \<in> insert 0 (used t' - {}) \<and> (x = 0 \<longrightarrow> K q = Map.empty) \<and>
       (p \<noteq> 0 \<longrightarrow> 256 \<le> base_at t' p \<and> 256 \<le> q) \<and> (x \<noteq> 0 \<and> K q = Map.empty \<longrightarrow> q \<in> P \<and> base_at t' q = -1)"
      using N(2-6) unfolding u ck by blast
  next
    fix p
    assume p: "p \<in> insert 0 (used t' - {})" "p \<notin> {f}"
    then have "chain_ok t K p" using D(8) [of p] u by auto
    then show "chain_ok t' K p"
      by (rule chain_ok_frame) (use p b ch sib in auto)
  qed (use sp u f0 b ck ch D(3-7) d tree_kid(11) [OF T] in auto)
qed

lemma pick_place:
  assumes "space_inv t" "cs \<noteq> []"
  shows "\<exists>t' e. (if length cs = 1 then Some (etdb_trie_find_place t) else etdb_trie_find_place_interval t cs) = Some (t', e) \<and>
    extends t t' \<and> fits t' e cs"
proof (cases "length cs = 1")
  case True
  then obtain c where "cs = [c]" by (auto simp: length_Suc_conv)
  then show ?thesis using find_place_picks [OF assms(1)] by (auto simp: fits_def)
next
  case False
  then have "tl cs \<noteq> []" using assms(2) by (cases cs) auto
  then show ?thesis using False find_place_interval_fits [OF assms(1)] by simp
qed

text \<open>The state in which the loop starts: the base of \<open>f\<close> is the new one, its children are in place.\<close>

lemma reloc_start:
  assumes T: "tree_inv t K P" and f: "f \<in> used t" "K f \<noteq> Map.empty" and ex: "extends t t1" and fit: "fits t1 e cs"
    and cs: "cs \<noteq> []" "distinct cs" "dom (K f) \<subseteq> set cs" and b: "base = e XOR uint (hd cs)"
    and t2: "t2 = (if w then put_child t1 f (hd cs) else t1)" "\<not> w \<Longrightarrow> child_at t f = hd cs"
  shows "reloc (put_base t2 f base) K f base (base_at t f) [] cs P {}" "used (put_base t2 f base) = used t"
    "\<And>i. i \<in> insert 0 (used t) \<Longrightarrow> i \<noteq> f \<Longrightarrow> base_at (put_base t2 f base) i = base_at t i"
proof -
  note T0 = T [unfolded tree_inv_def]
  note E = tree_extend [OF T0 ex]
  define t3 where "t3 = put_base t2 f base"
  have f1: "f \<in> used t1" "f \<noteq> 0" using f(1) E(1) used_pos(1) [OF f(1)] by auto
  have acc: "base_at t3 = (base_at t1)(f := base)" "check_at t3 = check_at t1" "sibling_at t3 = sibling_at t1"
    "\<And>i. i \<noteq> f \<Longrightarrow> child_at t3 i = child_at t1 i" "child_at t3 f = (if w then hd cs else child_at t1 f)"
    unfolding t3_def t2(1) by (auto simp: fun_eq_iff)
  have same: "base_at t1 i = base_at t i" "child_at t1 i = child_at t i" if "i \<in> insert 0 (used t)" for i
  proof -
    have "0 < tsize t" using treeD(1) [OF T0] by (auto simp: space_inv_def size_ok_def)
    then have "i < tsize t" using that used_pos(2) [of i t] by auto
    then show "base_at t1 i = base_at t i" "child_at t1 i = child_at t i" using ex by (auto simp: extends_def)
  qed
  have tch: "touched t1 t3"
    using f1 used_pos(3) [of _ t1] unfolding touched_def acc by (auto simp: t3_def t2(1))
  note U = touched_sets [OF tch]
  have b256: "256 \<le> base" using big_block fit b by (simp add: fits_def)
  have O: "tree t3 K (slot_of t1 f) {} {f} P"
    using tree_open [OF E(2) f1(1) f(2) touched_space [OF treeD(1) [OF E(2)] tch] U(2) acc(1) b256 acc(2,3)] acc(4) by blast
  have slot: "slot_of t1 f = spot base (base_at t f) []"
    using same(1) [of f] f(1) by (simp add: fun_eq_iff slot_of_def spot_def)
  have "child_at t3 f = hd cs" using acc(5) t2(2) same(2) [of f] f(1) by simp
  then have "reloc t3 K f base (base_at t f) [] cs P {}"
    unfolding reloc_def using O fit cs f1(2) acc(1) b b256 by (simp add: slot U fits_def)
  then show "reloc (put_base t2 f base) K f base (base_at t f) [] cs P {}" "used (put_base t2 f base) = used t"
    "\<And>i. i \<in> insert 0 (used t) \<Longrightarrow> i \<noteq> f \<Longrightarrow> base_at (put_base t2 f base) i = base_at t i"
    using U(2) E(1) acc(1) same(1) unfolding t3_def by auto
qed

lemma edged_before:
  assumes "edged t3 K n l t' K' n' q r" "tree_inv t K P" "K f \<noteq> Map.empty"
    "\<And>i. i \<in> insert 0 (used t) \<Longrightarrow> i \<noteq> f \<Longrightarrow> base_at t3 i = base_at t i"
  shows "edged t K n l t' K' n' q r"
proof -
  have "base_at t3 v = base_at t v" if k: "K p 0 = Some v" for p v
  proof -
    note N = tree_kid [OF assms(2) [unfolded tree_inv_def] k]
    have "v \<noteq> f" using N(6) assms(3) by auto
    then show ?thesis using assms(4) N(2) by simp
  qed
  then show ?thesis using assms(1) unfolding edged_def by simp
qed

lemma kids_chain:
  assumes "tree_inv t K P" "f \<in> used t" "K f \<noteq> Map.empty"
  obtains cs where "cs \<noteq> []" "distinct cs" "0 \<notin> set (tl cs)" "set cs = dom (K f)"
    "chain t (base_at t f) (child_at t f) cs" "child_at t f = hd cs"
proof -
  have "chain_ok t K f" using treeD(8) [OF assms(1) [unfolded tree_inv_def], of f] assms(2) by simp
  then obtain cs where cs: "distinct cs" "0 \<notin> set (tl cs)" "set cs = labels K f"
      "chain t (base_at t f) (child_at t f) cs"
    by (auto simp: chain_ok_def)
  have "set cs = dom (K f)" using cs(3) used_pos(1) [OF assms(2)] by (simp add: labels_def)
  moreover from this have ne: "cs \<noteq> []" using assms(3) by (metis dom_eq_empty_conv list.set(1))
  moreover have "child_at t f = hd cs" using chain_hd [OF cs(4)] ne by (simp split: list.splits)
  ultimately show thesis using that cs by blast
qed

text \<open>A claimed slot: its owner is another node of the trie.\<close>

lemma contested:
  assumes T: "tree_inv t K P" and n: "n \<in> used t" "K n \<noteq> Map.empty"
    and q: "q = base_at t n XOR uint (l :: byte)" and own: "0 \<le> check_at t q"
  obtains c where "256 \<le> base_at t n" "check_at t q \<in> used t" "K (check_at t q) c = Some q"
proof -
  note T0 = T [unfolded tree_inv_def]
  obtain c1 q1 where k1: "K n c1 = Some q1" using n(2) by (auto simp: fun_eq_iff)
  have n0: "n \<noteq> 0" using used_pos(1) [OF n(1)] by simp
  have b: "256 \<le> base_at t n" using tree_kid(7) [OF T0 k1 n0] .
  have qs: "q = slot_of t n l" "256 \<le> q" using q big_block [OF b] by (simp_all add: slot_of_def)
  have "q < tsize t" using slot_range(2) [OF T0 kid_base_range [OF T0 k1]] qs(1) by simp
  then have "q \<in> used t" using qs(2) own by (simp add: used_def)
  then obtain p c where k: "K p c = Some q" using treeD(7) [OF T0] by blast
  have p: "p = check_at t q" using tree_kid(4) [OF T0 k] by simp
  have "p \<noteq> 0"
  proof
    assume "p = 0"
    then have "q = uint c" using tree_slot [OF T0 k] treeD(3) [OF T0] by (simp add: slot_of_def)
    then show False using qs(2) uint_byte_bounds(2) [of c] by simp
  qed
  then have "p \<in> used t" using tree_kid(5) [OF T0 k] by auto
  then show thesis using that b k p by simp
qed

section \<open>The operation\<close>

lemma etdb_trie_resolve_edged:
  assumes T: "tree_inv t K P" and n: "n \<in> used t" "K n \<noteq> Map.empty" and new: "K n l = None"
    and q: "q = base_at t n XOR uint l" and own: "0 \<le> check_at t q" "check_at t q \<noteq> n"
  shows "\<exists>t' n' q' K' r. etdb_trie_resolve t n (base_at t n) l = Some (t', n', q') \<and> edged t K n l t' K' n' q' r \<and>
    tree_inv t' K' (if l = 0 then r ` P - {n'} else insert q' (r ` P - {n'}))"
proof -
  note T0 = T [unfolded tree_inv_def]
  define f where "f = check_at t q"
  obtain c0 where C: "256 \<le> base_at t n" "f \<in> used t" "K f c0 = Some q"
    using contested [OF T n q own(1)] unfolding f_def by metis
  have fk: "K f \<noteq> Map.empty" using C(3) by auto
  have leaf: "K x 0 \<noteq> Some y" if "K y \<noteq> Map.empty" for x y using tree_kid(6) [OF T0, of x 0 y] that by auto
  obtain ns where ns: "ns \<noteq> []" "distinct ns" "0 \<notin> set (tl ns)" "set ns = dom (K n)"
    "chain t (base_at t n) (child_at t n) ns" "child_at t n = hd ns"
    by (rule kids_chain [OF T n])
  obtain ps where ps: "ps \<noteq> []" "distinct ps" "0 \<notin> set (tl ps)" "set ps = dom (K f)"
    "chain t (base_at t f) (child_at t f) ps" "child_at t f = hd ps"
    by (rule kids_chain [OF T C(2) fk])
  obtain c where c: "etdb_trie_consult t (base_at t n) (base_at t f) (child_at t n) (child_at t f) = Some c"
    using consult_ends [OF ns(5) ps(5) ns(1) ps(1) ns(3) ps(3)] by blast
  have chk: "check_at t (base_at t n XOR uint l) = f" using q by (simp add: f_def)
  show ?thesis
  proof (cases "c \<noteq> 0")
    case True
    obtain as bs where ls: "with_label (Some l) ns = as @ l # bs" "set as \<union> set bs = set ns" "distinct (as @ l # bs)"
      "0 \<notin> set (tl (as @ l # bs))" "as = [] \<or> hd as = hd ns" "as = [] \<longrightarrow> hd ns \<noteq> 0"
      using with_label_Some [OF ns(2,3) _ ns(1), of l] new ns(4) by (metis domIff)
    let ?cs = "as @ l # bs"
    have set: "etdb_trie_set_child t (base_at t n) (child_at t n) (Some l) = Some ?cs"
      using set_child_run [OF ns(5,1,3), of "Some l"] ls(1) by simp
    obtain t1 e where pick: "(if length ?cs = 1 then Some (etdb_trie_find_place t) else etdb_trie_find_place_interval t ?cs) = Some (t1, e)"
      "extends t t1" "fits t1 e ?cs"
      using pick_place [OF treeD(1) [OF T0], of ?cs] by blast
    define base where "base = e XOR uint (hd ?cs)"
    have w: "\<not> hd ?cs = l \<Longrightarrow> child_at t n = hd ?cs" using ns(6) ls(5) by (cases as) auto
    define t2 where "t2 = (if hd ?cs = l then put_child t1 n (hd ?cs) else t1)"
    note S = reloc_start [OF T n pick(2,3) _ ls(3) _ base_def t2_def w]
    have S': "reloc (put_base t2 n base) K n base (base_at t n) [] ?cs P {}" "used (put_base t2 n base) = used t"
      "\<And>i. i \<in> insert 0 (used t) \<Longrightarrow> i \<noteq> n \<Longrightarrow> base_at (put_base t2 n base) i = base_at t i"
      using S ls(2) ns(4) by auto
    obtain t' K' r where R: "relocate True base (base_at t n) n (base_at t n XOR uint l) l ?cs (put_base t2 n base) n = Some (t', n)"
      "edged (put_base t2 n base) K n l t' K' n (base XOR uint l) r"
      "tree_inv t' K' (if l = 0 then r ` P - {n} else insert (base XOR uint l) (r ` P - {n}))"
      using relocate_own [OF S'(1) new _ _ leaf [OF n(2)] ls(4)] S'(2) n(1) ls(2) ns(4) by auto
    have "edged t K n l t' K' n (base XOR uint l) r"
      by (rule edged_before [OF R(2) T n(2) S'(3)])
    moreover have "etdb_trie_resolve t n (base_at t n) l = Some (t', n, base XOR uint l)"
      using True c set pick(1) R(1) unfolding etdb_trie_resolve_def Let_def chk base_def t2_def
      by (auto simp: conj_commute cong: if_cong)
    ultimately show ?thesis using R(3) by blast
  next
    case False
    have set: "etdb_trie_set_child t (base_at t f) (child_at t f) None = Some ps"
      using set_child_run [OF ps(5,1,3), of None] by (simp add: with_label_def)
    obtain t1 e where pick: "(if length ps = 1 then Some (etdb_trie_find_place t) else etdb_trie_find_place_interval t ps) = Some (t1, e)"
      "extends t t1" "fits t1 e ps"
      using pick_place [OF treeD(1) [OF T0] ps(1)] by blast
    define base where "base = e XOR uint (hd ps)"
    have S: "reloc (put_base t1 f base) K f base (base_at t f) [] ps P {}" "used (put_base t1 f base) = used t"
      "\<And>i. i \<in> insert 0 (used t) \<Longrightarrow> i \<noteq> f \<Longrightarrow> base_at (put_base t1 f base) i = base_at t i"
      using reloc_start [where w = False and ?t2.0 = t1, OF T C(2) fk pick(2,3) ps(1,2) _ base_def] ps(4,6) by auto
    have "c0 \<in> set ps" using C(3) ps(4) by auto
    then obtain as bs where sp: "ps = as @ c0 # bs" by (meson split_list)
    have qf: "q = base_at t f XOR uint c0" using tree_slot [OF T0 C(3)] by (simp add: slot_of_def)
    have bn: "base_at (put_base t1 f base) n = base_at t n" using S(3) [of n] n(1) own(2) by (auto simp: f_def)
    have nf: "n \<noteq> f" using own(2) by (simp add: f_def)
    have nu: "n \<in> used (put_base t1 f base)" using S(2) n(1) by simp
    obtain t' n' K' r where R: "relocate False base (base_at t f) f q l ps (put_base t1 f base) n = Some (t', n')"
      "edged (put_base t1 f base) K n l t' K' n' q r" "tree_inv t' K' (if l = 0 then r ` P - {n'} else insert q (r ` P - {n'}))"
      using relocate_other [OF S(1) [unfolded sp] _ qf nu nf leaf [OF n(2)] n(2) new] bn C(1) q ps(3,4) sp by metis
    have "edged t K n l t' K' n' q r"
      by (rule edged_before [OF R(2) T fk S(3)])
    moreover have "etdb_trie_resolve t n (base_at t n) l = Some (t', n', q)"
      using False c set pick(1) R(1) unfolding etdb_trie_resolve_def Let_def chk base_def q [symmetric] f_def [symmetric]
      by (simp cong: if_cong)
    ultimately show ?thesis using R(3) by blast
  qed
qed

end
