(* ===== verification/Trie_Follow.thy ===== *)
theory Trie_Follow
  imports Trie_Resolve
begin

text \<open>
  \<open>etdb_trie_follow\<close> and the insertion on top of it: the node reached by a label, made if it is not
  there, in a trie that otherwise holds what it held before.
\<close>

section \<open>One transition\<close>

text \<open>\<open>r\<close> says where the entries have moved; \<open>q\<close> is the child of \<open>n\<close> by \<open>c\<close>, a new one or the old.\<close>

definition stepped ::
    "trie \<Rightarrow> kids \<Rightarrow> int \<Rightarrow> byte \<Rightarrow> trie \<Rightarrow> kids \<Rightarrow> int \<Rightarrow> int \<Rightarrow> (int \<Rightarrow> int) \<Rightarrow> bool" where
  "stepped t K n c t' K' n' q r \<longleftrightarrow> bij r \<and> r 0 = 0 \<and> n' = r n \<and>
     (\<forall>p d. K' (r p) d = (if p = n \<and> d = c then Some q else map_option r (K p d))) \<and>
     (case K n c of None \<Rightarrow> K' q = Map.empty \<and> (c = 0 \<longrightarrow> base_at t' q = 0) | Some v \<Rightarrow> q = r v) \<and>
     (\<forall>p v. K p 0 = Some v \<longrightarrow> base_at t' (r v) = base_at t v)"

lemma steppedD:
  assumes "stepped t K n c t' K' n' q r"
  shows "r 0 = 0" "n' = r n" "K' (r p) d = (if p = n \<and> d = c then Some q else map_option r (K p d))"
    "K n c = None \<Longrightarrow> K' q = Map.empty" "K n c = None \<Longrightarrow> c = 0 \<Longrightarrow> base_at t' q = 0" "K n c = Some v \<Longrightarrow> q = r v"
    "K p 0 = Some v \<Longrightarrow> base_at t' (r v) = base_at t v"
  using assms by (simp_all add: stepped_def)

lemma edged_stepped: "edged t K n c t' K' n' q r \<Longrightarrow> K n c = None \<Longrightarrow> stepped t K n c t' K' n' q r"
  by (auto simp: edged_def stepped_def)

lemma stepped_refl: "K n c = Some q \<Longrightarrow> stepped t K n c t K n q (\<lambda>x. x)"
  by (simp add: stepped_def option.map_ident bij_id [unfolded id_def])

lemma tree_less:
  assumes T: "tree t K g L X P" and P: "\<And>q p c. q \<in> P \<Longrightarrow> K p c = Some q \<Longrightarrow> c \<noteq> 0 \<Longrightarrow> K q = Map.empty \<Longrightarrow> q \<in> P'"
  shows "tree t K g L X P'"
proof -
  note D = treeD [OF T]
  obtain d :: "int \<Rightarrow> nat" where d: "\<And>p c q. K p c = Some q \<Longrightarrow> d p < d q" using D(9) by blast
  show ?thesis
  proof (rule treeI [where d = d])
    fix p c q
    assume k: "K p c = Some q"
    note N = tree_kid [OF T k]
    show "q = place t X g p c \<and> q \<in> used t - L \<and> check_at t q = p \<and>
       p \<in> insert 0 (used t - L) \<and> (c = 0 \<longrightarrow> K q = Map.empty) \<and>
       (p \<noteq> 0 \<longrightarrow> 256 \<le> base_at t p \<and> 256 \<le> q) \<and> (c \<noteq> 0 \<and> K q = Map.empty \<longrightarrow> q \<in> P' \<and> base_at t q = -1)"
      using N(1-10) P [OF _ k] by blast
  qed (use D(1-8) d tree_kid(11) [OF T] in auto)
qed

lemma tree_inv_mono: "tree_inv t K P \<Longrightarrow> P \<subseteq> P' \<Longrightarrow> tree_inv t K P'"
  unfolding tree_inv_def by (erule tree_less) blast

text \<open>A node that is no leaf has a base exactly when it has children, or is the root.\<close>

lemma base_kids:
  assumes T: "tree_inv t K P" and n: "n \<in> insert 0 (used t)" "\<And>x. K x 0 \<noteq> Some n"
  shows "base_at t n < 0 \<longleftrightarrow> n \<noteq> 0 \<and> K n = Map.empty"
proof -
  note T0 = T [unfolded tree_inv_def]
  show ?thesis
  proof (cases "n = 0")
    case True
    then show ?thesis using treeD(3) [OF T0] by simp
  next
    case False
    then obtain p c where k: "K p c = Some n" using treeD(7) [OF T0, of n] n(1) by auto
    then have "c \<noteq> 0" using n(2) by metis
    then have "K n = Map.empty \<Longrightarrow> base_at t n = -1" using tree_kid(10) [OF T0 k] by blast
    moreover have "256 \<le> base_at t n" if "K n \<noteq> Map.empty"
    proof -
      obtain d v where "K n d = Some v" using \<open>K n \<noteq> Map.empty\<close> by (auto simp: fun_eq_iff)
      then show ?thesis using tree_kid(7) [OF T0] False by blast
    qed
    ultimately show ?thesis using False by fastforce
  qed
qed

text \<open>An entry that has just been taken gets linked below \<open>n\<close>.\<close>

lemma follow_new:
  assumes T: "tree_inv t K P" and n: "n \<in> insert 0 (used t)" "\<And>x. K x 0 \<noteq> Some n" "K n l = None" "\<not> (n = 0 \<and> l = 0)"
    and ex: "extends t t0" "e \<in> free t0" "slot_taken t0 e l n t1"
    and b: "0 \<le> base_at t n \<Longrightarrow> b = base_at t n" "e = b XOR uint l" "n \<noteq> 0 \<Longrightarrow> 256 \<le> b" "b = base_at t n \<or> base_at t n < 0"
    and t': "t' = etdb_trie_push_sibling (if base_at t n < 0 then put_base t1 n b else t1) n b l (base_at t n \<ge> 0)"
  shows "\<exists>K'. stepped t K n l t' K' n e (\<lambda>x. x) \<and> tree_inv t' K' (if l = 0 then P - {n} else insert e (P - {n}))"
proof -
  note T0 = T [unfolded tree_inv_def]
  note E = tree_extend [OF T0 ex(1)]
  note S = tree_take [OF E(2) ex(2,3)]
  note st = ex(3) [unfolded slot_taken_def]
  let ?P = "if l = 0 then P - {n} else insert e (P - {n})" and ?K = "K(n := (K n)(l \<mapsto> e))"
  have same: "base_at t1 i = base_at t i" if "i \<in> insert 0 (used t)" for i
  proof -
    have "0 < tsize t" using treeD(1) [OF T0] by (auto simp: space_inv_def size_ok_def)
    then have "i < tsize t" using that used_pos(2) [of i t] by auto
    then have "base_at t0 i = base_at t i" using ex(1) by (auto simp: extends_def)
    moreover have "i \<notin> free t0" using that E(1) used_not_free [of i t0] by auto
    ultimately show ?thesis using st by simp
  qed
  have bn: "base_at t1 n = base_at t n" using same n(1) by blast
  have eu: "e \<notin> used t" using free_not_used [OF ex(2)] E(1) by simp
  have e0: "0 < e" using ex(2) by (simp add: free_def)
  have en: "n \<noteq> e" using n(1) eu e0 by auto
  define s where "s = (if base_at t n < 0 then put_base t1 n b else t1)"
  have s: "child_at s = child_at t1" "sibling_at s = sibling_at t1" "check_at s = check_at t1"
    "base_at s = (base_at t1)(n := b)" "blocks_same t1 s"
    using b(4) bn by (auto simp: s_def fun_eq_iff)
  have chk: "check_at t1 e = n" using st by simp
  note base = base_kids [OF T n(1,2)]
  have ll: "label_linked t1 n l e t'"
  proof (rule push_sibling_linked [OF s(1,2) b(2)])
    have "child_at t' e = 0"
    proof -
      have "child_at t1 e = 0" using st free_kids_zero [OF treeD(1) [OF E(2)] ex(2)] by simp
      then show ?thesis using en s(1) unfolding t' s_def [symmetric] push_sibling_acc by auto
    qed
    then show "child_at t' = (child_at (etdb_trie_push_sibling s n b l (0 \<le> base_at t n)))(e := 0)"
      unfolding t' s_def [symmetric] by (metis fun_upd_triv)
    show "sibling_at t' = sibling_at (etdb_trie_push_sibling s n b l (0 \<le> base_at t n))"
      unfolding t' s_def [symmetric] ..
  qed (use en bn b(1) in auto)
  have acc: "base_at t' = (base_at t1)(n := b, e := base_at t1 e)" "check_at t' = (check_at t1)(e := n)" "blocks_same t1 t'"
    using s chk en unfolding t' s_def [symmetric] push_sibling_acc by (auto simp: fun_eq_iff)
  have labs: "0 \<le> base_at t1 n \<Longrightarrow> labels K n \<noteq> {}"
    using base bn by (auto simp: labels_def)
  have xe: "base_at t1 e = (if l \<noteq> 0 then -1 else 0)" using st by simp
  have L: "touched t1 t'" "tree t' ?K (\<lambda>_. 0) ({e} - {e}) {} ?P"
  proof -
    have a: "e \<in> {e}" "n \<in> insert 0 (used t1 - {e})" "n \<notin> {}" using n(1) S(1) E(1) eu by auto
    have c: "base_at t1 n < 0 \<Longrightarrow> K n = Map.empty \<and> n \<noteq> 0" using base bn by simp
    have d: "0 \<le> base_at t1 n \<Longrightarrow> b = base_at t1 n" "l \<noteq> 0 \<Longrightarrow> base_at t1 e = -1" using b(1) bn xe by simp_all
    note link = tree_link [OF S(2) a n(3,4,2) c labs ll acc(3,1,2) d(1) b(2,3) d(2)]
    show "touched t1 t'" by (rule link)
    show "tree t' ?K (\<lambda>_. 0) ({e} - {e}) {} ?P" by (rule link)
  qed
  have "K e = Map.empty" using limbo_no_kids [OF S(2)] by simp
  moreover have "base_at t' v = base_at t v" if k: "K p 0 = Some v" for p v
  proof -
    have "v \<in> used t" using tree_kid(2) [OF T0 k] .
    moreover have "v \<noteq> n" using n(2) k by auto
    ultimately show ?thesis using same [of v] acc(1) eu by auto
  qed
  ultimately have "stepped t K n l t' ?K n e (\<lambda>x. x)"
    using n(3) en acc(1) xe unfolding stepped_def by (auto simp: option.map_ident bij_id [unfolded id_def])
  then show ?thesis using L(2) unfolding tree_inv_def by auto
qed

text \<open>All cases of \<open>etdb_trie_follow\<close>.\<close>

lemma etdb_trie_follow_step:
  assumes T: "tree_inv t K P" and n: "n \<in> insert 0 (used t)" "\<And>x. K x 0 \<noteq> Some n" "\<not> (n = 0 \<and> l = 0)" and P: "P \<subseteq> {n}"
  shows "\<exists>t' n' q K' r. etdb_trie_follow t n l = Some (t', n', q) \<and> stepped t K n l t' K' n' q r \<and>
    tree_inv t' K' (if l = 0 then {} else {q})"
proof -
  note T0 = T [unfolded tree_inv_def]
  have so: "space_inv t" by (rule treeD(1) [OF T0])
  have n0: "0 \<le> n" using n(1) used_pos(1) [of n t] by auto
  let ?b = "base_at t n" and ?q = "slot_of t n l"
  have q: "?b XOR uint l = ?q" by (simp add: slot_of_def)
  note base = base_kids [OF T n(1,2)]
  have Pn: "P - {n} = {}" using P by blast
  consider (neg) "?b < 0" | (vacant) "0 \<le> ?b" "check_at t ?q < 0" | (there) "0 \<le> ?b" "check_at t ?q = n"
    | (taken) "0 \<le> ?b" "0 \<le> check_at t ?q" "check_at t ?q \<noteq> n" by linarith
  then show ?thesis
  proof cases
    case neg
    have nk: "n \<noteq> 0" "K n = Map.empty" using base neg by auto
    obtain t0 t1 e where S: "extends t t0" "e \<in> free t0" "256 \<le> e" "slot_taken t0 e l n t1"
      "etdb_trie_pop_empty_node t ?b l n = (put_base t1 n (e XOR uint l), e)"
      using pop_empty_node_first [OF so n0 neg, of l] by blast
    let ?b' = "e XOR uint l"
    have b: "e = ?b' XOR uint l" "256 \<le> ?b'" using big_block [OF S(3)] by simp_all
    let ?t' = "etdb_trie_push_sibling (put_base t1 n ?b') n ?b' l False"
    obtain K' where K': "stepped t K n l ?t' K' n e (\<lambda>x. x)" "tree_inv ?t' K' (if l = 0 then P - {n} else insert e (P - {n}))"
      using follow_new [OF T n(1,2) _ n(3) S(1,2,4) _ b(1) b(2), of ?t'] nk neg by auto
    have "etdb_trie_follow t n l = Some (?t', n, e)"
      using neg S(5) by (simp add: etdb_trie_follow_def Let_def)
    then show ?thesis using K' unfolding Pn by blast
  next
    case vacant
    have nb: "n = 0 \<or> 256 \<le> ?b \<and> ?b < tsize t" and big: "n \<noteq> 0 \<Longrightarrow> 256 \<le> ?b"
    proof -
      show "n = 0 \<or> 256 \<le> ?b \<and> ?b < tsize t"
      proof (cases "n = 0")
        case False
        then have "K n \<noteq> Map.empty" using base vacant(1) by auto
        then obtain d v where "K n d = Some v" by (auto simp: fun_eq_iff)
        then show ?thesis using kid_base_range [OF T0] by blast
      qed simp
      then show "n \<noteq> 0 \<Longrightarrow> 256 \<le> ?b" by simp
    qed
    note R = slot_range [OF T0 nb, of l]
    have "?q \<noteq> 0" using R(3) n(3) by blast
    then have fr: "?q \<in> free t" using R(1,2) vacant(2) by (simp add: free_def)
    have new: "K n l = None"
    proof (cases "K n l")
      case (Some v)
      then have "v = ?q" using tree_slot [OF T0 Some] by simp
      then show ?thesis using tree_kid(4) [OF T0 Some] vacant(2) n0 by simp
    qed
    obtain t1 where S: "etdb_trie_pop_empty_node t ?b l n = (t1, ?q)" "slot_taken t ?q l n t1"
      using pop_empty_node_taken [OF so fr _ vacant(1) n0, of l] q by auto
    let ?t' = "etdb_trie_push_sibling t1 n ?b l True"
    obtain K' where K': "stepped t K n l ?t' K' n ?q (\<lambda>x. x)" "tree_inv ?t' K' (if l = 0 then P - {n} else insert ?q (P - {n}))"
      using follow_new [OF T n(1,2) new n(3) extends_refl [OF so] fr S(2), of ?b ?t'] q big vacant(1) by auto
    have "?q XOR uint l = ?b" by (simp add: slot_of_def)
    then have "etdb_trie_follow t n l = Some (?t', n, ?q)"
      using vacant q S(1) by (simp add: etdb_trie_follow_def Let_def)
    then show ?thesis using K' unfolding Pn by blast
  next
    case there
    have X: "n = 0 \<or> (256 \<le> ?b \<and> ?b < tsize t)"
    proof (cases "n = 0")
      case False
      then have "K n \<noteq> Map.empty" using base there(1) by auto
      then obtain d v where "K n d = Some v" by (auto simp: fun_eq_iff)
      then show ?thesis using kid_base_range [OF T0] by blast
    qed simp
    have k: "K n l = Some ?q" using check_kid(1) [OF T0 _ X _ n0, of l] there(2) by simp
    have "etdb_trie_follow t n l = Some (t, n, ?q)"
      using there q n0 by (simp add: etdb_trie_follow_def Let_def)
    moreover have "tree_inv t K (if l = 0 then {} else {?q})"
      unfolding tree_inv_def
    proof (rule tree_less [OF T0])
      fix v p c
      assume "v \<in> P" "K v = Map.empty"
      then show "v \<in> (if l = 0 then {} else {?q})" using P k by auto
    qed
    ultimately show ?thesis using stepped_refl [of K n l ?q t] k by blast
  next
    case taken
    have n1: "n \<noteq> 0"
    proof
      assume z: "n = 0"
      then have qs: "?q = uint l" using treeD(3) [OF T0] by (simp add: slot_of_def)
      have "?q \<noteq> 0" using qs n(3) z by (simp add: unsigned_eq_0_iff)
      then have "?q \<in> used t"
        using slot_range(1,2) [OF T0, of n l] z taken(2) by (simp add: used_def)
      then obtain p c where k: "K p c = Some ?q" using treeD(7) [OF T0] by blast
      then have "p = 0" using tree_kid(8) [OF T0 k] qs uint_byte_bounds(2) [of l] by fastforce
      then show False using tree_kid(4) [OF T0 k] taken(3) z by simp
    qed
    then have nu: "n \<in> used t" using n(1) by simp
    have kn: "K n \<noteq> Map.empty" using base taken(1) n1 by auto
    have new: "K n l = None"
    proof (cases "K n l")
      case (Some v)
      then have "v = ?q" using tree_slot [OF T0 Some] by simp
      then show ?thesis using tree_kid(4) [OF T0 Some] taken(3) by simp
    qed
    obtain t' n' q' K' r where R: "etdb_trie_resolve t n ?b l = Some (t', n', q')" "edged t K n l t' K' n' q' r"
      "tree_inv t' K' (if l = 0 then r ` P - {n'} else insert q' (r ` P - {n'}))"
      using etdb_trie_resolve_edged [OF T nu kn new q [symmetric] taken(2,3)] by blast
    have "n' = r n" using R(2) by (simp add: edged_def)
    then have e: "r ` P - {n'} = {}" using P by auto
    have "tree_inv t' K' (if l = 0 then {} else {q'})" using R(3) unfolding e .
    moreover have "etdb_trie_follow t n l = Some (t', n', q')"
      using taken R(1) q by (simp add: etdb_trie_follow_def Let_def)
    ultimately show ?thesis using edged_stepped [OF R(2) new] by blast
  qed
qed

section \<open>Contents\<close>

text \<open>A path of labels without 0, walked from the root to \<open>n\<close>, which may still lack children.\<close>

definition pos_at :: "trie \<Rightarrow> kids \<Rightarrow> bytes \<Rightarrow> int \<Rightarrow> bool" where
  "pos_at t K us n \<longleftrightarrow> tree_inv t K {n} \<and> walk K 0 us = Some n \<and> 0 \<notin> set us"

lemma walk_unique:
  assumes T: "tree_inv t K P"
  shows "walk K 0 us = Some n \<Longrightarrow> walk K 0 ws = Some n \<Longrightarrow> ws = us"
proof (induction us arbitrary: ws n rule: rev_induct)
  case Nil
  then show ?case using walk_not_root [OF T [unfolded tree_inv_def]] by auto
next
  case (snoc c us)
  note T0 = T [unfolded tree_inv_def]
  have "ws \<noteq> []" using walk_not_root [OF T0 snoc.prems(1)] snoc.prems(2) by auto
  then obtain vs d where ws: "ws = vs @ [d]" by (metis rev_exhaust)
  obtain p p' where p: "walk K 0 us = Some p" "K p c = Some n" "walk K 0 vs = Some p'" "K p' d = Some n"
    using snoc.prems ws by (auto simp: walk_snoc Option.bind_eq_Some_conv)
  then have "p' = p \<and> d = c" using tree_parent [OF T0] by blast
  then show ?case using snoc.IH p(1,3) ws by blast
qed

lemma pos_at_node:
  assumes "pos_at t K us n"
  shows "n \<in> insert 0 (used t)" "K x 0 \<noteq> Some n" "us \<noteq> [] \<Longrightarrow> n \<noteq> 0"
proof -
  note A = assms [unfolded pos_at_def tree_inv_def]
  have T: "tree t K (\<lambda>_. 0) {} {} {n}" using A by simp
  show "n \<in> insert 0 (used t)" using walk_node [OF T, of 0 us n] A by simp
  show "us \<noteq> [] \<Longrightarrow> n \<noteq> 0" using walk_not_root [OF T] A by blast
  show "K x 0 \<noteq> Some n"
  proof
    assume k: "K x 0 = Some n"
    then have "us \<noteq> []" using kid_nonzero [OF T] A by auto
    then obtain vs d where us: "us = vs @ [d]" by (metis rev_exhaust)
    then obtain p where "K p d = Some n" using A by (auto simp: walk_snoc Option.bind_eq_Some_conv)
    then have "d = 0" using tree_parent [OF T k] by blast
    then show False using us A by simp
  qed
qed

lemma stepped_walk:
  assumes "stepped t K n c t' K' n' q r" "walk K 0 ws = Some p"
  shows "walk K' 0 ws = Some (r p)"
  using assms(2)
proof (induction ws arbitrary: p rule: rev_induct)
  case Nil
  then show ?case using assms(1) by (simp add: stepped_def)
next
  case (snoc d ws)
  then obtain y where y: "walk K 0 ws = Some y" "K y d = Some p" by (auto simp: walk_snoc Option.bind_eq_Some_conv)
  have "K' (r y) d = Some (r p)" using assms(1) y(2) by (auto simp: stepped_def)
  then show ?case using snoc.IH [OF y(1)] by (simp add: walk_snoc)
qed

lemma stepped_walk_back:
  assumes S: "stepped t K n c t' K' n' q r" and T: "tree_inv t K P" and us: "walk K 0 us = Some n"
    and w: "walk K' 0 ws = Some v"
  shows "(\<exists>p. v = r p \<and> walk K 0 ws = Some p) \<or> v = q \<and> K n c = None \<and> ws = us @ [c]"
  using w
proof (induction ws arbitrary: v rule: rev_induct)
  case Nil
  then show ?case using S by (auto simp: stepped_def)
next
  case (snoc d ws)
  obtain y where y: "walk K' 0 ws = Some y" "K' y d = Some v"
    using snoc.prems by (auto simp: walk_snoc Option.bind_eq_Some_conv)
  from snoc.IH [OF y(1)] show ?case
  proof (elim disjE exE conjE)
    fix p
    assume p: "y = r p" "walk K 0 ws = Some p"
    have k: "Some v = (if p = n \<and> d = c then Some q else map_option r (K p d))"
      using steppedD(3) [OF S, of p d] y(2) p(1) by simp
    show ?thesis
    proof (cases "K p d")
      case None
      then have "p = n" "d = c" "v = q" using k by (auto split: if_splits)
      then show ?thesis using None walk_unique [OF T us] p(2) by auto
    next
      case (Some z)
      then have "v = r z" using k S by (auto simp: stepped_def split: if_splits)
      then show ?thesis using p(2) Some by (simp add: walk_snoc)
    qed
  next
    assume "y = q" "K n c = None"
    then have "K' y = Map.empty" using S by (simp add: stepped_def)
    then show ?thesis using y(2) by simp
  qed
qed

lemma stepped_content:
  assumes S: "stepped t K n c t' K' n' q r" and T: "tree_inv t K P" and us: "walk K 0 us = Some n" and ws: "0 \<notin> set ws"
  shows "content t' K' ws = (if c = 0 \<and> ws = us then Some (base_at t' q) else content t K ws)"
    and "c = 0 \<Longrightarrow> base_at t' q = (case content t K us of None \<Rightarrow> 0 | Some x \<Rightarrow> x)"
proof -
  show "base_at t' q = (case content t K us of None \<Rightarrow> 0 | Some x \<Rightarrow> x)" if "c = 0"
  proof (cases "K n 0")
    case None
    then show ?thesis using steppedD(5) [OF S] that us by (simp add: content_def)
  next
    case (Some v)
    then show ?thesis using steppedD(6) [OF S, of v] steppedD(7) [OF S Some] that us by (simp add: content_def)
  qed
  show "content t' K' ws = (if c = 0 \<and> ws = us then Some (base_at t' q) else content t K ws)"
  proof (cases "walk K 0 ws")
    case (Some p)
    have k: "K' (r p) 0 = (if p = n \<and> 0 = c then Some q else map_option r (K p 0))"
      by (rule steppedD(3) [OF S])
    have "p = n \<longleftrightarrow> ws = us" using walk_unique [OF T us, of ws] Some us by fastforce
    moreover have "K p 0 = Some v \<Longrightarrow> base_at t' (r v) = base_at t v" for v by (rule steppedD(7) [OF S])
    ultimately show ?thesis
      unfolding content_def stepped_walk [OF S Some] Some by (cases "K p 0") (auto simp: k)
  next
    case None
    have "ws \<noteq> us" using None us by auto
    moreover have "content t' K' ws = None"
    proof (cases "walk K' 0 ws")
      case (Some v)
      then have v: "v = q" "K n c = None" using stepped_walk_back [OF S T us Some] None by auto
      then show ?thesis using steppedD(4) [OF S] Some by (simp add: content_def)
    qed (simp add: content_def)
    ultimately show ?thesis using None by (simp add: content_def)
  qed
qed

text \<open>Following a label extends the path and leaves the contents alone.\<close>

lemma follow_pos:
  assumes P: "pos_at t K us n" and c: "c \<noteq> 0"
  shows "\<exists>t' q K'. follow_to t n c = Some (t', q) \<and> pos_at t' K' (us @ [c]) q \<and>
    (\<forall>ws. 0 \<notin> set ws \<longrightarrow> content t' K' ws = content t K ws)"
proof -
  note A = P [unfolded pos_at_def]
  have T: "tree_inv t K {n}" and us: "walk K 0 us = Some n" "0 \<notin> set us" using A by blast+
  obtain t' n' q K' r where F: "etdb_trie_follow t n c = Some (t', n', q)" "stepped t K n c t' K' n' q r"
    "tree_inv t' K' (if c = 0 then {} else {q})"
    using etdb_trie_follow_step [OF T pos_at_node(1,2) [OF P], of c] c by blast
  have "K' (r n) c = Some q" using steppedD(3) [OF F(2), of n c] by simp
  then have "walk K' 0 (us @ [c]) = Some q" using stepped_walk [OF F(2) us(1)] by (simp add: walk_snoc)
  then have "pos_at t' K' (us @ [c]) q" using F(3) c us(2) by (simp add: pos_at_def)
  moreover have "\<forall>ws. 0 \<notin> set ws \<longrightarrow> content t' K' ws = content t K ws"
    using stepped_content(1) [OF F(2) T us(1)] c by simp
  moreover have "follow_to t n c = Some (t', q)" using F(1) by (simp add: follow_to_def)
  ultimately show ?thesis by blast
qed

end
