(* ===== verification/Trie_Map.thy ===== *)
theory Trie_Map
  imports Trie_Follow
begin

text \<open>
  The trie as a finite map from keys to values: what insertion and exact search do to it.
\<close>

section \<open>Encoded keys\<close>

lemma encode_byte_free: "0 \<notin> set (encode_byte w)"
  by (simp add: encode_byte_def)

lemma encode_key_Nil [simp]: "encode_key [] = []"
  by (simp add: encode_key_def)

lemma encode_key_Cons [simp]: "encode_key (w # ws) = encode_byte w @ encode_key ws"
  by (simp add: encode_key_def)

lemma encode_key_free: "0 \<notin> set (encode_key ws)"
  by (induction ws) (auto simp: encode_byte_free)

lemma encode_key_empty [simp]: "encode_key ws = [] \<longleftrightarrow> ws = []"
  by (cases ws) (auto simp: encode_byte_def)

lemma encode_byte_prefix: "encode_byte v @ us = encode_byte w @ ws \<Longrightarrow> v = w \<and> us = ws"
  by (auto simp: encode_byte_def split: if_splits)

lemma encode_key_inj: "encode_key us = encode_key ws \<longleftrightarrow> us = ws"
proof (induction us arbitrary: ws)
  case (Cons v us)
  show ?case
  proof
    assume a: "encode_key (v # us) = encode_key ws"
    then obtain w ws' where ws: "ws = w # ws'" by (cases ws) (auto simp: encode_byte_def split: if_splits)
    then have "v = w \<and> encode_key us = encode_key ws'" using a encode_byte_prefix [of v "encode_key us" w] by simp
    then show "v # us = ws" using Cons.IH ws by simp
  qed simp
next
  case Nil
  show ?case using encode_key_empty [of ws] by (metis encode_key_Nil)
qed

section \<open>The map held by a trie\<close>

definition trie_rep :: "trie \<Rightarrow> (bytes \<Rightarrow> int option) \<Rightarrow> bool" where
  "trie_rep t m \<longleftrightarrow> (\<exists>K. tree_inv t K {} \<and> (\<forall>key. content t K (encode_key key) = m key) \<and>
     (\<forall>us. 0 \<notin> set us \<and> content t K us \<noteq> None \<longrightarrow> us \<in> range encode_key))"

lemma trie_repD:
  assumes "trie_rep t m"
  obtains K where "tree_inv t K {}" "\<And>key. content t K (encode_key key) = m key"
    "\<And>us. 0 \<notin> set us \<Longrightarrow> content t K us \<noteq> None \<Longrightarrow> us \<in> range encode_key"
proof -
  from assms obtain K where "tree_inv t K {} \<and> (\<forall>key. content t K (encode_key key) = m key) \<and>
     (\<forall>us. 0 \<notin> set us \<and> content t K us \<noteq> None \<longrightarrow> us \<in> range encode_key)"
    unfolding trie_rep_def by (elim exE)
  then show thesis by (intro that [of K]) auto
qed

lemma trie_repI:
  assumes "tree_inv t K {}" "\<And>key. content t K (encode_key key) = m key"
    "\<And>us. 0 \<notin> set us \<Longrightarrow> content t K us \<noteq> None \<Longrightarrow> us \<in> range encode_key"
  shows "trie_rep t m"
  unfolding trie_rep_def using assms by (intro exI [of _ K]) simp

lemma trie_rep_Nil:
  assumes "trie_rep t m"
  shows "m [] = None"
proof -
  obtain K where K: "tree_inv t K {}" "content t K (encode_key []) = m []"
    using trie_repD [OF assms] by metis
  have "K 0 0 = None" using treeD(6) [OF K(1) [unfolded tree_inv_def]] .
  then show ?thesis using K(2) by (simp add: content_def)
qed

text \<open>A new trie: the root alone, all other slots free.\<close>

lemma init_tree: "tree_inv (etdb_trie_init raw) (\<lambda>_. Map.empty) {}"
  unfolding tree_inv_def
proof (rule treeI [where d = "\<lambda>_. 0"])
  let ?t = "etdb_trie_init raw"
  have u: "used ?t = {}" unfolding used_free init_free by (auto simp: init_acc)
  show "\<exists>p c. Map.empty c = Some q" if "q \<in> used ?t" for q using that u by simp
  show "chain_ok ?t (\<lambda>_. Map.empty) p" if "p \<in> insert 0 (used ?t - {})" for p
  proof -
    have "p = 0" using that u by simp
    moreover have "chain ?t (base_at ?t 0) (child_at ?t 0) [0]" by (simp add: init_acc)
    ultimately show ?thesis unfolding chain_ok_def by (intro exI [of _ "[0]"]) (simp add: labels_def)
  qed
qed (use init_space in \<open>simp_all add: init_acc\<close>)

section \<open>Insertion\<close>

text \<open>The update of an entry follows the encoded labels.\<close>

fun follow_all :: "trie \<Rightarrow> int \<Rightarrow> bytes \<Rightarrow> (trie \<times> int) option" where
  "follow_all t n [] = Some (t, n)"
| "follow_all t n (c # cs) = Option.bind (follow_to t n c) (\<lambda>(t', n'). follow_all t' n' cs)"

lemma follow_all_append:
  "follow_all t n (cs @ ds) = Option.bind (follow_all t n cs) (\<lambda>(t', n'). follow_all t' n' ds)"
  by (induction cs arbitrary: t n) (auto split: Option.bind_splits)

lemma update_entry_follow: "etdb_trie_update_entry t n w = follow_all t n (encode_byte w)"
  by (auto simp: etdb_trie_update_entry_def update_entry_sp_def encode_byte_def split: Option.bind_splits)

lemma update_entries_follow: "update_entries t n ws = follow_all t n (encode_key ws)"
  by (induction ws arbitrary: t n) (simp_all add: update_entry_follow follow_all_append)

lemma follow_all_pos:
  assumes "pos_at t K us n" "0 \<notin> set cs"
  shows "\<exists>t' q K'. follow_all t n cs = Some (t', q) \<and> pos_at t' K' (us @ cs) q \<and>
    (\<forall>ws. 0 \<notin> set ws \<longrightarrow> content t' K' ws = content t K ws)"
  using assms
proof (induction cs arbitrary: t K us n)
  case Nil
  then show ?case by auto
next
  case (Cons c cs)
  have c: "c \<noteq> 0" "0 \<notin> set cs" using Cons.prems(2) by auto
  obtain t1 q1 K1 where F: "follow_to t n c = Some (t1, q1)" "pos_at t1 K1 (us @ [c]) q1"
    "\<forall>ws. 0 \<notin> set ws \<longrightarrow> content t1 K1 ws = content t K ws"
    using follow_pos [OF Cons.prems(1) c(1)] by blast
  obtain t2 q2 K2 where G: "follow_all t1 q1 cs = Some (t2, q2)" "pos_at t2 K2 ((us @ [c]) @ cs) q2"
    "\<forall>ws. 0 \<notin> set ws \<longrightarrow> content t2 K2 ws = content t1 K1 ws"
    using Cons.IH [OF F(2) c(2)] by blast
  then show ?case using F(1,3) by auto
qed

text \<open>Writing a value into the leaf of a node.\<close>

lemma put_value:
  assumes T: "tree_inv t K {}" and k: "K n 0 = Some q" and us: "walk K 0 us = Some n"
  shows "tree_inv (put_base t q x) K {}" "content (put_base t q x) K = (content t K)(us \<mapsto> x)"
proof -
  let ?t = "put_base t q x"
  note T0 = T [unfolded tree_inv_def]
  note D = treeD [OF T0]
  note Q = tree_kid [OF T0 k]
  have kq: "K q = Map.empty" using Q(6) by simp
  have q0: "q \<noteq> 0" using kid_nonzero [OF T0 k] .
  have tch: "touched t ?t" using Q(2) used_pos(3) by (auto simp: touched_def)
  note U = touched_sets [OF tch]
  obtain d :: "int \<Rightarrow> nat" where d: "\<And>p c q. K p c = Some q \<Longrightarrow> d p < d q" using D(9) by blast
  have pq: "p \<noteq> q" if "K p c = Some v" for p c v using that kq by auto
  show "tree_inv ?t K {}"
    unfolding tree_inv_def
  proof (rule treeI [where d = d])
    fix p c v
    assume kv: "K p c = Some v"
    note N = tree_kid [OF T0 kv]
    have "v = q \<Longrightarrow> c = 0" using tree_parent [OF T0 k] kv by blast
    then show "v = place ?t {} (\<lambda>_. 0) p c \<and> v \<in> used ?t - {} \<and> check_at ?t v = p \<and>
       p \<in> insert 0 (used ?t - {}) \<and> (c = 0 \<longrightarrow> K v = Map.empty) \<and>
       (p \<noteq> 0 \<longrightarrow> 256 \<le> base_at ?t p \<and> 256 \<le> v) \<and> (c \<noteq> 0 \<and> K v = Map.empty \<longrightarrow> v \<in> {} \<and> base_at ?t v = -1)"
      using N(1-10) pq [OF kv] unfolding U by (auto simp: place_def slot_of_def)
  next
    fix p
    assume "p \<in> insert 0 (used ?t - {})"
    then have ok: "chain_ok t K p" using D(8) [of p] U by auto
    show "chain_ok ?t K p"
    proof (cases "p = q")
      case True
      obtain cs where "distinct cs" "0 \<notin> set (tl cs)" "set cs = labels K q" "chain t (base_at t q) (child_at t q) cs"
        using ok True by (auto simp: chain_ok_def)
      then show ?thesis using True kq q0 by (auto simp: chain_ok_def labels_def)
    next
      case False
      then show ?thesis by (intro chain_ok_frame [OF ok]) auto
    qed
  qed (use touched_space [OF D(1) tch] q0 D(3-7) U d tree_kid(11) [OF T0] in auto)
  show "content ?t K = (content t K)(us \<mapsto> x)"
  proof
    fix ws
    have "content ?t K ws = Option.bind (walk K 0 ws) (\<lambda>p. map_option (base_at ?t) (K p 0))" by (simp add: content_def)
    also have "\<dots> = ((content t K)(us \<mapsto> x)) ws"
    proof (cases "walk K 0 ws")
      case None
      then show ?thesis using us by (auto simp: content_def)
    next
      case (Some p)
      show ?thesis
      proof (cases "K p 0 = Some q")
        case True
        then have "p = n" using tree_parent [OF T0 k] by blast
        then have "ws = us" using walk_unique [OF T us] Some by blast
        then show ?thesis using Some True by simp
      next
        case False
        then have "ws \<noteq> us" using us Some k by auto
        then show ?thesis using Some False by (cases "K p 0") (auto simp: content_def)
      qed
    qed
    finally show "content ?t K ws = ((content t K)(us \<mapsto> x)) ws" .
  qed
qed

lemma update_refines:
  assumes R: "trie_rep t m" and key: "key \<noteq> []"
  shows "\<exists>t'. etdb_trie_update t key val = Some (t', case m key of None \<Rightarrow> 0 | Some x \<Rightarrow> x) \<and> trie_rep t' (m(key \<mapsto> val))"
proof -
  obtain K where K: "tree_inv t K {}" "\<And>key. content t K (encode_key key) = m key"
    "\<And>us. 0 \<notin> set us \<Longrightarrow> content t K us \<noteq> None \<Longrightarrow> us \<in> range encode_key"
    using trie_repD [OF R] by metis
  let ?us = "encode_key key"
  have "pos_at t K [] 0" using tree_inv_mono [OF K(1)] by (simp add: pos_at_def)
  then obtain t1 n K1 where F: "follow_all t 0 ?us = Some (t1, n)" "pos_at t1 K1 ([] @ ?us) n"
    "\<forall>ws. 0 \<notin> set ws \<longrightarrow> content t1 K1 ws = content t K ws"
    using follow_all_pos encode_key_free by blast
  have P: "pos_at t1 K1 ?us n" using F(2) by simp
  have T1: "tree_inv t1 K1 {n}" and us: "walk K1 0 ?us = Some n" using P by (simp_all add: pos_at_def)
  have n0: "n \<noteq> 0" using pos_at_node(3) [OF P] key by simp
  obtain t2 n' q K2 r where S: "etdb_trie_follow t1 n 0 = Some (t2, n', q)" "stepped t1 K1 n 0 t2 K2 n' q r" "tree_inv t2 K2 {}"
    using etdb_trie_follow_step [OF T1 pos_at_node(1,2) [OF P], of 0] n0 by auto
  have k: "K2 (r n) 0 = Some q" using steppedD(3) [OF S(2), of n 0] by simp
  note V = put_value [OF S(3) k stepped_walk [OF S(2) us], of val]
  note C = stepped_content [OF S(2) T1 us]
  have old: "base_at t2 q = (case m key of None \<Rightarrow> 0 | Some x \<Rightarrow> x)"
    using C(2) [OF encode_key_free] F(3) encode_key_free K(2) by simp
  have c: "content (put_base t2 q val) K2 us = ((content t K)(?us \<mapsto> val)) us" if "0 \<notin> set us" for us
    using V(2) C(1) [OF that] F(3) that by simp
  have "trie_rep (put_base t2 q val) (m(key \<mapsto> val))"
  proof (rule trie_repI [OF V(1)])
    show "content (put_base t2 q val) K2 (encode_key k) = (m(key \<mapsto> val)) k" for k
      using c [OF encode_key_free, of k] K(2) by (simp add: encode_key_inj)
    show "us \<in> range encode_key" if "0 \<notin> set us" "content (put_base t2 q val) K2 us \<noteq> None" for us
      using that K(3) [of us] c [of us] by (auto split: if_splits)
  qed
  moreover have "etdb_trie_update t key val = Some (put_base t2 q val, base_at t2 q)"
    using key F(1) S(1) by (simp add: etdb_trie_update_def update_entries_follow)
  ultimately show ?thesis using old by auto
qed

section \<open>Search\<close>

text \<open>At rest the test of the code finds exactly the children of a node that is no leaf.\<close>

lemma find_step_kid:
  assumes T: "tree_inv t K {}" and P: "pos_at t K us n"
  shows "find_step t n c = K n c"
proof -
  note T0 = T [unfolded tree_inv_def]
  note N = pos_at_node [OF P]
  have X: "n = 0 \<or> (256 \<le> base_at t n \<and> base_at t n < tsize t)"
  proof (cases "n = 0")
    case False
    have "K n \<noteq> Map.empty"
    proof
      assume e: "K n = Map.empty"
      obtain p d where k: "K p d = Some n" using treeD(7) [OF T0, of n] N(1) False by auto
      then have "d \<noteq> 0" using N(2) by metis
      then show False using tree_kid(9) [OF T0 k] e by simp
    qed
    then obtain d v where "K n d = Some v" by (auto simp: fun_eq_iff)
    then show ?thesis using kid_base_range [OF T0] by blast
  qed simp
  have n0: "0 \<le> n" using N(1) used_pos(1) [of n t] by auto
  note c = check_kid [OF T0 _ X _ n0, of c]
  have s: "base_at t n XOR uint c = slot_of t n c" by (simp add: slot_of_def)
  show ?thesis
  proof (cases "K n c")
    case None
    then have "check_at t (slot_of t n c) \<noteq> n" using c(1) by simp
    then show ?thesis using None by (simp add: find_step_def Let_def s)
  next
    case (Some q)
    then have "K n c = Some (slot_of t n c)" using c(2) by simp
    moreover from this have "check_at t (slot_of t n c) = n" using c(1) by simp
    ultimately show ?thesis by (simp add: find_step_def Let_def s)
  qed
qed

lemma pos_at_snoc:
  assumes "tree_inv t K {}" "pos_at t K us n" "K n c = Some q" "c \<noteq> 0"
  shows "pos_at t K (us @ [c]) q"
  using assms tree_inv_mono [OF assms(1), of "{q}"] by (simp add: pos_at_def walk_snoc)

lemma find_word_walk:
  assumes "tree_inv t K {}" "pos_at t K us n" "0 \<notin> set cs"
  shows "case walk K n cs of Some p \<Rightarrow> find_word t n cs = (True, p) \<and> pos_at t K (us @ cs) p
     | None \<Rightarrow> \<not> fst (find_word t n cs)"
  using assms(2,3)
proof (induction cs arbitrary: us n)
  case (Cons c cs)
  show ?case
  proof (cases "K n c")
    case None
    then show ?thesis using find_step_kid [OF assms(1) Cons.prems(1), of c] by simp
  next
    case (Some q)
    have "pos_at t K (us @ [c]) q" using pos_at_snoc [OF assms(1) Cons.prems(1) Some] Cons.prems(2) by auto
    from Cons.IH [OF this] show ?thesis
      using find_step_kid [OF assms(1) Cons.prems(1), of c] Some Cons.prems(2) by (simp split: option.splits)
  qed
qed simp

lemma find_walk:
  assumes "tree_inv t K {}" "pos_at t K us n"
  shows "case walk K n (encode_key ws) of
     Some p \<Rightarrow> etdb_trie_find t ws n = ((case K p 0 of Some v \<Rightarrow> base_at t v | None \<Rightarrow> ETDB_TRIE_NO_VALUE), p)
   | None \<Rightarrow> fst (etdb_trie_find t ws n) = ETDB_TRIE_NO_PATH"
  using assms(2)
proof (induction ws arbitrary: us n)
  case Nil
  have s: "find_step t n 0 = K n 0" by (rule find_step_kid [OF assms(1) Nil])
  then show ?case by (auto simp: find_step_def Let_def split: option.splits if_splits)
next
  case (Cons w ws)
  note W = find_word_walk [OF assms(1) Cons.prems encode_byte_free, of w]
  show ?case
  proof (cases "walk K n (encode_byte w)")
    case None
    then obtain f where "find_word t n (encode_byte w) = (False, f)"
      using W by (cases "find_word t n (encode_byte w)") auto
    then show ?thesis using None by (simp add: walk_append)
  next
    case (Some p)
    then have "find_word t n (encode_byte w) = (True, p)" "pos_at t K (us @ encode_byte w) p" using W by simp_all
    moreover from this have "etdb_trie_find t (w # ws) n = etdb_trie_find t ws p" by simp
    ultimately show ?thesis
      using Some Cons.IH [of "us @ encode_byte w" p] by (simp add: walk_append split: option.splits)
  qed
qed

text \<open>The result of \<open>etdb_trie_find\<close> from the root, in terms of the map.\<close>

definition lookup_code :: "int option \<Rightarrow> int" where
  "lookup_code v = (case v of None \<Rightarrow> ETDB_TRIE_NO_VALUE | Some x \<Rightarrow> if x = ETDB_TRIE_NO_PATH then ETDB_TRIE_NO_VALUE else x)"

lemma exact_match_lookup:
  assumes "trie_rep t m"
  shows "etdb_trie_exact_match_search t key = lookup_code (m key)"
proof -
  obtain K where K: "tree_inv t K {}" "\<And>key. content t K (encode_key key) = m key"
    using trie_repD [OF assms] by metis
  have "pos_at t K [] 0" using tree_inv_mono [OF K(1)] by (simp add: pos_at_def)
  from find_walk [OF K(1) this, of key] show ?thesis
    by (auto simp: etdb_trie_exact_match_search_def Let_def lookup_code_def K(2) [symmetric] content_def
        ETDB_TRIE_NO_PATH_def ETDB_TRIE_NO_VALUE_def split: option.splits)
qed

section \<open>Properties\<close>

lemma init_rep: "trie_rep (etdb_trie_init raw) Map.empty"
proof (rule trie_repI [OF init_tree])
  have "content (etdb_trie_init raw) (\<lambda>_. Map.empty) us = None" for us by (cases us) (simp_all add: content_def)
  then show "content (etdb_trie_init raw) (\<lambda>_. Map.empty) (encode_key key) = Map.empty key"
    "content (etdb_trie_init raw) (\<lambda>_. Map.empty) us \<noteq> None \<Longrightarrow> us \<in> range encode_key" for key us by simp_all
qed

text \<open>
  C6: \<open>etdb_trie_update\<close> returns, whatever keys the trie holds and however often it has to move
  nodes: it implements the update of a map, yields the old value (0 for a new key), and the trie
  stays well formed. The keys may hold all bytes, 0 among them.
\<close>

theorem etdb_trie_update_map:
  assumes "trie_rep t m" "key \<noteq> []"
  shows "\<exists>t'. etdb_trie_update t key val = Some (t', case m key of None \<Rightarrow> 0 | Some x \<Rightarrow> x) \<and> trie_rep t' (m(key \<mapsto> val))"
  by (rule update_refines [OF assms])

theorem etdb_trie_update_map_witness:
  "\<exists>t'. etdb_trie_update (etdb_trie_init undefined) [75, 0] 7 = Some (t', 0) \<and> trie_rep t' [[75, 0] \<mapsto> 7]"
  using etdb_trie_update_map [OF init_rep, of "[75, 0]" undefined 7] by simp

text \<open>
  C15: \<open>etdb_trie_exact_match_search\<close> looks the key up: it yields the value of the key in the map,
  and \<open>ETDB_TRIE_NO_VALUE\<close> when it has none (or the value is the code \<open>ETDB_TRIE_NO_PATH\<close> itself).
\<close>

theorem etdb_trie_exact_match_search_map:
  assumes "trie_rep t m"
  shows "etdb_trie_exact_match_search t key = lookup_code (m key)"
  by (rule exact_match_lookup [OF assms])

theorem etdb_trie_exact_match_search_map_witness:
  "etdb_trie_exact_match_search (etdb_trie_init undefined) [75] = ETDB_TRIE_NO_VALUE"
  using etdb_trie_exact_match_search_map [OF init_rep, of undefined "[75]"] by (simp add: lookup_code_def)

end
