(* ===== verification/Trie_Erase.thy ===== *)
theory Trie_Erase
  imports Trie_Map
begin

text \<open>
  Deletion: the leaf of the value is unlinked and its slot returned, then every node that has no
  children left, upwards to the first one with another child.
\<close>

section \<open>A child less\<close>

lemma tree_prune:
  assumes T: "tree t K g L {} P" and k: "K p c = Some e" and ke: "K e = Map.empty" and tch: "touched t t'"
    and K': "K' = K(p := (K p)(c := None))" and P': "P' = (if K' p = Map.empty then insert p (P - {e}) else P - {e})"
    and base: "\<And>i. i \<in> insert 0 (used t - L) \<Longrightarrow> i \<noteq> e \<Longrightarrow> i \<noteq> p \<or> K' p \<noteq> Map.empty \<or> p = 0 \<Longrightarrow> base_at t' i = base_at t i"
      "K' p = Map.empty \<Longrightarrow> p \<noteq> 0 \<Longrightarrow> base_at t' p = -1"
    and check: "\<And>i. i \<in> insert 0 (used t - L) \<Longrightarrow> i \<noteq> e \<Longrightarrow> check_at t' i = check_at t i"
    and child: "\<And>i. i \<in> insert 0 (used t - L) \<Longrightarrow> i \<noteq> e \<Longrightarrow> i \<noteq> p \<Longrightarrow> child_at t' i = child_at t i" "child_at t' 0 = 0"
    and sib: "\<And>i. i \<in> insert 0 (used t - L) \<Longrightarrow> i \<noteq> e \<Longrightarrow> check_at t i \<noteq> p \<Longrightarrow> i \<noteq> 0 \<or> p \<noteq> 0 \<Longrightarrow> sibling_at t' i = sibling_at t i"
    and ch: "chain_ok t' K' p"
  shows "tree t' K' g (insert e L) {} P'"
proof -
  note D = treeD [OF T]
  note E = tree_kid [OF T k]
  note U = touched_sets(2) [OF tch]
  have e0: "e \<noteq> 0" using kid_nonzero [OF T k] .
  obtain d :: "int \<Rightarrow> nat" where d: "\<And>p c q. K p c = Some q \<Longrightarrow> d p < d q" using D(9) by blast
  have sub: "K x y = Some q \<and> q \<noteq> e \<and> x \<noteq> e" if "K' x y = Some q" for x y q
  proof -
    have a: "K x y = Some q" "\<not> (x = p \<and> y = c)" using that unfolding K' by (auto split: if_splits)
    then show ?thesis using tree_parent [OF T k] ke by auto
  qed
  show ?thesis
  proof (rule treeI [where d = d])
    fix x y q
    assume k': "K' x y = Some q"
    have k1: "K x y = Some q" "q \<noteq> e" "x \<noteq> e" using sub [OF k'] by auto
    note N = tree_kid [OF T k1(1)]
    have "K' x \<noteq> Map.empty" using k' by auto
    then have bx: "base_at t' x = base_at t x" using base(1) [OF N(5) k1(3)] by metis
    have q: "q \<in> insert 0 (used t - L)" "q \<in> used t - L" using N(2,3) by auto
    have c1: "check_at t' q = x" using check [OF q(1) k1(2)] N(4) by simp
    have pl: "q = place t' {} g x y" using N(1) bx by (simp add: place_def slot_of_def)
    have K0: "K' q = Map.empty" if "y = 0"
      using N(6) [OF that] unfolding K' by auto
    have lim: "q \<in> P' \<and> base_at t' q = -1" if "y \<noteq> 0" "K' q = Map.empty"
    proof (cases "q = p")
      case True
      then show ?thesis using base(2) that P' kid_nonzero [OF T k1(1)] by auto
    next
      case False
      then have "K q = Map.empty" using that(2) unfolding K' by simp
      then show ?thesis using N(9,10) [OF that(1)] base(1) [OF q(1) k1(2)] False P' k1(2) by auto
    qed
    show "q = place t' {} g x y \<and> q \<in> used t' - insert e L \<and> check_at t' q = x \<and>
       x \<in> insert 0 (used t' - insert e L) \<and> (y = 0 \<longrightarrow> K' q = Map.empty) \<and>
       (x \<noteq> 0 \<longrightarrow> 256 \<le> base_at t' x \<and> 256 \<le> q) \<and> (y \<noteq> 0 \<and> K' q = Map.empty \<longrightarrow> q \<in> P' \<and> base_at t' q = -1)"
      using pl q c1 N(5,7,8) K0 lim k1(2,3) unfolding U bx by blast
  next
    fix x
    assume x: "x \<in> insert 0 (used t' - insert e L)" "x \<notin> {}"
    show "chain_ok t' K' x"
    proof (cases "x = p")
      case False
      have x': "x \<in> insert 0 (used t - L)" "x \<noteq> e" using x U e0 by auto
      show ?thesis
      proof (rule chain_ok_frame [OF D(8) [OF x'(1)]])
        show "labels K' x = labels K x" using False by (simp add: labels_def K')
        show "base_at t' x = base_at t x" "child_at t' x = child_at t x"
          using base(1) [OF x'] child(1) [OF x'] False by auto
        fix y
        assume y: "y \<in> labels K x"
        note S = label_slot [OF T _ y, simplified]
        have "slot_of t x y \<noteq> e \<and> check_at t (slot_of t x y) \<noteq> p \<and> (slot_of t x y \<noteq> 0 \<or> p \<noteq> 0)"
        proof (cases "K x y = Some (slot_of t x y)")
          case True
          then show ?thesis using tree_parent [OF T k] tree_kid(4) [OF T True] kid_nonzero [OF T True] False by auto
        next
          case no: False
          then have "x = 0" "slot_of t x y = 0" using S(1) by auto
          moreover have "0 \<le> p" using E(5) used_pos(1) by fastforce
          ultimately show ?thesis using e0 D(4) False by auto
        qed
        then show "sibling_at t' (slot_of t x y) = sibling_at t (slot_of t x y)" using sib S(2) by blast
      qed simp
    qed (use ch in simp)
  next
    fix q
    assume q: "q \<in> used t'" "q \<notin> insert e L"
    then obtain x y where "K x y = Some q" using D(7) [of q] U by auto
    then have "K' x y = Some q" using k q(2) unfolding K' by auto
    then show "\<exists>x y. K' x y = Some q" by blast
  next
    show "insert e L \<subseteq> used t'" using E(2) D(2) U by auto
    show "base_at t' 0 = 0" using base(1) [of 0] e0 D(3) by auto
    show "check_at t' 0 = -1" using check [of 0] e0 D(4) by simp
    show "K' 0 0 = None" using D(6) unfolding K' by simp
    show "d x < d q" if "K' x y = Some q" for x y q using d sub [OF that] by blast
    show "y' = y" if "K' x y = Some q" "K' x y' = Some q" for x y y' q
      using tree_kid(11) [OF T] sub [OF that(1)] sub [OF that(2)] by blast
  qed (use touched_space [OF D(1) tch] child(2) in auto)
qed

text \<open>Its paths and contents.\<close>

lemma pruned_walk:
  assumes T: "tree t K g L X P" and k: "K p c = Some e" and ke: "K e = Map.empty" and K': "K' = K(p := (K p)(c := None))"
  shows "walk K' 0 ws = (if walk K 0 ws = Some e then None else walk K 0 ws)"
proof (induction ws rule: rev_induct)
  case Nil
  then show ?case using kid_nonzero [OF T k] by simp
next
  case (snoc y ws)
  show ?case
  proof (cases "walk K 0 ws")
    case None
    then show ?thesis using snoc.IH by (simp add: walk_snoc)
  next
    case (Some x)
    show ?thesis
    proof (cases "x = e")
      case True
      then show ?thesis using snoc.IH Some ke by (simp add: walk_snoc)
    next
      case False
      have "K' x y = (if K x y = Some e then None else K x y)"
      proof (cases "K x y = Some e")
        case True
        then have "x = p \<and> y = c" using tree_parent [OF T k] by blast
        then show ?thesis using True by (simp add: K')
      qed (use k in \<open>auto simp: K'\<close>)
      then show ?thesis using snoc.IH Some False by (simp add: walk_snoc)
    qed
  qed
qed

lemma pruned_content:
  assumes T: "tree s K g L X P" and k: "K p c = Some e" and ke: "K e = Map.empty" and K': "K' = K(p := (K p)(c := None))"
    and same: "\<And>x v. K x 0 = Some v \<Longrightarrow> v \<noteq> e \<Longrightarrow> base_at t' v = base_at t v"
  shows "content t' K' ws = (if c = 0 \<and> walk K 0 ws = Some p then None else content t K ws)"
proof (cases "walk K 0 ws")
  case None
  then show ?thesis using pruned_walk [OF T k ke K', of ws] by (simp add: content_def)
next
  case (Some x)
  show ?thesis
  proof (cases "x = e")
    case True
    have "e \<noteq> p" using tree_kid(12) [OF T k] by simp
    then show ?thesis using pruned_walk [OF T k ke K', of ws] Some True ke by (simp add: content_def)
  next
    case False
    have "K' x 0 = (if x = p \<and> c = 0 then None else K x 0)" by (simp add: K')
    moreover have "v \<noteq> e" if "K x 0 = Some v" "\<not> (x = p \<and> c = 0)" for v
      using tree_parent [OF T k] that by blast
    ultimately show ?thesis
      using pruned_walk [OF T k ke K', of ws] Some False same [of x] by (cases "K x 0") (auto simp: content_def)
  qed
qed

section \<open>A label less\<close>

text \<open>\<open>sibling_ptr\<close> finds the byte that names the label, and writing there cuts the label out.\<close>

lemma sibling_ptr_run:
  assumes "chain t b (deref t ptr) (as @ c # bs)" "c \<notin> set as"
  shows "sibling_ptr t b c ptr = Some (if as = [] then ptr else PSibling (b XOR uint (last as)))"
  using assms
proof (induction as arbitrary: ptr)
  case Nil
  then show ?case by (subst sibling_ptr.simps) simp
next
  case (Cons a as)
  then have "deref t ptr = a" "a \<noteq> c" "chain t b (deref t (PSibling (b XOR uint a))) (as @ c # bs)" by auto
  then show ?case using Cons.IH [of "PSibling (b XOR uint a)"] Cons.prems(2) by (subst sibling_ptr.simps) auto
qed

lemma chain_drop:
  assumes "chain t b x (as @ a # c # bs)" "distinct (as @ a # c # bs)"
  shows "chain (put_sibling t (b XOR uint a) (sibling_at t (b XOR uint c))) b x (as @ a # bs)"
  using assms
proof (induction as arbitrary: x)
  case Nil
  let ?t = "put_sibling t (b XOR uint a) (sibling_at t (b XOR uint c))"
  have "chain ?t b (sibling_at t (b XOR uint c)) bs \<longleftrightarrow> chain t b (sibling_at t (b XOR uint c)) bs"
    by (rule chain_cong) (use Nil.prems(2) in auto)
  then show ?case using Nil.prems(1) by simp
qed auto

lemma pop_sibling_cut:
  assumes ch: "chain t b (child_at t p) cs" and cs: "distinct cs" "c \<in> set cs"
  obtains as bs t' where "etdb_trie_pop_sibling t p b c = Some t'" "cs = as @ c # bs"
    "chain t' b (child_at t' p) (as @ bs)"
    "t' = (if as = [] then put_child t p (sibling_at t (b XOR uint c)) else put_sibling t (b XOR uint (last as)) (sibling_at t (b XOR uint c)))"
proof -
  obtain as bs where s: "cs = as @ c # bs" "c \<notin> set as" using split_list_first [OF cs(2)] by blast
  note R = sibling_ptr_run [of t b "PChild p" as c bs, simplified, OF ch [unfolded s(1)] s(2)]
  show thesis
  proof (cases as rule: rev_cases)
    case Nil
    let ?t = "put_child t p (sibling_at t (b XOR uint c))"
    have "chain ?t b (child_at ?t p) bs \<longleftrightarrow> chain t b (sibling_at t (b XOR uint c)) bs"
      by (simp, rule chain_cong) simp
    moreover have "chain t b (sibling_at t (b XOR uint c)) bs" using ch s(1) Nil by simp
    moreover have "etdb_trie_pop_sibling t p b c = Some ?t" using R Nil by (simp add: etdb_trie_pop_sibling_def)
    ultimately show thesis by (intro that [of ?t as bs, OF _ s(1)]) (simp_all add: Nil)
  next
    case (snoc as' a)
    let ?t = "put_sibling t (b XOR uint a) (sibling_at t (b XOR uint c))"
    have "chain ?t b (child_at ?t p) (as @ bs)"
      using chain_drop [of t b "child_at t p" as' a c bs] ch cs(1) s(1) snoc by simp
    moreover have "etdb_trie_pop_sibling t p b c = Some ?t" using R snoc by (simp add: etdb_trie_pop_sibling_def)
    ultimately show thesis by (intro that [of ?t as bs, OF _ s(1)]) (simp_all add: snoc)
  qed
qed

section \<open>One round\<close>

text \<open>An entry that is about to be returned: its base and child do not matter any more.\<close>

definition wiped :: "trie \<Rightarrow> int \<Rightarrow> int \<Rightarrow> trie" where
  "wiped t e x = put_child (put_base t e x) e 0"

lemma wiped_acc [simp]:
  "base_at (wiped t e x) i = (if i = e then x else base_at t i)" "check_at (wiped t e x) i = check_at t i"
  "sibling_at (wiped t e x) i = sibling_at t i" "child_at (wiped t e x) i = (if i = e then 0 else child_at t i)"
  "tsize (wiped t e x) = tsize t" "capacity (wiped t e x) = capacity t" "blocks_same s (wiped t e x) \<longleftrightarrow> blocks_same s t"
  by (auto simp: wiped_def)

lemma blocks_same_wiped [simp]: "blocks_same (wiped t e x) t"
  by (simp add: wiped_def) (simp add: blocks_same_def fun_eq_iff)

lemma wiped_sets [simp]: "used (wiped t e x) = used t" "free (wiped t e x) = free t" "slots (wiped t e x) b = slots t b"
  by (simp_all add: used_def free_def slots_def)

lemma wiped_touched: "e \<in> used t \<Longrightarrow> touched (wiped t e x) t"
  by (auto simp: touched_def used_def)

lemma wiped_freed:
  assumes "slot_freed t e t'" "p \<in> used t" "p \<noteq> e"
  shows "slot_freed (wiped (wiped t e x) p y) e (wiped t' p y)" "slot_freed (wiped t e x) e t'"
proof -
  note S = assms(1) [unfolded slot_freed_def]
  have "p \<in> used t'"
  proof -
    have "p \<notin> free t" using assms(2) used_not_free by blast
    then show ?thesis using S assms(2,3) by (auto simp: used_def)
  qed
  then have "touched t' (wiped t' p y)" by (auto simp: touched_def used_def)
  then have "space_inv (wiped t' p y)" using touched_space S by blast
  then show "slot_freed (wiped (wiped t e x) p y) e (wiped t' p y)"
    using S assms(3) by (auto simp: slot_freed_def fun_eq_iff)
  show "slot_freed (wiped t e x) e t'" using S by (auto simp: slot_freed_def fun_eq_iff)
qed

text \<open>What a round does, in both of its cases: \<open>x\<close> stands for the base left in \<open>e\<close>.\<close>

lemma erase_round:
  assumes T: "tree_inv (wiped t e x) K {e}" and k: "K p c = Some e" and ke: "K e = Map.empty" and room: "slots t 0 \<noteq> {}"
    and K': "K' = K(p := (K p)(c := None))"
  defines "bp \<equiv> base_at t p"
  defines "flag \<equiv> sibling_at t (bp XOR uint (child_at t p)) \<noteq> 0"
  shows "flag \<Longrightarrow> \<exists>t1. etdb_trie_pop_sibling t p bp (word_of_int (bp XOR e)) = Some t1 \<and>
      tree_inv (etdb_trie_push_empty_node t1 e) K' {} \<and>
      (\<forall>v\<in>used t. v \<noteq> e \<longrightarrow> base_at (etdb_trie_push_empty_node t1 e) v = base_at t v)"
    and "\<not> flag \<Longrightarrow> p \<noteq> 0 \<and> K' p = Map.empty \<and> tree_inv (wiped (etdb_trie_push_empty_node t e) p (-1)) K' {p} \<and>
      slots (etdb_trie_push_empty_node t e) 0 \<noteq> {} \<and>
      (\<forall>v\<in>insert 0 (used t). v \<noteq> e \<longrightarrow> base_at (etdb_trie_push_empty_node t e) v = base_at t v \<and>
         check_at (etdb_trie_push_empty_node t e) v = check_at t v)"
proof -
  let ?w = "wiped t e x"
  note T0 = T [unfolded tree_inv_def]
  note D = treeD [OF T0]
  note N = tree_kid [OF T0 k]
  have eu: "e \<in> used t" "e \<noteq> 0" "e \<noteq> p" "p \<in> insert 0 (used t)"
    using N(2,5,12) kid_nonzero [OF T0 k] by auto
  have space: "space_inv t" by (rule touched_space [OF D(1) wiped_touched [OF eu(1)]])
  have e: "e = bp XOR uint c" using tree_slot [OF T0 k] eu(3) by (simp add: slot_of_def bp_def)
  have lab: "(word_of_int (bp XOR e) :: byte) = c" by (simp add: e)
  have c0: "p = 0 \<Longrightarrow> c \<noteq> 0" using k D(6) by (cases "c = 0") auto
  obtain cs where cs: "distinct cs" "0 \<notin> set (tl cs)" "set cs = labels K p" "chain ?w (base_at ?w p) (child_at ?w p) cs"
    using D(8) [of p] eu(4) by (auto simp: chain_ok_def)
  have ch: "chain t bp (child_at t p) cs"
    using cs(4) chain_cong [of cs ?w bp t bp] eu(3) by (simp add: bp_def)
  have c: "c \<in> set cs" using cs(3) k by (auto simp: labels_def)
  have flag: "flag \<longleftrightarrow> tl cs \<noteq> []"
  proof -
    obtain d ds where ds: "cs = d # ds" using c by (cases cs) auto
    then show ?thesis using ch cs(2) by (cases ds) (auto simp: flag_def)
  qed
  have labs: "labels K' p = set cs - {c}" using cs(3) c0 by (auto simp: labels_def K')
  have zero: "e div 256 = 0 \<Longrightarrow> slots t1 0 \<noteq> {}" if "free t1 = free t" for t1
    using room that by (simp add: slots_free set_eq_iff)
  have pos: "0 < e" "e < tsize t" "e \<notin> free t" using used_pos [OF eu(1)] used_not_free [OF eu(1)] by auto
  show "\<exists>t1. etdb_trie_pop_sibling t p bp (word_of_int (bp XOR e)) = Some t1 \<and>
      tree_inv (etdb_trie_push_empty_node t1 e) K' {} \<and>
      (\<forall>v\<in>used t. v \<noteq> e \<longrightarrow> base_at (etdb_trie_push_empty_node t1 e) v = base_at t v)" if f: flag
  proof -
    obtain as bs t1 where P: "etdb_trie_pop_sibling t p bp c = Some t1" "cs = as @ c # bs" "chain t1 bp (child_at t1 p) (as @ bs)"
      "t1 = (if as = [] then put_child t p (sibling_at t (bp XOR uint c)) else put_sibling t (bp XOR uint (last as)) (sibling_at t (bp XOR uint c)))"
      by (rule pop_sibling_cut [OF ch cs(1) c])
    have ne: "as @ bs \<noteq> []" using f flag P(2) by (cases as) auto
    have Kp: "K' p \<noteq> Map.empty \<or> p = 0"
    proof (cases "p = 0")
      case False
      have "set (as @ bs) = labels K' p" using labs P(2) cs(1) by auto
      then show ?thesis using ne False by (auto simp: labels_def)
    qed simp
    have root: "p = 0 \<Longrightarrow> as \<noteq> []"
    proof
      assume "p = 0" "as = []"
      then have "child_at ?w 0 = c" using cs(4) P(2) by simp
      then show False using D(5) c0 [OF \<open>p = 0\<close>] by simp
    qed
    have last: "bp XOR uint (last as) \<in> insert 0 (used t) \<and> (bp XOR uint (last as) \<noteq> 0 \<longrightarrow> check_at t (bp XOR uint (last as)) = p) \<and>
        (bp XOR uint (last as) = 0 \<longrightarrow> p = 0) \<and> bp XOR uint (last as) \<noteq> e" if "as \<noteq> []"
    proof -
      have "last as \<in> set cs" using that P(2) by simp
      then have l: "last as \<in> labels K p" using cs(3) by simp
      have s: "slot_of ?w p (last as) = bp XOR uint (last as)" using eu(3) by (simp add: slot_of_def bp_def)
      have "last as \<noteq> c" using cs(1) P(2) that by auto
      then show ?thesis
        using label_slot [OF T0 _ l, simplified, unfolded s] tree_kid(4) [OF T0, of p "last as"] kid_nonzero [OF T0] e by auto
    qed
    have acc: "base_at t1 i = base_at t i" "check_at t1 i = check_at t i" "blocks_same t t1" for i
      by (simp_all add: P(4))
    have u1: "used t1 = used t" "free t1 = free t" "tsize t1 = tsize t" using acc by (simp_all add: used_def free_def blocks_same_def)
    have tch: "touched ?w (wiped t1 e x)"
      unfolding touched_def
    proof (intro conjI allI impI ballI)
      fix i
      assume "i \<notin> insert 0 (used ?w)"
      then have i: "i \<noteq> e" "i \<noteq> p" "as \<noteq> [] \<Longrightarrow> i \<noteq> bp XOR uint (last as)" using eu(1,4) last by auto
      then show "base_at (wiped t1 e x) i = base_at ?w i" "check_at (wiped t1 e x) i = check_at ?w i"
        "sibling_at (wiped t1 e x) i = sibling_at ?w i" "child_at (wiped t1 e x) i = child_at ?w i"
        by (simp_all add: P(4))
    qed (use acc used_pos(3) [of _ t] blocks_same_trans [OF blocks_same_wiped acc(3)] in auto)
    have "tree (wiped t1 e x) K' (\<lambda>_. 0) (insert e {}) {} ({e} - {e})"
    proof (rule tree_less [OF tree_prune [OF T0 k ke tch K' refl]])
      show "chain_ok (wiped t1 e x) K' p"
      proof -
        have "chain (wiped t1 e x) bp (child_at t1 p) (as @ bs)"
          using P(3) chain_cong [of "as @ bs" "wiped t1 e x" bp t1 bp] by simp
        moreover have "0 \<notin> set (tl (as @ bs))" using cs(2) P(2) by (cases as; cases bs) auto
        ultimately show ?thesis
          unfolding chain_ok_def using cs(1) P(2) labs eu(3) acc(1) by (intro exI [of _ "as @ bs"]) (auto simp: bp_def)
      qed
      show "child_at (wiped t1 e x) 0 = 0" using D(5) eu(2) root P(4) by (cases "p = 0") auto
      show "sibling_at (wiped t1 e x) i = sibling_at ?w i"
        if "i \<in> insert 0 (used ?w - {})" "i \<noteq> e" "check_at ?w i \<noteq> p" "i \<noteq> 0 \<or> p \<noteq> 0" for i
        using that last by (auto simp: P(4))
      show "base_at (wiped t1 e x) p = -1" if "K' p = Map.empty" "p \<noteq> 0" using Kp that by simp
    qed (use Kp acc P(4) kid_nonzero [OF T0] in \<open>auto simp: K' split: if_splits\<close>)
    then have T1: "tree (wiped t1 e x) K' (\<lambda>_. 0) {e} {} {}" by simp
    have "space_inv t1"
      by (rule touched_space [OF treeD(1) [OF T1] wiped_touched]) (use u1 eu(1) in simp)
    then have fr: "slot_freed t1 e (etdb_trie_push_empty_node t1 e)"
      using push_empty_node_freed [of t1 e] pos zero [OF u1(2)] u1 by simp
    have fw: "slot_freed (wiped t1 e x) e (etdb_trie_push_empty_node t1 e)"
      using fr by (auto simp: slot_freed_def fun_eq_iff)
    have "tree_inv (etdb_trie_push_empty_node t1 e) K' {}"
      unfolding tree_inv_def using tree_return(2) [OF T1 _ fw] by simp
    moreover have "\<forall>v\<in>used t. v \<noteq> e \<longrightarrow> base_at (etdb_trie_push_empty_node t1 e) v = base_at t v"
      using fr u1(2) acc(1) used_not_free by (auto simp: slot_freed_def)
    ultimately show ?thesis using P(1) lab by auto
  qed
  show "p \<noteq> 0 \<and> K' p = Map.empty \<and> tree_inv (wiped (etdb_trie_push_empty_node t e) p (-1)) K' {p} \<and>
      slots (etdb_trie_push_empty_node t e) 0 \<noteq> {} \<and>
      (\<forall>v\<in>insert 0 (used t). v \<noteq> e \<longrightarrow> base_at (etdb_trie_push_empty_node t e) v = base_at t v \<and>
         check_at (etdb_trie_push_empty_node t e) v = check_at t v)" if f: "\<not> flag"
  proof -
    have one: "cs = [c]" using f flag c by (cases cs) auto
    have p0: "p \<noteq> 0" using cs(3) one c0 by (auto simp: labels_def)
    have Kp: "K' p = Map.empty" using labs one p0 by (simp add: labels_def)
    have pu: "p \<in> used t" using eu(4) p0 by simp
    let ?v = "wiped ?w p (-1)"
    have tch: "touched ?w ?v" using pu used_pos(3) by (auto simp: touched_def)
    have "tree ?v K' (\<lambda>_. 0) (insert e {}) {} {p}"
    proof (rule tree_less [OF tree_prune [OF T0 k ke tch K' refl]])
      show "chain_ok ?v K' p"
        unfolding chain_ok_def using Kp p0 by (intro exI [of _ "[]"]) (simp add: labels_def)
    qed (use Kp p0 D(5) eu(2) in \<open>auto split: if_splits\<close>)
    then have T1: "tree ?v K' (\<lambda>_. 0) {e} {} {p}" by simp
    have fr: "slot_freed t e (etdb_trie_push_empty_node t e)"
      by (rule push_empty_node_freed [OF space pos(3,1,2) zero]) simp_all
    note fw = wiped_freed [OF fr pu eu(3) [symmetric]]
    have "tree_inv (wiped (etdb_trie_push_empty_node t e) p (-1)) K' {p}"
      unfolding tree_inv_def using tree_return(2) [OF T1 _ fw(1)] by simp
    moreover have "\<forall>v\<in>insert 0 (used t). v \<noteq> e \<longrightarrow> base_at (etdb_trie_push_empty_node t e) v = base_at t v \<and>
         check_at (etdb_trie_push_empty_node t e) v = check_at t v"
      using fr used_not_free by (auto simp: slot_freed_def)
    moreover have "slots (etdb_trie_push_empty_node t e) 0 \<noteq> {}"
      using fr room by (auto simp: slot_freed_def slots_free)
    ultimately show ?thesis using p0 Kp by blast
  qed
qed

section \<open>The loop\<close>

lemma erase_loop_run:
  assumes "\<And>p c q. K p c = Some q \<Longrightarrow> d p < (d q :: nat)" "tree_inv (wiped t e x) K {e}" "K p c = Some e"
    "K e = Map.empty" "slots t 0 \<noteq> {}"
  shows "\<exists>t' K'. etdb_trie_erase_loop t p e = Some t' \<and> tree_inv t' K' {} \<and>
    (\<forall>ws. content t' K' ws = (if c = 0 \<and> walk K 0 ws = Some p then None else content t K ws))"
  using assms
proof (induction "d e" arbitrary: t e x K p c rule: less_induct)
  case less
  note k = less.prems(3) and ke = less.prems(4) and room = less.prems(5) and T = less.prems(2)
  note T0 = T [unfolded tree_inv_def]
  define K' where "K' = K(p := (K p)(c := None))"
  note R = erase_round [OF T k ke room K'_def]
  let ?nb = "base_at t p"
  let ?f = "sibling_at t (?nb XOR uint (child_at t p)) \<noteq> 0"
  have sub: "K' a b = Some q \<Longrightarrow> K a b = Some q" for a b q unfolding K'_def by (auto split: if_splits)
  show ?case
  proof (cases ?f)
    case True
    obtain t1 where t1: "etdb_trie_pop_sibling t p ?nb (word_of_int (?nb XOR e)) = Some t1"
      "tree_inv (etdb_trie_push_empty_node t1 e) K' {}"
      "\<forall>v\<in>used t. v \<noteq> e \<longrightarrow> base_at (etdb_trie_push_empty_node t1 e) v = base_at t v"
      using R(1) [OF True] by blast
    have "content (etdb_trie_push_empty_node t1 e) K' ws = (if c = 0 \<and> walk K 0 ws = Some p then None else content t K ws)" for ws
      by (rule pruned_content [OF T0 k ke K'_def]) (use t1(3) tree_kid(2) [OF T0] in simp)
    moreover have "etdb_trie_erase_loop t p e = Some (etdb_trie_push_empty_node t1 e)"
      using True t1(1) by (subst etdb_trie_erase_loop.simps) simp
    ultimately show ?thesis using t1(2) by blast
  next
    case False
    let ?t2 = "etdb_trie_push_empty_node t e"
    have S: "p \<noteq> 0" "K' p = Map.empty" "tree_inv (wiped ?t2 p (-1)) K' {p}" "slots ?t2 0 \<noteq> {}"
      "\<forall>v\<in>insert 0 (used t). v \<noteq> e \<longrightarrow> base_at ?t2 v = base_at t v \<and> check_at ?t2 v = check_at t v"
      using R(2) [OF False] by blast+
    have pu: "p \<in> used t" "p \<noteq> e" using tree_kid(5,12) [OF T0 k] S(1) by auto
    obtain y b where y: "K y b = Some p" using treeD(7) [OF T0, of p] pu(1) by auto
    have b0: "b \<noteq> 0" using tree_kid(6) [OF T0 y] k by auto
    have "y \<noteq> p" using tree_kid(12) [OF T0 y] .
    then have y': "K' y b = Some p" using y by (simp add: K'_def)
    have chk: "check_at ?t2 p = y" using S(5) pu tree_kid(4) [OF T0 y] by simp
    have "d p < d e" using less.prems(1) k by blast
    then obtain t' K'' where I: "etdb_trie_erase_loop ?t2 y p = Some t'" "tree_inv t' K'' {}"
      "\<forall>ws. content t' K'' ws = (if b = 0 \<and> walk K' 0 ws = Some y then None else content ?t2 K' ws)"
      using less.hyps [OF _ _ S(3) y' S(2,4)] less.prems(1) sub by blast
    have "content ?t2 K' ws = (if c = 0 \<and> walk K 0 ws = Some p then None else content t K ws)" for ws
      by (rule pruned_content [OF T0 k ke K'_def]) (use S(5) tree_kid(2) [OF T0] in simp)
    moreover have "etdb_trie_erase_loop t p e = etdb_trie_erase_loop ?t2 y p"
      using False chk by (subst etdb_trie_erase_loop.simps) simp
    ultimately show ?thesis using I b0 by auto
  qed
qed

section \<open>Room at the root\<close>

text \<open>Below every node there is a value.\<close>

lemma value_below:
  assumes T: "tree_inv t K {}" and k: "K p c = Some q" "c \<noteq> 0"
  shows "\<exists>ws n v. 0 \<notin> set ws \<and> walk K q ws = Some n \<and> K n 0 = Some v"
proof -
  note T0 = T [unfolded tree_inv_def]
  obtain d :: "int \<Rightarrow> nat" where d: "\<And>p c q. K p c = Some q \<Longrightarrow> d p < d q" using treeD(9) [OF T0] by blast
  have fin: "finite (used t)" by (rule finite_subset [of _ "{0..tsize t}"]) (auto simp: used_def)
  define M where "M = Max (d ` used t)"
  have bound: "d v \<le> M" if "v \<in> used t" for v using that fin by (simp add: M_def)
  show ?thesis using k
  proof (induction "M - d q" arbitrary: p c q rule: less_induct)
    case less
    have "K q \<noteq> Map.empty" using tree_kid(9) [OF T0 less.prems] by auto
    then obtain b v where b: "K q b = Some v" by (auto simp: fun_eq_iff)
    show ?case
    proof (cases "b = 0")
      case True
      then show ?thesis using b by (intro exI [of _ "[]"]) auto
    next
      case False
      have "d q < d v" "d v \<le> M" using d [OF b] bound tree_kid(2) [OF T0 b] by auto
      then have "M - d v < M - d q" by simp
      then obtain ws n z where "0 \<notin> set ws" "walk K v ws = Some n" "K n 0 = Some z"
        using less.hyps [OF _ b False] by blast
      then show ?thesis using b False by (intro exI [of _ "b # ws"]) auto
    qed
  qed
qed

lemma room_at_root:
  assumes R: "trie_rep t m" and w: "w \<noteq> 0" "w \<noteq> 37" "\<forall>ws. m (w # ws) = None"
  shows "slots t 0 \<noteq> {}"
proof
  assume none: "slots t 0 = {}"
  obtain K where K: "tree_inv t K {}" "\<And>key. content t K (encode_key key) = m key"
    "\<And>us. 0 \<notin> set us \<Longrightarrow> content t K us \<noteq> None \<Longrightarrow> us \<in> range encode_key"
    using trie_repD [OF R] by metis
  note T0 = K(1) [unfolded tree_inv_def]
  have so: "size_ok t" using treeD(1) [OF T0] by (simp add: space_inv_def)
  have "uint w \<noteq> 0" using w(1) by (simp add: unsigned_eq_0_iff)
  then have u: "0 < uint w" "uint w < 256" using uint_byte_bounds [of w] by linarith+
  then have "uint w \<notin> free t" using none slots_free [of "uint w" t 0] by auto
  moreover have "uint w < tsize t" using u(2) so unfolding size_ok_def by linarith
  ultimately have "uint w \<in> used t" using range_split [OF u(1)] by blast
  then obtain p c where k: "K p c = Some (uint w)" using treeD(7) [OF T0] by blast
  have p: "p = 0" using tree_kid(8) [OF T0 k] u(2) by linarith
  have "c = w" using tree_slot [OF T0 k] p treeD(3) [OF T0] by (simp add: slot_of_def)
  then have k0: "K 0 w = Some (uint w)" using k p by simp
  obtain ws n v where W: "0 \<notin> set ws" "walk K (uint w) ws = Some n" "K n 0 = Some v"
    using value_below [OF K(1) k0 w(1)] by blast
  then have "content t K (w # ws) \<noteq> None" using k0 by (simp add: content_def)
  then obtain key where key: "w # ws = encode_key key" "m key \<noteq> None"
    using K(2) K(3) [of "w # ws"] W(1) w(1) by (metis imageE insert_iff list.set(2))
  then show False using w by (cases key) (auto simp: encode_byte_def split: if_splits)
qed

section \<open>The operation\<close>

lemma erase_refines:
  assumes R: "trie_rep t m" and room: "slots t 0 \<noteq> {}"
  shows "\<exists>t'. etdb_trie_erase t key =
      Some (t', if lookup_code (m key) = ETDB_TRIE_NO_VALUE then -1 else lookup_code (m key)) \<and>
    trie_rep t' (if lookup_code (m key) = ETDB_TRIE_NO_VALUE then m else m(key := None))"
proof -
  obtain K where K: "tree_inv t K {}" "\<And>key. content t K (encode_key key) = m key"
    "\<And>us. 0 \<notin> set us \<Longrightarrow> content t K us \<noteq> None \<Longrightarrow> us \<in> range encode_key"
    using trie_repD [OF R] by metis
  note T0 = K(1) [unfolded tree_inv_def]
  have "pos_at t K [] 0" using tree_inv_mono [OF K(1)] by (simp add: pos_at_def)
  note F = find_walk [OF K(1) this, of key]
  show ?thesis
  proof (cases "lookup_code (m key) = ETDB_TRIE_NO_VALUE")
    case True
    have "fst (etdb_trie_find t key 0) \<in> {ETDB_TRIE_NO_PATH, ETDB_TRIE_NO_VALUE}"
    proof (cases "walk K 0 (encode_key key)")
      case None
      then show ?thesis using F by simp
    next
      case (Some p)
      then show ?thesis using F True K(2) [of key]
        by (auto simp: content_def lookup_code_def split: option.splits if_splits)
    qed
    then have "etdb_trie_erase t key = Some (t, -1)" by (auto simp: etdb_trie_erase_def split: prod.split)
    then show ?thesis using True R by simp
  next
    case False
    then obtain v where v: "m key = Some v" "v \<noteq> ETDB_TRIE_NO_PATH" "v \<noteq> ETDB_TRIE_NO_VALUE"
      by (auto simp: lookup_code_def split: option.splits if_splits)
    then obtain p e where W: "walk K 0 (encode_key key) = Some p" "K p 0 = Some e" "base_at t e = v"
      using K(2) [of key] by (auto simp: content_def Option.bind_eq_Some_conv)
    have find: "etdb_trie_find t key 0 = (v, p)" using F W by simp
    have e: "e = base_at t p XOR 0" using tree_slot [OF T0 W(2)] by (simp add: slot_of_def)
    have ke: "K e = Map.empty" using tree_kid(6) [OF T0 W(2)] by simp
    have eu: "e \<in> used t" using tree_kid(2) [OF T0 W(2)] .
    have che: "child_at t e = 0"
    proof -
      obtain cs where "set cs = labels K e" "chain t (base_at t e) (child_at t e) cs"
        using treeD(8) [OF T0, of e] eu by (auto simp: chain_ok_def)
      then show ?thesis using ke kid_nonzero [OF T0 W(2)] by (cases cs) (auto simp: labels_def)
    qed
    have "tree (wiped t e v) K (\<lambda>_. 0) {} {} {}"
    proof (rule tree_frame [OF T0])
      have "touched t (wiped t e v)" using eu by (auto simp: touched_def used_def)
      then show "space_inv (wiped t e v)" using touched_space treeD(1) [OF T0] by blast
    qed (use W(3) che in auto)
    then have Tw: "tree_inv (wiped t e v) K {e}" using tree_inv_mono unfolding tree_inv_def [symmetric] by blast
    obtain d :: "int \<Rightarrow> nat" where d: "\<And>p c q. K p c = Some q \<Longrightarrow> d p < d q" using treeD(9) [OF T0] by blast
    obtain t' K' where L: "etdb_trie_erase_loop t p e = Some t'" "tree_inv t' K' {}"
      "\<forall>ws. content t' K' ws = (if (0 :: byte) = 0 \<and> walk K 0 ws = Some p then None else content t K ws)"
      using erase_loop_run [where d = d, OF _ Tw W(2) ke room] d by blast
    have c: "content t' K' us = ((content t K)(encode_key key := None)) us" for us
    proof (cases "walk K 0 us = Some p")
      case True
      then have "us = encode_key key" using walk_unique [OF K(1) W(1)] by blast
      then show ?thesis using L(3) True by simp
    next
      case False
      then show ?thesis using L(3) W(1) by auto
    qed
    have "trie_rep t' (m(key := None))"
    proof (rule trie_repI [OF L(2)])
      show "content t' K' (encode_key k) = (m(key := None)) k" for k
        unfolding c using K(2) by (simp add: encode_key_inj)
      show "us \<in> range encode_key" if "0 \<notin> set us" "content t' K' us \<noteq> None" for us
        using that K(3) [of us] unfolding c by (auto split: if_splits)
    qed
    moreover have "etdb_trie_erase t key = Some (t', v)"
      using find v L(1) e by (simp add: etdb_trie_erase_def etdb_trie_erase_impl_def)
    ultimately show ?thesis using v False by (simp add: lookup_code_def)
  qed
qed



end
