(* ===== verification/Trie_Search.thy ===== *)
theory Trie_Search
  imports Trie_Erase
begin

text \<open>
  The searches over prefixes in terms of the map: the longest stored prefix of a key, the stored
  continuations of a prefix, the number of keys.
\<close>

section \<open>Keys below a node\<close>

lemma encode_key_append: "encode_key (us @ ws) = encode_key us @ encode_key ws"
  by (simp add: encode_key_def)

lemma escape_alone: "encode_key us @ [37] \<noteq> encode_key key"
proof (induction us arbitrary: key)
  case Nil
  show ?case by (cases key) (auto simp: encode_byte_def)
next
  case (Cons v us)
  show ?case
  proof
    assume a: "encode_key (v # us) @ [37] = encode_key key"
    then obtain w key' where k: "key = w # key'" by (cases key) auto
    then have "encode_key us @ [37] = encode_key key'"
      using a encode_byte_prefix [of v "encode_key us @ [37]" w "encode_key key'"] by simp
    then show False using Cons.IH by blast
  qed
qed

text \<open>A trie at rest, the map it holds and the node its encoded key leads to.\<close>

definition at_key :: "trie \<Rightarrow> kids \<Rightarrow> (bytes \<Rightarrow> int option) \<Rightarrow> bytes \<Rightarrow> int \<Rightarrow> bool" where
  "at_key t K m us n \<longleftrightarrow> tree_inv t K {} \<and> pos_at t K (encode_key us) n \<and>
     (\<forall>key. content t K (encode_key key) = m key) \<and>
     (\<forall>us. 0 \<notin> set us \<and> content t K us \<noteq> None \<longrightarrow> us \<in> range encode_key)"

lemma at_keyD:
  assumes "at_key t K m us n"
  shows "tree_inv t K {}" "pos_at t K (encode_key us) n" "content t K (encode_key key) = m key"
    "0 \<notin> set cs \<Longrightarrow> content t K cs \<noteq> None \<Longrightarrow> cs \<in> range encode_key"
  using assms unfolding at_key_def by blast+

lemma rep_root:
  assumes "trie_rep t m"
  obtains K where "at_key t K m [] 0"
proof -
  obtain K where K: "tree_inv t K {}" "\<And>key. content t K (encode_key key) = m key"
    "\<And>us. 0 \<notin> set us \<Longrightarrow> content t K us \<noteq> None \<Longrightarrow> us \<in> range encode_key"
    using trie_repD [OF assms] by metis
  have "pos_at t K [] 0" using tree_inv_mono [OF K(1)] by (simp add: pos_at_def)
  then have "at_key t K m [] 0" using K by (simp add: at_key_def)
  then show thesis by (rule that)
qed

lemma map_below:
  assumes "at_key t K m us n"
  shows "m (us @ ws) = (case walk K n (encode_key ws) of None \<Rightarrow> None | Some p \<Rightarrow> map_option (base_at t) (K p 0))"
proof -
  have "walk K 0 (encode_key us) = Some n" using at_keyD(2) [OF assms] by (simp add: pos_at_def)
  then have "content t K (encode_key (us @ ws)) = (case walk K n (encode_key ws) of None \<Rightarrow> None | Some p \<Rightarrow> map_option (base_at t) (K p 0))"
    by (simp add: content_def encode_key_append walk_append split: option.split)
  then show ?thesis using at_keyD(3) [OF assms] by simp
qed

lemma at_key_step:
  assumes "at_key t K m us n" "walk K n (encode_byte w) = Some p"
  shows "at_key t K m (us @ [w]) p"
proof -
  have "pos_at t K (encode_key us @ encode_byte w) p"
    using find_word_walk [OF at_keyD(1,2) [OF assms(1)] encode_byte_free, of w] assms(2) by simp
  then show ?thesis using assms(1) by (simp add: at_key_def encode_key_append)
qed

lemma map_beyond:
  assumes "at_key t K m us n" "walk K n (encode_byte w) = None"
  shows "m (us @ w # ws) = None"
  using map_below [OF assms(1), of "w # ws"] assms(2) by (simp add: walk_append)

section \<open>The longest prefix\<close>

text \<open>The best prefix so far, and the labels of one byte.\<close>

definition better :: "(bytes \<Rightarrow> int option) \<Rightarrow> bytes \<Rightarrow> int \<times> nat option \<Rightarrow> int \<times> nat option" where
  "better m us r = (case m us of Some v \<Rightarrow> (v, Some (length us)) | None \<Rightarrow> r)"

lemma longest_word_run:
  assumes A: "at_key t K m us n" and pos: "pos = length us"
  shows "longest_word t n (encode_byte w) pos r =
    (case walk K n (encode_byte w) of None \<Rightarrow> Inl r | Some p \<Rightarrow> Inr (p, better m (us @ [w]) r))"
proof -
  note T = at_keyD(1) [OF A] and P = at_keyD(2) [OF A]
  have one: "longest_word t n' (c # cs) pos r' = (case K n' c of None \<Rightarrow> Inl r' | Some q \<Rightarrow>
      longest_word t q cs pos (case K q 0 of Some v \<Rightarrow> (base_at t v, Some (pos + 1)) | None \<Rightarrow> r'))"
    if "pos_at t K vs n'" "c \<noteq> 0" for n' c cs vs r'
  proof (cases "K n' c")
    case None
    then have "find_step t n' c = None" using find_step_kid [OF T that(1)] by simp
    then show ?thesis using None by (simp add: find_step_def Let_def split: if_splits)
  next
    case (Some q)
    then have f: "find_step t n' c = Some q" using find_step_kid [OF T that(1)] by simp
    have g: "find_step t q 0 = K q 0"
      by (rule find_step_kid [OF T pos_at_snoc [OF T that(1) Some that(2)]])
    show ?thesis using f g Some
      by (cases "K q 0") (simp_all add: find_step_def Let_def split: if_splits)
  qed
  have val: "(case K p 0 of Some v \<Rightarrow> (base_at t v, Some (pos + 1)) | None \<Rightarrow> r') = better m (us @ [w]) r'"
    if "walk K n (encode_byte w) = Some p" for p r'
    using map_below [OF A, of "[w]"] that pos by (simp add: better_def split: option.split)
  show ?thesis
  proof (cases "w = 0 \<or> w = 37")
    case False
    then have e: "encode_byte w = [w]" by (simp add: encode_byte_def)
    show ?thesis
    proof (cases "K n w")
      case None
      then show ?thesis using one [OF P, of w "[]" r] False by (simp add: e)
    next
      case (Some p)
      then show ?thesis using one [OF P, of w "[]" r] False val [of p r] by (simp add: e)
    qed
  next
    case True
    then obtain d where e: "encode_byte w = [37, d]" "d \<noteq> 0" by (auto simp: encode_byte_def)
    show ?thesis
    proof (cases "K n 37")
      case None
      then show ?thesis using one [OF P, of 37 "[d]" r] by (simp add: e)
    next
      case (Some q)
      have Q: "pos_at t K (encode_key us @ [37]) q" using pos_at_snoc [OF T P Some] by simp
      have "K q 0 = None"
      proof (rule ccontr)
        assume "K q 0 \<noteq> None"
        then have "content t K (encode_key us @ [37]) \<noteq> None" using Q by (auto simp: content_def pos_at_def)
        then obtain key where key: "encode_key us @ [37] = encode_key key"
          using at_keyD(4) [OF A, of "encode_key us @ [37]"] encode_key_free by auto
        then show False using escape_alone by blast
      qed
      then have "longest_word t n (37 # [d]) pos r = longest_word t q [d] pos r"
        using one [OF P, of 37 "[d]" r] Some by simp
      also have "\<dots> = (case K q d of None \<Rightarrow> Inl r | Some p \<Rightarrow> Inr (p, case K p 0 of Some v \<Rightarrow> (base_at t v, Some (pos + 1)) | None \<Rightarrow> r))"
        unfolding one [OF Q e(2), of "[]" r] by (simp split: option.split)
      finally show ?thesis using Some val [of _ r] by (simp add: e split: option.split)
    qed
  qed
qed

text \<open>The whole key: \<open>longest_from\<close> is the loop over the map.\<close>

fun longest_from :: "(bytes \<Rightarrow> int option) \<Rightarrow> bytes \<Rightarrow> bytes \<Rightarrow> int \<times> nat option \<Rightarrow> int \<times> nat option" where
  "longest_from m us [] r = r"
| "longest_from m us (w # ws) r = longest_from m (us @ [w]) ws (better m (us @ [w]) r)"

lemma longest_from_none: "(\<And>k. m (us @ k) = None \<or> k = []) \<Longrightarrow> longest_from m us ws r = r"
proof (induction ws arbitrary: us r)
  case (Cons w ws)
  have "m (us @ [w]) = None" using Cons.prems [of "[w]"] by simp
  moreover have "m ((us @ [w]) @ k) = None \<or> k = []" for k using Cons.prems [of "w # k"] by simp
  ultimately show ?case using Cons.IH [of "us @ [w]" r] by (simp add: better_def)
qed simp

lemma longest_from_dead: "(\<And>k. m (us @ w # k) = None) \<Longrightarrow> longest_from m us (w # ws) r = r"
  using longest_from_none [of m "us @ [w]" ws r] by (simp add: better_def)

lemma longest_loop_run:
  "at_key t K m us n \<Longrightarrow> longest_loop t n ws (length us) r = longest_from m us ws r"
proof (induction ws arbitrary: us n r)
  case (Cons w ws)
  note W = longest_word_run [OF Cons.prems refl, of w r]
  show ?case
  proof (cases "walk K n (encode_byte w)")
    case None
    then show ?thesis using W longest_from_dead [of m us w ws r, OF map_beyond [OF Cons.prems None]] by simp
  next
    case (Some p)
    then show ?thesis using W Cons.IH [OF at_key_step [OF Cons.prems Some]] by simp
  qed
qed simp

text \<open>What the loop over the map computes.\<close>

definition is_longest :: "(bytes \<Rightarrow> int option) \<Rightarrow> bytes \<Rightarrow> int \<times> nat option \<Rightarrow> bool" where
  "is_longest m key r = (case snd r of
     None \<Rightarrow> fst r = ETDB_TRIE_NO_PATH \<and> list_all (\<lambda>i. m (take i key) = None) [0..<length key + 1]
   | Some n \<Rightarrow> n \<le> length key \<and> m (take n key) = Some (fst r) \<and>
       list_all (\<lambda>i. m (take i key) = None) [n + 1..<length key + 1])"

lemma is_longest_step:
  assumes "is_longest m us r"
  shows "is_longest m (us @ [w]) (better m (us @ [w]) r)"
  using assms by (auto simp: is_longest_def better_def list_all_iff le_Suc_eq less_Suc_eq split: option.splits)

lemma longest_from_spec: "is_longest m us r \<Longrightarrow> is_longest m (us @ ws) (longest_from m us ws r)"
proof (induction ws arbitrary: us r)
  case (Cons w ws)
  then show ?case using Cons.IH [OF is_longest_step [OF Cons.prems, of w]] by simp
qed simp

section \<open>Continuations of a prefix\<close>

text \<open>
  The labels still to be visited at a node; the search follows a label through the escaping once
  more, so that label 37 stands for the byte 37 alone: continuations with a byte 0 are left out.
\<close>

definition below :: "(bytes \<Rightarrow> int option) \<Rightarrow> bytes \<Rightarrow> byte set \<Rightarrow> bytes set" where
  "below m us C = {w # ws |w ws. w \<in> C \<and> 0 \<notin> set (w # ws) \<and> m (us @ w # ws) \<noteq> None}"

definition listed :: "(bytes \<Rightarrow> int option) \<Rightarrow> bytes \<Rightarrow> byte set \<Rightarrow> bytes list \<Rightarrow> bool" where
  "listed m us C kws \<longleftrightarrow> distinct kws \<and> set kws = below m us C"

definition entries :: "(bytes \<Rightarrow> int option) \<Rightarrow> bytes \<Rightarrow> bytes \<Rightarrow> bytes list \<Rightarrow> (bytes \<times> int) list" where
  "entries m us st kws = map (\<lambda>ws. (st @ ws, the (m (us @ ws)))) kws"

lemma entries_append: "entries m us st (ks @ ls) = entries m us st ks @ entries m us st ls"
  by (simp add: entries_def)

lemma listed_join:
  assumes "listed m us {c} ks" "listed m us (set cs) ls" "c \<notin> set cs"
  shows "listed m us (set (c # cs)) (ks @ ls)"
  using assms by (auto simp: listed_def below_def)

lemma listed_child:
  assumes "listed m (us @ [c]) UNIV ks" "c \<noteq> 0"
  shows "listed m us {c} ((if m (us @ [c]) \<noteq> None then [[c]] else []) @ map (Cons c) ks)"
proof -
  have "[] \<notin> set ks" using assms(1) by (auto simp: listed_def below_def)
  moreover have "below m us {c} = (if m (us @ [c]) \<noteq> None then {[c]} else {}) \<union> Cons c ` below m (us @ [c]) UNIV"
  proof (rule set_eqI)
    fix y
    show "y \<in> below m us {c} \<longleftrightarrow> y \<in> (if m (us @ [c]) \<noteq> None then {[c]} else {}) \<union> Cons c ` below m (us @ [c]) UNIV"
    proof (cases y)
      case (Cons a ws)
      then show ?thesis using assms(2) by (cases ws) (auto simp: below_def)
    qed (auto simp: below_def)
  qed
  ultimately show ?thesis using assms(1) by (auto simp: listed_def distinct_map)
qed

lemma entries_child: "entries m us st (map (Cons c) ks) = entries m (us @ [c]) (st @ [c]) ks"
  by (simp add: entries_def)

text \<open>The labels of a node, without the label of the value.\<close>

lemma first_child_chain:
  assumes A: "at_key t K m us n"
  obtains cs where "chain t (base_at t n) (first_child t n) cs" "distinct cs" "set cs = dom (K n) - {0}"
proof -
  note T0 = at_keyD(1) [OF A, unfolded tree_inv_def]
  have "chain_ok t K n" using treeD(8) [OF T0, of n] pos_at_node(1) [OF at_keyD(2) [OF A]] by simp
  then obtain cs where cs: "distinct cs" "0 \<notin> set (tl cs)" "set cs = labels K n" "chain t (base_at t n) (child_at t n) cs"
    by (auto simp: chain_ok_def)
  have lab: "labels K n - {0} = dom (K n) - {0}" by (auto simp: labels_def)
  show thesis
  proof (cases "child_at t n = 0 \<and> cs \<noteq> []")
    case True
    then obtain ds where ds: "cs = 0 # ds" using cs(4) by (cases cs) auto
    have "chain t (base_at t n) (first_child t n) ds" using cs(4) ds by (simp add: first_child_def Let_def)
    moreover have "set ds = dom (K n) - {0}" using cs(1,3) ds lab by auto
    ultimately show thesis using that cs(1) ds by auto
  next
    case False
    have "cs \<noteq> []"
    proof
      assume e: "cs = []"
      then have "K n = Map.empty" "n \<noteq> 0" using cs(3) by (auto simp: labels_def split: if_splits)
      moreover have "\<exists>p c. K p c = Some n \<and> c \<noteq> 0"
        using treeD(7) [OF T0, of n] pos_at_node(1,2) [OF at_keyD(2) [OF A]] \<open>n \<noteq> 0\<close> by fastforce
      ultimately show False using tree_kid(9) [OF T0] by blast
    qed
    then have "child_at t n \<noteq> 0" using False by simp
    then have "first_child t n = child_at t n" "0 \<notin> set cs" using cs(2,4) \<open>cs \<noteq> []\<close> by (cases cs; simp add: first_child_def Let_def)+
    then show thesis using that [of cs] cs lab by auto
  qed
qed

lemma below_dom:
  assumes A: "at_key t K m us n"
  shows "below m us (dom (K n) - {0}) = below m us UNIV"
proof -
  have "m (us @ w # ws) = None" if "w \<noteq> 0" "K n w = None" for w ws
  proof (rule map_beyond [OF A])
    have "encode_byte w = w # tl (encode_byte w)" using that(1) by (simp add: encode_byte_def)
    then show "walk K n (encode_byte w) = None" using that(2) by (metis option.simps(4) walk.simps(2))
  qed
  then show ?thesis by (fastforce simp: below_def)
qed

text \<open>A bound on the length of paths.\<close>

lemma tree_rank:
  assumes T: "tree_inv t K P"
  obtains d :: "int \<Rightarrow> nat" and M where "\<And>p c q. K p c = Some q \<Longrightarrow> d p < d q \<and> d q \<le> M"
proof -
  note T0 = T [unfolded tree_inv_def]
  obtain d :: "int \<Rightarrow> nat" where d: "\<And>p c q. K p c = Some q \<Longrightarrow> d p < d q" using treeD(9) [OF T0] by blast
  have "finite (used t)" by (rule finite_subset [of _ "{0..tsize t}"]) (auto simp: used_def)
  then have "d q \<le> Max (d ` used t)" if "K p c = Some q" for p c q
    using tree_kid(2) [OF T0 that] by simp
  then show thesis using that [of d "Max (d ` used t)"] d by blast
qed

lemma walk_rank:
  assumes "\<And>p c q. K p c = Some q \<Longrightarrow> d p < d q \<and> d q \<le> (M :: nat)"
  shows "walk K n ws = Some q \<Longrightarrow> ws \<noteq> [] \<Longrightarrow> d n < (d q :: nat) \<and> d q \<le> M"
proof (induction ws arbitrary: n)
  case (Cons w ws)
  then obtain p where p: "K n w = Some p" "walk K p ws = Some q" by (auto split: option.splits)
  then show ?case using assms [OF p(1)] Cons.IH [OF p(2)] by (cases "ws = []") auto
qed simp

lemma path_dfs_run:
  assumes vals: "\<And>key v. m key = Some v \<Longrightarrow> v \<noteq> ETDB_TRIE_NO_PATH \<and> v \<noteq> ETDB_TRIE_NO_VALUE"
    and rank: "\<And>p c q. K p c = Some q \<Longrightarrow> d p < d q \<and> d q \<le> (M :: nat)"
    and A: "at_key t K m us n" and cs: "chain t (base_at t n) c cs" "distinct cs" "set cs \<subseteq> dom (K n) - {0}"
  shows "\<exists>kws. path_dfs t n (base_at t n) c st res = Some (res @ entries m us st kws) \<and> listed m us (set cs) kws"
  using A cs
proof (induction "M - d n" arbitrary: n us st res c cs rule: less_induct)
  case less
  note A = less.prems(1)
  show ?case using less.prems(2-4)
  proof (induction cs arbitrary: c res)
    case Nil
    then have "path_dfs t n (base_at t n) c st res = Some res" by (subst path_dfs.simps) simp
    then show ?case by (intro exI [of _ "[]"]) (simp add: entries_def listed_def below_def)
  next
    case (Cons c0 cs)
    have c: "c = c0" "c \<noteq> 0" "c \<notin> set cs" "chain t (base_at t n) (sibling_at t (base_at t n XOR uint c)) cs"
      using Cons.prems by auto
    have unf: "path_dfs t n (base_at t n) c st res = Option.bind
        (case etdb_trie_find t [c] n of (b, l) \<Rightarrow>
           if b \<noteq> ETDB_TRIE_NO_PATH then
             path_dfs t l (base_at t l) (first_child t l) (st @ [c])
               (if b \<noteq> ETDB_TRIE_NO_VALUE then res @ [(st @ [c], b)] else res)
           else Some res)
        (\<lambda>r. path_dfs t n (base_at t n) (sibling_at t (base_at t n XOR uint c)) st r)"
      using c(2) by (subst path_dfs.simps) simp
    note F = find_walk [OF at_keyD(1,2) [OF A], of "[c]", simplified]
    obtain ks where ks: "(case etdb_trie_find t [c] n of (b, l) \<Rightarrow>
           if b \<noteq> ETDB_TRIE_NO_PATH then
             path_dfs t l (base_at t l) (first_child t l) (st @ [c])
               (if b \<noteq> ETDB_TRIE_NO_VALUE then res @ [(st @ [c], b)] else res)
           else Some res) = Some (res @ entries m us st ks)" "listed m us {c} ks"
    proof (cases "walk K n (encode_byte c)")
      case None
      have "below m us {c} = {}" using map_beyond [OF A None] by (auto simp: below_def)
      moreover obtain l where "etdb_trie_find t [c] n = (ETDB_TRIE_NO_PATH, l)"
        using F None by (cases "etdb_trie_find t [c] n") auto
      ultimately show thesis using that [of "[]"] by (simp add: entries_def listed_def)
    next
      case (Some q)
      note Q = at_key_step [OF A Some]
      have find: "etdb_trie_find t [c] n = ((case m (us @ [c]) of Some v \<Rightarrow> v | None \<Rightarrow> ETDB_TRIE_NO_VALUE), q)"
        using F Some map_below [OF A, of "[c]"] by (cases "K q 0") simp_all
      have ne: "(case m (us @ [c]) of Some v \<Rightarrow> v | None \<Rightarrow> ETDB_TRIE_NO_VALUE) \<noteq> ETDB_TRIE_NO_PATH"
        using vals by (auto simp: ETDB_TRIE_NO_PATH_def ETDB_TRIE_NO_VALUE_def split: option.split)
      have "d n < d q \<and> d q \<le> M"
        by (rule walk_rank [of K d M, OF rank Some]) (simp_all add: encode_byte_def)
      then have r: "M - d q < M - d n" by linarith
      obtain ds where ds: "chain t (base_at t q) (first_child t q) ds" "distinct ds" "set ds = dom (K q) - {0}"
        by (rule first_child_chain [OF Q])
      let ?res = "if m (us @ [c]) \<noteq> None then res @ [(st @ [c], the (m (us @ [c])))] else res"
      obtain ks where ks: "path_dfs t q (base_at t q) (first_child t q) (st @ [c]) ?res =
          Some (?res @ entries m (us @ [c]) (st @ [c]) ks)" "listed m (us @ [c]) (set ds) ks"
        using less.hyps [OF r Q ds(1,2), of "st @ [c]" ?res] ds(3) by auto
      have "listed m (us @ [c]) UNIV ks" using ks(2) ds(3) below_dom [OF Q] by (simp add: listed_def)
      note L = listed_child [OF this c(2)]
      have res: "(if (case m (us @ [c]) of Some v \<Rightarrow> v | None \<Rightarrow> ETDB_TRIE_NO_VALUE) \<noteq> ETDB_TRIE_NO_VALUE
          then res @ [(st @ [c], case m (us @ [c]) of Some v \<Rightarrow> v | None \<Rightarrow> ETDB_TRIE_NO_VALUE)] else res) = ?res"
        using vals by (auto split: option.split)
      have "?res @ entries m (us @ [c]) (st @ [c]) ks =
          res @ entries m us st ((if m (us @ [c]) \<noteq> None then [[c]] else []) @ map (Cons c) ks)"
        by (simp add: entries_append entries_child) (simp add: entries_def)
      then show thesis using that [OF _ L] ks(1) by (simp only: find prod.case ne res if_True not_False_eq_True)
    qed
    obtain ls where ls: "path_dfs t n (base_at t n) (sibling_at t (base_at t n XOR uint c)) st (res @ entries m us st ks) =
        Some ((res @ entries m us st ks) @ entries m us st ls)" "listed m us (set cs) ls"
      using Cons.IH [OF c(4), of "res @ entries m us st ks"] Cons.prems(2,3) by auto
    have "path_dfs t n (base_at t n) c st res = Some (res @ entries m us st (ks @ ls))"
      unfolding unf ks(1) using ls(1) by (simp add: entries_append)
    then show ?case using listed_join [OF ks(2) ls(2) c(3)] c(1) by blast
  qed
qed

lemma path_search_run:
  assumes "trie_rep t m" "\<And>key v. m key = Some v \<Longrightarrow> v \<noteq> ETDB_TRIE_NO_PATH \<and> v \<noteq> ETDB_TRIE_NO_VALUE"
  shows "\<exists>code kws. etdb_trie_common_prefix_path_search t key st res = Some (code, res @ entries m key st kws) \<and>
    listed m key UNIV kws"
proof -
  obtain K where A: "at_key t K m [] 0" by (rule rep_root [OF assms(1)])
  note F = find_walk [OF at_keyD(1,2) [OF A], of key]
  show ?thesis
  proof (cases "walk K 0 (encode_key key)")
    case None
    then obtain l where "etdb_trie_find t key 0 = (ETDB_TRIE_NO_PATH, l)"
      using F by (cases "etdb_trie_find t key 0") auto
    moreover have "below m key UNIV = {}"
      using map_below [OF A, of "key @ ws" for ws] None by (auto simp: below_def encode_key_append walk_append)
    ultimately show ?thesis
      by (intro exI [of _ None] exI [of _ "[]"])
        (simp add: etdb_trie_common_prefix_path_search_def entries_def listed_def)
  next
    case (Some n)
    have B: "at_key t K m key n"
      using A Some tree_inv_mono [OF at_keyD(1) [OF A], of "{n}"] encode_key_free by (simp add: at_key_def pos_at_def)
    obtain d :: "int \<Rightarrow> nat" and M where d: "\<And>p c q. K p c = Some q \<Longrightarrow> d p < d q \<and> d q \<le> M"
      using tree_rank [OF at_keyD(1) [OF A]] by blast
    obtain cs where cs: "chain t (base_at t n) (first_child t n) cs" "distinct cs" "set cs = dom (K n) - {0}"
      by (rule first_child_chain [OF B])
    have sub: "set cs \<subseteq> dom (K n) - {0}" using cs(3) by simp
    have vals: "v \<noteq> ETDB_TRIE_NO_PATH \<and> v \<noteq> ETDB_TRIE_NO_VALUE" if "m k = Some v" for k v using assms(2) that by blast
    have "\<exists>kws. path_dfs t n (base_at t n) (first_child t n) st res = Some (res @ entries m key st kws) \<and> listed m key (set cs) kws"
      by (rule path_dfs_run [where d = d and M = M and K = K, OF _ _ B cs(1,2) sub]) (fact vals, fact d)
    then obtain kws where kws: "path_dfs t n (base_at t n) (first_child t n) st res = Some (res @ entries m key st kws)"
      "listed m key (set cs) kws" by blast
    have "listed m key UNIV kws" using kws(2) cs(3) below_dom [OF B] by (simp add: listed_def)
    moreover have "fst (etdb_trie_find t key 0) \<noteq> ETDB_TRIE_NO_PATH"
      using F Some map_below [OF A, of key] assms(2)
      by (cases "K n 0") (auto simp: ETDB_TRIE_NO_PATH_def ETDB_TRIE_NO_VALUE_def)
    moreover obtain b where "etdb_trie_find t key 0 = (b, n)" using F Some by simp
    ultimately have "\<exists>code. etdb_trie_common_prefix_path_search t key st res = Some (code, res @ entries m key st kws)" "listed m key UNIV kws"
      using kws(1) by (simp_all add: etdb_trie_common_prefix_path_search_def etdb_trie_common_prefix_path_search_dfs_def)
    then show ?thesis by blast
  qed
qed

section \<open>The number of keys\<close>

text \<open>Every entry is reached from the root.\<close>

lemma path_to:
  assumes T: "tree_inv t K {}" and n: "n \<in> insert 0 (used t)" "\<And>x. K x 0 \<noteq> Some n"
  shows "\<exists>us. 0 \<notin> set us \<and> walk K 0 us = Some n"
proof -
  note T0 = T [unfolded tree_inv_def]
  obtain d :: "int \<Rightarrow> nat" where d: "\<And>p c q. K p c = Some q \<Longrightarrow> d p < d q" using treeD(9) [OF T0] by blast
  show ?thesis using n
  proof (induction "d n" arbitrary: n rule: less_induct)
    case less
    show ?case
    proof (cases "n = 0")
      case True
      then show ?thesis by (intro exI [of _ "[]"]) simp
    next
      case False
      then obtain p c where k: "K p c = Some n" using treeD(7) [OF T0, of n] less.prems(1) by auto
      have c: "c \<noteq> 0" using k less.prems(2) by metis
      have "K x 0 \<noteq> Some p" for x using tree_kid(6) [OF T0, of x 0 p] k by auto
      then obtain us where "0 \<notin> set us" "walk K 0 us = Some p"
        using less.hyps [OF d [OF k]] tree_kid(5) [OF T0 k] by auto
      then show ?thesis using k c by (intro exI [of _ "us @ [c]"]) (simp add: walk_snoc)
    qed
  qed
qed

lemma num_keys_card:
  assumes R: "trie_rep t m"
  shows "etdb_trie_num_keys t = int (card (dom m))"
proof -
  obtain K where K: "tree_inv t K {}" "\<And>key. content t K (encode_key key) = m key"
    "\<And>us. 0 \<notin> set us \<Longrightarrow> content t K us \<noteq> None \<Longrightarrow> us \<in> range encode_key"
    using trie_repD [OF R] by metis
  note T0 = K(1) [unfolded tree_inv_def]
  let ?leaf = "{q. \<exists>p. K p 0 = Some q}"
  define f where "f key = the (K (the (walk K 0 (encode_key key))) 0)" for key
  have dom: "\<exists>p q. walk K 0 (encode_key key) = Some p \<and> K p 0 = Some q \<and> f key = q" if "key \<in> dom m" for key
    using that K(2) [of key] by (auto simp: content_def f_def Option.bind_eq_Some_conv)
  have "inj_on f (dom m)"
  proof (rule inj_onI)
    fix a b
    assume ab: "a \<in> dom m" "b \<in> dom m" "f a = f b"
    obtain p q where p: "walk K 0 (encode_key a) = Some p" "K p 0 = Some q" "f a = q" using dom [OF ab(1)] by blast
    obtain p' q' where p': "walk K 0 (encode_key b) = Some p'" "K p' 0 = Some q'" "f b = q'" using dom [OF ab(2)] by blast
    have "K p' 0 = Some q" using p'(2,3) p(3) ab(3) by simp
    then have "p' = p" using tree_parent [OF T0 p(2)] by blast
    then have "encode_key b = encode_key a" using walk_unique [OF K(1) p(1)] p'(1) by blast
    then show "a = b" by (simp add: encode_key_inj)
  qed
  moreover have "f ` dom m = ?leaf"
  proof
    show "f ` dom m \<subseteq> ?leaf" using dom by blast
    show "?leaf \<subseteq> f ` dom m"
    proof
      fix q
      assume "q \<in> ?leaf"
      then obtain p where p: "K p 0 = Some q" by blast
      have "K x 0 \<noteq> Some p" for x using tree_kid(6) [OF T0, of x 0 p] p by auto
      then obtain us where us: "0 \<notin> set us" "walk K 0 us = Some p"
        using path_to [OF K(1), of p] tree_kid(5) [OF T0 p] by auto
      then have "content t K us \<noteq> None" using p by (simp add: content_def)
      then obtain key where key: "us = encode_key key" using K(3) us(1) by auto
      have "key \<in> dom m" using K(2) [of key] \<open>content t K us \<noteq> None\<close> key by auto
      moreover have "f key = q" using us(2) key p by (simp add: f_def)
      ultimately show "q \<in> f ` dom m" by blast
    qed
  qed
  ultimately have c: "card (dom m) = card ?leaf" using card_image by metis
  have leaf: "i \<in> ?leaf \<longleftrightarrow> 0 \<le> i \<and> i < tsize t \<and> 0 \<le> check_at t i \<and> base_at t (check_at t i) = i" for i
  proof
    assume "i \<in> ?leaf"
    then obtain p where p: "K p 0 = Some i" by blast
    have "i = base_at t p XOR uint (0 :: byte)" using tree_slot [OF T0 p] by (simp add: slot_of_def)
    then show "0 \<le> i \<and> i < tsize t \<and> 0 \<le> check_at t i \<and> base_at t (check_at t i) = i"
      using tree_kid(2,4) [OF T0 p] used_pos [of i t] by auto
  next
    assume a: "0 \<le> i \<and> i < tsize t \<and> 0 \<le> check_at t i \<and> base_at t (check_at t i) = i"
    have "i \<noteq> 0" using a treeD(4) [OF T0] by auto
    then have "i \<in> used t" using a by (simp add: used_def)
    then obtain p c where k: "K p c = Some i" using treeD(7) [OF T0] by blast
    then have "check_at t i = p" using tree_kid(4) [OF T0 k] by simp
    then have "base_at t p XOR uint c = base_at t p" using a tree_slot [OF T0 k] by (simp add: slot_of_def)
    then have "uint c = 0" by (metis xor_self_eq xor_xor_cancel)
    then have "c = 0" by (simp add: unsigned_eq_0_iff)
    then show "i \<in> ?leaf" using k by blast
  qed
  let ?P = "\<lambda>i. check_at t i \<ge> 0 \<and> base_at t (check_at t i) = i"
  have "?leaf = int ` set (filter (\<lambda>i. ?P (int i)) [0..<nat (tsize t)])"
  proof (rule set_eqI)
    fix i
    show "i \<in> ?leaf \<longleftrightarrow> i \<in> int ` set (filter (\<lambda>i. ?P (int i)) [0..<nat (tsize t)])"
      unfolding leaf by (cases "0 \<le> i") (auto simp: image_iff intro!: exI [of _ "nat i"])
  qed
  then have "card ?leaf = length (filter (\<lambda>i. ?P (int i)) [0..<nat (tsize t)])"
    by (simp add: card_image distinct_card [symmetric])
  then show ?thesis using c by (simp add: etdb_trie_num_keys_def)
qed

lemma match_longest_spec:
  assumes "trie_rep t m"
  shows "is_longest m key (etdb_trie_match_longest_search t key)"
proof -
  obtain K where A: "at_key t K m [] 0" by (rule rep_root [OF assms])
  have "is_longest m [] (ETDB_TRIE_NO_PATH, None)"
    using trie_rep_Nil [OF assms] by (simp add: is_longest_def)
  then have "is_longest m ([] @ key) (longest_from m [] key (ETDB_TRIE_NO_PATH, None))"
    by (rule longest_from_spec)
  then show ?thesis
    using longest_loop_run [OF A, of key "(ETDB_TRIE_NO_PATH, None)"]
    by (simp add: etdb_trie_match_longest_search_def)
qed

section \<open>Properties\<close>

text \<open>
  C18: \<open>etdb_trie_match_longest_search\<close> finds the longest prefix of the key that has a value: its
  value and its length, and no longer prefix has one; \<open>ETDB_TRIE_NO_PATH\<close> when no prefix has.
\<close>

theorem etdb_trie_match_longest_search_map:
  assumes "trie_rep t m"
  shows "is_longest m key (etdb_trie_match_longest_search t key)"
  by (rule match_longest_spec [OF assms])

theorem etdb_trie_match_longest_search_map_witness:
  "\<exists>t. etdb_trie_update (etdb_trie_init undefined) [75, 37] 5 = Some (t, 0) \<and>
     is_longest [[75, 37] \<mapsto> 5] [75, 37, 1] (etdb_trie_match_longest_search t [75, 37, 1])"
proof -
  obtain t where t: "etdb_trie_update (etdb_trie_init undefined) [75, 37] 5 = Some (t, 0)" "trie_rep t [[75, 37] \<mapsto> 5]"
    using update_refines [OF init_rep, of "[75, 37]" undefined 5] by auto
  then show ?thesis using etdb_trie_match_longest_search_map [OF t(2), of "[75, 37, 1]"] by blast
qed

text \<open>
  C17: \<open>etdb_trie_common_prefix_path_search\<close> ends, and appends exactly the proper continuations of
  the prefix that have a value and no byte 0, each of them once, with its value.
\<close>

theorem etdb_trie_common_prefix_path_search_map:
  assumes "trie_rep t m" "\<forall>key v. m key = Some v \<longrightarrow> v \<noteq> ETDB_TRIE_NO_PATH \<and> v \<noteq> ETDB_TRIE_NO_VALUE"
  shows "\<exists>code kws. etdb_trie_common_prefix_path_search t key st res = Some (code, res @ entries m key st kws) \<and>
    listed m key UNIV kws"
  by (rule path_search_run [OF assms(1)]) (use assms(2) in blast)

theorem etdb_trie_common_prefix_path_search_map_witness:
  "\<exists>t code kws. etdb_trie_update (etdb_trie_init undefined) [75, 37] 5 = Some (t, 0) \<and>
     etdb_trie_common_prefix_path_search t [75] [] [] = Some (code, entries [[75, 37] \<mapsto> 5] [75] [] kws) \<and>
     listed [[75, 37] \<mapsto> 5] [75] UNIV kws"
proof -
  obtain t where t: "etdb_trie_update (etdb_trie_init undefined) [75, 37] 5 = Some (t, 0)" "trie_rep t [[75, 37] \<mapsto> 5]"
    using update_refines [OF init_rep, of "[75, 37]" undefined 5] by auto
  then show ?thesis
    using etdb_trie_common_prefix_path_search_map [OF t(2), of "[75]" "[]" "[]"]
    by (auto simp: ETDB_TRIE_NO_PATH_def ETDB_TRIE_NO_VALUE_def)
qed

text \<open>C19: \<open>etdb_trie_num_keys\<close> counts the keys with a value.\<close>

theorem etdb_trie_num_keys_map:
  assumes "trie_rep t m"
  shows "etdb_trie_num_keys t = int (card (dom m))"
  by (rule num_keys_card [OF assms])

theorem etdb_trie_num_keys_map_witness:
  "\<exists>t. etdb_trie_update (etdb_trie_init undefined) [75, 0] 5 = Some (t, 0) \<and> etdb_trie_num_keys t = 1"
proof -
  obtain t where t: "etdb_trie_update (etdb_trie_init undefined) [75, 0] 5 = Some (t, 0)" "trie_rep t [[75, 0] \<mapsto> 5]"
    using update_refines [OF init_rep, of "[75, 0]" undefined 5] by auto
  then show ?thesis using etdb_trie_num_keys_map [OF t(2)] by simp
qed

end
