(* ===== verification/Index.thy ===== *)
theory Index
  imports Trie_Search
begin

text \<open>
  The interface through which the database uses its tries: a representation of maps from keys to
  numbers with update, lookup and deletion. What follows from the laws alone is proved once, in
  the locale \<open>index\<close>, and holds for the double-array trie by interpretation.
\<close>

text \<open>Maps to addresses, that is to positive numbers, in which no key starts with the byte \<open>w\<close>.\<close>

definition addresses :: "byte \<Rightarrow> (bytes \<Rightarrow> int option) \<Rightarrow> bool" where
  "addresses w m \<longleftrightarrow> (\<forall>key v. m key = Some v \<longrightarrow> 0 < v) \<and> (\<forall>ws. m (w # ws) = None)"

lemma addressesD: "addresses w m \<Longrightarrow> m key = Some v \<Longrightarrow> 0 < v" "addresses w m \<Longrightarrow> m (w # ws) = None"
  by (auto simp: addresses_def)

text \<open>Sequences of operations.\<close>

datatype index_op = Put bytes int | Del bytes

primrec allowed :: "byte \<Rightarrow> index_op \<Rightarrow> bool" where
  "allowed w (Put key v) \<longleftrightarrow> key \<noteq> [] \<and> hd key \<noteq> w \<and> 0 < v"
| "allowed w (Del key) \<longleftrightarrow> True"

primrec apply_op :: "(bytes \<Rightarrow> int option) \<Rightarrow> index_op \<Rightarrow> (bytes \<Rightarrow> int option)" where
  "apply_op m (Put key v) = m(key \<mapsto> v)"
| "apply_op m (Del key) = m(key := None)"

fun run_ops ::
    "('t \<Rightarrow> bytes \<Rightarrow> int \<Rightarrow> ('t \<times> int) option) \<Rightarrow> ('t \<Rightarrow> bytes \<Rightarrow> ('t \<times> int) option) \<Rightarrow> 't \<Rightarrow> index_op list \<Rightarrow> 't option" where
  "run_ops put del t [] = Some t"
| "run_ops put del t (Put key v # xs) = Option.bind (put t key v) (\<lambda>(t', _). run_ops put del t' xs)"
| "run_ops put del t (Del key # xs) = Option.bind (del t key) (\<lambda>(t', _). run_ops put del t' xs)"

locale index =
  fixes rep :: "'t \<Rightarrow> (bytes \<Rightarrow> int option) \<Rightarrow> bool"
    and put :: "'t \<Rightarrow> bytes \<Rightarrow> int \<Rightarrow> ('t \<times> int) option"
    and get :: "'t \<Rightarrow> bytes \<Rightarrow> int"
    and del :: "'t \<Rightarrow> bytes \<Rightarrow> ('t \<times> int) option"
  assumes rep_get: "rep t m \<Longrightarrow> get t key = lookup_code (m key)"
    and rep_put: "rep t m \<Longrightarrow> key \<noteq> [] \<Longrightarrow>
      \<exists>t'. put t key v = Some (t', case m key of None \<Rightarrow> 0 | Some x \<Rightarrow> x) \<and> rep t' (m(key \<mapsto> v))"
    and rep_del: "rep t m \<Longrightarrow> w \<noteq> 0 \<Longrightarrow> w \<noteq> 37 \<Longrightarrow> \<forall>ws. m (w # ws) = None \<Longrightarrow>
      \<exists>t'. del t key = Some (t', if lookup_code (m key) = ETDB_TRIE_NO_VALUE then -1 else lookup_code (m key)) \<and>
        rep t' (if lookup_code (m key) = ETDB_TRIE_NO_VALUE then m else m(key := None))"
begin

lemma get_address:
  assumes "rep t m" "addresses w m"
  shows "get t key = (case m key of None \<Rightarrow> ETDB_TRIE_NO_VALUE | Some v \<Rightarrow> v)"
    "get t key < 0 \<longleftrightarrow> m key = None"
  using addressesD(1) [OF assms(2), of key]
  by (auto simp: rep_get [OF assms(1)] lookup_code_def ETDB_TRIE_NO_VALUE_def ETDB_TRIE_NO_PATH_def split: option.split)

lemma put_address:
  assumes "rep t m" "addresses w m" "key \<noteq> []" "hd key \<noteq> w" "0 < v"
  obtains t' old where "put t key v = Some (t', old)" "0 \<le> old" "rep t' (m(key \<mapsto> v))" "addresses w (m(key \<mapsto> v))"
proof -
  obtain t' where t': "put t key v = Some (t', case m key of None \<Rightarrow> 0 | Some x \<Rightarrow> x)" "rep t' (m(key \<mapsto> v))"
    using rep_put [OF assms(1,3)] by blast
  moreover have "0 \<le> (case m key of None \<Rightarrow> 0 | Some x \<Rightarrow> x)"
    using addressesD(1) [OF assms(2), of key] by (auto split: option.split dest: order_less_imp_le)
  moreover have "addresses w (m(key \<mapsto> v))"
    using assms(2-5) by (auto simp: addresses_def)
  ultimately show thesis using that by blast
qed

lemma del_address:
  assumes "rep t m" "addresses w m" "w \<noteq> 0" "w \<noteq> 37"
  obtains t' where "del t key = Some (t', case m key of None \<Rightarrow> -1 | Some v \<Rightarrow> v)" "rep t' (m(key := None))"
    "addresses w (m(key := None))"
proof -
  have w: "\<forall>ws. m (w # ws) = None" using addressesD(2) [OF assms(2)] by auto
  obtain t' where t': "del t key = Some (t', if lookup_code (m key) = ETDB_TRIE_NO_VALUE then -1 else lookup_code (m key))"
    "rep t' (if lookup_code (m key) = ETDB_TRIE_NO_VALUE then m else m(key := None))"
    using rep_del [OF assms(1,3,4) w] by blast
  have a: "addresses w (m(key := None))" using assms(2) by (auto simp: addresses_def)
  show thesis
  proof (cases "m key")
    case None
    then have "m(key := None) = m" by auto
    then show thesis using that [of t'] t' None a by (simp add: lookup_code_def)
  next
    case (Some v)
    then have "lookup_code (m key) = v" "v \<noteq> ETDB_TRIE_NO_VALUE"
      using addressesD(1) [OF assms(2) Some]
      by (auto simp: lookup_code_def ETDB_TRIE_NO_VALUE_def ETDB_TRIE_NO_PATH_def)
    then show thesis using that [of t'] t' Some a by simp
  qed
qed

text \<open>Every sequence of operations runs to its end and does to the map what it says.\<close>

lemma run_rep:
  "w \<noteq> 0 \<Longrightarrow> w \<noteq> 37 \<Longrightarrow> rep t m \<Longrightarrow> addresses w m \<Longrightarrow> list_all (allowed w) xs \<Longrightarrow>
     \<exists>t'. run_ops put del t xs = Some t' \<and> rep t' (foldl apply_op m xs) \<and> addresses w (foldl apply_op m xs)"
proof (induction xs arbitrary: t m)
  case (Cons x xs)
  show ?case
  proof (cases x)
    case (Put key v)
    then have "key \<noteq> []" "hd key \<noteq> w" "0 < v" using Cons.prems(5) by simp_all
    then obtain t1 old where t1: "put t key v = Some (t1, old)" "rep t1 (m(key \<mapsto> v))" "addresses w (m(key \<mapsto> v))"
      using put_address [OF Cons.prems(3,4)] by metis
    then show ?thesis using Cons.IH [OF Cons.prems(1,2) t1(2,3)] Cons.prems(5) Put by (simp del: fun_upd_apply)
  next
    case (Del key)
    obtain t1 where t1: "del t key = Some (t1, case m key of None \<Rightarrow> -1 | Some v \<Rightarrow> v)" "rep t1 (m(key := None))"
      "addresses w (m(key := None))"
      by (rule del_address [OF Cons.prems(3,4,1,2)])
    then show ?thesis using Cons.IH [OF Cons.prems(1,2) t1(2,3)] Cons.prems(5) Del by (simp del: fun_upd_apply)
  qed
qed auto

lemma get_after_run:
  assumes "w \<noteq> 0" "w \<noteq> 37" "rep t m" "addresses w m" "list_all (allowed w) xs"
  shows "\<exists>t'. run_ops put del t xs = Some t' \<and>
    (\<forall>key. get t' key = (case foldl apply_op m xs key of None \<Rightarrow> ETDB_TRIE_NO_VALUE | Some v \<Rightarrow> v))"
  using run_rep [OF assms] get_address(1) by blast

end

interpretation ix: index trie_rep etdb_trie_update etdb_trie_exact_match_search etdb_trie_erase
proof unfold_locales
  show "etdb_trie_exact_match_search t key = lookup_code (m key)" if "trie_rep t m" for t m key
    by (rule exact_match_lookup [OF that])
  show "\<exists>t'. etdb_trie_update t key v = Some (t', case m key of None \<Rightarrow> 0 | Some x \<Rightarrow> x) \<and> trie_rep t' (m(key \<mapsto> v))"
    if "trie_rep t m" "key \<noteq> []" for t m key v
    by (rule update_refines [OF that])
  show "\<exists>t'. etdb_trie_erase t key =
        Some (t', if lookup_code (m key) = ETDB_TRIE_NO_VALUE then -1 else lookup_code (m key)) \<and>
      trie_rep t' (if lookup_code (m key) = ETDB_TRIE_NO_VALUE then m else m(key := None))"
    if "trie_rep t m" "w \<noteq> 0" "w \<noteq> 37" "\<forall>ws. m (w # ws) = None" for t m w key
    by (rule erase_refines [OF that(1) room_at_root [OF that]])
qed

lemma addresses_empty: "addresses w Map.empty"
  by (simp add: addresses_def)

text \<open>
  C16: from an empty trie every sequence of insertions and deletions runs to its end, and afterwards
  \<open>etdb_trie_exact_match_search\<close> answers for every key what the sequence made of the map. The keys
  inserted are not empty, the values positive as the addresses of the database are, and some byte \<open>w\<close>
  other than 0 and \<open>%\<close> begins no key inserted: when each of them begins a key, block 0 has no free
  slot and a deletion breaks its list (\<open>etdb_trie_erase_map\<close>).
\<close>

theorem etdb_trie_session:
  assumes "list_all (allowed w) xs" "w \<noteq> 0" "w \<noteq> 37"
  shows "\<exists>t. run_ops etdb_trie_update etdb_trie_erase (etdb_trie_init raw) xs = Some t \<and>
    (\<forall>key. etdb_trie_exact_match_search t key =
       (case foldl apply_op Map.empty xs key of None \<Rightarrow> ETDB_TRIE_NO_VALUE | Some v \<Rightarrow> v))"
  by (rule ix.get_after_run [OF assms(2,3) init_rep addresses_empty assms(1)])

theorem etdb_trie_session_witness:
  "\<exists>t. run_ops etdb_trie_update etdb_trie_erase (etdb_trie_init undefined) [Put [1, 0] 3, Put [1, 37] 4, Del [1, 0]] = Some t \<and>
     etdb_trie_exact_match_search t [1, 37] = 4 \<and> etdb_trie_exact_match_search t [1, 0] = ETDB_TRIE_NO_VALUE"
  using etdb_trie_session [of 2 "[Put [1, 0] 3, Put [1, 37] 4, Del [1, 0]]" undefined] by fastforce

end
