(* ===== verification/Store.thy ===== *)
theory Store
  imports Database Index
begin

text \<open>
  The database as its commands see it: strings (keys and hash fields), members of sets, lists and
  spatial points, each under a slot and an encoded key. \<open>db_rep db V\<close> relates the tries and the
  heap to that view; the operations of the database are operations on the view.

  \<^item> \<open>places\<close> gives the address that the trie of a slot holds for a key;
  \<^item> the addresses behind strings and points are owned by one key each and lie apart from the cells
    of the lists, so that freeing one leaves all other values alone; values that an update has
    replaced stay allocated;
  \<^item> the second key of a spatial point names the point's address under its current geohash.

  This theory has the representation, keys, hashes and sets; theories \<open>Store_Lists\<close> and
  \<open>Store_Points\<close> have the lists and the points.
\<close>

type_synonym places = "int \<times> bytes \<Rightarrow> addr option"

definition key_heads :: "byte set" where
  "key_heads = {ETDB_KV_HEAD, ETDB_HASH_HEAD, ETDB_SET_HEAD, ETDB_LIST_HEAD, ETDB_SPATIAL_POINT_HEAD1, ETDB_SPATIAL_POINT_HEAD2}"

definition is_slot :: "int \<Rightarrow> bool" where
  "is_slot sl \<longleftrightarrow> 0 \<le> sl \<and> sl < ETDB_DATABASE_MAX_SLOT"

lemmas head_defs = ETDB_KV_HEAD_def ETDB_HASH_HEAD_def ETDB_SET_HEAD_def ETDB_LIST_HEAD_def
  ETDB_SPATIAL_POINT_HEAD1_def ETDB_SPATIAL_POINT_HEAD2_def

section \<open>The tries\<close>

definition tries_ok :: "etdb_database \<Rightarrow> places \<Rightarrow> bool" where
  "tries_ok db M \<longleftrightarrow> (\<forall>sl. is_slot sl \<longrightarrow> trie_rep (tries db sl) (\<lambda>k. M (sl, k))) \<and>
     (\<forall>sl k v. M (sl, k) = Some v \<longrightarrow> is_slot sl \<and> k \<noteq> [] \<and> hd k \<in> key_heads \<and> 0 < v)"

lemma tries_okD:
  assumes "tries_ok db M"
  shows "is_slot sl \<Longrightarrow> trie_rep (tries db sl) (\<lambda>k. M (sl, k))" "addresses 1 (\<lambda>k. M (sl, k))"
    "M (sl, k) = Some v \<Longrightarrow> is_slot sl \<and> k \<noteq> [] \<and> hd k \<in> key_heads \<and> 0 < v"
proof -
  have e: "M (sl, k) = Some v \<Longrightarrow> is_slot sl \<and> k \<noteq> [] \<and> hd k \<in> key_heads \<and> 0 < v" for k v
    using assms unfolding tries_ok_def by blast
  then show "M (sl, k) = Some v \<Longrightarrow> is_slot sl \<and> k \<noteq> [] \<and> hd k \<in> key_heads \<and> 0 < v" .
  show "is_slot sl \<Longrightarrow> trie_rep (tries db sl) (\<lambda>k. M (sl, k))" using assms by (simp add: tries_ok_def)
  have "M (sl, 1 # ws) = None" for ws using e [of "1 # ws"] by (cases "M (sl, 1 # ws)") (auto simp: key_heads_def head_defs)
  then show "addresses 1 (\<lambda>k. M (sl, k))" using e by (auto simp: addresses_def)
qed

lemma tries_put_heap [simp]: "tries (put_heap m db) = tries db" "heap (put_heap m db) = m"
    "heap (put_trie sl t db) = heap db" "tries (put_trie sl t db) = (tries db)(sl := t)"
  by (simp_all add: put_heap_def put_trie_def)

lemma tries_ok_cong: "tries db' = tries db \<Longrightarrow> tries_ok db' M \<longleftrightarrow> tries_ok db M"
  by (simp add: tries_ok_def)

lemma tries_ok_upd:
  assumes "tries_ok db M" "is_slot sl" "trie_rep t ((\<lambda>k. M (sl, k))(k := x))" "x = None \<or> k \<noteq> [] \<and> hd k \<in> key_heads \<and> 0 < the x"
  shows "tries_ok (put_trie sl t db) (M((sl, k) := x))"
proof -
  have "(\<lambda>k'. (M((sl, k) := x)) (sl, k')) = (\<lambda>k. M (sl, k))(k := x)" by auto
  moreover have "(\<lambda>k'. (M((sl, k) := x)) (sl', k')) = (\<lambda>k. M (sl', k))" if "sl' \<noteq> sl" for sl' using that by auto
  ultimately have "trie_rep (tries (put_trie sl t db) sl') (\<lambda>k'. (M((sl, k) := x)) (sl', k'))" if "is_slot sl'" for sl'
    using assms(1,3) that by (cases "sl' = sl") (simp_all add: tries_ok_def)
  then show ?thesis
    using assms(1,2,4) unfolding tries_ok_def by (auto split: if_splits)
qed

lemma tries_get:
  assumes "tries_ok db M" "is_slot sl"
  shows "etdb_trie_exact_match_search (tries db sl) k = (case M (sl, k) of None \<Rightarrow> ETDB_TRIE_NO_VALUE | Some v \<Rightarrow> v)"
    "etdb_trie_exact_match_search (tries db sl) k < 0 \<longleftrightarrow> M (sl, k) = None"
  using ix.get_address [OF tries_okD(1) [OF assms] tries_okD(2) [OF assms(1)], of k] by simp_all

lemma tries_put:
  assumes "tries_ok db M" "is_slot sl" "k \<noteq> []" "hd k \<in> key_heads" "0 < v"
  obtains t old where "etdb_trie_update (tries db sl) k v = Some (t, old)" "0 \<le> old"
    "\<And>db'. tries db' = tries db \<Longrightarrow> tries_ok (put_trie sl t db') (M((sl, k) \<mapsto> v))"
proof -
  have "hd k \<noteq> 1" using assms(4) by (auto simp: key_heads_def head_defs)
  then obtain t old where t: "etdb_trie_update (tries db sl) k v = Some (t, old)" "0 \<le> old"
    "trie_rep t ((\<lambda>k. M (sl, k))(k \<mapsto> v))"
    using ix.put_address [OF tries_okD(1) [OF assms(1,2)] tries_okD(2) [OF assms(1)] assms(3)] assms(5) by metis
  have "tries_ok (put_trie sl t db') (M((sl, k) \<mapsto> v))" if "tries db' = tries db" for db'
    using tries_ok_upd [OF _ assms(2) t(3)] tries_ok_cong [OF that] assms by simp
  then show thesis using that t(1,2) by blast
qed

lemma tries_del:
  assumes "tries_ok db M" "is_slot sl"
  obtains t where "etdb_trie_erase (tries db sl) k = Some (t, case M (sl, k) of None \<Rightarrow> -1 | Some v \<Rightarrow> v)"
    "\<And>db'. tries db' = tries db \<Longrightarrow> tries_ok (put_trie sl t db') (M((sl, k) := None))"
proof -
  obtain t where t: "etdb_trie_erase (tries db sl) k = Some (t, case M (sl, k) of None \<Rightarrow> -1 | Some v \<Rightarrow> v)"
    "trie_rep t ((\<lambda>k. M (sl, k))(k := None))"
    by (rule ix.del_address [OF tries_okD(1) [OF assms] tries_okD(2) [OF assms(1)]]) simp_all
  have "tries_ok (put_trie sl t db') (M((sl, k) := None))" if "tries db' = tries db" for db'
    using tries_ok_upd [OF _ assms(2) t(2)] tries_ok_cong [OF that] assms by simp
  then show thesis using that t(1) by blast
qed

section \<open>The heap\<close>

definition owner :: "int \<times> bytes \<Rightarrow> bool" where
  "owner x \<longleftrightarrow> hd (snd x) \<in> {ETDB_KV_HEAD, ETDB_HASH_HEAD, ETDB_SPATIAL_POINT_HEAD1}"

definition owned :: "places \<Rightarrow> addr set" where
  "owned M = {v. \<exists>x. M x = Some v \<and> owner x}"

definition heap_ok :: "dheap \<Rightarrow> places \<Rightarrow> (addr \<Rightarrow> bytes list option) \<Rightarrow> bool" where
  "heap_ok m M L \<longleftrightarrow> finite (live m) \<and> owned M \<subseteq> live m \<and> lists_at (m\<lparr>live := live m - owned M\<rparr>) L \<and>
     inj_on M {x \<in> dom M. owner x} \<and> inj_on M {x \<in> dom M. hd (snd x) = ETDB_LIST_HEAD} \<and>
     (\<forall>x v. M x = Some v \<and> hd (snd x) = ETDB_LIST_HEAD \<longrightarrow> (\<exists>s vs. L v = Some (s # vs)))"

lemma heap_okD:
  assumes "heap_ok m M L"
  shows "finite (live m)" "owned M \<subseteq> live m" "lists_at (m\<lparr>live := live m - owned M\<rparr>) L"
    "M x = Some v \<Longrightarrow> M y = Some v \<Longrightarrow> owner x \<Longrightarrow> owner y \<Longrightarrow> y = x"
    "M x = Some v \<Longrightarrow> M y = Some v \<Longrightarrow> hd (snd x) = ETDB_LIST_HEAD \<Longrightarrow> hd (snd y) = ETDB_LIST_HEAD \<Longrightarrow> y = x"
    "M x = Some v \<Longrightarrow> hd (snd x) = ETDB_LIST_HEAD \<Longrightarrow> \<exists>s vs. L v = Some (s # vs)"
proof -
  note H = assms [unfolded heap_ok_def]
  show "finite (live m)" "owned M \<subseteq> live m" "lists_at (m\<lparr>live := live m - owned M\<rparr>) L" using H by blast+
  have i: "inj_on M {x \<in> dom M. owner x}" "inj_on M {x \<in> dom M. hd (snd x) = ETDB_LIST_HEAD}" using H by blast+
  show "y = x" if "M x = Some v" "M y = Some v" "owner x" "owner y"
    by (rule inj_onD [OF i(1)]) (use that in auto)
  show "y = x" if "M x = Some v" "M y = Some v" "hd (snd x) = ETDB_LIST_HEAD" "hd (snd y) = ETDB_LIST_HEAD"
    by (rule inj_onD [OF i(2)]) (use that in auto)
  show "\<exists>s vs. L v = Some (s # vs)" if "M x = Some v" "hd (snd x) = ETDB_LIST_HEAD" using H that by blast
qed

lemma heap_okI:
  assumes "finite (live m)" "owned M \<subseteq> live m" "lists_at (m\<lparr>live := live m - owned M\<rparr>) L"
    "inj_on M {x \<in> dom M. owner x}" "inj_on M {x \<in> dom M. hd (snd x) = ETDB_LIST_HEAD}"
    "\<And>x v. M x = Some v \<Longrightarrow> hd (snd x) = ETDB_LIST_HEAD \<Longrightarrow> \<exists>s vs. L v = Some (s # vs)"
  shows "heap_ok m M L"
  unfolding heap_ok_def using assms by (intro conjI) blast+

lemma owner_live: "heap_ok m M L \<Longrightarrow> M x = Some v \<Longrightarrow> owner x \<Longrightarrow> v \<in> live m"
  using heap_okD(2) [of m M L] unfolding owned_def by blast

lemma lists_at_live:
  assumes "lists_at m L" "qnext m' = qnext m" "qprev m' = qprev m" "lsize m' = lsize m" "ldata m' = ldata m"
    "live m \<subseteq> live m'" "finite (live m')"
  shows "lists_at m' L"
proof -
  obtain R where R: "qheap m R" "cells R \<subseteq> live m" "L = map_option (map (node_bytes m)) \<circ> R"
    using assms(1) by (auto simp: lists_at_def)
  have "node_bytes m' = node_bytes m" using assms(4,5) by (simp add: fun_eq_iff node_bytes_def)
  then show ?thesis
    unfolding lists_at_def using R assms(6,7) qheap_links [OF assms(2,3)] by auto
qed

text \<open>A new value under an owning key; what the key named before is left allocated.\<close>

lemma heap_ok_new:
  assumes H: "heap_ok m M L" and a: "a \<notin> live m" and x: "owner x"
    and m': "live m' = insert a (live m)" "qnext m' = qnext m" "qprev m' = qprev m" "lsize m' = lsize m" "ldata m' = ldata m"
  shows "heap_ok m' (M(x \<mapsto> a)) L"
proof -
  note D = heap_okD [OF H]
  have ow: "owned (M(x \<mapsto> a)) \<subseteq> insert a (owned M)" "a \<in> owned (M(x \<mapsto> a))"
    using x unfolding owned_def by (auto split: if_splits) (metis fun_upd_same surj_pair)
  have na: "M y \<noteq> Some a" if "owner y" for y using owner_live [OF H] a that by blast
  have xl: "hd (snd x) \<noteq> ETDB_LIST_HEAD" using x by (auto simp: owner_def head_defs)
  have "lists_at (m'\<lparr>live := live m' - owned (M(x \<mapsto> a))\<rparr>) L"
    by (rule lists_at_live [OF D(3)]) (use m' ow a D(1) in auto)
  moreover have "inj_on (M(x \<mapsto> a)) {y \<in> dom (M(x \<mapsto> a)). owner y}"
    using D(4) na x by (auto simp: inj_on_def)
  moreover have "inj_on (M(x \<mapsto> a)) {y \<in> dom (M(x \<mapsto> a)). hd (snd y) = ETDB_LIST_HEAD}"
    using D(5) xl by (auto simp: inj_on_def)
  moreover have "\<exists>s vs. L v = Some (s # vs)" if "(M(x \<mapsto> a)) y = Some v" "hd (snd y) = ETDB_LIST_HEAD" for y v
    using D(6) [of y v] that xl by (auto split: if_splits)
  moreover have "owned (M(x \<mapsto> a)) \<subseteq> live m'" "finite (live m')" using m'(1) D(1,2) ow(1) by auto
  ultimately show ?thesis by (intro heap_okI)
qed

text \<open>An owning key and its value go.\<close>

lemma heap_ok_free:
  assumes H: "heap_ok m M L" and p: "M x = Some p" "owner x"
  shows "heap_ok (etdb_free p m) (M(x := None)) L"
proof -
  note D = heap_okD [OF H]
  have ow: "owned (M(x := None)) = owned M - {p}"
  proof (rule set_eqI)
    fix v
    have "y \<noteq> x \<longleftrightarrow> v \<noteq> p" if "M y = Some v" "owner y" for y
      using D(4) [of x p y] p that by auto
    then show "v \<in> owned (M(x := None)) \<longleftrightarrow> v \<in> owned M - {p}"
      unfolding owned_def mem_Collect_eq Diff_iff singleton_iff fun_upd_apply by (metis option.distinct(1))
  qed
  have "live m - {p} - owned (M(x := None)) = live m - owned M"
    unfolding ow using owner_live [OF H p] p unfolding owned_def by blast
  then have "lists_at ((etdb_free p m)\<lparr>live := live (etdb_free p m) - owned (M(x := None))\<rparr>) L"
    using D(3) by (simp add: etdb_free_def)
  moreover have "\<exists>s vs. L v = Some (s # vs)" if "(M(x := None)) y = Some v" "hd (snd y) = ETDB_LIST_HEAD" for y v
    using D(6) [of y v] that by (auto split: if_splits)
  moreover have "inj_on (M(x := None)) {y \<in> dom (M(x := None)). owner y}"
    "inj_on (M(x := None)) {y \<in> dom (M(x := None)). hd (snd y) = ETDB_LIST_HEAD}"
    using D(4,5) by (auto simp: inj_on_def split: if_splits)
  moreover have "owned (M(x := None)) \<subseteq> live (etdb_free p m)" "finite (live (etdb_free p m))"
    using D(1,2) ow by auto
  ultimately show ?thesis by (intro heap_okI)
qed

text \<open>Keys that own nothing and name no list.\<close>

lemma heap_ok_plain:
  assumes H: "heap_ok m M L" and x: "\<not> owner x" "hd (snd x) \<noteq> ETDB_LIST_HEAD"
  shows "heap_ok m (M(x := v)) L"
proof -
  note D = heap_okD [OF H]
  have "owned (M(x := v)) = owned M" using x(1) by (auto simp: owned_def split: if_splits)
  moreover have "\<exists>s vs. L w = Some (s # vs)" if "(M(x := v)) y = Some w" "hd (snd y) = ETDB_LIST_HEAD" for y w
    using D(6) [of y w] that x(2) by (auto split: if_splits)
  moreover have "inj_on (M(x := v)) {y \<in> dom (M(x := v)). owner y}"
    "inj_on (M(x := v)) {y \<in> dom (M(x := v)). hd (snd y) = ETDB_LIST_HEAD}"
    using D(4,5) x by (auto simp: inj_on_def split: if_splits)
  ultimately show ?thesis using D(1-3) by (intro heap_okI) simp_all
qed

section \<open>The view\<close>

record view =
  strs :: "int \<times> bytes \<Rightarrow> bytes option"
  mems :: "(int \<times> bytes) set"
  lsts :: "int \<times> bytes \<Rightarrow> bytes list option"
  pts :: "int \<times> bytes \<Rightarrow> sp_head option"

definition view_of :: "dheap \<Rightarrow> places \<Rightarrow> (addr \<Rightarrow> bytes list option) \<Rightarrow> view" where
  "view_of m M L = \<lparr>
     strs = (\<lambda>x. if hd (snd x) \<in> {ETDB_KV_HEAD, ETDB_HASH_HEAD} then map_option (value_bytes m) (M x) else None),
     mems = {x. M x \<noteq> None \<and> hd (snd x) = ETDB_SET_HEAD},
     lsts = (\<lambda>x. if hd (snd x) = ETDB_LIST_HEAD then Option.bind (M x) L else None),
     pts = (\<lambda>x. if hd (snd x) = ETDB_SPATIAL_POINT_HEAD1 then map_option (vsp m) (M x) else None)\<rparr>"

text \<open>
  The spatial index: one entry for each point, under its geohash of nine characters and its id.
\<close>

definition good_point :: "sp_head \<Rightarrow> bool" where
  "good_point h \<longleftrightarrow> \<not> bad_coords (lat_d h) (lon_d h) \<and>
     geo_hash_code h = etdb_geo_hash_encode (lat_d h) (lon_d h) (int ETDB_GEO_HASH_PRECISION_LEN)"

lemma good_length: "good_point h \<Longrightarrow> length (geo_hash_code h) = 9"
  using encode_shape(1) [of 9 "lat_d h" "lon_d h"]
  by (simp add: good_point_def bad_coords_def ETDB_GEO_HASH_PRECISION_LEN_def)

definition point_code :: "dheap \<Rightarrow> addr \<Rightarrow> bytes \<Rightarrow> bool" where
  "point_code m p r \<longleftrightarrow> take 9 r = geo_hash_code (vsp m p)"

definition idx_ok :: "dheap \<Rightarrow> places \<Rightarrow> bool" where
  "idx_ok m M \<longleftrightarrow>
     (\<forall>sl r p. M (sl, ETDB_SPATIAL_POINT_HEAD2 # r) = Some p \<longleftrightarrow>
        M (sl, ETDB_SPATIAL_POINT_HEAD1 # drop 9 r) = Some p \<and> point_code m p r) \<and>
     (\<forall>sl r p. M (sl, ETDB_SPATIAL_POINT_HEAD1 # r) = Some p \<longrightarrow> good_point (vsp m p))"

lemma idx_ok_other:
  assumes "idx_ok m M" "vsp m' = vsp m" "hd (snd x) \<notin> {ETDB_SPATIAL_POINT_HEAD1, ETDB_SPATIAL_POINT_HEAD2}"
  shows "idx_ok m' (M(x := v))"
proof -
  have "(M(x := v)) (sl, h # r) = M (sl, h # r)" if "h \<in> {ETDB_SPATIAL_POINT_HEAD1, ETDB_SPATIAL_POINT_HEAD2}" for sl h r
    using assms(3) that by auto
  then show ?thesis using assms(1,2) by (simp add: idx_ok_def point_code_def)
qed

definition db_rep :: "etdb_database \<Rightarrow> view \<Rightarrow> bool" where
  "db_rep db V \<longleftrightarrow> (\<exists>M L. tries_ok db M \<and> heap_ok (heap db) M L \<and> idx_ok (heap db) M \<and> V = view_of (heap db) M L)"

lemma db_repE:
  assumes "db_rep db V"
  obtains M L where "tries_ok db M" "heap_ok (heap db) M L" "V = view_of (heap db) M L" "idx_ok (heap db) M"
  using assms by (auto simp: db_rep_def)

text \<open>The view after a change at one string key.\<close>

lemma view_string_new:
  assumes H: "heap_ok m M L" and x: "hd (snd x) \<in> {ETDB_KV_HEAD, ETDB_HASH_HEAD}" and a: "a \<notin> live m"
    and m': "\<And>b. b \<noteq> a \<Longrightarrow> value_bytes m' b = value_bytes m b" "value_bytes m' a = s" "vsp m' = vsp m"
  shows "view_of m' (M(x \<mapsto> a)) L = (view_of m M L)\<lparr>strs := (strs (view_of m M L))(x \<mapsto> s)\<rparr>"
proof -
  have na: "v \<noteq> a" if "M y = Some v" "owner y" for y v using owner_live [OF H that] a by blast
  have "(if hd (snd y) \<in> {ETDB_KV_HEAD, ETDB_HASH_HEAD} then map_option (value_bytes m') ((M(x \<mapsto> a)) y) else None) =
      ((\<lambda>y. if hd (snd y) \<in> {ETDB_KV_HEAD, ETDB_HASH_HEAD} then map_option (value_bytes m) (M y) else None)(x \<mapsto> s)) y" for y
    using x m'(1,2) na [of y] by (cases "M y") (auto simp: owner_def)
  moreover have "hd (snd x) \<noteq> ETDB_SET_HEAD" "hd (snd x) \<noteq> ETDB_LIST_HEAD" "hd (snd x) \<noteq> ETDB_SPATIAL_POINT_HEAD1"
    using x by (auto simp: head_defs)
  ultimately show ?thesis
    by (auto simp: view_of_def fun_eq_iff m'(3))
qed

lemma view_string_del:
  assumes x: "hd (snd x) \<in> {ETDB_KV_HEAD, ETDB_HASH_HEAD}" and m': "value_bytes m' = value_bytes m" "vsp m' = vsp m"
  shows "view_of m' (M(x := None)) L = (view_of m M L)\<lparr>strs := (strs (view_of m M L))(x := None)\<rparr>"
proof -
  have "hd (snd x) \<noteq> ETDB_SET_HEAD" "hd (snd x) \<noteq> ETDB_LIST_HEAD" "hd (snd x) \<noteq> ETDB_SPATIAL_POINT_HEAD1"
    using x by (auto simp: head_defs)
  then show ?thesis by (auto simp: view_of_def fun_eq_iff m')
qed

section \<open>Strings\<close>

text \<open>What setting, reading and deleting have in common for keys and for the fields of hashes.\<close>

text \<open>
  The size of a value has 24 bits: of a value of 2^24 bytes or more, readers see the first
  \<open>length mod 2 ^ 24\<close> bytes.
\<close>

definition stored :: "bytes \<Rightarrow> bytes" where
  "stored value = take (length value mod 2 ^ 24) value"

lemma stored_small [simp]: "length value < 2 ^ 24 \<Longrightarrow> stored value = value"
  by (simp add: stored_def)

lemma new_value_spec:
  assumes "heap_ok (heap db) M L" "fresh_alloc alloc" "new_value alloc ty value db = (db', a)"
  shows "a \<notin> live (heap db)" "0 < a" "tries db' = tries db" "live (heap db') = insert a (live (heap db))"
    "qnext (heap db') = qnext (heap db)" "qprev (heap db') = qprev (heap db)" "lsize (heap db') = lsize (heap db)"
    "ldata (heap db') = ldata (heap db)" "vsp (heap db') = vsp (heap db)"
    "b \<noteq> a \<Longrightarrow> value_bytes (heap db') b = value_bytes (heap db) b" "value_bytes (heap db') a = stored value"
proof -
  have db': "a = alloc (live (heap db))" "db' = put_heap ((heap db)\<lparr>live := insert a (live (heap db)),
      vhead := (vhead (heap db))(a := \<lparr>vtype = ty, vsize = of_nat (length value)\<rparr>), vbody := (vbody (heap db))(a := value)\<rparr>) db"
    using assms(3) by (auto simp: new_value_def etdb_alloc_def Let_def)
  show "a \<notin> live (heap db)" "0 < a" using assms(1,2) by (auto simp: db'(1) fresh_alloc_def heap_ok_def)
  have "unat (of_nat (length value) :: 24 word) = length value mod 2 ^ 24"
    by (simp add: unat_of_nat take_bit_eq_mod)
  then show "value_bytes (heap db') a = stored value" by (simp add: db'(2) value_bytes_def stored_def)
  show "tries db' = tries db" "live (heap db') = insert a (live (heap db))"
    "qnext (heap db') = qnext (heap db)" "qprev (heap db') = qprev (heap db)" "lsize (heap db') = lsize (heap db)"
    "ldata (heap db') = ldata (heap db)" "vsp (heap db') = vsp (heap db)"
    "b \<noteq> a \<Longrightarrow> value_bytes (heap db') b = value_bytes (heap db) b"
    by (simp_all add: db'(2) value_bytes_def)
qed

lemma string_set:
  assumes R: "db_rep db V" and sl: "is_slot sl" and k: "k \<noteq> []" "hd k \<in> {ETDB_KV_HEAD, ETDB_HASH_HEAD}"
    and al: "fresh_alloc alloc" and nv: "new_value alloc ty value db = (db1, a)"
  obtains t old where "etdb_trie_update (tries db sl) k a = Some (t, old)" "0 \<le> old"
    "db_rep (put_trie sl t db1) (V\<lparr>strs := (strs V)((sl, k) \<mapsto> stored value)\<rparr>)" "tries db1 = tries db"
proof -
  obtain M L where W: "tries_ok db M" "heap_ok (heap db) M L" "V = view_of (heap db) M L" "idx_ok (heap db) M" by (rule db_repE [OF R])
  note N = new_value_spec [OF W(2) al nv]
  have kh: "hd k \<in> key_heads" using k(2) by (auto simp: key_heads_def)
  obtain t old where t: "etdb_trie_update (tries db sl) k a = Some (t, old)" "0 \<le> old"
    "\<And>db'. tries db' = tries db \<Longrightarrow> tries_ok (put_trie sl t db') (M((sl, k) \<mapsto> a))"
    by (rule tries_put [OF W(1) sl k(1) kh N(2)]) blast
  have "heap_ok (heap db1) (M((sl, k) \<mapsto> a)) L"
    by (rule heap_ok_new [OF W(2) N(1) _ N(4-8)]) (use k(2) in \<open>auto simp: owner_def\<close>)
  moreover have "view_of (heap db1) (M((sl, k) \<mapsto> a)) L = V\<lparr>strs := (strs V)((sl, k) \<mapsto> stored value)\<rparr>"
    unfolding W(3) by (rule view_string_new [OF W(2) _ N(1) N(10) N(11) N(9)]) (use k(2) in simp)
  moreover have "idx_ok (heap db1) (M((sl, k) \<mapsto> a))"
    by (rule idx_ok_other [OF W(4) N(9)]) (use k(2) in \<open>auto simp: head_defs\<close>)
  ultimately have "db_rep (put_trie sl t db1) (V\<lparr>strs := (strs V)((sl, k) \<mapsto> stored value)\<rparr>)"
    unfolding db_rep_def using t(3) [OF N(3)] by (intro exI [of _ "M((sl, k) \<mapsto> a)"] exI [of _ L]) simp
  then show thesis using that t(1,2) N(3) by blast
qed

lemma string_get:
  assumes R: "db_rep db V" and sl: "is_slot sl" and k: "hd k \<in> {ETDB_KV_HEAD, ETDB_HASH_HEAD}"
  shows "(let p = etdb_trie_exact_match_search (tries db sl) k in if p < 0 then (-1, []) else (0, value_bytes (heap db) p)) =
    (case strs V (sl, k) of None \<Rightarrow> (-1 :: int, []) | Some s \<Rightarrow> (0, s))"
proof -
  obtain M L where W: "tries_ok db M" "heap_ok (heap db) M L" "V = view_of (heap db) M L" "idx_ok (heap db) M" by (rule db_repE [OF R])
  note G = tries_get [OF W(1) sl, of k]
  show ?thesis using G k by (cases "M (sl, k)") (simp_all add: W(3) view_of_def Let_def)
qed

lemma string_del:
  assumes R: "db_rep db V" and sl: "is_slot sl" and k: "hd k \<in> {ETDB_KV_HEAD, ETDB_HASH_HEAD}"
  shows "\<exists>db'. map_option (\<lambda>(t, p). if p < 0 then (-1 :: int, put_trie sl t db) else (0, free_value p (put_trie sl t db)))
      (etdb_trie_erase (tries db sl) k) = Some (if strs V (sl, k) = None then -1 else 0, db') \<and>
    db_rep db' (V\<lparr>strs := (strs V)((sl, k) := None)\<rparr>)"
proof -
  obtain M L where W: "tries_ok db M" "heap_ok (heap db) M L" "V = view_of (heap db) M L" "idx_ok (heap db) M" by (rule db_repE [OF R])
  obtain t where t: "etdb_trie_erase (tries db sl) k = Some (t, case M (sl, k) of None \<Rightarrow> -1 | Some v \<Rightarrow> v)"
    "\<And>db'. tries db' = tries db \<Longrightarrow> tries_ok (put_trie sl t db') (M((sl, k) := None))"
    by (rule tries_del [OF W(1) sl, of k]) blast
  have ow: "owner (sl, k)" using k by (auto simp: owner_def)
  show ?thesis
  proof (cases "M (sl, k)")
    case None
    have "M((sl, k) := None) = M" using None by auto
    then have "tries_ok (put_trie sl t db) M" using t(2) [of db] by simp
    then have "db_rep (put_trie sl t db) V" unfolding db_rep_def using W(2,3,4) by auto
    moreover have "strs V (sl, k) = None" using None by (simp add: W(3) view_of_def)
    moreover from this have "(strs V)((sl, k) := None) = strs V" by auto
    ultimately show ?thesis using t(1) None by simp
  next
    case (Some p)
    have p: "0 < p" using tries_okD(3) [OF W(1) Some] by simp
    let ?db = "free_value p (put_trie sl t db)"
    have "tries ?db = tries (put_trie sl t db)" by (simp add: free_value_def)
    then have T: "tries_ok ?db (M((sl, k) := None))" using t(2) [of db] tries_ok_cong by blast
    have hp: "heap ?db = etdb_free p (heap db)" by (simp add: free_value_def)
    have "value_bytes (etdb_free p (heap db)) = value_bytes (heap db)" "vsp (etdb_free p (heap db)) = vsp (heap db)"
      by (simp_all add: etdb_free_def value_bytes_def fun_eq_iff)
    note v = view_string_del [of "(sl, k)", OF _ this]
    have "idx_ok (etdb_free p (heap db)) (M((sl, k) := None))"
      by (rule idx_ok_other [OF W(4)]) (use k in \<open>auto simp: head_defs etdb_free_def\<close>)
    then have "db_rep ?db (V\<lparr>strs := (strs V)((sl, k) := None)\<rparr>)"
      unfolding db_rep_def W(3) hp using T heap_ok_free [OF W(2) Some ow] v [of M L] k
      by (intro exI [of _ "M((sl, k) := None)"] exI [of _ L]) simp
    moreover have "strs V (sl, k) \<noteq> None" using Some k by (simp add: W(3) view_of_def)
    ultimately show ?thesis using t(1) Some p by simp
  qed
qed

section \<open>Members of sets\<close>

lemma member_update:
  assumes T: "tries_ok db' (M(x := v))" and H: "heap_ok (heap db) M L" and I: "idx_ok (heap db) M" and x: "hd (snd x) = ETDB_SET_HEAD" and h: "heap db' = heap db"
  shows "db_rep db' ((view_of (heap db) M L)\<lparr>mems :=
    (if v = None then mems (view_of (heap db) M L) - {x} else insert x (mems (view_of (heap db) M L)))\<rparr>)"
proof -
  have n: "hd (snd x) \<notin> {ETDB_KV_HEAD, ETDB_HASH_HEAD, ETDB_LIST_HEAD, ETDB_SPATIAL_POINT_HEAD1}" using x by (simp add: head_defs)
  have "heap_ok (heap db) (M(x := v)) L" by (rule heap_ok_plain [OF H]) (use n in \<open>auto simp: owner_def\<close>)
  moreover have "view_of (heap db) (M(x := v)) L = (view_of (heap db) M L)\<lparr>mems :=
    (if v = None then mems (view_of (heap db) M L) - {x} else insert x (mems (view_of (heap db) M L)))\<rparr>"
    using x n by (auto simp: view_of_def fun_eq_iff)
  moreover have "idx_ok (heap db) (M(x := v))" by (rule idx_ok_other [OF I refl]) (simp add: x head_defs)
  ultimately show ?thesis unfolding db_rep_def using T h by metis
qed

lemma encode_head_simps [simp]:
  "encode_kv_head k = ETDB_KV_HEAD # k" "encode_hash_head n k = ETDB_HASH_HEAD # of_nat (length n) # k"
  "encode_set_head n k = ETDB_SET_HEAD # of_nat (length n) # k" "encode_list_head k = ETDB_LIST_HEAD # k"
  by (simp_all add: encode_kv_head_def encode_hash_head_def encode_set_head_def encode_list_head_def)

lemma set_add_rep:
  assumes R: "db_rep db V" and sl: "is_slot sl"
  shows "\<exists>db'. etdb_database_set_add sl name k db = Some (0, db') \<and>
    db_rep db' (V\<lparr>mems := insert (sl, encode_set_head name k) (mems V)\<rparr>)"
proof -
  let ?k = "encode_set_head name k"
  obtain M L where W: "tries_ok db M" "heap_ok (heap db) M L" "V = view_of (heap db) M L" "idx_ok (heap db) M" by (rule db_repE [OF R])
  have "hd ?k \<in> key_heads" by (simp add: key_heads_def)
  then obtain t old where t: "etdb_trie_update (tries db sl) ?k 1 = Some (t, old)" "0 \<le> old"
    "\<And>db'. tries db' = tries db \<Longrightarrow> tries_ok (put_trie sl t db') (M((sl, ?k) \<mapsto> 1))"
    using tries_put [OF W(1) sl, of ?k 1] by (metis encode_head_simps(3) list.distinct(1) zero_less_one)
  have "db_rep (put_trie sl t db) (V\<lparr>mems := insert (sl, ?k) (mems V)\<rparr>)"
    using member_update [OF t(3) [OF refl] W(2,4)] W(3) by simp
  then show ?thesis using t(1,2) by (simp add: etdb_database_set_add_def)
qed

lemma set_del_rep:
  assumes R: "db_rep db V" and sl: "is_slot sl"
  shows "\<exists>db'. etdb_database_set_del sl name k db =
      Some (if (sl, encode_set_head name k) \<in> mems V then 0 else -1, db') \<and>
    db_rep db' (V\<lparr>mems := mems V - {(sl, encode_set_head name k)}\<rparr>)"
proof -
  let ?k = "encode_set_head name k"
  obtain M L where W: "tries_ok db M" "heap_ok (heap db) M L" "V = view_of (heap db) M L" "idx_ok (heap db) M" by (rule db_repE [OF R])
  obtain t where t: "etdb_trie_erase (tries db sl) ?k = Some (t, case M (sl, ?k) of None \<Rightarrow> -1 | Some v \<Rightarrow> v)"
    "\<And>db'. tries db' = tries db \<Longrightarrow> tries_ok (put_trie sl t db') (M((sl, ?k) := None))"
    by (rule tries_del [OF W(1) sl, of ?k]) blast
  have "db_rep (put_trie sl t db) (V\<lparr>mems := mems V - {(sl, ?k)}\<rparr>)"
    using member_update [OF t(2) [OF refl] W(2,4)] W(3) by simp
  moreover have "(sl, ?k) \<in> mems V \<longleftrightarrow> M (sl, ?k) \<noteq> None" by (simp add: W(3) view_of_def)
  moreover have "M (sl, ?k) = Some v \<Longrightarrow> 0 < v" for v using tries_okD(3) [OF W(1), of sl ?k v] by simp
  ultimately show ?thesis using t(1)
    by (cases "M (sl, ?k)") (fastforce simp: etdb_database_set_del_def)+
qed

lemma set_ismember_rep:
  assumes R: "db_rep db V" and sl: "is_slot sl"
  shows "etdb_database_set_ismember sl name k db = (if (sl, encode_set_head name k) \<in> mems V then 1 else 0)"
proof -
  obtain M L where W: "tries_ok db M" "heap_ok (heap db) M L" "V = view_of (heap db) M L" "idx_ok (heap db) M" by (rule db_repE [OF R])
  show ?thesis using tries_get(2) [OF W(1) sl, of "encode_set_head name k"]
    by (simp add: etdb_database_set_ismember_def Let_def W(3) view_of_def)
qed

lemma set_members_rep:
  assumes R: "db_rep db V" and sl: "is_slot sl"
  shows "\<exists>kws. etdb_database_set_members sl name db = Some (0, kws) \<and> distinct kws \<and>
    set kws = {k. k \<noteq> [] \<and> 0 \<notin> set k \<and> (sl, encode_set_head name k) \<in> mems V}"
proof -
  let ?k = "encode_set_head name []"
  obtain M L where W: "tries_ok db M" "heap_ok (heap db) M L" "V = view_of (heap db) M L" "idx_ok (heap db) M" by (rule db_repE [OF R])
  have "v \<noteq> ETDB_TRIE_NO_PATH \<and> v \<noteq> ETDB_TRIE_NO_VALUE" if "M (sl, key) = Some v" for key v
    using tries_okD(3) [OF W(1) that] by (simp add: ETDB_TRIE_NO_PATH_def ETDB_TRIE_NO_VALUE_def)
  then obtain code kws where P: "etdb_trie_common_prefix_path_search (tries db sl) ?k [] [] =
      Some (code, [] @ entries (\<lambda>k. M (sl, k)) ?k [] kws)" "listed (\<lambda>k. M (sl, k)) ?k UNIV kws"
    using path_search_run [OF tries_okD(1) [OF W(1) sl], of ?k "[]" "[]"] by blast
  have "map fst (entries (\<lambda>k. M (sl, k)) ?k [] kws) = kws" by (simp add: entries_def comp_def)
  moreover have "below (\<lambda>k. M (sl, k)) ?k UNIV = {k. k \<noteq> [] \<and> 0 \<notin> set k \<and> (sl, encode_set_head name k) \<in> mems V}"
    by (auto simp: below_def W(3) view_of_def neq_Nil_conv)
  ultimately show ?thesis using P by (auto simp: etdb_database_set_members_def listed_def)
qed

section \<open>A new database\<close>

definition empty_view :: view where
  "empty_view = \<lparr>strs = Map.empty, mems = {}, lsts = Map.empty, pts = Map.empty\<rparr>"

lemma init_slots_spec: "init_slots c n ts i = (if int c \<le> i \<and> i < int (c + n) then etdb_trie_init (ts i) else ts i)"
  by (induction n arbitrary: c ts) auto

lemma init_db_rep:
  assumes "live (heap raw) = {}"
  shows "db_rep (snd (etdb_database_init None raw)) empty_view"
proof -
  let ?db = "snd (etdb_database_init None raw)"
  have "trie_rep (tries ?db sl) Map.empty" if "is_slot sl" for sl
    using that init_rep by (simp add: etdb_database_init_def init_slots_spec is_slot_def)
  then have "tries_ok ?db Map.empty" by (simp add: tries_ok_def)
  moreover have "lists_at ((heap raw)\<lparr>live := {}\<rparr>) Map.empty"
    unfolding lists_at_def by (auto intro!: exI [of _ Map.empty] simp: cells_def)
  then have "heap_ok (heap ?db) Map.empty Map.empty"
    using assms by (intro heap_okI) (simp_all add: etdb_database_init_def owned_def)
  moreover have "idx_ok (heap ?db) Map.empty" by (simp add: idx_ok_def)
  moreover have "view_of (heap ?db) Map.empty Map.empty = empty_view"
    by (auto simp: view_of_def empty_view_def fun_eq_iff)
  ultimately show ?thesis unfolding db_rep_def by metis
qed

definition empty_heap :: dheap where
  "empty_heap = \<lparr>qprev = \<lambda>_. 0, qnext = \<lambda>_. 0, live = {}, lsize = \<lambda>_. 0, ldata = \<lambda>_. [],
     vhead = undefined, vbody = undefined, vsp = undefined\<rparr>"

definition new_db :: etdb_database where
  "new_db = snd (etdb_database_init None \<lparr>tries = undefined, heap = empty_heap\<rparr>)"

lemma new_db: "db_rep new_db empty_view"
  unfolding new_db_def by (rule init_db_rep) (simp add: empty_heap_def)

section \<open>Keys\<close>

lemma kv_set_rep:
  assumes "db_rep db V" "is_slot sl" "fresh_alloc alloc"
  shows "\<exists>db'. etdb_database_kv_set alloc sl key value db = Some (0, db') \<and>
    db_rep db' (V\<lparr>strs := (strs V)((sl, encode_kv_head key) \<mapsto> stored value)\<rparr>)"
proof -
  obtain db1 a where e: "new_value alloc TYPE_KV value db = (db1, a)" by fastforce
  obtain t old where "etdb_trie_update (tries db sl) (encode_kv_head key) a = Some (t, old)" "0 \<le> old"
    "db_rep (put_trie sl t db1) (V\<lparr>strs := (strs V)((sl, encode_kv_head key) \<mapsto> stored value)\<rparr>)" "tries db1 = tries db"
    by (rule string_set [OF assms(1,2) _ _ assms(3) e, of "encode_kv_head key"]) simp_all
  then show ?thesis using e by (auto simp: etdb_database_kv_set_def)
qed

lemma hash_set_rep:
  assumes "db_rep db V" "is_slot sl" "fresh_alloc alloc"
  shows "\<exists>db'. etdb_database_hash_set alloc sl name key value db = Some (0, db') \<and>
    db_rep db' (V\<lparr>strs := (strs V)((sl, encode_hash_head name key) \<mapsto> stored value)\<rparr>)"
proof -
  obtain db1 a where e: "new_value alloc TYPE_HASH value db = (db1, a)" by fastforce
  obtain t old where "etdb_trie_update (tries db sl) (encode_hash_head name key) a = Some (t, old)" "0 \<le> old"
    "db_rep (put_trie sl t db1) (V\<lparr>strs := (strs V)((sl, encode_hash_head name key) \<mapsto> stored value)\<rparr>)" "tries db1 = tries db"
    by (rule string_set [OF assms(1,2) _ _ assms(3) e, of "encode_hash_head name key"]) simp_all
  then show ?thesis using e by (auto simp: etdb_database_hash_set_def)
qed

lemma kv_del_rep:
  assumes "db_rep db V" "is_slot sl"
  shows "\<exists>db'. etdb_database_kv_del sl key db =
      Some (if strs V (sl, encode_kv_head key) = None then -1 else 0, db') \<and>
    db_rep db' (V\<lparr>strs := (strs V)((sl, encode_kv_head key) := None)\<rparr>)"
  using string_del [OF assms, of "encode_kv_head key"] by (simp add: etdb_database_kv_del_def)

lemma hash_del_rep:
  assumes "db_rep db V" "is_slot sl"
  shows "\<exists>db'. etdb_database_hash_del sl name key db =
      Some (if strs V (sl, encode_hash_head name key) = None then -1 else 0, db') \<and>
    db_rep db' (V\<lparr>strs := (strs V)((sl, encode_hash_head name key) := None)\<rparr>)"
  using string_del [OF assms, of "encode_hash_head name key"] by (simp add: etdb_database_hash_del_def)

lemma kv_get_rep:
  assumes "db_rep db V" "is_slot sl"
  shows "etdb_database_kv_get sl key db = (case strs V (sl, encode_kv_head key) of None \<Rightarrow> (-1, []) | Some s \<Rightarrow> (0, s))"
  using string_get [OF assms, of "encode_kv_head key"] by (simp add: etdb_database_kv_get_def)

lemma hash_get_rep:
  assumes "db_rep db V" "is_slot sl"
  shows "etdb_database_hash_get sl name key db =
    (case strs V (sl, encode_hash_head name key) of None \<Rightarrow> (-1, []) | Some s \<Rightarrow> (0, s))"
  using string_get [OF assms, of "encode_hash_head name key"] by (simp add: etdb_database_hash_get_def)

text \<open>The longest prefix that is a key.\<close>

definition longest_key :: "(bytes \<Rightarrow> bytes option) \<Rightarrow> bytes \<Rightarrow> int \<times> nat option \<times> bytes \<Rightarrow> bool" where
  "longest_key m key r \<longleftrightarrow> (case r of (code, len, value) \<Rightarrow>
     if list_all (\<lambda>i. m (take i key) = None) [0..<length key + 1] then code = -1 \<and> len = None
     else code = 0 \<and> (\<exists>n. len = Some n \<and> n \<le> length key \<and> m (take n key) = Some value \<and>
       list_all (\<lambda>i. m (take i key) = None) [n + 1..<length key + 1]))"

lemma kv_longest_rep:
  assumes R: "db_rep db V" and sl: "is_slot sl"
  shows "longest_key (\<lambda>k. strs V (sl, encode_kv_head k)) key (etdb_database_kv_match_longest sl key db)"
proof -
  obtain M L where W: "tries_ok db M" "heap_ok (heap db) M L" "V = view_of (heap db) M L" "idx_ok (heap db) M" by (rule db_repE [OF R])
  let ?m = "\<lambda>k. M (sl, k)" and ?k = "encode_kv_head key"
  obtain p n where e: "etdb_trie_match_longest_search (tries db sl) ?k = (p, n)" by fastforce
  have L: "is_longest ?m ?k (p, n)" using match_longest_spec [OF tries_okD(1) [OF W(1) sl], of ?k] e by simp
  have s: "strs V (sl, ETDB_KV_HEAD # k) = map_option (value_bytes (heap db)) (?m (ETDB_KV_HEAD # k))" for k
    by (simp add: W(3) view_of_def)
  have m0: "?m [] = None" using tries_okD(3) [OF W(1), of sl "[]"] by (cases "?m []") auto
  show ?thesis
  proof (cases n)
    case None
    then have "?m (take i ?k) = None" if "i < length ?k + 1" for i using L that None by (auto simp: is_longest_def list_all_iff simp del: upt_Suc)
    from this [of "Suc _"] have "?m (ETDB_KV_HEAD # take i key) = None" if "i < length key + 1" for i using that by simp
    then have "list_all (\<lambda>i. strs V (sl, encode_kv_head (take i key)) = None) [0..<length key + 1]"
      by (simp add: s list_all_iff del: upt_Suc)
    moreover have "p < 0" using L None by (simp add: is_longest_def ETDB_TRIE_NO_PATH_def)
    ultimately show ?thesis using None e by (simp add: etdb_database_kv_match_longest_def longest_key_def)
  next
    case (Some j)
    then have j: "j \<le> length ?k" "?m (take j ?k) = Some p" "list_all (\<lambda>i. ?m (take i ?k) = None) [j + 1..<length ?k + 1]"
      using L by (simp_all add: is_longest_def)
    then obtain i where i: "j = Suc i" "i \<le> length key" using m0 by (cases j) auto
    have p: "0 < p" "?m (ETDB_KV_HEAD # take i key) = Some p" using tries_okD(3) [OF W(1) j(2)] j(2) i by simp_all
    have "?m (take (Suc i') ?k) = None" if "i < i'" "i' < length key + 1" for i'
      using j(3) that i by (simp add: list_all_iff del: take_Suc_Cons upt_Suc)
    then have "list_all (\<lambda>i. strs V (sl, encode_kv_head (take i key)) = None) [i + 1..<length key + 1]"
      by (simp add: s list_all_iff del: upt_Suc)
    moreover have "\<not> list_all (\<lambda>i. strs V (sl, encode_kv_head (take i key)) = None) [0..<length key + 1]"
      using p(2) i(2) by (auto simp: s list_all_iff simp del: upt_Suc intro!: bexI [of _ i])
    ultimately show ?thesis using Some e p i by (auto simp: etdb_database_kv_match_longest_def longest_key_def s simp del: upt_Suc)
  qed
qed

section \<open>Properties\<close>

text \<open>
  C3: setting, reading and deleting a key always return, and do to the database what they do to a
  map of keys to values: nothing else in any slot changes, whatever the tries and the heap hold. A
  deletion of a key that is not there is answered by -1. The value that a key has after it was set
  is \<open>stored value\<close>: the value itself below 2^24 bytes, and a prefix of it, shorter by a
  multiple of 2^24, for the longer values that the parser of requests admits.
\<close>

theorem etdb_database_kv_refines:
  assumes "db_rep db V" "is_slot sl" "fresh_alloc alloc"
  shows "(\<exists>db'. etdb_database_kv_set alloc sl key value db = Some (0, db') \<and>
      db_rep db' (V\<lparr>strs := (strs V)((sl, encode_kv_head key) \<mapsto> stored value)\<rparr>)) \<and>
    (\<exists>db'. etdb_database_kv_del sl key db = Some (if strs V (sl, encode_kv_head key) = None then -1 else 0, db') \<and>
      db_rep db' (V\<lparr>strs := (strs V)((sl, encode_kv_head key) := None)\<rparr>)) \<and>
    etdb_database_kv_get sl key db = (case strs V (sl, encode_kv_head key) of None \<Rightarrow> (-1, []) | Some s \<Rightarrow> (0, s)) \<and>
    stored value = take (length value mod 2 ^ 24) value"
  by (intro conjI kv_set_rep kv_del_rep kv_get_rep assms stored_def)

theorem etdb_database_kv_refines_witness:
  "\<exists>db'. etdb_database_kv_set example_alloc 3 [107] [1, 0, 255] new_db = Some (0, db') \<and>
     db_rep db' (empty_view\<lparr>strs := (strs empty_view)((3, encode_kv_head [107]) \<mapsto> [1, 0, 255])\<rparr>)"
  using etdb_database_kv_refines [OF new_db _ example_alloc, of 3 "[107]" "[1, 0, 255]"]
  by (simp add: is_slot_def ETDB_DATABASE_MAX_SLOT_def)

text \<open>
  C14: \<open>etdb_database_kv_match_longest\<close> finds the longest prefix of its argument that is a key, with
  its length and value, or answers -1 when no prefix is one.
\<close>

theorem etdb_database_kv_match_longest_prefix:
  assumes "db_rep db V" "is_slot sl"
  shows "longest_key (\<lambda>k. strs V (sl, encode_kv_head k)) key (etdb_database_kv_match_longest sl key db)"
  by (rule kv_longest_rep [OF assms])

theorem etdb_database_kv_match_longest_prefix_witness:
  "etdb_database_kv_match_longest 0 [107, 1] new_db = (-1, None, snd (snd (etdb_database_kv_match_longest 0 [107, 1] new_db)))"
  using etdb_database_kv_match_longest_prefix [OF new_db, of 0 "[107, 1]"]
  by (auto simp: is_slot_def ETDB_DATABASE_MAX_SLOT_def longest_key_def empty_view_def split: prod.splits)

text \<open>
  C13: the name of a hash is not part of the stored key, only its length is: after a field is set in
  one hash, the same field of every hash whose name is as long (modulo 256) reads the new value.
\<close>

theorem etdb_database_hash_names_collide:
  assumes "db_rep db V" "is_slot sl" "fresh_alloc alloc" "length value < 2 ^ 24"
    "length other mod 256 = length name mod 256"
  shows "\<exists>db'. etdb_database_hash_set alloc sl name key value db = Some (0, db') \<and>
    etdb_database_hash_get sl other key db' = (0, value)"
proof -
  obtain db' where db': "etdb_database_hash_set alloc sl name key value db = Some (0, db')"
    "db_rep db' (V\<lparr>strs := (strs V)((sl, encode_hash_head name key) \<mapsto> value)\<rparr>)"
    using hash_set_rep [OF assms(1-3), of name key "value"] assms(4) by auto
  have "encode_hash_head other key = encode_hash_head name key"
    using assms(5) by (simp add: word_of_nat_eq_iff take_bit_eq_mod)
  then show ?thesis using db'(1) hash_get_rep [OF db'(2) assms(2), of other key] by simp
qed

theorem etdb_database_hash_names_collide_witness:
  "\<exists>db'. etdb_database_hash_set example_alloc 0 [97, 97] [1] [7] new_db = Some (0, db') \<and>
     etdb_database_hash_get 0 [98, 98] [1] db' = (0, [7])"
  using etdb_database_hash_names_collide [OF new_db _ example_alloc, of 0 "[7]" "[98, 98]" "[97, 97]" "[1]"]
  by (simp add: is_slot_def ETDB_DATABASE_MAX_SLOT_def)

text \<open>
  C12: sets: adding and deleting a member return and change the set of members alone, membership is
  answered by 1 and 0, and \<open>etdb_database_set_members\<close> ends and lists each member that is not
  empty and has no byte 0 exactly once. The sets are those of the code: a member is known by
  the length of the set's name modulo 256 and the member, so that two sets are one and the same set
  when their names are equally long; adding a member to one adds it to the other.
\<close>

theorem etdb_database_set_refines:
  assumes "db_rep db V" "is_slot sl"
  shows "(\<exists>db'. etdb_database_set_add sl name key db = Some (0, db') \<and>
      db_rep db' (V\<lparr>mems := insert (sl, encode_set_head name key) (mems V)\<rparr>) \<and>
      (\<forall>other k. etdb_database_set_ismember sl other k db' =
         (if length other mod 256 = length name mod 256 \<and> k = key then 1 else etdb_database_set_ismember sl other k db))) \<and>
    (\<exists>db'. etdb_database_set_del sl name key db = Some (if (sl, encode_set_head name key) \<in> mems V then 0 else -1, db') \<and>
      db_rep db' (V\<lparr>mems := mems V - {(sl, encode_set_head name key)}\<rparr>) \<and>
      (\<forall>other k. etdb_database_set_ismember sl other k db' =
         (if length other mod 256 = length name mod 256 \<and> k = key then 0 else etdb_database_set_ismember sl other k db))) \<and>
    etdb_database_set_ismember sl name key db = (if (sl, encode_set_head name key) \<in> mems V then 1 else 0) \<and>
    (\<exists>kws. etdb_database_set_members sl name db = Some (0, kws) \<and> distinct kws \<and>
      set kws = {k. k \<noteq> [] \<and> 0 \<notin> set k \<and> etdb_database_set_ismember sl name k db = 1})"
proof -
  have n: "encode_set_head other k = encode_set_head name key \<longleftrightarrow> length other mod 256 = length name mod 256 \<and> k = key"
    for other k by (simp add: word_of_nat_eq_iff take_bit_eq_mod)
  obtain a where a: "etdb_database_set_add sl name key db = Some (0, a)"
    "db_rep a (V\<lparr>mems := insert (sl, encode_set_head name key) (mems V)\<rparr>)"
    using set_add_rep [OF assms] by blast
  obtain d where d: "etdb_database_set_del sl name key db = Some (if (sl, encode_set_head name key) \<in> mems V then 0 else -1, d)"
    "db_rep d (V\<lparr>mems := mems V - {(sl, encode_set_head name key)}\<rparr>)"
    using set_del_rep [OF assms] by blast
  have "etdb_database_set_ismember sl other k a =
      (if length other mod 256 = length name mod 256 \<and> k = key then 1 else etdb_database_set_ismember sl other k db)" for other k
    unfolding set_ismember_rep [OF a(2) assms(2)] set_ismember_rep [OF assms] n [symmetric] by simp
  moreover have "etdb_database_set_ismember sl other k d =
      (if length other mod 256 = length name mod 256 \<and> k = key then 0 else etdb_database_set_ismember sl other k db)" for other k
    unfolding set_ismember_rep [OF d(2) assms(2)] set_ismember_rep [OF assms] n [symmetric] by simp
  moreover have "\<exists>kws. etdb_database_set_members sl name db = Some (0, kws) \<and> distinct kws \<and>
      set kws = {k. k \<noteq> [] \<and> 0 \<notin> set k \<and> etdb_database_set_ismember sl name k db = 1}"
  proof -
    have "etdb_database_set_ismember sl name k db = 1 \<longleftrightarrow> (sl, encode_set_head name k) \<in> mems V" for k
      unfolding set_ismember_rep [OF assms] by simp
    then show ?thesis using set_members_rep [OF assms, of name] by simp
  qed
  ultimately show ?thesis using a d set_ismember_rep [OF assms] by blast
qed

theorem etdb_database_set_refines_witness:
  "\<exists>db'. etdb_database_set_add 15 [110] [5] new_db = Some (0, db') \<and>
     db_rep db' (empty_view\<lparr>mems := {(15, encode_set_head [110] [5])}\<rparr>) \<and>
     etdb_database_set_ismember 15 [111] [5] db' = 1"
  using etdb_database_set_refines [OF new_db, of 15 "[110]" "[5]"]
  by (auto simp: is_slot_def ETDB_DATABASE_MAX_SLOT_def empty_view_def)

end
