(* ===== verification/Store_Lists.thy ===== *)
theory Store_Lists
  imports Store
begin

text \<open>
  The lists of the database: pushing, popping and reading at either end are operations on the
  lists of the view. The two ends share their proofs through the predicates \<open>pushes\<close> and \<open>pops\<close>,
  as the code's operations share theirs.
\<close>

section \<open>Lists next to other values\<close>

text \<open>Operations on lists in the part of the heap that the other values leave.\<close>

lemma fresh_apart: "fresh_alloc alloc \<Longrightarrow> finite A \<Longrightarrow> fresh_alloc (\<lambda>X. alloc (X \<union> A))"
  unfolding fresh_alloc_def by (metis UnI1 finite_UnI)

lemma live_commute:
  "set_next a b (m\<lparr>live := X\<rparr>) = (set_next a b m)\<lparr>live := X\<rparr>"
  "set_prev a b (m\<lparr>live := X\<rparr>) = (set_prev a b m)\<lparr>live := X\<rparr>"
  "put_size a s (m\<lparr>live := X\<rparr>) = (put_size a s m)\<lparr>live := X\<rparr>"
  "put_data a d (m\<lparr>live := X\<rparr>) = (put_data a d m)\<lparr>live := X\<rparr>"
  for m :: "'a lheap_scheme"
  by (simp_all add: set_next_def set_prev_def put_size_def put_data_def)

lemma set_acc:
  "qnext (set_prev a b m) = qnext m" "qprev (set_next a b m) = qprev m"
  "qnext (m\<lparr>live := X\<rparr>) = qnext m" "qprev (m\<lparr>live := X\<rparr>) = qprev m"
  for m :: "'a lheap_scheme"
  by (simp_all add: set_next_def set_prev_def)

lemma queue_commute:
  "etdb_queue_insert_head h x (m\<lparr>live := X\<rparr>) = (etdb_queue_insert_head h x m)\<lparr>live := X\<rparr>"
  "etdb_queue_insert_tail h x (m\<lparr>live := X\<rparr>) = (etdb_queue_insert_tail h x m)\<lparr>live := X\<rparr>"
  "etdb_queue_remove x (m\<lparr>live := X\<rparr>) = (etdb_queue_remove x m)\<lparr>live := X\<rparr>"
  "etdb_queue_init x (m\<lparr>live := X\<rparr>) = (etdb_queue_init x m)\<lparr>live := X\<rparr>"
  for m :: "'a lheap_scheme"
  by (simp_all add: etdb_queue_insert_head_def etdb_queue_insert_tail_def etdb_queue_remove_def
      etdb_queue_init_def live_commute set_acc Let_def)

lemma push_apart:
  fixes m :: "'a lheap_scheme"
  assumes "A \<subseteq> live m" "alloc (live m) \<notin> A"
  shows "etdb_list_lpush (\<lambda>X. alloc (X \<union> A)) h v (m\<lparr>live := live m - A\<rparr>) =
      (etdb_list_lpush alloc h v m)\<lparr>live := live (etdb_list_lpush alloc h v m) - A\<rparr>"
    "etdb_list_rpush (\<lambda>X. alloc (X \<union> A)) h v (m\<lparr>live := live m - A\<rparr>) =
      (etdb_list_rpush alloc h v m)\<lparr>live := live (etdb_list_rpush alloc h v m) - A\<rparr>"
    "fst (etdb_list_new (\<lambda>X. alloc (X \<union> A)) (m\<lparr>live := live m - A\<rparr>)) =
      (fst (etdb_list_new alloc m))\<lparr>live := live (fst (etdb_list_new alloc m)) - A\<rparr>"
    "snd (etdb_list_new (\<lambda>X. alloc (X \<union> A)) (m\<lparr>live := live m - A\<rparr>)) = snd (etdb_list_new alloc m)"
proof -
  have u: "live m - A \<union> A = live m" "live m \<union> A = live m" and i: "insert (alloc (live m)) (live m) - A = insert (alloc (live m)) (live m - A)"
    using assms by auto
  note d = etdb_list_lpush_def etdb_list_rpush_def etdb_list_new_def etdb_alloc_def Let_def live_commute queue_commute u i
  show "etdb_list_lpush (\<lambda>X. alloc (X \<union> A)) h v (m\<lparr>live := live m - A\<rparr>) =
      (etdb_list_lpush alloc h v m)\<lparr>live := live (etdb_list_lpush alloc h v m) - A\<rparr>"
    by (simp add: d)
  show "etdb_list_rpush (\<lambda>X. alloc (X \<union> A)) h v (m\<lparr>live := live m - A\<rparr>) =
      (etdb_list_rpush alloc h v m)\<lparr>live := live (etdb_list_rpush alloc h v m) - A\<rparr>"
    by (simp add: d)
  show "fst (etdb_list_new (\<lambda>X. alloc (X \<union> A)) (m\<lparr>live := live m - A\<rparr>)) =
      (fst (etdb_list_new alloc m))\<lparr>live := live (fst (etdb_list_new alloc m)) - A\<rparr>"
    "snd (etdb_list_new (\<lambda>X. alloc (X \<union> A)) (m\<lparr>live := live m - A\<rparr>)) = snd (etdb_list_new alloc m)"
    by (simp_all add: d)
qed

lemma pop_apart:
  "etdb_list_lpop h (m\<lparr>live := live m - A\<rparr>) = (etdb_list_lpop h m)\<lparr>live := live (etdb_list_lpop h m) - A\<rparr>"
  "etdb_list_rpop h (m\<lparr>live := live m - A\<rparr>) = (etdb_list_rpop h m)\<lparr>live := live (etdb_list_rpop h m) - A\<rparr>"
  for m :: "'a lheap_scheme"
  by (simp_all add: etdb_list_lpop_def etdb_list_rpop_def etdb_list_next_def etdb_list_prev_def etdb_free_def
      queue_commute Let_def set_acc Diff_insert [symmetric] Diff_insert2 [symmetric])

text \<open>The other values keep their places.\<close>

lemma links_acc [simp]:
  "vhead (set_next a b m) = vhead m" "vbody (set_next a b m) = vbody m" "vsp (set_next a b m) = vsp m"
  "vhead (set_prev a b m) = vhead m" "vbody (set_prev a b m) = vbody m" "vsp (set_prev a b m) = vsp m"
  "vhead (put_size a s m) = vhead m" "vbody (put_size a s m) = vbody m" "vsp (put_size a s m) = vsp m"
  "vhead (put_data a d m) = vhead m" "vbody (put_data a d m) = vbody m" "vsp (put_data a d m) = vsp m"
  "vhead (etdb_free a m) = vhead m" "vbody (etdb_free a m) = vbody m" "vsp (etdb_free a m) = vsp m"
  by (simp_all add: set_next_def set_prev_def put_size_def put_data_def etdb_free_def)

lemma queue_values [simp]:
  "vhead (etdb_queue_insert_head h x m) = vhead m" "vbody (etdb_queue_insert_head h x m) = vbody m"
  "vsp (etdb_queue_insert_head h x m) = vsp m"
  "vhead (etdb_queue_insert_tail h x m) = vhead m" "vbody (etdb_queue_insert_tail h x m) = vbody m"
  "vsp (etdb_queue_insert_tail h x m) = vsp m"
  "vhead (etdb_queue_remove x m) = vhead m" "vbody (etdb_queue_remove x m) = vbody m"
  "vsp (etdb_queue_remove x m) = vsp m"
  "vhead (etdb_queue_init x m) = vhead m" "vbody (etdb_queue_init x m) = vbody m"
  "vsp (etdb_queue_init x m) = vsp m"
  by (simp_all add: etdb_queue_insert_head_def etdb_queue_insert_tail_def etdb_queue_remove_def etdb_queue_init_def Let_def)

text \<open>What the two ways to push, and to pop, have in common.\<close>

definition pushes ::
    "((addr set \<Rightarrow> addr) \<Rightarrow> addr \<Rightarrow> bytes \<Rightarrow> dheap \<Rightarrow> dheap) \<Rightarrow> (bytes \<Rightarrow> bytes list \<Rightarrow> bytes list) \<Rightarrow> bool" where
  "pushes push f \<longleftrightarrow> (\<forall>alloc A m L h vs v. fresh_alloc alloc \<longrightarrow> finite (live m) \<longrightarrow> A \<subseteq> live m \<longrightarrow>
     lists_at (m\<lparr>live := live m - A\<rparr>) L \<longrightarrow> L h = Some vs \<longrightarrow> length v < 2 ^ 32 \<longrightarrow>
       lists_at ((push alloc h v m)\<lparr>live := live (push alloc h v m) - A\<rparr>) (L(h \<mapsto> f v vs)) \<and>
       live (push alloc h v m) = insert (alloc (live m)) (live m) \<and> vhead (push alloc h v m) = vhead m \<and>
       vbody (push alloc h v m) = vbody m \<and> vsp (push alloc h v m) = vsp m \<and> f v vs \<noteq> [])"

definition pops ::
    "(addr \<Rightarrow> dheap \<Rightarrow> dheap) \<Rightarrow> (dheap \<Rightarrow> addr \<Rightarrow> addr) \<Rightarrow> (bytes list \<Rightarrow> bytes list) \<Rightarrow> (bytes list \<Rightarrow> bytes) \<Rightarrow> bool" where
  "pops pop side f g \<longleftrightarrow> (\<forall>A m L h vs. finite (live m) \<longrightarrow> A \<subseteq> live m \<longrightarrow> lists_at (m\<lparr>live := live m - A\<rparr>) L \<longrightarrow>
     L h = Some vs \<longrightarrow> vs \<noteq> [] \<longrightarrow>
       lists_at ((pop h m)\<lparr>live := live (pop h m) - A\<rparr>) (L(h \<mapsto> f vs)) \<and> A \<subseteq> live (pop h m) \<and> finite (live (pop h m)) \<and>
       vhead (pop h m) = vhead m \<and> vbody (pop h m) = vbody m \<and> vsp (pop h m) = vsp m \<and>
       node_bytes m (side m h) = g vs)"

lemma pushes_both: "pushes etdb_list_lpush (\<lambda>v vs. v # vs)" "pushes etdb_list_rpush (\<lambda>v vs. vs @ [v])"
proof -
  have al: "alloc (live m) \<notin> A" if "fresh_alloc alloc" "finite (live m)" "A \<subseteq> live m" for alloc and m :: dheap and A
    using that unfolding fresh_alloc_def by blast
  show "pushes etdb_list_lpush (\<lambda>v vs. v # vs)"
    unfolding pushes_def
  proof (intro allI impI conjI)
    fix alloc A and m :: dheap and L h vs and v :: bytes
    assume a: "fresh_alloc alloc" "finite (live m)" "A \<subseteq> live m" "lists_at (m\<lparr>live := live m - A\<rparr>) L" "L h = Some vs" "length v < 2 ^ 32"
    show "lists_at ((etdb_list_lpush alloc h v m)\<lparr>live := live (etdb_list_lpush alloc h v m) - A\<rparr>) (L(h \<mapsto> v # vs))"
      using list_lpush [OF fresh_apart [OF a(1) finite_subset [OF a(3,2)]] a(4-6)] push_apart(1) [where alloc = alloc, OF a(3) al [OF a(1-3)]] by simp
  qed (simp_all add: etdb_list_lpush_def etdb_alloc_def Let_def)
  show "pushes etdb_list_rpush (\<lambda>v vs. vs @ [v])"
    unfolding pushes_def
  proof (intro allI impI conjI)
    fix alloc A and m :: dheap and L h vs and v :: bytes
    assume a: "fresh_alloc alloc" "finite (live m)" "A \<subseteq> live m" "lists_at (m\<lparr>live := live m - A\<rparr>) L" "L h = Some vs" "length v < 2 ^ 32"
    show "lists_at ((etdb_list_rpush alloc h v m)\<lparr>live := live (etdb_list_rpush alloc h v m) - A\<rparr>) (L(h \<mapsto> vs @ [v]))"
      using list_rpush [OF fresh_apart [OF a(1) finite_subset [OF a(3,2)]] a(4-6)] push_apart(2) [where alloc = alloc, OF a(3) al [OF a(1-3)]] by simp
  qed (simp_all add: etdb_list_rpush_def etdb_alloc_def Let_def)
qed

lemma popped_live:
  assumes "lists_at (m\<lparr>live := live m - A\<rparr>) L" "L h = Some vs" "vs \<noteq> []"
  shows "etdb_list_next m h \<in> live m - A" "etdb_list_prev m h \<in> live m - A"
proof -
  let ?m = "m\<lparr>live := live m - A\<rparr>"
  obtain R xs where R: "qheap ?m R" "cells R \<subseteq> live ?m" "R h = Some xs" "vs = map (node_bytes ?m) xs"
    using lists_atE [OF assms(1,2)] by metis
  have e: "qnext ?m h = qnext m h" "qprev ?m h = qprev m h" by simp_all
  have x: "xs \<noteq> []" using R(4) assms(3) by auto
  then have "qnext m h \<in> set xs" "qprev m h \<in> set xs"
    using qs.next_first [OF R(1,3)] qs.prev_last [OF R(1,3)] e by (simp_all split: if_splits)
  then show "etdb_list_next m h \<in> live m - A" "etdb_list_prev m h \<in> live m - A"
    using cellsI [of R h xs "qnext m h"] cellsI [of R h xs "qprev m h"] R(2,3)
    by (auto simp: etdb_list_next_def etdb_list_prev_def)
qed

lemma pops_both: "pops etdb_list_lpop etdb_list_next tl hd" "pops etdb_list_rpop etdb_list_prev butlast last"
proof -
  have acc: "node_bytes (m\<lparr>live := X\<rparr>) = node_bytes m" "etdb_list_next (m\<lparr>live := X\<rparr>) = etdb_list_next m"
    "etdb_list_prev (m\<lparr>live := X\<rparr>) = etdb_list_prev m" for m :: dheap and X
    by (simp_all add: fun_eq_iff node_bytes_def etdb_list_next_def etdb_list_prev_def)
  show "pops etdb_list_lpop etdb_list_next tl hd"
    unfolding pops_def
  proof (intro allI impI conjI)
    fix A and m :: dheap and L h vs
    assume a: "finite (live m)" "A \<subseteq> live m" "lists_at (m\<lparr>live := live m - A\<rparr>) L" "L h = Some vs" "vs \<noteq> []"
    show "lists_at ((etdb_list_lpop h m)\<lparr>live := live (etdb_list_lpop h m) - A\<rparr>) (L(h \<mapsto> tl vs))"
      using list_lpop [OF a(3), of h "hd vs" "tl vs"] a(4,5) pop_apart(1) [of h m A] by simp
    show "node_bytes m (etdb_list_next m h) = hd vs"
      using list_ends(2) [OF a(3,4,5)] by (simp add: acc)
    show "A \<subseteq> live (etdb_list_lpop h m)" "finite (live (etdb_list_lpop h m))"
      using popped_live(1) [OF a(3,4,5)] a(1,2) by (auto simp: etdb_list_lpop_def Let_def)
  qed (simp_all add: etdb_list_lpop_def Let_def)
  show "pops etdb_list_rpop etdb_list_prev butlast last"
    unfolding pops_def
  proof (intro allI impI conjI)
    fix A and m :: dheap and L h vs
    assume a: "finite (live m)" "A \<subseteq> live m" "lists_at (m\<lparr>live := live m - A\<rparr>) L" "L h = Some vs" "vs \<noteq> []"
    show "lists_at ((etdb_list_rpop h m)\<lparr>live := live (etdb_list_rpop h m) - A\<rparr>) (L(h \<mapsto> butlast vs))"
      using list_rpop [OF a(3), of h "butlast vs" "last vs"] a(4,5) pop_apart(2) [of h m A] by simp
    show "node_bytes m (etdb_list_prev m h) = last vs"
      using list_ends(3) [OF a(3,4,5)] by (simp add: acc)
    show "A \<subseteq> live (etdb_list_rpop h m)" "finite (live (etdb_list_rpop h m))"
      using popped_live(2) [OF a(3,4,5)] a(1,2) by (auto simp: etdb_list_rpop_def Let_def)
  qed (simp_all add: etdb_list_rpop_def Let_def)
qed

text \<open>The size of a head may be written, and an empty head may be freed.\<close>

lemma lists_head_live:
  assumes "lists_at m L" "L h = Some vs"
  shows "h \<in> live m"
proof -
  obtain R xs where "qheap m R" "cells R \<subseteq> live m" "R h = Some xs" by (metis lists_atE [OF assms])
  then show ?thesis using cellsI [of R h xs h] by auto
qed

lemma head_outside:
  assumes "qheap m R" "R h = Some xs" "R g = Some ys"
  shows "h \<notin> set ys"
proof (cases "g = h")
  case True
  then show ?thesis using qs.distinct_cells [OF assms(1,2)] assms(2,3) by simp
next
  case False
  then show ?thesis using qs.separate [OF assms(1-3)] by auto
qed

lemma lists_put_size:
  assumes "lists_at m L" "L h = Some vs"
  shows "lists_at (put_size h s m) L"
proof -
  obtain R xs where R: "qheap m R" "cells R \<subseteq> live m" "L = map_option (map (node_bytes m)) \<circ> R" "R h = Some xs"
    by (metis lists_atE [OF assms])
  have "map (node_bytes (put_size h s m)) ys = map (node_bytes m) ys" if "R g = Some ys" for g ys
    using head_outside [OF R(1,4) that] by (auto simp: node_bytes_def)
  then have "map_option (map (node_bytes (put_size h s m))) (R g) = map_option (map (node_bytes m)) (R g)" for g
    by (cases "R g") simp_all
  then have "L = map_option (map (node_bytes (put_size h s m))) \<circ> R" by (simp add: R(3) fun_eq_iff)
  moreover have "finite (live m)" using assms(1) by (simp add: lists_at_def)
  ultimately show ?thesis using R(1,2) unfolding lists_at_def by auto
qed

lemma lists_drop:
  assumes "lists_at m L" "L h = Some []"
  shows "lists_at (etdb_free h m) (L(h := None))"
proof -
  obtain R where R: "qheap m R" "cells R \<subseteq> live m" "L = map_option (map (node_bytes m)) \<circ> R" "R h = Some []"
    using lists_atE [OF assms] by (metis Nil_is_map_conv)
  have "h \<notin> cells (R(h := None))"
    using qs.separate [OF R(1,4)] by (auto simp: cells_iff split: if_splits)
  moreover have "cells (R(h := None)) \<subseteq> cells R" by (fastforce simp: cells_iff split: if_splits)
  ultimately have c: "cells (R(h := None)) \<subseteq> live (etdb_free h m)" using R(2) by auto
  have nb: "node_bytes (etdb_free h m) = node_bytes m" by (simp add: fun_eq_iff node_bytes_def)
  have "L(h := None) = map_option (map (node_bytes (etdb_free h m))) \<circ> R(h := None)"
    unfolding nb R(3) by (auto simp: fun_eq_iff)
  moreover have "qheap (etdb_free h m) (R(h := None))" using qheap_drop [OF R(1)] by simp
  moreover have "finite (live (etdb_free h m))" using assms(1) by (simp add: lists_at_def)
  ultimately show ?thesis using c unfolding lists_at_def by blast
qed

text \<open>The database after a change at one list.\<close>

definition same_values :: "dheap \<Rightarrow> dheap \<Rightarrow> bool" where
  "same_values m' m \<longleftrightarrow> vhead m' = vhead m \<and> vbody m' = vbody m \<and> vsp m' = vsp m"

lemma same_valuesD: "same_values m' m \<Longrightarrow> value_bytes m' = value_bytes m" "same_values m' m \<Longrightarrow> vsp m' = vsp m"
  by (simp_all add: same_values_def value_bytes_def fun_eq_iff)

lemma list_changed:
  assumes T: "tries_ok db' M'" and H: "heap_ok m M L" and I: "idx_ok m M" and x: "hd (snd x) = ETDB_LIST_HEAD"
    and M': "M' = M(x := p)" "L' = L(q := l)" "p = (if l = None then None else Some q)" "l \<noteq> Some []"
    and u: "\<And>y. y \<noteq> x \<Longrightarrow> hd (snd y) = ETDB_LIST_HEAD \<Longrightarrow> M y \<noteq> Some q"
    and m': "finite (live (heap db'))" "owned M \<subseteq> live (heap db')" "same_values (heap db') m"
      "lists_at ((heap db')\<lparr>live := live (heap db') - owned M\<rparr>) L'"
  shows "db_rep db' ((view_of m M L)\<lparr>lsts := (lsts (view_of m M L))(x := l)\<rparr>)"
proof -
  note D = heap_okD [OF H]
  have no: "\<not> owner x" using x by (auto simp: owner_def head_defs)
  then have ow: "owned M' = owned M" by (auto simp: owned_def M'(1) split: if_splits)
  have "inj_on M' {y \<in> dom M'. owner y}" "inj_on M' {y \<in> dom M'. hd (snd y) = ETDB_LIST_HEAD}"
    using D(4,5) u no by (auto simp: inj_on_def M'(1,3) split: if_splits)
  moreover have "\<exists>s vs. L' v = Some (s # vs)" if "M' y = Some v" "hd (snd y) = ETDB_LIST_HEAD" for y v
    using D(6) [of y v] that u [of y] M'(4) by (cases l) (auto simp: M'(1-3) neq_Nil_conv split: if_splits)
  ultimately have "heap_ok (heap db') M' L'" using m'(1,2,4) by (intro heap_okI) (simp_all add: ow)
  moreover have "view_of (heap db') M' L' = (view_of m M L)\<lparr>lsts := (lsts (view_of m M L))(x := l)\<rparr>"
  proof -
    let ?V = "view_of (heap db') M' L'" and ?W = "view_of m M L"
    have x': "hd (snd x) \<notin> {ETDB_KV_HEAD, ETDB_HASH_HEAD, ETDB_SET_HEAD, ETDB_SPATIAL_POINT_HEAD1}"
      using x by (simp add: head_defs)
    have "lsts ?V y = ((lsts ?W)(x := l)) y" for y
      using u [of y] x by (cases "M y"; cases l) (auto simp: view_of_def M'(1-3))
    moreover have "strs ?V y = strs ?W y" "pts ?V y = pts ?W y" "y \<in> mems ?V \<longleftrightarrow> y \<in> mems ?W" for y
      using x' by (auto simp: view_of_def same_valuesD [OF m'(3)] M'(1))
    ultimately show ?thesis by (intro view.equality) auto
  qed
  moreover have "idx_ok (heap db') M'"
    unfolding M'(1) by (rule idx_ok_other [OF I]) (use x m'(3) in \<open>simp_all add: head_defs same_values_def\<close>)
  ultimately show ?thesis unfolding db_rep_def using T by metis
qed


lemma popsD:
  assumes "pops pop side f g" "finite (live m)" "A \<subseteq> live m" "lists_at (m\<lparr>live := live m - A\<rparr>) L" "L h = Some vs" "vs \<noteq> []"
  shows "lists_at ((pop h m)\<lparr>live := live (pop h m) - A\<rparr>) (L(h \<mapsto> f vs))" "A \<subseteq> live (pop h m)"
    "finite (live (pop h m))" "same_values (pop h m) m" "node_bytes m (side m h) = g vs"
  using assms(1) [unfolded pops_def, rule_format, OF assms(2-6)] by (simp_all add: same_values_def)

lemma pushesD:
  assumes "pushes push f" "fresh_alloc alloc" "finite (live m)" "A \<subseteq> live m"
    "lists_at (m\<lparr>live := live m - A\<rparr>) L" "L h = Some vs" "length v < 2 ^ 32"
  shows "lists_at ((push alloc h v m)\<lparr>live := live (push alloc h v m) - A\<rparr>) (L(h \<mapsto> f v vs))"
    "live (push alloc h v m) = insert (alloc (live m)) (live m)" "same_values (push alloc h v m) m" "f v vs \<noteq> []"
  using assms(1) [unfolded pushes_def, rule_format, OF assms(2-7)] unfolding same_values_def by blast+

lemma list_lookup:
  assumes "heap_ok m M L" "M x = Some p" "hd (snd x) = ETDB_LIST_HEAD"
  obtains vs where "L p = Some vs" "vs \<noteq> []" "lsts (view_of m M L) x = Some vs"
  using heap_okD(6) [OF assms] assms by (auto simp: view_of_def)

text \<open>A new list with one element.\<close>

definition first_push ::
    "((addr set \<Rightarrow> addr) \<Rightarrow> addr \<Rightarrow> bytes \<Rightarrow> dheap \<Rightarrow> dheap) \<Rightarrow> (addr set \<Rightarrow> addr) \<Rightarrow> bytes \<Rightarrow> dheap \<Rightarrow> dheap \<times> addr" where
  "first_push push alloc v m =
     (let (m1, h) = etdb_list_new alloc m in (push alloc h v (set_list_type h m1), h))"

lemma first_push_spec:
  assumes P: "pushes push f" and al: "fresh_alloc alloc" and A: "finite (live m)" "A \<subseteq> live m"
    and L: "lists_at (m\<lparr>live := live m - A\<rparr>) L" and v: "length v < 2 ^ 32" and e: "first_push push alloc v m = (m3, h)"
  shows "lists_at (m3\<lparr>live := live m3 - A\<rparr>) (L(h \<mapsto> f v []))" "A \<subseteq> live m3" "finite (live m3)" "same_values m3 m"
    "h \<notin> live m" "0 < h" "f v [] \<noteq> []"
proof -
  have na: "alloc (live m) \<notin> A" "0 < alloc (live m)" using al A unfolding fresh_alloc_def by blast+
  obtain m1 where m1: "etdb_list_new alloc m = (m1, h)" "m3 = push alloc h v (set_list_type h m1)"
    using e by (auto simp: first_push_def split: prod.splits)
  have h: "h = alloc (live m)" "live m1 = insert h (live m)" "same_values m1 m"
    using m1(1) by (auto simp: etdb_list_new_def etdb_alloc_def Let_def same_values_def)
  show "h \<notin> live m" "0 < h" using al A(1) unfolding h(1) fresh_alloc_def by blast+
  have "lists_at (m1\<lparr>live := live m1 - A\<rparr>) (L(h \<mapsto> []))"
    using list_new(1) [OF fresh_apart [OF al finite_subset [OF A(2,1)]] L prod.collapse [symmetric]]
      push_apart(3,4) [where alloc = alloc, OF A(2) na(1)] m1(1) by simp
  then have "lists_at ((set_list_type h m1)\<lparr>live := live (set_list_type h m1) - A\<rparr>) (L(h \<mapsto> []))"
    using lists_put_size [of "m1\<lparr>live := live m1 - A\<rparr>" "L(h \<mapsto> [])" h] by (simp add: set_list_type_def live_commute)
  note S = pushesD [OF P al _ _ this, of h "[]" v, folded m1(2)]
  have l: "finite (live (set_list_type h m1))" "A \<subseteq> live (set_list_type h m1)"
    using A h(2) by (auto simp: set_list_type_def)
  show "lists_at (m3\<lparr>live := live m3 - A\<rparr>) (L(h \<mapsto> f v []))" using S(1) [OF l _ v] by simp
  show "A \<subseteq> live m3" "finite (live m3)" using S(2) [OF l _ v] l by auto
  show "same_values m3 m" using S(3) [OF l _ v] h(3) by (simp add: same_values_def set_list_type_def)
  show "f v [] \<noteq> []" using S(4) [OF l _ v] by simp
qed

lemma list_push_rep:
  assumes R: "db_rep db V" and sl: "is_slot sl" and P: "pushes push f" and al: "fresh_alloc alloc" and v: "length v < 2 ^ 32"
  shows "\<exists>db'. etdb_database_list_push push alloc sl name v db = Some (0, db') \<and>
    db_rep db' (V\<lparr>lsts := (lsts V)((sl, encode_list_head name) \<mapsto>
      f v (case lsts V (sl, encode_list_head name) of None \<Rightarrow> [] | Some vs \<Rightarrow> vs))\<rparr>)"
proof -
  let ?k = "encode_list_head name" let ?x = "(sl, encode_list_head name)"
  obtain M L where W: "tries_ok db M" "heap_ok (heap db) M L" "V = view_of (heap db) M L" "idx_ok (heap db) M" by (rule db_repE [OF R])
  note D = heap_okD [OF W(2)]
  have x: "hd (snd ?x) = ETDB_LIST_HEAD" by simp
  show ?thesis
  proof (cases "M ?x")
    case None
    obtain m3 h where e: "first_push push alloc v (heap db) = (m3, h)" by fastforce
    note F = first_push_spec [OF P al D(1,2,3) v e]
    have kh: "hd ?k \<in> key_heads" "?k \<noteq> []" by (simp_all add: key_heads_def)
    obtain t old where t: "etdb_trie_update (tries db sl) ?k h = Some (t, old)" "0 \<le> old"
      "\<And>db'. tries db' = tries db \<Longrightarrow> tries_ok (put_trie sl t db') (M(?x \<mapsto> h))"
      by (rule tries_put [OF W(1) sl kh(2,1) F(6)]) blast
    have "M y \<noteq> Some h" if y: "hd (snd y) = ETDB_LIST_HEAD" for y
    proof
      assume m: "M y = Some h"
      obtain vs where "L h = Some vs" by (rule list_lookup [OF W(2) m y])
      then have "h \<in> live (heap db)" using lists_head_live [OF D(3)] by auto
      then show False using F(5) by simp
    qed
    then have "db_rep (put_heap m3 (put_trie sl t db)) (V\<lparr>lsts := (lsts V)(?x \<mapsto> f v [])\<rparr>)"
      unfolding W(3) using t(3) [of db] F(1-4,7)
      by (intro list_changed [OF _ W(2,4) x refl refl, where q = h]) (simp_all add: tries_ok_cong [of "put_heap m3 (put_trie sl t db)" "put_trie sl t db"])
    moreover have "lsts V ?x = None" using None by (simp add: W(3) view_of_def)
    moreover have "etdb_trie_exact_match_search (tries db sl) ?k < 0" using tries_get(2) [OF W(1) sl] None by simp
    ultimately show ?thesis using t(1,2) e
      by (auto simp: etdb_database_list_push_def first_push_def Let_def split: prod.splits)
  next
    case (Some p)
    obtain vs where vs: "L p = Some vs" "vs \<noteq> []" "lsts V ?x = Some vs" using list_lookup [OF W(2) Some x] W(3) by metis
    let ?m = "push alloc p v (heap db)"
    note S = pushesD [OF P al D(1,2,3) vs(1) v]
    have "M(?x := Some p) = M" using Some by auto
    then have T: "tries_ok (put_heap ?m db) (M(?x := Some p))" using W(1) tries_ok_cong [of "put_heap ?m db" db] by simp
    have "M y \<noteq> Some p" if "y \<noteq> ?x" "hd (snd y) = ETDB_LIST_HEAD" for y using D(5) [OF Some _ x that(2)] that(1) by blast
    then have "db_rep (put_heap ?m db) (V\<lparr>lsts := (lsts V)(?x \<mapsto> f v vs)\<rparr>)"
      unfolding W(3) using S D(1,2) by (intro list_changed [OF T W(2,4) x refl refl]) auto
    moreover have "etdb_trie_exact_match_search (tries db sl) ?k = p" "0 < p"
      using tries_get(1) [OF W(1) sl, of ?k] Some tries_okD(3) [OF W(1) Some] by simp_all
    ultimately show ?thesis using vs(3) by (simp add: etdb_database_list_push_def)
  qed
qed


lemma list_pop_rep:
  assumes R: "db_rep db V" and sl: "is_slot sl" and P: "pops pop side f g"
    and f: "\<And>vs. vs \<noteq> [] \<Longrightarrow> f vs = [] \<longleftrightarrow> length vs = 1"
  shows "\<exists>db'. etdb_database_list_pop pop sl name db =
      Some (if lsts V (sl, encode_list_head name) = None then -1 else 0, db') \<and>
    db_rep db' (V\<lparr>lsts := (lsts V)((sl, encode_list_head name) :=
      (case lsts V (sl, encode_list_head name) of None \<Rightarrow> None | Some vs \<Rightarrow> if f vs = [] then None else Some (f vs)))\<rparr>)"
proof -
  let ?k = "encode_list_head name" let ?x = "(sl, encode_list_head name)"
  obtain M L where W: "tries_ok db M" "heap_ok (heap db) M L" "V = view_of (heap db) M L" "idx_ok (heap db) M" by (rule db_repE [OF R])
  note D = heap_okD [OF W(2)]
  have x: "hd (snd ?x) = ETDB_LIST_HEAD" by simp
  show ?thesis
  proof (cases "M ?x")
    case None
    then have "lsts V ?x = None" by (simp add: W(3) view_of_def)
    moreover have "V\<lparr>lsts := (lsts V)(?x := None)\<rparr> = V" using calculation by (simp add: fun_upd_idem)
    moreover have "etdb_trie_exact_match_search (tries db sl) ?k < 0" using tries_get(2) [OF W(1) sl] None by simp
    ultimately show ?thesis using R by (simp add: etdb_database_list_pop_def)
  next
    case (Some p)
    obtain vs where vs: "L p = Some vs" "vs \<noteq> []" "lsts V ?x = Some vs" using list_lookup [OF W(2) Some x] W(3) by metis
    let ?m = "pop p (heap db)"
    note S = popsD [OF P D(1,2,3) vs(1,2)]
    have u: "M y \<noteq> Some p" if "y \<noteq> ?x" "hd (snd y) = ETDB_LIST_HEAD" for y using D(5) [OF Some _ x that(2)] that(1) by blast
    have p: "etdb_trie_exact_match_search (tries db sl) ?k = p" "0 < p"
      using tries_get(1) [OF W(1) sl, of ?k] Some tries_okD(3) [OF W(1) Some] by simp_all
    have e: "etdb_list_empty (heap db) p \<longleftrightarrow> vs = []" "etdb_queue_empty ?m p \<longleftrightarrow> f vs = []"
      using list_ends(1) [OF D(3) vs(1)] list_ends(1) [OF S(1), of p "f vs"]
      by (simp_all add: etdb_list_empty_def etdb_queue_empty_def)
    show ?thesis
    proof (cases "f vs = []")
      case False
      have "M(?x := Some p) = M" using Some by auto
      then have T: "tries_ok (put_heap ?m db) (M(?x := Some p))" using W(1) tries_ok_cong [of "put_heap ?m db" db] by simp
      have "db_rep (put_heap ?m db) (V\<lparr>lsts := (lsts V)(?x \<mapsto> f vs)\<rparr>)"
        unfolding W(3) using S False u by (intro list_changed [OF T W(2,4) x refl refl]) auto
      then show ?thesis using p e vs(2,3) False by (simp add: etdb_database_list_pop_def)
    next
      case True
      obtain t where t: "etdb_trie_erase (tries db sl) ?k = Some (t, case M ?x of None \<Rightarrow> -1 | Some v \<Rightarrow> v)"
        "\<And>db'. tries db' = tries db \<Longrightarrow> tries_ok (put_trie sl t db') (M(?x := None))"
        by (rule tries_del [OF W(1) sl, of ?k]) blast
      let ?db = "free_value p (put_trie sl t (put_heap ?m db))"
      have h: "heap ?db = etdb_free p ?m" "tries ?db = tries (put_trie sl t (put_heap ?m db))" by (simp_all add: free_value_def)
      have T: "tries_ok ?db (M(?x := None))" using t(2) [of "put_heap ?m db"] tries_ok_cong [OF h(2)] by simp
      have "p \<in> live ?m - owned M" using lists_head_live [OF S(1), of p] True by simp
      then have "owned M \<subseteq> live (heap ?db)" "live ?m - owned M - {p} = live (heap ?db) - owned M" using S(2) h(1) by auto
      moreover have "lists_at (etdb_free p (?m\<lparr>live := live ?m - owned M\<rparr>)) (L(p := None))"
        using lists_drop [OF S(1), of p] True by simp
      ultimately have "db_rep ?db (V\<lparr>lsts := (lsts V)(?x := None)\<rparr>)"
        unfolding W(3) using S(3,4) u h(1)
        by (intro list_changed [OF T W(2,4) x refl refl, where q = p]) (auto simp: etdb_free_def same_values_def)
      then show ?thesis using p e vs(2,3) True t(1) Some by (simp add: etdb_database_list_pop_def)
    qed
  qed
qed

lemma list_top_rep:
  assumes R: "db_rep db V" and sl: "is_slot sl" and P: "pops pop side f g"
  shows "etdb_database_list_top side sl name db =
    (case lsts V (sl, encode_list_head name) of None \<Rightarrow> (-1, []) | Some vs \<Rightarrow> (0, g vs))"
proof -
  let ?k = "encode_list_head name" let ?x = "(sl, encode_list_head name)"
  obtain M L where W: "tries_ok db M" "heap_ok (heap db) M L" "V = view_of (heap db) M L" "idx_ok (heap db) M" by (rule db_repE [OF R])
  note D = heap_okD [OF W(2)]
  show ?thesis
  proof (cases "M ?x")
    case None
    then have "lsts V ?x = None" by (simp add: W(3) view_of_def)
    then show ?thesis using tries_get(2) [OF W(1) sl, of ?k] None by (simp add: etdb_database_list_top_def Let_def)
  next
    case (Some p)
    have x: "hd (snd ?x) = ETDB_LIST_HEAD" by simp
    obtain vs where vs: "L p = Some vs" "vs \<noteq> []" "lsts V ?x = Some vs" using list_lookup [OF W(2) Some x] W(3) by metis
    have "etdb_trie_exact_match_search (tries db sl) ?k = p" "0 < p"
      using tries_get(1) [OF W(1) sl, of ?k] Some tries_okD(3) [OF W(1) Some] by simp_all
    moreover have "\<not> etdb_list_empty (heap db) p"
      using list_ends(1) [OF D(3) vs(1)] vs(2) by (simp add: etdb_list_empty_def etdb_queue_empty_def)
    ultimately show ?thesis
      using vs(3) popsD(5) [OF P D(1,2,3) vs(1,2)] by (simp add: etdb_database_list_top_def)
  qed
qed


section \<open>Properties\<close>

lemma pops_length: "(vs :: bytes list) \<noteq> [] \<Longrightarrow> tl vs = [] \<longleftrightarrow> length vs = 1" "vs \<noteq> [] \<Longrightarrow> butlast vs = [] \<longleftrightarrow> length vs = 1"
  by (cases vs; simp)+

text \<open>
  C10: the two pushes put a value at their end of the named list, which they create when it does not
  exist, and change nothing else.
\<close>

theorem etdb_database_list_push_refines:
  assumes "db_rep db V" "is_slot sl" "fresh_alloc alloc" "length value < 2 ^ 32"
  shows "(\<exists>db'. etdb_database_list_lpush alloc sl name value db = Some (0, db') \<and>
      db_rep db' (V\<lparr>lsts := (lsts V)((sl, encode_list_head name) \<mapsto>
        value # (case lsts V (sl, encode_list_head name) of None \<Rightarrow> [] | Some vs \<Rightarrow> vs))\<rparr>)) \<and>
    (\<exists>db'. etdb_database_list_rpush alloc sl name value db = Some (0, db') \<and>
      db_rep db' (V\<lparr>lsts := (lsts V)((sl, encode_list_head name) \<mapsto>
        (case lsts V (sl, encode_list_head name) of None \<Rightarrow> [] | Some vs \<Rightarrow> vs) @ [value])\<rparr>))"
  unfolding etdb_database_list_lpush_def etdb_database_list_rpush_def
  by (intro conjI list_push_rep [OF assms(1,2) pushes_both(1) assms(3,4)] list_push_rep [OF assms(1,2) pushes_both(2) assms(3,4)])

theorem etdb_database_list_push_refines_witness:
  "\<exists>db'. etdb_database_list_lpush example_alloc 2 [108] [9] new_db = Some (0, db') \<and>
     db_rep db' (empty_view\<lparr>lsts := (lsts empty_view)((2, encode_list_head [108]) \<mapsto> [[9]])\<rparr>)"
  using etdb_database_list_push_refines [OF new_db _ example_alloc, of 2 "[9]" "[108]"]
  by (simp add: is_slot_def ETDB_DATABASE_MAX_SLOT_def empty_view_def)

text \<open>
  C11: the two pops take the value at their end off the named list, remove the list with its last
  value, and answer -1 exactly when there is no such list; the two tops read the ends.
\<close>

theorem etdb_database_list_pop_refines:
  assumes "db_rep db V" "is_slot sl" "l = lsts V (sl, encode_list_head name)"
  shows "(\<exists>db'. etdb_database_list_lpop sl name db = Some (if l = None then -1 else 0, db') \<and>
      db_rep db' (V\<lparr>lsts := (lsts V)((sl, encode_list_head name) :=
        (case l of None \<Rightarrow> None | Some vs \<Rightarrow> if tl vs = [] then None else Some (tl vs)))\<rparr>)) \<and>
    (\<exists>db'. etdb_database_list_rpop sl name db = Some (if l = None then -1 else 0, db') \<and>
      db_rep db' (V\<lparr>lsts := (lsts V)((sl, encode_list_head name) :=
        (case l of None \<Rightarrow> None | Some vs \<Rightarrow> if butlast vs = [] then None else Some (butlast vs)))\<rparr>)) \<and>
    etdb_database_list_ltop sl name db = (case l of None \<Rightarrow> (-1, []) | Some vs \<Rightarrow> (0, hd vs)) \<and>
    etdb_database_list_rtop sl name db = (case l of None \<Rightarrow> (-1, []) | Some vs \<Rightarrow> (0, last vs))"
  unfolding etdb_database_list_lpop_def etdb_database_list_rpop_def etdb_database_list_ltop_def
    etdb_database_list_rtop_def assms(3)
  by (intro conjI list_pop_rep [OF assms(1,2) pops_both(1) pops_length(1)] list_pop_rep [OF assms(1,2) pops_both(2) pops_length(2)]
      list_top_rep [OF assms(1,2) pops_both(1)] list_top_rep [OF assms(1,2) pops_both(2)])

theorem etdb_database_list_pop_refines_witness:
  "\<exists>db db'. etdb_database_list_rpush example_alloc 2 [108] [9] new_db = Some (0, db) \<and>
     etdb_database_list_ltop 2 [108] db = (0, [9]) \<and> etdb_database_list_lpop 2 [108] db = Some (0, db')"
proof -
  obtain db where db: "etdb_database_list_rpush example_alloc 2 [108] [9] new_db = Some (0, db)"
    "db_rep db (empty_view\<lparr>lsts := (lsts empty_view)((2, encode_list_head [108]) \<mapsto> [[9]])\<rparr>)"
    using list_push_rep [OF new_db _ pushes_both(2) example_alloc, of 2 "[9]" "[108]"]
    by (auto simp: is_slot_def ETDB_DATABASE_MAX_SLOT_def empty_view_def etdb_database_list_rpush_def)
  from etdb_database_list_pop_refines [OF db(2) _ refl, of 2 "[108]"] show ?thesis
    using db(1) by (auto simp: is_slot_def ETDB_DATABASE_MAX_SLOT_def)
qed

end
