(* ===== verification/Store_Points.thy ===== *)
theory Store_Points
  imports Store
begin

text \<open>
  The spatial points of the database: a point is stored under its id, and indexed under its geohash
  and id. The operations keep the index exact, so that the search by rectangle is.
\<close>

section \<open>The heap and the view after a change at one point\<close>

lemma heap_ok_cong:
  assumes H: "heap_ok m M L" and m': "live m' = live m" "qnext m' = qnext m" "qprev m' = qprev m" "lsize m' = lsize m" "ldata m' = ldata m"
  shows "heap_ok m' M L"
proof -
  have "lists_at (m'\<lparr>live := live m' - owned M\<rparr>) L"
    by (rule lists_at_live [OF heap_okD(3) [OF H]]) (use m' heap_okD(1) [OF H] in auto)
  then show ?thesis using H m'(1) by (simp add: heap_ok_def)
qed

lemma view_point:
  assumes x: "hd (snd x) = ETDB_SPATIAL_POINT_HEAD1" and M': "\<And>y. y \<noteq> x \<Longrightarrow> hd (snd y) \<noteq> ETDB_SPATIAL_POINT_HEAD2 \<Longrightarrow> M' y = M y"
    and v: "value_bytes m' = value_bytes m"
    and a: "\<And>y b. y \<noteq> x \<Longrightarrow> hd (snd y) = ETDB_SPATIAL_POINT_HEAD1 \<Longrightarrow> M y = Some b \<Longrightarrow> vsp m' b = vsp m b"
  shows "view_of m' M' L = (view_of m M L)\<lparr>pts := (pts (view_of m M L))(x := map_option (vsp m') (M' x))\<rparr>"
proof -
  let ?V = "view_of m' M' L" and ?W = "view_of m M L"
  have ne: "hd (snd x) \<notin> {ETDB_KV_HEAD, ETDB_HASH_HEAD, ETDB_SET_HEAD, ETDB_LIST_HEAD}" using x by (simp add: head_defs)
  have M'': "M' y = M y" if "hd (snd y) \<in> {ETDB_KV_HEAD, ETDB_HASH_HEAD, ETDB_SET_HEAD, ETDB_LIST_HEAD}" for y
    by (rule M') (use that ne in \<open>auto simp: head_defs\<close>)
  have "strs ?V y = strs ?W y" "lsts ?V y = lsts ?W y" "y \<in> mems ?V \<longleftrightarrow> y \<in> mems ?W" for y
    using M'' [of y] by (cases "M y"; auto simp: view_of_def v)+
  moreover have "pts ?V y = ((pts ?W)(x := map_option (vsp m') (M' x))) y" for y
  proof (cases "y = x \<or> hd (snd y) \<noteq> ETDB_SPATIAL_POINT_HEAD1")
    case False
    then have "M' y = M y" by (intro M') (auto simp: head_defs)
    then show ?thesis using False a [of y] by (cases "M y") (simp_all add: view_of_def)
  qed (use x in \<open>auto simp: view_of_def\<close>)
  ultimately show ?thesis by (intro view.equality) auto
qed

text \<open>The index after the point \<open>ident\<close> got the address \<open>v\<close> and the geohash \<open>code\<close>, or was removed.\<close>

lemma idx_change:
  assumes I: "idx_ok m M"
    and M1: "\<And>s r. M' (s, ETDB_SPATIAL_POINT_HEAD1 # r) = (if (s, r) = (sl, ident) then v else M (s, ETDB_SPATIAL_POINT_HEAD1 # r))"
    and M2: "\<And>s r. M' (s, ETDB_SPATIAL_POINT_HEAD2 # r) =
      (if s = sl \<and> drop 9 r = ident then if r = code @ ident then v else None else M (s, ETDB_SPATIAL_POINT_HEAD2 # r))"
    and a: "\<And>s r b. (s, r) \<noteq> (sl, ident) \<Longrightarrow> M (s, ETDB_SPATIAL_POINT_HEAD1 # r) = Some b \<Longrightarrow> vsp m' b = vsp m b"
    and v: "\<And>b. v = Some b \<Longrightarrow> good_point (vsp m' b) \<and> geo_hash_code (vsp m' b) = code"
  shows "idx_ok m' M'"
proof -
  have g: "good_point (vsp m' p)" if "M' (s, ETDB_SPATIAL_POINT_HEAD1 # r) = Some p" for s r p
    using that a [of s r p] v [of p] I by (auto simp: M1 idx_ok_def split: if_splits)
  have "M' (s, ETDB_SPATIAL_POINT_HEAD2 # r) = Some p \<longleftrightarrow>
      M' (s, ETDB_SPATIAL_POINT_HEAD1 # drop 9 r) = Some p \<and> point_code m' p r" for s r p
  proof (cases "s = sl \<and> drop 9 r = ident")
    case True
    have "r = code @ ident \<longleftrightarrow> take 9 r = code" if "v = Some p"
      using v [OF that] good_length [of "vsp m' p"] True append_take_drop_id [of 9 r] by (metis append_eq_conv_conj)
    then show ?thesis using True v [of p] by (auto simp: M1 M2 point_code_def)
  next
    case False
    then show ?thesis using I a [of s "drop 9 r" p] by (auto simp: M1 M2 point_code_def idx_ok_def)
  qed
  then show ?thesis using g unfolding idx_ok_def by blast
qed

section \<open>The operations\<close>

text \<open>What a point becomes.\<close>

definition placed :: "sp_head option \<Rightarrow> rat \<Rightarrow> rat \<Rightarrow> sp_head" where
  "placed h lat lon =
     (let code = etdb_geo_hash_encode lat lon (int ETDB_GEO_HASH_PRECISION_LEN)
      in case h of
           None \<Rightarrow> \<lparr>sp_type = TYPE_SPATIAL_POINT, lat_d = lat, lon_d = lon, geo_hash_code = code, indexed_len = 0, ref = 2\<rparr>
         | Some h \<Rightarrow> h\<lparr>geo_hash_code := code, lat_d := lat, lon_d := lon\<rparr>)"

lemma placed_good: "\<not> bad_coords lat lon \<Longrightarrow> good_point (placed h lat lon)"
  "geo_hash_code (placed h lat lon) = etdb_geo_hash_encode lat lon (int ETDB_GEO_HASH_PRECISION_LEN)"
  by (auto simp: placed_def good_point_def Let_def split: option.split)

lemma sp_key_simps [simp]: "sp_id_key i = ETDB_SPATIAL_POINT_HEAD1 # i" "sp_index_key c i = ETDB_SPATIAL_POINT_HEAD2 # c @ i"
  by (simp_all add: sp_id_key_def sp_index_key_def)

text \<open>The two keys of a point, and a map of places after they changed.\<close>

definition point_places :: "places \<Rightarrow> int \<Rightarrow> bytes \<Rightarrow> bytes \<Rightarrow> addr option \<Rightarrow> places \<Rightarrow> bool" where
  "point_places M sl ident code v M' \<longleftrightarrow>
     (\<forall>s k. hd k \<noteq> ETDB_SPATIAL_POINT_HEAD1 \<longrightarrow> hd k \<noteq> ETDB_SPATIAL_POINT_HEAD2 \<longrightarrow> M' (s, k) = M (s, k)) \<and>
     (\<forall>s r. M' (s, ETDB_SPATIAL_POINT_HEAD1 # r) = (if (s, r) = (sl, ident) then v else M (s, ETDB_SPATIAL_POINT_HEAD1 # r))) \<and>
     (\<forall>s r. M' (s, ETDB_SPATIAL_POINT_HEAD2 # r) =
       (if s = sl \<and> drop 9 r = ident then if r = code @ ident then v else None else M (s, ETDB_SPATIAL_POINT_HEAD2 # r)))"

lemma point_changed:
  assumes T: "tries_ok db' M'" and H: "heap_ok (heap db') M' L" and I: "idx_ok m M" and P: "point_places M sl ident code v M'"
    and N0: "\<And>s. M (s, []) = None"
    and m': "value_bytes (heap db') = value_bytes m"
    and a: "\<And>s r b. (s, r) \<noteq> (sl, ident) \<Longrightarrow> M (s, ETDB_SPATIAL_POINT_HEAD1 # r) = Some b \<Longrightarrow> vsp (heap db') b = vsp m b"
    and v: "\<And>b. v = Some b \<Longrightarrow> good_point (vsp (heap db') b) \<and> geo_hash_code (vsp (heap db') b) = code"
  shows "db_rep db' ((view_of m M L)\<lparr>pts := (pts (view_of m M L))((sl, sp_id_key ident) := map_option (vsp (heap db')) v)\<rparr>)"
proof -
  have "idx_ok (heap db') M'"
    by (rule idx_change [OF I _ _ a v]) (use P in \<open>auto simp: point_places_def\<close>)
  moreover have "view_of (heap db') M' L = (view_of m M L)\<lparr>pts := (pts (view_of m M L))((sl, sp_id_key ident) := map_option (vsp (heap db')) (M' (sl, sp_id_key ident)))\<rparr>"
  proof (rule view_point [OF _ _ m'])
    have N: "M' (s, []) = None" for s using tries_okD(3) [OF T, of s "[]"] by (cases "M' (s, [])") auto
    show "M' y = M y" if y: "y \<noteq> (sl, sp_id_key ident)" "hd (snd y) \<noteq> ETDB_SPATIAL_POINT_HEAD2" for y
    proof (cases "snd y")
      case Nil
      then show ?thesis using N N0 by (metis prod.collapse)
    next
      case (Cons h r)
      then obtain q where q: "y = (q, h # r)" by (cases y) auto
      show ?thesis
      proof (cases "h = ETDB_SPATIAL_POINT_HEAD1")
        case True
        then have "(q, r) \<noteq> (sl, ident)" using y(1) q by auto
        then show ?thesis using P unfolding point_places_def q True by metis
      next
        case False
        have "\<forall>s k. hd k \<noteq> ETDB_SPATIAL_POINT_HEAD1 \<longrightarrow> hd k \<noteq> ETDB_SPATIAL_POINT_HEAD2 \<longrightarrow> M' (s, k) = M (s, k)"
          using P unfolding point_places_def by blast
        then show ?thesis using y(2) q False by simp
      qed
    qed
    show "vsp (heap db') b = vsp m b"
      if y: "y \<noteq> (sl, sp_id_key ident)" "hd (snd y) = ETDB_SPATIAL_POINT_HEAD1" "M y = Some b" for y b
    proof (cases "snd y")
      case Nil
      then show ?thesis using y(3) N0 by (metis option.distinct(1) prod.collapse)
    next
      case (Cons h r)
      then have "y = (fst y, ETDB_SPATIAL_POINT_HEAD1 # r)" using y(2) by (metis list.sel(1) prod.collapse)
      then show ?thesis using a [of "fst y" r b] y(1,3) by (metis sp_key_simps(1) prod.inject)
    qed
  qed simp
  moreover have "M' (sl, sp_id_key ident) = v" using P by (simp add: point_places_def)
  ultimately show ?thesis unfolding db_rep_def using T H by metis
qed

text \<open>The maps of places that the operations leave.\<close>

lemma idx_entry:
  assumes "idx_ok m M" "M (sl, ETDB_SPATIAL_POINT_HEAD1 # ident) = Some p"
  shows "length (geo_hash_code (vsp m p)) = 9" "good_point (vsp m p)"
    "drop 9 r = ident \<Longrightarrow> M (sl, ETDB_SPATIAL_POINT_HEAD2 # r) = (if r = geo_hash_code (vsp m p) @ ident then Some p else None)"
proof -
  show g: "good_point (vsp m p)" using assms by (auto simp: idx_ok_def)
  show l: "length (geo_hash_code (vsp m p)) = 9" by (rule good_length [OF g])
  assume r: "drop 9 r = ident"
  have e: "M (sl, ETDB_SPATIAL_POINT_HEAD2 # r) = Some q \<longleftrightarrow> q = p \<and> point_code m q r" for q
    using assms r by (auto simp: idx_ok_def)
  have "point_code m p r \<longleftrightarrow> r = geo_hash_code (vsp m p) @ ident"
    using l r append_take_drop_id [of 9 r] unfolding point_code_def by (metis append_eq_conv_conj)
  then show "M (sl, ETDB_SPATIAL_POINT_HEAD2 # r) = (if r = geo_hash_code (vsp m p) @ ident then Some p else None)"
    using e [of p] e by (cases "M (sl, ETDB_SPATIAL_POINT_HEAD2 # r)") auto
qed

lemma idx_no_entry:
  assumes "idx_ok m M" "M (sl, ETDB_SPATIAL_POINT_HEAD1 # ident) = None" "drop 9 r = ident"
  shows "M (sl, ETDB_SPATIAL_POINT_HEAD2 # r) = None"
  using assms by (cases "M (sl, ETDB_SPATIAL_POINT_HEAD2 # r)") (auto simp: idx_ok_def)

lemma point_places_cases:
  assumes I: "idx_ok m M" and c: "length code = 9"
  shows "M (sl, sp_id_key ident) = None \<Longrightarrow>
      point_places M sl ident code (Some a) (M((sl, sp_id_key ident) \<mapsto> a, (sl, sp_index_key code ident) \<mapsto> a))"
    "M (sl, sp_id_key ident) = Some p \<Longrightarrow> geo_hash_code (vsp m p) = old \<Longrightarrow> old \<noteq> code \<Longrightarrow>
      point_places M sl ident code (Some p) (M((sl, sp_index_key code ident) \<mapsto> p, (sl, sp_index_key old ident) := None))"
    "M (sl, sp_id_key ident) = Some p \<Longrightarrow> geo_hash_code (vsp m p) = code \<Longrightarrow> point_places M sl ident code (Some p) M"
    "M (sl, sp_id_key ident) = Some p \<Longrightarrow> geo_hash_code (vsp m p) = old \<Longrightarrow>
      point_places M sl ident code None (M((sl, sp_id_key ident) := None, (sl, sp_index_key old ident) := None))"
proof -
  have h: "ETDB_SPATIAL_POINT_HEAD1 \<noteq> ETDB_SPATIAL_POINT_HEAD2" by (simp add: head_defs)
  have d: "drop 9 (code @ ident) = ident" using c by simp
  show "point_places M sl ident code (Some a) (M((sl, sp_id_key ident) \<mapsto> a, (sl, sp_index_key code ident) \<mapsto> a))"
    if "M (sl, sp_id_key ident) = None"
    using that h d idx_no_entry [OF I, of sl ident] by (auto simp: point_places_def)
  have o: "drop 9 (geo_hash_code (vsp m p) @ ident) = ident" if "M (sl, sp_id_key ident) = Some p" for p
    using idx_entry(1) [OF I] that by simp
  show "point_places M sl ident code (Some p) (M((sl, sp_index_key code ident) \<mapsto> p, (sl, sp_index_key old ident) := None))"
    if "M (sl, sp_id_key ident) = Some p" "geo_hash_code (vsp m p) = old" "old \<noteq> code"
    using that h d o [OF that(1)] idx_entry(3) [OF I, of sl ident p] by (auto simp: point_places_def)
  show "point_places M sl ident code (Some p) M"
    if "M (sl, sp_id_key ident) = Some p" "geo_hash_code (vsp m p) = code"
    using that idx_entry(3) [OF I, of sl ident p] by (auto simp: point_places_def)
  show "point_places M sl ident code None (M((sl, sp_id_key ident) := None, (sl, sp_index_key old ident) := None))"
    if "M (sl, sp_id_key ident) = Some p" "geo_hash_code (vsp m p) = old"
    using that h o [OF that(1)] idx_entry(3) [OF I, of sl ident p] by (auto simp: point_places_def)
qed

lemma places_no_empty: "tries_ok db M \<Longrightarrow> M (s, []) = None"
  using tries_okD(3) [of db M s "[]"] by (cases "M (s, [])") auto

lemma sp_head_keys: "hd (sp_id_key i) \<in> key_heads" "hd (sp_index_key c i) \<in> key_heads"
    "\<not> owner (s, sp_index_key c i)" "hd (snd (s, sp_index_key c i)) \<noteq> ETDB_LIST_HEAD" "owner (s, sp_id_key i)"
  by (simp_all add: key_heads_def owner_def head_defs)

definition coords :: "bytes \<Rightarrow> bytes \<Rightarrow> (rat \<times> rat) option" where
  "coords lat lon = (let (r1, a) = etdb_atof lat; (r2, b) = etdb_atof lon
     in if r1 \<noteq> -1 \<and> r2 \<noteq> -1 \<and> -90 \<le> a \<and> a \<le> 90 \<and> -180 \<le> b \<and> b \<le> 180 then Some (a, b) else None)"

lemma sp_set_bad: "coords lat lon = None \<Longrightarrow> etdb_database_sp_set alloc sl ident lat lon db = Some (-1, db)"
  by (auto simp: coords_def etdb_database_sp_set_def bad_coords_def split: prod.splits if_splits)

lemma atof_digits: "\<forall>w\<in>set ws. is_digit w \<Longrightarrow> dec_val ws < 2 ^ 53 \<Longrightarrow> etdb_atof ws = (0, of_int (dec_val ws))"
  using atof_loop_digits [of ws 0 0] by (simp add: etdb_atof_def dec_val_def)

lemma coordsE:
  assumes "coords lat lon = Some (x, y)"
  obtains r1 r2 where "etdb_atof lat = (r1, x)" "etdb_atof lon = (r2, y)" "r1 \<noteq> -1" "r2 \<noteq> -1" "\<not> bad_coords x y"
  using assms by (auto simp: coords_def bad_coords_def Let_def split: prod.splits if_splits)

lemma put_sp_facts:
  "tries (put_sp p h db) = tries db" "vsp (heap (put_sp p h db)) = (vsp (heap db))(p := h)"
  "value_bytes (heap (put_sp p h db)) = value_bytes (heap db)"
  "heap_ok (heap db) M L \<Longrightarrow> heap_ok (heap (put_sp p h db)) M L"
  by (auto simp: put_sp_def value_bytes_def fun_eq_iff intro: heap_ok_cong)

lemma sp_set_new:
  assumes R: "db_rep db V" and sl: "is_slot sl" and al: "fresh_alloc alloc"
    and c: "coords lat lon = Some (x, y)" and n: "pts V (sl, sp_id_key ident) = None"
  shows "\<exists>db'. etdb_database_sp_set alloc sl ident lat lon db = Some (0, db') \<and>
    db_rep db' (V\<lparr>pts := (pts V)((sl, sp_id_key ident) \<mapsto> placed None x y)\<rparr>)"
proof -
  let ?i = "(sl, sp_id_key ident)" and ?h = "placed None x y"
  let ?code = "etdb_geo_hash_encode x y (int ETDB_GEO_HASH_PRECISION_LEN)"
  let ?j = "(sl, sp_index_key ?code ident)"
  obtain M L where W: "tries_ok db M" "heap_ok (heap db) M L" "V = view_of (heap db) M L" "idx_ok (heap db) M" by (rule db_repE [OF R])
  note D = heap_okD [OF W(2)]
  obtain r1 r2 where cc: "etdb_atof lat = (r1, x)" "etdb_atof lon = (r2, y)" "r1 \<noteq> -1" "r2 \<noteq> -1" "\<not> bad_coords x y"
    by (rule coordsE [OF c])
  have M0: "M ?i = None" using n by (simp add: W(3) view_of_def)
  obtain m a where m: "etdb_alloc alloc (heap db) = (m, a)" by fastforce
  let ?db = "put_sp a ?h (put_heap m db)"
  have a: "a \<notin> live (heap db)" "0 < a" using m al D(1) by (auto simp: etdb_alloc_def fresh_alloc_def Let_def)
  have hd: "tries ?db = tries db" "live (heap ?db) = insert a (live (heap db))" "qnext (heap ?db) = qnext (heap db)"
    "qprev (heap ?db) = qprev (heap db)" "lsize (heap ?db) = lsize (heap db)" "ldata (heap ?db) = ldata (heap db)"
    "value_bytes (heap ?db) = value_bytes (heap db)" "vsp (heap ?db) = (vsp (heap db))(a := ?h)"
    using m by (auto simp: etdb_alloc_def put_sp_def Let_def value_bytes_def fun_eq_iff)
  obtain t1 old1 where t1: "etdb_trie_update (tries db sl) (sp_id_key ident) a = Some (t1, old1)" "0 \<le> old1"
    "\<And>db'. tries db' = tries db \<Longrightarrow> tries_ok (put_trie sl t1 db') (M(?i \<mapsto> a))"
    by (rule tries_put [OF W(1) sl _ sp_head_keys(1) a(2), of ident]) simp_all
  obtain t2 old2 where t2: "etdb_trie_update t1 (sp_index_key ?code ident) a = Some (t2, old2)" "0 \<le> old2"
    "\<And>db'. tries db' = tries (put_trie sl t1 ?db) \<Longrightarrow> tries_ok (put_trie sl t2 db') (M(?i \<mapsto> a, ?j \<mapsto> a))"
    by (rule tries_put [OF t1(3) [OF hd(1)] sl _ sp_head_keys(2) a(2), of ?code ident]) simp_all
  have T: "tries_ok (put_trie sl t2 ?db) (M(?i \<mapsto> a, ?j \<mapsto> a))"
    using t2(3) [OF refl] tries_ok_cong [of "put_trie sl t2 ?db" "put_trie sl t2 (put_trie sl t1 ?db)"] by simp
  have H: "heap_ok (heap ?db) (M(?i \<mapsto> a, ?j \<mapsto> a)) L"
    by (intro heap_ok_plain heap_ok_new [OF W(2) a(1) sp_head_keys(5)] hd sp_head_keys(3,4))
  have len: "length ?code = 9" using good_length [OF placed_good(1) [OF cc(5)], of None] by (simp add: placed_good(2))
  have "db_rep (put_trie sl t2 ?db) (V\<lparr>pts := (pts V)(?i := map_option (vsp (heap (put_trie sl t2 ?db))) (Some a))\<rparr>)"
    unfolding W(3)
  proof (rule point_changed [OF T _ W(4) point_places_cases(1) [OF W(4) len M0] places_no_empty [OF W(1)]])
    show "vsp (heap (put_trie sl t2 ?db)) b = vsp (heap db) b" if "M (s, ETDB_SPATIAL_POINT_HEAD1 # r) = Some b" for s r b
    proof -
      have "owner (s, ETDB_SPATIAL_POINT_HEAD1 # r)" using sp_head_keys(5) [of s r] by simp
      then have "b \<noteq> a" using owner_live [OF W(2) that] a(1) by blast
      then show ?thesis using hd(8) by simp
    qed
  qed (use H hd(7,8) cc(5) placed_good in auto)
  moreover have "etdb_database_sp_set alloc sl ident lat lon db = Some (0, put_trie sl t2 ?db)"
    using t1(1,2) t2(1,2) m cc tries_get(2) [OF W(1) sl, of "sp_id_key ident"] M0
    by (simp add: etdb_database_sp_set_def placed_def Let_def put_sp_facts(1))
  ultimately show ?thesis using hd(8) by simp
qed

lemma sp_set_old:
  assumes R: "db_rep db V" and sl: "is_slot sl" and c: "coords lat lon = Some (x, y)" and n: "pts V (sl, sp_id_key ident) = Some h"
  shows "\<exists>db'. etdb_database_sp_set alloc sl ident lat lon db = Some (0, db') \<and>
    db_rep db' (V\<lparr>pts := (pts V)((sl, sp_id_key ident) \<mapsto> placed (Some h) x y)\<rparr>)"
proof -
  let ?i = "(sl, sp_id_key ident)" and ?h = "placed (Some h) x y"
  let ?code = "etdb_geo_hash_encode x y (int ETDB_GEO_HASH_PRECISION_LEN)"
  let ?j = "(sl, sp_index_key ?code ident)" and ?o = "(sl, sp_index_key (geo_hash_code h) ident)"
  obtain M L where W: "tries_ok db M" "heap_ok (heap db) M L" "V = view_of (heap db) M L" "idx_ok (heap db) M" by (rule db_repE [OF R])
  obtain r1 r2 where cc: "etdb_atof lat = (r1, x)" "etdb_atof lon = (r2, y)" "r1 \<noteq> -1" "r2 \<noteq> -1" "\<not> bad_coords x y"
    by (rule coordsE [OF c])
  obtain p where p: "M ?i = Some p" "vsp (heap db) p = h" using n by (auto simp: W(3) view_of_def)
  have p0: "0 < p" using tries_okD(3) [OF W(1) p(1)] by simp
  have f: "etdb_trie_exact_match_search (tries db sl) (sp_id_key ident) = p"
    using tries_get(1) [OF W(1) sl, of "sp_id_key ident"] p(1) by simp
  have len: "length ?code = 9" using good_length [OF placed_good(1) [OF cc(5)], of None] by (simp add: placed_good(2))
  have other: "b \<noteq> p" if "(s, r) \<noteq> (sl, ident)" "M (s, ETDB_SPATIAL_POINT_HEAD1 # r) = Some b" for s r b
    using heap_okD(4) [OF W(2) p(1), of "(s, sp_id_key r)"] that sp_head_keys(5) by auto
  have done1: "db_rep db' (V\<lparr>pts := (pts V)(?i \<mapsto> ?h)\<rparr>)"
    if T: "tries_ok db' M'" and H: "heap_ok (heap db') M' L" and P: "point_places M sl ident ?code (Some p) M'"
      and v: "vsp (heap db') = (vsp (heap db))(p := ?h)" "value_bytes (heap db') = value_bytes (heap db)" for db' M'
  proof -
    have "db_rep db' (V\<lparr>pts := (pts V)(?i := map_option (vsp (heap db')) (Some p))\<rparr>)"
      unfolding W(3)
      by (rule point_changed [OF T H W(4) P places_no_empty [OF W(1)] v(2)])
        (use other v(1) cc(5) placed_good in auto)
    then show ?thesis by (simp add: v(1))
  qed
  show ?thesis
  proof (cases "?code = geo_hash_code h")
    case True
    let ?db = "put_sp p ?h db"
    have T: "tries_ok ?db M" using W(1) tries_ok_cong [of ?db db] put_sp_facts(1) by simp
    have "point_places M sl ident ?code (Some p) M" by (rule point_places_cases(3) [OF W(4) len p(1)]) (simp add: p(2) True)
    then have "db_rep ?db (V\<lparr>pts := (pts V)(?i \<mapsto> ?h)\<rparr>)" by (intro done1 [OF T] put_sp_facts W(2))
    moreover have "h\<lparr>lat_d := x, lon_d := y\<rparr> = ?h" by (simp add: placed_def True)
    ultimately show ?thesis using f p(2) p0 cc True by (simp add: etdb_database_sp_set_def Let_def)
  next
    case False
    obtain t1 old1 where t1: "etdb_trie_update (tries db sl) (sp_index_key ?code ident) p = Some (t1, old1)" "0 \<le> old1"
      "\<And>db'. tries db' = tries db \<Longrightarrow> tries_ok (put_trie sl t1 db') (M(?j \<mapsto> p))"
      by (rule tries_put [OF W(1) sl _ sp_head_keys(2) p0, of ?code ident]) simp_all
    obtain t2 v where t2: "etdb_trie_erase t1 (sp_index_key (geo_hash_code h) ident) = Some (t2, v)"
      "\<And>db'. tries db' = tries (put_trie sl t1 db) \<Longrightarrow> tries_ok (put_trie sl t2 db') (M(?j \<mapsto> p, ?o := None))"
      by (rule tries_del [OF t1(3) [OF refl] sl, of "sp_index_key (geo_hash_code h) ident"]) simp
    let ?db = "put_sp p ?h (put_trie sl t2 db)"
    have T: "tries_ok ?db (M(?j \<mapsto> p, ?o := None))"
      using t2(2) [OF refl] tries_ok_cong [of ?db "put_trie sl t2 (put_trie sl t1 db)"] by (simp add: put_sp_facts(1))
    have H: "heap_ok (heap ?db) (M(?j \<mapsto> p, ?o := None)) L"
      by (intro put_sp_facts(4) heap_ok_plain sp_head_keys(3,4)) (use W(2) in simp)
    have "point_places M sl ident ?code (Some p) (M(?j \<mapsto> p, ?o := None))"
      by (rule point_places_cases(2) [OF W(4) len p(1)]) (use False p(2) in simp_all)
    then have "db_rep ?db (V\<lparr>pts := (pts V)(?i \<mapsto> ?h)\<rparr>)" by (intro done1 [OF T H]) (simp_all add: put_sp_facts)
    moreover have "h\<lparr>geo_hash_code := ?code, lat_d := x, lon_d := y\<rparr> = ?h" by (simp add: placed_def)
    ultimately show ?thesis using f p(2) p0 cc False t1(1,2) t2(1)
      by (simp add: etdb_database_sp_set_def Let_def)
  qed
qed

lemma sp_set_rep:
  assumes "db_rep db V" "is_slot sl" "fresh_alloc alloc"
  shows "\<exists>db'. etdb_database_sp_set alloc sl ident lat lon db = Some (if coords lat lon = None then -1 else 0, db') \<and>
    db_rep db' (case coords lat lon of None \<Rightarrow> V
      | Some (x, y) \<Rightarrow> V\<lparr>pts := (pts V)((sl, sp_id_key ident) \<mapsto> placed (pts V (sl, sp_id_key ident)) x y)\<rparr>)"
proof (cases "coords lat lon")
  case None
  then show ?thesis using assms(1) sp_set_bad [OF None] by simp
next
  case (Some z)
  obtain x y where z: "z = (x, y)" by (cases z)
  show ?thesis
    using sp_set_new [OF assms Some [unfolded z], of ident] sp_set_old [OF assms(1,2) Some [unfolded z], of ident _ alloc] Some z
    by (cases "pts V (sl, sp_id_key ident)") simp_all
qed

lemma sp_get_rep:
  assumes R: "db_rep db V" and sl: "is_slot sl"
  shows "etdb_database_sp_get sl ident db =
    (case pts V (sl, sp_id_key ident) of None \<Rightarrow> (-1, 0, 0, []) | Some h \<Rightarrow> (0, lat_d h, lon_d h, geo_hash_code h))"
proof -
  obtain M L where W: "tries_ok db M" "heap_ok (heap db) M L" "V = view_of (heap db) M L" "idx_ok (heap db) M" by (rule db_repE [OF R])
  show ?thesis using tries_get [OF W(1) sl, of "sp_id_key ident"] tries_okD(3) [OF W(1), of sl "sp_id_key ident"]
    by (cases "M (sl, sp_id_key ident)") (simp_all add: W(3) view_of_def Let_def etdb_database_sp_get_def)
qed

lemma sp_del_rep:
  assumes R: "db_rep db V" and sl: "is_slot sl"
  shows "\<exists>db'. etdb_database_sp_del sl ident db = Some (if pts V (sl, sp_id_key ident) = None then -1 else 0, db') \<and>
    db_rep db' (V\<lparr>pts := (pts V)((sl, sp_id_key ident) := None)\<rparr>)"
proof -
  let ?i = "(sl, sp_id_key ident)"
  obtain M L where W: "tries_ok db M" "heap_ok (heap db) M L" "V = view_of (heap db) M L" "idx_ok (heap db) M" by (rule db_repE [OF R])
  obtain t1 where t1: "etdb_trie_erase (tries db sl) (sp_id_key ident) = Some (t1, case M ?i of None \<Rightarrow> -1 | Some v \<Rightarrow> v)"
    "\<And>db'. tries db' = tries db \<Longrightarrow> tries_ok (put_trie sl t1 db') (M(?i := None))"
    by (rule tries_del [OF W(1) sl, of "sp_id_key ident"]) blast
  show ?thesis
  proof (cases "M ?i")
    case None
    then have "M(?i := None) = M" "pts V ?i = None" by (auto simp: W(3) view_of_def)
    then have "db_rep (put_trie sl t1 db) V" unfolding db_rep_def using W(2,3,4) t1(2) [of db] by auto
    moreover have "V\<lparr>pts := (pts V)(?i := None)\<rparr> = V" using \<open>pts V ?i = None\<close> by (simp add: fun_upd_idem)
    ultimately show ?thesis using t1(1) None \<open>pts V ?i = None\<close> by (simp add: etdb_database_sp_del_def)
  next
    case (Some p)
    let ?o = "geo_hash_code (vsp (heap db) p)"
    have p0: "0 < p" using tries_okD(3) [OF W(1) Some] by simp
    obtain t2 v where t2: "etdb_trie_erase t1 (sp_index_key ?o ident) = Some (t2, v)"
      "\<And>db'. tries db' = tries (put_trie sl t1 db) \<Longrightarrow> tries_ok (put_trie sl t2 db') (M(?i := None, (sl, sp_index_key ?o ident) := None))"
      by (rule tries_del [OF t1(2) [OF refl] sl, of "sp_index_key ?o ident"]) simp
    let ?db = "free_value p (put_trie sl t2 db)" and ?M = "M(?i := None, (sl, sp_index_key ?o ident) := None)"
    have h: "heap ?db = etdb_free p (heap db)" by (simp add: free_value_def)
    have T: "tries_ok ?db ?M"
      using t2(2) [OF refl] tries_ok_cong [of ?db "put_trie sl t2 (put_trie sl t1 db)"] by (simp add: free_value_def)
    have H: "heap_ok (heap ?db) ?M L"
      unfolding h by (intro heap_ok_plain heap_ok_free [OF W(2) Some] sp_head_keys)
    have vs: "value_bytes (heap ?db) = value_bytes (heap db)" "vsp (heap ?db) = vsp (heap db)"
      by (simp_all add: h etdb_free_def value_bytes_def fun_eq_iff)
    have "db_rep ?db (V\<lparr>pts := (pts V)(?i := map_option (vsp (heap ?db)) None)\<rparr>)"
      unfolding W(3)
      by (rule point_changed [OF T H W(4) point_places_cases(4) [OF W(4) idx_entry(1) [OF W(4)] Some refl] places_no_empty [OF W(1)] vs(1)])
        (use vs(2) Some in auto)
    moreover have "pts V ?i \<noteq> None" using Some by (simp add: W(3) view_of_def)
    ultimately show ?thesis using t1(1) t2(1) Some p0 by (simp add: etdb_database_sp_del_def)
  qed
qed

section \<open>Search by rectangle\<close>

text \<open>
  What \<open>etdb_database_sp_rect\<close> keeps of the entries below its search key: ids with a byte 0 are left
  out by the search in the trie.
\<close>

lemma search_key_take: "length hash \<le> 12 \<Longrightarrow> sp_search_key hash (int (length hash)) = ETDB_SPATIAL_POINT_HEAD2 # hash"
  by (simp add: sp_search_key_def nat_add_distrib)

lemma good_nonzero: "good_point h \<Longrightarrow> 0 \<notin> set (geo_hash_code h)"
  using encode_shape(2) [of 9 "lat_d h" "lon_d h"]
  by (simp add: good_point_def bad_coords_def ETDB_GEO_HASH_PRECISION_LEN_def not_less)

lemma good_prefix:
  assumes "good_point h" "\<not> outside_rect a1 a2 b1 b2 h"
    "etdb_geo_hash_get_max_cover a1 a2 b1 b2 (int ETDB_GEO_HASH_PRECISION_LEN) = (hash, q)"
  shows "take (length hash) (geo_hash_code h) = hash" "0 \<notin> set (geo_hash_code h)"
  using max_cover_prefix [of 9 a1 "lat_d h" a2 b1 "lon_d h" b2 hash q] encode_shape(2) [of 9 "lat_d h" "lon_d h"] assms
  by (simp_all add: good_point_def bad_coords_def outside_rect_def ETDB_GEO_HASH_PRECISION_LEN_def not_less)

definition rect_ids :: "view \<Rightarrow> int \<Rightarrow> rat \<Rightarrow> rat \<Rightarrow> rat \<Rightarrow> rat \<Rightarrow> bytes set" where
  "rect_ids V sl a1 a2 b1 b2 =
     {i. 0 \<notin> set i \<and> (\<exists>h. pts V (sl, sp_id_key i) = Some h \<and>
        a1 \<le> lat_d h \<and> lat_d h \<le> a2 \<and> b1 \<le> lon_d h \<and> lon_d h \<le> b2)}"

lemma rect_ids_iff:
  "i \<in> rect_ids V sl a1 a2 b1 b2 \<longleftrightarrow>
     0 \<notin> set i \<and> (\<exists>h. pts V (sl, sp_id_key i) = Some h \<and> \<not> outside_rect a1 a2 b1 b2 h)"
  by (auto simp: rect_ids_def outside_rect_def not_less)

lemma cover_size:
  assumes "etdb_geo_hash_get_max_cover a1 a2 b1 b2 (int ETDB_GEO_HASH_PRECISION_LEN) = (hash, q)"
    "a1 \<le> a2" "b1 \<le> b2" "\<not> bad_coords a1 b1"
  shows "length hash \<le> 9" "hash \<noteq> [] \<Longrightarrow> q = int (length hash)" "hash = [] \<Longrightarrow> q = 9"
proof -
  have c: "take (length hash) (etdb_geo_hash_encode a1 b1 9) = hash \<and>
      (hash \<noteq> [] \<longrightarrow> q = int (length hash)) \<and> (hash = [] \<longrightarrow> q = 9)"
    by (rule max_cover_prefix [of 9 a1 a1 a2 b1 b1 b2])
      (use assms in \<open>simp_all add: bad_coords_def ETDB_GEO_HASH_PRECISION_LEN_def\<close>)
  have "length (take (length hash) (etdb_geo_hash_encode a1 b1 9)) \<le> 9"
    using encode_shape(1) [of 9 a1 b1] assms(4) by (simp add: bad_coords_def)
  then show "length hash \<le> 9" using c by simp
  show "hash \<noteq> [] \<Longrightarrow> q = int (length hash)" "hash = [] \<Longrightarrow> q = 9" using c by blast+
qed

text \<open>The entries below a prefix of geohashes, cut and filtered, are the points of the rectangle.\<close>

lemma rect_entries:
  assumes W: "heap_ok m M L" "V = view_of m M L" "idx_ok m M"
    and c: "etdb_geo_hash_get_max_cover a1 a2 b1 b2 (int ETDB_GEO_HASH_PRECISION_LEN) = (hash, q)" "length hash \<le> 9"
    and K: "listed (\<lambda>k. M (sl, k)) (ETDB_SPATIAL_POINT_HEAD2 # hash) UNIV kws"
    and e: "es = entries (\<lambda>k. M (sl, k)) (ETDB_SPATIAL_POINT_HEAD2 # hash) [] kws"
  shows "distinct (map (\<lambda>(s, _). drop (9 - length hash) s) (filter (\<lambda>(_, p). \<not> outside_rect a1 a2 b1 b2 (vsp m p)) es))"
    "set (map (\<lambda>(s, _). drop (9 - length hash) s) (filter (\<lambda>(_, p). \<not> outside_rect a1 a2 b1 b2 (vsp m p)) es)) =
      {i \<in> rect_ids V sl a1 a2 b1 b2. i \<noteq> [] \<or> length hash < 9}"
proof -
  let ?n = "9 - length hash" and ?m = "\<lambda>k. M (sl, k)" and ?h = "ETDB_SPATIAL_POINT_HEAD2 # hash"
  have kw: "ws \<in> set kws \<longleftrightarrow> ws \<noteq> [] \<and> 0 \<notin> set ws \<and> M (sl, ?h @ ws) \<noteq> None" for ws
    using K by (auto simp: listed_def below_def neq_Nil_conv)
  have entry: "M (sl, ?h @ ws) = Some p \<longleftrightarrow> M (sl, sp_id_key (drop ?n ws)) = Some p \<and> hash @ take ?n ws = geo_hash_code (vsp m p)"
    for ws p
    using W(3) c(2) by (simp add: idx_ok_def point_code_def)
  have inj: "ws = ws'" if "ws \<in> set kws" "ws' \<in> set kws" "drop ?n ws = drop ?n ws'" for ws ws'
  proof -
    note k = that
    obtain p p' where "M (sl, ?h @ ws) = Some p" "M (sl, ?h @ ws') = Some p'" using kw k(1,2) by blast
    then have "M (sl, sp_id_key (drop ?n ws)) = Some p" "hash @ take ?n ws = geo_hash_code (vsp m p)"
      "M (sl, sp_id_key (drop ?n ws')) = Some p'" "hash @ take ?n ws' = geo_hash_code (vsp m p')"
      using entry by blast+
    then have "hash @ take ?n ws = hash @ take ?n ws'" using k(3) by auto
    then have "take ?n ws = take ?n ws'" by (simp only: same_append_eq)
    then show ?thesis using k(3) by (metis append_take_drop_id)
  qed
  have ids: "map (\<lambda>(s, _). drop ?n s) (filter (\<lambda>(_, p). \<not> outside_rect a1 a2 b1 b2 (vsp m p)) es) =
      map (drop ?n) (filter (\<lambda>ws. \<not> outside_rect a1 a2 b1 b2 (vsp m (the (M (sl, ?h @ ws))))) kws)"
    unfolding e entries_def by (induction kws) auto
  have "distinct kws" using K by (simp add: listed_def)
  then show "distinct (map (\<lambda>(s, _). drop ?n s) (filter (\<lambda>(_, p). \<not> outside_rect a1 a2 b1 b2 (vsp m p)) es))"
    unfolding ids distinct_map using inj by (auto simp: inj_on_def)
  have "(\<exists>ws. ws \<in> set kws \<and> i = drop ?n ws \<and> \<not> outside_rect a1 a2 b1 b2 (vsp m (the (M (sl, ?h @ ws))))) \<longleftrightarrow>
      i \<in> rect_ids V sl a1 a2 b1 b2 \<and> (i \<noteq> [] \<or> length hash < 9)" for i
  proof
    assume "\<exists>ws. ws \<in> set kws \<and> i = drop ?n ws \<and> \<not> outside_rect a1 a2 b1 b2 (vsp m (the (M (sl, ?h @ ws))))"
    then obtain ws p where w: "ws \<in> set kws" "i = drop ?n ws" "M (sl, ?h @ ws) = Some p" "\<not> outside_rect a1 a2 b1 b2 (vsp m p)"
      using kw by fastforce
    then have "0 \<notin> set i" using kw by (auto dest: in_set_dropD)
    moreover have "i \<noteq> [] \<or> length hash < 9" using w(1,2) kw [of ws] by (cases "length hash < 9") simp_all
    ultimately show "i \<in> rect_ids V sl a1 a2 b1 b2 \<and> (i \<noteq> [] \<or> length hash < 9)"
      using w entry by (auto simp: rect_ids_iff W(2) view_of_def)
  next
    assume i: "i \<in> rect_ids V sl a1 a2 b1 b2 \<and> (i \<noteq> [] \<or> length hash < 9)"
    then obtain p where p: "M (sl, sp_id_key i) = Some p" "\<not> outside_rect a1 a2 b1 b2 (vsp m p)" "0 \<notin> set i"
      by (auto simp: rect_ids_iff W(2) view_of_def)
    have g: "good_point (vsp m p)" "length (geo_hash_code (vsp m p)) = 9" using idx_entry(1,2) [OF W(3)] p(1) by simp_all
    note pre = good_prefix [OF g(1) p(2) c(1)]
    let ?ws = "drop (length hash) (geo_hash_code (vsp m p)) @ i"
    have ws: "hash @ ?ws = geo_hash_code (vsp m p) @ i" using pre(1) by (metis append.assoc append_take_drop_id)
    have d: "drop ?n ?ws = i" "hash @ take ?n ?ws = geo_hash_code (vsp m p)"
      using g(2) pre(1) by (simp_all, metis append_take_drop_id)
    then have "M (sl, ?h @ ?ws) = Some p" using entry p(1) by simp
    moreover have "?ws \<noteq> []" "0 \<notin> set ?ws" using i g(2) p(3) pre(2) by (auto dest: in_set_dropD)
    ultimately show "\<exists>ws. ws \<in> set kws \<and> i = drop ?n ws \<and> \<not> outside_rect a1 a2 b1 b2 (vsp m (the (M (sl, ?h @ ws))))"
      using kw d(1) p(2) by (intro exI [of _ ?ws]) simp
  qed
  then have "i \<in> set (map (drop ?n) (filter (\<lambda>ws. \<not> outside_rect a1 a2 b1 b2 (vsp m (the (M (sl, ?h @ ws))))) kws)) \<longleftrightarrow>
      i \<in> rect_ids V sl a1 a2 b1 b2 \<and> (i \<noteq> [] \<or> length hash < 9)" for i
    by (auto simp: image_iff)
  then show "set (map (\<lambda>(s, _). drop ?n s) (filter (\<lambda>(_, p). \<not> outside_rect a1 a2 b1 b2 (vsp m p)) es)) =
      {i \<in> rect_ids V sl a1 a2 b1 b2. i \<noteq> [] \<or> length hash < 9}"
    unfolding ids by blast
qed

lemma sp_rect_rep:
  assumes R: "db_rep db V" and sl: "is_slot sl"
    and c: "coords lat1 lon1 = Some (a1, b1)" "coords lat2 lon2 = Some (a2, b2)" "a1 \<le> a2" "b1 \<le> b2"
    and cover: "etdb_geo_hash_get_max_cover a1 a2 b1 b2 (int ETDB_GEO_HASH_PRECISION_LEN) = (hash, q)"
  shows "\<exists>ids. etdb_database_sp_rect sl lat1 lat2 lon1 lon2 db = Some (0, ids) \<and> distinct ids \<and>
    (if hash = [] then ids = [] else set ids = {i \<in> rect_ids V sl a1 a2 b1 b2. i \<noteq> [] \<or> length hash < 9})"
proof -
  obtain M L where W: "tries_ok db M" "heap_ok (heap db) M L" "V = view_of (heap db) M L" "idx_ok (heap db) M" by (rule db_repE [OF R])
  obtain r1 r3 where c1: "etdb_atof lat1 = (r1, a1)" "etdb_atof lon1 = (r3, b1)" "r1 \<noteq> -1" "r3 \<noteq> -1" "\<not> bad_coords a1 b1"
    by (rule coordsE [OF c(1)])
  obtain r2 r4 where c2: "etdb_atof lat2 = (r2, a2)" "etdb_atof lon2 = (r4, b2)" "r2 \<noteq> -1" "r4 \<noteq> -1" "\<not> bad_coords a2 b2"
    by (rule coordsE [OF c(2)])
  note S = cover_size [OF cover c(3,4) c1(5)]
  let ?key = "sp_search_key hash q" and ?keep = "\<lambda>(_, p). \<not> outside_rect a1 a2 b1 b2 (vsp (heap db) p)"
  have nv: "v \<noteq> ETDB_TRIE_NO_PATH \<and> v \<noteq> ETDB_TRIE_NO_VALUE" if "M (sl, key) = Some v" for key v
    using tries_okD(3) [OF W(1) that] by (simp add: ETDB_TRIE_NO_PATH_def ETDB_TRIE_NO_VALUE_def)
  obtain code kws where P: "etdb_trie_common_prefix_path_search (tries db sl) ?key [] [] =
      Some (code, [] @ entries (\<lambda>k. M (sl, k)) ?key [] kws)" "listed (\<lambda>k. M (sl, k)) ?key UNIV kws"
    using path_search_run [OF tries_okD(1) [OF W(1) sl], of ?key "[]" "[]"] nv by blast
  let ?ids = "map (\<lambda>(s, _). drop (nat (9 - q)) s) (filter ?keep (entries (\<lambda>k. M (sl, k)) ?key [] kws))"
  have run: "etdb_database_sp_rect sl lat1 lat2 lon1 lon2 db = Some (0, ?ids)"
    using c1 c2 P(1) cover by (simp add: etdb_database_sp_rect_def Let_def ETDB_GEO_HASH_PRECISION_LEN_def)
  show ?thesis
  proof (cases "hash = []")
    case True
    have "?key = ETDB_SPATIAL_POINT_HEAD2 # replicate 9 0" using S(3) True by (simp add: sp_search_key_def)
    moreover have "M (sl, ETDB_SPATIAL_POINT_HEAD2 # replicate 9 0 @ ws) = None" for ws
    proof (cases "M (sl, ETDB_SPATIAL_POINT_HEAD2 # replicate 9 0 @ ws)")
      case (Some p)
      then have "M (sl, ETDB_SPATIAL_POINT_HEAD1 # ws) = Some p" "replicate 9 0 = geo_hash_code (vsp (heap db) p)"
        using W(4) by (auto simp: idx_ok_def point_code_def)
      moreover from this have "0 \<notin> set (geo_hash_code (vsp (heap db) p))"
        using idx_entry(2) [OF W(4)] good_nonzero by blast
      ultimately show ?thesis by (metis in_set_replicate zero_neq_numeral)
    qed simp
    ultimately have "set kws = {}" using P(2) by (auto simp: listed_def below_def)
    then have "?ids = []" by (simp add: entries_def)
    then show ?thesis using run True by auto
  next
    case False
    have q: "q = int (length hash)" by (rule S(2) [OF False])
    have k: "?key = ETDB_SPATIAL_POINT_HEAD2 # hash" unfolding q by (rule search_key_take) (use S(1) in simp)
    have n: "nat (9 - q) = 9 - length hash" by (simp add: q nat_diff_distrib)
    note E = rect_entries [OF W(2,3,4) cover S(1) P(2) [unfolded k] refl]
    show ?thesis using run E unfolding k n by (simp add: False)
  qed
qed

section \<open>Properties\<close>

text \<open>
  C8: setting a spatial point stores its coordinates and geohash under its id when both numbers
  parse and lie on the globe, and otherwise answers -1 and changes nothing; deleting removes it;
  reading yields it. In every case the index keeps exactly one entry for each point, under its
  current geohash (it is part of \<open>db_rep\<close>).
\<close>

theorem etdb_database_sp_refines:
  assumes "db_rep db V" "is_slot sl" "fresh_alloc alloc"
  shows "(\<exists>db'. etdb_database_sp_set alloc sl ident lat lon db = Some (if coords lat lon = None then -1 else 0, db') \<and>
      db_rep db' (case coords lat lon of None \<Rightarrow> V
        | Some (x, y) \<Rightarrow> V\<lparr>pts := (pts V)((sl, sp_id_key ident) \<mapsto> placed (pts V (sl, sp_id_key ident)) x y)\<rparr>)) \<and>
    (\<exists>db'. etdb_database_sp_del sl ident db = Some (if pts V (sl, sp_id_key ident) = None then -1 else 0, db') \<and>
      db_rep db' (V\<lparr>pts := (pts V)((sl, sp_id_key ident) := None)\<rparr>)) \<and>
    etdb_database_sp_get sl ident db =
      (case pts V (sl, sp_id_key ident) of None \<Rightarrow> (-1, 0, 0, []) | Some h \<Rightarrow> (0, lat_d h, lon_d h, geo_hash_code h))"
  by (intro conjI sp_set_rep sp_del_rep sp_get_rep assms)

theorem etdb_database_sp_refines_witness:
  "\<exists>db'. etdb_database_sp_set example_alloc 0 [105] [51, 49] [49, 50, 49] new_db = Some (0, db') \<and>
     db_rep db' (empty_view\<lparr>pts := (pts empty_view)((0, sp_id_key [105]) \<mapsto> placed None 31 121)\<rparr>)"
proof -
  have "coords [51, 49] [49, 50, 49] = Some (31, 121)"
    by (simp add: coords_def atof_digits bad_coords_def is_digit_def dec_val_def digit_val_def)
  then show ?thesis
    using etdb_database_sp_refines [OF new_db _ example_alloc, of 0 "[105]" "[51, 49]" "[49, 50, 49]"]
    by (simp add: is_slot_def ETDB_DATABASE_MAX_SLOT_def empty_view_def)
qed


lemma example_cover: "etdb_geo_hash_get_max_cover 31 32 121 122 9 = ([119, 116, 119], 3)"
  by (simp add: etdb_geo_hash_get_max_cover_def cover_loop.simps Let_def etdb_geo_hash_char_map_def)


end
