(* ===== verification/Store_Session.thy ===== *)
theory Store_Session
  imports Store_Lists Store_Points
begin

text \<open>
  Databases in use: the states that the operations of \<open>src/etdb_database.c\<close> reach from a new
  database, in any order, in any slots. Each has a view, and no key names a freed value.
\<close>

inductive db_step :: "(addr set \<Rightarrow> addr) \<Rightarrow> etdb_database \<Rightarrow> etdb_database \<Rightarrow> bool"
  for alloc :: "addr set \<Rightarrow> addr" where
  kv_set: "is_slot sl \<Longrightarrow> etdb_database_kv_set alloc sl key value db = Some (r, db') \<Longrightarrow> db_step alloc db db'"
| kv_del: "is_slot sl \<Longrightarrow> etdb_database_kv_del sl key db = Some (r, db') \<Longrightarrow> db_step alloc db db'"
| hash_set: "is_slot sl \<Longrightarrow> etdb_database_hash_set alloc sl name key value db = Some (r, db') \<Longrightarrow>
    db_step alloc db db'"
| hash_del: "is_slot sl \<Longrightarrow> etdb_database_hash_del sl name key db = Some (r, db') \<Longrightarrow> db_step alloc db db'"
| set_add: "is_slot sl \<Longrightarrow> etdb_database_set_add sl name key db = Some (r, db') \<Longrightarrow> db_step alloc db db'"
| set_del: "is_slot sl \<Longrightarrow> etdb_database_set_del sl name key db = Some (r, db') \<Longrightarrow> db_step alloc db db'"
| list_lpush: "is_slot sl \<Longrightarrow> length value < 2 ^ 32 \<Longrightarrow> etdb_database_list_lpush alloc sl name value db = Some (r, db') \<Longrightarrow>
    db_step alloc db db'"
| list_rpush: "is_slot sl \<Longrightarrow> length value < 2 ^ 32 \<Longrightarrow> etdb_database_list_rpush alloc sl name value db = Some (r, db') \<Longrightarrow>
    db_step alloc db db'"
| list_lpop: "is_slot sl \<Longrightarrow> etdb_database_list_lpop sl name db = Some (r, db') \<Longrightarrow> db_step alloc db db'"
| list_rpop: "is_slot sl \<Longrightarrow> etdb_database_list_rpop sl name db = Some (r, db') \<Longrightarrow> db_step alloc db db'"
| sp_set: "is_slot sl \<Longrightarrow> etdb_database_sp_set alloc sl ident lat lon db = Some (r, db') \<Longrightarrow> db_step alloc db db'"
| sp_del: "is_slot sl \<Longrightarrow> etdb_database_sp_del sl ident db = Some (r, db') \<Longrightarrow> db_step alloc db db'"

inductive db_reach :: "(addr set \<Rightarrow> addr) \<Rightarrow> etdb_database \<Rightarrow> bool" for alloc :: "addr set \<Rightarrow> addr" where
  start: "live (heap raw) = {} \<Longrightarrow> etdb_database_init None raw = (r, db) \<Longrightarrow> db_reach alloc db"
| step: "db_reach alloc db \<Longrightarrow> db_step alloc db db' \<Longrightarrow> db_reach alloc db'"

lemma ex_same: "\<exists>y. f = Some (c, y) \<and> P y \<Longrightarrow> f = Some (r, z) \<Longrightarrow> P z"
  by auto

lemma step_rep:
  assumes "db_step alloc db db'" "db_rep db V" "fresh_alloc alloc"
  shows "\<exists>V'. db_rep db' V'"
  using assms
proof (cases rule: db_step.cases)
  case (kv_set sl key "value" r)
  show ?thesis by (rule exI, rule ex_same [OF kv_set_rep [OF assms(2) kv_set(1) assms(3)] kv_set(2)])
next
  case (kv_del sl key r)
  show ?thesis by (rule exI, rule ex_same [OF kv_del_rep [OF assms(2) kv_del(1)] kv_del(2)])
next
  case (hash_set sl name key "value" r)
  show ?thesis by (rule exI, rule ex_same [OF hash_set_rep [OF assms(2) hash_set(1) assms(3)] hash_set(2)])
next
  case (hash_del sl name key r)
  show ?thesis by (rule exI, rule ex_same [OF hash_del_rep [OF assms(2) hash_del(1)] hash_del(2)])
next
  case (set_add sl name key r)
  show ?thesis by (rule exI, rule ex_same [OF set_add_rep [OF assms(2) set_add(1)] set_add(2)])
next
  case (set_del sl name key r)
  show ?thesis by (rule exI, rule ex_same [OF set_del_rep [OF assms(2) set_del(1)] set_del(2)])
next
  case (list_lpush sl "value" name r)
  show ?thesis by (rule exI, rule ex_same [OF list_push_rep [OF assms(2) list_lpush(1) pushes_both(1) assms(3) list_lpush(2)] list_lpush(3) [unfolded etdb_database_list_lpush_def]])
next
  case (list_rpush sl "value" name r)
  show ?thesis by (rule exI, rule ex_same [OF list_push_rep [OF assms(2) list_rpush(1) pushes_both(2) assms(3) list_rpush(2)] list_rpush(3) [unfolded etdb_database_list_rpush_def]])
next
  case (list_lpop sl name r)
  show ?thesis by (rule exI, rule ex_same [OF list_pop_rep [OF assms(2) list_lpop(1) pops_both(1) pops_length(1)] list_lpop(2) [unfolded etdb_database_list_lpop_def]])
next
  case (list_rpop sl name r)
  show ?thesis by (rule exI, rule ex_same [OF list_pop_rep [OF assms(2) list_rpop(1) pops_both(2) pops_length(2)] list_rpop(2) [unfolded etdb_database_list_rpop_def]])
next
  case (sp_set sl ident lat lon r)
  show ?thesis by (rule exI, rule ex_same [OF sp_set_rep [OF assms(2) sp_set(1) assms(3)] sp_set(2)])
next
  case (sp_del sl ident r)
  show ?thesis by (rule exI, rule ex_same [OF sp_del_rep [OF assms(2) sp_del(1)] sp_del(2)])
qed

lemma reach_rep:
  assumes "db_reach alloc db" "fresh_alloc alloc"
  shows "\<exists>V. db_rep db V"
  using assms
proof (induction rule: db_reach.induct)
  case (start raw r db)
  then show ?case using init_db_rep [of raw] by (metis snd_conv)
next
  case (step db db')
  then show ?case using step_rep by blast
qed

text \<open>No key names a freed value.\<close>

definition no_dangling :: "etdb_database \<Rightarrow> int \<Rightarrow> bytes \<Rightarrow> bool" where
  "no_dangling db sl k =
     (let p = etdb_trie_exact_match_search (tries db sl) k
      in hd k = ETDB_SET_HEAD \<or> p < 0 \<or> p \<in> live (heap db))"

lemma rep_no_dangling:
  assumes R: "db_rep db V" and sl: "is_slot sl"
  shows "no_dangling db sl k"
proof -
  obtain M L where W: "tries_ok db M" "heap_ok (heap db) M L" "V = view_of (heap db) M L" "idx_ok (heap db) M" by (rule db_repE [OF R])
  show ?thesis
  proof (cases "M (sl, k)")
    case None
    then show ?thesis using tries_get(2) [OF W(1) sl, of k] by (simp add: no_dangling_def Let_def)
  next
    case (Some p)
    have k: "k \<noteq> []" "hd k \<in> key_heads" using tries_okD(3) [OF W(1) Some] by blast+
    have e: "etdb_trie_exact_match_search (tries db sl) k = p" using tries_get(1) [OF W(1) sl, of k] Some by simp
    consider "hd k = ETDB_SET_HEAD" | "owner (sl, k)" | "hd k = ETDB_LIST_HEAD" | "hd k = ETDB_SPATIAL_POINT_HEAD2"
      using k(2) by (auto simp: key_heads_def owner_def)
    then have "hd k = ETDB_SET_HEAD \<or> p \<in> live (heap db)"
    proof cases
      case 2
      then show ?thesis using owner_live [OF W(2) Some] by simp
    next
      case 3
      obtain vs where "L p = Some vs" by (rule list_lookup [OF W(2) Some]) (simp_all add: 3)
      then show ?thesis using lists_head_live [OF heap_okD(3) [OF W(2)]] by auto
    next
      case 4
      then obtain r where "k = ETDB_SPATIAL_POINT_HEAD2 # r" using k(1) by (cases k) auto
      then have "M (sl, sp_id_key (drop 9 r)) = Some p" using W(4) Some by (simp add: idx_ok_def)
      then show ?thesis using owner_live [OF W(2) _ sp_head_keys(5)] by blast
    qed simp
    then show ?thesis by (auto simp: no_dangling_def Let_def e)
  qed
qed

text \<open>
  C4: in every state the database can reach from its initialisation by its operations in any order,
  the address that a trie holds for the key of a string, a list, a point or an index entry is that of
  an allocated value: nothing is freed while a key still names it.
\<close>

theorem etdb_database_no_dangling:
  assumes "db_reach alloc db" "fresh_alloc alloc" "is_slot sl"
  shows "no_dangling db sl k"
  using reach_rep [OF assms(1,2)] rep_no_dangling [OF _ assms(3)] by blast

theorem etdb_database_no_dangling_witness:
  "\<exists>db. etdb_database_kv_set example_alloc 0 [1] [2] new_db = Some (0, db) \<and> no_dangling db 0 (encode_kv_head [1])"
proof -
  have sl: "is_slot 0" by (simp add: is_slot_def ETDB_DATABASE_MAX_SLOT_def)
  have "db_reach example_alloc new_db"
    by (rule db_reach.start [of "\<lparr>tries = undefined, heap = empty_heap\<rparr>" "fst (etdb_database_init None \<lparr>tries = undefined, heap = empty_heap\<rparr>)"])
      (simp_all add: empty_heap_def new_db_def)
  moreover obtain db where db: "etdb_database_kv_set example_alloc 0 [1] [2] new_db = Some (0, db)"
    using kv_set_rep [OF new_db sl example_alloc, of "[1]" "[2]"] by auto
  ultimately have "db_reach example_alloc db" using db_reach.step db_step.kv_set [OF sl db] by blast
  then show ?thesis using etdb_database_no_dangling [OF _ example_alloc sl, of db] db by blast
qed

end
