(* ===== verification/Service.thy ===== *)
theory Service
  imports Serv Store_Session
begin

text \<open>
  The parts of a request put together: the table of commands that \<open>etdb_module_init\<close> builds, the
  lookup of a command in it, the handlers on the represented database, and the answer queued for
  the client.
\<close>

section \<open>The table of commands\<close>

text \<open>The names with the places of their commands, in the order of the insertions.\<close>

fun rows :: "int \<Rightarrow> int \<Rightarrow> etdb_command list \<Rightarrow> (bytes \<times> int \<times> int) list" where
  "rows pos idx [] = []"
| "rows pos idx (c # cs) = (cmd_name c, pos, idx) # rows pos (idx + 1) cs"

fun module_rows :: "int \<Rightarrow> etdb_module list \<Rightarrow> (bytes \<times> int \<times> int) list" where
  "module_rows pos [] = []"
| "module_rows pos (m # ms) = rows pos 0 (case commands m of None \<Rightarrow> [] | Some cs \<Rightarrow> cs) @ module_rows (pos + 1) ms"

definition place_value :: "int \<times> int \<Rightarrow> int" where
  "place_value p = push_bit 16 (fst p) OR snd p"

text \<open>The trie holds the values of the places of a list of rows.\<close>

definition holds :: "trie \<Rightarrow> (bytes \<times> int \<times> int) list \<Rightarrow> bool" where
  "holds t es \<longleftrightarrow> trie_rep t (\<lambda>k. map_option place_value (map_of es k))"

lemma holds_insert:
  assumes "holds t es" "k \<noteq> []" "k \<notin> fst ` set es"
  shows "\<exists>t'. etdb_trie_update t k (place_value p) = Some (t', 0) \<and> holds t' (es @ [(k, p)])"
proof -
  let ?m = "\<lambda>k. map_option place_value (map_of es k)"
  have n: "map_of es k = None" using assms(3) by (simp add: map_of_eq_None_iff)
  have e: "?m(k \<mapsto> place_value p) = (\<lambda>k'. map_option place_value (map_of (es @ [(k, p)]) k'))"
    using n by (auto simp: fun_eq_iff map_add_def split: option.split)
  show ?thesis
    using update_refines [of t ?m k "place_value p"] assms(1,2) n e by (auto simp: holds_def)
qed

lemma insert_commands_spec:
  assumes "holds t es" "distinct (map fst (es @ rows pos idx cs))" "\<forall>c\<in>set cs. cmd_name c \<noteq> []"
  shows "\<exists>t'. insert_commands (push_bit 16 pos) idx cs t = Some (t', 0) \<and> holds t' (es @ rows pos idx cs)"
  using assms
proof (induction cs arbitrary: t es idx)
  case (Cons c cs)
  obtain t1 where t1: "etdb_trie_update t (cmd_name c) (push_bit 16 pos OR idx) = Some (t1, 0)"
    "holds t1 (es @ [(cmd_name c, pos, idx)])"
    using holds_insert [OF Cons.prems(1), of "cmd_name c" "(pos, idx)"] Cons.prems(2,3) by (auto simp: place_value_def)
  have "distinct (map fst ((es @ [(cmd_name c, pos, idx)]) @ rows pos (idx + 1) cs))" using Cons.prems(2) by simp
  from Cons.IH [OF t1(2) this] Cons.prems(3) obtain t2 where
    "insert_commands (push_bit 16 pos) (idx + 1) cs t1 = Some (t2, 0)" "holds t2 (es @ rows pos idx (c # cs))"
    by auto
  then show ?case using t1(1) by simp
qed auto

definition names_given :: "etdb_module list \<Rightarrow> bool" where
  "names_given ms \<longleftrightarrow> (\<forall>m\<in>set ms. init_handler m = None \<and>
     (\<forall>cs. commands m = Some cs \<longrightarrow> (\<forall>c\<in>set cs. cmd_name c \<noteq> [])))"

lemma init_modules_spec:
  assumes "holds t es" "distinct (map fst (es @ module_rows pos ms))" "names_given ms"
  shows "\<exists>ms' t'. init_modules pos ms t = Some (ms', t', 0) \<and> holds t' (es @ module_rows pos ms) \<and>
    map commands ms' = map commands ms"
  using assms
proof (induction ms arbitrary: t es pos)
  case (Cons m ms)
  have n: "init_handler m = None" "names_given ms" using Cons.prems(3) by (simp_all add: names_given_def)
  show ?case
  proof (cases "commands m")
    case None
    then show ?thesis using Cons.IH [of t es "pos + 1"] Cons.prems n by fastforce
  next
    case (Some cs)
    have "distinct (map fst (es @ rows pos 0 cs))" "\<forall>c\<in>set cs. cmd_name c \<noteq> []"
      using Cons.prems(2,3) Some by (auto simp: names_given_def)
    from insert_commands_spec [OF Cons.prems(1) this] obtain t1 where
      t1: "insert_commands (push_bit 16 pos) 0 cs t = Some (t1, 0)" "holds t1 (es @ rows pos 0 cs)" by blast
    moreover have "distinct (map fst ((es @ rows pos 0 cs) @ module_rows (pos + 1) ms))" using Cons.prems(2) Some by simp
    ultimately obtain ms' t2 where "init_modules (pos + 1) ms t1 = Some (ms', t2, 0)"
      "holds t2 (es @ module_rows pos (m # ms))" "map commands ms' = map commands ms"
      using Cons.IH [OF t1(2) _ n(2), of "pos + 1"] Some by auto
    then show ?thesis using t1(1) n(1) Some by simp
  qed
qed auto

lemma rows_index: "(k, p, i) \<in> set (rows pos idx cs) \<Longrightarrow>
    p = pos \<and> idx \<le> i \<and> i < idx + int (length cs) \<and> cmd_name (cs ! nat (i - idx)) = k"
proof (induction cs arbitrary: idx)
  case (Cons c cs)
  consider "k = cmd_name c" "p = pos" "i = idx" | "(k, p, i) \<in> set (rows pos (idx + 1) cs)" using Cons.prems by auto
  then show ?case
  proof cases
    case 2
    from Cons.IH [OF this] have "idx + 1 \<le> i" by blast
    then have "nat (i - idx) = Suc (nat (i - (idx + 1)))" by simp
    then show ?thesis using Cons.IH [OF 2] by auto
  qed simp
qed simp

lemma module_rows_index: "(k, p, i) \<in> set (module_rows pos ms) \<Longrightarrow>
    pos \<le> p \<and> p < pos + int (length ms) \<and> 0 \<le> i \<and>
    (\<exists>cs. commands (ms ! nat (p - pos)) = Some cs \<and> i < int (length cs) \<and> cmd_name (cs ! nat i) = k)"
proof (induction ms arbitrary: pos)
  case (Cons m ms)
  consider cs where "commands m = Some cs" "(k, p, i) \<in> set (rows pos 0 cs)" | "(k, p, i) \<in> set (module_rows (pos + 1) ms)"
    using Cons.prems by (auto split: option.splits)
  then show ?case
  proof cases
    case 1
    then show ?thesis using rows_index [OF 1(2)] by auto
  next
    case 2
    from Cons.IH [OF this] have "pos + 1 \<le> p" by blast
    then have "nat (p - pos) = Suc (nat (p - (pos + 1)))" by simp
    then show ?thesis using Cons.IH [OF 2] by auto
  qed
qed simp

definition small_tables :: "etdb_module list \<Rightarrow> bool" where
  "small_tables ms \<longleftrightarrow> (\<forall>m\<in>set ms. \<forall>cs. commands m = Some cs \<longrightarrow> length cs < 65536)"

lemma find_holds:
  assumes "holds t (module_rows 0 ms)" "small_tables ms"
  shows "etdb_module_find_command t s = map_of (module_rows 0 ms) s"
proof (cases "map_of (module_rows 0 ms) s")
  case None
  then show ?thesis using exact_match_lookup [OF assms(1) [unfolded holds_def], of s]
    by (simp add: etdb_module_find_command_def lookup_code_def)
next
  case (Some p)
  then have "(s, fst p, snd p) \<in> set (module_rows 0 ms)" by (simp add: map_of_SomeD)
  from module_rows_index [OF this] obtain cs where p: "0 \<le> fst p" "fst p < int (length ms)" "0 \<le> snd p"
    "commands (ms ! nat (fst p)) = Some cs" "snd p < int (length cs)" by auto
  then have "ms ! nat (fst p) \<in> set ms" by simp
  then have "length cs < 65536" using assms(2) p(4) unfolding small_tables_def by blast
  then have i: "snd p < 65536" using p(5) by simp
  have v: "0 \<le> place_value p" using p by (simp add: place_value_def)
  have d: "drop_bit 16 (place_value p) = fst p" "(place_value p) AND 65535 = snd p"
    unfolding place_value_def by (rule place_roundtrip [OF p(1,3) i])+
  have "etdb_trie_exact_match_search t s = place_value p"
    using exact_match_lookup [OF assms(1) [unfolded holds_def], of s] Some v
    by (simp add: lookup_code_def ETDB_TRIE_NO_PATH_def)
  then show ?thesis using v d Some
    by (simp add: etdb_module_find_command_def ETDB_TRIE_NO_VALUE_def Let_def)
qed

lemma init_spec:
  assumes "names_given ms" "small_tables ms" "distinct (map fst (module_rows 0 ms))"
  shows "\<exists>ms' t. etdb_module_init ms raw = Some (ms', t, 0) \<and> map commands ms' = map commands ms \<and>
    (\<forall>s. etdb_module_find_command t s = map_of (module_rows 0 ms) s)"
proof -
  have "holds (etdb_trie_init raw) []" using init_rep by (simp add: holds_def)
  from init_modules_spec [OF this _ assms(1), of 0] assms(3) obtain ms' t where
    "init_modules 0 ms (etdb_trie_init raw) = Some (ms', t, 0)" "holds t (module_rows 0 ms)" "map commands ms' = map commands ms"
    by auto
  then show ?thesis using find_holds [OF _ assms(2)] by (auto simp: etdb_module_init_def)
qed

lemma etdb_modules_tables: "names_given etdb_modules" "small_tables etdb_modules" "distinct (map fst (module_rows 0 etdb_modules))"
proof -
  show "names_given etdb_modules"
    by (simp add: names_given_def etdb_modules_def etdb_kv_module_def etdb_hash_module_def etdb_list_module_def
        etdb_set_module_def etdb_sidx_module_def etdb_sys_module_def module_def command_def str_def
        etdb_kv_commands_def etdb_hash_commands_def etdb_list_commands_def etdb_set_commands_def etdb_sidx_commands_def
        etdb_sys_commands_def)
  show "small_tables etdb_modules"
    by (simp add: small_tables_def etdb_modules_def etdb_kv_module_def etdb_hash_module_def etdb_list_module_def
        etdb_set_module_def etdb_sidx_module_def etdb_sys_module_def module_def
        etdb_kv_commands_def etdb_hash_commands_def etdb_list_commands_def etdb_set_commands_def etdb_sidx_commands_def
        etdb_sys_commands_def)
  show "distinct (map fst (module_rows 0 etdb_modules))" by code_simp
qed

section \<open>Tables in use\<close>

text \<open>The counters of the commands change, nothing else.\<close>

definition skeleton :: "etdb_command \<Rightarrow> bytes \<times> 32 word \<times> handler" where
  "skeleton c = (cmd_name c, flags c, handler c)"

definition tables :: "etdb_module list \<Rightarrow> (bytes \<times> 32 word \<times> handler) list option list" where
  "tables ms = map (\<lambda>m. map_option (map skeleton) (commands m)) ms"

lemma map_same_update:
  assumes "i < length xs \<Longrightarrow> g y = g (xs ! i)"
  shows "map g (xs[i := y]) = map g xs"
proof (cases "i < length xs")
  case True
  have "(map g xs)[i := g y] = (map g xs)[i := map g xs ! i]" using assms True by simp
  then show ?thesis by (simp only: map_update list_update_id)
qed (simp add: list_update_beyond not_less)

lemma tables_put:
  assumes "\<And>c. skeleton (f c) = skeleton c"
  shows "tables (put_command ms p (f (command_at ms p))) = tables ms"
  unfolding tables_def put_command_def Let_def
proof (rule map_same_update)
  show "map_option (map skeleton) (commands ((ms ! nat (fst p))\<lparr>commands :=
      map_option (\<lambda>cs. cs[nat (snd p) := f (command_at ms p)]) (commands (ms ! nat (fst p)))\<rparr>)) =
    map_option (map skeleton) (commands (ms ! nat (fst p)))"
    by (cases "commands (ms ! nat (fst p))") (simp_all add: command_at_def map_same_update assms)
qed

lemma tables_command:
  assumes "tables ms' = tables ms" "(k, p) \<in> set (module_rows 0 ms)"
  shows "skeleton (command_at ms' p) = skeleton (command_at ms p)"
proof -
  obtain i j where p: "p = (i, j)" by (cases p)
  from module_rows_index [of k i j 0 ms] assms(2) p obtain cs where
    i: "0 \<le> i" "i < int (length ms)" "0 \<le> j" "commands (ms ! nat i) = Some cs" "j < int (length cs)" by auto
  have l: "length ms' = length ms" using arg_cong [OF assms(1), of length] by (simp add: tables_def)
  have n: "nat i < length ms" using i by simp
  have "map_option (map skeleton) (commands (ms' ! nat i)) = map_option (map skeleton) (commands (ms ! nat i))"
    using arg_cong [OF assms(1), of "\<lambda>xs. xs ! nat i"] n l by (simp add: tables_def)
  then obtain cs' where "commands (ms' ! nat i) = Some cs'" "map skeleton cs' = map skeleton cs" using i(4) by auto
  moreover from this have "length cs' = length cs" using map_eq_imp_length_eq by blast
  moreover have "nat j < length cs" using i by simp
  ultimately show ?thesis using i(4) p by (simp add: command_at_def) (metis nth_map)
qed

section \<open>Handlers\<close>

definition srv_ok :: "server \<Rightarrow> view \<Rightarrow> bool" where
  "srv_ok srv V \<longleftrightarrow> (\<forall>s. etdb_module_find_command (command_trie srv) s = map_of (module_rows 0 etdb_modules) s) \<and>
     tables (modules srv) = tables etdb_modules \<and> db_rep (database srv) V"

text \<open>A reply that leaves a database with a view, the tables as they were, and a slot that exists.\<close>

definition served :: "server \<Rightarrow> reply \<Rightarrow> bool" where
  "served srv r \<longleftrightarrow> (case r of None \<Rightarrow> False | Some (ret, srv', sl, resp) \<Rightarrow>
     is_slot sl \<and> (\<exists>V. db_rep (database srv') V) \<and> modules srv' = modules srv \<and> command_trie srv' = command_trie srv)"

lemma served_plain:
  assumes "is_slot sl" "db_rep (database srv) V"
  shows "served srv (only_code srv sl r)" "served srv (with_bytes srv sl r bs)" "served srv (answer srv sl x)"
  using assms by (auto simp: served_def only_code_def with_bytes_def answer_def)

lemma served_updated:
  assumes "is_slot sl" "\<exists>db'. r = Some (c, db') \<and> db_rep db' V"
  shows "served srv (updated srv sl r)" "served srv (popped srv sl r)"
  using assms by (auto simp: served_def updated_def popped_def)

lemma each_key_rep:
  assumes "\<And>k db V. db_rep db V \<Longrightarrow> \<exists>c db' V'. f k db = Some (c, db') \<and> db_rep db' V'"
  shows "db_rep db V \<Longrightarrow> \<exists>c db' V'. each_key f ks db = Some (c, db') \<and> db_rep db' V'"
proof (induction ks arbitrary: db V)
  case (Cons k ks)
  obtain c db1 V1 where 1: "f k db = Some (c, db1)" "db_rep db1 V1" using assms [OF Cons.prems] by blast
  then show ?case using Cons.IH [OF 1(2)] by auto
qed auto

lemma served_each_key:
  assumes "is_slot sl" "db_rep (database srv) V"
    "\<And>k db V. db_rep db V \<Longrightarrow> \<exists>c db' V'. f k db = Some (c, db') \<and> db_rep db' V'"
  shows "served srv (updated srv sl (each_key f ks (database srv)))"
proof -
  have "\<exists>c db' V'. each_key f ks (database srv) = Some (c, db') \<and> db_rep db' V'"
    by (rule each_key_rep [OF _ assms(2)]) (rule assms(3))
  then show ?thesis using assms(1) by (auto simp: served_def updated_def)
qed

lemma sp_rect_returns:
  assumes R: "db_rep db V" and sl: "is_slot sl"
  shows "\<exists>r. etdb_database_sp_rect sl a b c d db = Some r"
proof -
  obtain M L where W: "tries_ok db M" "heap_ok (heap db) M L" "V = view_of (heap db) M L" "idx_ok (heap db) M" by (rule db_repE [OF R])
  have nv: "v \<noteq> ETDB_TRIE_NO_PATH \<and> v \<noteq> ETDB_TRIE_NO_VALUE" if "M (sl, key) = Some v" for key v
    using tries_okD(3) [OF W(1) that] by (simp add: ETDB_TRIE_NO_PATH_def ETDB_TRIE_NO_VALUE_def)
  have "\<exists>x. etdb_trie_common_prefix_path_search (tries db sl) key [] [] = Some x" for key
    using path_search_run [OF tries_okD(1) [OF W(1) sl], of key "[]" "[]"] nv by blast
  then show ?thesis by (auto simp: etdb_database_sp_rect_def Let_def split: prod.splits)
qed

lemma use_slot:
  assumes "is_slot sl" "db_rep (database srv) V"
  shows "served srv (etdb_sys_use_handler args srv sl)"
proof -
  obtain r n where e: "etdb_atoi (args ! 1) = (r, n)" by fastforce
  have "is_slot (sint n - 1)" if "\<not> sint n \<le> 0" "\<not> sint n > etdb_database_sys_max_slot"
    using that by (simp add: is_slot_def etdb_database_sys_max_slot_def)
  then show ?thesis
    using served_plain(1) [OF assms] served_plain(1) [OF _ assms(2)] by (simp add: etdb_sys_use_handler_def e [simplified] Let_def)
qed

text \<open>The commands that push values, and the number of arguments that their flags ask for.\<close>

definition pushes :: "etdb_command \<Rightarrow> bool" where
  "pushes c = (case handler c of
      H_list_lpush \<Rightarrow> flags c = ETDB_CMD_FLAG_ARG2MORE
    | H_list_rpush \<Rightarrow> flags c = ETDB_CMD_FLAG_ARG2MORE
    | _ \<Rightarrow> True)"

lemma pushes_all: "list_all (\<lambda>(k, p). pushes (command_at etdb_modules p)) (module_rows 0 etdb_modules)"
  by code_simp

lemma rows_pushes: "(k, p) \<in> set (module_rows 0 etdb_modules) \<Longrightarrow> pushes (command_at etdb_modules p)"
  using pushes_all by (auto simp: list_all_iff)

lemma push_args:
  assumes "pushes c" "\<not> etdb_serv_parse_args req c < 0" "\<forall>a\<in>set req. length a < 2 ^ 32"
  shows "handler c = H_list_lpush \<Longrightarrow> length (req ! 2) < 2 ^ 32" "handler c = H_list_rpush \<Longrightarrow> length (req ! 2) < 2 ^ 32"
proof -
  have "3 \<le> length req \<Longrightarrow> length (req ! 2) < 2 ^ 32" using assms(3) nth_mem [of 2 req] by auto
  moreover have "flags c = ETDB_CMD_FLAG_ARG2MORE \<Longrightarrow> 3 \<le> length req"
    using assms(2) by (auto simp: etdb_serv_parse_args_def has_flag_def flag_defs Let_def split: if_splits)
  ultimately show "handler c = H_list_lpush \<Longrightarrow> length (req ! 2) < 2 ^ 32" "handler c = H_list_rpush \<Longrightarrow> length (req ! 2) < 2 ^ 32"
    using assms(1) by (simp_all add: pushes_def)
qed

lemma handler_served:
  assumes c: "pushes c" "\<not> etdb_serv_parse_args req c < 0" "\<forall>a\<in>set req. length a < 2 ^ 32"
    and h: "fresh_alloc (allocate hst)" "fork_result hst \<noteq> 0" and sl: "is_slot sl" and R: "db_rep (database srv) V"
  shows "served srv (call_handler (handler c) hst req srv sl)"
proof -
  note A = push_args [OF c]
  note P = served_plain [OF sl R] and U = served_updated [OF sl]
  show ?thesis
  proof (cases "handler c")
    case H_kv_set
    then show ?thesis
      using U(1) [OF kv_set_rep [OF R sl h(1)]] by (simp add: call_handler_def etdb_kv_set_handler_def)
  next
    case H_kv_get
    then show ?thesis by (simp add: call_handler_def etdb_kv_get_handler_def P)
  next
    case H_kv_del
    then show ?thesis using U(1) [OF kv_del_rep [OF R sl]] by (simp add: call_handler_def etdb_kv_del_handler_def)
  next
    case H_kv_matchlongest
    then show ?thesis by (simp add: call_handler_def etdb_kv_matchlongest_handler_def P split: prod.split)
  next
    case H_hash_set
    then show ?thesis
      using U(1) [OF hash_set_rep [OF R sl h(1)]] P by (simp add: call_handler_def etdb_hash_set_handler_def)
  next
    case H_hash_get
    then show ?thesis by (simp add: call_handler_def etdb_hash_get_handler_def P)
  next
    case H_hash_del
    then show ?thesis using U(1) [OF hash_del_rep [OF R sl]] P by (simp add: call_handler_def etdb_hash_del_handler_def)
  next
    case H_list_lpush
    then show ?thesis
      using U(1) [OF list_push_rep [OF R sl pushes_both(1) h(1) A(1)]]
      by (simp add: call_handler_def etdb_list_lpush_handler_def etdb_database_list_lpush_def)
  next
    case H_list_rpush
    then show ?thesis
      using U(1) [OF list_push_rep [OF R sl pushes_both(2) h(1) A(2)]]
      by (simp add: call_handler_def etdb_list_rpush_handler_def etdb_database_list_rpush_def)
  next
    case H_list_lpop
    then show ?thesis
      using U(2) [OF list_pop_rep [OF R sl pops_both(1) pops_length(1)]]
      by (simp add: call_handler_def etdb_list_lpop_handler_def etdb_database_list_lpop_def)
  next
    case H_list_rpop
    then show ?thesis
      using U(2) [OF list_pop_rep [OF R sl pops_both(2) pops_length(2)]]
      by (simp add: call_handler_def etdb_list_rpop_handler_def etdb_database_list_rpop_def)
  next
    case H_set_add
    have "\<exists>c db' V'. etdb_database_set_add sl (req ! 1) k db = Some (c, db') \<and> db_rep db' V'" if "db_rep db V" for k db V
      using set_add_rep [OF that sl] by blast
    then show ?thesis using served_each_key [OF sl R] P H_set_add by (simp add: call_handler_def etdb_set_add_handler_def)
  next
    case H_set_del
    have "\<exists>c db' V'. etdb_database_set_del sl (req ! 1) k db = Some (c, db') \<and> db_rep db' V'" if "db_rep db V" for k db V
      using set_del_rep [OF that sl] by blast
    then show ?thesis using served_each_key [OF sl R] P H_set_del by (simp add: call_handler_def etdb_set_del_handler_def)
  next
    case H_set_members
    then show ?thesis
      using set_members_rep [OF R sl, of "req ! 1"] P by (auto simp: call_handler_def etdb_set_members_handler_def)
  next
    case H_sp_set
    then show ?thesis using U(1) [OF sp_set_rep [OF R sl h(1)]] by (simp add: call_handler_def etdb_sp_set_handler_def)
  next
    case H_sp_get
    then show ?thesis by (simp add: call_handler_def etdb_sp_get_handler_def P split: prod.split)
  next
    case H_sp_del
    then show ?thesis using U(1) [OF sp_del_rep [OF R sl]] by (simp add: call_handler_def etdb_sp_del_handler_def)
  next
    case H_sp_rect
    then show ?thesis
      using sp_rect_returns [OF R sl, of "req ! 1" "req ! 2" "req ! 3" "req ! 4"] P
      by (auto simp: call_handler_def etdb_sp_rect_handler_def)
  next
    case H_sys_use
    then show ?thesis using use_slot [OF sl R] by (simp add: call_handler_def)
  next
    case H_sys_bgsave
    then show ?thesis
      using h(2) sl R by (auto simp: call_handler_def etdb_sys_bgsave_handler_def Let_def served_def only_code_def)
  qed (use P in \<open>simp_all add: call_handler_def etdb_list_ltop_handler_def etdb_list_rtop_handler_def
      etdb_set_ismember_handler_def etdb_sp_knn_handler_def etdb_geo_hash_info_handler_def etdb_sys_info_handler_def
      etdb_sys_perf_handler_def etdb_sys_where_handler_def etdb_sys_help_handler_def etdb_sys_ping_handler_def
      etdb_sys_sync_handler_def Let_def split: option.split\<close>)
qed

section \<open>Requests\<close>

lemma srv_okD:
  assumes "srv_ok srv V"
  shows "etdb_module_find_command (command_trie srv) s = map_of (module_rows 0 etdb_modules) s"
    "tables (modules srv) = tables etdb_modules" "db_rep (database srv) V"
  using assms by (simp_all add: srv_ok_def)

lemma command_found:
  assumes "srv_ok srv V" "etdb_module_find_command (command_trie srv) s = Some p"
  shows "(s, p) \<in> set (module_rows 0 etdb_modules)"
    "skeleton (command_at (modules srv) p) = skeleton (command_at etdb_modules p)"
proof -
  show r: "(s, p) \<in> set (module_rows 0 etdb_modules)" using assms srv_okD(1) [OF assms(1), of s] by (simp add: map_of_SomeD)
  show "skeleton (command_at (modules srv) p) = skeleton (command_at etdb_modules p)"
    by (rule tables_command [OF srv_okD(2) [OF assms(1)] r])
qed

lemma found_pushes:
  assumes "srv_ok srv V" "etdb_module_find_command (command_trie srv) s = Some p"
  shows "pushes (command_at (modules srv) p)"
  using rows_pushes [OF command_found(1) [OF assms]] command_found(2) [OF assms]
  by (cases "handler (command_at etdb_modules p)") (simp_all add: pushes_def skeleton_def)

lemma served_ok:
  assumes "srv_ok srv V" "served srv r"
  obtains ret srv' sl resp V' where "r = Some (ret, srv', sl, resp)" "is_slot sl" "srv_ok srv' V'"
  using assms by (cases r) (auto simp: served_def srv_ok_def)

lemma counted:
  "srv_ok srv V \<Longrightarrow> srv_ok (change_command p count_call srv) V"
  "srv_ok srv V \<Longrightarrow> srv_ok (change_command p (count_time t t') srv) V"
proof -
  have "skeleton (count_call c) = skeleton c" "skeleton (count_time t t' c) = skeleton c" for c
    by (simp_all add: count_call_def count_time_def skeleton_def Let_def)
  then show "srv_ok srv V \<Longrightarrow> srv_ok (change_command p count_call srv) V"
    "srv_ok srv V \<Longrightarrow> srv_ok (change_command p (count_time t t') srv) V"
    by (simp_all add: srv_ok_def change_command_def tables_put)
qed

text \<open>What the client reads.\<close>

definition queued :: "etdb_connection \<Rightarrow> etdb_connection \<Rightarrow> bytes list \<Rightarrow> bool" where
  "queued conn conn' resp \<longleftrightarrow> buf_wf (buf_out conn') \<and>
     buf_bytes (buf_out conn') = buf_bytes (buf_out conn) @ encode_request resp"

lemma send_slot: "etdb_connect_send_to_buf ok c resp = Some c' \<Longrightarrow> slot c' = slot c"
proof -
  have "append_all ok c resp = Some c' \<Longrightarrow> slot c' = slot c" for c c'
    by (induction resp arbitrary: c) (fastforce simp: append_out_def Option.bind_eq_Some_conv)+
  then show "etdb_connect_send_to_buf ok c resp = Some c' \<Longrightarrow> slot c' = slot c"
    by (fastforce simp: etdb_connect_send_to_buf_def append_out_def Option.bind_eq_Some_conv)
qed

lemma send_queued:
  assumes "buf_wf (buf_out conn)" "\<forall>s\<in>set resp. length s < 2 ^ 31"
  obtains c where "etdb_connect_send_to_buf (\<lambda>_. True) (conn\<lparr>slot := sl\<rparr>) resp = Some c" "queued conn c resp" "slot c = sl"
proof -
  obtain c where "etdb_connect_send_to_buf (\<lambda>_. True) (conn\<lparr>slot := sl\<rparr>) resp = Some c" "buf_wf (buf_out c)"
    "buf_bytes (buf_out c) = buf_bytes (buf_out conn) @ encode_request resp"
    using send_to_buf_spec [of "conn\<lparr>slot := sl\<rparr>" resp "\<lambda>_. True"] assms by auto
  then show thesis using that send_slot by (fastforce simp: queued_def)
qed

lemma exec_found:
  assumes f: "etdb_module_find_command (command_trie srv) (etdb_str_tolower name) = Some p"
    and a: "\<not> etdb_serv_parse_args (etdb_str_tolower name # args) (command_at (modules srv) p) < 0"
    and h: "call_handler (handler (command_at (modules (change_command p count_call srv)) p)) hst (etdb_str_tolower name # args)
      (change_command p count_call srv) (slot conn) = Some (ret, srv', sl, resp)"
    and b: "buf_wf (buf_out conn)" "\<forall>s\<in>set resp. length s < 2 ^ 31"
  shows "\<exists>conn' w. etdb_serv_exec_proc hst (\<lambda>_. True) t t' mem (name # args) srv conn =
      Some (change_command p (count_time t t') srv', conn', w) \<and> slot conn' = sl \<and>
    queued conn conn' ((if ret = 0 then str ''+OK'' else str ''+FAIL'') # resp)"
proof -
  have "\<forall>s\<in>set ((if ret = 0 then str ''+OK'' else str ''+FAIL'') # resp). length s < 2 ^ 31" using b(2) by (simp add: str_def)
  from send_queued [OF b(1) this, of sl] obtain c where
    "etdb_connect_send_to_buf (\<lambda>_. True) (conn\<lparr>slot := sl\<rparr>) ((if ret = 0 then str ''+OK'' else str ''+FAIL'') # resp) = Some c"
    "queued conn c ((if ret = 0 then str ''+OK'' else str ''+FAIL'') # resp)" "slot c = sl" by blast
  then show ?thesis using f a h by (simp add: etdb_serv_exec_proc_def etdb_resp_tolower_def Let_def)
qed

text \<open>The commands \<open>set\<close> and \<open>get\<close>.\<close>

lemma kv_places:
  "map_of (module_rows 0 etdb_modules) (str ''set'') = Some (0, 0)" "map_of (module_rows 0 etdb_modules) (str ''get'') = Some (0, 1)"
  "handler (command_at etdb_modules (0, 0)) = H_kv_set" "handler (command_at etdb_modules (0, 1)) = H_kv_get"
  "etdb_serv_parse_args [n, k, v] (command_at etdb_modules (0, 0)) = 0"
  "etdb_serv_parse_args [n, k] (command_at etdb_modules (0, 1)) = 0"
proof -
  show "map_of (module_rows 0 etdb_modules) (str ''set'') = Some (0, 0)" by code_simp
  show "map_of (module_rows 0 etdb_modules) (str ''get'') = Some (0, 1)" by code_simp
  have c: "command_at etdb_modules (0, 0) = command ''set'' (ETDB_CMD_FLAG_WRITE OR ETDB_CMD_FLAG_ARG2) H_kv_set"
    "command_at etdb_modules (0, 1) = command ''get'' (ETDB_CMD_FLAG_READ OR ETDB_CMD_FLAG_ARG1) H_kv_get"
    by (simp_all add: command_at_def etdb_modules_def etdb_kv_module_def module_def etdb_kv_commands_def)
  show "handler (command_at etdb_modules (0, 0)) = H_kv_set" "handler (command_at etdb_modules (0, 1)) = H_kv_get"
    by (simp_all add: c command_def)
  show "etdb_serv_parse_args [n, k, v] (command_at etdb_modules (0, 0)) = 0"
    "etdb_serv_parse_args [n, k] (command_at etdb_modules (0, 1)) = 0"
    by (simp_all add: c command_def etdb_serv_parse_args_def has_flag_def flag_defs)
qed

lemma same_skeleton:
  assumes "skeleton c = skeleton d"
  shows "handler c = handler d" "etdb_serv_parse_args req c = etdb_serv_parse_args req d"
  using assms by (simp_all add: skeleton_def etdb_serv_parse_args_def Let_def)

lemma place_command:
  assumes "srv_ok srv V" "map_of (module_rows 0 etdb_modules) s = Some p"
  shows "etdb_module_find_command (command_trie srv) s = Some p"
    "handler (command_at (modules srv) p) = handler (command_at etdb_modules p)"
    "etdb_serv_parse_args req (command_at (modules srv) p) = etdb_serv_parse_args req (command_at etdb_modules p)"
proof -
  show f: "etdb_module_find_command (command_trie srv) s = Some p" using assms by (simp add: srv_okD(1))
  show "handler (command_at (modules srv) p) = handler (command_at etdb_modules p)"
    "etdb_serv_parse_args req (command_at (modules srv) p) = etdb_serv_parse_args req (command_at etdb_modules p)"
    using same_skeleton [OF command_found(2) [OF assms(1) f]] by simp_all
qed

lemma serv_set:
  assumes S: "srv_ok srv V" and sl: "is_slot (slot conn)" and al: "fresh_alloc (allocate hst)" and v: "length v < 2 ^ 24"
    and b: "buf_wf (buf_out conn)" and n: "etdb_str_tolower name = str ''set''"
  shows "\<exists>srv' conn' w. etdb_serv_exec_proc hst (\<lambda>_. True) t t' mem [name, k, v] srv conn = Some (srv', conn', w) \<and>
    slot conn' = slot conn \<and> queued conn conn' [str ''+OK''] \<and>
    srv_ok srv' (V\<lparr>strs := (strs V)((slot conn, encode_kv_head k) \<mapsto> v)\<rparr>)"
proof -
  let ?srv = "change_command (0, 0) count_call srv"
  note C = place_command [OF S kv_places(1)] and C' = place_command [OF counted(1) [OF S] kv_places(1)]
  obtain db' where d: "etdb_database_kv_set (allocate hst) (slot conn) k v (database srv) = Some (0, db')"
    "db_rep db' (V\<lparr>strs := (strs V)((slot conn, encode_kv_head k) \<mapsto> v)\<rparr>)"
    using kv_set_rep [OF srv_okD(3) [OF S] sl al, of k v] v by auto
  have db: "database ?srv = database srv" by (simp add: change_command_def)
  have h: "call_handler (handler (command_at (modules ?srv) (0, 0))) hst [etdb_str_tolower name, k, v] ?srv (slot conn) =
      Some (0, ?srv\<lparr>database := db'\<rparr>, slot conn, [])"
    by (simp add: C'(2) kv_places(3) call_handler_def etdb_kv_set_handler_def updated_def d(1) db)
  have ok: "srv_ok (?srv\<lparr>database := db'\<rparr>) (V\<lparr>strs := (strs V)((slot conn, encode_kv_head k) \<mapsto> v)\<rparr>)"
    using counted(1) [OF S] d(2) by (simp add: srv_ok_def)
  show ?thesis
    using exec_found [of srv name "(0, 0)" "[k, v]" hst conn 0 "?srv\<lparr>database := db'\<rparr>" "slot conn" "[]" t t' mem]
      C(1) [folded n] C(3) kv_places(5) h b counted(2) [OF ok] by fastforce
qed

lemma serv_get:
  assumes S: "srv_ok srv V" and sl: "is_slot (slot conn)" and v: "strs V (slot conn, encode_kv_head k) = Some v" "length v < 2 ^ 31"
    and b: "buf_wf (buf_out conn)" and n: "etdb_str_tolower name = str ''get''"
  shows "\<exists>srv' conn' w. etdb_serv_exec_proc hst (\<lambda>_. True) t t' mem [name, k] srv conn = Some (srv', conn', w) \<and>
    slot conn' = slot conn \<and> queued conn conn' [str ''+OK'', v] \<and> srv_ok srv' V"
proof -
  let ?srv = "change_command (0, 1) count_call srv"
  note C = place_command [OF S kv_places(2)] and C' = place_command [OF counted(1) [OF S] kv_places(2)]
  have db: "database ?srv = database srv" by (simp add: change_command_def)
  have "etdb_database_kv_get (slot conn) k (database srv) = (0, v)"
    using kv_get_rep [OF srv_okD(3) [OF S] sl, of k] v(1) by simp
  then have h: "call_handler (handler (command_at (modules ?srv) (0, 1))) hst [etdb_str_tolower name, k] ?srv (slot conn) =
      Some (0, ?srv, slot conn, [v])"
    by (simp add: C'(2) kv_places(4) call_handler_def etdb_kv_get_handler_def answer_def with_bytes_def db)
  show ?thesis
    using exec_found [of srv name "(0, 1)" "[k]" hst conn 0 ?srv "slot conn" "[v]" t t' mem]
      C(1) [folded n] C(3) kv_places(6) h b v(2) counted(2) [OF counted(1) [OF S]] by fastforce
qed

lemma total_copy: "etdb_bytes_total_copy bs mem = concat (map (\<lambda>b. b @ [32]) bs) @ drop (etdb_bytes_total_len bs) mem"
  and total_len: "total_len_loop bs n = n + length (concat (map (\<lambda>b. b @ [32]) bs))"
proof -
  show l: "total_len_loop bs n = n + length (concat (map (\<lambda>b. b @ [32]) bs))" for bs n
    by (induction bs n rule: total_len_loop.induct) simp_all
  show "etdb_bytes_total_copy bs mem = concat (map (\<lambda>b. b @ [32]) bs) @ drop (etdb_bytes_total_len bs) mem"
    by (induction bs mem rule: etdb_bytes_total_copy.induct) (simp_all add: etdb_bytes_total_len_def l add.commute)
qed

lemma unknown_reply_bytes: "unknown_reply req mem = unknown_command @ concat (map (\<lambda>b. b @ [32]) req)"
  by (simp add: unknown_reply_def total_copy etdb_bytes_total_len_def total_len Let_def)

lemma new_server:
  obtains srv where "srv_ok srv empty_view"
proof -
  obtain ms t where i: "etdb_module_init etdb_modules undefined = Some (ms, t, 0)" "map commands ms = map commands etdb_modules"
    "\<forall>s. etdb_module_find_command t s = map_of (module_rows 0 etdb_modules) s"
    using init_spec [OF etdb_modules_tables, of undefined] by blast
  have "tables ms = map (map_option (map skeleton)) (map commands ms)" by (simp add: tables_def)
  then have "tables ms = tables etdb_modules" using i(2) by (simp add: tables_def)
  then have "srv_ok \<lparr>database = new_db, modules = ms, command_trie = t, bgsave_pid = 0\<rparr> empty_view"
    using i(3) new_db by (simp add: srv_ok_def)
  then show thesis by (rule that)
qed

definition example_host :: host where
  "example_host = \<lparr>allocate = example_alloc, fork_result = 1, db_file_opens = True, no_return = 0\<rparr>"

section \<open>Properties\<close>

text \<open>
  C24: \<open>etdb_module_init\<close> succeeds on tables whose names are given and distinct, and afterwards
  \<open>etdb_module_find_command\<close> finds exactly the commands of the tables, each under its name at its
  module and index.
\<close>

theorem etdb_module_init_dispatch:
  assumes "names_given ms" "small_tables ms" "distinct (map fst (module_rows 0 ms))"
  shows "\<exists>ms' t. etdb_module_init ms raw = Some (ms', t, 0) \<and> map commands ms' = map commands ms \<and>
    (\<forall>s. etdb_module_find_command t s = map_of (module_rows 0 ms) s)"
  by (rule init_spec [OF assms])

theorem etdb_module_init_dispatch_witness:
  "\<exists>ms t. etdb_module_init etdb_modules undefined = Some (ms, t, 0) \<and>
     etdb_module_find_command t (str ''set'') = Some (0, 0) \<and> etdb_module_find_command t (str ''get'') = Some (0, 1)"
  using etdb_module_init_dispatch [OF etdb_modules_tables, of undefined] kv_places(1,2) by auto

text \<open>
  C5: every command of the server, called with a number of arguments that its flags admit, returns,
  whatever the database holds: it leaves a database that represents a view, tables whose names, flags
  and handlers are unchanged, and the connection on one of the sixteen slots.
\<close>

theorem etdb_command_served:
  assumes "srv_ok srv V" "is_slot sl" "etdb_module_find_command (command_trie srv) s = Some p"
    "\<not> etdb_serv_parse_args req (command_at (modules srv) p) < 0" "\<forall>a\<in>set req. length a < 2 ^ 32"
    "fresh_alloc (allocate hst)" "fork_result hst \<noteq> 0"
  shows "\<exists>ret srv' sl' resp V'. call_handler (handler (command_at (modules srv) p)) hst req srv sl = Some (ret, srv', sl', resp) \<and>
    is_slot sl' \<and> srv_ok srv' V'"
  using handler_served [OF found_pushes [OF assms(1,3)] assms(4-7,2) srv_okD(3) [OF assms(1)]] served_ok [OF assms(1)] by metis

theorem etdb_command_served_witness:
  "\<exists>srv ret srv' sl' resp V'. srv_ok srv empty_view \<and>
     call_handler (handler (command_at (modules srv) (0, 0))) example_host [str ''set'', [107], [118]] srv 0 = Some (ret, srv', sl', resp) \<and>
     is_slot sl' \<and> srv_ok srv' V'"
proof -
  obtain srv where S: "srv_ok srv empty_view" by (rule new_server)
  note C = place_command [OF S kv_places(1)]
  have "is_slot 0" by (simp add: is_slot_def ETDB_DATABASE_MAX_SLOT_def)
  from etdb_command_served [OF S this C(1), of "[str ''set'', [107], [118]]" example_host]
  show ?thesis using S C(3) kv_places(5) example_alloc by (force simp: example_host_def str_def)
qed

text \<open>
  A \<open>set\<close> request and a later \<open>get\<close> of the same key, their names in any case, are answered by
  the records \<open>+OK\<close> and \<open>+OK\<close> with the value: from the request through the lookup of the command,
  the handlers, the tries and the heap to the bytes queued for the client.
\<close>

theorem etdb_serv_set_get:
  assumes "srv_ok srv V" "is_slot (slot conn)" "fresh_alloc (allocate hst)" "length v < 2 ^ 24" "buf_wf (buf_out conn)"
    "etdb_str_tolower n1 = str ''set''" "etdb_str_tolower n2 = str ''get''"
  shows "\<exists>srv1 conn1 w1 srv2 conn2 w2.
    etdb_serv_exec_proc hst (\<lambda>_. True) t1 t1' mem [n1, k, v] srv conn = Some (srv1, conn1, w1) \<and>
    etdb_serv_exec_proc hst (\<lambda>_. True) t2 t2' mem' [n2, k] srv1 conn1 = Some (srv2, conn2, w2) \<and>
    buf_bytes (buf_out conn2) = buf_bytes (buf_out conn) @ encode_request [str ''+OK''] @ encode_request [str ''+OK'', v]"
proof -
  obtain srv1 conn1 w1 where 1: "etdb_serv_exec_proc hst (\<lambda>_. True) t1 t1' mem [n1, k, v] srv conn = Some (srv1, conn1, w1)"
    "slot conn1 = slot conn" "queued conn conn1 [str ''+OK'']" "srv_ok srv1 (V\<lparr>strs := (strs V)((slot conn, encode_kv_head k) \<mapsto> v)\<rparr>)"
    using serv_set [OF assms(1-6)] by blast
  have "is_slot (slot conn1)" "buf_wf (buf_out conn1)" using 1(2,3) assms(2) by (simp_all add: queued_def)
  moreover have "strs (V\<lparr>strs := (strs V)((slot conn, encode_kv_head k) \<mapsto> v)\<rparr>) (slot conn1, encode_kv_head k) = Some v"
    using 1(2) by simp
  ultimately obtain srv2 conn2 w2 where
    2: "etdb_serv_exec_proc hst (\<lambda>_. True) t2 t2' mem' [n2, k] srv1 conn1 = Some (srv2, conn2, w2)" "queued conn1 conn2 [str ''+OK'', v]"
    using serv_get [OF 1(4) _ _ _ _ assms(7)] assms(4) by fastforce
  then show ?thesis using 1(1,3) by (simp add: queued_def)
qed

theorem etdb_serv_set_get_witness:
  "\<exists>srv srv1 conn1 w1 srv2 conn2 w2.
    etdb_serv_exec_proc example_host (\<lambda>_. True) 0 1 [] [str ''SET'', [107], [118]] srv example_conn = Some (srv1, conn1, w1) \<and>
    etdb_serv_exec_proc example_host (\<lambda>_. True) 2 3 [] [str ''get'', [107]] srv1 conn1 = Some (srv2, conn2, w2)"
proof -
  obtain srv where S: "srv_ok srv empty_view" by (rule new_server)
  have "is_slot (slot example_conn)" by (simp add: is_slot_def ETDB_DATABASE_MAX_SLOT_def example_conn_def)
  moreover have "fresh_alloc (allocate example_host)" using example_alloc by (simp add: example_host_def)
  moreover have "etdb_str_tolower (str ''SET'') = str ''set''" "etdb_str_tolower (str ''get'') = str ''get''" by code_simp+
  ultimately show ?thesis
    using etdb_serv_set_get [OF S, of example_conn example_host "[118]" "str ''SET''" "str ''get''"] example_conn_out by fastforce
qed

text \<open>
  C25: a request whose command does not exist, or exists and does not take that number of arguments,
  is answered by a message with its words, whatever memory the answer is built in, and changes nothing.
\<close>

theorem etdb_serv_unknown_command:
  assumes "buf_wf (buf_out conn)" "length (unknown_reply (etdb_str_tolower name # args) mem) < 2 ^ 31"
    "case etdb_module_find_command (command_trie srv) (etdb_str_tolower name) of None \<Rightarrow> True
      | Some p \<Rightarrow> etdb_serv_parse_args (etdb_str_tolower name # args) (command_at (modules srv) p) < 0"
  shows "\<exists>conn' w. etdb_serv_exec_proc hst (\<lambda>_. True) t t' mem (name # args) srv conn = Some (srv, conn', w) \<and>
    buf_bytes (buf_out conn') = buf_bytes (buf_out conn) @ encode_request
      [str ''Unkown Command: '' @ concat (map (\<lambda>b. b @ [32]) (etdb_str_tolower name # args))]"
proof -
  obtain c where "etdb_connect_send_to_buf (\<lambda>_. True) conn [unknown_reply (etdb_str_tolower name # args) mem] = Some c"
    "buf_bytes (buf_out c) = buf_bytes (buf_out conn) @ encode_request [unknown_reply (etdb_str_tolower name # args) mem]"
    using send_to_buf_spec [OF assms(1), of "[unknown_reply (etdb_str_tolower name # args) mem]" "\<lambda>_. True"] assms(2) by auto
  then show ?thesis
    using assms(3) by (auto simp: etdb_serv_exec_proc_def etdb_resp_tolower_def unknown_reply_bytes unknown_command_def Let_def split: option.splits)
qed

theorem etdb_serv_unknown_command_witness:
  "\<exists>srv conn' w. etdb_serv_exec_proc example_host (\<lambda>_. True) 0 1 [] [str ''nope''] srv example_conn = Some (srv, conn', w)"
proof -
  obtain srv where S: "srv_ok srv empty_view" by (rule new_server)
  have "map_of (module_rows 0 etdb_modules) (etdb_str_tolower (str ''nope'')) = None" by code_simp
  then have "etdb_module_find_command (command_trie srv) (etdb_str_tolower (str ''nope'')) = None" by (simp add: srv_okD(1) [OF S])
  moreover have l: "length (unknown_reply [etdb_str_tolower (str ''nope'')] []) < 2 ^ 31"
  proof -
    have "etdb_str_tolower (str ''nope'') = str ''nope''" by code_simp
    then show ?thesis by (simp add: unknown_reply_bytes unknown_command_def str_def)
  qed
  ultimately show ?thesis
    using etdb_serv_unknown_command [OF example_conn_out, of "str ''nope''" "[]" "[]" srv example_host 0 1] l by auto
qed

end
