(* ===== verification/Log.thy ===== *)
theory Log
  imports Config
begin

text \<open>
  The log of the server, \<open>src/store/etdb_log.c\<close>. \<open>opened\<close> is the result of \<open>open\<close>; the message
  is what \<open>vsnprintf\<close> formats without the bound of the buffer, whose length it returns.
\<close>

record etdb_log =
  log_file_name :: bytes
  log_fd :: int
  log_level :: int

definition ETDB_LOG_DEBUG :: int where "ETDB_LOG_DEBUG = 0"
definition ETDB_LOG_INFO :: int where "ETDB_LOG_INFO = 1"
definition ETDB_LOG_WARN :: int where "ETDB_LOG_WARN = 2"
definition ETDB_LOG_ERR :: int where "ETDB_LOG_ERR = 3"
definition MAX_LOG_BUF_SIZE :: nat where "MAX_LOG_BUF_SIZE = 1024"

lemmas log_level_defs = ETDB_LOG_DEBUG_def ETDB_LOG_INFO_def ETDB_LOG_WARN_def ETDB_LOG_ERR_def

definition etdb_log_title :: "bytes list" where
  "etdb_log_title = [str ''[DEBUG] '', str ''[INFO] '', str ''[WARN] '', str ''[ERROR] '']"

definition etdb_log_init :: "int \<Rightarrow> bytes \<Rightarrow> bytes \<Rightarrow> etdb_log \<Rightarrow> int \<times> etdb_log" where
  "etdb_log_init opened log_file level lg =
     (let lg = lg\<lparr>log_file_name := log_file, log_fd := opened\<rparr>
      in if opened < 0 then (-1, lg)
         else (0, lg\<lparr>log_level :=
                if level = str ''DEBUG'' then ETDB_LOG_DEBUG
                else if level = str ''INFO'' then ETDB_LOG_INFO
                else if level = str ''WARN'' then ETDB_LOG_WARN
                else if level = str ''ERROR'' then ETDB_LOG_ERR
                else ETDB_LOG_INFO\<rparr>))"

text \<open>
  The bytes written to the file and whether the process exits. \<^term>\<open>None\<close>: the length returned
  by \<open>vsnprintf\<close> goes beyond the buffer, and so does the \<open>write\<close>.
\<close>

definition etdb_log_print :: "etdb_log \<Rightarrow> int \<Rightarrow> bytes \<Rightarrow> (bytes \<times> bool) option" where
  "etdb_log_print lg level msg =
     (if level < log_level lg \<or> level > ETDB_LOG_ERR then Some ([], False)
      else if length msg > MAX_LOG_BUF_SIZE then None
      else Some (etdb_log_title ! nat level @ take (MAX_LOG_BUF_SIZE - 1) msg @
                 replicate (length msg - (MAX_LOG_BUF_SIZE - 1)) 0 @ [10],
                 level \<ge> ETDB_LOG_ERR))"

text \<open>
  a message is written once, behind the title of its level and with a newline, exactly when
  its level reaches the configured one, and only an error ends the process.
\<close>

theorem etdb_log_print_levels:
  assumes "etdb_log_init opened file level lg0 = (0, lg)" "0 \<le> l" "l \<le> ETDB_LOG_ERR"
    "length msg < MAX_LOG_BUF_SIZE"
  shows "ETDB_LOG_DEBUG \<le> log_level lg \<and> log_level lg \<le> ETDB_LOG_ERR \<and>
    etdb_log_print lg l msg =
      (if l < log_level lg then Some ([], False)
       else Some (etdb_log_title ! nat l @ msg @ [10], l = ETDB_LOG_ERR))"
  using assms
  by (auto simp: etdb_log_print_def etdb_log_init_def log_level_defs MAX_LOG_BUF_SIZE_def Let_def
      split: if_splits)

theorem etdb_log_print_levels_witness:
  "\<exists>lg. etdb_log_init 3 (str ''log.txt'') (str ''WARN'') \<lparr>log_file_name = [], log_fd = 0, log_level = 0\<rparr> = (0, lg) \<and>
     etdb_log_print lg ETDB_LOG_ERR [104, 105] = Some (str ''[ERROR] '' @ [104, 105, 10], True)"
proof -
  let ?r = "etdb_log_init 3 (str ''log.txt'') (str ''WARN'') \<lparr>log_file_name = [], log_fd = 0, log_level = 0\<rparr>"
  have r: "?r = (0, snd ?r)" "log_level (snd ?r) = ETDB_LOG_WARN"
    by (simp_all add: etdb_log_init_def Let_def str_def)
  show ?thesis
    using etdb_log_print_levels [OF r(1), of ETDB_LOG_ERR "[104, 105]"] r
    by (intro exI [of _ "snd ?r"])
      (simp add: MAX_LOG_BUF_SIZE_def log_level_defs etdb_log_title_def)
qed

end
