(* ===== verification/Startup.thy ===== *)
theory Startup
  imports Server Service Log
begin

text \<open>
  The start of the server, the rest of \<open>src/etdb_server.c\<close> with \<open>src/etdb_daemon.h\<close>: the
  configuration, the log, the fork into the background, the listening socket, the database and the
  table of commands; then the program as a whole, from \<open>main\<close> through the rounds of its cycle.

  \<open>start_io\<close> holds what the system calls of the start return; \<open>files\<close> maps a path to the contents
  of a file that can be opened. Every call of \<open>exit\<close> is \<^term>\<open>Inl\<close> of the exit code.
\<close>

record daemon_io =
  forked :: int
  session :: int
  null_fd :: int
  dup_in :: int
  dup_out :: int
  dup_err :: int

record start_io =
  files :: "bytes \<Rightarrow> bytes option"
  config_alloc :: "int set \<Rightarrow> int"
  raw_config :: file_config
  log_opened :: int
  background :: daemon_io
  listen_fd :: int
  reuse_ok :: bool
  bind_ok :: bool
  listen_ok :: bool
  listen_addr :: int

section \<open>Operations\<close>

definition etdb_daemon :: "daemon_io \<Rightarrow> int + int" where
  "etdb_daemon io =
     (if forked io = -1 then Inr (-1)
      else if forked io \<noteq> 0 then Inl 0
      else if session io = -1 then Inr (-1)
      else if null_fd io = -1 then Inr (-1)
      else if dup_in io = -1 then Inr (-1)
      else if dup_out io = -1 then Inr (-1)
      else if dup_err io = -1 then Inr (-1)
      else Inr 0)"

text \<open>
  The load of the database reads nothing, it opens the file and closes it. A message of level
  \<open>ETDB_LOG_ERR\<close> ends the process with exit code 1: it is what a failing \<open>etdb_init_server_conn\<close> or
  \<open>etdb_module_init\<close> leads to.
\<close>

definition start_server :: "start_io \<Rightarrow> server_state \<Rightarrow> (int + server_state) option" where
  "start_server io s =
     (case etdb_init_server_conn (listen_fd io) (reuse_ok io) (bind_ok io) (listen_ok io) (listen_addr io) s of
        None \<Rightarrow> Some (Inl 1)
      | Some s \<Rightarrow>
          let db = snd (etdb_database_init None (database (srv s))) in
          map_option
            (\<lambda>(ms, t, r).
               if r < 0 then Inl 1
               else Inr (s\<lparr>srv := (srv s)\<lparr>database := db, modules := ms, command_trie := t\<rparr>\<rparr>))
            (etdb_module_init (modules (srv s)) (command_trie (srv s))))"

definition etdb_init :: "start_io \<Rightarrow> bytes list \<Rightarrow> etdb_log \<Rightarrow> server_state \<Rightarrow> (int + etdb_log \<times> server_state) option" where
  "etdb_init io argv lg s =
     (if length argv < 2 then Some (Inl 1)
      else
        Option.bind (etdb_init_file_config (config_alloc io) (files io (argv ! 1)) (raw_config io))
          (\<lambda>r. case r of
             Inl e \<Rightarrow> Some (Inl e)
           | Inr cfg \<Rightarrow>
               let log_file = etdb_file_config_get_string cfg (str ''LOG_FILE'') (str ''log.txt'');
                   level = etdb_file_config_get_string cfg (str ''LOG_LEVEL'') (str ''INFO'');
                   (_, lg) = etdb_log_init (log_opened io) log_file level lg
               in case (if etdb_file_config_get_int cfg (str ''DAEMON'') 0 \<noteq> 0 then etdb_daemon (background io) else Inr 0) of
                    Inl e \<Rightarrow> Some (Inl e)
                  | Inr _ \<Rightarrow> map_option (map_sum id (Pair lg)) (start_server io s)))"

text \<open>The program: the start, and the cycle over the rounds the kernel produces; the result is the exit code.\<close>

definition main_server ::
    "host \<Rightarrow> start_io \<Rightarrow> bytes list \<Rightarrow> etdb_log \<Rightarrow> round_io list \<Rightarrow> server_state \<Rightarrow> int option" where
  "main_server hst io argv lg rds s =
     Option.bind (etdb_init io argv lg s)
       (\<lambda>r. case r of Inl e \<Rightarrow> Some e | Inr (lg, s) \<Rightarrow> map_option (\<lambda>_. 0) (etdb_master_cycle hst rds s))"

section \<open>The start\<close>

text \<open>The static variables before \<open>main\<close>.\<close>

definition initial_state :: "server_state \<Rightarrow> bool" where
  "initial_state s \<longleftrightarrow> conns s = Map.empty \<and> conn_cnt s = 0 \<and> \<not> quit s \<and>
     modules (srv s) = etdb_modules \<and> live (heap (database (srv s))) = {}"

lemma modules_ok:
  assumes "etdb_module_init etdb_modules raw = Some (ms, t, r)" "db_rep db V"
    "modules sv = ms" "command_trie sv = t" "database sv = db"
  shows "r = 0" "srv_ok sv V"
proof -
  obtain ms' t' where i: "etdb_module_init etdb_modules raw = Some (ms', t', 0)" "map commands ms' = map commands etdb_modules"
    "\<forall>s. etdb_module_find_command t' s = map_of (module_rows 0 etdb_modules) s"
    using init_spec [OF etdb_modules_tables, of raw] by blast
  have e: "ms' = ms" "t' = t" using i(1) assms(1) by simp_all
  show "r = 0" using i(1) assms(1) by simp
  have "tables ms' = map (map_option (map skeleton)) (map commands ms')" by (simp add: tables_def)
  then have "tables ms' = tables etdb_modules" using i(2) by (simp add: tables_def)
  then show "srv_ok sv V" using i(3) assms(2-5) unfolding e by (simp add: srv_ok_def)
qed

lemma etdb_init_started:
  assumes "etdb_init io argv lg s0 = Some (Inr (lg', s))" "initial_state s0"
  obtains s1 where "etdb_init_server_conn (listen_fd io) (reuse_ok io) (bind_ok io) (listen_ok io) (listen_addr io) s0 = Some s1"
    "srv_ok (srv s) empty_view" "conns s = Map.empty" "s = s1\<lparr>srv := srv s\<rparr>"
proof -
  have m: "map_sum id (Pair lg) x = Inr (lg', s) \<longleftrightarrow> x = Inr s \<and> lg' = lg" for x :: "int + server_state" and lg
    by (cases x) auto
  obtain r where r: "etdb_init_file_config (config_alloc io) (files io (argv ! 1)) (raw_config io) = Some r"
    "length argv \<ge> 2"
    using assms(1) by (auto simp: etdb_init_def bind_eq_Some_conv split: if_split_asm)
  obtain cfg where cfg: "r = Inr cfg" using assms(1) r by (cases r) (simp_all add: etdb_init_def)
  obtain x lg1 where l: "etdb_log_init (log_opened io) (etdb_file_config_get_string cfg (str ''LOG_FILE'') (str ''log.txt''))
      (etdb_file_config_get_string cfg (str ''LOG_LEVEL'') (str ''INFO'')) lg = (x, lg1)" by fastforce
  have "start_server io s0 = Some (Inr s)"
    using assms(1) r unfolding cfg
    by (cases "if etdb_file_config_get_int cfg (str ''DAEMON'') 0 \<noteq> 0 then etdb_daemon (background io) else Inr 0")
      (simp_all add: etdb_init_def l m)
  then obtain s1 ms t r where 1: "etdb_init_server_conn (listen_fd io) (reuse_ok io) (bind_ok io) (listen_ok io) (listen_addr io) s0 = Some s1"
    "etdb_module_init (modules (srv s1)) (command_trie (srv s1)) = Some (ms, t, r)"
    "s = s1\<lparr>srv := (srv s1)\<lparr>database := snd (etdb_database_init None (database (srv s1))), modules := ms, command_trie := t\<rparr>\<rparr>"
    by (auto simp: start_server_def Let_def split: option.splits if_splits)
  have s1: "srv s1 = srv s0" "conns s1 = conns s0"
    using 1(1) by (auto simp: etdb_init_server_conn_def Let_def split: option.splits)
  have "db_rep (snd (etdb_database_init None (database (srv s0)))) empty_view"
    using assms(2) by (intro init_db_rep) (simp add: initial_state_def)
  then have "srv_ok (srv s) empty_view"
    by (intro modules_ok(2) [of "command_trie (srv s1)" ms t r]) (use 1(2,3) s1 assms(2) in \<open>simp_all add: initial_state_def\<close>)
  moreover have "conns s = Map.empty" using 1(3) s1 assms(2) by (simp add: initial_state_def)
  moreover have "s = s1\<lparr>srv := srv s\<rparr>" unfolding 1(3) by simp
  ultimately show thesis using that 1(1) by blast
qed

end
