(* ===== verification/Server_State.thy ===== *)
theory Server_State
  imports Server
begin

text \<open>
  The states the server reaches: the connections that exist, the descriptors watched and the
  counter agree, whatever the clients and the system calls do. \<open>reachable\<close> is the step relation
  of the cycle with the signals that interrupt it; \<open>kernel_ok\<close> says what epoll(7), accept(2) and
  the allocator promise: a round reports watched descriptors, each once; an accepted socket is not a
  descriptor that is open at that moment, and the memory of a new connection is not in use at that moment.
  Descriptors and memory of connections closed earlier in the same round may be used again.
\<close>

section \<open>The invariant\<close>

definition owned :: "server_state \<Rightarrow> int \<Rightarrow> int \<Rightarrow> bool" where
  "owned s fd a \<longleftrightarrow> (\<exists>ev. table (mgr s) fd = Some ev \<and> data_ptr ev = a)"

definition server_inv :: "server_state \<Rightarrow> bool" where
  "server_inv s \<longleftrightarrow> watch_inv (mgr s) \<and> finite (dom (conns s)) \<and>
     conn_cnt s = of_nat (card (dom (conns s))) \<and>
     conns s (server_conn s) = None \<and> owned s (server_fd s) (server_conn s) \<and>
     watched (mgr s) (server_fd s) AND FDEVENT_IN \<noteq> 0 \<and>
     (\<forall>a c. conns s a = Some c \<longrightarrow> sock c \<noteq> server_fd s \<and> owned s (sock c) a \<and>
        watched (mgr s) (sock c) AND FDEVENT_IN \<noteq> 0) \<and>
     (\<forall>fd. watched (mgr s) fd \<noteq> 0 \<longrightarrow> fd = server_fd s \<or> (\<exists>a c. conns s a = Some c \<and> sock c = fd))"

lemma server_invD:
  assumes "server_inv s"
  shows "watch_inv (mgr s)" "finite (dom (conns s))" "conn_cnt s = of_nat (card (dom (conns s)))"
    "conns s (server_conn s) = None" "owned s (server_fd s) (server_conn s)"
    "conns s a = Some c \<Longrightarrow> sock c \<noteq> server_fd s" "conns s a = Some c \<Longrightarrow> owned s (sock c) a"
    "conns s a = Some c \<Longrightarrow> watched (mgr s) (sock c) AND FDEVENT_IN \<noteq> 0"
    "watched (mgr s) fd \<noteq> 0 \<Longrightarrow> fd \<noteq> server_fd s \<Longrightarrow> \<exists>a c. conns s a = Some c \<and> sock c = fd"
    "watched (mgr s) (server_fd s) AND FDEVENT_IN \<noteq> 0"
  using assms by (auto simp: server_inv_def)

lemma owned_unique: "owned s fd a \<Longrightarrow> owned s fd b \<Longrightarrow> a = b"
  by (auto simp: owned_def)

lemma server_invI:
  assumes "watch_inv (mgr s)" "finite (dom (conns s))" "conn_cnt s = of_nat (card (dom (conns s)))"
    "conns s (server_conn s) = None" "owned s (server_fd s) (server_conn s)"
    "\<And>a c. conns s a = Some c \<Longrightarrow> sock c \<noteq> server_fd s \<and> owned s (sock c) a \<and>
       watched (mgr s) (sock c) AND FDEVENT_IN \<noteq> 0"
    "\<And>fd. watched (mgr s) fd \<noteq> 0 \<Longrightarrow> fd \<noteq> server_fd s \<Longrightarrow> \<exists>a c. conns s a = Some c \<and> sock c = fd"
    "watched (mgr s) (server_fd s) AND FDEVENT_IN \<noteq> 0"
  shows "server_inv s"
  unfolding server_inv_def using assms by blast

lemma in_set_kept: "(w :: 32 word) AND k \<noteq> 0 \<Longrightarrow> (w OR fl) AND k \<noteq> 0"
  by (auto simp: bit_eq_iff bit_simps)

lemma in_out_kept: "(w :: 32 word) AND FDEVENT_IN \<noteq> 0 \<Longrightarrow> (w AND NOT FDEVENT_OUT) AND FDEVENT_IN \<noteq> 0"
proof -
  have "NOT FDEVENT_OUT AND FDEVENT_IN = FDEVENT_IN" by (simp add: fdevent_defs)
  then have "(w AND NOT FDEVENT_OUT) AND FDEVENT_IN = w AND FDEVENT_IN" by (simp add: and.assoc)
  then show "w AND FDEVENT_IN \<noteq> 0 \<Longrightarrow> (w AND NOT FDEVENT_OUT) AND FDEVENT_IN \<noteq> 0" by simp
qed

section \<open>The parts of a round\<close>

lemma put_conn_acc [simp]:
  "mgr (put_conn a c s) = mgr s" "server_conn (put_conn a c s) = server_conn s"
  "server_fd (put_conn a c s) = server_fd s" "conns (put_conn a c s) = (conns s)(a \<mapsto> c)"
  "conn_cnt (put_conn a c s) = conn_cnt s" "owned (put_conn a c s) = owned s" "wire (put_conn a c s) = wire s"
  by (simp_all add: put_conn_def owned_def fun_eq_iff)

lemma put_conn_inv:
  assumes "server_inv s" "conns s a = Some c0" "sock c = sock c0"
  shows "server_inv (put_conn a c s)"
proof (rule server_invI)
  note inv = server_invD [OF assms(1)]
  have d: "dom (conns (put_conn a c s)) = dom (conns s)" using assms(2) by auto
  show "finite (dom (conns (put_conn a c s)))" "conn_cnt (put_conn a c s) = of_nat (card (dom (conns (put_conn a c s))))"
    unfolding d using inv(2,3) by simp_all
  show "conns (put_conn a c s) (server_conn (put_conn a c s)) = None" using inv(4) assms(2) by auto
  show "sock x \<noteq> server_fd (put_conn a c s) \<and> owned (put_conn a c s) (sock x) b \<and>
      watched (mgr (put_conn a c s)) (sock x) AND FDEVENT_IN \<noteq> 0"
    if "conns (put_conn a c s) b = Some x" for b x
    using that inv(6,7,8) assms(2,3) by (cases "b = a") auto
  show "\<exists>b x. conns (put_conn a c s) b = Some x \<and> sock x = fd"
    if w: "watched (mgr (put_conn a c s)) fd \<noteq> 0" "fd \<noteq> server_fd (put_conn a c s)" for fd
  proof -
    obtain b x where b: "conns s b = Some x" "sock x = fd" using inv(9) [of fd] w by auto
    then show ?thesis using assms(2,3) by (cases "b = a") auto
  qed
qed (use server_invD [OF assms(1)] in simp_all)

text \<open>The descriptor of a connection, or of the server, changes its flags.\<close>

lemma mgr_inv:
  assumes "server_inv s" "conns s a = Some c" "watch_inv m"
    "watched m = (watched (mgr s))(sock c := w)" "w AND FDEVENT_IN \<noteq> 0"
    "\<And>i. i \<noteq> sock c \<Longrightarrow> table m i = table (mgr s) i" "\<exists>ev. table m (sock c) = Some ev \<and> data_ptr ev = a"
  shows "server_inv (s\<lparr>mgr := m\<rparr>)"
proof (rule server_invI)
  note inv = server_invD [OF assms(1)]
  have own: "owned (s\<lparr>mgr := m\<rparr>) fd b \<longleftrightarrow> (if fd = sock c then b = a else owned s fd b)" for fd b
    using assms(6,7) by (auto simp: owned_def)
  show "owned (s\<lparr>mgr := m\<rparr>) (server_fd (s\<lparr>mgr := m\<rparr>)) (server_conn (s\<lparr>mgr := m\<rparr>))"
    using inv(5) inv(6) [OF assms(2)] unfolding own by simp
  show "sock x \<noteq> server_fd (s\<lparr>mgr := m\<rparr>) \<and> owned (s\<lparr>mgr := m\<rparr>) (sock x) b \<and>
      watched (mgr (s\<lparr>mgr := m\<rparr>)) (sock x) AND FDEVENT_IN \<noteq> 0"
    if "conns (s\<lparr>mgr := m\<rparr>) b = Some x" for b x
  proof -
    have x: "conns s b = Some x" using that by simp
    then have "sock x = sock c \<Longrightarrow> b = a"
      using owned_unique inv(7) [OF x] inv(7) [OF assms(2)] by metis
    then show ?thesis using inv(6,7,8) [OF x] assms(4,5) unfolding own by simp
  qed
  show "\<exists>b x. conns (s\<lparr>mgr := m\<rparr>) b = Some x \<and> sock x = fd"
    if "watched (mgr (s\<lparr>mgr := m\<rparr>)) fd \<noteq> 0" "fd \<noteq> server_fd (s\<lparr>mgr := m\<rparr>)" for fd
    using that inv(9) [of fd] assms(2,4) by (cases "fd = sock c") auto
qed (use server_invD [OF assms(1)] assms(2-5) in simp_all)

lemma watch_step:
  assumes "server_inv s" "conns s a = Some c" "fl \<noteq> 0"
  shows "server_inv (watch (sock c) fl num a s)" "conns (watch (sock c) fl num a s) = conns s"
    "server_fd (watch (sock c) fl num a s) = server_fd s"
    "server_conn (watch (sock c) fl num a s) = server_conn s"
proof -
  note inv = server_invD [OF assms(1)]
  obtain m where m: "etdb_event_mgr_set (mgr s) (sock c) fl num a = (0, m)" "watch_inv m"
    "watched m = (watched (mgr s))(sock c := watched (mgr s) (sock c) OR fl)"
    "\<And>i. i \<noteq> sock c \<Longrightarrow> table m i = table (mgr s) i"
    "\<exists>ev. table m (sock c) = Some ev \<and> data_ptr ev = a"
    using event_mgr_set [OF inv(1) assms(3)] by blast
  have "server_inv (s\<lparr>mgr := m\<rparr>)"
    by (rule mgr_inv [OF assms(1,2) m(2,3) _ m(4,5)]) (rule in_set_kept [OF inv(8) [OF assms(2)]])
  then show "server_inv (watch (sock c) fl num a s)" by (simp add: watch_def m(1))
qed (simp_all add: watch_def)

lemma unwatch_out_step:
  assumes "server_inv s" "conns s a = Some c"
  shows "server_inv (unwatch (sock c) FDEVENT_OUT s)" "conns (unwatch (sock c) FDEVENT_OUT s) = conns s"
    "server_fd (unwatch (sock c) FDEVENT_OUT s) = server_fd s"
    "server_conn (unwatch (sock c) FDEVENT_OUT s) = server_conn s"
proof -
  note inv = server_invD [OF assms(1)]
  obtain ev where ev: "table (mgr s) (sock c) = Some ev" "data_ptr ev = a"
    using inv(7) [OF assms(2)] by (auto simp: owned_def)
  obtain r m where m: "etdb_event_mgr_ctr (mgr s) (sock c) FDEVENT_OUT = (r, m)" "watch_inv m"
    "watched m = (watched (mgr s))(sock c := watched (mgr s) (sock c) AND NOT FDEVENT_OUT)"
    "\<And>i. i \<noteq> sock c \<Longrightarrow> table m i = table (mgr s) i"
    "\<exists>ev'. table m (sock c) = Some ev' \<and> data_ptr ev' = data_ptr ev"
    using event_mgr_ctr [OF inv(1), of "sock c" FDEVENT_OUT] ev(1) by metis
  have "server_inv (s\<lparr>mgr := m\<rparr>)"
    by (rule mgr_inv [OF assms m(2,3) _ m(4) m(5) [unfolded ev(2)]]) (rule in_out_kept [OF inv(8) [OF assms(2)]])
  then show "server_inv (unwatch (sock c) FDEVENT_OUT s)" by (simp add: unwatch_def m(1))
qed (simp_all add: unwatch_def)

text \<open>A connection that ends takes its descriptor and one from the counter.\<close>

lemma drop_conn_step:
  assumes "server_inv s" "conns s a = Some c"
  shows "server_inv (drop_conn a s)" "conns (drop_conn a s) = (conns s)(a := None)"
    "server_fd (drop_conn a s) = server_fd s" "server_conn (drop_conn a s) = server_conn s"
    "fd \<noteq> sock c \<Longrightarrow> watched (mgr (drop_conn a s)) fd = watched (mgr s) fd"
proof -
  note inv = server_invD [OF assms(1)]
  obtain r m where m: "etdb_event_mgr_del (mgr s) (sock c) = (r, m)" "watch_inv m"
    "watched m = (watched (mgr s))(sock c := 0)" "\<And>i. i \<noteq> sock c \<Longrightarrow> table m i = table (mgr s) i"
    using event_mgr_del [OF inv(1), of "sock c"] by metis
  let ?s = "s\<lparr>conn_cnt := conn_cnt s - 1, mgr := m, conns := (conns s)(a := None)\<rparr>"
  have d: "drop_conn a s = ?s" by (simp add: drop_conn_def assms(2) m(1))
  show "server_inv (drop_conn a s)"
    unfolding d
  proof (rule server_invI)
    have "a \<in> dom (conns s)" using assms(2) by auto
    then have "card (dom (conns s)) = Suc (card (dom (conns s) - {a}))"
      by (rule card.remove [OF inv(2)])
    then show "conn_cnt ?s = of_nat (card (dom (conns ?s)))" using inv(3) by simp
    show "owned ?s (server_fd ?s) (server_conn ?s)"
      using inv(5) inv(6) [OF assms(2)] m(4) by (auto simp: owned_def)
    show "sock x \<noteq> server_fd ?s \<and> owned ?s (sock x) b \<and> watched (mgr ?s) (sock x) AND FDEVENT_IN \<noteq> 0"
      if "conns ?s b = Some x" for b x
    proof -
      have x: "conns s b = Some x" "b \<noteq> a" using that by (auto split: if_splits)
      then have "sock x \<noteq> sock c"
        using owned_unique inv(7) [OF x(1)] inv(7) [OF assms(2)] by metis
      then show ?thesis using inv(6,7,8) [OF x(1)] m(3,4) by (auto simp: owned_def)
    qed
    show "\<exists>b x. conns ?s b = Some x \<and> sock x = fd"
      if w: "watched (mgr ?s) fd \<noteq> 0" "fd \<noteq> server_fd ?s" for fd
    proof -
      have f: "fd \<noteq> sock c" "watched (mgr s) fd \<noteq> 0" using w(1) m(3) by (auto split: if_splits)
      then obtain b x where b: "conns s b = Some x" "sock x = fd" using inv(9) [of fd] w(2) by auto
      then have "b \<noteq> a" using assms(2) f(1) by auto
      then show ?thesis using b by auto
    qed
  qed (use inv inv(6) [OF assms(2)] m(2,3) in auto)
  show "watched (mgr (drop_conn a s)) fd = watched (mgr s) fd" if "fd \<noteq> sock c" for fd
    using that m(3) by (simp add: d)
qed (simp_all add: drop_conn_def)

text \<open>The watched descriptors are those of the server and of the connections.\<close>

lemma watched_iff:
  assumes "server_inv s"
  shows "watched (mgr s) fd \<noteq> 0 \<longleftrightarrow> fd = server_fd s \<or> (\<exists>a c. conns s a = Some c \<and> sock c = fd)"
  using server_invD(8,9,10) [OF assms] by force

section \<open>What the calls leave alone\<close>

lemma parse_sock: "etdb_resp_parse_req c = Some (n, c') \<Longrightarrow> sock c' = sock c"
  by (auto simp: etdb_resp_parse_req_def Let_def split: prod.splits parse_result.splits)

lemma recv_req_sock:
  assumes "etdb_resp_recv_req j ok c = Some (n, c')"
  shows "sock c' = sock c"
proof -
  obtain r d where d: "etdb_resp_parse_req c = Some (r, d)"
    using assms by (auto simp: etdb_resp_recv_req_def split: option.splits)
  have "sock c' = sock d"
    using assms by (auto simp: etdb_resp_recv_req_def d Let_def split: if_splits prod.splits)
  then show ?thesis using parse_sock [OF d] by simp
qed

lemma recv_sock:
  assumes "etdb_connect_recv j ok c = Some r"
  shows "sock (case r of Inl x \<Rightarrow> x | Inr x \<Rightarrow> x) = sock c"
proof -
  let ?c = "if recv_cmd c \<noteq> [] then c\<lparr>free_cmd := free_cmd c @ recv_cmd c, recv_cmd := []\<rparr> else c"
  have c: "sock ?c = sock c" by simp
  have "r = Inr ?c \<or> (\<exists>n d. etdb_resp_recv_req j ok ?c = Some (n, d) \<and> (r = Inl d \<or> r = Inr d))"
    using assms unfolding etdb_connect_recv_def Let_def by (auto split: if_splits)
  then show ?thesis using recv_req_sock c by fastforce
qed

lemma read_sock: "etdb_connect_read_to_buf c os = Some (n, c') \<Longrightarrow> sock c' = sock c"
  by (auto simp: etdb_connect_read_to_buf_def split: if_splits)

lemma write_sock: "etdb_connect_write c os = Some (n, c', sent, os') \<Longrightarrow> sock c' = sock c"
  by (auto simp: etdb_connect_write_def)

lemma append_all_sock: "append_all ok c ss = Some c' \<Longrightarrow> sock c' = sock c"
proof (induction ss arbitrary: c)
  case (Cons s ss)
  then obtain d where "append_out ok c s = Some d" "append_all ok d ss = Some c'"
    by (auto simp: Option.bind_eq_Some_conv)
  then show ?case using Cons.IH by (auto simp: append_out_def)
qed simp

lemma send_sock: "etdb_connect_send_to_buf ok c resp = Some c' \<Longrightarrow> sock c' = sock c"
  using append_all_sock
  by (fastforce simp: etdb_connect_send_to_buf_def append_out_def Option.bind_eq_Some_conv)

lemma exec_sock:
  assumes "etdb_serv_exec_proc hst ok t1 t2 mem req sv c = Some (sv', c', out)"
  shows "sock c' = sock c"
  using assms unfolding etdb_serv_exec_proc_def Let_def
  by (auto simp: Option.bind_eq_Some_conv dest!: send_sock split: option.splits if_splits)

section \<open>Events\<close>

text \<open>What accept(2) and the allocator promise when they are called in the state \<open>s\<close>.\<close>

definition accept_ok :: "event_io \<Rightarrow> server_state \<Rightarrow> bool" where
  "accept_ok io s \<longleftrightarrow> conns s (new_addr io) = None \<and> new_addr io \<noteq> server_conn s \<and>
     (\<forall>n. Accepted n \<in> set (accepts io) \<longrightarrow>
        n \<noteq> server_fd s \<and> (\<forall>b c. conns s b = Some c \<longrightarrow> sock c \<noteq> n))"

text \<open>The same for each accept of a round, in the state the events before it have led to.\<close>

fun accepts_ok :: "(int \<Rightarrow> event_io) \<Rightarrow> int list \<Rightarrow> server_state \<Rightarrow> int list \<Rightarrow> bool" where
  "accepts_ok ios [] s ready = True"
| "accepts_ok ios (fd # fds) s ready \<longleftrightarrow> (fd = server_fd s \<longrightarrow> accept_ok (ios fd) s) \<and>
     (case handle_event (ios fd) fd s ready of
        None \<Rightarrow> True
      | Some (t, r) \<Rightarrow> accepts_ok ios fds t r)"

text \<open>Both may be used again at once: after a connection was closed, its descriptor and memory are free.\<close>

lemma accept_reuse:
  assumes "server_inv s" "conns s a = Some c" "accepts io = [Accepted (sock c)]" "new_addr io = a"
  shows "accept_ok io (drop_conn a s)"
proof -
  note D = drop_conn_step [OF assms(1,2)] and inv = server_invD [OF assms(1)]
  have "sock x \<noteq> sock c" if "conns (drop_conn a s) b = Some x" for b x
  proof -
    have x: "conns s b = Some x" "b \<noteq> a" using that by (auto simp: D(2) split: if_splits)
    then show ?thesis using owned_unique inv(7) [OF x(1)] inv(7) [OF assms(2)] by metis
  qed
  moreover have "a \<noteq> server_conn s" using inv(4) assms(2) by auto
  ultimately show ?thesis using assms(3,4) inv(6) [OF assms(2)] by (simp add: accept_ok_def D(2,3,4))
qed

text \<open>What an event for \<open>fd\<close> may change.\<close>

definition event_done :: "server_state \<Rightarrow> int \<Rightarrow> int list \<Rightarrow> server_state \<Rightarrow> int list \<Rightarrow> bool" where
  "event_done s fd ready s' ready' \<longleftrightarrow> server_inv s' \<and> server_fd s' = server_fd s \<and>
     server_conn s' = server_conn s \<and>
     (\<forall>b c. conns s b = Some c \<and> sock c \<noteq> fd \<longrightarrow> conns s' b = Some c) \<and>
     (fd \<noteq> server_fd s \<longrightarrow> (\<forall>b c'. conns s' b = Some c' \<longrightarrow> (\<exists>c. conns s b = Some c \<and> sock c = sock c'))) \<and>
     (ready' = ready \<or> (\<exists>a c. ready' = ready @ [a] \<and> conns s' a = Some c \<and> sock c = fd))"

lemma wire_inv [simp]: "server_inv (s\<lparr>wire := w\<rparr>) \<longleftrightarrow> server_inv s"
  by (simp add: server_inv_def owned_def)

lemma drop_conn_wire: "drop_conn a (s\<lparr>wire := w\<rparr>) = (drop_conn a s)\<lparr>wire := w\<rparr>"
  by (cases s) (simp add: drop_conn_def)

lemma event_done_wire [simp]: "event_done s fd r (s'\<lparr>wire := w\<rparr>) r' \<longleftrightarrow> event_done s fd r s' r'"
  by (simp add: event_done_def)

lemma event_doneI:
  assumes "server_inv s'" "server_fd s' = server_fd s" "server_conn s' = server_conn s"
    "\<And>b. b \<noteq> a \<Longrightarrow> conns s' b = conns s b" "conns s a = Some c" "sock c = fd"
    "\<And>c'. conns s' a = Some c' \<Longrightarrow> sock c' = fd" "ready' = ready \<or> ready' = ready @ [a] \<and> conns s' a \<noteq> None"
  shows "event_done s fd ready s' ready'"
  unfolding event_done_def
proof (intro conjI allI impI)
  show "conns s' b = Some x" if "conns s b = Some x \<and> sock x \<noteq> fd" for b x
    using that assms(4-6) by (cases "b = a") auto
  show "\<exists>c. conns s b = Some c \<and> sock c = sock x" if "conns s' b = Some x" for b x
    using that assms(4-7) by (cases "b = a") auto
  show "ready' = ready \<or> (\<exists>a c. ready' = ready @ [a] \<and> conns s' a = Some c \<and> sock c = fd)"
    using assms(7,8) by auto
qed (use assms in auto)

lemma watch_done:
  assumes "event_done s fd ready s' ready'" "conns s' a = Some c" "fl \<noteq> 0"
  shows "event_done s fd ready (watch (sock c) fl num a s') ready'"
  using assms(1) watch_step [OF _ assms(2,3), of num] unfolding event_done_def by simp

lemma unwatch_done:
  assumes "event_done s fd ready s' ready'" "conns s' a = Some c"
  shows "event_done s fd ready (unwatch (sock c) FDEVENT_OUT s') ready'"
  using assms(1) unwatch_out_step [OF _ assms(2)] unfolding event_done_def by simp

lemma drop_done:
  assumes "server_inv s" "conns s a = Some c" "sock c' = sock c"
  shows "event_done s (sock c) ready (drop_conn a (put_conn a c' s)) ready"
proof -
  note p = put_conn_inv [OF assms]
  have "conns (put_conn a c' s) a = Some c'" by simp
  note d = drop_conn_step [OF p this]
  show ?thesis
    by (rule event_doneI [OF d(1) _ _ _ assms(2)]) (simp_all add: d)
qed

lemma put_done:
  assumes "server_inv s" "conns s a = Some c" "sock c' = sock c" "ready' = ready \<or> ready' = ready @ [a]"
  shows "event_done s (sock c) ready (put_conn a c' s) ready'"
  using assms by (intro event_doneI [OF put_conn_inv [OF assms(1-3)] _ _ _ assms(2)]) auto

lemma accept_done:
  assumes "server_inv s" "accept_ok io s" "accept_event io s = Some s'"
  shows "event_done s (server_fd s) ready s' ready"
proof -
  note inv = server_invD [OF assms(1)]
  obtain r where r: "etdb_connect_accept (raw_in io) (raw_out io) (accepts io) = Some r"
    using assms(3) by (auto simp: accept_event_def)
  show ?thesis
  proof (cases r)
    case None
    then have "s' = s" using assms(3) r by (simp add: accept_event_def)
    then show ?thesis using assms(1) by (simp add: event_done_def)
  next
    case (Some c0)
    let ?a = "new_addr io" and ?c = "etdb_connect_noblock c0 True"
    have n: "\<exists>n. Accepted n \<in> set os \<and> sock x = n"
      if "etdb_connect_accept ri ro os = Some (Some x)" for ri ro os x
      using that
      by (induction ri ro os rule: etdb_connect_accept.induct)
        (auto split: accept_result.splits simp: etdb_connect_init_buf_def)
    have "sock c0 \<noteq> server_fd s" "conns s b = Some x \<Longrightarrow> sock x \<noteq> sock c0" for b x
      using n [OF r [unfolded Some]] assms(2) by (auto simp: accept_ok_def)
    then have w: "watched (mgr s) (sock c0) = 0"
      using watched_iff [OF assms(1), of "sock c0"] by metis
    have fresh: "conns s ?a = None" "?a \<noteq> server_conn s" using assms(2) by (auto simp: accept_ok_def)
    obtain m where m: "etdb_event_mgr_set (mgr s) (sock c0) FDEVENT_IN 0 ?a = (0, m)" "watch_inv m"
      "watched m = (watched (mgr s))(sock c0 := watched (mgr s) (sock c0) OR FDEVENT_IN)"
      "\<And>i. i \<noteq> sock c0 \<Longrightarrow> table m i = table (mgr s) i"
      "\<exists>ev. table m (sock c0) = Some ev \<and> data_ptr ev = ?a"
      by (rule event_mgr_set [OF inv(1), of FDEVENT_IN "sock c0" 0 ?a]) (auto simp: FDEVENT_IN_def)
    have s': "s' = s\<lparr>conns := (conns s)(?a \<mapsto> ?c), mgr := m, conn_cnt := conn_cnt s + 1,
        wire := (wire s)(?a := [])\<rparr>"
      using assms(3) r Some m(1)
      by (simp add: accept_event_def Let_def watch_def put_conn_def etdb_connect_noblock_def)
    have sc: "sock ?c = sock c0" by (simp add: etdb_connect_noblock_def)
    have other: "sock x \<noteq> sock c0" if "conns s b = Some x" for b x
      using inv(8) [OF that] w by auto
    have nf: "sock c0 \<noteq> server_fd s" using inv(10) w by auto
    have "server_inv s'"
    proof (rule server_invI)
      show "conn_cnt s' = of_nat (card (dom (conns s')))"
        using inv(2,3) fresh(1) by (simp add: s' domIff)
      show "owned s' (server_fd s') (server_conn s')"
        using inv(5) nf m(4) by (simp add: s' owned_def)
      show "sock x \<noteq> server_fd s' \<and> owned s' (sock x) b \<and> watched (mgr s') (sock x) AND FDEVENT_IN \<noteq> 0"
        if "conns s' b = Some x" for b x
      proof (cases "b = ?a")
        case True
        then have "x = ?c" using that by (simp add: s')
        then show ?thesis using True sc nf m(3,5) w by (simp add: s' owned_def FDEVENT_IN_def)
      next
        case False
        then have x: "conns s b = Some x" using that by (simp add: s')
        then show ?thesis using inv(6,7,8) [OF x] other [OF x] m(3,4) by (simp add: s' owned_def)
      qed
      show "\<exists>b x. conns s' b = Some x \<and> sock x = fd"
        if wf: "watched (mgr s') fd \<noteq> 0" "fd \<noteq> server_fd s'" for fd
      proof (cases "fd = sock c0")
        case True
        then show ?thesis using sc by (intro exI [of _ ?a] exI [of _ ?c]) (simp add: s')
      next
        case False
        then obtain b x where "conns s b = Some x" "sock x = fd"
          using inv(9) [of fd] wf m(3) False by (auto simp: s')
        then show ?thesis using fresh(1) by (intro exI [of _ b] exI [of _ x]) (auto simp: s')
      qed
    qed (use inv m(2,3) nf fresh in \<open>simp_all add: s'\<close>)
    then show ?thesis using fresh(1) by (auto simp: event_done_def s')
  qed
qed

lemma handle_event_done:
  assumes inv: "server_inv s" and fd: "watched (mgr s) fd \<noteq> 0"
    and acc: "fd = server_fd s \<Longrightarrow> accept_ok io s" and h: "handle_event io fd s ready = Some (s', ready')"
  shows "event_done s fd ready s' ready'"
proof (cases "fd = server_fd s")
  case True
  then obtain ev where "table (mgr s) fd = Some ev" "data_ptr ev = server_conn s"
    using server_invD(5) [OF inv] by (auto simp: owned_def)
  then have "accept_event io s = Some s'" "ready' = ready"
    using h by (auto simp: handle_event_def Let_def)
  then show ?thesis using accept_done [OF inv acc [OF True]] True by simp
next
  case False
  then obtain a c where c: "conns s a = Some c" "sock c = fd" using server_invD(9) [OF inv fd] by auto
  then obtain ev where ev: "table (mgr s) fd = Some ev" "data_ptr ev = a"
    using server_invD(7) [OF inv c(1)] by (auto simp: owned_def)
  have a: "a \<noteq> server_conn s" using c(1) server_invD(4) [OF inv] by auto
  note h' = h [unfolded handle_event_def Let_def ev option.sel if_not_P [OF a]]
  have self: "put_conn a c s = s" using c(1) by (simp add: put_conn_def fun_upd_idem)
  have "Some (drop_conn a s, ready) = Some (s', ready') \<or> read_event io a s ready = Some (s', ready') \<or>
      write_event io a s ready = Some (s', ready') \<or> Some (s, ready) = Some (s', ready')"
    using h' by presburger
  then consider "s' = drop_conn a s" "ready' = ready" | "read_event io a s ready = Some (s', ready')"
    | "write_event io a s ready = Some (s', ready')" | "s' = s" "ready' = ready"
    by blast
  then show ?thesis
  proof cases
    case 1
    then show ?thesis using drop_done [OF inv c(1) refl, of ready] c(2) self by simp
  next
    case 2
    then obtain n d where d: "etdb_connect_read_to_buf c (got io) = Some (n, d)"
      "(s', ready') = (if n \<le> 0 then (drop_conn a (put_conn a d s), ready) else (put_conn a d s, ready @ [a]))"
      using c(1) by (auto simp: read_event_def)
    note sd = read_sock [OF d(1)]
    show ?thesis
      using drop_done [OF inv c(1) sd, of ready] put_done [OF inv c(1) sd, of "ready @ [a]" ready] d(2) c(2)
      by (auto split: if_splits)
  next
    case 3
    then obtain n d sent os where d: "etdb_connect_write c (took io) = Some (n, d, sent, os)"
      using c(1) by (auto simp: write_event_def)
    let ?w = "\<lambda>s. s\<lparr>wire := (wire s)(a := wire s a @ sent)\<rparr>"
    let ?s = "?w (put_conn a d s)"
    note sd = write_sock [OF d(1)]
    have e: "event_done s fd ready (drop_conn a ?s) ready"
      using drop_done [OF inv c(1) sd, unfolded c(2), of ready] by (simp add: drop_conn_wire)
    have p: "event_done s fd ready ?s r" if "r = ready \<or> r = ready @ [a]" for r
      using put_done [OF inv c(1) sd that, unfolded c(2)] by simp
    have cd: "conns ?s a = Some d" by simp
    have u: "event_done s fd ready (unwatch (sock d) FDEVENT_OUT ?s) r" if "r = ready \<or> r = ready @ [a]" for r
      by (rule unwatch_done [OF p [OF that] cd])
    have cu: "conns (unwatch (sock d) FDEVENT_OUT ?s) a = Some d" by (simp add: unwatch_def)
    have w: "event_done s fd ready (watch (sock d) FDEVENT_IN 1 a (unwatch (sock d) FDEVENT_OUT ?s)) ready"
      by (rule watch_done [OF u cu]) (simp_all add: FDEVENT_IN_def)
    show ?thesis
      using 3 c(1) d e p u w by (auto simp: write_event_def Let_def split: if_splits)
  next
    case 4
    then show ?thesis using put_done [OF inv c(1) refl, of ready ready] self c(2) by simp
  qed
qed

text \<open>
  All events of a round: the remaining descriptors stay watched, and what every event of a watched
  descriptor keeps, the round keeps.
\<close>

lemma event_loop_inv:
  assumes "server_inv s" "distinct fds" "\<forall>fd\<in>set fds. watched (mgr s) fd \<noteq> 0"
    "accepts_ok ios fds s ready" "distinct ready" "\<forall>a\<in>set ready. \<exists>c. conns s a = Some c \<and> sock c \<notin> set fds"
    "event_loop ios fds s ready = Some (s', ready')" "P s"
    and keeps: "\<And>io fd s ready t r. server_inv s \<Longrightarrow> watched (mgr s) fd \<noteq> 0 \<Longrightarrow> P s \<Longrightarrow>
      handle_event io fd s ready = Some (t, r) \<Longrightarrow> P t"
  shows "server_inv s' \<and> server_conn s' = server_conn s \<and> distinct ready' \<and> set ready' \<subseteq> dom (conns s') \<and> P s'"
  using assms(1-8)
proof (induction fds arbitrary: s ready)
  case (Cons fd fds)
  obtain t r where h: "handle_event (ios fd) fd s ready = Some (t, r)"
    and l: "event_loop ios fds t r = Some (s', ready')"
    using Cons.prems(7) by (auto simp: Option.bind_eq_Some_conv)
  have "event_done s fd ready t r"
    using Cons.prems(3,4) by (intro handle_event_done [OF Cons.prems(1) _ _ h]) auto
  note dn = this [unfolded event_done_def]
  have inv: "server_inv t" and same: "server_fd t = server_fd s" "server_conn t = server_conn s"
    and keep: "conns s b = Some c \<Longrightarrow> sock c \<noteq> fd \<Longrightarrow> conns t b = Some c"
    and r: "r = ready \<or> (\<exists>a c. r = ready @ [a] \<and> conns t a = Some c \<and> sock c = fd)" for b c
    using dn by auto
  have w: "\<forall>i\<in>set fds. watched (mgr t) i \<noteq> 0"
  proof
    fix i
    assume i: "i \<in> set fds"
    then have "i \<noteq> fd" "watched (mgr s) i \<noteq> 0" using Cons.prems(2,3) by auto
    then show "watched (mgr t) i \<noteq> 0"
      unfolding watched_iff [OF inv] watched_iff [OF Cons.prems(1)] same using keep by blast
  qed
  have acc: "accepts_ok ios fds t r" using Cons.prems(4) h by simp
  have rd: "\<forall>a\<in>set ready. \<exists>c. conns t a = Some c \<and> sock c \<notin> set (fd # fds)"
    using Cons.prems(6) keep by fastforce
  have "\<forall>a\<in>set r. \<exists>c. conns t a = Some c \<and> sock c \<notin> set fds"
    using r rd Cons.prems(2) by auto
  moreover have "distinct r" using r rd Cons.prems(5) by fastforce
  moreover have "P t" by (rule keeps [OF Cons.prems(1) _ Cons.prems(8) h]) (use Cons.prems(3) in simp)
  ultimately show ?case using Cons.IH [OF inv _ w acc _ _ l] Cons.prems(2) same by simp
qed auto

section \<open>Requests\<close>

lemma process_conn_inv:
  assumes inv: "server_inv s" and c: "conns s a = Some c" and p: "process_conn hst io a s = Some s'"
  shows "server_inv s'" "server_conn s' = server_conn s" "b \<noteq> a \<Longrightarrow> conns s' b = conns s b"
proof -
  obtain r where r: "etdb_connect_recv (junk io) (grows io) c = Some r"
    using p c by (auto simp: process_conn_def Option.bind_eq_Some_conv)
  note sr = recv_sock [OF r]
  have "server_inv s' \<and> server_conn s' = server_conn s \<and> (b \<noteq> a \<longrightarrow> conns s' b = conns s b)"
  proof (cases r)
    case (Inl d)
    then have "s' = drop_conn a (put_conn a d s)"
      using p c r by (auto simp: process_conn_def split: if_splits)
    moreover have "server_inv (put_conn a d s)" "conns (put_conn a d s) a = Some d"
      using put_conn_inv [OF inv c] sr Inl by simp_all
    ultimately show ?thesis using drop_conn_step [of "put_conn a d s" a d] by simp
  next
    case (Inr d)
    then have sd: "sock d = sock c" using sr by simp
    note put = put_conn_inv [OF inv c sd]
    have cd: "conns (put_conn a d s) a = Some d" by simp
    show ?thesis
    proof (cases "recv_cmd d = []")
      case True
      obtain m ev where g: "etdb_event_mgr_get_event (mgr s) (sock d) = (m, ev)" by fastforce
      note gs = get_event_spec [OF server_invD(1) [OF put, unfolded put_conn_acc] g]
      have set: "etdb_event_mgr_isset (mgr s) (sock d) FDEVENT_IN = (m, True)"
        using gs(1) server_invD(8) [OF inv c] g unfolding sd by (simp add: etdb_event_mgr_isset_def)
      have s': "s' = (put_conn a d s)\<lparr>mgr := m\<rparr>"
        using p c r Inr True set by (simp add: process_conn_def)
      have "\<exists>ev. table m (sock d) = Some ev \<and> data_ptr ev = a"
        using gs(2,9) server_invD(7) [OF inv c] sd by (auto simp: owned_def)
      then have "server_inv ((put_conn a d s)\<lparr>mgr := m\<rparr>)"
        using gs(5,6,7) server_invD(8) [OF inv c] sd
        by (intro mgr_inv [OF put cd, where w = "watched (mgr s) (sock d)"]) auto
      then show ?thesis by (simp add: s')
    next
      case False
      then have e: "exec_request hst io a d (put_conn a d s) = Some s'"
        using p c r Inr by (simp add: process_conn_def)
      then obtain sv x out where x: "etdb_serv_exec_proc hst (grows io) (time1 io) (time2 io) (answer_mem io)
          (map (slice_bytes d) (recv_cmd d)) (srv (put_conn a d s)) d = Some (sv, x, out)"
        by (auto simp: exec_request_def)
      let ?t = "(put_conn a x (put_conn a d s))\<lparr>srv := sv\<rparr>"
      have "server_inv (put_conn a x (put_conn a d s))"
        by (rule put_conn_inv [OF put cd exec_sock [OF x]])
      then have t: "server_inv ?t" "conns ?t a = Some x" by (simp_all add: server_inv_def owned_def)
      have "s' = (if out then watch (sock x) FDEVENT_OUT 1 a ?t else ?t)"
        using e x by (simp add: exec_request_def Let_def)
      then show ?thesis
        using t watch_step [OF t, of FDEVENT_OUT 1] by (simp add: FDEVENT_OUT_def)
    qed
  qed
  then show "server_inv s'" "server_conn s' = server_conn s" "b \<noteq> a \<Longrightarrow> conns s' b = conns s b" by simp_all
qed

lemma process_loop_inv:
  assumes "server_inv s" "distinct as" "set as \<subseteq> dom (conns s)" "process_loop hst ios as s = Some s'"
  shows "server_inv s' \<and> server_conn s' = server_conn s"
  using assms
proof (induction "as" arbitrary: s)
  case (Cons a "as")
  obtain c t where c: "conns s a = Some c" and t: "process_conn hst (ios a) a s = Some t"
    "process_loop hst ios as t = Some s'"
    using Cons.prems(3,4) by (auto simp: Option.bind_eq_Some_conv)
  note p = process_conn_inv [OF Cons.prems(1) c t(1)]
  have "set as \<subseteq> dom (conns t)"
  proof
    fix b
    assume "b \<in> set as"
    then have "b \<noteq> a" "b \<in> dom (conns s)" using Cons.prems(2,3) by auto
    then show "b \<in> dom (conns t)" using p(3) [of b] by auto
  qed
  then show ?case using Cons.IH [OF p(1) _ _ t(2)] Cons.prems(2) p(2) by simp
qed simp

section \<open>Reachable states\<close>

definition kernel_ok :: "round_io \<Rightarrow> server_state \<Rightarrow> bool" where
  "kernel_ok rd s \<longleftrightarrow>
     (\<forall>rs. waited rd = Ready rs \<longrightarrow> distinct (map fst rs) \<and> (\<forall>fd\<in>fst ` set rs. watched (mgr s) fd \<noteq> 0) \<and>
        accepts_ok (ev_io rd) (map fst rs) (s\<lparr>mgr := fst (etdb_event_mgr_wait (mgr s) (waited rd))\<rparr>) [])"

inductive reachable :: "host \<Rightarrow> server_state \<Rightarrow> bool" for hst where
  start: "etdb_init_server_conn sockfd reused bound listening addr s0 = Some s \<Longrightarrow>
     conns s0 = Map.empty \<Longrightarrow> conn_cnt s0 = 0 \<Longrightarrow> reachable hst s"
| round: "reachable hst s \<Longrightarrow> \<not> quit s \<Longrightarrow> kernel_ok rd s \<Longrightarrow> cycle_round hst rd s = Some (Inr s') \<Longrightarrow>
     reachable hst s'"
| signal: "reachable hst s \<Longrightarrow> reachable hst (etdb_signal_handler sig s)"

lemma start_inv:
  assumes "etdb_init_server_conn sockfd reused bound listening addr s0 = Some s"
    "conns s0 = Map.empty" "conn_cnt s0 = 0"
  shows "server_inv s"
proof -
  obtain m where m: "etdb_event_mgr_set etdb_event_mgr_init sockfd FDEVENT_IN 0 addr = (0, m)" "watch_inv m"
    "watched m = (watched etdb_event_mgr_init)(sockfd := watched etdb_event_mgr_init sockfd OR FDEVENT_IN)"
    "\<exists>ev. table m sockfd = Some ev \<and> data_ptr ev = addr"
    by (rule event_mgr_set [OF init_watch_inv, of FDEVENT_IN sockfd 0 addr]) (auto simp: FDEVENT_IN_def)
  have w: "watched etdb_event_mgr_init = (\<lambda>_. 0)"
    by (simp add: watched_def etdb_event_mgr_init_def fun_eq_iff)
  have "s = s0\<lparr>server_conn := addr, server_fd := sockfd, mgr := m\<rparr>"
    using assms(1) m(1)
    by (auto simp: etdb_init_server_conn_def etdb_connect_listen_def sock_err_def zero_connection_def
        Let_def split: if_splits)
  then show ?thesis
    using m(2-4) assms(2,3) by (auto simp: server_inv_def owned_def w FDEVENT_IN_def split: if_splits)
qed

lemma ready_loop_spec:
  assumes "ready_loop rs m q = (m', q')" "watch_inv m" "\<forall>fd\<in>fst ` set rs. table m fd \<noteq> None"
  shows "watch_inv m' \<and> watched m' = watched m \<and> interest m' = interest m \<and> q' = q @ map fst rs \<and>
    (\<forall>fd. map_option data_ptr (table m' fd) = map_option data_ptr (table m fd))"
  using assms
proof (induction rs m q rule: ready_loop.induct)
  case (2 fd e rs m q)
  let ?ev = "(the (table m fd))\<lparr>events := fd_events e\<rparr>"
  obtain ev where ev: "table m fd = Some ev" using 2(4) by auto
  note inv = watch_invD [OF 2(3)]
  have w: "watched (put_event fd ?ev m) = watched m"
    by (auto simp: watched_def put_event_def ev fun_eq_iff)
  have "watch_inv (put_event fd ?ev m)"
    unfolding watch_inv_def w using inv ev by (auto simp: put_event_def)
  moreover have "\<forall>i\<in>fst ` set rs. table (put_event fd ?ev m) i \<noteq> None"
    using 2(4) by (auto simp: put_event_def)
  moreover have "map_option data_ptr (table (put_event fd ?ev m) i) = map_option data_ptr (table m i)" for i
    by (simp add: put_event_def ev)
  moreover have "interest (put_event fd ?ev m) = interest m" by (simp add: put_event_def)
  ultimately show ?case using 2(1,2) w by simp
qed simp

lemma wait_inv:
  assumes "server_inv s" "kernel_ok rd s" "etdb_event_mgr_wait (mgr s) (waited rd) = (m, Some fds)"
  shows "server_inv (s\<lparr>mgr := m\<rparr>)" "watched m = watched (mgr s)" "distinct fds"
    "\<forall>fd\<in>set fds. watched m fd \<noteq> 0" "accepts_ok (ev_io rd) fds (s\<lparr>mgr := m\<rparr>) []"
proof -
  have "watch_inv m \<and> watched m = watched (mgr s) \<and>
      (\<forall>fd. map_option data_ptr (table m fd) = map_option data_ptr (table (mgr s) fd)) \<and>
      distinct fds \<and> (\<forall>fd\<in>set fds. watched (mgr s) fd \<noteq> 0) \<and>
      accepts_ok (ev_io rd) fds (s\<lparr>mgr := m\<rparr>) []"
  proof (cases "waited rd")
    case (Ready rs)
    have k: "distinct (map fst rs)" "\<forall>fd\<in>fst ` set rs. watched (mgr s) fd \<noteq> 0"
      "accepts_ok (ev_io rd) (map fst rs) (s\<lparr>mgr := m\<rparr>) []"
      using assms(2) Ready arg_cong [OF assms(3), of fst] by (simp_all add: kernel_ok_def)
    have t: "\<forall>fd\<in>fst ` set rs. table (mgr s) fd \<noteq> None"
      using k(2) by (auto simp: watched_def split: option.splits)
    have "ready_loop rs (mgr s) [] = (m, fds)"
      using assms(3) Ready by (auto simp: etdb_event_mgr_wait_def split: prod.splits)
    from ready_loop_spec [OF this server_invD(1) [OF assms(1)] t] show ?thesis using k by auto
  qed (use assms server_invD(1) [OF assms(1)] in \<open>auto simp: etdb_event_mgr_wait_def\<close>)
  note w = this
  have "owned (s\<lparr>mgr := m\<rparr>) = owned s"
    using w by (auto simp: owned_def fun_eq_iff) (metis map_option_eq_Some)+
  then show "server_inv (s\<lparr>mgr := m\<rparr>)" using assms(1) w by (simp add: server_inv_def)
  show "watched m = watched (mgr s)" "distinct fds" "\<forall>fd\<in>set fds. watched m fd \<noteq> 0" using w by auto
  show "accepts_ok (ev_io rd) fds (s\<lparr>mgr := m\<rparr>) []" using w by simp
qed

lemma round_inv:
  assumes "server_inv s" "kernel_ok rd s" "cycle_round hst rd s = Some (Inr s')"
  shows "server_inv s'"
proof -
  obtain m fds t ready where w: "etdb_event_mgr_wait (mgr s) (waited rd) = (m, Some fds)"
    and e: "event_loop (ev_io rd) fds (s\<lparr>mgr := m\<rparr>) [] = Some (t, ready)"
    and p: "process_loop hst (req_io rd) ready t = Some s'"
    using assms(3) by (auto simp: cycle_round_def Let_def Option.bind_eq_Some_conv split: prod.splits option.splits)
  note wi = wait_inv [OF assms(1,2) w]
  have "server_inv t \<and> server_conn t = server_conn (s\<lparr>mgr := m\<rparr>) \<and> distinct ready \<and> set ready \<subseteq> dom (conns t) \<and> True"
    by (rule event_loop_inv [OF wi(1,3) _ _ _ _ e]) (use wi(4,5) in simp_all)
  then show ?thesis using process_loop_inv [OF _ _ _ p] by blast
qed

lemma signal_inv: "server_inv s \<Longrightarrow> server_inv (etdb_signal_handler sig s)"
  by (cases sig) (simp_all add: etdb_signal_handler_def server_inv_def owned_def)

lemma reachable_inv: "reachable hst s \<Longrightarrow> server_inv s"
  by (induction rule: reachable.induct) (use start_inv round_inv signal_inv in blast)+

text \<open>
  C20: whatever clients, signals and system calls do, in every state the server reaches the counter
  \<open>etdb_conn_cnt\<close> is the number of connections (modulo \<open>2 ^ 32\<close>), the kernel watches the listening
  socket and exactly the sockets of these connections, and the event of each socket leads to its
  connection and has reading enabled: no event is delivered for a connection that was closed.
\<close>

theorem etdb_master_cycle_connections:
  assumes "reachable hst s"
  shows "finite (dom (conns s)) \<and> conn_cnt s = of_nat (card (dom (conns s))) \<and>
    (\<forall>fd. interest (mgr s) fd \<noteq> None \<longleftrightarrow> fd = server_fd s \<or> (\<exists>a c. conns s a = Some c \<and> sock c = fd)) \<and>
    (\<forall>a c. conns s a = Some c \<longrightarrow>
       (\<exists>ev. table (mgr s) (sock c) = Some ev \<and> data_ptr ev = a \<and> s_flags ev AND FDEVENT_IN \<noteq> 0))"
proof -
  note inv = reachable_inv [OF assms]
  have "interest (mgr s) fd \<noteq> None \<longleftrightarrow> watched (mgr s) fd \<noteq> 0" for fd
    using watch_invD(1) [OF server_invD(1) [OF inv]] by simp
  moreover have "\<exists>ev. table (mgr s) (sock c) = Some ev \<and> data_ptr ev = a \<and> s_flags ev AND FDEVENT_IN \<noteq> 0"
    if "conns s a = Some c" for a c
    using server_invD(7,8) [OF inv that] by (auto simp: owned_def watched_def)
  ultimately show ?thesis
    using server_invD(2,3) [OF inv] watched_iff [OF inv] by blast
qed

text \<open>The server starts on socket 3 and accepts a connection on socket 9.\<close>

theorem etdb_master_cycle_connections_witness:
  "\<exists>hst s. reachable hst s \<and> card (dom (conns s)) = 1 \<and> conn_cnt s = 1 \<and> interest (mgr s) 9 \<noteq> None"
proof -
  let ?s0 = "(undefined :: server_state)\<lparr>conns := Map.empty, conn_cnt := 0, quit := False\<rparr>"
  let ?m = "snd (etdb_event_mgr_set etdb_event_mgr_init 3 FDEVENT_IN 0 100)"
  let ?s1 = "?s0\<lparr>server_conn := 100, server_fd := 3, mgr := ?m\<rparr>"
  let ?io = "(undefined :: event_io)\<lparr>accepts := [AInterrupted, Accepted 9], new_addr := 200\<rparr>"
  let ?rd = "\<lparr>waited = Ready [(3, EPOLLIN)], ev_io = (\<lambda>_. ?io), req_io = (\<lambda>_. ?io)\<rparr>"
  have i: "etdb_init_server_conn 3 True True True 100 ?s0 = Some ?s1"
    by (simp add: etdb_init_server_conn_def etdb_connect_listen_def zero_connection_def Let_def)
  have r1: "reachable h ?s1" for h
    by (rule reachable.start [OF i]) simp_all
  have t: "table ?m 3 = Some \<lparr>efd = 3, s_flags = 1, events = 0, data_num = 0, data_ptr = 100\<rparr>"
    "watched ?m = (\<lambda>_. 0)(3 := 1)" "event_size ?m = 8" "interest ?m = (\<lambda>_. None)(3 := Some 1)"
    by (auto simp: etdb_event_mgr_set_def etdb_event_mgr_get_event_def etdb_event_mgr_init_def put_event_def
        new_event_def epoll_ctl_def watched_def fdevent_defs epoll_events_def epoll_defs fun_eq_iff)
  have k: "kernel_ok ?rd ?s1"
    by (simp add: kernel_ok_def accept_ok_def t split: option.splits)
  have "\<exists>s2 c. cycle_round h ?rd ?s1 = Some (Inr s2) \<and> conns s2 = [200 \<mapsto> c] \<and> sock c = 9" for h
    by (simp add: cycle_round_def etdb_event_mgr_wait_def put_event_def handle_event_def t Let_def
        accept_event_def etdb_connect_init_buf_def etdb_connect_noblock_def watch_def put_conn_def)
      (intro exI conjI, rule refl, simp)
  then obtain s2 c where s2: "cycle_round undefined ?rd ?s1 = Some (Inr s2)" "conns s2 = [200 \<mapsto> c]" "sock c = 9"
    by blast
  have "reachable undefined s2" by (rule reachable.round [OF r1 _ k s2(1)]) simp
  from etdb_master_cycle_connections [OF this] have "conn_cnt s2 = 1" "interest (mgr s2) 9 \<noteq> None"
    using s2(2,3) by auto
  then show ?thesis using \<open>reachable undefined s2\<close> s2(2) by (intro exI [of _ undefined] exI [of _ s2]) simp
qed

end
