(* ===== verification/Program.thy ===== *)
theory Program
  imports Startup Server_State
begin

text \<open>
  The server as a whole: \<open>running\<close> are the states from a successful start through the rounds of the
  cycle and the signals between them. The connections (theory \<open>Server_State\<close>), the table of commands
  and the database (theory \<open>Service\<close>) keep their invariants together.
\<close>

section \<open>The arguments of a request\<close>

text \<open>The parser takes lengths from \<open>atoi\<close>: an argument has less than 2^31 bytes.\<close>

lemma c_atoi_bound: "nat (c_atoi s) < 2 ^ 31"
proof -
  have "c_atoi s < 2 ^ 31" using sint_lt [of "word_of_int (dec_val (takeWhile is_digit s)) :: 32 word"] by (simp add: c_atoi_def)
  then show ?thesis by (simp add: nat_less_iff)
qed

definition small_result :: "parse_result \<Rightarrow> bool" where
  "small_result r = (case r of
       Complete _ recv _ \<Rightarrow> \<forall>s\<in>set recv. slength s < 2 ^ 31
     | Partial recv _ \<Rightarrow> recv = []
     | _ \<Rightarrow> True)"

lemma small_result_simps [simp]:
  "small_result (parse_end recv fr)" "small_result (Malformed recv fr)" "small_result Outside"
  "small_result (Complete n recv fr) \<longleftrightarrow> (\<forall>s\<in>set recv. slength s < 2 ^ 31)"
  by (simp_all add: small_result_def parse_end_def)

lemma parse_small:
  assumes "\<forall>s\<in>set recv. slength s < 2 ^ 31"
  shows "small_result (parse_loop mem cap p sz parsed recv fr)"
  using assms
proof (induction "cap - p" arbitrary: p sz parsed recv fr rule: less_induct)
  case less
  have ih: "small_result (parse_loop mem cap (Suc k) w n (recv @ [\<lparr>soff = q, slength = nat (c_atoi bs)\<rparr>]) f)"
    if "p < cap" "p \<le> k" for k w n q bs f
    by (rule less.hyps) (use that less.prems c_atoi_bound [of bs] in auto)
  have pc: "p < cap" if "memchr mem cap p n = Found x" for n x
    using memchr_bounds [OF that] by simp
  show ?case
    using less.prems
    by (subst parse_loop.simps) (auto simp: Let_def split: search.split intro!: ih dest: pc)
qed

lemma parse_req_small:
  assumes "etdb_resp_parse_req c = Some (k, d)" "k \<noteq> -1" "recv_cmd c = []"
  shows "\<forall>s\<in>set (recv_cmd d). slength s < 2 ^ 31"
proof -
  let ?b = "buf_in c"
  obtain p sz parsed where sk: "skip_newlines (bmem ?b) (bcap ?b) (bdata ?b) (of_nat (bsize ?b)) 0 = (p, sz, parsed)"
    by (cases "skip_newlines (bmem ?b) (bcap ?b) (bdata ?b) (of_nat (bsize ?b)) 0")
  have "small_result (parse_loop (bmem ?b) (bcap ?b) p sz parsed [] (free_cmd c))" by (rule parse_small) simp
  then show ?thesis
    using assms sk by (auto simp: etdb_resp_parse_req_def Let_def small_result_def split: parse_result.splits)
qed

lemma recv_small:
  assumes "etdb_connect_recv j ok c = Some (Inr e)"
  shows "\<forall>a\<in>set (map (slice_bytes e) (recv_cmd e)). length a < 2 ^ 31"
proof -
  define c' where "c' = (if recv_cmd c \<noteq> [] then c\<lparr>free_cmd := free_cmd c @ recv_cmd c, recv_cmd := []\<rparr> else c)"
  have c': "recv_cmd c' = []" by (simp add: c'_def)
  have "\<forall>s\<in>set (recv_cmd e). slength s < 2 ^ 31"
  proof (cases "bsize (buf_in c') = 0")
    case True
    then show ?thesis using assms c' by (auto simp: etdb_connect_recv_def c'_def [symmetric] Let_def)
  next
    case False
    then obtain n where n: "etdb_resp_recv_req j ok c' = Some (n, e)" "\<not> n < 0"
      using assms by (auto simp: etdb_connect_recv_def c'_def [symmetric] Let_def split: if_splits)
    then obtain k d where d: "etdb_resp_parse_req c' = Some (k, d)" "k \<noteq> -1" "recv_cmd e = recv_cmd d"
      by (auto simp: etdb_resp_recv_req_def Let_def split: option.splits prod.splits if_splits)
    show ?thesis unfolding d(3) by (rule parse_req_small [OF d(1,2) c'])
  qed
  then show ?thesis by (simp add: slice_bytes_def)
qed

text \<open>
  The states of the program. \<open>kernel_ok\<close> is what epoll(7), accept(2) and the allocator promise.
\<close>

inductive running :: "host \<Rightarrow> server_state \<Rightarrow> bool" for hst where
  start: "etdb_init io argv lg s0 = Some (Inr (lg', s)) \<Longrightarrow> initial_state s0 \<Longrightarrow> running hst s"
| round: "running hst s \<Longrightarrow> \<not> quit s \<Longrightarrow> kernel_ok rd s \<Longrightarrow>
     cycle_round hst rd s = Some (Inr s') \<Longrightarrow> running hst s'"
| signal: "running hst s \<Longrightarrow> running hst (etdb_signal_handler sig s)"

definition slots_ok :: "server_state \<Rightarrow> bool" where
  "slots_ok s \<longleftrightarrow> (\<forall>a c. conns s a = Some c \<longrightarrow> is_slot (slot c))"

definition data_inv :: "server_state \<Rightarrow> bool" where
  "data_inv s \<longleftrightarrow> (\<exists>V. srv_ok (srv s) V) \<and> slots_ok s"

section \<open>One request\<close>

lemma served_command:
  assumes S: "srv_ok sv V" and sl: "is_slot sl" and p: "etdb_module_find_command (command_trie sv) s = Some p"
    and a: "\<not> etdb_serv_parse_args req (command_at (modules sv) p) < 0" "\<forall>a\<in>set req. length a < 2 ^ 32"
    and h: "fresh_alloc (allocate hst)" "fork_result hst \<noteq> 0"
  obtains ret sv' sl' resp V' where
    "call_handler (handler (command_at (modules sv) p)) hst req sv sl = Some (ret, sv', sl', resp)" "is_slot sl'" "srv_ok sv' V'"
  using handler_served [OF found_pushes [OF S p] a h sl srv_okD(3) [OF S]] served_ok [OF S] by metis

lemma exec_data:
  assumes S: "srv_ok sv V" and sl: "is_slot (slot conn)" and a: "\<forall>a\<in>set req. length a < 2 ^ 32" "req \<noteq> []"
    and h: "fresh_alloc (allocate hst)" "fork_result hst \<noteq> 0"
    and e: "etdb_serv_exec_proc hst ok t t' mem req sv conn = Some (sv', conn', w)"
  shows "(\<exists>V'. srv_ok sv' V') \<and> is_slot (slot conn')"
proof -
  obtain name args where req: "req = name # args" using a(2) by (cases req) auto
  let ?req = "etdb_str_tolower name # args"
  have r: "etdb_resp_tolower req = ?req" by (simp add: req etdb_resp_tolower_def)
  have small: "\<forall>a\<in>set ?req. length a < 2 ^ 32" using a(1) by (simp add: req)
  show ?thesis
  proof (cases "etdb_module_find_command (command_trie sv) (etdb_str_tolower name)")
    case None
    then show ?thesis using e S sl send_slot by (fastforce simp: etdb_serv_exec_proc_def r Option.bind_eq_Some_conv Let_def)
  next
    case (Some p)
    show ?thesis
    proof (cases "etdb_serv_parse_args ?req (command_at (modules sv) p) < 0")
      case True
      then show ?thesis using e S sl send_slot Some
        by (fastforce simp: etdb_serv_exec_proc_def r Option.bind_eq_Some_conv Let_def)
    next
      case False
      let ?sv = "change_command p count_call sv"
      note S' = counted(1) [OF S, of p]
      have p': "etdb_module_find_command (command_trie ?sv) (etdb_str_tolower name) = Some p"
        using Some by (simp add: change_command_def)
      have "\<not> etdb_serv_parse_args ?req (command_at (modules ?sv) p) < 0"
        using False same_skeleton(2) [OF trans [OF command_found(2) [OF S' p'] command_found(2) [OF S Some, symmetric]]] by simp
      then obtain ret sv1 sl1 resp V1 where H: "call_handler (handler (command_at (modules ?sv) p)) hst ?req ?sv (slot conn) =
          Some (ret, sv1, sl1, resp)" "is_slot sl1" "srv_ok sv1 V1"
        using served_command [OF S' sl p' _ small h] by blast
      obtain c where c: "etdb_connect_send_to_buf ok (conn\<lparr>slot := sl1\<rparr>)
          ((if ret = 0 then str ''+OK'' else str ''+FAIL'') # resp) = Some c"
        "sv' = change_command p (count_time t t') sv1" "conn' = c"
        using e Some False H(1) by (auto simp: etdb_serv_exec_proc_def r Option.bind_eq_Some_conv Let_def)
      have "srv_ok sv' V1" unfolding c(2) by (rule counted(2) [OF H(3)])
      moreover have "slot conn' = sl1" using send_slot [OF c(1)] c(3) by simp
      ultimately show ?thesis using H(2) by auto
    qed
  qed
qed

section \<open>One round\<close>

lemma parse_slot: "etdb_resp_parse_req c = Some (r, c') \<Longrightarrow> slot c' = slot c"
  by (auto simp: etdb_resp_parse_req_def Let_def split: prod.splits parse_result.splits)

lemma recv_slot: "etdb_resp_recv_req j ok c = Some (r, c') \<Longrightarrow> slot c' = slot c"
  using parse_slot by (fastforce simp: etdb_resp_recv_req_def Let_def split: option.splits prod.splits if_splits)

lemma connect_recv_slot: "etdb_connect_recv j ok c = Some r \<Longrightarrow> (case r of Inl c' \<Rightarrow> slot c' = slot c | Inr c' \<Rightarrow> slot c' = slot c)"
  using recv_slot by (fastforce simp: etdb_connect_recv_def Let_def split: if_splits sum.splits)

lemma accept_slot: "etdb_connect_accept ri ro rs = Some (Some c) \<Longrightarrow> slot c = 0"
  by (induction rs) (auto simp: etdb_connect_init_buf_def zero_connection_def split: accept_result.splits)

lemma slots_put: "slots_ok s \<Longrightarrow> is_slot (slot c) \<Longrightarrow> slots_ok (put_conn a c s)"
  by (auto simp: slots_ok_def put_conn_def)

lemma slots_acc [simp]:
  "slots_ok (watch fd fl n a s) = slots_ok s" "slots_ok (unwatch fd fl s) = slots_ok s" "slots_ok (s\<lparr>srv := sv\<rparr>) = slots_ok s"
  "slots_ok (s\<lparr>mgr := m\<rparr>) = slots_ok s" "slots_ok (s\<lparr>wire := x\<rparr>) = slots_ok s" "slots_ok (s\<lparr>conn_cnt := k\<rparr>) = slots_ok s"
  "srv (watch fd fl n a s) = srv s" "srv (unwatch fd fl s) = srv s" "srv (put_conn a c s) = srv s" "srv (drop_conn a s) = srv s"
  by (simp_all add: slots_ok_def watch_def unwatch_def put_conn_def drop_conn_def)

lemma slots_drop: "slots_ok s \<Longrightarrow> slots_ok (drop_conn a s)"
  by (auto simp: slots_ok_def drop_conn_def)

lemma event_data:
  assumes inv: "server_inv s" and w: "watched (mgr s) fd \<noteq> 0" and sl: "slots_ok s"
    and h: "handle_event io fd s ready = Some (t, r)"
  shows "slots_ok t \<and> srv t = srv s"
proof (cases "fd = server_fd s")
  case True
  then obtain ev where "table (mgr s) fd = Some ev" "data_ptr ev = server_conn s"
    using server_invD(5) [OF inv] by (auto simp: owned_def)
  then have a: "map_option (\<lambda>s. (s, ready)) (accept_event io s) = Some (t, r)" using h by (simp add: handle_event_def Let_def)
  then obtain c where "etdb_connect_accept (raw_in io) (raw_out io) (accepts io) = Some c"
    by (auto simp: accept_event_def)
  then show ?thesis
  proof (cases c)
    case None
    then show ?thesis using a \<open>_ = Some c\<close> sl by (simp add: accept_event_def)
  next
    case (Some d)
    then have "is_slot (slot d)" using accept_slot \<open>_ = Some c\<close> by (simp add: is_slot_def ETDB_DATABASE_MAX_SLOT_def)
    then show ?thesis
      using a \<open>_ = Some c\<close> Some slots_put [OF sl, of "etdb_connect_noblock d True" "new_addr io"]
      by (auto simp: accept_event_def Let_def etdb_connect_noblock_def)
  qed
next
  case False
  then obtain a c where c: "conns s a = Some c" "sock c = fd" using watched_iff [OF inv] w by blast
  then obtain ev where ev: "table (mgr s) fd = Some ev" "data_ptr ev = a"
    using server_invD(7) [OF inv c(1)] by (auto simp: owned_def)
  have "a \<noteq> server_conn s" using server_invD(4) [OF inv] c(1) by auto
  have slc: "is_slot (slot c)" using sl c(1) by (auto simp: slots_ok_def)
  have "Some (drop_conn a s, ready) = Some (t, r) \<or> read_event io a s ready = Some (t, r) \<or>
      write_event io a s ready = Some (t, r) \<or> Some (s, ready) = Some (t, r)"
    using h ev \<open>a \<noteq> server_conn s\<close> by (simp add: handle_event_def Let_def split: if_splits)
  then consider "t = drop_conn a s" | "read_event io a s ready = Some (t, r)" | "write_event io a s ready = Some (t, r)" | "t = s"
    by blast
  then show ?thesis
  proof cases
    case 2
    then show ?thesis using c(1) slots_put [OF sl] slots_drop slc
      by (auto simp: read_event_def etdb_connect_read_to_buf_def split: if_splits)
  next
    case 3
    then show ?thesis using c(1) slots_put [OF sl] slots_drop slc
      by (auto simp: write_event_def etdb_connect_write_def Let_def split: if_splits)
  qed (use sl slots_drop in simp_all)
qed

lemma process_data:
  assumes inv: "server_inv s" and c: "conns s a = Some c" and d: "data_inv s"
    and h: "fresh_alloc (allocate hst)" "fork_result hst \<noteq> 0"
    and p: "process_conn hst (ios a) a s = Some s'"
  shows "data_inv s'"
proof -
  obtain V where V: "srv_ok (srv s) V" and sl: "slots_ok s" using d by (auto simp: data_inv_def)
  have slc: "is_slot (slot c)" using sl c by (auto simp: slots_ok_def)
  obtain r where r: "etdb_connect_recv (junk (ios a)) (grows (ios a)) c = Some r"
    using p c by (auto simp: process_conn_def Option.bind_eq_Some_conv)
  note sr = connect_recv_slot [OF r]
  show ?thesis
  proof (cases r)
    case (Inl e)
    then have "s' = drop_conn a (put_conn a e s)" using p c r by (auto simp: process_conn_def split: if_splits)
    then show ?thesis using V sr Inl slc slots_drop [OF slots_put [OF sl, of e a]] by (auto simp: data_inv_def)
  next
    case (Inr e)
    then have sle: "is_slot (slot e)" using sr slc by simp
    note put = slots_put [OF sl sle, of a]
    show ?thesis
    proof (cases "recv_cmd e = []")
      case True
      then show ?thesis using p c r Inr put V by (auto simp: process_conn_def data_inv_def Let_def split: prod.splits if_splits)
    next
      case False
      let ?req = "map (slice_bytes e) (recv_cmd e)"
      have ex: "exec_request hst (ios a) a e (put_conn a e s) = Some s'" using p c r Inr False by (simp add: process_conn_def)
      obtain sv x out where X: "etdb_serv_exec_proc hst (grows (ios a)) (time1 (ios a)) (time2 (ios a)) (answer_mem (ios a))
          ?req (srv s) e = Some (sv, x, out)"
        "s' = (if out then watch (sock x) FDEVENT_OUT 1 a ((put_conn a x (put_conn a e s))\<lparr>srv := sv\<rparr>)
           else (put_conn a x (put_conn a e s))\<lparr>srv := sv\<rparr>)"
        using ex by (auto simp: exec_request_def Let_def)
      have "\<forall>x\<in>set ?req. length x < 2 ^ 32" using recv_small [OF r [unfolded Inr]] by fastforce
      then obtain V' where "srv_ok sv V'" "is_slot (slot x)"
        using exec_data [OF V sle _ _ h X(1)] False by auto
      then show ?thesis using X(2) slots_put [OF put, of x a] by (auto simp: data_inv_def)
    qed
  qed
qed

lemma process_loop_data:
  assumes "server_inv s" "distinct as" "set as \<subseteq> dom (conns s)" "data_inv s" "process_loop hst ios as s = Some s'"
    and h: "fresh_alloc (allocate hst)" "fork_result hst \<noteq> 0"
  shows "data_inv s'"
  using assms(1-5)
proof (induction "as" arbitrary: s)
  case (Cons a "as")
  obtain c t where c: "conns s a = Some c" and t: "process_conn hst (ios a) a s = Some t" "process_loop hst ios as t = Some s'"
    using Cons.prems(3,5) by (auto simp: Option.bind_eq_Some_conv)
  note p = process_conn_inv [OF Cons.prems(1) c t(1)]
  have "set as \<subseteq> dom (conns t)"
  proof
    fix b assume "b \<in> set as"
    then have "b \<noteq> a" "b \<in> dom (conns s)" using Cons.prems(2,3) by auto
    then show "b \<in> dom (conns t)" using p(3) [of b] by auto
  qed
  moreover have "data_inv t" by (rule process_data [OF Cons.prems(1) c Cons.prems(4) h, of ios]) (rule t(1))
  ultimately show ?case using Cons.IH [OF p(1) _ _ _ t(2)] Cons.prems(2) by simp
qed simp

lemma round_data:
  assumes inv: "server_inv s" and k: "kernel_ok rd s" and d: "data_inv s"
    and h: "fresh_alloc (allocate hst)" "fork_result hst \<noteq> 0" and c: "cycle_round hst rd s = Some (Inr s')"
  shows "data_inv s'"
proof -
  obtain m fds t ready where w: "etdb_event_mgr_wait (mgr s) (waited rd) = (m, Some fds)"
    and e: "event_loop (ev_io rd) fds (s\<lparr>mgr := m\<rparr>) [] = Some (t, ready)"
    and p: "process_loop hst (req_io rd) ready t = Some s'"
    using c by (auto simp: cycle_round_def Let_def Option.bind_eq_Some_conv split: prod.splits option.splits)
  note wi = wait_inv [OF inv k w]
  let ?P = "\<lambda>t. slots_ok t \<and> srv t = srv s"
  have "server_inv t \<and> server_conn t = server_conn (s\<lparr>mgr := m\<rparr>) \<and> distinct ready \<and> set ready \<subseteq> dom (conns t) \<and> ?P t"
    by (rule event_loop_inv [OF wi(1,3) _ _ _ _ e]) (use wi(4,5) d event_data in \<open>auto simp: data_inv_def\<close>)
  then show ?thesis using process_loop_data [OF _ _ _ _ p h] d by (auto simp: data_inv_def)
qed

section \<open>The invariant of the program\<close>

lemma signal_data: "data_inv s \<Longrightarrow> data_inv (etdb_signal_handler sig s)"
proof -
  have "srv_ok sv V \<Longrightarrow> srv_ok (etdb_process_get_status sv) V" for sv V by (simp add: srv_ok_def etdb_process_get_status_def)
  then show "data_inv s \<Longrightarrow> data_inv (etdb_signal_handler sig s)"
    by (cases sig) (auto simp: data_inv_def etdb_signal_handler_def slots_ok_def)
qed

lemma running_inv:
  assumes "running hst s" "fresh_alloc (allocate hst)" "fork_result hst \<noteq> 0"
  shows "server_inv s \<and> data_inv s"
  using assms(1)
proof (induction rule: running.induct)
  case (start io argv lg s0 lg' s)
  obtain s1 where 1: "etdb_init_server_conn (listen_fd io) (reuse_ok io) (bind_ok io) (listen_ok io) (listen_addr io) s0 = Some s1"
    "srv_ok (srv s) empty_view" "conns s = Map.empty" "s = s1\<lparr>srv := srv s\<rparr>"
    by (rule etdb_init_started [OF start])
  have "server_inv s1" by (rule start_inv [OF 1(1)]) (use start(2) in \<open>simp_all add: initial_state_def\<close>)
  then have "server_inv (s1\<lparr>srv := srv s\<rparr>)" by (simp add: server_inv_def owned_def)
  then show ?case using 1(2,3) by (auto simp: 1(4) [symmetric] data_inv_def slots_ok_def)
next
  case (round s rd s')
  then show ?case using round_inv round_data [OF _ _ _ assms(2,3)] by blast
qed (use signal_inv signal_data in blast)

text \<open>
  C2: in every state the program reaches from its start, through any requests, any answers of the
  kernel and any signals: the tables find every command under its name, the sixteen tries and the
  heap represent a database without dangling addresses, every connection is on one of the sixteen
  slots, and the handler of every command a client may send next with a number of arguments that the
  command admits returns and leaves such a state. A round in which the parser leaves the memory of a
  buffer (\<open>None\<close>, see \<open>etdb_resp_parse_overread\<close>) leads to no state.
\<close>

theorem etdb_server_database_safe:
  assumes "running hst s" "fresh_alloc (allocate hst)" "fork_result hst \<noteq> 0"
  shows "\<exists>V. srv_ok (srv s) V \<and> (\<forall>a c. conns s a = Some c \<longrightarrow> is_slot (slot c) \<and>
    (\<forall>cmd p args. etdb_module_find_command (command_trie (srv s)) cmd = Some p \<and> (\<forall>x\<in>set args. length x < 2 ^ 32) \<and>
       length cmd < 2 ^ 32 \<and> \<not> etdb_serv_parse_args (cmd # args) (command_at (modules (srv s)) p) < 0 \<longrightarrow>
       (\<exists>ret sv sl resp V'. call_handler (handler (command_at (modules (srv s)) p)) hst (cmd # args) (srv s) (slot c) =
          Some (ret, sv, sl, resp) \<and> is_slot sl \<and> srv_ok sv V')))"
proof -
  obtain V where V: "srv_ok (srv s) V" and sl: "slots_ok s" using running_inv [OF assms] by (auto simp: data_inv_def)
  show ?thesis
  proof (intro exI [of _ V] conjI allI impI V)
    fix a c assume c: "conns s a = Some c"
    then show slc: "is_slot (slot c)" using sl by (auto simp: slots_ok_def)
    fix cmd p args
    assume "etdb_module_find_command (command_trie (srv s)) cmd = Some p \<and> (\<forall>x\<in>set args. length x < 2 ^ 32) \<and>
       length cmd < 2 ^ 32 \<and> \<not> etdb_serv_parse_args (cmd # args) (command_at (modules (srv s)) p) < 0"
    then have a: "etdb_module_find_command (command_trie (srv s)) cmd = Some p" "\<forall>x\<in>set (cmd # args). length x < 2 ^ 32"
      "\<not> etdb_serv_parse_args (cmd # args) (command_at (modules (srv s)) p) < 0" by simp_all
    show "\<exists>ret sv sl resp V'. call_handler (handler (command_at (modules (srv s)) p)) hst (cmd # args) (srv s) (slot c) =
        Some (ret, sv, sl, resp) \<and> is_slot sl \<and> srv_ok sv V'"
      using served_command [OF V slc a(1,3,2) assms(2,3)] by metis
  qed
qed

text \<open>The server starts on socket 3, in the foreground, with an empty configuration file.\<close>

lemma example_start:
  obtains io lg s0 s where "etdb_init io [[], []] undefined s0 = Some (Inr (lg, s))" "initial_state s0"
proof -
  define io :: start_io where "io = (undefined :: start_io)\<lparr>files := \<lambda>_. Some [],
    raw_config := \<lparr>ctrie = undefined, cvalues = \<lambda>_. None\<rparr>, log_opened := -1, listen_fd := 3,
    reuse_ok := True, bind_ok := True, listen_ok := True, listen_addr := 100\<rparr>"
  define s0 :: server_state where "s0 = undefined\<lparr>conns := Map.empty, conn_cnt := 0, quit := False,
    srv := \<lparr>database = \<lparr>tries = undefined, heap = empty_heap\<rparr>, modules = etdb_modules, command_trie = undefined, bgsave_pid = 0\<rparr>\<rparr>"
  define cfg :: file_config where "cfg = \<lparr>ctrie = etdb_trie_init undefined, cvalues = \<lambda>_. None\<rparr>"
  have 0: "initial_state s0" by (simp add: initial_state_def s0_def empty_heap_def)
  have c: "etdb_init_file_config (config_alloc io) (files io []) (raw_config io) = Some (Inr cfg)"
    by (simp add: etdb_init_file_config_def config_lines.simps io_def cfg_def)
  have "etdb_trie_exact_match_search (etdb_trie_init undefined) k < 0" for k
    by (simp add: exact_match_lookup [OF init_rep] lookup_code_def ETDB_TRIE_NO_VALUE_def)
  then have d: "etdb_file_config_get_int cfg k i = i" for k i by (simp add: etdb_file_config_get_int_def cfg_def Let_def)
  obtain lg where l: "snd (etdb_log_init (log_opened io) (etdb_file_config_get_string cfg (str ''LOG_FILE'') (str ''log.txt''))
      (etdb_file_config_get_string cfg (str ''LOG_LEVEL'') (str ''INFO'')) undefined) = lg" by blast
  obtain s1 where s1: "etdb_init_server_conn 3 True True True 100 s0 = Some s1" "srv s1 = srv s0"
    by (simp add: etdb_init_server_conn_def etdb_connect_listen_def zero_connection_def Let_def)
  obtain ms t where "etdb_module_init etdb_modules undefined = Some (ms, t, 0)"
    using init_spec [OF etdb_modules_tables, of undefined] by blast
  then have "\<exists>s. start_server io s0 = Some (Inr s)"
    using s1 by (simp add: start_server_def io_def s0_def Let_def)
  then obtain s where s: "start_server io s0 = Some (Inr s)" by blast
  have "etdb_init io [[], []] undefined s0 = Some (Inr (lg, s))"
    using c l s by (auto simp: etdb_init_def d split: prod.split)
  then show thesis using that 0 by blast
qed

theorem etdb_server_database_safe_witness:
  "\<exists>s V. running example_host s \<and> srv_ok (srv s) V"
proof -
  obtain io lg s0 s where "etdb_init io [[], []] undefined s0 = Some (Inr (lg, s))" "initial_state s0"
    by (rule example_start)
  then have r: "running example_host s" by (rule running.start)
  show ?thesis
    using etdb_server_database_safe [OF r] r example_alloc by (auto simp: example_host_def)
qed

end
