(* ===== verification/End_To_End.thy ===== *)
theory End_To_End
  imports Client_Exchange Program
begin

text \<open>
  The client library against the server: what one side sends is what the other side receives. The
  server takes a request in one round of its cycle and gives the answer away in the next; the library
  finds the answer it waits for.
\<close>

section \<open>Two rounds\<close>

text \<open>
  The request comes in at once, and the socket takes all that is sent; \<open>io\<close> is everything else that
  the rounds read. The second component is what the server has sent.
\<close>

definition bytes_in :: "event_io \<Rightarrow> int \<Rightarrow> bytes \<Rightarrow> round_io" where
  "bytes_in io fd req =
     \<lparr>waited = Ready [(fd, EPOLLIN)], ev_io = (\<lambda>_. io\<lparr>got := [Got req, RWouldBlock]\<rparr>), req_io = (\<lambda>_. io)\<rparr>"

definition bytes_out :: "event_io \<Rightarrow> int \<Rightarrow> nat \<Rightarrow> round_io" where
  "bytes_out io fd n =
     \<lparr>waited = Ready [(fd, EPOLLOUT)], ev_io = (\<lambda>_. io\<lparr>took := [Moved n]\<rparr>), req_io = (\<lambda>_. io)\<rparr>"

definition serve :: "host \<Rightarrow> event_io \<Rightarrow> int \<Rightarrow> bytes \<Rightarrow> server_state \<Rightarrow> (server_state \<times> bytes) option" where
  "serve hst io a req s =
     (let fd = sock (the (conns s a)) in
      case cycle_round hst (bytes_in io fd req) s of
        Some (Inr t) \<Rightarrow>
          (case cycle_round hst (bytes_out io fd (bsize (buf_out (the (conns t a))))) t of
             Some (Inr u) \<Rightarrow> Some (u, drop (length (wire s a)) (wire u a))
           | _ \<Rightarrow> None)
      | _ \<Rightarrow> None)"

text \<open>The socket of the client takes \<open>req\<close> and then yields \<open>ans\<close>.\<close>

definition carry :: "bytes \<Rightarrow> bytes \<Rightarrow> channel" where
  "carry req ans = \<lparr>may_grow = (\<lambda>_. True), unreturned = 0, writes = [Moved (length req)], reads = [[Got ans]]\<rparr>"

section \<open>The connection\<close>

text \<open>A connection between two requests, and one whose answer is queued.\<close>

definition conn_waits :: "nat \<Rightarrow> etdb_connection \<Rightarrow> bool" where
  "conn_waits n c \<longleftrightarrow> noblock c \<and> is_slot (slot c) \<and> buf_wf (buf_in c) \<and> buf_wf (buf_out c) \<and>
     buf_bytes (buf_in c) \<in> {[], [10]} \<and> bcap (buf_in c) = n"

definition serving :: "server_state \<Rightarrow> int \<Rightarrow> nat \<Rightarrow> int \<Rightarrow> view \<Rightarrow> bytes \<Rightarrow> bool" where
  "serving s a n sl V out \<longleftrightarrow> server_inv s \<and> srv_ok (srv s) V \<and>
     (\<exists>c. conns s a = Some c \<and> conn_waits n c \<and> slot c = sl \<and> buf_bytes (buf_out c) = out)"

lemma exec_frame:
  assumes "etdb_serv_exec_proc hst ok t t' mem req sv conn = Some (sv', conn', w)"
  shows "conn' = conn\<lparr>slot := slot conn', buf_out := buf_out conn'\<rparr>" "w = (bsize (buf_out conn') > 0)"
proof -
  have f: "c = conn\<lparr>slot := slot c, buf_out := buf_out c\<rparr>"
    if "etdb_connect_send_to_buf ok conn resp = Some c \<or> etdb_connect_send_to_buf ok (conn\<lparr>slot := sl\<rparr>) resp = Some c" for c resp sl
    using that
  proof
    assume a: "etdb_connect_send_to_buf ok conn resp = Some c"
    then show ?thesis using send_to_buf_frame [OF a] send_slot [OF a]
      by (metis etdb_connection.surjective etdb_connection.update_convs(4,7))
  next
    assume a: "etdb_connect_send_to_buf ok (conn\<lparr>slot := sl\<rparr>) resp = Some c"
    then have "c = conn\<lparr>slot := sl, buf_out := buf_out c\<rparr>" "slot c = sl" using send_to_buf_frame [OF a] send_slot [OF a] by simp_all
    then show ?thesis by simp
  qed
  show "conn' = conn\<lparr>slot := slot conn', buf_out := buf_out conn'\<rparr>" "w = (bsize (buf_out conn') > 0)"
    using assms f by (auto simp: etdb_serv_exec_proc_def Let_def Option.bind_eq_Some_conv split: option.splits if_splits)
qed

lemma wait_one:
  assumes "server_inv s" "conns s a = Some c"
  shows "\<exists>m. etdb_event_mgr_wait (mgr s) (Ready [(sock c, e)]) = (m, Some [sock c]) \<and>
    (\<exists>ev. table m (sock c) = Some ev \<and> data_ptr ev = a \<and> events ev = fd_events e)"
  using server_invD(7) [OF assms] by (auto simp: etdb_event_mgr_wait_def put_event_def owned_def)

lemma fd_event_flags:
  "fd_events EPOLLIN AND FDEVENT_ERR = 0" "fd_events EPOLLIN AND FDEVENT_IN \<noteq> 0"
  "fd_events EPOLLOUT AND FDEVENT_ERR = 0" "fd_events EPOLLOUT AND FDEVENT_IN = 0" "fd_events EPOLLOUT AND FDEVENT_OUT \<noteq> 0"
  by (simp_all add: fd_events_def epoll_defs fdevent_defs)

lemma one_kernel_ok:
  assumes "server_inv s" "conns s a = Some c" "waited rd = Ready [(sock c, e)]"
  shows "kernel_ok rd s"
proof -
  have "watched (mgr s) (sock c) \<noteq> 0" using server_invD(8) [OF assms(1,2)] by auto
  moreover have "sock c \<noteq> server_fd s" by (rule server_invD(6) [OF assms(1,2)])
  ultimately show ?thesis using assms(3) by (simp add: kernel_ok_def split: option.split)
qed

lemma one_event:
  assumes "server_inv s" "conns s a = Some c" "waited rd = Ready [(sock c, e)]" "req_io rd = (\<lambda>_. io)"
  shows "\<exists>m. cycle_round hst rd s =
    map_option Inr (Option.bind
      (if fd_events e AND FDEVENT_ERR \<noteq> 0 then Some (drop_conn a (s\<lparr>mgr := m\<rparr>), [])
       else if fd_events e AND FDEVENT_IN \<noteq> 0 then read_event (ev_io rd (sock c)) a (s\<lparr>mgr := m\<rparr>) []
       else if fd_events e AND FDEVENT_OUT \<noteq> 0 then write_event (ev_io rd (sock c)) a (s\<lparr>mgr := m\<rparr>) []
       else Some (s\<lparr>mgr := m\<rparr>, [])) (\<lambda>(s, ready). process_loop hst (\<lambda>_. io) ready s))"
proof -
  obtain m ev where m: "etdb_event_mgr_wait (mgr s) (Ready [(sock c, e)]) = (m, Some [sock c])"
    "table m (sock c) = Some ev" "data_ptr ev = a" "events ev = fd_events e"
    using wait_one [OF assms(1,2), of e] by blast
  have "a \<noteq> server_conn s" using server_invD(4) [OF assms(1)] assms(2) by auto
  then show ?thesis
    using m assms(3,4) by (intro exI [of _ m]) (auto simp: cycle_round_def handle_event_def Let_def case_prod_unfold)
qed

section \<open>A request is taken\<close>

lemma frames [simp]:
  "conns (watch fd fl n a s) = conns s" "conns (unwatch fd fl s) = conns s"
  "wire (watch fd fl n a s) = wire s" "wire (unwatch fd fl s) = wire s"
  by (simp_all add: watch_def unwatch_def)

lemma round_in:
  assumes S: "serving s a n sl V []" and c: "conns s a = Some c" and io: "0 \<le> junk io" "grows io = (\<lambda>_. True)"
    and n: "4 \<le> n" "n < 2 ^ 31" "length (encode_request args) + 1 \<le> min 33554432 (n div 2)"
    and args: "args \<noteq> []" "[] \<notin> set args"
    and ex: "\<And>d. slot d = sl \<Longrightarrow> buf_wf (buf_out d) \<Longrightarrow> \<exists>sv d' w.
      etdb_serv_exec_proc hst (\<lambda>_. True) (time1 io) (time2 io) (answer_mem io) args (srv s) d = Some (sv, d', w) \<and>
      slot d' = sl \<and> queued d d' resp \<and> srv_ok sv V'"
  shows "\<exists>t. cycle_round hst (bytes_in io (sock c) (encode_request args)) s = Some (Inr t) \<and>
    serving t a n sl V' (encode_request resp) \<and> wire t = wire s \<and>
    (\<exists>d. conns t a = Some d \<and> sock d = sock c \<and> buf_bytes (buf_in d) = [10])"
proof -
  let ?rd = "bytes_in io (sock c) (encode_request args)"
  have inv: "server_inv s" and C: "conn_waits n c" "slot c = sl" "buf_bytes (buf_out c) = []"
    using S c by (auto simp: serving_def)
  note C' = C(1) [unfolded conn_waits_def]
  obtain m where R: "cycle_round hst ?rd s = map_option Inr (Option.bind
      (read_event (io\<lparr>got := [Got (encode_request args), RWouldBlock]\<rparr>) a (s\<lparr>mgr := m\<rparr>) [])
      (\<lambda>(s, ready). process_loop hst (\<lambda>_. io) ready s))"
    using one_event [OF inv c, of ?rd EPOLLIN io hst] fd_event_flags(1,2) by (auto simp: bytes_in_def)
  obtain k where k: "buf_bytes (buf_in c) = replicate k 10" "k \<le> 1"
  proof -
    have "buf_bytes (buf_in c) = replicate 0 10 \<or> buf_bytes (buf_in c) = replicate 1 10" using C' by simp
    then show thesis using that [of 0] that [of 1] by auto
  qed
  have "length (buf_bytes (buf_in c)) = bsize (buf_in c)" by (simp add: buf_bytes_def)
  then have sz: "bsize (buf_in c) = k" using k(1) by simp
  have ne: "encode_request args \<noteq> []" by (simp add: encode_request_def encode_record_def)
  obtain b where b: "etdb_connect_read_to_buf c [Got (encode_request args), RWouldBlock] =
      Some (int (length (encode_request args)), c\<lparr>buf_in := b\<rparr>)" "buf_wf b"
    "buf_bytes b = replicate k 10 @ encode_request args" "bcap b = n"
    using read_answer [of c "[RWouldBlock]" "encode_request args" 0] C' k sz ne n(2,3) by auto
  let ?c1 = "c\<lparr>buf_in := b\<rparr>"
  have rd: "read_event (io\<lparr>got := [Got (encode_request args), RWouldBlock]\<rparr>) a (s\<lparr>mgr := m\<rparr>) [] =
      Some (put_conn a ?c1 (s\<lparr>mgr := m\<rparr>), [a])"
    using b(1) c ne by (simp add: read_event_def)
  let ?s1 = "put_conn a ?c1 (s\<lparr>mgr := m\<rparr>)"
  define c2 where "c2 = (if recv_cmd c \<noteq> [] then ?c1\<lparr>free_cmd := free_cmd c @ recv_cmd c, recv_cmd := []\<rparr> else ?c1)"
  have c2: "recv_cmd c2 = []" "buf_in c2 = b" by (simp_all add: c2_def)
  have clear: "etdb_connect_recv j ok ?c1 = etdb_connect_recv j ok c2" for j ok
    by (simp add: etdb_connect_recv_def c2_def)
  obtain recv fr b' where q: "etdb_connect_recv (junk io) (grows io) ?c1 = Some (Inr (c2\<lparr>recv_cmd := recv, free_cmd := fr, buf_in := b'\<rparr>))"
    "map (slice_bytes (c2\<lparr>recv_cmd := recv, free_cmd := fr, buf_in := b'\<rparr>)) recv = args" "buf_bytes b' = [10]" "buf_wf b'"
    "bcap b' = n"
    using recv_complete [of c2 k args "junk io" "grows io"] b(2-4) n(2,3) k(2) args io(1) c2 unfolding clear by auto
  let ?c3 = "c2\<lparr>recv_cmd := recv, free_cmd := fr, buf_in := b'\<rparr>"
  have c3: "slot ?c3 = sl" "buf_out ?c3 = buf_out c" "noblock ?c3 = noblock c" "sock ?c3 = sock c" "buf_in ?c3 = b'"
    using C(2) by (simp_all add: c2_def)
  have "recv \<noteq> []" using q(2) args(1) by auto
  obtain sv d w where e: "etdb_serv_exec_proc hst (\<lambda>_. True) (time1 io) (time2 io) (answer_mem io) args (srv s) ?c3 = Some (sv, d, w)"
    "slot d = sl" "queued ?c3 d resp" "srv_ok sv V'"
    using ex [of ?c3] c3 C' by auto
  have d: "d = ?c3\<lparr>slot := slot d, buf_out := buf_out d\<rparr>" by (rule exec_frame(1) [OF e(1)])
  have "noblock d = noblock ?c3" "buf_in d = buf_in ?c3" "sock d = sock ?c3" by (subst d, simp)+
  then have d': "noblock d" "buf_in d = b'" "sock d = sock c" using c3(3-5) C' by simp_all
  let ?s2 = "(put_conn a d (put_conn a ?c3 ?s1))\<lparr>srv := sv\<rparr>"
  let ?t = "if w then watch (sock d) FDEVENT_OUT 1 a ?s2 else ?s2"
  have "process_conn hst io a ?s1 = Some ?t"
    using q(1,2) e(1) \<open>recv \<noteq> []\<close> io(2) by (simp add: process_conn_def exec_request_def Let_def)
  then have t: "cycle_round hst ?rd s = Some (Inr ?t)" using R rd by simp
  have "server_inv ?t"
    by (rule round_inv [OF inv one_kernel_ok [OF inv c] t]) (simp add: bytes_in_def)
  moreover have "conn_waits n d" using d' q(3-5) e(2,3) C(2) C' by (simp add: conn_waits_def queued_def)
  moreover have "buf_bytes (buf_out d) = encode_request resp" using e(3) c3(2) C(3) by (simp add: queued_def)
  ultimately have "serving ?t a n sl V' (encode_request resp)" using e(2,4) by (simp add: serving_def)
  moreover have "wire ?t = wire s" "conns ?t a = Some d" by simp_all
  ultimately show ?thesis using t d' q(3) by metis
qed

section \<open>An answer is given away\<close>

lemma write_all:
  assumes "noblock c" "buf_wf (buf_out c)" "bsize (buf_out c) \<noteq> 0" "bsize (buf_out c) < 2 ^ 31"
  shows "\<exists>b. etdb_connect_write c [Moved (bsize (buf_out c))] =
      Some (int (bsize (buf_out c)), c\<lparr>buf_out := b\<rparr>, buf_bytes (buf_out c), []) \<and> buf_wf b \<and> buf_bytes b = [] \<and> bsize b = 0"
proof -
  let ?n = "bsize (buf_out c)" and ?b = "etdb_buf_nice (etdb_buf_decr (buf_out c) (bsize (buf_out c)))"
  note d = buf_decr [OF assms(2), of ?n]
  have b: "buf_wf ?b" using buf_nice(2) d by simp
  have e: "bsize ?b = 0" by (simp add: etdb_buf_nice_def etdb_buf_decr_def size_sub_def)
  have "take ?n (buf_bytes (buf_out c)) = buf_bytes (buf_out c)" by (simp add: buf_bytes_def)
  moreover have "bsize (etdb_buf_decr (buf_out c) ?n) = 0" by (simp add: etdb_buf_decr_def size_sub_def)
  ultimately have w: "write_loop True (buf_out c) 0 [] [Moved ?n] = Some (int ?n, ?b, buf_bytes (buf_out c), [])"
    using assms(3,4) by (simp add: Let_def)
  have "buf_bytes ?b = []" using e by (simp add: buf_bytes_def mem_read_def)
  then show ?thesis using w b e assms(1) by (intro exI [of _ ?b]) (simp add: etdb_connect_write_def del: write_loop.simps)
qed

lemma round_out:
  assumes S: "serving s a n sl V out" and c: "conns s a = Some c" and n: "4 \<le> n" and out: "out \<noteq> []" "length out < 2 ^ 31" and left: "buf_bytes (buf_in c) = [10]"
  shows "\<exists>t. cycle_round hst (bytes_out io (sock c) (bsize (buf_out c))) s = Some (Inr t) \<and>
    serving t a n sl V [] \<and> wire t a = wire s a @ out"
proof -
  let ?rd = "bytes_out io (sock c) (bsize (buf_out c))"
  have inv: "server_inv s" and C: "conn_waits n c" "slot c = sl" "buf_bytes (buf_out c) = out"
    using S c by (auto simp: serving_def)
  note C' = C(1) [unfolded conn_waits_def]
  obtain m where R: "cycle_round hst ?rd s = map_option Inr (Option.bind
      (write_event (io\<lparr>took := [Moved (bsize (buf_out c))]\<rparr>) a (s\<lparr>mgr := m\<rparr>) [])
      (\<lambda>(s, ready). process_loop hst (\<lambda>_. io) ready s))"
    using one_event [OF inv c, of ?rd EPOLLOUT io hst] fd_event_flags(3-5) by (auto simp: bytes_out_def)
  have "bsize (buf_out c) = length out" using arg_cong [OF C(3), of length] by (simp add: buf_bytes_def)
  then have "bsize (buf_out c) \<noteq> 0" "bsize (buf_out c) < 2 ^ 31" using out by simp_all
  obtain b where b: "etdb_connect_write c [Moved (bsize (buf_out c))] = Some (int (bsize (buf_out c)), c\<lparr>buf_out := b\<rparr>, out, [])"
    "buf_wf b" "buf_bytes b = []" "bsize b = 0"
    using write_all [of c] C' C(3) \<open>bsize (buf_out c) \<noteq> 0\<close> \<open>bsize (buf_out c) < 2 ^ 31\<close> by auto
  let ?c1 = "c\<lparr>buf_out := b\<rparr>"
  let ?s1 = "unwatch (sock c) FDEVENT_OUT ((put_conn a ?c1 (s\<lparr>mgr := m\<rparr>))\<lparr>wire := (wire s)(a := wire s a @ out)\<rparr>)"
  have "bsize (buf_in c) \<noteq> 0" using arg_cong [OF left, of length] by (simp add: buf_bytes_def)
  then have w: "write_event (io\<lparr>took := [Moved (bsize (buf_out c))]\<rparr>) a (s\<lparr>mgr := m\<rparr>) [] = Some (?s1, [a])"
    using b(1,4) c \<open>bsize (buf_out c) \<noteq> 0\<close> by (simp add: write_event_def Let_def)
  obtain fr i where q: "etdb_connect_recv (junk io) (grows io) ?c1 = Some (Inr (?c1\<lparr>recv_cmd := [], free_cmd := fr, buf_in := i\<rparr>))"
    "buf_bytes i = buf_bytes (buf_in c)" "buf_wf i" "bcap i = n"
    using recv_nothing [of ?c1 "junk io" "grows io"] C' n by auto
  let ?c2 = "?c1\<lparr>recv_cmd := [], free_cmd := fr, buf_in := i\<rparr>"
  obtain m' on where g: "etdb_event_mgr_isset (mgr (put_conn a ?c2 ?s1)) (sock ?c2) FDEVENT_IN = (m', on)" by fastforce
  let ?s2 = "(put_conn a ?c2 ?s1)\<lparr>mgr := m'\<rparr>"
  let ?t = "if \<not> on then watch (sock ?c2) FDEVENT_IN 1 a ?s2 else ?s2"
  have cs: "conns ?s1 a = Some ?c1" by simp
  have "process_conn hst io a ?s1 = Some ?t"
    unfolding process_conn_def cs option.sel q(1) by (simp add: g [simplified] Let_def)
  then have t: "cycle_round hst ?rd s = Some (Inr ?t)" using R w by simp
  have "server_inv ?t"
    by (rule round_inv [OF inv one_kernel_ok [OF inv c] t]) (simp add: bytes_out_def)
  moreover have "conns ?t a = Some ?c2" "srv ?t = srv s" "wire ?t a = wire s a @ out" by simp_all
  moreover have "conn_waits n ?c2" using q(2-4) b(2) C' by (simp add: conn_waits_def)
  ultimately have "serving ?t a n sl V []" using b(3) C(2) S by (simp add: serving_def)
  then show ?thesis using t \<open>wire ?t a = wire s a @ out\<close> by blast
qed

lemma serve_request:
  assumes S: "serving s a n sl V []" and io: "0 \<le> junk io" "grows io = (\<lambda>_. True)"
    and n: "4 \<le> n" "n < 2 ^ 31" "length (encode_request args) + 1 \<le> min 33554432 (n div 2)"
    and args: "args \<noteq> []" "[] \<notin> set args" and resp: "length (encode_request resp) < 2 ^ 31"
    and ex: "\<And>d. slot d = sl \<Longrightarrow> buf_wf (buf_out d) \<Longrightarrow> \<exists>sv d' w.
      etdb_serv_exec_proc hst (\<lambda>_. True) (time1 io) (time2 io) (answer_mem io) args (srv s) d = Some (sv, d', w) \<and>
      slot d' = sl \<and> queued d d' resp \<and> srv_ok sv V'"
  shows "\<exists>t. serve hst io a (encode_request args) s = Some (t, encode_request resp) \<and> serving t a n sl V' []"
proof -
  obtain c where c: "conns s a = Some c" using S by (auto simp: serving_def)
  obtain t d where t: "cycle_round hst (bytes_in io (sock c) (encode_request args)) s = Some (Inr t)"
    "serving t a n sl V' (encode_request resp)" "wire t = wire s" "conns t a = Some d" "sock d = sock c" "buf_bytes (buf_in d) = [10]"
    using round_in [OF S c io n args ex] by blast
  have ne: "encode_request resp \<noteq> []" by (simp add: encode_request_def encode_record_def)
  obtain u where "cycle_round hst (bytes_out io (sock d) (bsize (buf_out d))) t = Some (Inr u)"
    "serving u a n sl V' []" "wire u a = wire t a @ encode_request resp"
    using round_out [OF t(2,4) n(1) ne resp t(6)] by blast
  then show ?thesis using c t by (auto simp: serve_def Let_def)
qed

section \<open>The conversation\<close>

lemma arg_length: "s \<in> set args \<Longrightarrow> length s \<le> length (encode_request args)"
  by (induction args) (auto simp: encode_request_def encode_record_def)

lemma carry_answers:
  assumes "resp \<noteq> []" "[] \<notin> set resp" "length (encode_request resp) + 1 \<le> min 33554432 (bcap (buf_in conn) div 2)"
    "req \<noteq> []"
  shows "answers (carry req (encode_request resp)) (length req) resp conn"
  unfolding answers_def carry_def using assms by (auto intro!: exI [of _ 0])

lemma call_carried:
  assumes "client_ready conn" "length (encode_request args) \<le> 33554432" "resp \<noteq> []" "[] \<notin> set resp"
    "length (encode_request resp) + 1 \<le> min 33554432 (bcap (buf_in conn) div 2)"
  shows "\<exists>conn'. client_call (carry (encode_request args) (encode_request resp)) args conn =
      Some (Some resp, conn', encode_request args) \<and> client_ready conn' \<and> bcap (buf_in conn') = bcap (buf_in conn)"
proof (rule client_call_answer [OF assms(1)])
  show "\<forall>s\<in>set args. length s < 2 ^ 31" using arg_length assms(2) by fastforce
  show "length (encode_request args) < 2 ^ 31" using assms(2) by simp
  have "encode_request args \<noteq> []" by (simp add: encode_request_def encode_record_def)
  then show "answers (carry (encode_request args) (encode_request resp)) (length (encode_request args)) resp conn"
    by (rule carry_answers [OF assms(3-5)])
qed

lemma get_shorter: "length (encode_request [str ''get'', k]) \<le> length (encode_request [str ''set'', k, v])"
  by (simp add: encode_request_def encode_record_def str_def)

lemma serve_set:
  assumes S: "serving s a n sl V []" and io: "0 \<le> junk io" "grows io = (\<lambda>_. True)" and n: "4 \<le> n" "n < 2 ^ 31"
    and sl: "is_slot sl" and al: "fresh_alloc (allocate hst)" and kv: "k \<noteq> []" "v \<noteq> []" "length v < 2 ^ 24"
    and len: "length (encode_request [str ''set'', k, v]) + 1 \<le> min 33554432 (n div 2)"
  shows "\<exists>t. serve hst io a (encode_request [str ''set'', k, v]) s = Some (t, encode_request [str ''+OK'']) \<and>
    serving t a n sl (V\<lparr>strs := (strs V)((sl, encode_kv_head k) \<mapsto> v)\<rparr>) []"
proof (rule serve_request [OF S io n len])
  have lo: "etdb_str_tolower (str ''set'') = str ''set''" by code_simp
  have ok: "srv_ok (srv s) V" using S by (simp add: serving_def)
  show "\<exists>sv d' w. etdb_serv_exec_proc hst (\<lambda>_. True) (time1 io) (time2 io) (answer_mem io) [str ''set'', k, v] (srv s) d =
      Some (sv, d', w) \<and> slot d' = sl \<and> queued d d' [str ''+OK''] \<and>
      srv_ok sv (V\<lparr>strs := (strs V)((sl, encode_kv_head k) \<mapsto> v)\<rparr>)" if "slot d = sl" "buf_wf (buf_out d)" for d
    using serv_set [OF ok _ al kv(3) that(2) lo] sl that(1) by metis
qed (use kv in \<open>simp_all add: str_def encode_request_def encode_record_def dec_str.simps\<close>)

lemma serve_get:
  assumes S: "serving s a n sl V []" and io: "0 \<le> junk io" "grows io = (\<lambda>_. True)" and n: "4 \<le> n" "n < 2 ^ 31"
    and sl: "is_slot sl" and kv: "k \<noteq> []" "strs V (sl, encode_kv_head k) = Some v" "length v < 2 ^ 24"
    and len: "length (encode_request [str ''get'', k]) + 1 \<le> min 33554432 (n div 2)"
    and ans: "length (encode_request [str ''+OK'', v]) < 2 ^ 31"
  shows "\<exists>t. serve hst io a (encode_request [str ''get'', k]) s = Some (t, encode_request [str ''+OK'', v]) \<and> serving t a n sl V []"
proof (rule serve_request [OF S io n len])
  have lo: "etdb_str_tolower (str ''get'') = str ''get''" by code_simp
  have ok: "srv_ok (srv s) V" using S by (simp add: serving_def)
  have v: "length v < 2 ^ 31" using kv(3) by simp
  show "\<exists>sv d' w. etdb_serv_exec_proc hst (\<lambda>_. True) (time1 io) (time2 io) (answer_mem io) [str ''get'', k] (srv s) d =
      Some (sv, d', w) \<and> slot d' = sl \<and> queued d d' [str ''+OK'', v] \<and> srv_ok sv V" if "slot d = sl" "buf_wf (buf_out d)" for d
    using serv_get [OF ok _ _ v that(2) lo] sl that(1) kv(2) by metis
qed (use kv ans in \<open>simp_all add: str_def\<close>)


text \<open>The server starts and accepts a connection.\<close>

lemma example_accepted:
  obtains s a c where "running example_host s" "conns s a = Some c" "conn_waits 8192 c" "buf_bytes (buf_out c) = []"
proof -
  obtain io lg s0 s where s: "etdb_init io [[], []] undefined s0 = Some (Inr (lg, s))" "initial_state s0" by (rule example_start)
  then have run: "running example_host s" by (rule running.start)
  then have inv: "server_inv s" using running_inv example_alloc by (auto simp: example_host_def)
  obtain s1 where s1: "etdb_init_server_conn (listen_fd io) (reuse_ok io) (bind_ok io) (listen_ok io) (listen_addr io) s0 = Some s1"
    "conns s = Map.empty" "s = s1\<lparr>srv := srv s\<rparr>" by (rule etdb_init_started [OF s])
  have "quit s1 = quit s0" using s1(1) by (auto simp: etdb_init_server_conn_def Let_def split: option.splits)
  moreover have "quit s = quit s1" using arg_cong [OF s1(3), of quit] by simp
  ultimately have q: "\<not> quit s" using s(2) by (simp add: initial_state_def)
  obtain ev where ev: "table (mgr s) (server_fd s) = Some ev" "data_ptr ev = server_conn s"
    using server_invD(5) [OF inv] by (auto simp: owned_def)
  let ?fd = "server_fd s + 1" and ?a = "server_conn s + 1"
  have w: "watched (mgr s) ?fd = 0" using watched_iff [OF inv, of ?fd] s1(2) by auto
  let ?io = "(undefined :: event_io)\<lparr>accepts := [Accepted ?fd], new_addr := ?a\<rparr>"
  let ?rd = "\<lparr>waited = Ready [(server_fd s, EPOLLIN)], ev_io = (\<lambda>_. ?io), req_io = (\<lambda>_. ?io)\<rparr>"
  define c where "c = etdb_connect_noblock (etdb_connect_init_buf (raw_in ?io) (raw_out ?io) (zero_connection\<lparr>sock := ?fd\<rparr>)) True"
  have k: "kernel_ok ?rd s"
    using w server_invD(10) [OF inv] s1(2) by (auto simp: kernel_ok_def accept_ok_def split: option.split)
  obtain m where m: "etdb_event_mgr_wait (mgr s) (Ready [(server_fd s, EPOLLIN)]) = (m, Some [server_fd s])"
    "\<exists>ev'. table m (server_fd s) = Some ev' \<and> data_ptr ev' = server_conn s"
    using ev by (auto simp: etdb_event_mgr_wait_def put_event_def)
  obtain t where t: "event_loop (\<lambda>_. ?io) [server_fd s] (s\<lparr>mgr := m\<rparr>) [] = Some (t, [])" "conns t = [?a \<mapsto> c]"
    using m(2) s1(2) by (auto simp: handle_event_def accept_event_def c_def Let_def watch_def put_conn_def)
  have "cycle_round example_host ?rd s = Some (Inr t)" using m(1) t(1) by (simp add: cycle_round_def Let_def)
  then have "running example_host t" using running.round [OF run q k] by blast
  moreover have "conn_waits 8192 c" "buf_bytes (buf_out c) = []"
    by (simp_all add: conn_waits_def c_def etdb_connect_noblock_def etdb_connect_init_buf_def zero_connection_def etdb_buf_init_def
        buf_wf_def buf_bytes_def mem_read_def ETDB_CONNECTION_BUF_SIZE_def is_slot_def ETDB_DATABASE_MAX_SLOT_def)
  ultimately show thesis using t(2) by (intro that [of t ?a c]) simp_all
qed


end
