(* ===== verification/Dump.thy ===== *)
theory Dump
  imports Store
begin

text \<open>
  Saving and loading, the end of \<open>src/etdb_database.c\<close>. The file is its bytes and the position of the
  next one; integers and structs are written as x86-64 keeps them, low byte first.

  The loop over the nodes reads the type of a value through a pointer that was never set: \<open>readable\<close>
  tells for a slot and a node whether that address can be read. The result of the save is \<^term>\<open>None\<close>
  when it cannot, \<^term>\<open>Some None\<close> when the file cannot be opened and the function returns, and
  otherwise the file at the exit of the process.
\<close>

section \<open>The file\<close>

record dump_file =
  fbytes :: bytes
  fpos :: nat

text \<open>Bytes between the end and a position behind it are zero, fseek(3).\<close>

definition fwrite :: "bytes \<Rightarrow> dump_file \<Rightarrow> dump_file" where
  "fwrite bs f =
     (if bs = [] then f
      else f\<lparr>fbytes := take (fpos f) (fbytes f) @ replicate (fpos f - length (fbytes f)) 0 @ bs @
               drop (fpos f + length bs) (fbytes f),
             fpos := fpos f + length bs\<rparr>)"

definition int_bytes :: "nat \<Rightarrow> int \<Rightarrow> bytes" where
  "int_bytes n x = map (\<lambda>i. of_int (x div 256 ^ i)) [0..<n]"

definition ninfo_bytes :: "trie_ninfo \<Rightarrow> bytes" where
  "ninfo_bytes ni = [nsibling ni, nchild ni]"

definition block_bytes :: "trie_block \<Rightarrow> bytes" where
  "block_bytes b = int_bytes 8 (bprev b) @ int_bytes 8 (bnext b) @ int_bytes 2 (bnum b) @ int_bytes 2 (breject b) @
     int_bytes 4 (btrial b) @ int_bytes 8 (behead b)"

definition node_image :: "trie_node \<Rightarrow> bytes" where
  "node_image nd = int_bytes 8 (nbase nd) @ int_bytes 8 (ncheck nd)"

section \<open>Saving\<close>

text \<open>The parts of a trie before its nodes, one element for every call of \<open>fwrite\<close>.\<close>

definition trie_head :: "trie \<Rightarrow> bytes list" where
  "trie_head t =
     [int_bytes 8 (head_full t), int_bytes 8 (head_close t), int_bytes 8 (head_open t),
      int_bytes 8 (capacity t), int_bytes 8 (tsize t),
      concat (map (\<lambda>i. int_bytes 8 (treject t i)) [0..256]),
      concat (map (\<lambda>i. ninfo_bytes (ninfo t i)) [0..capacity t - 1]),
      concat (map (\<lambda>i. block_bytes (block t i)) [0..drop_bit 8 (capacity t) - 1])]"

definition value_node :: "trie \<Rightarrow> int \<Rightarrow> bool" where
  "value_node t i \<longleftrightarrow> (let check = ncheck (node t i) in check \<ge> 0 \<and> nbase (node t check) = i \<and> nbase (node t i) > 32)"

fun dump_nodes :: "(int \<Rightarrow> bool) \<Rightarrow> trie \<Rightarrow> nat \<Rightarrow> int list \<Rightarrow> dump_file \<Rightarrow> dump_file option" where
  "dump_nodes readable t value_offset [] f = Some f"
| "dump_nodes readable t value_offset (i # js) f =
     (if value_node t i then
        if readable i
        then dump_nodes readable t value_offset js (fwrite (node_image (node t i)) (f\<lparr>fpos := value_offset\<rparr>))
        else None
      else dump_nodes readable t value_offset js (fwrite (node_image (node t i)) f))"

definition dump_trie :: "(int \<Rightarrow> bool) \<Rightarrow> trie \<Rightarrow> dump_file \<Rightarrow> dump_file option" where
  "dump_trie readable t f =
     (let f = fold fwrite (trie_head t) f; value_offset = fpos f + nat (capacity t) * 16
      in dump_nodes readable t value_offset [0..capacity t - 1] f)"

fun dump_slots :: "(int \<Rightarrow> int \<Rightarrow> bool) \<Rightarrow> (int \<Rightarrow> trie) \<Rightarrow> int list \<Rightarrow> dump_file \<Rightarrow> dump_file option" where
  "dump_slots readable ts [] f = Some f"
| "dump_slots readable ts (pos # ps) f =
     Option.bind (dump_trie (readable pos) (ts pos) f) (dump_slots readable ts ps)"

definition etdb_database_sys_bgsave :: "bool \<Rightarrow> (int \<Rightarrow> int \<Rightarrow> bool) \<Rightarrow> etdb_database \<Rightarrow> bytes option option" where
  "etdb_database_sys_bgsave opened readable db =
     (if \<not> opened then Some None
      else
        let offset = replicate (nat ETDB_DATABASE_MAX_SLOT) (int_bytes 8 0);
            f = fwrite (concat offset) \<lparr>fbytes = [], fpos = 0\<rparr>
        in map_option (\<lambda>f. Some (fbytes f))
             (dump_slots readable (tries db) [0..ETDB_DATABASE_MAX_SLOT - 1] f))"

text \<open>The file is opened and closed.\<close>

definition etdb_database_sys_load :: "bytes option \<Rightarrow> etdb_database \<Rightarrow> etdb_database" where
  "etdb_database_sys_load dump db = (case dump of None \<Rightarrow> db | Some _ \<Rightarrow> db)"

section \<open>What the file holds\<close>

lemma fwrite_end:
  assumes "fpos f = length (fbytes f)"
  shows "fwrite bs f = \<lparr>fbytes = fbytes f @ bs, fpos = length (fbytes f @ bs)\<rparr>"
  using assms by (cases f) (simp add: fwrite_def)

lemma fwrites_end:
  assumes "fpos f = length (fbytes f)"
  shows "fold fwrite bss f = \<lparr>fbytes = fbytes f @ concat bss, fpos = length (fbytes f @ concat bss)\<rparr>"
  using assms by (induction bss arbitrary: f) (simp_all add: fwrite_end)

text \<open>Nothing before \<open>n\<close> is written again.\<close>

definition keeps :: "nat \<Rightarrow> dump_file \<Rightarrow> dump_file \<Rightarrow> bool" where
  "keeps n f g \<longleftrightarrow> n \<le> fpos g \<and> n \<le> length (fbytes g) \<and> take n (fbytes g) = take n (fbytes f)"

lemma keeps_write: "keeps n f g \<Longrightarrow> keeps n f (fwrite bs g)"
  by (auto simp: keeps_def fwrite_def min_absorb1)

lemma keeps_writes: "keeps n f g \<Longrightarrow> keeps n f (fold fwrite bss g)"
  by (induction bss arbitrary: g) (simp_all add: keeps_write)

lemma keeps_nodes: "keeps n f g \<Longrightarrow> n \<le> vo \<Longrightarrow> dump_nodes rd t vo js g = Some h \<Longrightarrow> keeps n f h"
proof (induction js arbitrary: g)
  case (Cons i js)
  have "keeps n f (g\<lparr>fpos := vo\<rparr>)" using Cons.prems(1,2) by (simp add: keeps_def)
  then show ?case
    using Cons.IH [OF keeps_write [of n f]] Cons.prems by (cases "value_node t i") (auto split: if_splits)
qed simp

lemma keeps_slots: "keeps n f g \<Longrightarrow> dump_slots rd ts ps g = Some h \<Longrightarrow> keeps n f h"
proof (induction ps arbitrary: g)
  case (Cons p ps)
  obtain g' where g': "dump_trie (rd p) (ts p) g = Some g'" "dump_slots rd ts ps g' = Some h"
    using Cons.prems(2) by (auto simp: Option.bind_eq_Some_conv)
  let ?g = "fold fwrite (trie_head (ts p)) g"
  have k: "keeps n f ?g" by (rule keeps_writes [OF Cons.prems(1)])
  have "keeps n f g'"
    by (rule keeps_nodes [OF k _ g'(1) [unfolded dump_trie_def Let_def]]) (use k in \<open>simp add: keeps_def\<close>)
  then show ?case using Cons.IH g'(2) by blast
qed simp

text \<open>A trie without a value, or with values that are small, is written as it is.\<close>

definition no_values :: "trie \<Rightarrow> bool" where
  "no_values t \<longleftrightarrow> (\<forall>i\<in>{0..<capacity t}. \<not> value_node t i)"

definition trie_image :: "trie \<Rightarrow> bytes" where
  "trie_image t = concat (trie_head t) @ concat (map (\<lambda>i. node_image (node t i)) [0..capacity t - 1])"

lemma dump_nodes_plain:
  assumes "\<forall>i\<in>set js. \<not> value_node t i" "fpos f = length (fbytes f)"
  shows "dump_nodes rd t vo js f = Some (fold fwrite (map (\<lambda>i. node_image (node t i)) js) f)"
  using assms by (induction js arbitrary: f) (simp_all add: fwrite_end)

lemma dump_slots_plain:
  assumes "\<forall>p\<in>set ps. no_values (ts p)" "fpos f = length (fbytes f)"
  shows "\<exists>g. dump_slots rd ts ps f = Some g \<and> fbytes g = fbytes f @ concat (map (\<lambda>p. trie_image (ts p)) ps)"
  using assms
proof (induction ps arbitrary: f)
  case (Cons p ps)
  let ?g = "\<lparr>fbytes = fbytes f @ trie_image (ts p), fpos = length (fbytes f @ trie_image (ts p))\<rparr>"
  have "dump_trie (rd p) (ts p) f = Some ?g"
    using Cons.prems by (simp add: dump_trie_def Let_def fwrites_end dump_nodes_plain trie_image_def no_values_def)
  then show ?case using Cons.IH [of ?g] Cons.prems(1) by auto
qed simp

text \<open>
  C39: a database without values is saved completely, sixteen images behind the table of their offsets.
  But the table was written before the first offset was known and is never written again: in every
  file that the save leaves, whatever the database holds, it is 128 zero bytes.
\<close>

theorem etdb_database_sys_bgsave_file:
  "((\<forall>p\<in>{0..15}. no_values (tries db p)) \<longrightarrow> etdb_database_sys_bgsave True readable db =
      Some (Some (replicate 128 0 @ concat (map (\<lambda>p. trie_image (tries db p)) [0..15])))) \<and>
    (\<forall>f. etdb_database_sys_bgsave True readable db = Some (Some f) \<longrightarrow> take 128 f = replicate 128 0)"
proof -
  have 0: "concat (replicate (nat ETDB_DATABASE_MAX_SLOT) (int_bytes 8 0)) = replicate 128 0"
    by (simp add: ETDB_DATABASE_MAX_SLOT_def int_bytes_def numeral_eq_Suc)
  let ?f = "fwrite (replicate 128 0) \<lparr>fbytes = [], fpos = 0\<rparr>"
  have f: "?f = \<lparr>fbytes = replicate 128 0, fpos = 128\<rparr>" by (simp add: fwrite_end)
  have s: "etdb_database_sys_bgsave True readable db =
      map_option (\<lambda>f. Some (fbytes f)) (dump_slots readable (tries db) [0..15] ?f)"
    by (simp add: etdb_database_sys_bgsave_def 0 Let_def) (simp add: ETDB_DATABASE_MAX_SLOT_def)
  show ?thesis
  proof (intro conjI impI allI)
    assume "\<forall>p\<in>{0..15}. no_values (tries db p)"
    then have "\<forall>p\<in>set [0..15]. no_values (tries db p)" by simp
    from dump_slots_plain [OF this, of ?f readable]
    show "etdb_database_sys_bgsave True readable db =
      Some (Some (replicate 128 0 @ concat (map (\<lambda>p. trie_image (tries db p)) [0..15])))"
      unfolding s f by auto
  next
    fix g assume "etdb_database_sys_bgsave True readable db = Some (Some g)"
    then obtain h where h: "dump_slots readable (tries db) [0..15] ?f = Some h" "g = fbytes h" unfolding s by auto
    have "keeps 128 ?f ?f" by (simp add: keeps_def f)
    from keeps_slots [OF this h(1)] show "take 128 g = replicate 128 0" by (simp add: keeps_def f h(2))
  qed
qed

text \<open>A new database.\<close>

theorem etdb_database_sys_bgsave_file_witness:
  "\<exists>f. etdb_database_sys_bgsave True (\<lambda>_ _. False) new_db = Some (Some f) \<and>
     take 128 f = replicate 128 0"
proof -
  have i: "no_values (etdb_trie_init t)" for t
    by (auto simp: no_values_def value_node_def Let_def init_acc(12) init_acc(1,2) [unfolded trie_acc_defs] split: if_splits)
  have "tries new_db p = etdb_trie_init (undefined p)" if "p \<in> {0..15}" for p
    using that init_slots_spec [of 0 16] by (simp add: new_db_def etdb_database_init_def ETDB_DATABASE_MAX_SLOT_def)
  then have "\<forall>p\<in>{0..15}. no_values (tries new_db p)" using i by simp
  then show ?thesis using etdb_database_sys_bgsave_file [of new_db "\<lambda>_ _. False"] by blast
qed

end
