(* ===== verification/Geo_Neighbor.thy ===== *)
theory Geo_Neighbor
  imports Geo
begin

text \<open>
  The tables of \<open>etdb_geo_hash_get_neighbor\<close>. A geohash of \<open>n\<close> characters names a cell of a
  grid over the map; \<open>cell_x\<close> and \<open>cell_y\<close> are its column and row, read off the bits of the
  characters. The function is shown to name the adjacent cell, for every cell that has one.
\<close>

definition bit_of :: "nat \<Rightarrow> nat \<Rightarrow> int" where
  "bit_of v k = int (v div 2 ^ k mod 2)"

definition char_idx :: "byte \<Rightarrow> nat" where
  "char_idx c = nat (etdb_geo_hash_index_for_char c etdb_geo_hash_char_map)"

definition three_bits :: "nat \<Rightarrow> int" where
  "three_bits v = 4 * bit_of v 4 + 2 * bit_of v 2 + bit_of v 0"

definition two_bits :: "nat \<Rightarrow> int" where
  "two_bits v = 2 * bit_of v 3 + bit_of v 1"

definition char_x :: "bool \<Rightarrow> byte \<Rightarrow> int" where
  "char_x odd_pos c = (if odd_pos then three_bits (char_idx c) else two_bits (char_idx c))"

definition char_y :: "bool \<Rightarrow> byte \<Rightarrow> int" where
  "char_y odd_pos c = (if odd_pos then two_bits (char_idx c) else three_bits (char_idx c))"

definition dir_x :: "nat \<Rightarrow> int" where 
  "dir_x d = [0, 1, 0, -1] ! d"

definition dir_y :: "nat \<Rightarrow> int" where 
  "dir_y d = [1, 0, -1, 0] ! d"

definition width_of :: "bool \<Rightarrow> int" where 
  "width_of odd_pos = (if odd_pos then 8 else 4)"

definition height_of :: "bool \<Rightarrow> int" where 
  "height_of odd_pos = (if odd_pos then 4 else 8)"

definition table_ok :: "bool \<Rightarrow> nat \<Rightarrow> byte \<Rightarrow> bool" where
  "table_ok odd_pos d c =
     (let border = (if odd_pos then etdb_geo_hash_odd_borders else etdb_geo_hash_even_borders);
          neighbor = (if odd_pos then etdb_geo_hash_odd_neighbors else etdb_geo_hash_even_neighbors);
          j = etdb_geo_hash_index_for_char c (neighbor ! d); c' = etdb_geo_hash_char_map ! nat j;
          x = char_x odd_pos c + dir_x d; y = char_y odd_pos c + dir_y d in
      0 \<le> j \<and> j < 32 \<and> char_x odd_pos c' = x mod width_of odd_pos \<and> char_y odd_pos c' = y mod height_of odd_pos \<and>
      ((etdb_geo_hash_index_for_char c (border ! d) \<noteq> -1) = (\<not> (0 \<le> x \<and> x < width_of odd_pos \<and> 0 \<le> y \<and> y < height_of odd_pos))))"

lemma tables_ok:
  assumes "c \<in> set etdb_geo_hash_char_map" "d < 4"
  shows "table_ok odd_pos d c"
proof -
  have tT0: "list_all (table_ok True 0) etdb_geo_hash_char_map" by code_simp
  have tT1: "list_all (table_ok True 1) etdb_geo_hash_char_map" by code_simp
  have tT2: "list_all (table_ok True 2) etdb_geo_hash_char_map" by code_simp
  have tT3: "list_all (table_ok True 3) etdb_geo_hash_char_map" by code_simp
  have tF0: "list_all (table_ok False 0) etdb_geo_hash_char_map" by code_simp
  have tF1: "list_all (table_ok False 1) etdb_geo_hash_char_map" by code_simp
  have tF2: "list_all (table_ok False 2) etdb_geo_hash_char_map" by code_simp
  have tF3: "list_all (table_ok False 3) etdb_geo_hash_char_map" by code_simp
  from assms(2) have "d = 0 \<or> d = 1 \<or> d = 2 \<or> d = 3" by auto
  then show ?thesis
    using assms(1) tT0 tT1 tT2 tT3 tF0 tF1 tF2 tF3
    by (cases odd_pos) (auto simp: list_all_iff)
qed

section \<open>Cells\<close>

fun cell_x :: "bytes \<Rightarrow> nat \<Rightarrow> int" where
  "cell_x h 0 = 0"
| "cell_x h (Suc k) = cell_x h k * width_of (odd (Suc k)) + char_x (odd (Suc k)) (h ! k)"

fun cell_y :: "bytes \<Rightarrow> nat \<Rightarrow> int" where
  "cell_y h 0 = 0"
| "cell_y h (Suc k) = cell_y h k * height_of (odd (Suc k)) + char_y (odd (Suc k)) (h ! k)"

fun grid_width :: "nat \<Rightarrow> int" where
  "grid_width 0 = 1"
| "grid_width (Suc k) = grid_width k * width_of (odd (Suc k))"

fun grid_height :: "nat \<Rightarrow> int" where
  "grid_height 0 = 1"
| "grid_height (Suc k) = grid_height k * height_of (odd (Suc k))"

definition on_grid :: "nat \<Rightarrow> int \<Rightarrow> int \<Rightarrow> bool" where
  "on_grid n x y \<longleftrightarrow> 0 \<le> x \<and> x < grid_width n \<and> 0 \<le> y \<and> y < grid_height n"

lemma bit_of_bounds: "0 \<le> bit_of v k" "bit_of v k \<le> 1"
  by (simp_all add: bit_of_def)

lemma char_bounds:
  "0 \<le> char_x o' c \<and> char_x o' c < width_of o'" "0 \<le> char_y o' c \<and> char_y o' c < height_of o'"
  using bit_of_bounds [of "char_idx c" 0] bit_of_bounds [of "char_idx c" 1]
    bit_of_bounds [of "char_idx c" 2] bit_of_bounds [of "char_idx c" 3] bit_of_bounds [of "char_idx c" 4]
  by (auto simp: char_x_def char_y_def width_of_def height_of_def three_bits_def two_bits_def)

lemma size_pos: "0 < width_of o'" "0 < height_of o'"
  by (simp_all add: width_of_def height_of_def)

lemma scaled_range:
  fixes a w r g :: int
  assumes "0 \<le> r" "r < w"
  shows "0 \<le> a * w + r \<longleftrightarrow> 0 \<le> a" "a * w + r < g * w \<longleftrightarrow> a < g"
proof -
  have low: "a * w + r < 0" if "a < 0" for a
    using mult_right_mono [of a "-1" w] that assms by linarith
  have high: "0 \<le> a * w + r" if "0 \<le> a" for a
    using that assms by simp
  show "0 \<le> a * w + r \<longleftrightarrow> 0 \<le> a"
    using low [of a] high [of a] by linarith
  have "(a - g) * w + r = a * w + r - g * w" by (simp add: left_diff_distrib)
  then show "a * w + r < g * w \<longleftrightarrow> a < g"
    using low [of "a - g"] high [of "a - g"] by linarith
qed

lemma cell_take: "n \<le> k \<Longrightarrow> n \<le> length h \<Longrightarrow> cell_x (take k h) n = cell_x h n \<and> cell_y (take k h) n = cell_y h n"
  by (induction n) auto

lemma cell_snoc: "n \<le> length h \<Longrightarrow> cell_x (h @ r) n = cell_x h n \<and> cell_y (h @ r) n = cell_y h n"
  by (induction n) (auto simp: nth_append)

lemma step_div:
  fixes a w :: int
  assumes "0 \<le> a" "a < w"
  shows "(a + 0) div w = 0" "\<not> a + 1 < w \<Longrightarrow> (a + 1) div w = 1" "\<not> 0 \<le> a + -1 \<Longrightarrow> (a + -1) div w = -1"
proof -
  show "(a + 0) div w = 0" using assms by simp
  show "(a + 1) div w = 1" if "\<not> a + 1 < w"
  proof -
    have "a + 1 = w" using that assms by simp
    then show ?thesis using assms by simp
  qed
  show "(a + -1) div w = -1" if "\<not> 0 \<le> a + -1"
  proof -
    have "a + -1 = -1" using that assms by simp
    then show ?thesis using assms by (simp only: div_eq_minus1)
  qed
qed

lemma dirs: "d < 4 \<Longrightarrow> (dir_x d = 0 \<and> (dir_y d = 1 \<or> dir_y d = -1)) \<or> (dir_y d = 0 \<and> (dir_x d = 1 \<or> dir_x d = -1))"
  by (auto simp: dir_x_def dir_y_def less_Suc_eq numeral_eq_Suc)

text \<open>
  C35: for every geohash whose cell has a neighbour in the given direction,
  \<open>etdb_geo_hash_get_neighbor\<close> yields the geohash of exactly that cell; at the edge of the map
  the recursion runs past the first character.
\<close>

theorem etdb_geo_hash_get_neighbor_adjacent:
  assumes "d < 4" "n \<le> length h" "set h \<subseteq> set etdb_geo_hash_char_map"
  shows "(on_grid n (cell_x h n + dir_x d) (cell_y h n + dir_y d) \<longrightarrow>
      (\<exists>nei. etdb_geo_hash_get_neighbor h n d = Some nei \<and> length nei = n \<and>
         set nei \<subseteq> set etdb_geo_hash_char_map \<and>
         cell_x nei n = cell_x h n + dir_x d \<and> cell_y nei n = cell_y h n + dir_y d)) \<and>
    (\<not> on_grid n (cell_x h n + dir_x d) (cell_y h n + dir_y d) \<longrightarrow>
      etdb_geo_hash_get_neighbor h n d = None)"
  using assms(2)
proof (induction n)
  case 0
  then show ?case using dirs [OF assms(1)] by (auto simp: on_grid_def)
next
  case (Suc k)
  let ?o = "odd (Suc k)" and ?c = "h ! k"
  let ?border = "if ?o then etdb_geo_hash_odd_borders else etdb_geo_hash_even_borders"
  let ?neighbor = "if ?o then etdb_geo_hash_odd_neighbors else etdb_geo_hash_even_neighbors"
  let ?w = "width_of ?o" and ?h = "height_of ?o"
  let ?x = "char_x ?o ?c + dir_x d" and ?y = "char_y ?o ?c + dir_y d"
  let ?j = "etdb_geo_hash_index_for_char ?c (?neighbor ! d)"
  let ?c' = "etdb_geo_hash_char_map ! nat ?j"
  let ?onb = "etdb_geo_hash_index_for_char ?c (?border ! d) \<noteq> -1"
  let ?qx = "?x div ?w" and ?qy = "?y div ?h"
  have "?c \<in> set etdb_geo_hash_char_map" using Suc.prems assms(3) by auto
  from tables_ok [OF this assms(1), of ?o]
  have t: "0 \<le> ?j" "?j < 32" "char_x ?o ?c' = ?x mod ?w" "char_y ?o ?c' = ?y mod ?h"
    "?onb \<longleftrightarrow> \<not> (0 \<le> ?x \<and> ?x < ?w \<and> 0 \<le> ?y \<and> ?y < ?h)"
    by (simp_all add: table_ok_def Let_def)
  have c': "?c' \<in> set etdb_geo_hash_char_map"
    using t(1,2) by (intro nth_mem) (simp add: etdb_geo_hash_char_map_def nat_less_iff)
  note sp = size_pos [of ?o]
  have X: "cell_x h (Suc k) + dir_x d = (cell_x h k + ?qx) * ?w + ?x mod ?w"
    by (simp add: algebra_simps)
  have Y: "cell_y h (Suc k) + dir_y d = (cell_y h k + ?qy) * ?h + ?y mod ?h"
    by (simp add: algebra_simps)
  have G: "on_grid (Suc k) (cell_x h (Suc k) + dir_x d) (cell_y h (Suc k) + dir_y d) \<longleftrightarrow>
      on_grid k (cell_x h k + ?qx) (cell_y h k + ?qy)"
    unfolding on_grid_def X Y grid_width.simps grid_height.simps
    using sp by (simp add: scaled_range)
  have step: "etdb_geo_hash_get_neighbor h (Suc k) d =
      map_option (\<lambda>nei. nei @ [?c']) (if ?onb then etdb_geo_hash_get_neighbor h k d else Some (take k h))"
  proof -
    have o: "Suc k mod 2 = 1 \<longleftrightarrow> ?o" by presburger
    have "\<not> ?j < 0" using t(1) by simp
    then show ?thesis
      by (simp only: etdb_geo_hash_get_neighbor.simps Let_def o if_False)
  qed
  have lift: "cell_x (nei @ [?c']) (Suc k) = cell_x nei k * ?w + ?x mod ?w \<and>
      cell_y (nei @ [?c']) (Suc k) = cell_y nei k * ?h + ?y mod ?h" if "length nei = k" for nei
    using that t(3,4) cell_snoc [of k nei "[?c']"] by (simp add: nth_append)
  show ?case
  proof (cases ?onb)
    case False
    then have q: "?qx = 0" "?qy = 0" using t(5) by auto
    have r: "0 \<le> cell_x h n \<and> cell_x h n < grid_width n \<and> 0 \<le> cell_y h n \<and> cell_y h n < grid_height n" for n
    proof (induction n)
      case (Suc n)
      then show ?case
        using char_bounds [of "odd (Suc n)" "h ! n"] by (simp add: scaled_range)
    qed simp
    have on: "on_grid (Suc k) (cell_x h (Suc k) + dir_x d) (cell_y h (Suc k) + dir_y d)"
      unfolding G q using r [of k] by (simp add: on_grid_def)
    have len: "length (take k h) = k" using Suc.prems by simp
    have e: "etdb_geo_hash_get_neighbor h (Suc k) d = Some (take k h @ [?c'])"
      by (simp only: step if_not_P [OF False] option.map)
    have ct: "cell_x (take k h) k = cell_x h k" "cell_y (take k h) k = cell_y h k"
      using cell_take [of k k h] Suc.prems by simp_all
    have cells: "cell_x (take k h @ [?c']) (Suc k) = cell_x h (Suc k) + dir_x d"
      "cell_y (take k h @ [?c']) (Suc k) = cell_y h (Suc k) + dir_y d"
      using lift [OF len] unfolding X Y q ct by simp_all
    have "length (take k h @ [?c']) = Suc k" using len by simp
    moreover have "set (take k h @ [?c']) \<subseteq> set etdb_geo_hash_char_map"
      using c' assms(3) by (auto dest: in_set_takeD)
    ultimately show ?thesis
      using on e cells by (intro conjI impI exI [of _ "take k h @ [?c']"]) (assumption | blast)+
  next
    case True
    have cx: "?qx = dir_x d" "?qy = dir_y d"
      using True [unfolded t(5)] dirs [OF assms(1)] char_bounds [of ?o ?c]
        step_div [of "char_x ?o ?c" ?w] step_div [of "char_y ?o ?c" ?h]
      by (elim disjE conjE; simp)+
    from Suc have IH: "(on_grid k (cell_x h k + dir_x d) (cell_y h k + dir_y d) \<longrightarrow>
      (\<exists>nei. etdb_geo_hash_get_neighbor h k d = Some nei \<and> length nei = k \<and>
         set nei \<subseteq> set etdb_geo_hash_char_map \<and>
         cell_x nei k = cell_x h k + dir_x d \<and> cell_y nei k = cell_y h k + dir_y d)) \<and>
      (\<not> on_grid k (cell_x h k + dir_x d) (cell_y h k + dir_y d) \<longrightarrow>
        etdb_geo_hash_get_neighbor h k d = None)"
      by simp
    show ?thesis
    proof (cases "on_grid k (cell_x h k + dir_x d) (cell_y h k + dir_y d)")
      case on: True
      with IH obtain nei where nei: "etdb_geo_hash_get_neighbor h k d = Some nei" "length nei = k"
        "set nei \<subseteq> set etdb_geo_hash_char_map"
        "cell_x nei k = cell_x h k + dir_x d" "cell_y nei k = cell_y h k + dir_y d"
        by blast
      have on': "on_grid (Suc k) (cell_x h (Suc k) + dir_x d) (cell_y h (Suc k) + dir_y d)"
        unfolding G cx by (rule on)
      have e: "etdb_geo_hash_get_neighbor h (Suc k) d = Some (nei @ [?c'])"
        by (simp only: step if_P [OF True] option.map nei(1))
      have cells: "cell_x (nei @ [?c']) (Suc k) = cell_x h (Suc k) + dir_x d"
        "cell_y (nei @ [?c']) (Suc k) = cell_y h (Suc k) + dir_y d"
        using lift [OF nei(2)] unfolding X Y cx nei(4,5) by simp_all
      have "length (nei @ [?c']) = Suc k" "set (nei @ [?c']) \<subseteq> set etdb_geo_hash_char_map"
        using nei(2,3) c' by simp_all
      then show ?thesis
        using on' e cells by (intro conjI impI exI [of _ "nei @ [?c']"]) (assumption | blast)+
    next
      case off: False
      have off': "\<not> on_grid (Suc k) (cell_x h (Suc k) + dir_x d) (cell_y h (Suc k) + dir_y d)"
        unfolding G cx by (rule off)
      have "etdb_geo_hash_get_neighbor h (Suc k) d = None"
        using IH off by (simp only: step if_P [OF True]) simp
      with off' show ?thesis by blast
    qed
  qed
qed

theorem etdb_geo_hash_get_neighbor_adjacent_witness:
  "\<exists>nei. etdb_geo_hash_get_neighbor [119, 116] 2 1 = Some nei \<and>
     cell_x nei 2 = cell_x [119, 116] 2 + 1 \<and> cell_y nei 2 = cell_y [119, 116] 2"
proof -
  have s: "set [119, 116 :: byte] \<subseteq> set etdb_geo_hash_char_map" by code_simp
  have g: "on_grid 2 (cell_x [119, 116] 2 + dir_x 1) (cell_y [119, 116] 2 + dir_y 1)" by code_simp
  have d: "dir_x 1 = 1" "dir_y 1 = 0" by (simp_all add: dir_x_def dir_y_def)
  from etdb_geo_hash_get_neighbor_adjacent [of 1 2 "[119, 116]", OF _ _ s] g show ?thesis
    unfolding d by auto
qed

end
