(* ===== verification/Palloc.thy ===== *)
theory Palloc
  imports Prelude
begin

unbundle bit_operations_syntax

text \<open>
  The pools of \<open>src/store/etdb_palloc.c\<close>: blocks from which pieces are cut by moving a pointer,
  chained when they are full, and a list of large pieces that come from the system allocator.

  \<^item> addresses and sizes are integers; the casts to \<open>size_t\<close> and \<open>uintptr_t\<close> are written out, so
    that a negative difference of pointers is a huge size;
  \<^item> the system allocator (\<open>malloc\<close>, \<open>posix_memalign\<close>, \<open>realloc\<close>) is the parameter \<open>alloc\<close>: it
    maps the regions in use and the size wanted to an address or to 0; \<open>regions\<close> are the regions
    in use, \<open>etdb_free\<close> takes one out;
  \<^item> \<open>None\<close> means that the code does not return.
\<close>

type_synonym region = "int \<times> int"
type_synonym sysalloc = "region set \<Rightarrow> int \<Rightarrow> int"

section \<open>Data\<close>

record etdb_pool =
  d_last :: int
  d_end :: int
  d_next :: int
  d_failed :: int
  pmax :: int
  current :: int
  large :: int

record etdb_pool_large =
  l_next :: int
  l_alloc :: int

record pmem =
  pools :: "int \<Rightarrow> etdb_pool"
  larges :: "int \<Rightarrow> etdb_pool_large"
  pbytes :: "int \<Rightarrow> byte"
  regions :: "region set"

definition ETDB_MAX_ALLOC_FROM_POOL :: int where "ETDB_MAX_ALLOC_FROM_POOL = 4096"
definition ETDB_ALIGNMENT :: int where "ETDB_ALIGNMENT = 8"

text \<open>\<open>sizeof\<close> of the structures with eight-byte pointers.\<close>

definition pool_size :: int where "pool_size = 56"
definition pool_data_size :: int where "pool_data_size = 32"
definition pool_large_size :: int where "pool_large_size = 16"

definition size_t :: "int \<Rightarrow> int" where
  "size_t x = x mod 2 ^ 64"

definition etdb_align_ptr :: "int \<Rightarrow> int \<Rightarrow> int" where
  "etdb_align_ptr p a = size_t (p + (a - 1)) AND NOT (a - 1)"

definition put_pool :: "int \<Rightarrow> (etdb_pool \<Rightarrow> etdb_pool) \<Rightarrow> pmem \<Rightarrow> pmem" where
  "put_pool p f m = m\<lparr>pools := (pools m)(p := f (pools m p))\<rparr>"

definition put_large :: "int \<Rightarrow> (etdb_pool_large \<Rightarrow> etdb_pool_large) \<Rightarrow> pmem \<Rightarrow> pmem" where
  "put_large l f m = m\<lparr>larges := (larges m)(l := f (larges m l))\<rparr>"

section \<open>The system allocator\<close>

definition sys_alloc :: "sysalloc \<Rightarrow> int \<Rightarrow> pmem \<Rightarrow> int \<times> pmem" where
  "sys_alloc alloc sz m =
     (let p = alloc (regions m) sz
      in if p = 0 then (0, m) else (p, m\<lparr>regions := insert (p, sz) (regions m)\<rparr>))"

definition sys_free :: "int \<Rightarrow> pmem \<Rightarrow> pmem" where
  "sys_free p m = m\<lparr>regions := {r \<in> regions m. fst r \<noteq> p}\<rparr>"

section \<open>Operations\<close>

definition etdb_create_pool :: "sysalloc \<Rightarrow> int \<Rightarrow> pmem \<Rightarrow> int \<times> pmem" where
  "etdb_create_pool alloc sz m =
     (let (p, m) = sys_alloc alloc sz m
      in if p = 0 then (0, m)
         else
           let rest = size_t (sz - pool_size)
           in (p, put_pool p (\<lambda>_. \<lparr>d_last = p + pool_size, d_end = p + sz, d_next = 0, d_failed = 0,
                 pmax = (if rest < ETDB_MAX_ALLOC_FROM_POOL then rest else ETDB_MAX_ALLOC_FROM_POOL),
                 current = p, large = 0\<rparr>) m))"

text \<open>\<open>for(l = pool->large; l; l = l->next) if(l->alloc) etdb_free(l->alloc);\<close>\<close>

partial_function (option) free_larges :: "int \<Rightarrow> pmem \<Rightarrow> pmem option" where
  "free_larges l m =
     (if l = 0 then Some m
      else free_larges (l_next (larges m l))
             (if l_alloc (larges m l) \<noteq> 0 then sys_free (l_alloc (larges m l)) m else m))"

partial_function (option) free_blocks :: "int \<Rightarrow> int \<Rightarrow> pmem \<Rightarrow> pmem option" where
  "free_blocks p n m =
     (let m = sys_free p m in if n = 0 then Some m else free_blocks n (d_next (pools m n)) m)"

definition etdb_destroy_pool :: "int \<Rightarrow> pmem \<Rightarrow> pmem option" where
  "etdb_destroy_pool pool m =
     Option.bind (free_larges (large (pools m pool)) m)
       (\<lambda>m. free_blocks pool (d_next (pools m pool)) m)"

text \<open>
  \<open>for(p = current; p->d.next; p = p->d.next) if(p->d.failed++ > 4) current = p->d.next;\<close>
\<close>

partial_function (option) failed_loop :: "int \<Rightarrow> int \<Rightarrow> pmem \<Rightarrow> (int \<times> int \<times> pmem) option" where
  "failed_loop p cur m =
     (if d_next (pools m p) = 0 then Some (p, cur, m)
      else
        let f = d_failed (pools m p);
            m = put_pool p (\<lambda>b. b\<lparr>d_failed := f + 1\<rparr>) m
        in failed_loop (d_next (pools m p)) (if f > 4 then d_next (pools m p) else cur) m)"

definition etdb_palloc_block :: "sysalloc \<Rightarrow> int \<Rightarrow> int \<Rightarrow> pmem \<Rightarrow> (int \<times> pmem) option" where
  "etdb_palloc_block alloc pool sz m =
     (let psize = size_t (d_end (pools m pool) - pool);
          (new_pool, m) = sys_alloc alloc psize m
      in if new_pool = 0 then Some (0, m)
         else
           let a = etdb_align_ptr (new_pool + pool_data_size) ETDB_ALIGNMENT;
               m = put_pool new_pool (\<lambda>b. b\<lparr>d_end := new_pool + psize, d_next := 0, d_failed := 0, d_last := a + sz\<rparr>) m
           in map_option
                (\<lambda>(p, cur, m).
                   let m = put_pool p (\<lambda>b. b\<lparr>d_next := new_pool\<rparr>) m
                   in (a, put_pool pool (\<lambda>b. b\<lparr>current := (if cur \<noteq> 0 then cur else new_pool)\<rparr>) m))
                (failed_loop (current (pools m pool)) (current (pools m pool)) m))"

text \<open>
  The \<open>do\<close> loop of \<open>etdb_palloc\<close> and \<open>etdb_pnalloc\<close>, which differ in the alignment only. The
  result is 0 when no block has room.
\<close>

partial_function (option) bump_loop :: "bool \<Rightarrow> int \<Rightarrow> int \<Rightarrow> pmem \<Rightarrow> (int \<times> pmem) option" where
  "bump_loop aligned p sz m =
     (let a = (if aligned then etdb_align_ptr (d_last (pools m p)) ETDB_ALIGNMENT else d_last (pools m p))
      in if size_t (d_end (pools m p) - a) \<ge> sz
         then Some (a, put_pool p (\<lambda>b. b\<lparr>d_last := a + sz\<rparr>) m)
         else if d_next (pools m p) = 0 then Some (0, m)
         else bump_loop aligned (d_next (pools m p)) sz m)"

definition palloc_small :: "bool \<Rightarrow> sysalloc \<Rightarrow> int \<Rightarrow> int \<Rightarrow> pmem \<Rightarrow> (int \<times> pmem) option" where
  "palloc_small aligned alloc pool sz m =
     Option.bind (bump_loop aligned (current (pools m pool)) sz m)
       (\<lambda>(a, m). if a \<noteq> 0 then Some (a, m) else etdb_palloc_block alloc pool sz m)"

text \<open>The search for an unused entry, \<open>if(n++ > 3) break;\<close>.\<close>

function unused_large :: "nat \<Rightarrow> int \<Rightarrow> pmem \<Rightarrow> int" where
  "unused_large n l m =
     (if l = 0 then 0
      else if l_alloc (larges m l) = 0 then l
      else if n > 3 then 0
      else unused_large (n + 1) (l_next (larges m l)) m)"
  by pat_completeness auto
termination by (relation "measure (\<lambda>(n, l, m). 5 - n)") auto

declare unused_large.simps [simp del]

text \<open>
  \<open>etdb_palloc\<close> and \<open>etdb_palloc_large\<close> call each other; the call of \<open>etdb_palloc\<close> for the entry of
  the list is written out here.
\<close>

partial_function (option) etdb_palloc_large :: "sysalloc \<Rightarrow> int \<Rightarrow> int \<Rightarrow> pmem \<Rightarrow> (int \<times> pmem) option" where
  "etdb_palloc_large alloc pool sz m =
     (let (p, m) = sys_alloc alloc sz m
      in if p = 0 then Some (0, m)
         else
           let l = unused_large 0 (large (pools m pool)) m
           in if l \<noteq> 0 then Some (p, put_large l (\<lambda>e. e\<lparr>l_alloc := p\<rparr>) m)
              else
                Option.bind
                  (if pool_large_size \<le> pmax (pools m pool) then palloc_small True alloc pool pool_large_size m
                   else etdb_palloc_large alloc pool pool_large_size m)
                  (\<lambda>(l, m).
                     if l = 0 then Some (0, sys_free p m)
                     else
                       let m = put_large l (\<lambda>_. \<lparr>l_next = large (pools m pool), l_alloc = p\<rparr>) m
                       in Some (p, put_pool pool (\<lambda>b. b\<lparr>large := l\<rparr>) m)))"

definition etdb_palloc :: "sysalloc \<Rightarrow> int \<Rightarrow> int \<Rightarrow> pmem \<Rightarrow> (int \<times> pmem) option" where
  "etdb_palloc alloc pool sz m =
     (if sz \<le> pmax (pools m pool) then palloc_small True alloc pool sz m
      else etdb_palloc_large alloc pool sz m)"

definition etdb_pnalloc :: "sysalloc \<Rightarrow> int \<Rightarrow> int \<Rightarrow> pmem \<Rightarrow> (int \<times> pmem) option" where
  "etdb_pnalloc alloc pool sz m =
     (if sz \<le> pmax (pools m pool) then palloc_small False alloc pool sz m
      else etdb_palloc_large alloc pool sz m)"

definition etdb_pcalloc :: "sysalloc \<Rightarrow> int \<Rightarrow> int \<Rightarrow> pmem \<Rightarrow> (int \<times> pmem) option" where
  "etdb_pcalloc alloc pool sz m =
     map_option (\<lambda>(p, m). (p, if p \<noteq> 0 then m\<lparr>pbytes := (\<lambda>a. if p \<le> a \<and> a < p + sz then 0 else pbytes m a)\<rparr> else m))
       (etdb_palloc alloc pool sz m)"

text \<open>The entry of the list of large pieces that has an address, 0 when none has.\<close>

partial_function (option) find_large :: "int \<Rightarrow> int \<Rightarrow> pmem \<Rightarrow> int option" where
  "find_large l p m =
     (if l = 0 then Some 0 else if p = l_alloc (larges m l) then Some l else find_large (l_next (larges m l)) p m)"

definition etdb_pfree :: "int \<Rightarrow> int \<Rightarrow> pmem \<Rightarrow> (int \<times> pmem) option" where
  "etdb_pfree pool p m =
     map_option (\<lambda>l. if l = 0 then (-1, m)
         else (0, put_large l (\<lambda>e. e\<lparr>l_alloc := 0\<rparr>) (sys_free (l_alloc (larges m l)) m)))
       (find_large (large (pools m pool)) p m)"

text \<open>
  \<open>realloc\<close> copies the bytes and frees the old region, unless it fails; the bytes behind the end of
  a shorter old region are unspecified in C.
\<close>

definition sys_realloc :: "sysalloc \<Rightarrow> int \<Rightarrow> int \<Rightarrow> pmem \<Rightarrow> int \<times> pmem" where
  "sys_realloc alloc raw sz m =
     (let (p, m) = sys_alloc alloc sz m
      in if p = 0 then (0, m)
         else (p, sys_free raw (m\<lparr>pbytes := (\<lambda>a. if p \<le> a \<and> a < p + sz then pbytes m (raw + (a - p)) else pbytes m a)\<rparr>)))"

definition etdb_prealloc_large :: "sysalloc \<Rightarrow> int \<Rightarrow> int \<Rightarrow> int \<Rightarrow> pmem \<Rightarrow> (int \<times> pmem) option" where
  "etdb_prealloc_large alloc pool raw sz m =
     map_option (\<lambda>l. if l = 0 then (0, m)
         else let (p, m) = sys_realloc alloc raw sz m in (p, put_large l (\<lambda>e. e\<lparr>l_alloc := p\<rparr>) m))
       (find_large (large (pools m pool)) raw m)"

end
