(* ===== verification/Palloc_Rep.thy ===== *)
theory Palloc_Rep
  imports Palloc
begin

text \<open>
  The pieces a pool has handed out: \<open>pool_rep m pool bs psize cs\<close> says that \<open>pool\<close> is a chain of
  the blocks \<open>bs\<close> of \<open>psize\<close> bytes, and that the pieces \<open>cs\<close> lie inside of the blocks, behind
  their headers, or in regions of the system allocator, and nowhere overlap.
\<close>

section \<open>Addresses\<close>

definition apart :: "region \<Rightarrow> region \<Rightarrow> bool" where
  "apart r s \<longleftrightarrow> fst r + snd r \<le> fst s \<or> fst s + snd s \<le> fst r"

lemma apart_commute: "apart r s \<Longrightarrow> apart s r"
  by (auto simp: apart_def)

text \<open>What the code relies on: aligned regions of user space that do not overlap those in use.\<close>

definition alloc_ok :: "sysalloc \<Rightarrow> bool" where
  "alloc_ok alloc \<longleftrightarrow> (\<forall>R n. finite R \<longrightarrow> 0 \<le> n \<longrightarrow> alloc R n = 0 \<or>
     0 < alloc R n \<and> 16 dvd alloc R n \<and> alloc R n + n < 2 ^ 63 \<and> (\<forall>r\<in>R. apart (alloc R n, n) r))"

lemma alloc_okD:
  assumes "alloc_ok alloc" "finite R" "0 \<le> n" "alloc R n = p" "p \<noteq> 0"
  shows "0 < p" "16 dvd p" "p + n < 2 ^ 63" "r \<in> R \<Longrightarrow> apart (p, n) r"
  using assms unfolding alloc_ok_def by blast+

lemma size_t_small: "0 \<le> x \<Longrightarrow> x < 2 ^ 64 \<Longrightarrow> size_t x = x"
  by (simp add: size_t_def)

lemma and_not_7: "x AND - 8 = 8 * (x div 8)" for x :: int
proof -
  have "x AND NOT (mask 3) = push_bit 3 (drop_bit 3 x)"
    by (rule bit_eqI) (auto simp: bit_simps)
  moreover have "NOT (mask 3) = (- 8 :: int)" by (simp add: mask_eq_exp_minus_1)
  ultimately show ?thesis by (simp add: push_bit_eq_mult drop_bit_eq_div)
qed

lemma align_8: "0 \<le> p \<Longrightarrow> p < 2 ^ 63 \<Longrightarrow> etdb_align_ptr p ETDB_ALIGNMENT = 8 * ((p + 7) div 8)"
  by (simp add: etdb_align_ptr_def ETDB_ALIGNMENT_def size_t_def and_not_7)

lemma align_bounds:
  assumes "0 \<le> p" "p < 2 ^ 63"
  shows "p \<le> etdb_align_ptr p ETDB_ALIGNMENT" "8 dvd etdb_align_ptr p ETDB_ALIGNMENT"
    "p \<le> e \<Longrightarrow> 8 dvd e \<Longrightarrow> etdb_align_ptr p ETDB_ALIGNMENT \<le> e" "8 dvd p \<Longrightarrow> etdb_align_ptr p ETDB_ALIGNMENT = p"
  unfolding align_8 [OF assms] by presburger+

section \<open>Chains of blocks\<close>

fun linked_pools :: "pmem \<Rightarrow> int \<Rightarrow> int list \<Rightarrow> bool" where
  "linked_pools m p [] \<longleftrightarrow> p = 0"
| "linked_pools m p (b # bs) \<longleftrightarrow> p = b \<and> b \<noteq> 0 \<and> linked_pools m (d_next (pools m b)) bs"

lemma linked_suffix: "linked_pools m p (xs @ b # ys) \<Longrightarrow> linked_pools m b (b # ys)"
  by (induction xs arbitrary: p) auto

lemma linked_pools_cong: "\<forall>b\<in>set bs. d_next (pools m' b) = d_next (pools m b) \<Longrightarrow> linked_pools m' p bs \<longleftrightarrow> linked_pools m p bs"
  by (induction bs arbitrary: p) auto

lemma linked_snoc:
  assumes "linked_pools m p bs" "bs \<noteq> []" "distinct bs" "new \<noteq> 0"
    "\<forall>b\<in>set (butlast bs). d_next (pools m' b) = d_next (pools m b)" "d_next (pools m' (last bs)) = new" "d_next (pools m' new) = 0"
  shows "linked_pools m' p (bs @ [new])"
  using assms
proof (induction bs arbitrary: p)
  case (Cons b bs)
  then show ?case by (cases bs) auto
qed simp

text \<open>One block: its bounds are those of a region, its pointer is behind the header.\<close>

definition block_ok :: "pmem \<Rightarrow> int \<Rightarrow> int \<Rightarrow> bool" where
  "block_ok m psize b \<longleftrightarrow> 0 < b \<and> 8 dvd b \<and> b + psize < 2 ^ 63 \<and> d_end (pools m b) = b + psize \<and>
     b + pool_data_size \<le> d_last (pools m b) \<and> d_last (pools m b) \<le> b + psize \<and> (b, psize) \<in> regions m"

lemma bump_start:
  assumes "block_ok m psize b" "8 dvd psize"
    "a = (if al then etdb_align_ptr (d_last (pools m b)) ETDB_ALIGNMENT else d_last (pools m b))"
  shows "d_last (pools m b) \<le> a" "a \<le> d_end (pools m b)" "size_t (d_end (pools m b) - a) = d_end (pools m b) - a" "a \<noteq> 0"
    "al \<Longrightarrow> 8 dvd a"
proof -
  note B = assms(1) [unfolded block_ok_def pool_data_size_def]
  have l: "0 \<le> d_last (pools m b)" "d_last (pools m b) < 2 ^ 63" using B by linarith+
  have e: "d_last (pools m b) \<le> d_end (pools m b)" "8 dvd d_end (pools m b)" using B assms(2) by auto
  show a: "d_last (pools m b) \<le> a" "a \<le> d_end (pools m b)" "al \<Longrightarrow> 8 dvd a"
    using align_bounds [OF l] e assms(3) by auto
  then show "size_t (d_end (pools m b) - a) = d_end (pools m b) - a"
    using B by (intro size_t_small) auto
  show "a \<noteq> 0" using a(1) B by linarith
qed

lemma bump_run:
  assumes "linked_pools m p ys" "ys \<noteq> []" "\<forall>b\<in>set ys. block_ok m psize b" "8 dvd psize"
  shows "bump_loop al p sz m = Some (0, m) \<or>
    (\<exists>b\<in>set ys. \<exists>a. d_last (pools m b) \<le> a \<and> a + sz \<le> d_end (pools m b) \<and> a \<noteq> 0 \<and> (al \<longrightarrow> 8 dvd a) \<and>
       bump_loop al p sz m = Some (a, put_pool b (\<lambda>b. b\<lparr>d_last := a + sz\<rparr>) m))"
  using assms
proof (induction ys arbitrary: p)
  case (Cons b ys)
  let ?a = "if al then etdb_align_ptr (d_last (pools m b)) ETDB_ALIGNMENT else d_last (pools m b)"
  have p: "p = b" using Cons.prems(1) by simp
  note S = bump_start [OF _ Cons.prems(4) refl, of m b al]
  have ok: "block_ok m psize b" using Cons.prems(3) by simp
  show ?case
  proof (cases "sz \<le> size_t (d_end (pools m b) - ?a)")
    case True
    then have "bump_loop al p sz m = Some (?a, put_pool b (\<lambda>b. b\<lparr>d_last := ?a + sz\<rparr>) m)"
      unfolding p by (subst bump_loop.simps) (simp only: Let_def if_True)
    moreover have "?a + sz \<le> d_end (pools m b)" using S(3) [OF ok] True by linarith
    ultimately show ?thesis using S(1,4,5) [OF ok] by (intro disjI2 bexI [of _ b] exI [of _ ?a]) auto
  next
    case False
    then have e: "bump_loop al p sz m = (if d_next (pools m b) = 0 then Some (0, m) else bump_loop al (d_next (pools m b)) sz m)"
      unfolding p by (subst bump_loop.simps) (simp only: Let_def if_False)
    show ?thesis
    proof (cases "ys = []")
      case True
      then show ?thesis using e Cons.prems(1) by simp
    next
      case ys: False
      then have "d_next (pools m b) \<noteq> 0" "linked_pools m (d_next (pools m b)) ys" using Cons.prems(1) by (cases ys; auto)+
      then show ?thesis using Cons.IH [of "d_next (pools m b)"] ys Cons.prems(3,4) e by auto
    qed
  qed
qed simp

text \<open>The counters of failures change, and the loop stops at the last block.\<close>

definition recount :: "(int \<Rightarrow> int) \<Rightarrow> pmem \<Rightarrow> pmem" where
  "recount f m = m\<lparr>pools := \<lambda>b. (pools m b)\<lparr>d_failed := f b\<rparr>\<rparr>"

lemma recount_simps [simp]:
  "d_next (pools (recount f m) b) = d_next (pools m b)" "d_last (pools (recount f m) b) = d_last (pools m b)"
  "d_end (pools (recount f m) b) = d_end (pools m b)" "pmax (pools (recount f m) b) = pmax (pools m b)"
  "current (pools (recount f m) b) = current (pools m b)" "large (pools (recount f m) b) = large (pools m b)"
  "regions (recount f m) = regions m" "larges (recount f m) = larges m" "pbytes (recount f m) = pbytes m"
  by (simp_all add: recount_def)

lemma recount_put: "put_pool p (\<lambda>b. b\<lparr>d_failed := x\<rparr>) (recount f m) = recount (f(p := x)) m"
  by (simp add: put_pool_def recount_def fun_eq_iff)

lemma recount_id: "recount (\<lambda>b. d_failed (pools m b)) m = m"
  by (simp add: recount_def)

lemma failed_run:
  assumes "linked_pools m p ys" "ys \<noteq> []"
  shows "\<exists>cur' g. failed_loop p cur (recount f m) = Some (last ys, cur', recount g m) \<and> cur' \<in> insert cur (set ys)"
  using assms
proof (induction ys arbitrary: p cur f)
  case (Cons b ys)
  have p: "p = b" using Cons.prems(1) by simp
  show ?case
  proof (cases "ys = []")
    case True
    then have "d_next (pools (recount f m) b) = 0" using Cons.prems(1) by simp
    then have "failed_loop b cur (recount f m) = Some (b, cur, recount f m)"
      by (subst failed_loop.simps) simp
    then show ?thesis using True p by auto
  next
    case False
    let ?q = "d_next (pools m b)" and ?x = "d_failed (pools (recount f m) b)"
    have q: "?q \<noteq> 0" "linked_pools m ?q ys" "?q \<in> set ys" using Cons.prems(1) False by (cases ys; auto)+
    have "failed_loop b cur (recount f m) = failed_loop ?q (if ?x > 4 then ?q else cur) (recount (f(b := ?x + 1)) m)"
      by (subst failed_loop.simps) (simp add: q(1) Let_def recount_put)
    moreover obtain cur' g where "failed_loop ?q (if ?x > 4 then ?q else cur) (recount (f(b := ?x + 1)) m) = Some (last ys, cur', recount g m)"
      "cur' \<in> insert (if ?x > 4 then ?q else cur) (set ys)"
      using Cons.IH [OF q(2) False] by blast
    ultimately show ?thesis using False p q(3) by (auto split: if_splits)
  qed
qed simp

section \<open>Pools\<close>

definition header :: "int \<Rightarrow> int \<Rightarrow> int" where
  "header pool b = b + (if b = pool then pool_size else pool_data_size)"

definition pool_ok :: "pmem \<Rightarrow> int \<Rightarrow> int list \<Rightarrow> int \<Rightarrow> bool" where
  "pool_ok m pool bs psize \<longleftrightarrow> bs \<noteq> [] \<and> hd bs = pool \<and> linked_pools m pool bs \<and> distinct bs \<and>
     current (pools m pool) \<in> set bs \<and> (\<forall>b\<in>set bs. block_ok m psize b) \<and> 8 dvd psize \<and>
     pmax (pools m pool) \<le> psize - pool_size \<and> header pool pool \<le> d_last (pools m pool) \<and> finite (regions m) \<and>
     (\<forall>r\<in>regions m. \<forall>s\<in>regions m. r \<noteq> s \<longrightarrow> apart r s)"

definition in_block :: "pmem \<Rightarrow> int \<Rightarrow> int \<Rightarrow> region \<Rightarrow> bool" where
  "in_block m pool b c \<longleftrightarrow> header pool b \<le> fst c \<and> 0 \<le> snd c \<and> fst c + snd c \<le> d_last (pools m b)"

definition placed_piece :: "pmem \<Rightarrow> int \<Rightarrow> int list \<Rightarrow> region \<Rightarrow> bool" where
  "placed_piece m pool bs c \<longleftrightarrow> (\<exists>b\<in>set bs. in_block m pool b c) \<or> c \<in> regions m \<and> fst c \<notin> set bs \<and> 0 < snd c \<and> 0 < fst c \<and> fst c + snd c < 2 ^ 63"

lemma placed_mono:
  "(\<And>b. in_block m pool b c \<Longrightarrow> in_block m' pool b c) \<Longrightarrow> placed_piece m pool bs c \<Longrightarrow> regions m \<subseteq> regions m' \<Longrightarrow>
    placed_piece m' pool bs c"
  unfolding placed_piece_def by blast

definition pool_rep :: "pmem \<Rightarrow> int \<Rightarrow> int list \<Rightarrow> int \<Rightarrow> region list \<Rightarrow> bool" where
  "pool_rep m pool bs psize cs \<longleftrightarrow> pool_ok m pool bs psize \<and>
     list_all (placed_piece m pool bs) cs \<and> sorted_wrt apart cs"

lemma pool_okD:
  assumes "pool_ok m pool bs psize"
  shows "bs \<noteq> []" "hd bs = pool" "linked_pools m pool bs" "distinct bs" "current (pools m pool) \<in> set bs"
    "b \<in> set bs \<Longrightarrow> block_ok m psize b" "8 dvd psize" "pmax (pools m pool) \<le> psize - pool_size"
    "header pool pool \<le> d_last (pools m pool)" "finite (regions m)"
    "r \<in> regions m \<Longrightarrow> s \<in> regions m \<Longrightarrow> r \<noteq> s \<Longrightarrow> apart r s" "pool \<in> set bs"
  using assms unfolding pool_ok_def by (auto dest: hd_in_set)

lemma current_suffix:
  assumes "pool_ok m pool bs psize"
  obtains xs ys where "bs = xs @ current (pools m pool) # ys" "linked_pools m (current (pools m pool)) (current (pools m pool) # ys)"
proof -
  obtain xs ys where "bs = xs @ current (pools m pool) # ys" using split_list [OF pool_okD(5) [OF assms]] by blast
  then show thesis using that linked_suffix pool_okD(3) [OF assms] by metis
qed

text \<open>A piece in one block is apart from what lies outside the block or in another.\<close>

lemma in_block_region: "block_ok m psize b \<Longrightarrow> in_block m pool b c \<Longrightarrow> b \<le> fst c \<and> fst c + snd c \<le> b + psize"
  by (auto simp: block_ok_def in_block_def header_def pool_size_def pool_data_size_def split: if_splits)

lemma within_apart:
  "apart r s \<Longrightarrow> fst r \<le> a \<Longrightarrow> 0 \<le> n \<Longrightarrow> a + n \<le> fst r + snd r \<Longrightarrow> apart (a, n) s"
  by (auto simp: apart_def)

lemma blocks_apart:
  assumes P: "pool_ok m pool bs psize" and b: "b \<in> set bs" "b' \<in> set bs" "b \<noteq> b'" and c: "in_block m pool b' c"
    and a: "b \<le> a" "0 \<le> n" "a + n \<le> b + psize"
  shows "apart (a, n) c"
proof -
  note B = pool_okD(6) [OF P]
  have r: "(b, psize) \<in> regions m" "(b', psize) \<in> regions m" using B b by (auto simp: block_ok_def)
  have "apart (b, psize) (b', psize)" by (rule pool_okD(11) [OF P r]) (use b(3) in simp)
  then have "apart (a, n) (b', psize)" using within_apart [of "(b, psize)"] a by simp
  moreover have "b' \<le> fst c" "0 \<le> snd c" "fst c + snd c \<le> b' + psize"
    using in_block_region [OF B [OF b(2)] c] c by (auto simp: in_block_def)
  ultimately have "apart c (a, n)"
    using within_apart [OF apart_commute, of "(a, n)" "(b', psize)" "fst c" "snd c"] by simp
  then show ?thesis by (rule apart_commute)
qed

lemma piece_apart:
  assumes R: "pool_rep m pool bs psize cs" and c: "c \<in> set cs" and b: "b \<in> set bs"
    and a: "d_last (pools m b) \<le> a" "0 \<le> n" "a + n \<le> b + psize"
  shows "apart (a, n) c"
proof -
  have P: "pool_ok m pool bs psize" using R by (simp add: pool_rep_def)
  have B: "block_ok m psize b" by (rule pool_okD(6) [OF P b])
  have ba: "b \<le> a" using B a(1) by (auto simp: block_ok_def pool_data_size_def)
  consider b' where "b' \<in> set bs" "in_block m pool b' c" | "c \<in> regions m" "fst c \<notin> set bs"
    using R c by (auto simp: pool_rep_def placed_piece_def list_all_iff)
  then show ?thesis
  proof cases
    case 1
    show ?thesis
    proof (cases "b' = b")
      case True
      then show ?thesis using 1(2) a(1) by (auto simp: in_block_def apart_def)
    next
      case False
      then show ?thesis using blocks_apart [OF P b 1(1) _ 1(2) ba a(2,3)] by simp
    qed
  next
    case 2
    have "(b, psize) \<in> regions m" using B by (simp add: block_ok_def)
    moreover have "(b, psize) \<noteq> c" using 2(2) b by auto
    ultimately have "apart (b, psize) c" using pool_okD(11) [OF P _ 2(1)] by blast
    then show ?thesis using within_apart [of "(b, psize)" c a n] ba a(2,3) by simp
  qed
qed

text \<open>A piece cut from a block.\<close>

lemma put_pool_simps [simp]:
  "pools (put_pool p f m) q = (if q = p then f (pools m p) else pools m q)" "regions (put_pool p f m) = regions m"
  "larges (put_pool p f m) = larges m" "pbytes (put_pool p f m) = pbytes m"
  by (simp_all add: put_pool_def)

lemma cut_rep:
  assumes R: "pool_rep m pool bs psize cs" and b: "b \<in> set bs"
    and a: "d_last (pools m b) \<le> a" "0 \<le> n" "a + n \<le> d_end (pools m b)"
  shows "pool_rep (put_pool b (\<lambda>b. b\<lparr>d_last := a + n\<rparr>) m) pool bs psize ((a, n) # cs)"
proof -
  let ?m = "put_pool b (\<lambda>b. b\<lparr>d_last := a + n\<rparr>) m"
  have P: "pool_ok m pool bs psize" using R by (simp add: pool_rep_def)
  note D = pool_okD [OF P]
  have B: "block_ok m psize b" by (rule D(6) [OF b])
  have an: "a + n \<le> b + psize" using B a(3) by (simp add: block_ok_def)
  have "block_ok ?m psize b'" if "b' \<in> set bs" for b'
    using D(6) [OF that] a an B by (auto simp: block_ok_def)
  moreover have "linked_pools ?m pool bs" using D(3) linked_pools_cong [of bs ?m m pool] by simp
  moreover have "d_last (pools m pool) \<le> d_last (pools ?m pool)" using a(1,2) by simp
  then have "header pool pool \<le> d_last (pools ?m pool)" using D(9) by linarith
  ultimately have "pool_ok ?m pool bs psize"
    using D(1,2,4,5,7,8,10,11) unfolding pool_ok_def by (cases "pool = b") simp_all
  moreover have "in_block ?m pool b (a, n)"
    using a B D(9) by (auto simp: in_block_def header_def block_ok_def)
  then have "placed_piece ?m pool bs (a, n)" using b by (auto simp: placed_piece_def)
  moreover have "in_block ?m pool b' c" if "in_block m pool b' c" for b' c
    using that a(1,2) by (auto simp: in_block_def)
  then have "placed_piece ?m pool bs c" if "placed_piece m pool bs c" for c
    using that by (rule placed_mono) simp_all
  then have "list_all (placed_piece ?m pool bs) cs"
    using R by (simp add: pool_rep_def list_all_iff)
  moreover have "\<forall>c\<in>set cs. apart (a, n) c" using piece_apart [OF R _ b a(1,2) an] by blast
  moreover have "sorted_wrt apart cs" using R by (simp add: pool_rep_def)
  ultimately show ?thesis unfolding pool_rep_def by simp
qed

text \<open>A region that the system allocator adds.\<close>

lemma in_region_apart:
  assumes R: "pool_rep m pool bs psize cs" and c: "c \<in> set cs" and r: "\<And>s. s \<in> regions m \<Longrightarrow> apart r s"
  shows "apart r c"
proof -
  have P: "pool_ok m pool bs psize" using R by (simp add: pool_rep_def)
  consider b where "b \<in> set bs" "in_block m pool b c" | "c \<in> regions m"
    using R c by (auto simp: pool_rep_def placed_piece_def list_all_iff)
  then show ?thesis
  proof cases
    case 1
    have B: "block_ok m psize b" by (rule pool_okD(6) [OF P 1(1)])
    then have "apart (b, psize) r" using apart_commute [OF r] by (simp add: block_ok_def)
    then have "apart c r"
      using within_apart [of "(b, psize)" r "fst c" "snd c"] in_block_region [OF B 1(2)] 1(2) by (simp add: in_block_def)
    then show ?thesis by (rule apart_commute)
  qed (rule r)
qed

lemma sys_alloc_rep:
  assumes R: "pool_rep m pool bs psize cs" and al: "alloc_ok alloc" and n: "0 < n" and e: "sys_alloc alloc n m = (p, m')" "p \<noteq> 0"
  shows "pool_rep m' pool bs psize ((p, n) # cs)" "m' = m\<lparr>regions := insert (p, n) (regions m)\<rparr>" "p \<notin> set bs"
    "0 < p" "16 dvd p" "p + n < 2 ^ 63"
proof -
  have P: "pool_ok m pool bs psize" using R by (simp add: pool_rep_def)
  note D = pool_okD [OF P]
  have a: "alloc (regions m) n = p" and m': "m' = m\<lparr>regions := insert (p, n) (regions m)\<rparr>"
    using e by (auto simp: sys_alloc_def Let_def split: if_splits)
  note A = alloc_okD [OF al D(10) order_less_imp_le [OF n] a e(2)]
  show "m' = m\<lparr>regions := insert (p, n) (regions m)\<rparr>" by (rule m')
  show "0 < p" "16 dvd p" "p + n < 2 ^ 63" by (rule A)+
  show pb: "p \<notin> set bs"
  proof
    assume "p \<in> set bs"
    then have B: "block_ok m psize p" by (rule D(6))
    then have "apart (p, n) (p, psize)" using A(4) by (simp add: block_ok_def)
    then show False using n B by (auto simp: apart_def block_ok_def pool_data_size_def)
  qed
  have "block_ok m' psize b" if "b \<in> set bs" for b using D(6) [OF that] by (simp add: block_ok_def m')
  moreover have "linked_pools m' pool bs" using D(3) linked_pools_cong [of bs m' m pool] by (simp add: m')
  moreover have "apart r s" if "r \<in> regions m'" "s \<in> regions m'" "r \<noteq> s" for r s
    using that D(11) A(4) apart_commute [OF A(4)] unfolding m' by (cases "r = (p, n)"; cases "s = (p, n)") simp_all
  ultimately have "pool_ok m' pool bs psize"
    using D(1,2,4,5,7,8,9,10) unfolding pool_ok_def by (simp add: m')
  moreover have "placed_piece m' pool bs c" if "placed_piece m pool bs c" for c
    by (rule placed_mono [OF _ that]) (auto simp: in_block_def m')
  then have "list_all (placed_piece m' pool bs) cs"
    using R by (simp add: pool_rep_def list_all_iff)
  moreover have "placed_piece m' pool bs (p, n)" using pb n A(1,3) by (simp add: placed_piece_def m')
  moreover have "\<forall>c\<in>set cs. apart (p, n) c" using in_region_apart [OF R] A(4) by blast
  ultimately show "pool_rep m' pool bs psize ((p, n) # cs)" using R unfolding pool_rep_def by simp
qed

lemma pool_rep_drop: "pool_rep m pool bs psize (c # cs) \<Longrightarrow> pool_rep m pool bs psize cs"
  by (simp add: pool_rep_def)

text \<open>A new block with its first piece.\<close>

lemma block_run:
  assumes R: "pool_rep m pool bs psize cs" and al: "alloc_ok alloc" and n: "0 \<le> n" "n \<le> pmax (pools m pool)"
  shows "etdb_palloc_block alloc pool n m = Some (0, m) \<or>
    (\<exists>new m'. etdb_palloc_block alloc pool n m = Some (new + pool_data_size, m') \<and> 0 < new \<and> 8 dvd new \<and>
       pool_rep m' pool (bs @ [new]) psize ((new + pool_data_size, n) # cs) \<and> pmax (pools m' pool) = pmax (pools m pool) \<and>
       pbytes m' = pbytes m)"
proof -
  have P: "pool_ok m pool bs psize" using R by (simp add: pool_rep_def)
  note D = pool_okD [OF P]
  have B: "block_ok m psize pool" by (rule D(6) [OF D(12)])
  have ps: "n + pool_size \<le> psize" using n D(8) by linarith
  have pz: "size_t (d_end (pools m pool) - pool) = psize"
    using B ps n by (auto simp: block_ok_def pool_size_def intro!: size_t_small)
  obtain new m1 where e: "sys_alloc alloc psize m = (new, m1)" by fastforce
  show ?thesis
  proof (cases "new = 0")
    case True
    then have "m1 = m" using e by (auto simp: sys_alloc_def Let_def split: if_splits)
    then show ?thesis using e True by (simp add: etdb_palloc_block_def pz)
  next
    case False
    have p0: "0 < psize" using ps n by (simp add: pool_size_def)
    note A = sys_alloc_rep [OF R al p0 e False]
    let ?a = "new + pool_data_size"
    have a: "etdb_align_ptr ?a ETDB_ALIGNMENT = ?a"
      using A(4-6) ps n by (intro align_bounds(4)) (auto simp: pool_data_size_def pool_size_def)
    define m2 where "m2 = put_pool new (\<lambda>b. b\<lparr>d_end := new + psize, d_next := 0, d_failed := 0, d_last := ?a + n\<rparr>) m1"
    have np: "new \<noteq> pool" using A(3) D(12) by auto
    have m1: "pools m1 = pools m" "regions m1 = insert (new, psize) (regions m)" "larges m1 = larges m" using A(2) by simp_all
    have old: "pools m2 b = pools m b" if "b \<in> set bs" for b using that A(3) by (auto simp: m2_def m1)
    obtain xs ys where cs: "bs = xs @ current (pools m pool) # ys"
      "linked_pools m (current (pools m pool)) (current (pools m pool) # ys)" by (rule current_suffix [OF P])
    have "linked_pools m2 (current (pools m pool)) (current (pools m pool) # ys)"
      by (rule iffD2 [OF linked_pools_cong cs(2)]) (use cs(1) old in auto)
    from failed_run [OF this, of "current (pools m pool)" "\<lambda>b. d_failed (pools m2 b)"]
    obtain cur g where F: "failed_loop (current (pools m pool)) (current (pools m pool)) m2 = Some (last bs, cur, recount g m2)"
      "cur \<in> set (current (pools m pool) # ys)"
      by (auto simp: recount_id cs(1))
    have cb: "cur \<in> set bs" "cur \<noteq> 0" using F(2) cs(1) D(6) [of cur] by (auto simp: block_ok_def)
    define m5 where "m5 = put_pool pool (\<lambda>b. b\<lparr>current := cur\<rparr>) (put_pool (last bs) (\<lambda>b. b\<lparr>d_next := new\<rparr>) (recount g m2))"
    have run: "etdb_palloc_block alloc pool n m = Some (?a, m5)"
      using e False F(1) cb(2) by (simp add: etdb_palloc_block_def pz a m2_def m1 m5_def np [symmetric] Let_def)
    have f: "d_last (pools m5 b) = (if b = new then ?a + n else d_last (pools m b))"
      "d_end (pools m5 b) = (if b = new then new + psize else d_end (pools m b))" "pmax (pools m5 pool) = pmax (pools m pool)"
      "current (pools m5 pool) = cur" "regions m5 = insert (new, psize) (regions m)" "pbytes m5 = pbytes m" for b
      using np A(2) by (simp_all add: m5_def m2_def m1)
    have dn: "d_next (pools m5 b) = (if b = last bs then new else d_next (pools m2 b))" for b by (simp add: m5_def)
    have lb: "last bs \<in> set bs" using D(1) by simp
    have "linked_pools m5 pool (bs @ [new])"
    proof (rule linked_snoc [OF D(3,1,4)])
      show "\<forall>b\<in>set (butlast bs). d_next (pools m5 b) = d_next (pools m b)"
      proof
        fix b
        assume b: "b \<in> set (butlast bs)"
        then have "b \<noteq> last bs" using D(4,1) by (metis append_butlast_last_id distinct_append disjoint_iff list.set_intros(1))
        then show "d_next (pools m5 b) = d_next (pools m b)" using dn old in_set_butlastD [OF b] by simp
      qed
      show "d_next (pools m5 new) = 0" using dn lb A(3) by (auto simp: m2_def)
    qed (use False dn in simp_all)
    moreover have "block_ok m5 psize b" if "b \<in> set (bs @ [new])" for b
      using that D(6) [of b] A(3-6) ps n by (auto simp: block_ok_def f pool_data_size_def pool_size_def)
    moreover have "apart r s" if "r \<in> regions m5" "s \<in> regions m5" "r \<noteq> s" for r s
      using that pool_okD(11) [of m1 pool bs psize] A(1) m1(2) by (simp add: f pool_rep_def)
    ultimately have "pool_ok m5 pool (bs @ [new]) psize"
      using D(1,2,4,7,8,9,10) A(3) cb(1) np unfolding pool_ok_def by (simp add: f)
    moreover have pl: "placed_piece m5 pool (bs @ [new]) c" if "placed_piece m pool bs c" "apart (new, psize) c" for c
      using that A(3) p0 unfolding placed_piece_def by (auto simp: in_block_def f apart_def)
    have cs: "sorted_wrt apart cs" "list_all (placed_piece m pool bs) cs" "\<forall>c\<in>set cs. apart (new, psize) c"
      using R A(1) by (simp_all add: pool_rep_def)
    have "list_all (placed_piece m5 pool (bs @ [new])) cs" using cs(2,3) pl by (simp add: list_all_iff)
    moreover have "in_block m5 pool new (?a, n)" using n(1) np by (simp add: in_block_def header_def f)
    then have "placed_piece m5 pool (bs @ [new]) (?a, n)" by (simp add: placed_piece_def)
    moreover have "\<forall>c\<in>set cs. apart (?a, n) c"
      using cs(3) within_apart [of "(new, psize)" _ ?a n] n(1) ps by (simp add: pool_data_size_def pool_size_def)
    ultimately have "pool_rep m5 pool (bs @ [new]) psize ((?a, n) # cs)" using cs(1) unfolding pool_rep_def by simp
    then show ?thesis using run A(4,5) f by (intro disjI2 exI [of _ new] exI [of _ m5]) auto
  qed
qed

section \<open>Allocation\<close>

lemma pool_rep_cong:
  assumes R: "pool_rep m pool bs psize cs" and r: "regions m' = regions m"
    and f: "\<And>b. d_last (pools m' b) = d_last (pools m b)" "\<And>b. d_end (pools m' b) = d_end (pools m b)"
      "\<And>b. d_next (pools m' b) = d_next (pools m b)" "pmax (pools m' pool) = pmax (pools m pool)"
      "current (pools m' pool) = current (pools m pool)"
  shows "pool_rep m' pool bs psize cs"
proof -
  have "block_ok m' psize b \<longleftrightarrow> block_ok m psize b" for b by (simp add: block_ok_def f r)
  moreover have "linked_pools m' pool bs \<longleftrightarrow> linked_pools m pool bs" using linked_pools_cong [of bs m' m] f(3) by simp
  moreover have "placed_piece m' pool bs = placed_piece m pool bs" by (simp add: fun_eq_iff placed_piece_def in_block_def f r)
  ultimately show ?thesis using R by (simp add: pool_rep_def pool_ok_def f r)
qed

lemma small_run:
  assumes R: "pool_rep m pool bs psize cs" and al: "alloc_ok alloc" and n: "0 \<le> n" "n \<le> pmax (pools m pool)"
  shows "\<exists>a m'. palloc_small aligned alloc pool n m = Some (a, m') \<and> (a = 0 \<and> m' = m \<or>
    a \<noteq> 0 \<and> (aligned \<longrightarrow> 8 dvd a) \<and> (\<exists>bs'. pool_rep m' pool bs' psize ((a, n) # cs)) \<and>
    pmax (pools m' pool) = pmax (pools m pool) \<and> pbytes m' = pbytes m)"
proof -
  have P: "pool_ok m pool bs psize" using R by (simp add: pool_rep_def)
  note D = pool_okD [OF P]
  let ?c = "current (pools m pool)"
  obtain xs ys where cs: "bs = xs @ ?c # ys" "linked_pools m ?c (?c # ys)" by (rule current_suffix [OF P])
  have "\<forall>b\<in>set (?c # ys). block_ok m psize b" using cs(1) D(6) by simp
  from bump_run [OF cs(2) _ this D(7), of aligned n]
  consider "bump_loop aligned ?c n m = Some (0, m)"
    | b a where "b \<in> set bs" "d_last (pools m b) \<le> a" "a + n \<le> d_end (pools m b)" "a \<noteq> 0" "aligned \<longrightarrow> 8 dvd a"
      "bump_loop aligned ?c n m = Some (a, put_pool b (\<lambda>b. b\<lparr>d_last := a + n\<rparr>) m)"
    using cs(1) by auto
  then show ?thesis
  proof cases
    case 1
    show ?thesis
      using block_run [OF R al n] 1 by (fastforce simp: palloc_small_def pool_data_size_def)
  next
    case 2
    then show ?thesis using cut_rep [OF R 2(1,2) n(1) 2(3)] by (auto simp: palloc_small_def)
  qed
qed

lemma freed_rep:
  assumes R: "pool_rep m pool bs psize ((p, n) # cs)" and n: "0 < n" and p: "(p, n) \<in> regions m" "p \<notin> set bs"
  shows "pool_rep (sys_free p m) pool bs psize cs"
proof -
  have P: "pool_ok m pool bs psize" using R by (simp add: pool_rep_def)
  note D = pool_okD [OF P]
  have "block_ok (sys_free p m) psize b" if "b \<in> set bs" for b
    using D(6) [OF that] that p(2) by (auto simp: block_ok_def sys_free_def)
  moreover have "linked_pools (sys_free p m) pool bs" using D(3) linked_pools_cong [of bs "sys_free p m" m pool] by (simp add: sys_free_def)
  ultimately have "pool_ok (sys_free p m) pool bs psize"
    using D unfolding pool_ok_def by (simp add: sys_free_def)
  moreover have "placed_piece (sys_free p m) pool bs c" if "c \<in> set cs" for c
  proof -
    have "placed_piece m pool bs c" "apart (p, n) c" using R that by (simp_all add: pool_rep_def list_all_iff)
    then show ?thesis using n by (auto simp: placed_piece_def in_block_def sys_free_def apart_def)
  qed
  ultimately show ?thesis using R by (simp add: pool_rep_def list_all_iff)
qed

lemma pool_rep_swap: "pool_rep m pool bs psize (c # d # cs) \<Longrightarrow> pool_rep m pool bs psize (d # c # cs)"
  using apart_commute by (auto simp: pool_rep_def)

lemma put_large_simps [simp]:
  "pools (put_large l f m) = pools m" "regions (put_large l f m) = regions m" "pbytes (put_large l f m) = pbytes m"
  by (simp_all add: put_large_def)

lemma large_run:
  assumes R: "pool_rep m pool bs psize cs" and al: "alloc_ok alloc" and n: "0 < n" and l: "pool_large_size \<le> pmax (pools m pool)"
  shows "\<exists>p m' bs'. etdb_palloc_large alloc pool n m = Some (p, m') \<and> pmax (pools m' pool) = pmax (pools m pool) \<and> pbytes m' = pbytes m \<and>
    (p = 0 \<and> pool_rep m' pool bs' psize cs \<or> p \<noteq> 0 \<and> (\<exists>cs'. pool_rep m' pool bs' psize ((p, n) # cs' @ cs) \<and> list_all (\<lambda>c. 0 < snd c) cs'))"
proof -
  obtain p m1 where e: "sys_alloc alloc n m = (p, m1)" by fastforce
  show ?thesis
  proof (cases "p = 0")
    case True
    then have "m1 = m" using e by (auto simp: sys_alloc_def Let_def split: if_splits)
    then have "etdb_palloc_large alloc pool n m = Some (0, m)"
      using e True by (subst etdb_palloc_large.simps) simp
    then show ?thesis using R by auto
  next
    case False
    note A = sys_alloc_rep [OF R al n e False]
    have m1: "pools m1 = pools m" "(p, n) \<in> regions m1" "pbytes m1 = pbytes m" using A(2) by simp_all
    let ?u = "unused_large 0 (large (pools m1 pool)) m1"
    show ?thesis
    proof (cases "?u = 0")
      case u: False
      then have "etdb_palloc_large alloc pool n m = Some (p, put_large ?u (\<lambda>e. e\<lparr>l_alloc := p\<rparr>) m1)"
        using e False by (subst etdb_palloc_large.simps) simp
      moreover have "pool_rep (put_large ?u (\<lambda>e. e\<lparr>l_alloc := p\<rparr>) m1) pool bs psize ((p, n) # [] @ cs)"
        using pool_rep_cong [OF A(1)] by simp
      then show ?thesis
        using calculation False m1(1,3)
        by (intro exI [of _ p] exI [of _ "put_large ?u (\<lambda>e. e\<lparr>l_alloc := p\<rparr>) m1"] exI [of _ bs])
          (auto intro!: exI [of _ "[]"])
    next
      case u: True
      have l0: "0 \<le> pool_large_size" "pool_large_size \<le> pmax (pools m1 pool)" using l m1(1) by (simp_all add: pool_large_size_def)
      obtain q m2 where S: "palloc_small True alloc pool pool_large_size m1 = Some (q, m2)"
        "q = 0 \<and> m2 = m1 \<or> q \<noteq> 0 \<and> (\<exists>bs'. pool_rep m2 pool bs' psize ((q, pool_large_size) # (p, n) # cs)) \<and>
          pmax (pools m2 pool) = pmax (pools m1 pool) \<and> pbytes m2 = pbytes m1"
        using small_run [OF A(1) al l0, of True] by blast
      have run: "etdb_palloc_large alloc pool n m = (if q = 0 then Some (0, sys_free p m2)
          else let m' = put_large q (\<lambda>_. \<lparr>l_next = large (pools m2 pool), l_alloc = p\<rparr>) m2
               in Some (p, put_pool pool (\<lambda>b. b\<lparr>large := q\<rparr>) m'))"
        using e False u l0(2) S(1) by (subst etdb_palloc_large.simps) (simp add: Let_def)
      show ?thesis
      proof (cases "q = 0")
        case True
        then have "pool_rep (sys_free p m2) pool bs psize cs"
          using freed_rep [OF A(1) n m1(2) A(3)] S(2) by simp
        then show ?thesis using run True S(2) m1(1,3) by (auto simp: sys_free_def)
      next
        case q: False
        then obtain bs' where b: "pool_rep m2 pool bs' psize ((q, pool_large_size) # (p, n) # cs)"
          "pmax (pools m2 pool) = pmax (pools m1 pool)" "pbytes m2 = pbytes m1" using S(2) by blast
        let ?m = "put_pool pool (\<lambda>b. b\<lparr>large := q\<rparr>) (put_large q (\<lambda>_. \<lparr>l_next = large (pools m2 pool), l_alloc = p\<rparr>) m2)"
        have "pool_rep ?m pool bs' psize ((p, n) # [(q, pool_large_size)] @ cs)"
          using pool_rep_cong [OF pool_rep_swap [OF b(1)], of ?m] by simp
        then have "\<exists>cs'. pool_rep ?m pool bs' psize ((p, n) # cs' @ cs) \<and> list_all (\<lambda>c. 0 < snd c) cs'"
          by (intro exI [of _ "[(q, pool_large_size)]"]) (simp add: pool_large_size_def)
        then show ?thesis using run q False b(2,3) m1(1,3)
          by (intro exI [of _ p] exI [of _ ?m] exI [of _ bs']) (auto simp: Let_def)
      qed
    qed
  qed
qed

lemma create_rep:
  assumes al: "alloc_ok alloc" and z: "pool_size \<le> psize" "8 dvd psize"
    and e: "etdb_create_pool alloc psize m = (p, m')" "p \<noteq> 0"
    and m: "finite (regions m)" "\<And>r s. r \<in> regions m \<Longrightarrow> s \<in> regions m \<Longrightarrow> r \<noteq> s \<Longrightarrow> apart r s"
  shows "pool_rep m' p [p] psize []" "pmax (pools m' p) = min (psize - pool_size) ETDB_MAX_ALLOC_FROM_POOL"
proof -
  have ps: "0 \<le> psize" using z by (simp add: pool_size_def)
  obtain m1 where a: "sys_alloc alloc psize m = (p, m1)" and
    m': "m' = put_pool p (\<lambda>_. \<lparr>d_last = p + pool_size, d_end = p + psize, d_next = 0, d_failed = 0,
          pmax = (if size_t (psize - pool_size) < ETDB_MAX_ALLOC_FROM_POOL then size_t (psize - pool_size)
            else ETDB_MAX_ALLOC_FROM_POOL), current = p, large = 0\<rparr>) m1"
    using e by (auto simp: etdb_create_pool_def Let_def split: prod.splits if_splits)
  have r: "alloc (regions m) psize = p" "regions m1 = insert (p, psize) (regions m)"
    using a e(2) by (auto simp: sys_alloc_def Let_def split: if_splits)
  note A = alloc_okD [OF al m(1) ps r(1) e(2)]
  have s: "size_t (psize - pool_size) = psize - pool_size" using z A by (intro size_t_small) (auto simp: pool_size_def)
  have d: "8 dvd p" using A(2) by (auto elim: dvd_trans [rotated])
  have "apart r s" if "r \<in> regions m'" "s \<in> regions m'" "r \<noteq> s" for r s
    using that m(2) A(4) apart_commute [OF A(4)] unfolding m' by (cases "r = (p, psize)"; cases "s = (p, psize)") (simp_all add: r(2))
  then show "pool_rep m' p [p] psize []"
    using A(1,3) d z m(1) e(2) s r(2)
    by (simp add: m' pool_rep_def pool_ok_def block_ok_def header_def pool_size_def pool_data_size_def)
  show "pmax (pools m' p) = min (psize - pool_size) ETDB_MAX_ALLOC_FROM_POOL" by (simp add: m' s)
qed

text \<open>An allocator to run the operations with: it puts each region behind all others.\<close>

definition example_sysalloc :: sysalloc where
  "example_sysalloc R n =
     (let e = Max (insert 16 ((\<lambda>r. fst r + snd r) ` R)); p = 16 * ((e + 15) div 16)
      in if p + n < 2 ^ 63 then p else 0)"

lemma example_sysalloc: "alloc_ok example_sysalloc"
  unfolding alloc_ok_def
proof (intro allI impI)
  fix R :: "region set" and n :: int
  assume f: "finite R" "0 \<le> n"
  let ?e = "Max (insert 16 ((\<lambda>r. fst r + snd r) ` R))"
  have e: "16 \<le> ?e" "\<And>r. r \<in> R \<Longrightarrow> fst r + snd r \<le> ?e" using f by (auto intro: Max_ge)
  define p where "p = 16 * ((?e + 15) div 16)"
  have p: "?e \<le> p" unfolding p_def by linarith
  have x: "example_sysalloc R n = (if p + n < 2 ^ 63 then p else 0)" by (simp only: example_sysalloc_def Let_def p_def)
  have "apart (p, n) r" if "r \<in> R" for r using e(2) [OF that] p unfolding apart_def by (intro disjI2) simp
  moreover have "16 dvd p" "0 < p" using p e(1) by (simp_all add: p_def)
  ultimately show "example_sysalloc R n = 0 \<or> 0 < example_sysalloc R n \<and> 16 dvd example_sysalloc R n \<and>
      example_sysalloc R n + n < 2 ^ 63 \<and> (\<forall>r\<in>R. apart (example_sysalloc R n, n) r)"
    unfolding x by (cases "p + n < 2 ^ 63") simp_all
qed

definition empty_pmem :: pmem where
  "empty_pmem = \<lparr>pools = undefined, larges = undefined, pbytes = \<lambda>_. 0, regions = {}\<rparr>"

lemma palloc_run:
  assumes "pool_rep m pool bs psize cs" "alloc_ok alloc" "0 \<le> n" "pool_large_size \<le> pmax (pools m pool)"
  shows "\<exists>p m' bs'. etdb_palloc alloc pool n m = Some (p, m') \<and> pmax (pools m' pool) = pmax (pools m pool) \<and>
    pbytes m' = pbytes m \<and> (if p = 0 then pool_rep m' pool bs' psize cs
     else (n \<le> pmax (pools m pool) \<longrightarrow> 8 dvd p) \<and> (\<exists>cs'. pool_rep m' pool bs' psize ((p, n) # cs' @ cs) \<and> list_all (\<lambda>c. 0 < snd c) cs'))"
proof (cases "n \<le> pmax (pools m pool)")
  case True
  then obtain a m' bs' where "palloc_small True alloc pool n m = Some (a, m')" "pmax (pools m' pool) = pmax (pools m pool)"
    "pbytes m' = pbytes m" "if a = 0 then pool_rep m' pool bs' psize cs else 8 dvd a \<and> pool_rep m' pool bs' psize ((a, n) # cs)"
    using small_run [OF assms(1-3), of True] assms(1) by fastforce
  then show ?thesis using True unfolding etdb_palloc_def
    by (intro exI [of _ a] exI [of _ m'] exI [of _ bs']) (auto intro!: exI [of _ "[]"])
next
  case False
  then have "0 < n" using assms(4) by (simp add: pool_large_size_def)
  from large_run [OF assms(1,2) this assms(4)] show ?thesis using False unfolding etdb_palloc_def by auto
qed

section \<open>Properties\<close>

text \<open>
  C23: \<open>etdb_palloc\<close> returns, and unless the system has no memory left the piece it hands out has the
  size asked for, is aligned when it is cut from a block, lies inside of one block behind its header
  or is a region of its own, and overlaps no piece handed out before; a failure leaves the pieces alone.
\<close>

theorem etdb_palloc_bounds:
  assumes "pool_rep m pool bs psize cs" "alloc_ok alloc" "0 \<le> n" "pool_large_size \<le> pmax (pools m pool)"
  shows "\<exists>p m' bs'. etdb_palloc alloc pool n m = Some (p, m') \<and>
    (if p = 0 then pool_rep m' pool bs' psize cs
     else (n \<le> pmax (pools m pool) \<longrightarrow> 8 dvd p) \<and> (\<exists>cs'. pool_rep m' pool bs' psize ((p, n) # cs' @ cs)))"
  using palloc_run [OF assms] by (fastforce split: if_splits)

theorem etdb_palloc_bounds_witness:
  "\<exists>p m. etdb_create_pool example_sysalloc 512 empty_pmem = (16, m) \<and>
     (\<exists>p' m' bs' cs'. etdb_palloc example_sysalloc 16 5 m = Some (p', m'))"
proof -
  obtain m where e: "etdb_create_pool example_sysalloc 512 empty_pmem = (16, m)"
    by (simp add: etdb_create_pool_def sys_alloc_def example_sysalloc_def empty_pmem_def Let_def)
  have "pool_rep m 16 [16] 512 []" "pmax (pools m 16) = min (512 - pool_size) ETDB_MAX_ALLOC_FROM_POOL"
    by (rule create_rep [OF example_sysalloc _ _ e]; simp add: pool_size_def empty_pmem_def)+
  from etdb_palloc_bounds [OF this(1) example_sysalloc, of 5] this(2) e show ?thesis
    by (auto simp: pool_size_def pool_large_size_def ETDB_MAX_ALLOC_FROM_POOL_def)
qed

text \<open>
  C40: when the end of a block is not aligned, a piece may be cut beyond it: if aligning the pointer
  of the current block passes the end, the difference of the two is a huge \<open>size_t\<close>, every size
  fits, and \<open>etdb_palloc\<close> hands out a piece that begins behind the end of the block.
\<close>

theorem etdb_palloc_past_end:
  assumes "0 \<le> n" "n \<le> pmax (pools m pool)" "pmax (pools m pool) < 2 ^ 63"
    "b = current (pools m pool)" "0 \<le> d_last (pools m b)" "d_last (pools m b) \<le> d_end (pools m b)"
    "d_end (pools m b) < 2 ^ 62" "d_end (pools m b) < etdb_align_ptr (d_last (pools m b)) ETDB_ALIGNMENT"
  shows "\<exists>a m'. etdb_palloc alloc pool n m = Some (a, m') \<and> d_end (pools m b) < a"
proof -
  let ?a = "etdb_align_ptr (d_last (pools m b)) ETDB_ALIGNMENT" and ?e = "d_end (pools m b)"
  have "?a \<le> d_last (pools m b) + 7" using align_8 [of "d_last (pools m b)"] assms(5-7) by simp
  then have "size_t (?e - ?a) = ?e - ?a + 2 ^ 64"
    using mod_pos_pos_trivial [of "?e - ?a + 2 ^ 64" "2 ^ 64"] assms(5-8) by (simp add: size_t_def)
  then have "n \<le> size_t (?e - ?a)" using \<open>?a \<le> d_last (pools m b) + 7\<close> assms(2,3,5,6) by simp
  then have "bump_loop True b n m = Some (?a, put_pool b (\<lambda>b. b\<lparr>d_last := ?a + n\<rparr>) m)"
    by (subst bump_loop.simps) (simp add: Let_def)
  moreover have "?a \<noteq> 0" using assms(5,6,8) by linarith
  ultimately show ?thesis using assms(2,4,8) by (simp add: etdb_palloc_def palloc_small_def)
qed

theorem etdb_palloc_past_end_witness:
  "\<exists>m m1 m2 a. etdb_create_pool example_sysalloc 100 empty_pmem = (16, m) \<and>
     etdb_palloc example_sysalloc 16 41 m = Some (72, m1) \<and>
     etdb_palloc example_sysalloc 16 8 m1 = Some (a, m2) \<and> 16 + 100 < a"
proof -
  obtain m where e: "etdb_create_pool example_sysalloc 100 empty_pmem = (16, m)"
    and m: "pools m 16 = \<lparr>d_last = 72, d_end = 116, d_next = 0, d_failed = 0, pmax = 44, current = 16, large = 0\<rparr>"
    by (simp add: etdb_create_pool_def sys_alloc_def example_sysalloc_def empty_pmem_def Let_def size_t_def
        pool_size_def ETDB_MAX_ALLOC_FROM_POOL_def)
  let ?m1 = "put_pool 16 (\<lambda>b. b\<lparr>d_last := 113\<rparr>) m"
  have "bump_loop True 16 41 m = Some (72, ?m1)"
    by (subst bump_loop.simps) (simp add: m align_8 size_t_def)
  then have e1: "etdb_palloc example_sysalloc 16 41 m = Some (72, ?m1)" by (simp add: etdb_palloc_def palloc_small_def m)
  have "\<exists>a m'. etdb_palloc example_sysalloc 16 8 ?m1 = Some (a, m') \<and> d_end (pools ?m1 16) < a"
    by (rule etdb_palloc_past_end) (simp_all add: m align_8)
  then show ?thesis using e e1 by (auto simp: m)
qed

end
