(* ===== verification/Stack.thy ===== *)
theory Stack
  imports Palloc_Rep
begin

text \<open>
  The stack of \<open>src/store/etdb_stack.c\<close>: elements of one size in a piece of a pool. A full stack
  grows in place when its piece is the last of the pool's first block, and moves to a piece of twice
  the size otherwise. \<open>push\<close> returns the address of the new element, which the caller fills.
\<close>

section \<open>Operations\<close>

record etdb_stack =
  spool :: int
  nalloc :: int
  nelts :: int
  ssize :: int
  elts :: int

definition etdb_stack_init :: "sysalloc \<Rightarrow> int \<Rightarrow> int \<Rightarrow> int \<Rightarrow> pmem \<Rightarrow> (etdb_stack \<times> pmem) option" where
  "etdb_stack_init alloc pool n sz m =
     map_option (\<lambda>(p, m). (\<lparr>spool = pool, nalloc = n, nelts = 0, ssize = sz, elts = p\<rparr>, m))
       (etdb_palloc alloc pool (size_t (n * sz)) m)"

definition memcpy :: "int \<Rightarrow> int \<Rightarrow> int \<Rightarrow> pmem \<Rightarrow> pmem" where
  "memcpy dst src n m = m\<lparr>pbytes := (\<lambda>a. if dst \<le> a \<and> a < dst + n then pbytes m (src + (a - dst)) else pbytes m a)\<rparr>"

text \<open>The room for one more element, \<open>None\<close> in the second place when there is no memory.\<close>

definition stack_grow :: "sysalloc \<Rightarrow> etdb_stack \<Rightarrow> pmem \<Rightarrow> (etdb_stack option \<times> pmem) option" where
  "stack_grow alloc st m =
     (let sz = size_t (ssize st * nalloc st); p = spool st
      in if elts st + sz = d_last (pools m p) \<and> d_last (pools m p) + ssize st \<le> d_end (pools m p)
         then Some (Some (st\<lparr>nalloc := nalloc st + 1\<rparr>), put_pool p (\<lambda>b. b\<lparr>d_last := d_last b + ssize st\<rparr>) m)
         else map_option (\<lambda>(new, m).
             if new = 0 then (None, m)
             else (Some (st\<lparr>elts := new, nalloc := size_t (nalloc st * 2)\<rparr>), memcpy new (elts st) sz m))
           (etdb_palloc alloc p (size_t (2 * sz)) m))"

definition etdb_stack_push :: "sysalloc \<Rightarrow> etdb_stack \<Rightarrow> pmem \<Rightarrow> (int \<times> etdb_stack \<times> pmem) option" where
  "etdb_stack_push alloc st m =
     map_option (\<lambda>(g, m). case g of
         None \<Rightarrow> (0, st, m)
       | Some st \<Rightarrow> (elts st + nelts st * ssize st, st\<lparr>nelts := nelts st + 1\<rparr>, m))
       (if nelts st = nalloc st then stack_grow alloc st m else Some (Some st, m))"

definition etdb_stack_pop :: "etdb_stack \<Rightarrow> int \<times> etdb_stack" where
  "etdb_stack_pop st =
     (let st = st\<lparr>nelts := size_t (nelts st - 1)\<rparr> in (elts st + nelts st * ssize st, st))"

definition etdb_stack_top :: "etdb_stack \<Rightarrow> int" where
  "etdb_stack_top st = elts st + size_t (nelts st - 1) * ssize st"

definition etdb_stack_empty :: "etdb_stack \<Rightarrow> bool" where
  "etdb_stack_empty st \<longleftrightarrow> nelts st = 0"

definition etdb_stack_size :: "etdb_stack \<Rightarrow> int" where
  "etdb_stack_size st = nelts st"

section \<open>Contents\<close>

text \<open>The bytes from an address, and the caller's writing of an element.\<close>

definition bytes_at :: "pmem \<Rightarrow> int \<Rightarrow> nat \<Rightarrow> bytes" where
  "bytes_at m a n = map (\<lambda>i. pbytes m (a + int i)) [0..<n]"

definition write_at :: "int \<Rightarrow> bytes \<Rightarrow> pmem \<Rightarrow> pmem" where
  "write_at a xs m = m\<lparr>pbytes := (\<lambda>b. if a \<le> b \<and> b < a + int (length xs) then xs ! nat (b - a) else pbytes m b)\<rparr>"

lemma length_bytes_at [simp]: "length (bytes_at m a n) = n"
  by (simp add: bytes_at_def)

lemma bytes_at_add: "bytes_at m a (j + k) = bytes_at m a j @ bytes_at m (a + int j) k"
  by (induction k) (simp_all add: bytes_at_def add.assoc)

lemma bytes_at_cong: "(\<And>b. a \<le> b \<Longrightarrow> b < a + int n \<Longrightarrow> pbytes m' b = pbytes m b) \<Longrightarrow> bytes_at m' a n = bytes_at m a n"
  by (simp add: bytes_at_def)

lemma bytes_at_write: "bytes_at (write_at a xs m) a (length xs) = xs"
  by (rule nth_equalityI) (simp_all add: bytes_at_def write_at_def)

lemma bytes_at_memcpy: "bytes_at (memcpy dst src (int n) m) dst n = bytes_at m src n"
  by (simp add: bytes_at_def memcpy_def)

definition stack_pieces :: "pmem \<Rightarrow> etdb_stack \<Rightarrow> int list \<Rightarrow> int \<Rightarrow> region list \<Rightarrow> bool" where
  "stack_pieces m st bs psize cs \<longleftrightarrow> pool_rep m (spool st) bs psize ((elts st, nalloc st * ssize st) # cs) \<and>
     list_all (\<lambda>c. 0 < snd c) cs \<and> pool_large_size \<le> pmax (pools m (spool st)) \<and> 0 < ssize st \<and> 0 < nalloc st \<and>
     nalloc st * ssize st < 2 ^ 63"

text \<open>The elements of a stack, from the bottom.\<close>

definition stack_rep :: "pmem \<Rightarrow> etdb_stack \<Rightarrow> bytes list \<Rightarrow> bool" where
  "stack_rep m st xs \<longleftrightarrow> (\<exists>bs psize cs. stack_pieces m st bs psize cs) \<and> 0 \<le> elts st \<and>
     nelts st = int (length xs) \<and> nelts st \<le> nalloc st \<and> list_all (\<lambda>x. int (length x) = ssize st) xs \<and>
     bytes_at m (elts st) (length (concat xs)) = concat xs"

lemma stack_piecesD:
  assumes "stack_pieces m st bs psize cs"
  shows "pool_rep m (spool st) bs psize ((elts st, nalloc st * ssize st) # cs)" "list_all (\<lambda>c. 0 < snd c) cs"
    "pool_large_size \<le> pmax (pools m (spool st))" "0 < ssize st" "0 < nalloc st" "nalloc st * ssize st < 2 ^ 63"
    "0 < nalloc st * ssize st"
  using assms by (simp_all add: stack_pieces_def)

lemma nalloc_bound:
  assumes "stack_pieces m st bs psize cs"
  shows "nalloc st < 2 ^ 63"
proof -
  note D = stack_piecesD [OF assms]
  have "nalloc st * 1 \<le> nalloc st * ssize st" by (rule mult_left_mono) (use D(4,5) in simp_all)
  then show ?thesis using D(6) by linarith
qed

lemma concat_bytes: "list_all (\<lambda>x. int (length x) = n) xs \<Longrightarrow> int (length (concat xs)) = int (length xs) * n"
  by (induction xs) (simp_all add: algebra_simps)

section \<open>Growth in place\<close>

lemma end_in_block:
  assumes R: "pool_rep m pool bs psize ((e, n) # cs)" and n: "0 < n" and last: "e + n = d_last (pools m pool)"
  shows "in_block m pool pool (e, n)"
proof -
  have P: "pool_ok m pool bs psize" using R by (simp add: pool_rep_def)
  note D = pool_okD [OF P]
  have B: "block_ok m psize pool" by (rule D(6) [OF D(12)])
  have h: "pool < d_last (pools m pool)" using D(9) by (simp add: header_def pool_size_def)
  have out: "\<not> apart (pool, psize) (b, k)" if "b \<le> e" "e + n \<le> b + k" "b < e + n" for b k
    using that B h last n by (auto simp: apart_def block_ok_def)
  consider b where "b \<in> set bs" "in_block m pool b (e, n)" | "(e, n) \<in> regions m" "e \<notin> set bs"
    using R by (auto simp: pool_rep_def placed_piece_def)
  then show ?thesis
  proof cases
    case 1
    have Bb: "block_ok m psize b" by (rule D(6) [OF 1(1)])
    have "\<not> apart (pool, psize) (b, psize)"
      using in_block_region [OF Bb 1(2)] n by (intro out) auto
    then have "b = pool" using D(11) [of "(pool, psize)" "(b, psize)"] B Bb by (auto simp: block_ok_def)
    then show ?thesis using 1(2) by simp
  next
    case 2
    have "(pool, psize) \<noteq> (e, n)" using 2(2) D(12) by auto
    then have "apart (pool, psize) (e, n)" using D(11) [OF _ 2(1)] B by (simp add: block_ok_def)
    moreover have "\<not> apart (pool, psize) (e, n)" by (rule out) (use n in auto)
    ultimately show ?thesis by simp
  qed
qed

lemma extend_rep:
  assumes R: "pool_rep m pool bs psize ((e, n) # cs)" and n: "0 < n" "0 < k" and last: "e + n = d_last (pools m pool)"
    and room: "d_last (pools m pool) + k \<le> d_end (pools m pool)" and pos: "list_all (\<lambda>c. 0 < snd c) cs"
  shows "pool_rep (put_pool pool (\<lambda>b. b\<lparr>d_last := d_last b + k\<rparr>) m) pool bs psize ((e, n + k) # cs)"
proof -
  let ?m = "put_pool pool (\<lambda>b. b\<lparr>d_last := d_last b + k\<rparr>) m"
  have P: "pool \<in> set bs" using R pool_okD(12) unfolding pool_rep_def by blast
  have "?m = put_pool pool (\<lambda>b. b\<lparr>d_last := d_last (pools m pool) + k\<rparr>) m" by (simp add: put_pool_def)
  then have C: "pool_rep ?m pool bs psize ((d_last (pools m pool), k) # (e, n) # cs)"
    using cut_rep [OF R P, of "d_last (pools m pool)" k] n(2) room by simp
  have "in_block ?m pool pool (e, n + k)"
    using end_in_block [OF R n(1) last] n last by (simp add: in_block_def)
  then have "placed_piece ?m pool bs (e, n + k)" using P by (auto simp: placed_piece_def)
  moreover have "apart (e, n + k) c" if "c \<in> set cs" for c
  proof -
    have "apart (d_last (pools m pool), k) c" "apart (e, n) c" using C that by (simp_all add: pool_rep_def)
    moreover have "0 < snd c" using pos that by (simp add: list_all_iff)
    ultimately show ?thesis using last by (auto simp: apart_def)
  qed
  ultimately show ?thesis using C by (simp add: pool_rep_def)
qed

section \<open>Growth\<close>

lemma piece_range:
  assumes "pool_rep m pool bs psize ((a, n) # cs)"
  shows "0 < a" "a + n < 2 ^ 63"
proof -
  note D = pool_okD [of m pool bs psize]
  consider b where "b \<in> set bs" "in_block m pool b (a, n)" | "0 < a \<and> a + n < 2 ^ 63"
    using assms by (auto simp: pool_rep_def placed_piece_def)
  then have "0 < a \<and> a + n < 2 ^ 63"
  proof cases
    case 1
    then show ?thesis using D(6) [of b] assms
      by (auto simp: pool_rep_def in_block_def block_ok_def header_def pool_size_def pool_data_size_def split: if_splits)
  qed
  then show "0 < a" "a + n < 2 ^ 63" by blast+
qed

lemma memcpy_rep: "pool_rep m pool bs psize cs \<Longrightarrow> pool_rep (memcpy d s n m) pool bs psize cs"
  "pools (memcpy d s n m) = pools m"
  by (auto simp: memcpy_def intro: pool_rep_cong)

lemma grow_spec:
  assumes S: "stack_pieces m st bs psize cs" and al: "alloc_ok alloc" and e0: "0 \<le> elts st"
    and u: "nelts st = nalloc st" and s: "bytes_at m (elts st) k = xs" "int k = nalloc st * ssize st"
  shows "\<exists>g m'. stack_grow alloc st m = Some (g, m') \<and> (case g of None \<Rightarrow> pbytes m' = pbytes m \<and> (\<exists>bs'. stack_pieces m' st bs' psize cs)
    | Some st' \<Rightarrow> \<exists>bs' cs'. stack_pieces m' st' bs' psize cs' \<and> nalloc st < nalloc st' \<and> bytes_at m' (elts st') k = xs \<and>
        nelts st' = nelts st \<and> ssize st' = ssize st \<and> 0 \<le> elts st')"
proof -
  note D = stack_piecesD [OF S]
  let ?n = "nalloc st * ssize st" and ?p = "spool st"
  have sz: "size_t (ssize st * nalloc st) = ?n" "size_t (2 * ?n) = 2 * ?n" "size_t (nalloc st * 2) = nalloc st * 2"
  proof -
    show "size_t (ssize st * nalloc st) = ?n" "size_t (2 * ?n) = 2 * ?n" "size_t (nalloc st * 2) = nalloc st * 2"
      using D(5-7) nalloc_bound [OF S] by (auto intro!: size_t_small simp: mult.commute)
  qed
  show ?thesis
  proof (cases "elts st + ?n = d_last (pools m ?p) \<and> d_last (pools m ?p) + ssize st \<le> d_end (pools m ?p)")
    case True
    let ?st = "st\<lparr>nalloc := nalloc st + 1\<rparr>" and ?m = "put_pool ?p (\<lambda>b. b\<lparr>d_last := d_last b + ssize st\<rparr>) m"
    have "pool_rep ?m ?p bs psize ((elts st, ?n + ssize st) # cs)"
      by (rule extend_rep [OF D(1,7,4) _ _ D(2)]) (use True in auto)
    moreover have "block_ok m psize ?p" using D(1) pool_okD(6,12) unfolding pool_rep_def by blast
    then have "elts st + ?n + ssize st < 2 ^ 63" using True by (auto simp: block_ok_def)
    ultimately have "stack_pieces ?m ?st bs psize cs"
      using D(2-6) e0 by (auto simp: stack_pieces_def algebra_simps)
    moreover have "bytes_at ?m (elts st) k = xs" using s(1) bytes_at_cong [of "elts st" k ?m m] by simp
    ultimately show ?thesis using True e0 by (auto simp: stack_grow_def sz Let_def)
  next
    case False
    obtain p m1 bs' where P: "etdb_palloc alloc ?p (2 * ?n) m = Some (p, m1)" "pmax (pools m1 ?p) = pmax (pools m ?p)"
      "pbytes m1 = pbytes m" "if p = 0 then pool_rep m1 ?p bs' psize ((elts st, ?n) # cs)
       else (2 * ?n \<le> pmax (pools m ?p) \<longrightarrow> 8 dvd p) \<and> (\<exists>cs'. pool_rep m1 ?p bs' psize ((p, 2 * ?n) # cs' @ (elts st, ?n) # cs) \<and> list_all (\<lambda>c. 0 < snd c) cs')"
      using palloc_run [OF D(1) al _ D(3), of "2 * ?n"] D(7) by auto
    have g: "stack_grow alloc st m = Some (if p = 0 then (None, m1)
        else (Some (st\<lparr>elts := p, nalloc := nalloc st * 2\<rparr>), memcpy p (elts st) ?n m1))"
      using False P(1) by (auto simp: stack_grow_def sz Let_def)
    show ?thesis
    proof (cases "p = 0")
      case True
      then have "stack_pieces m1 st bs' psize cs" using P(2,4) D(2-6) by (simp add: stack_pieces_def)
      then show ?thesis using g True P(3) by auto
    next
      case p: False
      then obtain cs' where c: "pool_rep m1 ?p bs' psize ((p, 2 * ?n) # cs' @ (elts st, ?n) # cs)" "list_all (\<lambda>c. 0 < snd c) cs'"
        using P(4) by auto
      let ?st = "st\<lparr>elts := p, nalloc := nalloc st * 2\<rparr>" and ?m = "memcpy p (elts st) ?n m1"
      have "stack_pieces ?m ?st bs' psize (cs' @ (elts st, ?n) # cs)"
        using memcpy_rep(1) [OF c(1)] memcpy_rep(2) piece_range [OF c(1)] D(2-5,7) P(2) c(2) by (auto simp: stack_pieces_def algebra_simps)
      moreover have "bytes_at ?m p k = xs"
        using bytes_at_memcpy [of p "elts st" k m1] s bytes_at_cong [of "elts st" k m1 m] P(3) by simp
      moreover have "0 \<le> p" using piece_range(1) [OF c(1)] by simp
      ultimately show ?thesis using g p D(5) by (auto intro!: exI [of _ "cs' @ (elts st, ?n) # cs"])
    qed
  qed
qed

section \<open>Properties\<close>

lemma write_rep: "stack_pieces m st bs psize cs \<Longrightarrow> stack_pieces (write_at a x m) st bs psize cs"
  by (auto simp: stack_pieces_def write_at_def intro: pool_rep_cong)

lemma push_spec:
  assumes S: "stack_rep m st xs" and al: "alloc_ok alloc" and x: "int (length x) = ssize st"
  shows "\<exists>e st' m'. etdb_stack_push alloc st m = Some (e, st', m') \<and>
    (if e = 0 then stack_rep m' st' xs else stack_rep (write_at e x m') st' (xs @ [x]))"
proof -
  obtain bs psize cs where P: "stack_pieces m st bs psize cs" and R: "0 \<le> elts st" "nelts st = int (length xs)"
    "nelts st \<le> nalloc st" "list_all (\<lambda>x. int (length x) = ssize st) xs" "bytes_at m (elts st) (length (concat xs)) = concat xs"
    using S by (auto simp: stack_rep_def)
  note D = stack_piecesD [OF P]
  note len = concat_bytes [OF R(4)]
  have finish: "stack_rep (write_at (elts st' + nelts st * ssize st) x m') (st'\<lparr>nelts := nelts st + 1\<rparr>) (xs @ [x])"
    if "stack_pieces m' st' bs' psize cs'" "nelts st < nalloc st'" "bytes_at m' (elts st') (length (concat xs)) = concat xs"
      "ssize st' = ssize st" "0 \<le> elts st'" for m' st' bs' cs'
  proof -
    let ?e = "elts st' + nelts st * ssize st"
    have "stack_pieces (write_at ?e x m') (st'\<lparr>nelts := nelts st + 1\<rparr>) bs' psize cs'"
      using write_rep [OF that(1)] by (simp add: stack_pieces_def)
    moreover have "bytes_at (write_at ?e x m') (elts st') (length (concat xs) + length x) = concat xs @ x"
    proof -
      have e: "elts st' + int (length (concat xs)) = ?e" using len R(2) by simp
      have "bytes_at (write_at ?e x m') (elts st') (length (concat xs)) = bytes_at m' (elts st') (length (concat xs))"
        by (rule bytes_at_cong) (use e in \<open>auto simp: write_at_def\<close>)
      then show ?thesis using bytes_at_write [of ?e x m'] e by (simp only: bytes_at_add that(3))
    qed
    ultimately show ?thesis
      using that(2,4,5) R(2,4) x unfolding stack_rep_def by auto
  qed
  show ?thesis
  proof (cases "nelts st = nalloc st")
    case False
    have "0 < elts st" using piece_range(1) [OF D(1)] .
    then have "elts st + nelts st * ssize st \<noteq> 0" using D(4) R(2) by (simp add: add_pos_nonneg less_imp_neq [symmetric])
    then show ?thesis using finish [OF P _ R(5) refl R(1)] R(3) False by (simp add: etdb_stack_push_def)
  next
    case True
    have k: "int (length (concat xs)) = nalloc st * ssize st" using len R(2) True by simp
    obtain g m' where G: "stack_grow alloc st m = Some (g, m')" "case g of None \<Rightarrow> pbytes m' = pbytes m \<and> (\<exists>bs'. stack_pieces m' st bs' psize cs)
      | Some st' \<Rightarrow> \<exists>bs' cs'. stack_pieces m' st' bs' psize cs' \<and> nalloc st < nalloc st' \<and>
          bytes_at m' (elts st') (length (concat xs)) = concat xs \<and> nelts st' = nelts st \<and> ssize st' = ssize st \<and> 0 \<le> elts st'"
      using grow_spec [OF P al R(1) True R(5) k] by blast
    show ?thesis
    proof (cases g)
      case None
      then have "stack_rep m' st xs"
        using G(2) R bytes_at_cong [of "elts st" "length (concat xs)" m' m] unfolding stack_rep_def by auto
      then show ?thesis using G(1) None True by (simp add: etdb_stack_push_def)
    next
      case (Some st')
      then obtain bs' cs' where s: "stack_pieces m' st' bs' psize cs'" "nalloc st < nalloc st'"
          "bytes_at m' (elts st') (length (concat xs)) = concat xs" "nelts st' = nelts st" "ssize st' = ssize st" "0 \<le> elts st'"
        using G(2) by auto
      have "0 < elts st'" using piece_range(1) [OF stack_piecesD(1) [OF s(1)]] .
      then have "elts st' + nelts st * ssize st \<noteq> 0" using D(4) R(2) by (simp add: add_pos_nonneg less_imp_neq [symmetric])
      moreover have "nelts st < nalloc st'" using s(2) True by simp
      ultimately show ?thesis using finish [OF s(1) _ s(3,5,6)] G(1) Some True s(4,5) by (simp add: etdb_stack_push_def)
    qed
  qed
qed

lemma top_spec:
  assumes S: "stack_rep m st (xs @ [x])"
  shows "bytes_at m (etdb_stack_top st) (length x) = x" "fst (etdb_stack_pop st) = etdb_stack_top st"
    "stack_rep m (snd (etdb_stack_pop st)) xs"
proof -
  obtain bs psize cs where P: "stack_pieces m st bs psize cs" and R: "0 \<le> elts st" "nelts st = int (length xs) + 1"
    "nelts st \<le> nalloc st" "list_all (\<lambda>x. int (length x) = ssize st) xs"
    "bytes_at m (elts st) (length (concat xs) + length x) = concat xs @ x"
    using S by (auto simp: stack_rep_def)
  note D = stack_piecesD [OF P]
  have n: "size_t (nelts st - 1) = int (length xs)" "size_t (int (length xs)) = int (length xs)"
    using R(2,3) nalloc_bound [OF P] by (simp_all add: size_t_small)
  have b: "bytes_at m (elts st) (length (concat xs)) = concat xs" "bytes_at m (elts st + int (length (concat xs))) (length x) = x"
    using R(5) by (simp_all add: bytes_at_add)
  then show "bytes_at m (etdb_stack_top st) (length x) = x"
    using concat_bytes [OF R(4)] by (simp add: etdb_stack_top_def n)
  show "fst (etdb_stack_pop st) = etdb_stack_top st" by (simp add: etdb_stack_pop_def etdb_stack_top_def Let_def)
  have "stack_pieces m (st\<lparr>nelts := int (length xs)\<rparr>) bs psize cs" using P by (simp add: stack_pieces_def)
  then show "stack_rep m (snd (etdb_stack_pop st)) xs"
    using R b(1) unfolding stack_rep_def by (auto simp: etdb_stack_pop_def n)
qed

text \<open>
  C28: the stack is a list of elements. A push returns, with room for one more element above the old
  ones, whether the stack grows in place, moves to a larger piece or has room left; when the system
  has no memory it answers 0 and leaves the elements alone. A top and a pop name the element pushed
  last, and the pop leaves the others.
\<close>

theorem etdb_stack_refines:
  assumes "stack_rep m st xs" "alloc_ok alloc" "int (length x) = ssize st"
  shows "(\<exists>e st' m'. etdb_stack_push alloc st m = Some (e, st', m') \<and>
      (if e = 0 then stack_rep m' st' xs else stack_rep (write_at e x m') st' (xs @ [x]))) \<and>
    (xs \<noteq> [] \<longrightarrow> bytes_at m (etdb_stack_top st) (length (last xs)) = last xs \<and>
      fst (etdb_stack_pop st) = etdb_stack_top st \<and> stack_rep m (snd (etdb_stack_pop st)) (butlast xs)) \<and>
    (etdb_stack_empty st \<longleftrightarrow> xs = []) \<and> etdb_stack_size st = int (length xs)"
proof (intro conjI impI)
  show "bytes_at m (etdb_stack_top st) (length (last xs)) = last xs" "fst (etdb_stack_pop st) = etdb_stack_top st"
    "stack_rep m (snd (etdb_stack_pop st)) (butlast xs)" if "xs \<noteq> []"
    using top_spec [of m st "butlast xs" "last xs"] assms(1) that by simp_all
qed (use push_spec [OF assms] assms(1) in \<open>auto simp: stack_rep_def etdb_stack_empty_def etdb_stack_size_def\<close>)

theorem etdb_stack_refines_witness:
  "\<exists>m st e st' m'. stack_rep m st [] \<and> etdb_stack_push example_sysalloc st m = Some (e, st', m')"
proof -
  obtain m where e: "etdb_create_pool example_sysalloc 512 empty_pmem = (16, m)"
    and m: "pools m 16 = \<lparr>d_last = 72, d_end = 528, d_next = 0, d_failed = 0, pmax = 456, current = 16, large = 0\<rparr>"
    by (simp add: etdb_create_pool_def sys_alloc_def example_sysalloc_def empty_pmem_def Let_def size_t_def
        pool_size_def ETDB_MAX_ALLOC_FROM_POOL_def)
  have "pool_rep m 16 [16] 512 []"
    by (rule create_rep(1) [OF example_sysalloc _ _ e]; simp add: pool_size_def empty_pmem_def)
  from cut_rep [OF this, of 16 72 4]
  have "pool_rep (put_pool 16 (\<lambda>b. b\<lparr>d_last := 76\<rparr>) m) 16 [16] 512 [(72, 4)]" by (simp add: m)
  then have "stack_rep (put_pool 16 (\<lambda>b. b\<lparr>d_last := 76\<rparr>) m) \<lparr>spool = 16, nalloc = 2, nelts = 0, ssize = 2, elts = 72\<rparr> []"
    unfolding stack_rep_def stack_pieces_def
    by (intro conjI exI [of _ "[16]"] exI [of _ 512] exI [of _ "[]"]) (simp_all add: m pool_large_size_def bytes_at_def)
  with etdb_stack_refines [OF this example_sysalloc, of "[1, 2]"] show ?thesis by fastforce
qed

end
