(* ===== verification/Lru.thy ===== *)
theory Lru
  imports Stack Queue_Heap "HOL-Library.Signed_Division"
begin

text \<open>
  The page cache of \<open>src/store/etdb_lru.c\<close>: nodes with two queue cells each, one in the bucket of
  the page's number and one in a queue ordered by use.

  \<^item> a node is 48 bytes: the cell of its bucket at offset 0, the cell of the use queue at offset 16,
    then the page number and the address of the page; nodes and pages are pieces of a pool;
  \<^item> \<open>rd\<close> stands for the file: the bytes that \<open>read\<close> transfers after \<open>lseek\<close> to an offset, fewer
    than asked for at the end of the file, and \<^term>\<open>None\<close> when one of the calls fails;
  \<^item> \<open>None\<close> as a result means that the code does not return: a write to a node at address 0, the
    remainder by an empty table, or a failure, which is logged as an error and so ends the process
    (\<open>etdb_log_print\<close>, theory \<open>Log\<close>).
\<close>

section \<open>Data\<close>

record lru_mem = qmem +
  lpage_id :: "addr \<Rightarrow> int"
  lpage_value :: "addr \<Rightarrow> int"
  page_heap :: pmem

text \<open>\<open>lru_head\<close> is the address of the node inside of the cache's own structure.\<close>

record etdb_lru =
  hash_head :: int
  lru_head :: int
  capacity :: int
  cache_size :: int
  hash_head_size :: int
  lpool :: int

definition ETDB_PAGE_SIZE :: int where "ETDB_PAGE_SIZE = 8192"
definition lru_node_size :: int where "lru_node_size = 48"
definition lru_offset :: int where "lru_offset = 16"

definition lru_link :: "addr \<Rightarrow> addr" where
  "lru_link n = n + lru_offset"

definition hash_bucket :: "etdb_lru \<Rightarrow> int \<Rightarrow> addr" where
  "hash_bucket lru k = hash_head lru + lru_node_size * k"

definition uint32 :: "int \<Rightarrow> int" where
  "uint32 x = x mod 2 ^ 32"

section \<open>Operations\<close>

definition init_head :: "etdb_lru \<Rightarrow> nat \<Rightarrow> lru_mem \<Rightarrow> lru_mem" where
  "init_head lru pos m =
     (let n = hash_bucket lru (int pos) in etdb_queue_init (lru_link n) (etdb_queue_init n m))"

definition etdb_init_lru :: "sysalloc \<Rightarrow> addr \<Rightarrow> int \<Rightarrow> lru_mem \<Rightarrow> (etdb_lru \<times> lru_mem) option" where
  "etdb_init_lru alloc self cap m =
     (let hs = cap div 3;
          (pool, h) = etdb_create_pool alloc ETDB_MAX_ALLOC_FROM_POOL (page_heap m)
      in if pool = 0 then None
         else
           Option.bind (etdb_pcalloc alloc pool (lru_node_size * hs) h)
             (\<lambda>(p, h).
                if p = 0 \<and> 0 < hs then None
                else
                  let lru = \<lparr>hash_head = p, lru_head = self, capacity = cap, cache_size = 0,
                        hash_head_size = hs, lpool = pool\<rparr>;
                      m = fold (init_head lru) [0..<nat hs] (m\<lparr>page_heap := h\<rparr>)
                  in Some (lru, etdb_queue_init (lru_link self) m)))"

definition etdb_destory_lru :: "etdb_lru \<Rightarrow> lru_mem \<Rightarrow> lru_mem option" where
  "etdb_destory_lru lru m =
     map_option (\<lambda>h. m\<lparr>page_heap := h\<rparr>) (etdb_destroy_pool (lpool lru) (page_heap m))"

text \<open>The remainder of C, then the conversion to \<open>uint32_t\<close>.\<close>

definition hit_idx :: "etdb_lru \<Rightarrow> int \<Rightarrow> int" where
  "hit_idx lru page_id = uint32 (page_id smod hash_head_size lru)"

text \<open>The node of a bucket that holds the page, \<open>Some None\<close> when there is none.\<close>

partial_function (option) hash_walk :: "lru_mem \<Rightarrow> addr \<Rightarrow> addr \<Rightarrow> int \<Rightarrow> addr option option" where
  "hash_walk m head nxt page_id =
     (if nxt = head then Some None
      else if lpage_id m nxt = page_id then Some (Some nxt)
      else hash_walk m head (qnext m nxt) page_id)"

text \<open>The node for a page that is not cached: the one used longest ago when the cache is full.\<close>

definition lru_take :: "sysalloc \<Rightarrow> etdb_lru \<Rightarrow> lru_mem \<Rightarrow> (addr \<times> etdb_lru \<times> lru_mem) option" where
  "lru_take alloc lru m =
     (if cache_size lru = capacity lru then
        let top = qprev m (lru_link (lru_head lru));
            m = etdb_queue_remove top m;
            n = top - lru_offset
        in Some (n, lru, etdb_queue_remove n m)
      else
        Option.bind (etdb_palloc alloc (lpool lru) lru_node_size (page_heap m))
          (\<lambda>(n, h).
             if n = 0 then None
             else
               map_option
                 (\<lambda>(v, h). (n, lru\<lparr>cache_size := uint32 (cache_size lru + 1)\<rparr>,
                    m\<lparr>page_heap := h, lpage_value := (lpage_value m)(n := v)\<rparr>))
                 (etdb_palloc alloc (lpool lru) ETDB_PAGE_SIZE h)))"

definition set_page_id :: "addr \<Rightarrow> int \<Rightarrow> lru_mem \<Rightarrow> lru_mem" where
  "set_page_id n page_id m = m\<lparr>lpage_id := (lpage_id m)(n := page_id)\<rparr>"

text \<open>\<open>lseek\<close> and \<open>read\<close>; a transfer to address 0 fails, unless there is nothing to transfer.\<close>

definition read_page :: "(int \<Rightarrow> bytes option) \<Rightarrow> addr \<Rightarrow> lru_mem \<Rightarrow> lru_mem option" where
  "read_page rd n m =
     (case rd (lpage_id m n * ETDB_PAGE_SIZE) of
        None \<Rightarrow> None
      | Some bs \<Rightarrow>
          if lpage_value m n = 0 then (if bs = [] then Some m else None)
          else Some (m\<lparr>page_heap := write_at (lpage_value m n) (take (nat ETDB_PAGE_SIZE) bs) (page_heap m)\<rparr>))"

definition lru_insert :: "etdb_lru \<Rightarrow> addr \<Rightarrow> addr \<Rightarrow> lru_mem \<Rightarrow> lru_mem" where
  "lru_insert lru head n m =
     etdb_queue_insert_head head n (etdb_queue_insert_head (lru_link (lru_head lru)) (lru_link n) m)"

definition etdb_lru_fetch ::
    "sysalloc \<Rightarrow> (int \<Rightarrow> bytes option) \<Rightarrow> etdb_lru \<Rightarrow> int \<Rightarrow> lru_mem \<Rightarrow> (int \<times> etdb_lru \<times> lru_mem) option" where
  "etdb_lru_fetch alloc rd lru page_id m =
     (if hash_head_size lru = 0 then None
      else
        let head = hash_bucket lru (hit_idx lru page_id)
        in Option.bind (hash_walk m head (qnext m head) page_id)
          (\<lambda>hit. case hit of
             Some n \<Rightarrow>
               let m = etdb_queue_remove (lru_link n) m;
                   m = etdb_queue_insert_head (lru_link (lru_head lru)) (lru_link n) m
               in Some (lpage_value m n, lru, m)
           | None \<Rightarrow>
               Option.bind (lru_take alloc lru m)
                 (\<lambda>(n, lru, m).
                    map_option
                      (\<lambda>m. let m = lru_insert lru head n m in (lpage_value m n, lru, m))
                      (read_page rd n (set_page_id n page_id m)))))"

definition etdb_lru_alloc_entry ::
    "sysalloc \<Rightarrow> etdb_lru \<Rightarrow> int \<Rightarrow> lru_mem \<Rightarrow> (int \<times> etdb_lru \<times> lru_mem) option" where
  "etdb_lru_alloc_entry alloc lru page_id m =
     (if hash_head_size lru = 0 then None
      else
        let head = hash_bucket lru (hit_idx lru page_id)
        in map_option
             (\<lambda>(n, lru, m).
                let m = lru_insert lru head n (set_page_id n page_id m) in (lpage_value m n, lru, m))
             (lru_take alloc lru m))"

end
