(* ===== verification/Page_Store.thy ===== *)
theory Page_Store
  imports Trie_Model Lru
begin

unbundle bit_operations_syntax

text \<open>
  The trie on disk, \<open>src/store/etdb_store.c\<close>: the three arrays of theory \<open>Trie_Model\<close> as pages of
  three files behind three caches.

  \<^item> a pointer to an entry is an address in the memory of the cache it came from, and stays what it
    is when a later fetch reuses the page; every cache has a memory of its own;
  \<^item> structures are laid out as on a 64-bit machine; \<open>id / PER_PAGE\<close> is a division of \<open>size_t\<close>;
  \<^item> the files are opened with \<open>O_APPEND\<close>: a \<open>write\<close> goes to the end, wherever \<open>lseek\<close> has been.
    Opening succeeds; what \<open>lseek\<close> and \<open>read\<close> or \<open>write\<close> do is an argument, the number of bytes
    transferred or \<^term>\<open>None\<close> for a failure, which is logged as an error and ends the process
    (\<open>etdb_log_print\<close>, theory \<open>Log\<close>); \<open>pf_reads\<close> tells at which offsets a page can be read;
  \<^item> \<open>unret\<close> is the value the caller sees of a function that ends without \<open>return\<close>;
  \<^item> \<^term>\<open>None\<close> as a result means that the code does not return: a failure of these calls, an
    entry behind \<open>NULL\<close>, a path too long for its array, an offset beyond \<open>off_t\<close>, a loop without end.
\<close>

section \<open>Integers in pages\<close>

definition int_bytes :: "nat \<Rightarrow> int \<Rightarrow> bytes" where
  "int_bytes k v = map (\<lambda>i. word_of_int (v div 256 ^ i)) [0..<k]"

definition int_of_bytes :: "nat \<Rightarrow> bytes \<Rightarrow> int" where
  "int_of_bytes k xs = signed_take_bit (8 * k - 1) (horner_sum uint 256 xs)"

section \<open>Data\<close>

definition ETDB_INDEX_NODE_SIZE_PER_PAGE :: int where "ETDB_INDEX_NODE_SIZE_PER_PAGE = ETDB_PAGE_SIZE div 16"
definition ETDB_INDEX_NINFO_SIZE_PER_PAGE :: int where "ETDB_INDEX_NINFO_SIZE_PER_PAGE = ETDB_PAGE_SIZE div 2"
definition ETDB_INDEX_BLOCK_SIZE_PER_PAGE :: int where "ETDB_INDEX_BLOCK_SIZE_PER_PAGE = ETDB_PAGE_SIZE div 32"
definition ETDB_STORE_INDEX_MAX_TRIAL :: int where "ETDB_STORE_INDEX_MAX_TRIAL = 1"

record page_file =
  pf_lru :: etdb_lru
  pf_mem :: lru_mem
  pf_data :: bytes
  pf_reads :: "int \<Rightarrow> bool"

record etdb_store =
  st_full :: int
  st_close :: int
  st_open :: int
  st_capacity :: int
  st_size :: int
  st_reject :: "int list"
  ix_node :: page_file
  ix_ninfo :: page_file
  ix_block :: page_file
  st_meta :: bytes

primrec store_head :: "blist \<Rightarrow> etdb_store \<Rightarrow> int" where
  "store_head Full st = st_full st"
| "store_head Close st = st_close st"
| "store_head Open st = st_open st"

primrec put_store_head :: "blist \<Rightarrow> int \<Rightarrow> etdb_store \<Rightarrow> etdb_store" where
  "put_store_head Full x st = st\<lparr>st_full := x\<rparr>"
| "put_store_head Close x st = st\<lparr>st_close := x\<rparr>"
| "put_store_head Open x st = st\<lparr>st_open := x\<rparr>"

definition pf_bytes :: "page_file \<Rightarrow> int \<Rightarrow> nat \<Rightarrow> bytes" where
  "pf_bytes f p k = bytes_at (page_heap (pf_mem f)) p k"

definition pf_write :: "int \<Rightarrow> bytes \<Rightarrow> page_file \<Rightarrow> page_file" where
  "pf_write p xs f = f\<lparr>pf_mem := (pf_mem f)\<lparr>page_heap := write_at p xs (page_heap (pf_mem f))\<rparr>\<rparr>"

definition get_int :: "nat \<Rightarrow> int \<Rightarrow> page_file \<Rightarrow> int" where
  "get_int k p f = int_of_bytes k (pf_bytes f p k)"

definition put_int :: "nat \<Rightarrow> int \<Rightarrow> int \<Rightarrow> page_file \<Rightarrow> page_file" where
  "put_int k p v f = pf_write p (int_bytes k v) f"

text \<open>\<open>etdb_index_node_t\<close>, \<open>etdb_index_ninfo_t\<close> and \<open>etdb_index_block_t\<close> at an address.\<close>

definition node_base :: "etdb_store \<Rightarrow> int \<Rightarrow> int" where "node_base st p = get_int 8 p (ix_node st)"
definition node_check :: "etdb_store \<Rightarrow> int \<Rightarrow> int" where "node_check st p = get_int 8 (p + 8) (ix_node st)"
definition ninfo_sibling :: "etdb_store \<Rightarrow> int \<Rightarrow> byte" where "ninfo_sibling st p = hd (pf_bytes (ix_ninfo st) p 1)"
definition ninfo_child :: "etdb_store \<Rightarrow> int \<Rightarrow> byte" where "ninfo_child st p = hd (pf_bytes (ix_ninfo st) (p + 1) 1)"
definition block_prev :: "etdb_store \<Rightarrow> int \<Rightarrow> int" where "block_prev st p = get_int 8 p (ix_block st)"
definition block_next :: "etdb_store \<Rightarrow> int \<Rightarrow> int" where "block_next st p = get_int 8 (p + 8) (ix_block st)"
definition block_num :: "etdb_store \<Rightarrow> int \<Rightarrow> int" where "block_num st p = get_int 2 (p + 16) (ix_block st)"
definition block_reject :: "etdb_store \<Rightarrow> int \<Rightarrow> int" where "block_reject st p = get_int 2 (p + 18) (ix_block st)"
definition block_trial :: "etdb_store \<Rightarrow> int \<Rightarrow> int" where "block_trial st p = get_int 4 (p + 20) (ix_block st)"
definition block_ehead :: "etdb_store \<Rightarrow> int \<Rightarrow> int" where "block_ehead st p = get_int 8 (p + 24) (ix_block st)"

definition put_node_base :: "int \<Rightarrow> int \<Rightarrow> etdb_store \<Rightarrow> etdb_store" where
  "put_node_base p v st = st\<lparr>ix_node := put_int 8 p v (ix_node st)\<rparr>"

definition put_node_check :: "int \<Rightarrow> int \<Rightarrow> etdb_store \<Rightarrow> etdb_store" where
  "put_node_check p v st = st\<lparr>ix_node := put_int 8 (p + 8) v (ix_node st)\<rparr>"

text \<open>\<open>sibling\<close> is the first byte of an \<open>etdb_index_ninfo_t\<close>, \<open>child\<close> the second.\<close>

definition put_ninfo :: "int \<Rightarrow> byte \<Rightarrow> etdb_store \<Rightarrow> etdb_store" where
  "put_ninfo p c st = st\<lparr>ix_ninfo := pf_write p [c] (ix_ninfo st)\<rparr>"

definition put_block :: "nat \<Rightarrow> int \<Rightarrow> int \<Rightarrow> etdb_store \<Rightarrow> etdb_store" where
  "put_block k p v st = st\<lparr>ix_block := put_int k p v (ix_block st)\<rparr>"

definition put_block_prev :: "int \<Rightarrow> int \<Rightarrow> etdb_store \<Rightarrow> etdb_store" where "put_block_prev p = put_block 8 p"
definition put_block_next :: "int \<Rightarrow> int \<Rightarrow> etdb_store \<Rightarrow> etdb_store" where "put_block_next p = put_block 8 (p + 8)"
definition put_block_num :: "int \<Rightarrow> int \<Rightarrow> etdb_store \<Rightarrow> etdb_store" where "put_block_num p = put_block 2 (p + 16)"
definition put_block_reject :: "int \<Rightarrow> int \<Rightarrow> etdb_store \<Rightarrow> etdb_store" where "put_block_reject p = put_block 2 (p + 18)"
definition put_block_trial :: "int \<Rightarrow> int \<Rightarrow> etdb_store \<Rightarrow> etdb_store" where "put_block_trial p = put_block 4 (p + 20)"
definition put_block_ehead :: "int \<Rightarrow> int \<Rightarrow> etdb_store \<Rightarrow> etdb_store" where "put_block_ehead p = put_block 8 (p + 24)"

section \<open>Files\<close>

definition etdb_store_file_exit :: "bytes option \<Rightarrow> bool" where
  "etdb_store_file_exit file = (file \<noteq> None)"

text \<open>The part of the structure that is kept in the file: five numbers and \<open>reject\<close>, 2096 bytes.\<close>

definition meta_bytes :: "etdb_store \<Rightarrow> bytes" where
  "meta_bytes st = concat (map (int_bytes 8) ([st_full st, st_close st, st_open st, st_capacity st, st_size st] @ st_reject st))"

definition etdb_store_flush_meta :: "nat option \<Rightarrow> etdb_store \<Rightarrow> etdb_store option" where
  "etdb_store_flush_meta r st =
     map_option (\<lambda>w. st\<lparr>st_meta := st_meta st @ take w (meta_bytes st)\<rparr>) r"

text \<open>A read that transfers less fills the beginning only.\<close>

definition etdb_store_load_meta :: "nat option \<Rightarrow> etdb_store \<Rightarrow> etdb_store option" where
  "etdb_store_load_meta r st =
     map_option
       (\<lambda>n. let raw = take n (take 2096 (st_meta st));
                b = raw @ drop (length raw) (meta_bytes st);
                x = (\<lambda>i. int_of_bytes 8 (take 8 (drop (8 * i) b)))
            in st\<lparr>st_full := x 0, st_close := x 1, st_open := x 2, st_capacity := x 3, st_size := x 4,
                  st_reject := map x [5..<262]\<rparr>) r"

text \<open>The page goes to the end of the file.\<close>

definition etdb_store_write :: "nat option \<Rightarrow> int \<Rightarrow> page_file \<Rightarrow> page_file option" where
  "etdb_store_write r p f =
     map_option (\<lambda>w. f\<lparr>pf_data := pf_data f @ take w (pf_bytes f p (nat ETDB_PAGE_SIZE))\<rparr>) r"

section \<open>Entries\<close>

definition file_page :: "page_file \<Rightarrow> int \<Rightarrow> bytes option" where
  "file_page f off =
     (if pf_reads f off then Some (take (nat ETDB_PAGE_SIZE) (drop (nat off) (pf_data f))) else None)"

definition page_at :: "sysalloc \<Rightarrow> int \<Rightarrow> int \<Rightarrow> int \<Rightarrow> page_file \<Rightarrow> (int \<times> page_file) option" where
  "page_at alloc per sz i f =
     (let page_id = size_t i div per; offset = size_t i mod per
      in if 2 ^ 63 \<le> page_id * ETDB_PAGE_SIZE then None
         else
           Option.bind (etdb_lru_fetch alloc (file_page f) (pf_lru f) page_id (pf_mem f))
             (\<lambda>(p, lru, m).
                if p = 0 then None else Some (p + sz * offset, f\<lparr>pf_lru := lru, pf_mem := m\<rparr>)))"

definition etdb_store_index_node_at :: "sysalloc \<Rightarrow> int \<Rightarrow> etdb_store \<Rightarrow> (int \<times> etdb_store) option" where
  "etdb_store_index_node_at alloc i st =
     map_option (\<lambda>(p, f). (p, st\<lparr>ix_node := f\<rparr>)) (page_at alloc ETDB_INDEX_NODE_SIZE_PER_PAGE 16 i (ix_node st))"

definition etdb_store_index_ninfo_at :: "sysalloc \<Rightarrow> int \<Rightarrow> etdb_store \<Rightarrow> (int \<times> etdb_store) option" where
  "etdb_store_index_ninfo_at alloc i st =
     map_option (\<lambda>(p, f). (p, st\<lparr>ix_ninfo := f\<rparr>)) (page_at alloc ETDB_INDEX_NINFO_SIZE_PER_PAGE 2 i (ix_ninfo st))"

definition etdb_store_index_block_at :: "sysalloc \<Rightarrow> int \<Rightarrow> etdb_store \<Rightarrow> (int \<times> etdb_store) option" where
  "etdb_store_index_block_at alloc i st =
     map_option (\<lambda>(p, f). (p, st\<lparr>ix_block := f\<rparr>)) (page_at alloc ETDB_INDEX_BLOCK_SIZE_PER_PAGE 32 i (ix_block st))"

definition index_node_init :: "int \<Rightarrow> nat \<Rightarrow> etdb_store \<Rightarrow> etdb_store" where
  "index_node_init np i st =
     (let p = np + 16 * int i
      in if i = 0 then put_node_check p (-1) (put_node_base p 0 st)
         else if i = 1 then put_node_check p (- (int i + 1)) (put_node_base p (-255) st)
         else if i = 255 then put_node_check p (-1) (put_node_base p (- (int i - 1)) st)
         else put_node_check p (- (int i + 1)) (put_node_base p (- (int i - 1)) st))"

definition etdb_index_node_init :: "int \<Rightarrow> etdb_store \<Rightarrow> etdb_store" where
  "etdb_index_node_init np st = fold (index_node_init np) [0..<256] st"

text \<open>A new entry of the cache; nothing can be written behind \<open>NULL\<close>.\<close>

definition add_entry :: "sysalloc \<Rightarrow> int \<Rightarrow> page_file \<Rightarrow> (int \<times> page_file) option" where
  "add_entry alloc new_id f =
     Option.bind (etdb_lru_alloc_entry alloc (pf_lru f) new_id (pf_mem f))
       (\<lambda>(p, lru, m). if p = 0 then None else Some (p, f\<lparr>pf_lru := lru, pf_mem := m\<rparr>))"

definition etdb_store_add_node :: "sysalloc \<Rightarrow> etdb_store \<Rightarrow> (int \<times> int \<times> etdb_store) option" where
  "etdb_store_add_node alloc st =
     (let new_id = size_t (st_capacity st) div ETDB_INDEX_NODE_SIZE_PER_PAGE
      in map_option
           (\<lambda>(p, f). (new_id, p, st\<lparr>ix_node := pf_write p (replicate (nat (16 * ETDB_INDEX_NODE_SIZE_PER_PAGE)) 0) f\<rparr>))
           (add_entry alloc new_id (ix_node st)))"

definition etdb_store_add_ninfo :: "sysalloc \<Rightarrow> etdb_store \<Rightarrow> (int \<times> int \<times> etdb_store) option" where
  "etdb_store_add_ninfo alloc st =
     (let new_id = size_t (st_capacity st) div ETDB_INDEX_NINFO_SIZE_PER_PAGE
      in map_option
           (\<lambda>(p, f). (new_id, p, st\<lparr>ix_ninfo := pf_write p (replicate (nat (2 * ETDB_INDEX_NINFO_SIZE_PER_PAGE)) 0) f\<rparr>))
           (add_entry alloc new_id (ix_ninfo st)))"

definition index_block_init :: "int \<Rightarrow> nat \<Rightarrow> etdb_store \<Rightarrow> etdb_store" where
  "index_block_init value i st =
     (let p = value + 32 * int i; st = put_block_prev p 0 (put_block_next p 0 st); st = put_block_num p 256 st;
          st = put_block_reject p 257 st; st = put_block_trial p 0 st
      in put_block_ehead p 0 st)"

definition etdb_store_add_block :: "sysalloc \<Rightarrow> etdb_store \<Rightarrow> (int \<times> int \<times> etdb_store) option" where
  "etdb_store_add_block alloc st =
     (let new_id = (size_t (st_capacity st) div ETDB_INDEX_BLOCK_SIZE_PER_PAGE) div 2 ^ 8
      in map_option
           (\<lambda>(p, f). (new_id, p, fold (index_block_init p) [0..<nat ETDB_INDEX_BLOCK_SIZE_PER_PAGE] (st\<lparr>ix_block := f\<rparr>)))
           (add_entry alloc new_id (ix_block st)))"

section \<open>Opening\<close>

text \<open>
  A cache in the structure of the store at \<open>c_self\<close>, its memory, its file and the room for it, and what
  the calls on the file do. \<open>io\<close> is what the call on the meta file transfers: \<open>write\<close> for a new store,
  \<open>read\<close> for an old one.
\<close>

record cache_spot =
  c_self :: addr
  c_mem :: lru_mem
  c_file :: bytes
  c_cap :: int
  c_reads :: "int \<Rightarrow> bool"
  c_written :: "nat option"

definition open_index :: "sysalloc \<Rightarrow> cache_spot \<Rightarrow> page_file option" where
  "open_index alloc c =
     map_option (\<lambda>(lru, m). \<lparr>pf_lru = lru, pf_mem = m, pf_data = c_file c, pf_reads = c_reads c\<rparr>)
       (etdb_init_lru alloc (c_self c) (c_cap c) (c_mem c))"

definition etdb_init_store ::
    "sysalloc \<Rightarrow> bytes \<Rightarrow> bytes option \<Rightarrow> nat option \<Rightarrow> cache_spot \<Rightarrow> cache_spot \<Rightarrow> cache_spot \<Rightarrow> etdb_store option" where
  "etdb_init_store alloc dir meta io cn ci cb =
     (if length dir > 249 then None
      else do {
        fn \<leftarrow> open_index alloc cn;
        fi \<leftarrow> open_index alloc ci;
        fb \<leftarrow> open_index alloc cb;
        let st = \<lparr>st_full = 0, st_close = 0, st_open = 0, st_capacity = 0, st_size = 0, st_reject = replicate 257 0,
          ix_node = fn, ix_ninfo = fi, ix_block = fb, st_meta = (case meta of None \<Rightarrow> [] | Some b \<Rightarrow> b)\<rparr>;
        if \<not> etdb_store_file_exit meta then do {
          let st = st\<lparr>st_reject := map (\<lambda>i. int i + 1) [0..<257],
            st_capacity := ETDB_INDEX_NODE_SIZE_PER_PAGE, st_size := 256\<rparr>;
          st \<leftarrow> etdb_store_flush_meta io st;
          (_, p, st) \<leftarrow> etdb_store_add_node alloc st;
          let st = etdb_index_node_init p st;
          f \<leftarrow> etdb_store_write (c_written cn) p (ix_node st);
          let st = st\<lparr>ix_node := f\<rparr>;
          (_, p, st) \<leftarrow> etdb_store_add_ninfo alloc st;
          f \<leftarrow> etdb_store_write (c_written ci) p (ix_ninfo st);
          let st = st\<lparr>ix_ninfo := f\<rparr>;
          (_, p, st) \<leftarrow> etdb_store_add_block alloc st;
          let st = put_block_ehead p 1 st;
          f \<leftarrow> etdb_store_write (c_written cb) p (ix_block st);
          Some (st\<lparr>ix_block := f\<rparr>)
        }
        else etdb_store_load_meta io st
      })"

section \<open>Blocks\<close>

definition etdb_store_pop_block :: "sysalloc \<Rightarrow> int \<Rightarrow> blist \<Rightarrow> bool \<Rightarrow> etdb_store \<Rightarrow> etdb_store option" where
  "etdb_store_pop_block alloc bi head_in is_last st =
     (if is_last then Some (put_store_head head_in 0 st)
      else do {
        (b, st) \<leftarrow> etdb_store_index_block_at alloc bi st;
        (bp, st) \<leftarrow> etdb_store_index_block_at alloc (block_prev st b) st;
        (bn, st) \<leftarrow> etdb_store_index_block_at alloc (block_next st b) st;
        let st = put_block_next bp (block_next st b) st;
        let st = put_block_prev bn (block_prev st b) st;
        Some (if bi = store_head head_in st then put_store_head head_in (block_next st b) st else st) })"

definition etdb_store_push_block :: "sysalloc \<Rightarrow> int \<Rightarrow> blist \<Rightarrow> bool \<Rightarrow> etdb_store \<Rightarrow> etdb_store option" where
  "etdb_store_push_block alloc bi head_out is_empty st = do {
     (b, st) \<leftarrow> etdb_store_index_block_at alloc bi st;
     if is_empty then Some (put_store_head head_out bi (put_block_prev b bi (put_block_next b bi st)))
     else do {
       (bh, st) \<leftarrow> etdb_store_index_block_at alloc (store_head head_out st) st;
       (bhp, st) \<leftarrow> etdb_store_index_block_at alloc (block_prev st bh) st;
       let st = put_block_prev b (block_prev st bh) st;
       let st = put_block_next b (store_head head_out st) st;
       Some (put_store_head head_out bi (put_block_prev bh bi (put_block_next bhp bi st))) } }"

text \<open>The value is never returned.\<close>

definition etdb_store_alloc_block :: "int \<Rightarrow> sysalloc \<Rightarrow> etdb_store \<Rightarrow> (int \<times> etdb_store) option" where
  "etdb_store_alloc_block unret alloc st =
     (if st_size st = st_capacity st then
        map_option (\<lambda>(_, _, st). (unret, st\<lparr>st_capacity := st_capacity st + ETDB_INDEX_NODE_SIZE_PER_PAGE\<rparr>))
          (etdb_store_add_node alloc st)
      else Some (unret, st))"

definition etdb_store_transfer_block :: "sysalloc \<Rightarrow> int \<Rightarrow> blist \<Rightarrow> blist \<Rightarrow> etdb_store \<Rightarrow> etdb_store option" where
  "etdb_store_transfer_block alloc bi head_in head_out st = do {
     (b, st) \<leftarrow> etdb_store_index_block_at alloc bi st;
     st \<leftarrow> etdb_store_pop_block alloc bi head_in (bi = block_next st b) st;
     etdb_store_push_block alloc bi head_out (store_head head_out st = 0 \<and> block_num st b \<noteq> 0) st }"

definition etdb_store_find_place :: "int \<Rightarrow> sysalloc \<Rightarrow> etdb_store \<Rightarrow> (int \<times> etdb_store) option" where
  "etdb_store_find_place unret alloc st =
     (if st_close st \<noteq> 0 then
        map_option (\<lambda>(b, st). (block_ehead st b, st)) (etdb_store_index_block_at alloc (st_close st) st)
      else if st_open st \<noteq> 0 then
        map_option (\<lambda>(b, st). (block_ehead st b, st)) (etdb_store_index_block_at alloc (st_open st) st)
      else map_option (\<lambda>(bi, st). (bi * 256, st)) (etdb_store_alloc_block unret alloc st))"

section \<open>Nodes\<close>

text \<open>The two links of a free slot are taken out, and the block moves when it has one slot left.\<close>

definition unlink_slot :: "sysalloc \<Rightarrow> int \<Rightarrow> int \<Rightarrow> int \<Rightarrow> int \<Rightarrow> etdb_store \<Rightarrow> etdb_store option" where
  "unlink_slot alloc e bi n b st = do {
     (nb, st) \<leftarrow> etdb_store_index_node_at alloc (- node_base st n) st;
     (nc, st) \<leftarrow> etdb_store_index_node_at alloc (- node_check st n) st;
     let st = put_node_check nb (node_check st n) st;
     let st = put_node_base nc (node_base st n) st;
     let st = (if e = block_ehead st b then put_block_ehead b (- node_check st n) st else st);
     if bi \<noteq> 0 \<and> block_num st b = 1 \<and> block_trial st b \<noteq> ETDB_STORE_INDEX_MAX_TRIAL
     then etdb_store_transfer_block alloc bi Open Close st else Some st }"

definition etdb_store_pop_empty_node ::
    "int \<Rightarrow> sysalloc \<Rightarrow> int \<Rightarrow> byte \<Rightarrow> int \<Rightarrow> etdb_store \<Rightarrow> (int \<times> etdb_store) option" where
  "etdb_store_pop_empty_node unret alloc base label from st = do {
     (e, st) \<leftarrow> (if base < 0 then etdb_store_find_place unret alloc st else Some (base XOR uint label, st));
     let bi = e div 2 ^ 8;
     (n, st) \<leftarrow> etdb_store_index_node_at alloc e st;
     (b, st) \<leftarrow> etdb_store_index_block_at alloc bi st;
     let st = put_block_num b (block_num st b - 1) st;
     st \<leftarrow> (if block_num st b = 0 \<and> bi \<noteq> 0 then etdb_store_transfer_block alloc bi Close Full st
             else unlink_slot alloc e bi n b st);
     let st = put_node_base n (if label \<noteq> 0 then -1 else 0) st;
     let st = put_node_check n from st;
     if base < 0 then
       map_option (\<lambda>(nf, st). (e, put_node_base nf (e XOR uint label) st)) (etdb_store_index_node_at alloc from st)
     else Some (e, st) }"

definition etdb_store_push_sibling :: "sysalloc \<Rightarrow> int \<Rightarrow> int \<Rightarrow> byte \<Rightarrow> bool \<Rightarrow> etdb_store \<Rightarrow> etdb_store option" where
  "etdb_store_push_sibling alloc from base label flag st = do {
     (p, st) \<leftarrow> etdb_store_index_ninfo_at alloc from st;
     let c = ninfo_child st p;
     (c, st) \<leftarrow> (if flag \<and> c = 0 then
         map_option (\<lambda>(p, st). (ninfo_sibling st p, put_ninfo p label st))
           (etdb_store_index_ninfo_at alloc (base XOR uint c) st)
       else Some (c, put_ninfo (p + 1) label st));
     (p, st) \<leftarrow> etdb_store_index_ninfo_at alloc (base XOR uint label) st;
     Some (put_ninfo p c st) }"

text \<open>\<open>c\<close> is the pointer to a byte.\<close>

partial_function (option) pop_sibling_loop ::
    "sysalloc \<Rightarrow> int \<Rightarrow> byte \<Rightarrow> int \<Rightarrow> etdb_store \<Rightarrow> (int \<times> etdb_store) option" where
  "pop_sibling_loop alloc base label c st =
     (let w = hd (pf_bytes (ix_ninfo st) c 1)
      in if w = label then Some (c, st)
         else Option.bind (etdb_store_index_ninfo_at alloc (base XOR uint w) st)
                (\<lambda>(p, st). pop_sibling_loop alloc base label p st))"

definition etdb_store_pop_sibling :: "sysalloc \<Rightarrow> int \<Rightarrow> int \<Rightarrow> byte \<Rightarrow> etdb_store \<Rightarrow> etdb_store option" where
  "etdb_store_pop_sibling alloc from base label st = do {
     (v, st) \<leftarrow> etdb_store_index_ninfo_at alloc (base XOR uint label) st;
     let sibling = ninfo_sibling st v;
     (p, st) \<leftarrow> etdb_store_index_ninfo_at alloc from st;
     (c, st) \<leftarrow> pop_sibling_loop alloc base label (p + 1) st;
     Some (put_ninfo c sibling st) }"

partial_function (option) etdb_store_consult ::
    "sysalloc \<Rightarrow> int \<Rightarrow> int \<Rightarrow> byte \<Rightarrow> byte \<Rightarrow> etdb_store \<Rightarrow> (byte \<times> etdb_store) option" where
  "etdb_store_consult alloc base_n base_p c_n c_p st =
     Option.bind (etdb_store_index_ninfo_at alloc (base_n XOR uint c_n) st)
       (\<lambda>(p, st).
          let c_n = ninfo_sibling st p
          in Option.bind (etdb_store_index_ninfo_at alloc (base_p XOR uint c_p) st)
               (\<lambda>(p, st).
                  let c_p = ninfo_sibling st p
                  in if c_n \<noteq> 0 \<and> c_p \<noteq> 0 then etdb_store_consult alloc base_n base_p c_n c_p st
                     else Some (c_p, st)))"

partial_function (option) set_child_loop ::
    "sysalloc \<Rightarrow> int \<Rightarrow> byte \<Rightarrow> bytes \<Rightarrow> etdb_store \<Rightarrow> (bytes \<times> etdb_store) option" where
  "set_child_loop alloc base c cs st =
     (if c = 0 then Some (cs, st)
      else Option.bind (etdb_store_index_ninfo_at alloc (base XOR uint c) st)
             (\<lambda>(p, st). set_child_loop alloc base (ninfo_sibling st p) (cs @ [c]) st))"

text \<open>The labels written; \<^term>\<open>None\<close> for a label of -1.\<close>

definition etdb_store_set_child ::
    "sysalloc \<Rightarrow> int \<Rightarrow> byte \<Rightarrow> byte option \<Rightarrow> etdb_store \<Rightarrow> (bytes \<times> etdb_store) option" where
  "etdb_store_set_child alloc base c label st = do {
     (cs, c, st) \<leftarrow> (if c = 0 then
         map_option (\<lambda>(p, st). ([c], ninfo_sibling st p, st)) (etdb_store_index_ninfo_at alloc (base XOR uint c) st)
       else Some ([], c, st));
     set_child_loop alloc base c (cs @ (case label of None \<Rightarrow> [] | Some l \<Rightarrow> [l])) st }"

text \<open>The body is commented out.\<close>

definition etdb_store_resolve :: "int \<Rightarrow> int \<Rightarrow> int \<Rightarrow> byte \<Rightarrow> etdb_store \<Rightarrow> int \<times> etdb_store" where
  "etdb_store_resolve unret from_n base_n label_n st = (unret, st)"

definition etdb_store_follow :: "int \<Rightarrow> sysalloc \<Rightarrow> int \<Rightarrow> byte \<Rightarrow> etdb_store \<Rightarrow> (int \<times> etdb_store) option" where
  "etdb_store_follow unret alloc from label st = do {
     (n, st) \<leftarrow> etdb_store_index_node_at alloc from st;
     let base = node_base st n;
     if base < 0 then do {
       (to, st) \<leftarrow> etdb_store_pop_empty_node unret alloc base label from st;
       st \<leftarrow> etdb_store_push_sibling alloc from (to XOR uint label) label (base \<ge> 0) st;
       Some (to, st) }
     else do {
       let to = base XOR uint label;
       (n, st) \<leftarrow> etdb_store_index_node_at alloc to st;
       if node_check st n < 0 then do {
         (to, st) \<leftarrow> etdb_store_pop_empty_node unret alloc base label from st;
         st \<leftarrow> etdb_store_push_sibling alloc from (to XOR uint label) label (base \<ge> 0) st;
         Some (to, st) }
       else Some (etdb_store_resolve unret from base label st) } }"

text \<open>The escapes for 0 and \<open>%\<close>.\<close>

definition etdb_store_update_entry :: "int \<Rightarrow> sysalloc \<Rightarrow> int \<Rightarrow> byte \<Rightarrow> etdb_store \<Rightarrow> (int \<times> etdb_store) option" where
  "etdb_store_update_entry unret alloc from w st =
     (if w = 0 then
        Option.bind (etdb_store_follow unret alloc from 37 st) (\<lambda>(from, st). etdb_store_follow unret alloc from 48 st)
      else if w = 37 then
        Option.bind (etdb_store_follow unret alloc from 37 st) (\<lambda>(from, st). etdb_store_follow unret alloc from 37 st)
      else etdb_store_follow unret alloc from w st)"

fun store_entries :: "int \<Rightarrow> sysalloc \<Rightarrow> bytes \<Rightarrow> int \<Rightarrow> etdb_store \<Rightarrow> (int \<times> etdb_store) option" where
  "store_entries unret alloc [] from st = Some (from, st)"
| "store_entries unret alloc (w # ws) from st =
     Option.bind (etdb_store_update_entry unret alloc from w st) (\<lambda>(from, st). store_entries unret alloc ws from st)"

definition etdb_store_update :: "int \<Rightarrow> sysalloc \<Rightarrow> bytes \<Rightarrow> etdb_store \<Rightarrow> (int \<times> etdb_store) option" where
  "etdb_store_update unret alloc key st =
     (if key = [] then Some (-1, st)
      else do {
        (from, st) \<leftarrow> store_entries unret alloc key 0 st;
        (_, st) \<leftarrow> etdb_store_follow unret alloc from 0 st;
        Some (unret, st) })"

end
