(* ===== verification/Lru_Rep.thy ===== *)
theory Lru_Rep
  imports Lru
begin

text \<open>
  The page cache as a list of pages: \<open>lru_rep m lru ps\<close> says that the queues and pieces of memory of
  the cache represent the pages \<open>ps\<close> with their contents, the one used last first; \<open>lru_state\<close>
  names the nodes besides.
\<close>

section \<open>The cache as a list of pages\<close>

text \<open>
  The pages of a cache with room for \<open>c\<close>, the one used last first: a page that is asked for moves to
  the front, a new one pushes the last one out of a full cache.
\<close>

definition lru_touch :: "nat \<Rightarrow> int \<Rightarrow> 'b \<Rightarrow> (int \<times> 'b) list \<Rightarrow> (int \<times> 'b) list" where
  "lru_touch c page_id b ps =
     (case map_of ps page_id of
        Some x \<Rightarrow> (page_id, x) # filter (\<lambda>p. fst p \<noteq> page_id) ps
      | None \<Rightarrow> take c ((page_id, b) # ps))"

definition page_bytes :: "lru_mem \<Rightarrow> addr \<Rightarrow> bytes" where
  "page_bytes m n = bytes_at (page_heap m) (lpage_value m n) (nat ETDB_PAGE_SIZE)"

text \<open>Nodes, pages and tables are pieces of memory that do not overlap.\<close>

definition lru_pieces :: "lru_mem \<Rightarrow> etdb_lru \<Rightarrow> addr list \<Rightarrow> bool" where
  "lru_pieces m lru ns \<longleftrightarrow> (\<exists>bs psize cs. pool_rep (page_heap m) (lpool lru) bs psize cs \<and>
     list_all (\<lambda>c. 0 < snd c) cs \<and> pool_large_size \<le> pmax (pools (page_heap m) (lpool lru)) \<and>
     lru_node_size \<le> pmax (pools (page_heap m) (lpool lru)) \<and>
     {(lru_head lru, lru_node_size), (hash_head lru, lru_node_size * hash_head_size lru)} \<subseteq> set cs \<and>
     (\<forall>n\<in>set ns. (n, lru_node_size) \<in> set cs \<and> (lpage_value m n, ETDB_PAGE_SIZE) \<in> set cs)) \<and>
     distinct (lru_head lru # hash_head lru # ns) \<and> distinct (map (lpage_value m) ns)"

text \<open>The queues: the use queue has the nodes in order, the bucket \<open>k\<close> those with remainder \<open>k\<close>.\<close>

definition lru_queues :: "lru_mem \<Rightarrow> etdb_lru \<Rightarrow> addr list \<Rightarrow> (addr \<rightharpoonup> addr list) \<Rightarrow> bool" where
  "lru_queues m lru ns R \<longleftrightarrow> qheap m R \<and> R (lru_link (lru_head lru)) = Some (map lru_link ns) \<and>
     (\<forall>k\<in>{0..<hash_head_size lru}. \<exists>b. R (hash_bucket lru k) = Some b \<and>
        set b = {n \<in> set ns. lpage_id m n mod hash_head_size lru = k}) \<and>
     dom R = insert (lru_link (lru_head lru)) (hash_bucket lru ` {0..<hash_head_size lru})"

definition lru_rep :: "lru_mem \<Rightarrow> etdb_lru \<Rightarrow> (int \<times> bytes) list \<Rightarrow> bool" where
  "lru_rep m lru ps \<longleftrightarrow> (\<exists>ns R. lru_pieces m lru ns \<and> lru_queues m lru ns R \<and>
     map (\<lambda>n. (lpage_id m n, page_bytes m n)) ns = ps) \<and>
     distinct (map fst ps) \<and> list_all (\<lambda>p. 0 \<le> fst p) ps \<and>
     cache_size lru = int (length ps) \<and> cache_size lru \<le> capacity lru \<and> capacity lru < 2 ^ 32 \<and>
     3 \<le> capacity lru \<and> hash_head_size lru = capacity lru div 3"

section \<open>Pieces\<close>

lemma lru_acc [simp]:
  "lpage_id (etdb_queue_insert_head h x m) = lpage_id m" "lpage_value (etdb_queue_insert_head h x m) = lpage_value m"
  "page_heap (etdb_queue_insert_head h x m) = page_heap m" "lpage_id (etdb_queue_remove x m) = lpage_id m"
  "lpage_value (etdb_queue_remove x m) = lpage_value m" "page_heap (etdb_queue_remove x m) = page_heap m"
  "lpage_id (etdb_queue_init x m) = lpage_id m" "lpage_value (etdb_queue_init x m) = lpage_value m"
  "page_heap (etdb_queue_init x m) = page_heap m"
  by (simp_all add: etdb_queue_insert_head_def etdb_queue_remove_def etdb_queue_init_def Let_def
      set_next_def set_prev_def)

lemma lru_insert_acc [simp]:
  "lpage_id (lru_insert lru h n m) = lpage_id m" "lpage_value (lru_insert lru h n m) = lpage_value m"
  "page_heap (lru_insert lru h n m) = page_heap m"
  by (simp_all add: lru_insert_def)

lemma lru_piecesI:
  assumes "pool_rep (page_heap m) (lpool lru) bs psize cs" "list_all (\<lambda>c. 0 < snd c) cs"
    "pool_large_size \<le> pmax (pools (page_heap m) (lpool lru))" "lru_node_size \<le> pmax (pools (page_heap m) (lpool lru))"
    "(lru_head lru, lru_node_size) \<in> set cs" "(hash_head lru, lru_node_size * hash_head_size lru) \<in> set cs"
    "\<And>n. n \<in> set ns \<Longrightarrow> (n, lru_node_size) \<in> set cs \<and> (lpage_value m n, ETDB_PAGE_SIZE) \<in> set cs"
    "distinct (lru_head lru # hash_head lru # ns)" "distinct (map (lpage_value m) ns)"
  shows "lru_pieces m lru ns"
  using assms unfolding lru_pieces_def by blast

lemma lru_pieces_sub:
  assumes "lru_pieces m lru ns" "set ns' \<subseteq> set ns" "distinct ns'" "page_heap m' = page_heap m" "lpage_value m' = lpage_value m"
  shows "lru_pieces m' lru ns'"
proof -
  obtain bs psize cs where "pool_rep (page_heap m) (lpool lru) bs psize cs" "list_all (\<lambda>c. 0 < snd c) cs"
    "pool_large_size \<le> pmax (pools (page_heap m) (lpool lru))" "lru_node_size \<le> pmax (pools (page_heap m) (lpool lru))"
    "(lru_head lru, lru_node_size) \<in> set cs" "(hash_head lru, lru_node_size * hash_head_size lru) \<in> set cs"
    "\<And>n. n \<in> set ns \<Longrightarrow> (n, lru_node_size) \<in> set cs \<and> (lpage_value m n, ETDB_PAGE_SIZE) \<in> set cs"
    using assms(1) by (auto simp: lru_pieces_def)
  then show ?thesis
    using assms by (intro lru_piecesI [of m' lru bs psize cs ns'])
      (auto simp: lru_pieces_def distinct_map intro: inj_on_subset)
qed

lemma pool_pieces_apart:
  assumes "pool_rep h pool bs psize cs" "c \<in> set cs" "d \<in> set cs" "c \<noteq> d"
  shows "apart c d"
proof -
  have "sorted_wrt apart cs" using assms(1) by (simp add: pool_rep_def)
  then show ?thesis using assms(2-4)
  proof (induction cs)
    case (Cons e cs)
    consider "c = e" "d \<in> set cs" | "d = e" "c \<in> set cs" | "c \<in> set cs" "d \<in> set cs" using Cons.prems by auto
    then show ?case using Cons by cases (auto dest: apart_commute)
  qed simp
qed

lemma lru_apart:
  assumes "lru_pieces m lru ns"
  shows "n \<in> set ns \<Longrightarrow> n' \<in> set ns \<Longrightarrow> n \<noteq> n' \<Longrightarrow> apart (n, lru_node_size) (n', lru_node_size)"
    "n \<in> set ns \<Longrightarrow> apart (n, lru_node_size) (lru_head lru, lru_node_size)"
    "n \<in> set ns \<Longrightarrow> apart (n, lru_node_size) (hash_head lru, lru_node_size * hash_head_size lru)"
    "apart (lru_head lru, lru_node_size) (hash_head lru, lru_node_size * hash_head_size lru)"
    "n \<in> set ns \<Longrightarrow> n' \<in> set ns \<Longrightarrow> n \<noteq> n' \<Longrightarrow>
      apart (lpage_value m n, ETDB_PAGE_SIZE) (lpage_value m n', ETDB_PAGE_SIZE)"
    "n \<in> set ns \<Longrightarrow> 0 < lpage_value m n"
proof -
  obtain bs psize cs where P: "pool_rep (page_heap m) (lpool lru) bs psize cs"
    "{(lru_head lru, lru_node_size), (hash_head lru, lru_node_size * hash_head_size lru)} \<subseteq> set cs"
    "\<forall>n\<in>set ns. (n, lru_node_size) \<in> set cs \<and> (lpage_value m n, ETDB_PAGE_SIZE) \<in> set cs"
    and D: "distinct (lru_head lru # hash_head lru # ns)" "inj_on (lpage_value m) (set ns)"
    using assms by (auto simp: lru_pieces_def distinct_map)
  note A = pool_pieces_apart [OF P(1)]
  show "n \<in> set ns \<Longrightarrow> n' \<in> set ns \<Longrightarrow> n \<noteq> n' \<Longrightarrow> apart (n, lru_node_size) (n', lru_node_size)"
    "n \<in> set ns \<Longrightarrow> apart (n, lru_node_size) (lru_head lru, lru_node_size)"
    "n \<in> set ns \<Longrightarrow> apart (n, lru_node_size) (hash_head lru, lru_node_size * hash_head_size lru)"
    "apart (lru_head lru, lru_node_size) (hash_head lru, lru_node_size * hash_head_size lru)"
    "n \<in> set ns \<Longrightarrow> n' \<in> set ns \<Longrightarrow> n \<noteq> n' \<Longrightarrow>
      apart (lpage_value m n, ETDB_PAGE_SIZE) (lpage_value m n', ETDB_PAGE_SIZE)"
    using P(2,3) D by (auto intro!: A dest: inj_onD)
  assume "n \<in> set ns"
  then have "(lpage_value m n, ETDB_PAGE_SIZE) \<in> set cs" using P(3) by blast
  then obtain xs ys where "cs = xs @ (lpage_value m n, ETDB_PAGE_SIZE) # ys" by (blast dest: split_list)
  then have "pool_rep (page_heap m) (lpool lru) bs psize ((lpage_value m n, ETDB_PAGE_SIZE) # ys)"
    using P(1) by (auto simp: pool_rep_def sorted_wrt_append)
  then show "0 < lpage_value m n" by (rule piece_range(1))
qed

section \<open>Queues\<close>

text \<open>The cells of a node are none of those of the heads and of other nodes.\<close>

lemma lru_cells_apart:
  assumes "lru_pieces m lru ns"
  shows "n \<in> set ns \<Longrightarrow> n' \<in> set ns \<Longrightarrow> n \<noteq> lru_link n'"
    "n \<in> set ns \<Longrightarrow> n \<noteq> lru_link (lru_head lru)" "n \<in> set ns \<Longrightarrow> lru_link n \<noteq> lru_link (lru_head lru)"
    "k \<in> {0..<hash_head_size lru} \<Longrightarrow> n \<in> set ns \<Longrightarrow> n \<noteq> hash_bucket lru k"
    "k \<in> {0..<hash_head_size lru} \<Longrightarrow> n \<in> set ns \<Longrightarrow> lru_link n \<noteq> hash_bucket lru k"
    "k \<in> {0..<hash_head_size lru} \<Longrightarrow> lru_link (lru_head lru) \<noteq> hash_bucket lru k"
proof -
  note A = lru_apart [OF assms, unfolded apart_def fst_conv snd_conv lru_node_size_def]
  note D = lru_link_def lru_offset_def hash_bucket_def lru_node_size_def
  show "n \<in> set ns \<Longrightarrow> n' \<in> set ns \<Longrightarrow> n \<noteq> lru_link n'" using A(1) [of n n'] by (auto simp: D)
  show "n \<in> set ns \<Longrightarrow> n \<noteq> lru_link (lru_head lru)" using A(2) [of n] by (auto simp: D)
  show "n \<in> set ns \<Longrightarrow> lru_link n \<noteq> lru_link (lru_head lru)" using A(2) [of n] by (auto simp: D)
  assume k: "k \<in> {0..<hash_head_size lru}"
  then have k': "0 \<le> 48 * k" "48 * k + 48 \<le> 48 * hash_head_size lru" by auto
  show "n \<in> set ns \<Longrightarrow> n \<noteq> hash_bucket lru k" using A(3) [of n] k' by (auto simp: D)
  show "n \<in> set ns \<Longrightarrow> lru_link n \<noteq> hash_bucket lru k" using A(3) [of n] k' by (auto simp: D)
  show "lru_link (lru_head lru) \<noteq> hash_bucket lru k" using A(4) k' by (auto simp: D)
qed

lemma hash_bucket_inj [simp]: "hash_bucket lru k = hash_bucket lru k' \<longleftrightarrow> k = k'"
  by (simp add: hash_bucket_def lru_node_size_def)

lemma lru_link_inj [simp]: "lru_link n = lru_link n' \<longleftrightarrow> n = n'"
  by (simp add: lru_link_def)

lemma lru_queuesD:
  assumes "lru_queues m lru ns R"
  shows "qheap m R" "R (lru_link (lru_head lru)) = Some (map lru_link ns)"
    "dom R = insert (lru_link (lru_head lru)) (hash_bucket lru ` {0..<hash_head_size lru})"
    "k \<in> {0..<hash_head_size lru} \<Longrightarrow> \<exists>b. R (hash_bucket lru k) = Some b \<and>
        set b = {n \<in> set ns. lpage_id m n mod hash_head_size lru = k}"
  using assms by (simp_all add: lru_queues_def)

lemma lru_cells:
  assumes "lru_queues m lru ns R"
  shows "cells R \<subseteq> insert (lru_link (lru_head lru)) (hash_bucket lru ` {0..<hash_head_size lru} \<union> lru_link ` set ns \<union> set ns)"
proof
  fix x
  assume "x \<in> cells R"
  then obtain h xs where h: "R h = Some xs" "x \<in> set (h # xs)" unfolding cells_iff by blast
  then have "h \<in> dom R" by blast
  then consider "h = lru_link (lru_head lru)" | k where "k \<in> {0..<hash_head_size lru}" "h = hash_bucket lru k"
    unfolding lru_queuesD(3) [OF assms] by blast
  then show "x \<in> insert (lru_link (lru_head lru)) (hash_bucket lru ` {0..<hash_head_size lru} \<union> lru_link ` set ns \<union> set ns)"
  proof cases
    case 1
    then show ?thesis using h lru_queuesD(2) [OF assms] by auto
  next
    case 2
    then show ?thesis using h lru_queuesD(4) [OF assms 2(1)] by auto
  qed
qed

lemma lru_fresh:
  assumes Q: "lru_queues m lru ns R" and P: "lru_pieces m' lru (n # ns)"
  shows "n \<notin> cells R" "lru_link n \<notin> cells R"
proof -
  have ns: "n \<notin> set ns" using P by (simp add: lru_pieces_def)
  have n: "n \<in> set (n # ns)" by simp
  have s: "n' \<in> set (n # ns)" if "n' \<in> set ns" for n' using that by simp
  note A = lru_cells_apart [OF P]
  show "n \<notin> cells R"
  proof
    assume "n \<in> cells R"
    then consider "n = lru_link (lru_head lru)" | k where "k \<in> {0..<hash_head_size lru}" "n = hash_bucket lru k"
      | n' where "n' \<in> set ns" "n = lru_link n'" | "n \<in> set ns"
      using lru_cells [OF Q] by blast
    then show False by cases (use A(1) [OF n s] A(2) [OF n] A(4) [OF _ n] ns in blast)+
  qed
  show "lru_link n \<notin> cells R"
  proof
    assume "lru_link n \<in> cells R"
    then consider "lru_link n = lru_link (lru_head lru)" | k where "k \<in> {0..<hash_head_size lru}" "lru_link n = hash_bucket lru k"
      | n' where "n' \<in> set ns" "lru_link n = lru_link n'" | "lru_link n \<in> set ns"
      using lru_cells [OF Q] by blast
    then show False
    proof cases
      case 4
      then show False using A(1) [OF s n] by blast
    qed (use A(3) [OF n] A(5) [OF _ n] ns in auto)
  qed
qed

text \<open>A fresh node in front of its bucket and of the use queue.\<close>

lemma lru_insert_queues:
  assumes Q: "lru_queues m lru ns R" and P: "lru_pieces m lru (n # ns)"
    and k: "k = lpage_id m n mod hash_head_size lru" "0 < hash_head_size lru"
  shows "\<exists>R'. lru_queues (lru_insert lru (hash_bucket lru k) n m) lru (n # ns) R'"
proof -
  let ?h = "lru_link (lru_head lru)"
  note D = lru_queuesD [OF Q]
  note F = lru_fresh [OF Q P]
  have kr: "k \<in> {0..<hash_head_size lru}" using k by simp
  have ne: "hash_bucket lru j \<noteq> ?h" if "j \<in> {0..<hash_head_size lru}" for j
    using lru_cells_apart(6) [OF P that] by simp
  obtain b where b: "R (hash_bucket lru k) = Some b" "set b = {n' \<in> set ns. lpage_id m n' mod hash_head_size lru = k}"
    using D(4) [OF kr] by blast
  define R1 where "R1 = R(?h \<mapsto> lru_link n # map lru_link ns)"
  define m1 where "m1 = etdb_queue_insert_head ?h (lru_link n) m"
  have r1: "qheap m1 R1" unfolding R1_def m1_def by (rule qs.insert_head [OF D(1,2) F(2)])
  have "cells R1 \<subseteq> cells R \<union> set (?h # lru_link n # map lru_link ns)" unfolding R1_def by (rule cells_upd(2))
  moreover have "set (?h # map lru_link ns) \<subseteq> cells R" by (rule qheapD(2) [OF D(1,2)])
  moreover have "n \<noteq> lru_link n" by (simp add: lru_link_def lru_offset_def)
  ultimately have "n \<notin> cells R1" using F(1) by auto
  then have "qheap (etdb_queue_insert_head (hash_bucket lru k) n m1) (R1(hash_bucket lru k \<mapsto> n # b))"
    by (intro qs.insert_head [OF r1]) (use b ne [OF kr] in \<open>simp add: R1_def\<close>)
  moreover have "\<exists>c. (R1(hash_bucket lru k \<mapsto> n # b)) (hash_bucket lru j) = Some c \<and>
      set c = {n' \<in> set (n # ns). lpage_id m n' mod hash_head_size lru = j}" if "j \<in> {0..<hash_head_size lru}" for j
    using D(4) [OF that] ne [OF that] b k(1) by (cases "j = k") (auto simp: R1_def)
  moreover have "dom (R1(hash_bucket lru k \<mapsto> n # b)) = dom R" using b D(2) by (auto simp: R1_def)
  ultimately have "lru_queues (lru_insert lru (hash_bucket lru k) n m) lru (n # ns) (R1(hash_bucket lru k \<mapsto> n # b))"
    using ne [OF kr] D(3) by (simp add: lru_queues_def lru_insert_def m1_def R1_def)
  then show ?thesis by blast
qed

text \<open>A node moves to the front of the use queue.\<close>

lemma lru_move_queues:
  assumes Q: "lru_queues m lru (xs @ n # ys) R" and P: "lru_pieces m lru (xs @ n # ys)"
  shows "\<exists>R'. lru_queues (etdb_queue_insert_head (lru_link (lru_head lru)) (lru_link n) (etdb_queue_remove (lru_link n) m))
    lru (n # xs @ ys) R'"
proof -
  let ?h = "lru_link (lru_head lru)" and ?ns = "lru_link n # map lru_link xs @ map lru_link ys"
  note D = lru_queuesD [OF Q]
  have ne: "hash_bucket lru j \<noteq> ?h" if "j \<in> {0..<hash_head_size lru}" for j
    using lru_cells_apart(6) [OF P that] by simp
  have "qheap (etdb_queue_insert_head ?h (lru_link n) (etdb_queue_remove (lru_link n) m)) (R(?h \<mapsto> ?ns))"
    by (rule qs.move_to_front [OF D(1)]) (simp add: D(2))
  moreover have "\<exists>c. (R(?h \<mapsto> ?ns)) (hash_bucket lru j) = Some c \<and>
      set c = {n' \<in> set (n # xs @ ys). lpage_id m n' mod hash_head_size lru = j}" if "j \<in> {0..<hash_head_size lru}" for j
    using D(4) [OF that] ne [OF that] by auto
  moreover have "dom (R(?h \<mapsto> ?ns)) = dom R" using D(2) by auto
  ultimately show ?thesis using D(3) by (auto simp: lru_queues_def intro!: exI [of _ "R(?h \<mapsto> ?ns)"])
qed

text \<open>The last node leaves both of its queues.\<close>

lemma lru_evict_queues:
  assumes Q: "lru_queues m lru (xs @ [n]) R" and P: "lru_pieces m lru (xs @ [n])" and hs: "0 < hash_head_size lru"
  shows "\<exists>R'. lru_queues (etdb_queue_remove n (etdb_queue_remove (qprev m (lru_link (lru_head lru))) m)) lru xs R'"
    "qprev m (lru_link (lru_head lru)) = lru_link n"
proof -
  let ?h = "lru_link (lru_head lru)" and ?k = "lpage_id m n mod hash_head_size lru"
  note D = lru_queuesD [OF Q]
  have ne: "hash_bucket lru j \<noteq> ?h" if "j \<in> {0..<hash_head_size lru}" for j
    using lru_cells_apart(6) [OF P that] by simp
  have kr: "?k \<in> {0..<hash_head_size lru}" using hs by simp
  show top: "qprev m ?h = lru_link n" using qs.prev_last [OF D(1,2)] by simp
  obtain b where b: "R (hash_bucket lru ?k) = Some b" "set b = {n' \<in> set (xs @ [n]). lpage_id m n' mod hash_head_size lru = ?k}"
    using D(4) [OF kr] by blast
  obtain b1 b2 where s: "b = b1 @ n # b2" using split_list [of n b] b(2) by auto
  define R1 where "R1 = R(?h \<mapsto> map lru_link xs)"
  define m1 where "m1 = etdb_queue_remove (lru_link n) m"
  have r1: "qheap m1 R1"
    using qs.remove [OF D(1), of ?h "map lru_link xs" "lru_link n" "[]"] D(2) by (simp add: R1_def m1_def)
  have R1b: "R1 (hash_bucket lru ?k) = Some (b1 @ n # b2)" using b(1) ne [OF kr] s by (simp add: R1_def)
  have r2: "qheap (etdb_queue_remove n m1) (R1(hash_bucket lru ?k \<mapsto> b1 @ b2))" by (rule qs.remove [OF r1 R1b])
  have "distinct (hash_bucket lru ?k # b1 @ n # b2)" by (rule qs.distinct_cells [OF r1 R1b])
  then have sb: "set (b1 @ b2) = set b - {n}" using s by auto
  have nx: "n \<notin> set xs" using P by (simp add: lru_pieces_def)
  have "\<exists>c. (R1(hash_bucket lru ?k \<mapsto> b1 @ b2)) (hash_bucket lru j) = Some c \<and>
      set c = {n' \<in> set xs. lpage_id m n' mod hash_head_size lru = j}" if j: "j \<in> {0..<hash_head_size lru}" for j
  proof (cases "j = ?k")
    case True
    have "set (b1 @ b2) = {n' \<in> set xs. lpage_id m n' mod hash_head_size lru = ?k}" unfolding sb b(2) using nx by auto
    then show ?thesis using True by simp
  next
    case False
    then show ?thesis using D(4) [OF j] ne [OF j] by (auto simp: R1_def)
  qed
  moreover have "dom (R1(hash_bucket lru ?k \<mapsto> b1 @ b2)) = dom R" using b D(2) by (auto simp: R1_def)
  ultimately have "lru_queues (etdb_queue_remove n m1) lru xs (R1(hash_bucket lru ?k \<mapsto> b1 @ b2))"
    using r2 ne [OF kr] D(3) unfolding lru_queues_def by (simp add: m1_def R1_def)
  then show "\<exists>R'. lru_queues (etdb_queue_remove n (etdb_queue_remove (qprev m ?h) m)) lru xs R'"
    unfolding top m1_def by blast
qed

section \<open>The look-up\<close>

lemma hash_walk_run:
  assumes "linked m (xs @ [h])" "h \<notin> set xs"
  shows "hash_walk m h (hd (xs @ [h])) page_id = Some (find (\<lambda>n. lpage_id m n = page_id) xs)"
  using assms
proof (induction xs)
  case Nil
  then show ?case by (subst hash_walk.simps) simp
next
  case (Cons x xs)
  from Cons.prems have "qnext m x = hd (xs @ [h])" "linked m (xs @ [h])"
    by (cases xs; simp)+
  with Cons show ?case by (subst hash_walk.simps) simp
qed

lemma lru_walk:
  assumes Q: "lru_queues m lru ns R" and k: "k = page_id mod hash_head_size lru" "0 < hash_head_size lru"
    and d: "distinct (map (lpage_id m) ns)"
  shows "n \<in> set ns \<Longrightarrow> lpage_id m n = page_id \<Longrightarrow>
      hash_walk m (hash_bucket lru k) (qnext m (hash_bucket lru k)) page_id = Some (Some n)"
    "page_id \<notin> lpage_id m ` set ns \<Longrightarrow>
      hash_walk m (hash_bucket lru k) (qnext m (hash_bucket lru k)) page_id = Some None"
proof -
  obtain b where b: "R (hash_bucket lru k) = Some b" "set b = {n \<in> set ns. lpage_id m n mod hash_head_size lru = k}"
    using lru_queuesD(4) [OF Q, of k] k by auto
  have q: "queue m (hash_bucket lru k) b" by (rule qheapD(1) [OF lru_queuesD(1) [OF Q] b(1)])
  have w: "hash_walk m (hash_bucket lru k) (qnext m (hash_bucket lru k)) page_id = Some (find (\<lambda>n. lpage_id m n = page_id) b)"
    using hash_walk_run [of m b "hash_bucket lru k" page_id] queue_linked_tl [OF q] queue_ends(1) [OF q] by simp
  show "hash_walk m (hash_bucket lru k) (qnext m (hash_bucket lru k)) page_id = Some None" if "page_id \<notin> lpage_id m ` set ns"
    using that b(2) unfolding w by (auto simp: find_None_iff)
  assume n: "n \<in> set ns" "lpage_id m n = page_id"
  then have nb: "n \<in> set b" using b(2) k(1) by simp
  obtain n' where f: "find (\<lambda>n. lpage_id m n = page_id) b = Some n'"
    using nb n(2) by (cases "find (\<lambda>n. lpage_id m n = page_id) b") (auto simp: find_None_iff)
  then have "n' \<in> set b" "lpage_id m n' = page_id" by (auto simp: find_Some_iff)
  then have "n' = n" using n b(2) d by (auto simp: distinct_map dest: inj_onD)
  then show "hash_walk m (hash_bucket lru k) (qnext m (hash_bucket lru k)) page_id = Some (Some n)" using w f by simp
qed

section \<open>New nodes\<close>

text \<open>The system has memory for one more node and its page.\<close>

definition lru_memory :: "sysalloc \<Rightarrow> etdb_lru \<Rightarrow> lru_mem \<Rightarrow> bool" where
  "lru_memory alloc lru m \<longleftrightarrow>
     (case etdb_palloc alloc (lpool lru) lru_node_size (page_heap m) of None \<Rightarrow> False
      | Some (n, h) \<Rightarrow> n \<noteq> 0 \<and>
          (case etdb_palloc alloc (lpool lru) ETDB_PAGE_SIZE h of None \<Rightarrow> False | Some (v, h) \<Rightarrow> v \<noteq> 0))"

lemma apart_irrefl: "0 < n \<Longrightarrow> \<not> apart (a, n) (a, n)"
  by (simp add: apart_def)

lemma pool_rep_first: "pool_rep m pool bs psize (c # cs) \<Longrightarrow> d \<in> set cs \<Longrightarrow> apart c d"
  by (simp add: pool_rep_def)

text \<open>Both pieces are new.\<close>

lemma lru_take_new:
  assumes P: "lru_pieces m lru ns" and al: "alloc_ok alloc" and mem: "lru_memory alloc lru m"
    and s: "cache_size lru \<noteq> capacity lru"
  shows "\<exists>n v h. lru_take alloc lru m = Some (n, lru\<lparr>cache_size := uint32 (cache_size lru + 1)\<rparr>,
      m\<lparr>page_heap := h, lpage_value := (lpage_value m)(n := v)\<rparr>) \<and> n \<notin> set ns \<and> pbytes h = pbytes (page_heap m) \<and>
    lru_pieces (m\<lparr>page_heap := h, lpage_value := (lpage_value m)(n := v)\<rparr>) (lru\<lparr>cache_size := c\<rparr>) (n # ns)"
proof -
  let ?p = "lpool lru"
  obtain bs psize cs where R: "pool_rep (page_heap m) ?p bs psize cs" "list_all (\<lambda>c. 0 < snd c) cs"
    "pool_large_size \<le> pmax (pools (page_heap m) ?p)" "lru_node_size \<le> pmax (pools (page_heap m) ?p)"
    "(lru_head lru, lru_node_size) \<in> set cs" "(hash_head lru, lru_node_size * hash_head_size lru) \<in> set cs"
    "\<forall>n\<in>set ns. (n, lru_node_size) \<in> set cs \<and> (lpage_value m n, ETDB_PAGE_SIZE) \<in> set cs"
    and D: "distinct (lru_head lru # hash_head lru # ns)" "distinct (map (lpage_value m) ns)"
    using P by (auto simp: lru_pieces_def)
  obtain n h1 bs1 where A: "etdb_palloc alloc ?p lru_node_size (page_heap m) = Some (n, h1)"
    "pmax (pools h1 ?p) = pmax (pools (page_heap m) ?p)" "pbytes h1 = pbytes (page_heap m)"
    "n \<noteq> 0 \<longrightarrow> (\<exists>cs'. pool_rep h1 ?p bs1 psize ((n, lru_node_size) # cs' @ cs) \<and> list_all (\<lambda>c. 0 < snd c) cs')"
    using palloc_run [OF R(1) al _ R(3), of lru_node_size] by (auto simp: lru_node_size_def split: if_splits)
  have n: "n \<noteq> 0" using mem A(1) by (simp add: lru_memory_def)
  obtain cs1 where c1: "pool_rep h1 ?p bs1 psize ((n, lru_node_size) # cs1 @ cs)" "list_all (\<lambda>c. 0 < snd c) cs1"
    using A(4) n by blast
  obtain v h2 bs2 where B: "etdb_palloc alloc ?p ETDB_PAGE_SIZE h1 = Some (v, h2)"
    "pmax (pools h2 ?p) = pmax (pools h1 ?p)" "pbytes h2 = pbytes h1"
    "v \<noteq> 0 \<longrightarrow> (\<exists>cs'. pool_rep h2 ?p bs2 psize ((v, ETDB_PAGE_SIZE) # cs' @ (n, lru_node_size) # cs1 @ cs) \<and> list_all (\<lambda>c. 0 < snd c) cs')"
    using palloc_run [OF c1(1) al, of ETDB_PAGE_SIZE] R(3) A(2) by (auto simp: ETDB_PAGE_SIZE_def split: if_splits)
  have v: "v \<noteq> 0" using mem A(1) B(1) n by (simp add: lru_memory_def)
  obtain cs2 where c2: "pool_rep h2 ?p bs2 psize ((v, ETDB_PAGE_SIZE) # cs2 @ (n, lru_node_size) # cs1 @ cs)" "list_all (\<lambda>c. 0 < snd c) cs2"
    using B(4) v by blast
  have na: "apart (n, lru_node_size) d" if "d \<in> set cs" for d using pool_rep_first [OF c1(1)] that by simp
  have va: "apart (v, ETDB_PAGE_SIZE) d" if "d \<in> set cs" for d using pool_rep_first [OF c2(1)] that by simp
  have nn: "n \<notin> set ns" "n \<noteq> lru_head lru"
    using na R(5,7) apart_irrefl [of lru_node_size n] by (auto simp: lru_node_size_def)
  have nh: "n \<noteq> hash_head lru"
  proof
    assume "n = hash_head lru"
    then have "apart (n, lru_node_size) (n, lru_node_size * hash_head_size lru)" using na R(6) by blast
    moreover have "0 < lru_node_size * hash_head_size lru" using R(2,6) by (auto simp: list_all_iff)
    ultimately show False by (simp add: apart_def lru_node_size_def)
  qed
  have vv: "v \<notin> lpage_value m ` set ns"
    using va R(7) apart_irrefl [of ETDB_PAGE_SIZE v] by (auto simp: ETDB_PAGE_SIZE_def)
  let ?m = "m\<lparr>page_heap := h2, lpage_value := (lpage_value m)(n := v)\<rparr>"
  have "lru_pieces ?m (lru\<lparr>cache_size := c\<rparr>) (n # ns)"
  proof (rule lru_piecesI)
    show "pool_rep (page_heap ?m) (lpool (lru\<lparr>cache_size := c\<rparr>)) bs2 psize ((v, ETDB_PAGE_SIZE) # cs2 @ (n, lru_node_size) # cs1 @ cs)"
      using c2(1) by simp
    show "list_all (\<lambda>c. 0 < snd c) ((v, ETDB_PAGE_SIZE) # cs2 @ (n, lru_node_size) # cs1 @ cs)"
      using R(2) c1(2) c2(2) by (simp add: ETDB_PAGE_SIZE_def lru_node_size_def)
    show "distinct (map (lpage_value ?m) (n # ns))"
      using D(2) vv nn(1) by (auto simp: distinct_map inj_on_def)
    show "distinct (lru_head (lru\<lparr>cache_size := c\<rparr>) # hash_head (lru\<lparr>cache_size := c\<rparr>) # n # ns)"
      using D(1) nn nh by auto
    fix n' assume "n' \<in> set (n # ns)"
    then show "(n', lru_node_size) \<in> set ((v, ETDB_PAGE_SIZE) # cs2 @ (n, lru_node_size) # cs1 @ cs) \<and>
        (lpage_value ?m n', ETDB_PAGE_SIZE) \<in> set ((v, ETDB_PAGE_SIZE) # cs2 @ (n, lru_node_size) # cs1 @ cs)"
      using R(7) nn(1) by auto
  qed (use R(3-6) A(2) B(2) in simp_all)
  moreover have "lru_take alloc lru m = Some (n, lru\<lparr>cache_size := uint32 (cache_size lru + 1)\<rparr>, ?m)"
    using A(1) B(1) n s by (simp add: lru_take_def)
  ultimately show ?thesis using nn(1) A(3) B(3) by auto
qed

section \<open>The contents of a new node\<close>

lemma lru_queues_cong:
  assumes "lru_queues m lru ns R" "qnext m' = qnext m" "qprev m' = qprev m" "\<And>n. n \<in> set ns \<Longrightarrow> lpage_id m' n = lpage_id m n"
    "hash_head lru' = hash_head lru" "lru_head lru' = lru_head lru" "hash_head_size lru' = hash_head_size lru"
  shows "lru_queues m' lru' ns R"
proof -
  have "{n \<in> set ns. lpage_id m' n mod hash_head_size lru' = k} = {n \<in> set ns. lpage_id m n mod hash_head_size lru = k}" for k
    using assms(4,7) by auto
  moreover have "hash_bucket lru' = hash_bucket lru" by (simp add: hash_bucket_def assms(5) fun_eq_iff)
  ultimately show ?thesis using assms(1,6,7) qheap_links [OF assms(2,3)] unfolding lru_queues_def by simp
qed

lemma write_pool_rep: "pool_rep h pool bs psize cs \<Longrightarrow> pool_rep (write_at a x h) pool bs psize cs"
  by (auto simp: write_at_def intro: pool_rep_cong)

lemma write_at_acc [simp]: "pools (write_at a x h) = pools h"
  by (simp add: write_at_def)

lemma lru_pieces_write:
  assumes "lru_pieces m lru ns" "page_heap m' = write_at a x (page_heap m)" "lpage_value m' = lpage_value m"
  shows "lru_pieces m' lru ns"
  using assms write_pool_rep unfolding lru_pieces_def by fastforce

lemma set_page_id_acc [simp]:
  "qnext (set_page_id n i m) = qnext m" "qprev (set_page_id n i m) = qprev m"
  "lpage_id (set_page_id n i m) = (lpage_id m)(n := i)" "lpage_value (set_page_id n i m) = lpage_value m"
  "page_heap (set_page_id n i m) = page_heap m"
  by (simp_all add: set_page_id_def)

text \<open>The transfer fills the page of the node and leaves the others alone.\<close>

lemma lru_read:
  assumes P: "lru_pieces m lru (n # ns)" and x: "rd (lpage_id m n * ETDB_PAGE_SIZE) = Some x" "length x = nat ETDB_PAGE_SIZE"
  obtains m' where "read_page rd n m = Some m'" "lru_pieces m' lru (n # ns)"
    "\<And>n'. n' \<in> set ns \<Longrightarrow> page_bytes m' n' = page_bytes m n'" "page_bytes m' n = x"
    "qnext m' = qnext m" "qprev m' = qprev m" "lpage_id m' = lpage_id m" "lpage_value m' = lpage_value m"
proof -
  let ?m = "m\<lparr>page_heap := write_at (lpage_value m n) x (page_heap m)\<rparr>"
  have v: "0 < lpage_value m n" by (rule lru_apart(6) [OF P]) simp
  then have "read_page rd n m = Some ?m" using x by (simp add: read_page_def)
  moreover have "lru_pieces ?m lru (n # ns)" by (rule lru_pieces_write [OF P]) simp_all
  moreover have "page_bytes ?m n = x"
    using bytes_at_write [of "lpage_value m n" x "page_heap m"] x(2) by (simp add: page_bytes_def)
  moreover have "page_bytes ?m n' = page_bytes m n'" if n': "n' \<in> set ns" for n'
  proof -
    have "n \<noteq> n'" using P n' by (auto simp: lru_pieces_def)
    then have "apart (lpage_value m n, ETDB_PAGE_SIZE) (lpage_value m n', ETDB_PAGE_SIZE)"
      using lru_apart(5) [OF P, of n n'] n' by simp
    then show ?thesis
      unfolding page_bytes_def using x(2) by (auto simp: apart_def write_at_def ETDB_PAGE_SIZE_def intro!: bytes_at_cong)
  qed
  ultimately show thesis by (intro that [of ?m]) simp_all
qed

lemma page_bytes_heap: "page_heap m' = page_heap m \<Longrightarrow> lpage_value m' n = lpage_value m n \<Longrightarrow> page_bytes m' n = page_bytes m n"
  by (simp add: page_bytes_def)

text \<open>The nodes of a cache.\<close>

definition lru_state :: "lru_mem \<Rightarrow> etdb_lru \<Rightarrow> addr list \<Rightarrow> bool" where
  "lru_state m lru ns \<longleftrightarrow> lru_pieces m lru ns \<and> (\<exists>R. lru_queues m lru ns R) \<and>
     lru_rep m lru (map (\<lambda>n. (lpage_id m n, page_bytes m n)) ns)"

lemma lru_stateI:
  assumes "lru_pieces m lru ns" "lru_queues m lru ns R" "distinct (map (lpage_id m) ns)" "list_all (\<lambda>n. 0 \<le> lpage_id m n) ns"
    "cache_size lru = int (length ns)" "cache_size lru \<le> capacity lru" "capacity lru < 2 ^ 32" "3 \<le> capacity lru"
    "hash_head_size lru = capacity lru div 3"
  shows "lru_state m lru ns"
proof -
  let ?ps = "map (\<lambda>n. (lpage_id m n, page_bytes m n)) ns"
  have "distinct (map fst ?ps)" "list_all (\<lambda>p. 0 \<le> fst p) ?ps" "cache_size lru = int (length ?ps)"
    using assms(3-5) by (simp_all add: comp_def list.pred_map)
  then have "lru_rep m lru ?ps" using assms(1,2,6-9) unfolding lru_rep_def by blast
  then show ?thesis using assms(1,2) unfolding lru_state_def by blast
qed

lemma lru_rep_state: "lru_rep m lru ps \<longleftrightarrow> (\<exists>ns. lru_state m lru ns \<and> map (\<lambda>n. (lpage_id m n, page_bytes m n)) ns = ps)"
  unfolding lru_state_def lru_rep_def by blast

text \<open>A node with its page in place enters the cache.\<close>

lemma lru_enter:
  assumes P: "lru_pieces m lru (n # ns)" and Q: "lru_queues m lru ns R" and hs: "0 < hash_head_size lru"
    and ps: "distinct (map fst ps)" "list_all (\<lambda>p. 0 \<le> fst p) ps" "map (\<lambda>n. (lpage_id m n, page_bytes m n)) ns = ps"
    and i: "0 \<le> lpage_id m n" "lpage_id m n \<notin> fst ` set ps" "k = lpage_id m n mod hash_head_size lru"
    and c: "cache_size lru = int (length ps) + 1" "cache_size lru \<le> capacity lru" "capacity lru < 2 ^ 32" "3 \<le> capacity lru"
      "hash_head_size lru = capacity lru div 3"
  shows "lru_state (lru_insert lru (hash_bucket lru k) n m) lru (n # ns)"
proof -
  let ?m = "lru_insert lru (hash_bucket lru k) n m"
  obtain R' where R': "lru_queues ?m lru (n # ns) R'" using lru_insert_queues [OF Q P i(3) hs] by blast
  have P': "lru_pieces ?m lru (n # ns)"
    by (rule lru_pieces_sub [OF P]) (use P in \<open>simp_all add: lru_pieces_def\<close>)
  have "map (\<lambda>n. (lpage_id ?m n, page_bytes ?m n)) (n # ns) = (lpage_id m n, page_bytes m n) # ps"
    using ps(3) by (simp add: page_bytes_def)
  then have "lru_rep ?m lru (map (\<lambda>n. (lpage_id ?m n, page_bytes ?m n)) (n # ns))"
    using P' R' ps(1,2) i(1,2) c unfolding lru_rep_def by auto
  then show ?thesis using P' R' unfolding lru_state_def by blast
qed

lemma lru_repD:
  assumes "lru_rep m lru ps"
  obtains ns R where "lru_pieces m lru ns" "lru_queues m lru ns R" "map (\<lambda>n. (lpage_id m n, page_bytes m n)) ns = ps"
    "length ns = length ps" "distinct (map (lpage_id m) ns)"
proof -
  obtain ns R where a: "lru_pieces m lru ns" "lru_queues m lru ns R" "map (\<lambda>n. (lpage_id m n, page_bytes m n)) ns = ps"
    "distinct (map fst ps)"
    using assms by (auto simp: lru_rep_def)
  have "length ns = length ps" using arg_cong [OF a(3), of length] by simp
  moreover have "distinct (map (lpage_id m) ns)" using a(4) unfolding a(3) [symmetric] by (simp add: comp_def)
  ultimately show thesis using that a by blast
qed

lemma lru_rep_bounds:
  assumes "lru_rep m lru ps"
  shows "distinct (map fst ps)" "list_all (\<lambda>p. 0 \<le> fst p) ps" "cache_size lru = int (length ps)" "int (length ps) \<le> capacity lru"
    "capacity lru < 2 ^ 32" "3 \<le> capacity lru" "hash_head_size lru = capacity lru div 3" "0 < hash_head_size lru"
    "0 \<le> page_id \<Longrightarrow> hit_idx lru page_id = page_id mod hash_head_size lru"
proof -
  show b: "distinct (map fst ps)" "list_all (\<lambda>p. 0 \<le> fst p) ps" "cache_size lru = int (length ps)" "int (length ps) \<le> capacity lru"
    "capacity lru < 2 ^ 32" "3 \<le> capacity lru" "hash_head_size lru = capacity lru div 3"
    using assms by (auto simp: lru_rep_def)
  then show hs: "0 < hash_head_size lru" by auto
  assume "0 \<le> page_id"
  then have "page_id smod hash_head_size lru = page_id mod hash_head_size lru" using hs by (cases "page_id = 0") (simp_all add: smod_int_alt_def)
  moreover have "page_id mod hash_head_size lru < hash_head_size lru" "0 \<le> page_id mod hash_head_size lru" using hs by simp_all
  moreover have "hash_head_size lru < 2 ^ 32" using b(5,7) hs by auto
  ultimately show "hit_idx lru page_id = page_id mod hash_head_size lru"
    by (simp add: hit_idx_def uint32_def del: pos_mod_bound pos_mod_sign)
qed

text \<open>What taking a node leaves: the pages that stay, and a node that is in no queue.\<close>

lemma lru_take_spec:
  assumes L: "lru_rep m lru ps" and al: "alloc_ok alloc" and mem: "int (length ps) < capacity lru \<longrightarrow> lru_memory alloc lru m"
  shows "\<exists>n lru' m' ns R. lru_take alloc lru m = Some (n, lru', m') \<and> lru_pieces m' lru' (n # ns) \<and> lru_queues m' lru' ns R \<and>
    map (\<lambda>n. (lpage_id m' n, page_bytes m' n)) ns = take (nat (capacity lru) - 1) ps \<and>
    lru' = lru\<lparr>cache_size := int (length (take (nat (capacity lru) - 1) ps)) + 1\<rparr>"
proof -
  obtain ns R where P: "lru_pieces m lru ns" "lru_queues m lru ns R" "map (\<lambda>n. (lpage_id m n, page_bytes m n)) ns = ps"
    "length ns = length ps" "distinct (map (lpage_id m) ns)" by (rule lru_repD [OF L])
  note B = lru_rep_bounds [OF L]
  show ?thesis
  proof (cases "int (length ps) = capacity lru")
    case True
    then have "ns \<noteq> []" using P(4) B(6) by auto
    then obtain xs z where ns: "ns = xs @ [z]" by (cases ns rule: rev_cases) auto
    let ?m = "etdb_queue_remove z (etdb_queue_remove (qprev m (lru_link (lru_head lru))) m)"
    obtain R' where R': "lru_queues ?m lru xs R'"
      using lru_evict_queues(1) [OF P(2) [unfolded ns] P(1) [unfolded ns] B(8)] by blast
    have top: "qprev m (lru_link (lru_head lru)) = lru_link z"
      by (rule lru_evict_queues(2) [OF P(2) [unfolded ns] P(1) [unfolded ns] B(8)])
    have t: "take (nat (capacity lru) - 1) ps = map (\<lambda>n. (lpage_id m n, page_bytes m n)) xs"
    proof -
      have "nat (capacity lru) - 1 = length xs" using True P(4) ns by simp
      then show ?thesis unfolding P(3) [symmetric] ns by simp
    qed
    have "lru_take alloc lru m = Some (z, lru, ?m)"
      using True B(3) top by (simp only: lru_take_def Let_def lru_link_def simp_thms if_True add_diff_cancel_right')
    moreover have "lru_pieces ?m lru (z # xs)"
      by (rule lru_pieces_sub [OF P(1)]) (use P(1) ns in \<open>auto simp: lru_pieces_def\<close>)
    moreover have "lru = lru\<lparr>cache_size := int (length (take (nat (capacity lru) - 1) ps)) + 1\<rparr>"
      unfolding t using B(3) P(4) ns by simp
    moreover have "map (\<lambda>n. (lpage_id ?m n, page_bytes ?m n)) xs = take (nat (capacity lru) - 1) ps"
      unfolding t by (simp add: page_bytes_def)
    ultimately show ?thesis using R' by (intro exI conjI)
  next
    case False
    then have lt: "length ps < nat (capacity lru)" using B(4) by linarith
    let ?c = "int (length ps) + 1"
    obtain n v h where N: "lru_take alloc lru m = Some (n, lru\<lparr>cache_size := uint32 (cache_size lru + 1)\<rparr>,
        m\<lparr>page_heap := h, lpage_value := (lpage_value m)(n := v)\<rparr>)" "n \<notin> set ns" "pbytes h = pbytes (page_heap m)"
      "lru_pieces (m\<lparr>page_heap := h, lpage_value := (lpage_value m)(n := v)\<rparr>) (lru\<lparr>cache_size := ?c\<rparr>) (n # ns)"
      using lru_take_new [OF P(1) al, of ?c] mem False B(3,4) by auto
    let ?m = "m\<lparr>page_heap := h, lpage_value := (lpage_value m)(n := v)\<rparr>"
    have c: "uint32 (cache_size lru + 1) = ?c" using B(3,5) lt by (simp add: uint32_def)
    have q: "lru_queues ?m (lru\<lparr>cache_size := ?c\<rparr>) ns R" by (rule lru_queues_cong [OF P(2)]) simp_all
    have "map (\<lambda>n. (lpage_id ?m n, page_bytes ?m n)) ns = ps"
      unfolding P(3) [symmetric] using N(2,3) by (auto simp: page_bytes_def intro!: bytes_at_cong)
    then show ?thesis using N(1,4) q lt unfolding c by auto
  qed
qed

section \<open>The empty cache\<close>

definition empty_heads :: "etdb_lru \<Rightarrow> nat \<Rightarrow> addr \<rightharpoonup> addr list" where
  "empty_heads lru k h = (if h \<in> hash_bucket lru ` {0..<int k} then Some [] else None)"

lemma cells_empty_heads: "cells (empty_heads lru k) = hash_bucket lru ` {0..<int k}"
proof
  show "cells (empty_heads lru k) \<subseteq> hash_bucket lru ` {0..<int k}"
    by (auto simp: cells_iff empty_heads_def split: if_splits)
  show "hash_bucket lru ` {0..<int k} \<subseteq> cells (empty_heads lru k)"
    using cellsI [of "empty_heads lru k" _ "[]"] by (auto simp: empty_heads_def)
qed

lemma empty_heads_Suc: "(empty_heads lru k)(hash_bucket lru (int k) \<mapsto> []) = empty_heads lru (Suc k)"
  by (auto simp: empty_heads_def fun_eq_iff)

lemma init_head_acc [simp]:
  "lpage_id (init_head lru k m) = lpage_id m" "lpage_value (init_head lru k m) = lpage_value m"
  "page_heap (init_head lru k m) = page_heap m"
  by (simp_all add: init_head_def Let_def)

lemma fold_heads_acc [simp]:
  "lpage_id (fold (init_head lru) ks m) = lpage_id m" "lpage_value (fold (init_head lru) ks m) = lpage_value m"
  "page_heap (fold (init_head lru) ks m) = page_heap m"
  by (induction ks arbitrary: m) simp_all

lemma link_not_bucket: "lru_link (hash_bucket lru k) \<noteq> hash_bucket lru j"
proof -
  have "(16 :: int) + 48 * k \<noteq> 48 * j" by presburger
  then show ?thesis by (simp add: lru_link_def lru_offset_def hash_bucket_def lru_node_size_def)
qed

lemma init_heads: "qheap (fold (init_head lru) [0..<k] m) (empty_heads lru k)"
proof (induction k)
  case 0
  have "empty_heads lru 0 = Map.empty" by (simp add: empty_heads_def fun_eq_iff)
  then show ?case by simp
next
  case (Suc k)
  let ?m = "fold (init_head lru) [0..<k] m" and ?n = "hash_bucket lru (int k)"
  have "?n \<notin> cells (empty_heads lru k)" by (auto simp: cells_empty_heads)
  then have q: "qheap (etdb_queue_init ?n ?m) (empty_heads lru (Suc k))"
    unfolding empty_heads_Suc [symmetric] by (rule qs.init [OF Suc])
  have "lru_link ?n \<notin> cells (empty_heads lru (Suc k))" by (auto simp: cells_empty_heads link_not_bucket)
  then have "qheap (init_head lru k ?m) ((empty_heads lru (Suc k))(lru_link ?n \<mapsto> []))"
    using qs.init [OF q] by (simp only: init_head_def [of lru k ?m] Let_def)
  then have "qheap (init_head lru k ?m) (((empty_heads lru (Suc k))(lru_link ?n \<mapsto> []))(lru_link ?n := None))"
    by (rule qheap_drop)
  moreover have "empty_heads lru (Suc k) (lru_link ?n) = None"
    by (auto simp: empty_heads_def link_not_bucket)
  then have "((empty_heads lru (Suc k))(lru_link ?n \<mapsto> []))(lru_link ?n := None) = empty_heads lru (Suc k)"
    by (simp add: fun_eq_iff)
  ultimately show ?case by simp
qed

text \<open>A region in use that the pool does not own is one more piece.\<close>

lemma region_piece:
  assumes "pool_rep h p [p] psize []" "(a, n) \<in> regions h" "a \<noteq> p" "0 < n" "0 < a" "a + n < 2 ^ 63"
  shows "pool_rep h p [p] psize [(a, n)]"
  using assms by (simp add: pool_rep_def placed_piece_def)

definition cache_place :: "addr \<Rightarrow> lru_mem \<Rightarrow> bool" where
  "cache_place self m \<longleftrightarrow> finite (regions (page_heap m)) \<and>
     (\<forall>r\<in>regions (page_heap m). \<forall>s\<in>regions (page_heap m). r \<noteq> s \<longrightarrow> apart r s) \<and>
     (self, lru_node_size) \<in> regions (page_heap m) \<and> 0 < self \<and> self + lru_node_size < 2 ^ 63"

lemma create_pieces:
  assumes c: "cache_place self m" and al: "alloc_ok alloc"
    and e: "etdb_create_pool alloc ETDB_MAX_ALLOC_FROM_POOL (page_heap m) = (p, h)" "p \<noteq> 0"
  shows "pool_rep h p [p] ETDB_MAX_ALLOC_FROM_POOL [(self, lru_node_size)]" "pmax (pools h p) = 4040"
proof -
  note D = c [unfolded cache_place_def]
  have z: "pool_size \<le> ETDB_MAX_ALLOC_FROM_POOL" "8 dvd ETDB_MAX_ALLOC_FROM_POOL"
    by (simp_all add: pool_size_def ETDB_MAX_ALLOC_FROM_POOL_def)
  have P: "pool_rep h p [p] ETDB_MAX_ALLOC_FROM_POOL []"
    by (rule create_rep(1) [OF al z e]) (use D in blast)+
  show "pmax (pools h p) = 4040"
    using create_rep(2) [OF al z e] D by (simp add: pool_size_def ETDB_MAX_ALLOC_FROM_POOL_def)
  obtain h1 where a: "sys_alloc alloc ETDB_MAX_ALLOC_FROM_POOL (page_heap m) = (p, h1)"
    using e by (auto simp: etdb_create_pool_def Let_def split: prod.splits if_splits)
  have a2: "alloc (regions (page_heap m)) ETDB_MAX_ALLOC_FROM_POOL = p"
    using a by (auto simp: sys_alloc_def Let_def split: if_splits)
  have "apart (p, ETDB_MAX_ALLOC_FROM_POOL) (self, lru_node_size)"
    by (rule alloc_okD(4) [OF al _ _ a2 e(2)]) (use D in \<open>simp_all add: ETDB_MAX_ALLOC_FROM_POOL_def\<close>)
  then have ne: "self \<noteq> p" by (auto simp: apart_def ETDB_MAX_ALLOC_FROM_POOL_def lru_node_size_def)
  have "regions h = insert (p, ETDB_MAX_ALLOC_FROM_POOL) (regions (page_heap m))"
    using e a a2 by (auto simp: etdb_create_pool_def sys_alloc_def Let_def split: if_splits)
  then show "pool_rep h p [p] ETDB_MAX_ALLOC_FROM_POOL [(self, lru_node_size)]"
    by (intro region_piece [OF P _ ne]) (use D in \<open>simp_all add: lru_node_size_def\<close>)
qed

lemma etdb_init_lru_rep:
  assumes c: "cache_place self m" and al: "alloc_ok alloc" and cap: "3 \<le> cap" "cap < 2 ^ 32"
    and e: "etdb_init_lru alloc self cap m = Some (lru, m')"
  shows "lru_rep m' lru []" "capacity lru = cap"
proof -
  let ?hs = "cap div 3"
  have hs: "0 < ?hs" using cap(1) by auto
  obtain pool h1 where C: "etdb_create_pool alloc ETDB_MAX_ALLOC_FROM_POOL (page_heap m) = (pool, h1)" by fastforce
  then have p0: "pool \<noteq> 0" using e by (auto simp: etdb_init_lru_def)
  note K = create_pieces [OF c al C p0]
  obtain p h2 where A: "etdb_pcalloc alloc pool (lru_node_size * ?hs) h1 = Some (p, h2)" "p \<noteq> 0"
    and lru: "lru = \<lparr>hash_head = p, lru_head = self, capacity = cap, cache_size = 0, hash_head_size = ?hs, lpool = pool\<rparr>"
    and m': "m' = etdb_queue_init (lru_link self) (fold (init_head lru) [0..<nat ?hs] (m\<lparr>page_heap := h2\<rparr>))"
    using e C p0 hs by (auto simp: etdb_init_lru_def Let_def bind_eq_Some_conv split: if_splits)
  obtain h3 where A1: "etdb_palloc alloc pool (lru_node_size * ?hs) h1 = Some (p, h3)" and
    h2: "h2 = h3\<lparr>pbytes := (\<lambda>a. if p \<le> a \<and> a < p + lru_node_size * ?hs then 0 else pbytes h3 a)\<rparr>"
    using A by (auto simp: etdb_pcalloc_def)
  obtain bs cs where R3: "pmax (pools h3 pool) = 4040"
    "pool_rep h3 pool bs ETDB_MAX_ALLOC_FROM_POOL ((p, lru_node_size * ?hs) # cs @ [(self, lru_node_size)])"
    "list_all (\<lambda>c. 0 < snd c) cs"
    using palloc_run [OF K(1) al, of "lru_node_size * ?hs"] A1 A(2) K(2) hs
    by (auto simp: pool_large_size_def lru_node_size_def)
  have R2: "pool_rep h2 pool bs ETDB_MAX_ALLOC_FROM_POOL ((p, lru_node_size * ?hs) # cs @ [(self, lru_node_size)])"
    by (rule pool_rep_cong [OF R3(2)]) (simp_all add: h2)
  have ap: "apart (p, lru_node_size * ?hs) (self, lru_node_size)" using pool_rep_first [OF R2] by simp
  then have "self \<noteq> p" using hs by (auto simp: apart_def lru_node_size_def)
  have P: "lru_pieces m' lru []"
    by (rule lru_piecesI [of m' lru bs ETDB_MAX_ALLOC_FROM_POOL "(p, lru_node_size * ?hs) # cs @ [(self, lru_node_size)]"])
      (use R2 R3 hs \<open>self \<noteq> p\<close> in \<open>simp_all add: m' lru h2 pool_large_size_def lru_node_size_def\<close>)
  have n: "int (nat ?hs) = hash_head_size lru" using hs by (simp add: lru)
  have "lru_link self \<notin> cells (empty_heads lru (nat ?hs))"
    using lru_cells_apart(6) [OF P] lru unfolding cells_empty_heads n by (metis etdb_lru.select_convs(2) imageE)
  then have "qheap m' ((empty_heads lru (nat ?hs))(lru_link self \<mapsto> []))"
    unfolding m' by (rule qs.init [OF init_heads])
  moreover have "hash_bucket lru k \<noteq> lru_link self" if "k \<in> {0..<hash_head_size lru}" for k
    using lru_cells_apart(6) [OF P that] by (auto simp: lru)
  moreover have "dom (empty_heads lru (nat ?hs)) = hash_bucket lru ` {0..<hash_head_size lru}"
    unfolding n [symmetric] by (auto simp: empty_heads_def split: if_splits)
  ultimately have "lru_queues m' lru [] ((empty_heads lru (nat ?hs))(lru_link self \<mapsto> []))"
    unfolding lru_queues_def n [symmetric] by (auto simp: lru empty_heads_def)
  then show "lru_rep m' lru []" using P cap unfolding lru_rep_def by (auto simp: lru)
  show "capacity lru = cap" by (simp add: lru)
qed

section \<open>Properties\<close>

lemma map_of_page: "page_id \<notin> fst ` set ps \<Longrightarrow> lru_touch c page_id b ps = take c ((page_id, b) # ps)"
  by (simp add: lru_touch_def map_of_eq_None_iff [THEN iffD2])

lemma touch_hit:
  assumes "distinct (map fst (xs @ (page_id, x) # ys))"
  shows "lru_touch c page_id b (xs @ (page_id, x) # ys) = (page_id, x) # xs @ ys"
proof -
  have n: "page_id \<notin> fst ` set xs" "page_id \<notin> fst ` set ys" using assms by auto
  then have "map_of (xs @ (page_id, x) # ys) page_id = Some x"
    by (simp add: map_add_def map_of_eq_None_iff [THEN iffD2])
  moreover have "filter (\<lambda>p. fst p \<noteq> page_id) xs = xs" "filter (\<lambda>p. fst p \<noteq> page_id) ys = ys"
    using n by (auto simp: filter_id_conv)
  ultimately show ?thesis by (simp add: lru_touch_def)
qed

lemma take_touch: "0 < c \<Longrightarrow> take c (p # ps) = p # take (c - 1) ps"
  by (cases c) simp_all

text \<open>A fetch of a page in the cache.\<close>

lemma fetch_node:
  fixes m :: lru_mem and lru :: etdb_lru
  defines "m' \<equiv> \<lambda>n. etdb_queue_insert_head (lru_link (lru_head lru)) (lru_link n) (etdb_queue_remove (lru_link n) m)"
  assumes S: "lru_state m lru (xs @ n # ys)"
  shows "etdb_lru_fetch alloc rd lru (lpage_id m n) m = Some (lpage_value m n, lru, m' n)" "lru_state (m' n) lru (n # xs @ ys)"
proof -
  let ?f = "\<lambda>n. (lpage_id m n, page_bytes m n)"
  obtain R where P: "lru_pieces m lru (xs @ n # ys)" "lru_queues m lru (xs @ n # ys) R" "lru_rep m lru (map ?f (xs @ n # ys))"
    using S by (auto simp: lru_state_def)
  note B = lru_rep_bounds [OF P(3)]
  have d: "distinct (map (lpage_id m) (xs @ n # ys))" "0 \<le> lpage_id m n" using B(1,2) by (simp_all add: comp_def)
  show "etdb_lru_fetch alloc rd lru (lpage_id m n) m = Some (lpage_value m n, lru, m' n)"
    using lru_walk(1) [OF P(2) refl B(8) d(1), of n] B(8) B(9) [OF d(2)] by (simp add: etdb_lru_fetch_def Let_def m'_def)
  obtain R' where R': "lru_queues (m' n) lru (n # xs @ ys) R'" using lru_move_queues [OF P(2,1)] unfolding m'_def by blast
  have p: "lru_pieces (m' n) lru (n # xs @ ys)"
    by (rule lru_pieces_sub [OF P(1)]) (use P(1) in \<open>auto simp: lru_pieces_def m'_def\<close>)
  have "distinct (map (lpage_id (m' n)) (n # xs @ ys))" "list_all (\<lambda>n'. 0 \<le> lpage_id (m' n) n') (n # xs @ ys)"
    "cache_size lru = int (length (n # xs @ ys))"
    using d(1) B(2,3) by (auto simp: m'_def list.pred_map comp_def)
  then show "lru_state (m' n) lru (n # xs @ ys)" using B(3-7) by (intro lru_stateI [OF p R']) simp_all
qed

lemma fetch_hit:
  assumes L: "lru_rep m lru ps" and i: "page_id \<in> fst ` set ps" "0 \<le> page_id"
  shows "\<exists>p m' x. etdb_lru_fetch alloc rd lru page_id m = Some (p, lru, m') \<and> (page_id, x) \<in> set ps \<and>
    lru_rep m' lru (lru_touch c page_id b ps) \<and> hd (lru_touch c page_id b ps) = (page_id, x) \<and>
    bytes_at (page_heap m') p (nat ETDB_PAGE_SIZE) = x"
proof -
  let ?f = "\<lambda>n. (lpage_id m n, page_bytes m n)"
  obtain ns where N: "lru_state m lru ns" "map ?f ns = ps" using L unfolding lru_rep_state by blast
  obtain n where n: "n \<in> set ns" "lpage_id m n = page_id" using i(1) unfolding N(2) [symmetric] by auto
  obtain xs ys where ns: "ns = xs @ n # ys" using split_list [OF n(1)] by blast
  let ?m = "etdb_queue_insert_head (lru_link (lru_head lru)) (lru_link n) (etdb_queue_remove (lru_link n) m)"
  note F = fetch_node [OF N(1) [unfolded ns]]
  have ps: "ps = map ?f xs @ (page_id, page_bytes m n) # map ?f ys" unfolding N(2) [symmetric] ns using n(2) by simp
  have t: "lru_touch c page_id b ps = (page_id, page_bytes m n) # map ?f xs @ map ?f ys"
    unfolding ps by (rule touch_hit) (use lru_rep_bounds(1) [OF L] ps in simp)
  have "map (\<lambda>n'. (lpage_id ?m n', page_bytes ?m n')) (n # xs @ ys) = lru_touch c page_id b ps"
    unfolding t using n(2) by (simp add: page_bytes_def)
  then have "lru_rep ?m lru (lru_touch c page_id b ps)" using F(2) unfolding lru_state_def by simp
  moreover have "(page_id, page_bytes m n) \<in> set ps" unfolding ps by simp
  ultimately show ?thesis using F(1) n(2) unfolding t by (auto simp: page_bytes_def)
qed

text \<open>The page has the node \<open>n\<close>, and its contents are at \<open>p\<close>.\<close>

definition lru_holds :: "lru_mem \<Rightarrow> etdb_lru \<Rightarrow> int \<Rightarrow> int \<Rightarrow> bool" where
  "lru_holds m lru page_id p \<longleftrightarrow> (\<exists>ns. lru_state m lru ns \<and> (\<exists>n\<in>set ns. lpage_id m n = page_id \<and> lpage_value m n = p))"

lemma fetch_miss:
  assumes L: "lru_rep m lru ps" and i: "page_id \<notin> fst ` set ps" "0 \<le> page_id" and al: "alloc_ok alloc"
    and mem: "int (length ps) < capacity lru \<longrightarrow> lru_memory alloc lru m"
    and r: "rd (page_id * ETDB_PAGE_SIZE) = Some x" "length x = nat ETDB_PAGE_SIZE"
  shows "\<exists>p m' lru'. etdb_lru_fetch alloc rd lru page_id m = Some (p, lru', m') \<and> capacity lru' = capacity lru \<and>
    lru_rep m' lru' (lru_touch (nat (capacity lru)) page_id x ps) \<and> lru_holds m' lru' page_id p \<and>
    bytes_at (page_heap m') p (nat ETDB_PAGE_SIZE) = x"
    "\<exists>p m' lru' b. etdb_lru_alloc_entry alloc lru page_id m = Some (p, lru', m') \<and> capacity lru' = capacity lru \<and>
    lru_rep m' lru' (lru_touch (nat (capacity lru)) page_id b ps) \<and> lru_holds m' lru' page_id p \<and>
    bytes_at (page_heap m') p (nat ETDB_PAGE_SIZE) = b"
proof -
  obtain ns0 R0 where P: "lru_pieces m lru ns0" "lru_queues m lru ns0 R0" "map (\<lambda>n. (lpage_id m n, page_bytes m n)) ns0 = ps"
    "length ns0 = length ps" "distinct (map (lpage_id m) ns0)" by (rule lru_repD [OF L])
  note B = lru_rep_bounds [OF L]
  let ?c = "nat (capacity lru)"
  define qs where "qs = take (?c - 1) ps"
  obtain n lru' m1 ns R where T: "lru_take alloc lru m = Some (n, lru', m1)" "lru_pieces m1 lru' (n # ns)" "lru_queues m1 lru' ns R"
    "map (\<lambda>n. (lpage_id m1 n, page_bytes m1 n)) ns = qs" "lru' = lru\<lparr>cache_size := int (length qs) + 1\<rparr>"
    using lru_take_spec [OF L al mem] unfolding qs_def by blast
  let ?k = "page_id mod hash_head_size lru" and ?m2 = "set_page_id n page_id m1"
  have i': "page_id \<notin> lpage_id m ` set ns0" using i(1) unfolding P(3) [symmetric] by force
  have w: "hash_walk m (hash_bucket lru ?k) (qnext m (hash_bucket lru ?k)) page_id = Some None"
    by (rule lru_walk(2) [OF P(2) refl B(8) P(5) i'])
  have hb: "hash_bucket lru' = hash_bucket lru" by (simp add: T(5) hash_bucket_def fun_eq_iff)
  have nn: "n \<notin> set ns" using T(2) by (simp add: lru_pieces_def)
  have P2: "lru_pieces ?m2 lru' (n # ns)" by (rule lru_pieces_sub [OF T(2)]) (use T(2) in \<open>simp_all add: lru_pieces_def\<close>)
  have r': "rd (lpage_id ?m2 n * ETDB_PAGE_SIZE) = Some x" using r(1) by simp
  obtain m3 where R2: "read_page rd n ?m2 = Some m3" "lru_pieces m3 lru' (n # ns)"
    "\<And>n'. n' \<in> set ns \<Longrightarrow> page_bytes m3 n' = page_bytes ?m2 n'" "page_bytes m3 n = x"
    "qnext m3 = qnext ?m2" "qprev m3 = qprev ?m2" "lpage_id m3 = lpage_id ?m2" "lpage_value m3 = lpage_value ?m2"
    by (rule lru_read [OF P2, of rd x]) (use r' r(2) in blast)+
  have Q: "lru_queues ?m2 lru' ns R" "lru_queues m3 lru' ns R"
    by (rule lru_queues_cong [OF T(3)]; use nn in \<open>auto simp del: fun_upd_apply simp: fun_upd_def R2(5-8)\<close>)+
  have qs: "distinct (map fst qs)" "list_all (\<lambda>p. 0 \<le> fst p) qs" "page_id \<notin> fst ` set qs" "int (length qs) + 1 \<le> capacity lru"
    using B(1,2,6) i(1) set_take_subset [of "?c - 1" ps] by (auto simp: qs_def distinct_take take_map [symmetric] list_all_iff)
  have m: "map (\<lambda>n. (lpage_id ?m2 n, page_bytes ?m2 n)) ns = qs" "map (\<lambda>n. (lpage_id m3 n, page_bytes m3 n)) ns = qs"
    unfolding T(4) [symmetric] using nn R2(3) by (auto simp: page_bytes_def R2(7))
  have id: "lpage_id ?m2 n = page_id" "lpage_id m3 n = page_id" by (simp_all add: R2(7))
  have t: "lru_touch ?c page_id b ps = (page_id, b) # qs" for b
    using map_of_page [OF i(1), of ?c b] take_touch [of ?c "(page_id, b)" ps] B(6) by (simp add: qs_def)
  have enter: "lru_rep (lru_insert lru' (hash_bucket lru' ?k) n m') lru' (lru_touch ?c page_id (page_bytes m' n) ps)"
      "lru_holds (lru_insert lru' (hash_bucket lru' ?k) n m') lru' page_id (lpage_value m' n)"
    if "lru_pieces m' lru' (n # ns)" "lru_queues m' lru' ns R" "map (\<lambda>n. (lpage_id m' n, page_bytes m' n)) ns = qs" "lpage_id m' n = page_id" for m'
  proof -
    have s: "lru_state (lru_insert lru' (hash_bucket lru' ?k) n m') lru' (n # ns)"
      using lru_enter [OF that(1,2) _ qs(1,2) that(3), of ?k] that(4) qs(3,4) B(5-8) i(2) by (simp add: T(5))
    then show "lru_rep (lru_insert lru' (hash_bucket lru' ?k) n m') lru' (lru_touch ?c page_id (page_bytes m' n) ps)"
      using that(3,4) unfolding t lru_state_def by (simp add: page_bytes_def)
    show "lru_holds (lru_insert lru' (hash_bucket lru' ?k) n m') lru' page_id (lpage_value m' n)"
      using s that(4) unfolding lru_holds_def by (intro exI [of _ "n # ns"]) simp
  qed
  have f: "etdb_lru_fetch alloc rd lru page_id m = Some (lpage_value m3 n, lru', lru_insert lru' (hash_bucket lru' ?k) n m3)"
    "etdb_lru_alloc_entry alloc lru page_id m = Some (lpage_value ?m2 n, lru', lru_insert lru' (hash_bucket lru' ?k) n ?m2)"
    using w T(1) R2(1) B(8) B(9) [OF i(2)] unfolding hb by (simp_all add: etdb_lru_fetch_def etdb_lru_alloc_entry_def Let_def)
  show "\<exists>p m' lru'. etdb_lru_fetch alloc rd lru page_id m = Some (p, lru', m') \<and> capacity lru' = capacity lru \<and>
      lru_rep m' lru' (lru_touch ?c page_id x ps) \<and> lru_holds m' lru' page_id p \<and>
      bytes_at (page_heap m') p (nat ETDB_PAGE_SIZE) = x"
    using f(1) R2(4) enter [OF R2(2) Q(2) m(2) id(2)] by (auto simp: T(5) page_bytes_def)
  show "\<exists>p m' lru' b. etdb_lru_alloc_entry alloc lru page_id m = Some (p, lru', m') \<and> capacity lru' = capacity lru \<and>
      lru_rep m' lru' (lru_touch ?c page_id b ps) \<and> lru_holds m' lru' page_id p \<and> bytes_at (page_heap m') p (nat ETDB_PAGE_SIZE) = b"
    using f(2) enter [OF P2 Q(1) m(1) id(1)] by (auto simp: T(5) page_bytes_def)
qed

text \<open>
  C26: the page cache behaves as a list of pages ordered by use. Whenever the page is cached, the cache
  is full or the system has memory for one more page, a fetch returns the address of a piece of
  memory with the contents of the page: those it has in the cache, those of the file otherwise. The
  page is the first one afterwards, and of a full cache the page used longest ago is gone; the
  pointers of both queues and the contents of all other pages survive.
\<close>

theorem etdb_lru_fetch_refines:
  assumes "lru_rep m lru ps" "alloc_ok alloc" "0 \<le> page_id" "rd (page_id * ETDB_PAGE_SIZE) = Some x" "length x = nat ETDB_PAGE_SIZE"
    "page_id \<in> fst ` set ps \<or> int (length ps) = capacity lru \<or> lru_memory alloc lru m"
  shows "\<exists>p lru' m'. etdb_lru_fetch alloc rd lru page_id m = Some (p, lru', m') \<and> capacity lru' = capacity lru \<and>
    lru_rep m' lru' (lru_touch (nat (capacity lru)) page_id x ps) \<and>
    bytes_at (page_heap m') p (nat ETDB_PAGE_SIZE) =
      (case map_of ps page_id of Some y \<Rightarrow> y | None \<Rightarrow> x)"
proof (cases "page_id \<in> fst ` set ps")
  case True
  obtain p m' y where f: "etdb_lru_fetch alloc rd lru page_id m = Some (p, lru, m')" "(page_id, y) \<in> set ps"
    "lru_rep m' lru (lru_touch (nat (capacity lru)) page_id x ps)"
    "bytes_at (page_heap m') p (nat ETDB_PAGE_SIZE) = y"
    using fetch_hit [OF assms(1) True assms(3)] by blast
  moreover have "map_of ps page_id = Some y"
    by (rule map_of_is_SomeI [OF lru_rep_bounds(1) [OF assms(1)] f(2)])
  ultimately show ?thesis by auto
next
  case False
  then have "map_of ps page_id = None" by (simp add: map_of_eq_None_iff)
  moreover have "int (length ps) < capacity lru \<longrightarrow> lru_memory alloc lru m" using False assms(6) by auto
  ultimately show ?thesis using fetch_miss(1) [where rd = rd, OF assms(1) False assms(3,2) _ assms(4,5)] by auto
qed

definition example_cache :: lru_mem where
  "example_cache = \<lparr>qprev = \<lambda>_. 0, qnext = \<lambda>_. 0, lpage_id = \<lambda>_. 0, lpage_value = \<lambda>_. 0,
     page_heap = empty_pmem\<lparr>regions := {(16, 48)}\<rparr>\<rparr>"

text \<open>A pool of one block at 64 that is filled up to \<open>a\<close>.\<close>

definition example_pool :: "int \<Rightarrow> int \<Rightarrow> pmem \<Rightarrow> bool" where
  "example_pool a l h \<longleftrightarrow>
     pools h 64 = \<lparr>d_last = a, d_end = 4160, d_next = 0, d_failed = 0, pmax = 4040, current = 64, large = l\<rparr>"

lemma example_bump:
  assumes "example_pool a l h" "8 dvd a" "120 \<le> a" "0 \<le> n" "a + n \<le> 4160"
  shows "palloc_small True alloc 64 n h = Some (a, put_pool 64 (\<lambda>b. b\<lparr>d_last := a + n\<rparr>) h)"
    "example_pool (a + n) l (put_pool 64 (\<lambda>b. b\<lparr>d_last := a + n\<rparr>) h)"
  using assms align_bounds(4) [of a]
  by (simp_all add: example_pool_def palloc_small_def bump_loop.simps Let_def size_t_def put_pool_def)

lemma example_piece:
  assumes "example_pool a l h" "8 dvd a" "120 \<le> a" "0 \<le> n" "a + n \<le> 4160"
  shows "\<exists>h'. etdb_palloc alloc 64 n h = Some (a, h') \<and> example_pool (a + n) l h' \<and> larges h' = larges h \<and> regions h' = regions h"
proof -
  have "n \<le> pmax (pools h 64)" using assms by (simp add: example_pool_def)
  then show ?thesis using example_bump [OF assms] by (simp add: etdb_palloc_def put_pool_def)
qed

lemma example_page:
  assumes e: "example_pool a l h" "8 dvd a" "120 \<le> a" "a + 16 \<le> 4160" and p: "alloc (regions h) 8192 = p" "p \<noteq> 0"
    and l: "l = 0 \<or> l_alloc (larges h l) \<noteq> 0 \<and> l_next (larges h l) = 0"
  shows "\<exists>h'. etdb_palloc alloc 64 8192 h = Some (p, h') \<and> example_pool (a + 16) a h' \<and>
    larges h' a = \<lparr>l_next = l, l_alloc = p\<rparr> \<and> regions h' = insert (p, 8192) (regions h)"
proof -
  let ?h = "h\<lparr>regions := insert (p, 8192) (regions h)\<rparr>"
  have e': "example_pool a l ?h" "large (pools ?h 64) = l" "pmax (pools h 64) = 4040" "pmax (pools ?h 64) = 4040"
    using e(1) by (simp_all add: example_pool_def)
  have u: "unused_large 0 l ?h = 0" using l by (auto simp: unused_large.simps)
  note B = example_bump [OF e'(1) e(2,3), of 16]
  have "large (pools (put_pool 64 (\<lambda>b. b\<lparr>d_last := a + 16\<rparr>) ?h) 64) = l" using e' by (simp add: put_pool_def)
  then have "etdb_palloc alloc 64 8192 h = Some (p, put_pool 64 (\<lambda>b. b\<lparr>large := a\<rparr>)
      (put_large a (\<lambda>_. \<lparr>l_next = l, l_alloc = p\<rparr>) (put_pool 64 (\<lambda>b. b\<lparr>d_last := a + 16\<rparr>) ?h)))"
    using e' u B(1) e(3,4) p
    by (simp add: etdb_palloc_def etdb_palloc_large.simps sys_alloc_def pool_large_size_def put_large_def put_pool_def Let_def)
  then show ?thesis using e(1) by (auto simp: example_pool_def put_pool_def put_large_def)
qed

lemma example_init:
  obtains lru m where "etdb_init_lru example_sysalloc 16 3 example_cache = Some (lru, m)" "lru_memory example_sysalloc lru m"
    "lpool lru = 64" "example_pool 168 0 (page_heap m)" "regions (page_heap m) = {(64, 4096), (16, 48)}"
proof -
  note E = sys_alloc_def example_sysalloc_def Let_def size_t_def pool_size_def ETDB_MAX_ALLOC_FROM_POOL_def
  obtain h where h: "etdb_create_pool example_sysalloc ETDB_MAX_ALLOC_FROM_POOL (page_heap example_cache) = (64, h)"
    "example_pool 120 0 h" "regions h = {(64, 4096), (16, 48)}"
    by (simp add: etdb_create_pool_def E example_cache_def empty_pmem_def example_pool_def)
  obtain h1 where h1: "etdb_palloc example_sysalloc 64 48 h = Some (120, h1)" "example_pool 168 0 h1" "regions h1 = regions h"
    using example_piece [OF h(2), of 48 example_sysalloc] by auto
  obtain h2 where h2: "etdb_pcalloc example_sysalloc 64 48 h = Some (120, h2)" "example_pool 168 0 h2" "regions h2 = regions h"
    using h1 by (simp add: etdb_pcalloc_def example_pool_def)
  obtain h3 where h3: "etdb_palloc example_sysalloc 64 48 h2 = Some (168, h3)" "example_pool 216 0 h3" "regions h3 = regions h2"
    using example_piece [OF h2(2), of 48 example_sysalloc] by auto
  have "example_sysalloc (regions h3) 8192 = 4160" by (simp add: h3(3) h2(3) h(3) example_sysalloc_def Let_def)
  then have "\<exists>h4. etdb_palloc example_sysalloc 64 8192 h3 = Some (4160, h4)"
    using example_page [OF h3(2), of example_sysalloc] by auto
  then have "lru_memory example_sysalloc lru m" if "lpool lru = 64" "page_heap m = h2" for lru m
    using that h3(1) by (auto simp: lru_memory_def lru_node_size_def ETDB_PAGE_SIZE_def)
  then show thesis using h(1,3) h2 that by (auto simp: etdb_init_lru_def lru_node_size_def Let_def)
qed

lemma example_place: "cache_place 16 example_cache"
  by (simp add: cache_place_def example_cache_def empty_pmem_def lru_node_size_def)

theorem etdb_lru_fetch_refines_witness:
  "\<exists>lru m p lru' m'. lru_rep m lru [] \<and> lru_memory example_sysalloc lru m \<and>
     etdb_lru_fetch example_sysalloc (\<lambda>_. Some (replicate 8192 7)) lru 5 m = Some (p, lru', m') \<and>
     bytes_at (page_heap m') p 8192 = replicate 8192 7"
proof -
  obtain lru m where i: "etdb_init_lru example_sysalloc 16 3 example_cache = Some (lru, m)" "lru_memory example_sysalloc lru m"
    using example_init by metis
  have r: "lru_rep m lru []" by (rule etdb_init_lru_rep(1) [OF example_place example_sysalloc _ _ i(1)]) simp_all
  have n: "nat ETDB_PAGE_SIZE = 8192" by (simp add: ETDB_PAGE_SIZE_def)
  show ?thesis
    using etdb_lru_fetch_refines [OF r example_sysalloc, of 5 "\<lambda>_. Some (replicate 8192 7)" "replicate 8192 7"] i(2) r
    unfolding n by simp blast
qed

end
