(* ===== verification/Page_Store_Trie.thy ===== *)
theory Page_Store_Trie
  imports Page_Store Lru_Rep Trie_Places
begin

unbundle bit_operations_syntax

text \<open>
  The pages of a new store as the trie of theory \<open>Trie_Model\<close>. \<open>store_holds\<close> says that the first page
  of each file is cached and its entries are those of a trie; the operations that stay inside of
  these pages are the operations of the trie. \<open>new_store\<close> is what \<open>etdb_init_store\<close> leaves: the page of
  the nodes is still in its file.
\<close>

section \<open>Reading what was written\<close>

lemma int_bytes_length [simp]: "length (int_bytes k v) = k"
  by (simp add: int_bytes_def)

lemma int_bytes_value: "horner_sum uint 256 (int_bytes k v) = v mod 256 ^ k"
proof (induction k)
  case (Suc k)
  have "horner_sum uint 256 (int_bytes (Suc k) v) = v mod 256 ^ k + 256 ^ k * (v div 256 ^ k mod 256)"
    using Suc by (simp add: int_bytes_def horner_sum_append uint_word_of_int)
  also have "\<dots> = v mod (256 ^ k * 256)" by (simp add: zmod_zmult2_eq)
  finally show ?case by (simp add: mult.commute)
qed (simp add: int_bytes_def)

lemma int_round:
  assumes "0 < k" "- (2 ^ (8 * k - 1)) \<le> v" "v < 2 ^ (8 * k - 1)"
  shows "int_of_bytes k (int_bytes k v) = v"
proof -
  have "(256 :: int) ^ k = 2 ^ (8 * k)" by (simp add: power_mult)
  then have "int_of_bytes k (int_bytes k v) = signed_take_bit (8 * k - 1) (take_bit (8 * k) v)"
    by (simp add: int_of_bytes_def int_bytes_value take_bit_eq_mod)
  also have "\<dots> = signed_take_bit (8 * k - 1) v" using assms(1) by (auto simp: signed_take_bit_take_bit)
  also have "\<dots> = v" by (rule signed_take_bit_int_eq_self [OF assms(2,3)])
  finally show ?thesis .
qed

lemma int_of_bytes_bounds: "- (2 ^ (8 * k - 1)) \<le> int_of_bytes k xs" "int_of_bytes k xs < 2 ^ (8 * k - 1)"
  unfolding int_of_bytes_def by (rule signed_take_bit_int_greater_eq_minus_exp signed_take_bit_int_less_exp)+

lemma pf_write_acc [simp]:
  "pf_lru (pf_write p xs f) = pf_lru f" "pf_data (pf_write p xs f) = pf_data f" "pf_reads (pf_write p xs f) = pf_reads f"
  "pools (page_heap (pf_mem (pf_write p xs f))) = pools (page_heap (pf_mem f))"
  "larges (page_heap (pf_mem (pf_write p xs f))) = larges (page_heap (pf_mem f))"
  "regions (page_heap (pf_mem (pf_write p xs f))) = regions (page_heap (pf_mem f))"
  by (simp_all add: pf_write_def write_at_def)

lemma pf_bytes_same: "k = length xs \<Longrightarrow> pf_bytes (pf_write p xs f) p k = xs"
  by (simp add: pf_bytes_def pf_write_def bytes_at_write)

lemma pf_bytes_other: "q + int k \<le> p \<or> p + int (length xs) \<le> q \<Longrightarrow> pf_bytes (pf_write p xs f) q k = pf_bytes f q k"
  unfolding pf_bytes_def pf_write_def by (auto simp: write_at_def intro!: bytes_at_cong)

lemma get_put_same:
  assumes "0 < k" "- (2 ^ (8 * k - 1)) \<le> v" "v < 2 ^ (8 * k - 1)"
  shows "get_int k p (put_int k p v f) = v"
  using int_round [OF assms] by (simp add: get_int_def put_int_def pf_bytes_same)

lemma get_put_other: "q + int k \<le> p \<or> p + int j \<le> q \<Longrightarrow> get_int k q (put_int j p v f) = get_int k q f"
  by (simp add: get_int_def put_int_def pf_bytes_other)

section \<open>Pages that stay\<close>

text \<open>The first page of the file is in the cache, at \<open>p\<close>.\<close>

definition pf_holds :: "page_file \<Rightarrow> int \<Rightarrow> bool" where
  "pf_holds f p \<longleftrightarrow> lru_holds (pf_mem f) (pf_lru f) 0 p"

lemma lru_state_write:
  assumes "lru_state m lru ns"
  shows "lru_state (m\<lparr>page_heap := write_at a x (page_heap m)\<rparr>) lru ns"
proof -
  let ?m = "m\<lparr>page_heap := write_at a x (page_heap m)\<rparr>"
  obtain R where P: "lru_pieces m lru ns" "lru_queues m lru ns R" and L: "lru_rep m lru (map (\<lambda>n. (lpage_id m n, page_bytes m n)) ns)"
    using assms by (auto simp: lru_state_def)
  have "lru_pieces ?m lru ns" by (rule lru_pieces_write [OF P(1)]) simp_all
  moreover have "lru_queues ?m lru ns R" by (rule lru_queues_cong [OF P(2)]) simp_all
  ultimately show ?thesis
    using lru_rep_bounds(1-7) [OF L] by (intro lru_stateI) (simp_all add: list.pred_map comp_def)
qed

lemma pf_holds_write [simp]: "pf_holds f p \<Longrightarrow> pf_holds (pf_write q xs f) p"
  unfolding pf_holds_def lru_holds_def pf_write_def using lru_state_write by fastforce

lemma pf_holds_put [simp]: "pf_holds f p \<Longrightarrow> pf_holds (put_int k q v f) p"
  by (simp add: put_int_def)

lemma holds_page_at:
  assumes H: "pf_holds f p" and i: "0 \<le> i" "i < per" "per < 2 ^ 64"
  shows "\<exists>f'. page_at alloc per sz i f = Some (p + sz * i, f') \<and> pf_holds f' p \<and> pf_bytes f' = pf_bytes f \<and> pf_data f' = pf_data f"
proof -
  obtain ns n where N: "lru_state (pf_mem f) (pf_lru f) ns" "n \<in> set ns" "lpage_id (pf_mem f) n = 0" "lpage_value (pf_mem f) n = p"
    using H by (auto simp: pf_holds_def lru_holds_def)
  obtain xs ys where ns: "ns = xs @ n # ys" using split_list [OF N(2)] by blast
  let ?m = "etdb_queue_insert_head (lru_link (lru_head (pf_lru f))) (lru_link n) (etdb_queue_remove (lru_link n) (pf_mem f))"
  note F = fetch_node [OF N(1) [unfolded ns]]
  have "0 < p" using N(2,4) N(1) lru_apart(6) by (auto simp: lru_state_def)
  moreover have "size_t i = i" "size_t i div per = 0" using i by (simp_all add: size_t_def)
  ultimately have e: "page_at alloc per sz i f = Some (p + sz * i, f\<lparr>pf_lru := pf_lru f, pf_mem := ?m\<rparr>)"
    using F(1) N(3,4) i by (simp add: page_at_def)
  have "lpage_id ?m n = 0" "lpage_value ?m n = p" "n \<in> set (n # xs @ ys)" using N(3,4) by simp_all
  then have "pf_holds (f\<lparr>pf_lru := pf_lru f, pf_mem := ?m\<rparr>) p"
    using F(2) unfolding pf_holds_def lru_holds_def by auto
  then show ?thesis using e by (auto simp: pf_bytes_def fun_eq_iff)
qed

section \<open>The trie in the first pages\<close>

text \<open>
  The first page of each file is cached, at \<open>u\<close>, \<open>v\<close> and \<open>w\<close>, and the entries of the first block are
  those of a trie in memory.
\<close>

definition store_holds :: "int \<Rightarrow> int \<Rightarrow> int \<Rightarrow> etdb_store \<Rightarrow> trie \<Rightarrow> bool" where
  "store_holds u v w st t \<longleftrightarrow> pf_holds (ix_node st) u \<and> pf_holds (ix_ninfo st) v \<and> pf_holds (ix_block st) w \<and>
     (\<forall>i\<in>{0..<256}. node_base st (u + 16 * i) = base_at t i \<and> node_check st (u + 16 * i) = check_at t i \<and>
        ninfo_sibling st (v + 2 * i) = sibling_at t i \<and> ninfo_child st (v + 2 * i) = child_at t i) \<and>
     block_prev st w = bprev_at t 0 \<and> block_next st w = bnext_at t 0 \<and> block_num st w = bnum_at t 0 \<and>
     block_reject st w = breject_at t 0 \<and> block_trial st w = btrial_at t 0 \<and> block_ehead st w = behead_at t 0 \<and>
     (\<forall>l. store_head l st = head_of l t)"

lemma store_head_acc [simp]:
  "store_head l (st\<lparr>ix_node := f\<rparr>) = store_head l st" "store_head l (st\<lparr>ix_ninfo := f\<rparr>) = store_head l st"
  "store_head l (st\<lparr>ix_block := f\<rparr>) = store_head l st"
  by (cases l; simp)+

lemmas field_defs = node_base_def node_check_def ninfo_sibling_def ninfo_child_def block_prev_def block_next_def block_num_def
  block_reject_def block_trial_def block_ehead_def

lemmas put_defs = put_node_base_def put_node_check_def put_ninfo_def put_block_def put_block_prev_def put_block_next_def
  put_block_num_def put_block_reject_def put_block_trial_def put_block_ehead_def

text \<open>The fields of an entry after a field was written.\<close>

lemma put_node_fields:
  assumes "- (2 ^ 63) \<le> x" "x < 2 ^ 63"
  shows "node_base (put_node_base (u + 16 * i) x st) (u + 16 * j) = (if j = i then x else node_base st (u + 16 * j))"
    "node_check (put_node_base (u + 16 * i) x st) (u + 16 * j) = node_check st (u + 16 * j)"
    "node_check (put_node_check (u + 16 * i) x st) (u + 16 * j) = (if j = i then x else node_check st (u + 16 * j))"
    "node_base (put_node_check (u + 16 * i) x st) (u + 16 * j) = node_base st (u + 16 * j)"
proof -
  note S = get_put_same [of 8 x, simplified, OF assms [simplified]]
  note O = get_put_other [of _ 8 _ 8, simplified]
  have l: "j \<noteq> i \<Longrightarrow> i < j \<or> j < i" by auto
  show "node_base (put_node_base (u + 16 * i) x st) (u + 16 * j) = (if j = i then x else node_base st (u + 16 * j))"
    using l by (auto simp: field_defs put_defs S intro!: O)
  show "node_check (put_node_check (u + 16 * i) x st) (u + 16 * j) = (if j = i then x else node_check st (u + 16 * j))"
    using l by (auto simp: field_defs put_defs S intro!: O)
  show "node_check (put_node_base (u + 16 * i) x st) (u + 16 * j) = node_check st (u + 16 * j)"
    by (cases "i \<le> j") (auto simp: field_defs put_defs intro!: O)
  show "node_base (put_node_check (u + 16 * i) x st) (u + 16 * j) = node_base st (u + 16 * j)"
    by (cases "i < j") (auto simp: field_defs put_defs intro!: O)
qed

lemma put_ninfo_fields:
  "ninfo_sibling (put_ninfo (v + 2 * i) c st) (v + 2 * j) = (if j = i then c else ninfo_sibling st (v + 2 * j))"
  "ninfo_child (put_ninfo (v + 2 * i) c st) (v + 2 * j) = ninfo_child st (v + 2 * j)"
  "ninfo_child (put_ninfo (v + 2 * i + 1) c st) (v + 2 * j) = (if j = i then c else ninfo_child st (v + 2 * j))"
  "ninfo_sibling (put_ninfo (v + 2 * i + 1) c st) (v + 2 * j) = ninfo_sibling st (v + 2 * j)"
proof -
  note S = pf_bytes_same [of 1 "[c]", simplified]
  note O = pf_bytes_other [of _ 1 _ "[c]", simplified]
  have O': "hd (pf_bytes (pf_write p [c] f) q (Suc 0)) = hd (pf_bytes f q (Suc 0))" if "q + 1 \<le> p \<or> p + 1 \<le> q" for p q f
    using O [of q p] that by simp
  have l: "j \<noteq> i \<Longrightarrow> i < j \<or> j < i" by auto
  show "ninfo_sibling (put_ninfo (v + 2 * i) c st) (v + 2 * j) = (if j = i then c else ninfo_sibling st (v + 2 * j))"
    using l by (auto simp: field_defs put_defs S intro!: O')
  show "ninfo_child (put_ninfo (v + 2 * i + 1) c st) (v + 2 * j) = (if j = i then c else ninfo_child st (v + 2 * j))"
    using l by (auto simp: field_defs put_defs S intro!: O')
  show "ninfo_child (put_ninfo (v + 2 * i) c st) (v + 2 * j) = ninfo_child st (v + 2 * j)"
    by (cases "i \<le> j") (auto simp: field_defs put_defs intro!: O')
  show "ninfo_sibling (put_ninfo (v + 2 * i + 1) c st) (v + 2 * j) = ninfo_sibling st (v + 2 * j)"
    by (cases "i < j") (auto simp: field_defs put_defs intro!: O')
qed

lemma put_block_fields:
  assumes "- (2 ^ 15) \<le> x" "x < 2 ^ 15" "- (2 ^ 63) \<le> y" "y < 2 ^ 63"
  shows "block_num (put_block_num w x st) w = x" "block_ehead (put_block_num w x st) w = block_ehead st w"
    "block_prev (put_block_num w x st) w = block_prev st w" "block_next (put_block_num w x st) w = block_next st w"
    "block_reject (put_block_num w x st) w = block_reject st w" "block_trial (put_block_num w x st) w = block_trial st w"
    "block_ehead (put_block_ehead w y st) w = y" "block_num (put_block_ehead w y st) w = block_num st w"
    "block_prev (put_block_ehead w y st) w = block_prev st w" "block_next (put_block_ehead w y st) w = block_next st w"
    "block_reject (put_block_ehead w y st) w = block_reject st w" "block_trial (put_block_ehead w y st) w = block_trial st w"
  using get_put_same [of 2 x] get_put_same [of 8 y] assms by (simp_all add: field_defs put_defs get_put_other)

lemma put_other_fields [simp]:
  "ninfo_sibling (put_node_base p x st) = ninfo_sibling st" "ninfo_child (put_node_base p x st) = ninfo_child st"
  "ninfo_sibling (put_node_check p x st) = ninfo_sibling st" "ninfo_child (put_node_check p x st) = ninfo_child st"
  "node_base (put_ninfo p c st) = node_base st" "node_check (put_ninfo p c st) = node_check st"
  "node_base (put_block k p x st) = node_base st" "node_check (put_block k p x st) = node_check st"
  "ninfo_sibling (put_block k p x st) = ninfo_sibling st" "ninfo_child (put_block k p x st) = ninfo_child st"
  by (simp_all add: field_defs put_defs fun_eq_iff)

lemma put_other_blocks [simp]:
  "ix_block (put_node_base p x st) = ix_block st" "ix_block (put_node_check p x st) = ix_block st"
  "ix_block (put_ninfo p c st) = ix_block st" "ix_ninfo (put_node_base p x st) = ix_ninfo st"
  "ix_ninfo (put_node_check p x st) = ix_ninfo st" "ix_ninfo (put_block k p x st) = ix_ninfo st"
  "ix_node (put_ninfo p c st) = ix_node st" "ix_node (put_block k p x st) = ix_node st"
  "store_head l (put_node_base p x st) = store_head l st" "store_head l (put_node_check p x st) = store_head l st"
  "store_head l (put_ninfo p c st) = store_head l st" "store_head l (put_block k p x st) = store_head l st"
  by (simp_all add: put_defs)

lemma pf_holds_puts [simp]:
  "pf_holds (ix_node st) u \<Longrightarrow> pf_holds (ix_node (put_node_base p x st)) u"
  "pf_holds (ix_node st) u \<Longrightarrow> pf_holds (ix_node (put_node_check p x st)) u"
  "pf_holds (ix_ninfo st) v \<Longrightarrow> pf_holds (ix_ninfo (put_ninfo p c st)) v"
  "pf_holds (ix_block st) w \<Longrightarrow> pf_holds (ix_block (put_block k p x st)) w"
  by (simp_all add: put_defs)

lemma block_fields_cong:
  assumes "ix_block st' = ix_block st"
  shows "block_prev st' = block_prev st" "block_next st' = block_next st" "block_num st' = block_num st"
    "block_reject st' = block_reject st" "block_trial st' = block_trial st" "block_ehead st' = block_ehead st"
  using assms by (simp_all add: field_defs fun_eq_iff)

lemmas block_fields_other [simp] = block_fields_cong [OF put_other_blocks(1)] block_fields_cong [OF put_other_blocks(2)]
  block_fields_cong [OF put_other_blocks(3)]

text \<open>A write to the pages is the write to the trie.\<close>

lemma holds_put_node:
  assumes "store_holds u v w st t" "- (2 ^ 63) \<le> x" "x < 2 ^ 63"
  shows "store_holds u v w (put_node_base (u + 16 * i) x st) (put_base t i x)"
    "store_holds u v w (put_node_check (u + 16 * i) x st) (put_check t i x)"
  using assms(1) unfolding store_holds_def by (simp_all add: put_node_fields [OF assms(2,3)])

lemma holds_put_ninfo:
  assumes "store_holds u v w st t"
  shows "store_holds u v w (put_ninfo (v + 2 * i) c st) (put_sibling t i c)"
    "store_holds u v w (put_ninfo (v + 2 * i + 1) c st) (put_child t i c)"
  using assms unfolding store_holds_def by (simp_all add: put_ninfo_fields)

lemma holds_put_block:
  assumes "store_holds u v w st t"
  shows "- (2 ^ 15) \<le> x \<Longrightarrow> x < 2 ^ 15 \<Longrightarrow> store_holds u v w (put_block_num w x st) (put_bnum t 0 x)"
    "- (2 ^ 63) \<le> y \<Longrightarrow> y < 2 ^ 63 \<Longrightarrow> store_holds u v w (put_block_ehead w y st) (put_behead t 0 y)"
proof -
  have h: "put_block_num w x st = put_block 2 (w + 16) x st" "put_block_ehead w y st = put_block 8 (w + 24) y st"
    by (simp_all add: put_defs)
  show "- (2 ^ 15) \<le> x \<Longrightarrow> x < 2 ^ 15 \<Longrightarrow> store_holds u v w (put_block_num w x st) (put_bnum t 0 x)"
    using assms put_block_fields [of x 0 w st] unfolding store_holds_def by (simp add: h)
  show "- (2 ^ 63) \<le> y \<Longrightarrow> y < 2 ^ 63 \<Longrightarrow> store_holds u v w (put_block_ehead w y st) (put_behead t 0 y)"
    using assms put_block_fields [of 0 y w st] unfolding store_holds_def by (simp add: h)
qed

text \<open>Looking an entry up changes the order of the pages only.\<close>

lemma holds_at:
  assumes S: "store_holds u v w st t"
  shows "0 \<le> i \<Longrightarrow> i < 256 \<Longrightarrow> \<exists>st'. etdb_store_index_node_at alloc i st = Some (u + 16 * i, st') \<and> store_holds u v w st' t"
    "0 \<le> i \<Longrightarrow> i < 256 \<Longrightarrow> \<exists>st'. etdb_store_index_ninfo_at alloc i st = Some (v + 2 * i, st') \<and> store_holds u v w st' t"
    "\<exists>st'. etdb_store_index_block_at alloc 0 st = Some (w, st') \<and> store_holds u v w st' t"
proof -
  note per = ETDB_INDEX_NODE_SIZE_PER_PAGE_def ETDB_INDEX_NINFO_SIZE_PER_PAGE_def ETDB_INDEX_BLOCK_SIZE_PER_PAGE_def ETDB_PAGE_SIZE_def
  have H: "pf_holds (ix_node st) u" "pf_holds (ix_ninfo st) v" "pf_holds (ix_block st) w" using S by (simp_all add: store_holds_def)
  have ranges: "i < 256 \<Longrightarrow> i < ETDB_INDEX_NODE_SIZE_PER_PAGE" "i < 256 \<Longrightarrow> i < ETDB_INDEX_NINFO_SIZE_PER_PAGE"
    "ETDB_INDEX_NODE_SIZE_PER_PAGE < 2 ^ 64" "ETDB_INDEX_NINFO_SIZE_PER_PAGE < 2 ^ 64" by (simp_all add: per)
  show "\<exists>st'. etdb_store_index_node_at alloc i st = Some (u + 16 * i, st') \<and> store_holds u v w st' t" if r: "0 \<le> i" "i < 256"
  proof -
    obtain f where f: "page_at alloc ETDB_INDEX_NODE_SIZE_PER_PAGE 16 i (ix_node st) = Some (u + 16 * i, f)" "pf_holds f u"
      "pf_bytes f = pf_bytes (ix_node st)"
      using holds_page_at [OF H(1) r(1) ranges(1) [OF r(2)] ranges(3), of alloc 16] by blast
    have "store_holds u v w (st\<lparr>ix_node := f\<rparr>) t"
      using S f(2,3) by (simp add: store_holds_def field_defs get_int_def)
    then show ?thesis using f(1) by (simp add: etdb_store_index_node_at_def)
  qed
  show "\<exists>st'. etdb_store_index_ninfo_at alloc i st = Some (v + 2 * i, st') \<and> store_holds u v w st' t" if r: "0 \<le> i" "i < 256"
  proof -
    obtain f where f: "page_at alloc ETDB_INDEX_NINFO_SIZE_PER_PAGE 2 i (ix_ninfo st) = Some (v + 2 * i, f)" "pf_holds f v"
      "pf_bytes f = pf_bytes (ix_ninfo st)"
      using holds_page_at [OF H(2) r(1) ranges(2) [OF r(2)] ranges(4), of alloc 2] by blast
    have "store_holds u v w (st\<lparr>ix_ninfo := f\<rparr>) t"
      using S f(2,3) by (simp add: store_holds_def field_defs get_int_def)
    then show ?thesis using f(1) by (simp add: etdb_store_index_ninfo_at_def)
  qed
  show "\<exists>st'. etdb_store_index_block_at alloc 0 st = Some (w, st') \<and> store_holds u v w st' t"
  proof -
    obtain f where f: "page_at alloc ETDB_INDEX_BLOCK_SIZE_PER_PAGE 32 0 (ix_block st) = Some (w, f)" "pf_holds f w"
      "pf_bytes f = pf_bytes (ix_block st)"
      using holds_page_at [OF H(3) order_refl, of ETDB_INDEX_BLOCK_SIZE_PER_PAGE alloc 32] by (auto simp: per)
    have "store_holds u v w (st\<lparr>ix_block := f\<rparr>) t"
      using S f(2,3) by (simp add: store_holds_def field_defs get_int_def)
    then show ?thesis using f(1) by (simp add: etdb_store_index_block_at_def)
  qed
qed

lemma holdsD:
  assumes "store_holds u v w st t"
  shows "0 \<le> i \<Longrightarrow> i < 256 \<Longrightarrow> node_base st (u + 16 * i) = base_at t i" "0 \<le> i \<Longrightarrow> i < 256 \<Longrightarrow> node_check st (u + 16 * i) = check_at t i"
    "0 \<le> i \<Longrightarrow> i < 256 \<Longrightarrow> ninfo_sibling st (v + 2 * i) = sibling_at t i" "0 \<le> i \<Longrightarrow> i < 256 \<Longrightarrow> ninfo_child st (v + 2 * i) = child_at t i"
    "block_num st w = bnum_at t 0" "block_trial st w = btrial_at t 0" "block_ehead st w = behead_at t 0" "store_head l st = head_of l t"
  using assms by (simp_all add: store_holds_def)

lemma first_block_range:
  assumes "0 \<le> b" "b < 256"
  shows "0 \<le> b XOR uint (c :: byte)" "b XOR uint c < 256"
proof -
  show "0 \<le> b XOR uint c" using assms by simp
  moreover have "(b XOR uint c) div 256 = 0" using assms by simp
  ultimately show "b XOR uint c < 256" by linarith
qed

section \<open>Operations on the first pages\<close>

lemma push_sibling_alt:
  assumes "label \<noteq> 0"
  shows "etdb_trie_push_sibling t from base label flag =
    (if flag \<and> child_at t from = 0 then put_sibling (put_sibling t base label) (base XOR uint label) (sibling_at t base)
     else put_sibling (put_child t from label) (base XOR uint label) (child_at t from))"
proof -
  have info: "r\<lparr>nsibling := a, nchild := b\<rparr> = r\<lparr>nchild := b, nsibling := a\<rparr>" for r :: trie_ninfo and a b by (cases r) simp
  have "base XOR uint label \<noteq> base XOR uint (0 :: byte)" using assms by (simp only: xor_left_inj uint_byte_inj) simp
  then have "base \<noteq> base XOR uint label" by simp
  then show ?thesis
    by (auto simp: etdb_trie_push_sibling_def Let_def trie_acc_defs fun_upd_twist info)
qed

lemma holds_push_sibling:
  assumes S: "store_holds u v w st t" and r: "0 \<le> from" "from < 256" "0 \<le> base" "base < 256" "label \<noteq> 0"
  shows "\<exists>st'. etdb_store_push_sibling alloc from base label flag st = Some st' \<and>
    store_holds u v w st' (etdb_trie_push_sibling t from base label flag)"
proof -
  have e: "0 \<le> base XOR uint label" "base XOR uint label < 256" using first_block_range [OF r(3,4)] by auto
  obtain st1 where A: "etdb_store_index_ninfo_at alloc from st = Some (v + 2 * from, st1)" "store_holds u v w st1 t"
    using holds_at(2) [OF S r(1,2)] by blast
  note cA = holdsD(4) [OF A(2) r(1,2)]
  show ?thesis
  proof (cases "flag \<and> child_at t from = 0")
    case True
    obtain st2 where B: "etdb_store_index_ninfo_at alloc base st1 = Some (v + 2 * base, st2)" "store_holds u v w st2 t"
      using holds_at(2) [OF A(2) r(3,4)] by blast
    obtain st3 where C: "etdb_store_index_ninfo_at alloc (base XOR uint label) (put_ninfo (v + 2 * base) label st2) =
        Some (v + 2 * (base XOR uint label), st3)" "store_holds u v w st3 (put_sibling t base label)"
      using holds_at(2) [OF holds_put_ninfo(1) [OF B(2)] e] by blast
    show ?thesis using True A B C cA holdsD(3) [OF B(2) r(3,4)] holds_put_ninfo(1) [OF C(2)] push_sibling_alt [OF r(5)]
      by (simp add: etdb_store_push_sibling_def)
  next
    case False
    obtain st3 where C: "etdb_store_index_ninfo_at alloc (base XOR uint label) (put_ninfo (v + 2 * from + 1) label st1) =
        Some (v + 2 * (base XOR uint label), st3)" "store_holds u v w st3 (put_child t from label)"
      using holds_at(2) [OF holds_put_ninfo(2) [OF A(2)] e] by blast
    show ?thesis using False A C cA holds_put_ninfo(1) [OF C(2)] push_sibling_alt [OF r(5)]
      by (auto simp: etdb_store_push_sibling_def)
  qed
qed

text \<open>A free slot of the first block: its neighbours are in the block, too.\<close>

definition first_free :: "trie \<Rightarrow> int \<Rightarrow> bool" where
  "first_free t e \<longleftrightarrow> 0 \<le> e \<and> e < 256 \<and> check_at t e < 0 \<and> - check_at t e < 256 \<and> base_at t e \<le> 0 \<and> - base_at t e < 256"

definition trie_unlink :: "trie \<Rightarrow> int \<Rightarrow> trie" where
  "trie_unlink t e =
     (let ta = put_check t (- base_at t e) (check_at t e); tb = put_base ta (- check_at ta e) (base_at ta e)
      in if e = behead_at tb 0 then put_behead tb 0 (- check_at tb e) else tb)"

lemma holds_unlink_slot:
  assumes S: "store_holds u v w st t" and e: "first_free t e"
  shows "\<exists>st'. unlink_slot alloc e 0 (u + 16 * e) w st = Some st' \<and> store_holds u v w st' (trie_unlink t e)"
proof -
  have r: "0 \<le> e" "e < 256" "0 \<le> - base_at t e" "- base_at t e < 256" "0 \<le> - check_at t e" "- check_at t e < 256"
    using e by (auto simp: first_free_def)
  have b: "- (2 ^ 63) \<le> base_at t e" "base_at t e < 2 ^ 63" "- (2 ^ 63) \<le> check_at t e" "check_at t e < 2 ^ 63"
    "- (2 ^ 63) \<le> - check_at t e" "- check_at t e < 2 ^ 63" using r by auto
  obtain st1 where A: "etdb_store_index_node_at alloc (- base_at t e) st = Some (u + 16 * (- base_at t e), st1)" "store_holds u v w st1 t"
    using holds_at(1) [OF S r(3,4)] by blast
  obtain st2 where B: "etdb_store_index_node_at alloc (- check_at t e) st1 = Some (u + 16 * (- check_at t e), st2)" "store_holds u v w st2 t"
    using holds_at(1) [OF A(2) r(5,6)] by blast
  let ?ta = "put_check t (- base_at t e) (check_at t e)"
  let ?tb = "put_base ?ta (- check_at t e) (base_at t e)"
  let ?st3 = "put_node_check (u + 16 * (- base_at t e)) (check_at t e) st2"
  let ?st4 = "put_node_base (u + 16 * (- check_at t e)) (base_at t e) ?st3"
  have C: "store_holds u v w ?st3 ?ta" by (rule holds_put_node(2) [OF B(2) b(3,4)])
  have D: "store_holds u v w ?st4 ?tb" by (rule holds_put_node(1) [OF C b(1,2)])
  have ta: "check_at ?ta e = check_at t e" "check_at ?tb e = check_at t e" "base_at ?ta e = base_at t e" by simp_all
  have T: "trie_unlink t e = (if e = behead_at ?tb 0 then put_behead ?tb 0 (- check_at t e) else ?tb)"
    unfolding trie_unlink_def Let_def ta by (rule refl)
  define p where "p = u + 16 * e"
  have v: "node_base st p = base_at t e" "node_check st1 p = check_at t e" "node_check st2 p = check_at t e"
    "node_base ?st3 p = base_at t e" "node_check ?st4 p = check_at t e" "block_ehead ?st4 w = behead_at ?tb 0"
    using holdsD(1) [OF S r(1,2)] holdsD(2) [OF A(2) r(1,2)] holdsD(2) [OF B(2) r(1,2)] holdsD(1) [OF C r(1,2)]
      holdsD(2) [OF D r(1,2)] holdsD(7) [OF D] ta unfolding p_def by simp_all
  have "unlink_slot alloc e 0 p w st = Some (if e = behead_at ?tb 0 then put_block_ehead w (- check_at t e) ?st4 else ?st4)"
    by (simp only: unlink_slot_def Let_def v A(1) B(1) Option.bind.simps prod.case simp_thms if_False)
  then show ?thesis unfolding T p_def using D holds_put_block(2) [OF D b(5,6)] by auto
qed

lemma holds_pop_empty_node:
  assumes S: "store_holds u v w st t" and e: "first_free t (base XOR uint label)" and base: "0 \<le> base"
    and r: "0 \<le> from" "from < 256" "- (2 ^ 15) < bnum_at t 0"
  shows "\<exists>st'. etdb_store_pop_empty_node unret alloc base label from st = Some (base XOR uint label, st') \<and>
    store_holds u v w st' (fst (etdb_trie_pop_empty_node t base label from))"
    "snd (etdb_trie_pop_empty_node t base label from) = base XOR uint label"
proof -
  let ?e = "base XOR uint label"
  have re: "0 \<le> ?e" "?e < 256" using e by (simp_all add: first_free_def)
  have bi: "?e div 256 = 0" by (rule div_pos_pos_trivial [OF re])
  then have bi8: "?e div 2 ^ 8 = 0" by simp
  show "snd (etdb_trie_pop_empty_node t base label from) = ?e" using base by (simp add: etdb_trie_pop_empty_node_def Let_def)
  obtain st1 where A: "etdb_store_index_node_at alloc ?e st = Some (u + 16 * ?e, st1)" "store_holds u v w st1 t"
    using holds_at(1) [OF S re] by blast
  obtain st2 where B: "etdb_store_index_block_at alloc 0 st1 = Some (w, st2)" "store_holds u v w st2 t"
    using holds_at(3) [OF A(2)] by blast
  let ?t1 = "put_bnum t 0 (bnum_at t 0 - 1)" and ?x = "if label \<noteq> 0 then -1 else 0 :: int"
  have num: "block_num st2 w = bnum_at t 0" by (rule holdsD(5) [OF B(2)])
  have "bnum_at t 0 < 2 ^ 15"
    using int_of_bytes_bounds(2) [of 2] unfolding num [symmetric] by (simp add: block_num_def get_int_def)
  then have C: "store_holds u v w (put_block_num w (bnum_at t 0 - 1) st2) ?t1" using r(3) by (intro holds_put_block(1) [OF B(2)]) auto
  have "first_free ?t1 ?e" using e by (simp add: first_free_def)
  then obtain st3 where D: "unlink_slot alloc ?e 0 (u + 16 * ?e) w (put_block_num w (bnum_at t 0 - 1) st2) = Some st3"
    "store_holds u v w st3 (trie_unlink ?t1 ?e)" using holds_unlink_slot [OF C] by blast
  have E: "store_holds u v w (put_node_base (u + 16 * ?e) ?x st3) (put_base (trie_unlink ?t1 ?e) ?e ?x)"
    by (rule holds_put_node(1) [OF D(2)]) simp_all
  have F: "store_holds u v w (put_node_check (u + 16 * ?e) from (put_node_base (u + 16 * ?e) ?x st3))
      (put_check (put_base (trie_unlink ?t1 ?e) ?e ?x) ?e from)"
    by (rule holds_put_node(2) [OF E]) (use r in auto)
  define p where "p = u + 16 * ?e"
  have "fst (etdb_trie_pop_empty_node t base label from) = put_check (put_base (trie_unlink ?t1 ?e) ?e ?x) ?e from"
    by (simp only: etdb_trie_pop_empty_node_def trie_unlink_def Let_def not_less [THEN iffD2, OF base] bi prod.case
        simp_thms if_False fst_conv)
  moreover have "etdb_store_pop_empty_node unret alloc base label from st =
      Some (?e, put_node_check p from (put_node_base p ?x st3))"
    by (simp only: etdb_store_pop_empty_node_def Let_def not_less [THEN iffD2, OF base] bi8 A(1) [folded p_def] B(1) num
        D(1) [folded p_def] Option.bind.simps prod.case simp_thms if_False)
  ultimately show "\<exists>st'. etdb_store_pop_empty_node unret alloc base label from st = Some (?e, st') \<and>
      store_holds u v w st' (fst (etdb_trie_pop_empty_node t base label from))" using F unfolding p_def by simp
qed

text \<open>A label that leads to a free slot of the first block.\<close>

lemma holds_follow:
  assumes A: "etdb_store_index_node_at alloc from st = Some (u + 16 * from, st1)" "store_holds u v w st1 t"
    and r: "0 \<le> from" "from < 256" "0 \<le> base_at t from" "base_at t from < 256" "- (2 ^ 15) < bnum_at t 0"
    and e: "first_free t (base_at t from XOR uint label)" "label \<noteq> 0"
  shows "\<exists>st' t' q. etdb_store_follow unret alloc from label st = Some (q, st') \<and> etdb_trie_follow t from label = Some (t', from, q) \<and>
    store_holds u v w st' t'"
proof -
  let ?b = "base_at t from" let ?e = "?b XOR uint label"
  have re: "0 \<le> ?e" "?e < 256" "check_at t ?e < 0" using e(1) by (simp_all add: first_free_def)
  obtain st2 where B: "etdb_store_index_node_at alloc ?e st1 = Some (u + 16 * ?e, st2)" "store_holds u v w st2 t"
    using holds_at(1) [OF A(2) re(1,2)] by blast
  obtain st3 where C: "etdb_store_pop_empty_node unret alloc ?b label from st2 = Some (?e, st3)"
    "store_holds u v w st3 (fst (etdb_trie_pop_empty_node t ?b label from))"
    "snd (etdb_trie_pop_empty_node t ?b label from) = ?e"
    using holds_pop_empty_node [OF B(2) e(1) r(3,1,2,5)] by blast
  obtain st4 where D: "etdb_store_push_sibling alloc from ?b label True st3 = Some st4"
    "store_holds u v w st4 (etdb_trie_push_sibling (fst (etdb_trie_pop_empty_node t ?b label from)) from ?b label True)"
    using holds_push_sibling [OF C(2) r(1-4) e(2)] by blast
  have "etdb_store_follow unret alloc from label st = Some (?e, st4)"
    using A(1) B(1) C(1) D(1) r(3) re(3) holdsD(1) [OF A(2) r(1,2)] holdsD(2) [OF B(2) re(1,2)]
    by (simp add: etdb_store_follow_def Let_def)
  moreover have "etdb_trie_follow t from label =
      Some (etdb_trie_push_sibling (fst (etdb_trie_pop_empty_node t ?b label from)) from ?b label True, from, ?e)"
    using r(3) re(3) C(3) by (simp add: etdb_trie_follow_def Let_def split_beta)
  ultimately show ?thesis using D(2) by blast
qed

section \<open>A new store\<close>

lemma lru_holds_nonzero: "lru_holds m lru k p \<Longrightarrow> p \<noteq> 0"
  using lru_apart(6) by (fastforce simp: lru_holds_def lru_state_def)

text \<open>The system has memory for the cache and its first page.\<close>

definition cache_ready :: "sysalloc \<Rightarrow> cache_spot \<Rightarrow> bool" where
  "cache_ready alloc c \<longleftrightarrow> cache_place (c_self c) (c_mem c) \<and> 3 \<le> c_cap c \<and> c_cap c < 2 ^ 32 \<and>
     (case etdb_init_lru alloc (c_self c) (c_cap c) (c_mem c) of None \<Rightarrow> False | Some (lru, m) \<Rightarrow> lru_memory alloc lru m)"

lemma ready_open:
  assumes c: "cache_ready alloc c" and al: "alloc_ok alloc" and k: "0 \<le> k"
  shows "\<exists>f p f' b. open_index alloc c = Some f \<and> pf_data f = c_file c \<and> add_entry alloc k f = Some (p, f') \<and> pf_data f' = c_file c \<and>
    pf_reads f' = c_reads c \<and>
    lru_rep (pf_mem f') (pf_lru f') [(k, b)] \<and> lru_holds (pf_mem f') (pf_lru f') k p"
proof -
  obtain lru m where i: "etdb_init_lru alloc (c_self c) (c_cap c) (c_mem c) = Some (lru, m)" "lru_memory alloc lru m"
    and p: "cache_place (c_self c) (c_mem c)" "3 \<le> c_cap c" "c_cap c < 2 ^ 32"
    using c by (auto simp: cache_ready_def split: option.splits)
  note L = etdb_init_lru_rep [OF p(1) al p(2,3) i(1)]
  obtain q m' lru' b where e: "etdb_lru_alloc_entry alloc lru k m = Some (q, lru', m')"
    "lru_rep m' lru' (lru_touch (nat (etdb_lru.capacity lru)) k b [])" "lru_holds m' lru' k q"
    using fetch_miss(2) [OF L(1) _ k al, of "\<lambda>_. Some (replicate 8192 0)" "replicate 8192 0"] i(2) by (auto simp: ETDB_PAGE_SIZE_def)
  have t: "lru_touch (nat (etdb_lru.capacity lru)) k b [] = [(k, b)]" using p(2) L(2) by (simp add: lru_touch_def)
  let ?f = "\<lparr>pf_lru = lru, pf_mem = m, pf_data = c_file c, pf_reads = c_reads c\<rparr>"
  have "open_index alloc c = Some ?f" by (simp add: open_index_def i(1))
  moreover have "add_entry alloc k ?f = Some (q, ?f\<lparr>pf_lru := lru', pf_mem := m'\<rparr>)"
    using e(1) lru_holds_nonzero [OF e(3)] by (simp add: add_entry_def)
  ultimately show ?thesis using e(2,3) unfolding t by (intro exI [of _ ?f] exI [of _ q] exI [of _ "?f\<lparr>pf_lru := lru', pf_mem := m'\<rparr>"] exI [of _ b]) simp
qed

lemma pf_bytes_part: "off + k \<le> n \<Longrightarrow> pf_bytes f (p + int off) k = take k (drop off (pf_bytes f p n))"
  by (simp add: pf_bytes_def bytes_at_def take_map drop_map take_upt add.assoc)
    (rule nth_equalityI, simp_all add: add.assoc)

lemma pf_bytes_zero: "off + k \<le> n \<Longrightarrow> pf_bytes (pf_write p (replicate n 0) f) (p + int off) k = replicate k 0"
  using pf_bytes_part [of off k n "pf_write p (replicate n 0) f" p] pf_bytes_same [of n "replicate n 0" p f]
  by (simp add: min_def)

text \<open>The first node page.\<close>

lemma index_node_init_alt:
  assumes "k < 256"
  shows "index_node_init p k st = put_node_check (p + 16 * int k) (check_at (etdb_trie_init raw) (int k))
    (put_node_base (p + 16 * int k) (base_at (etdb_trie_init raw) (int k)) st)"
  using assms by (simp add: index_node_init_def init_acc Let_def)

lemma index_node_init_fields:
  "i < k \<Longrightarrow> k \<le> 256 \<Longrightarrow>
    node_base (fold (index_node_init p) [0..<k] st) (p + 16 * int i) = base_at (etdb_trie_init raw) (int i) \<and>
    node_check (fold (index_node_init p) [0..<k] st) (p + 16 * int i) = check_at (etdb_trie_init raw) (int i)"
proof (induction k)
  case (Suc k)
  let ?st = "fold (index_node_init p) [0..<k] st" and ?t = "etdb_trie_init raw"
  have k: "k < 256" using Suc.prems by simp
  have b: "- (2 ^ 63) \<le> base_at ?t (int k)" "base_at ?t (int k) < 2 ^ 63" "- (2 ^ 63) \<le> check_at ?t (int k)" "check_at ?t (int k) < 2 ^ 63"
    using k by (simp_all add: init_acc)
  have "node_base (index_node_init p k ?st) (p + 16 * int i) = (if int i = int k then base_at ?t (int k) else node_base ?st (p + 16 * int i))"
    "node_check (index_node_init p k ?st) (p + 16 * int i) = (if int i = int k then check_at ?t (int k) else node_check ?st (p + 16 * int i))"
    unfolding index_node_init_alt [OF k, of p _ raw] put_node_fields [OF b(1,2)] put_node_fields [OF b(3,4)] by (rule refl)+
  then show ?case using Suc by (cases "i = k") simp_all
qed simp

text \<open>The first block; the others lie behind it.\<close>

lemma block_behind:
  assumes "0 < i"
  shows "block_prev (index_block_init w i st) w = block_prev st w" "block_next (index_block_init w i st) w = block_next st w"
    "block_num (index_block_init w i st) w = block_num st w" "block_reject (index_block_init w i st) w = block_reject st w"
    "block_trial (index_block_init w i st) w = block_trial st w" "block_ehead (index_block_init w i st) w = block_ehead st w"
  using assms by (simp_all add: index_block_init_def Let_def field_defs put_defs get_put_other)

lemma blocks_behind:
  assumes "\<forall>i\<in>set is. 0 < i"
  shows "block_prev (fold (index_block_init w) is st) w = block_prev st w \<and> block_next (fold (index_block_init w) is st) w = block_next st w \<and>
    block_num (fold (index_block_init w) is st) w = block_num st w \<and> block_reject (fold (index_block_init w) is st) w = block_reject st w \<and>
    block_trial (fold (index_block_init w) is st) w = block_trial st w \<and> block_ehead (fold (index_block_init w) is st) w = block_ehead st w"
  using assms by (induction "is" arbitrary: st) (simp_all add: block_behind)

lemma block_first:
  "block_prev (index_block_init w 0 st) w = 0" "block_next (index_block_init w 0 st) w = 0"
  "block_num (index_block_init w 0 st) w = 256" "block_reject (index_block_init w 0 st) w = 257"
  "block_trial (index_block_init w 0 st) w = 0" "block_ehead (index_block_init w 0 st) w = 0"
  using get_put_same [of 8 0] get_put_same [of 4 0] get_put_same [of 2 256] get_put_same [of 2 257]
  by (simp_all add: index_block_init_def Let_def field_defs put_defs get_put_other)

text \<open>Neither loop touches the rest of the store.\<close>

lemma index_init_frame [simp]:
  "ix_ninfo (index_node_init p i st) = ix_ninfo st" "ix_block (index_node_init p i st) = ix_block st"
  "store_head l (index_node_init p i st) = store_head l st" "st_capacity (index_node_init p i st) = st_capacity st"
  "pf_reads (ix_node (index_node_init p i st)) = pf_reads (ix_node st)"
  "pf_data (ix_node (index_node_init p i st)) = pf_data (ix_node st)" "pf_lru (ix_node (index_node_init p i st)) = pf_lru (ix_node st)"
  "ix_ninfo (index_block_init p i st) = ix_ninfo st" "ix_node (index_block_init p i st) = ix_node st"
  "store_head l (index_block_init p i st) = store_head l st"
  "pools (page_heap (pf_mem (ix_node (index_node_init p i st)))) = pools (page_heap (pf_mem (ix_node st)))"
  "larges (page_heap (pf_mem (ix_node (index_node_init p i st)))) = larges (page_heap (pf_mem (ix_node st)))"
  "regions (page_heap (pf_mem (ix_node (index_node_init p i st)))) = regions (page_heap (pf_mem (ix_node st)))"
  by (simp_all add: index_node_init_def index_block_init_def Let_def put_defs put_int_def)

lemma fold_frame:
  assumes "\<And>i st. g (f i st) = g st"
  shows "g (fold f is st) = g st"
  using assms by (induction "is" arbitrary: st) simp_all

text \<open>The cache holds one page.\<close>

definition one_page :: "page_file \<Rightarrow> int \<Rightarrow> bool" where
  "one_page f k \<longleftrightarrow> (\<exists>b. lru_rep (pf_mem f) (pf_lru f) [(k, b)])"

lemma one_page_write [simp]: "one_page f k \<Longrightarrow> one_page (pf_write p xs f) k"
  unfolding one_page_def lru_rep_state pf_write_def using lru_state_write by fastforce

lemma one_page_init [simp]: "one_page (ix_node st) k \<Longrightarrow> one_page (ix_node (index_node_init p i st)) k"
  by (simp add: index_node_init_def Let_def put_defs put_int_def)

lemma one_page_fold: "one_page (ix_node st) k \<Longrightarrow> one_page (ix_node (fold (index_node_init p) is st)) k"
  by (induction "is" arbitrary: st) simp_all

lemma holds_block_fold: "pf_holds (ix_block st) w \<Longrightarrow> pf_holds (ix_block (fold (index_block_init p) is st)) w"
  by (induction "is" arbitrary: st) (simp_all add: index_block_init_def Let_def put_defs)

text \<open>A file after a successful write.\<close>

definition appended :: "nat \<Rightarrow> int \<Rightarrow> page_file \<Rightarrow> page_file" where
  "appended k p f = f\<lparr>pf_data := pf_data f @ take k (pf_bytes f p 8192)\<rparr>"

lemma store_write_some [simp]: "etdb_store_write (Some k) p f = Some (appended k p f)"
  by (simp add: etdb_store_write_def appended_def ETDB_PAGE_SIZE_def)

lemma pf_holds_data [simp]: "pf_holds (appended k p f) q = pf_holds f q" "one_page (appended k p f) q = one_page f q"
  by (simp_all add: pf_holds_def one_page_def appended_def)

text \<open>A store as \<open>etdb_init_store\<close> leaves it: the node page is in the file, the other two in their caches.\<close>

definition new_store :: "int \<Rightarrow> int \<Rightarrow> etdb_store \<Rightarrow> trie \<Rightarrow> bool" where
  "new_store v w st t \<longleftrightarrow> one_page (ix_node st) 1 \<and> pf_reads (ix_node st) 0 \<and> length (pf_data (ix_node st)) = 8192 \<and>
     (\<forall>i<256. int_of_bytes 8 (take 8 (drop (16 * i) (pf_data (ix_node st)))) = base_at t (int i) \<and>
        int_of_bytes 8 (take 8 (drop (16 * i + 8) (pf_data (ix_node st)))) = check_at t (int i)) \<and>
     pf_holds (ix_ninfo st) v \<and> pf_holds (ix_block st) w \<and>
     (\<forall>i\<in>{0..<256}. ninfo_sibling st (v + 2 * i) = sibling_at t i \<and> ninfo_child st (v + 2 * i) = child_at t i) \<and>
     block_prev st w = bprev_at t 0 \<and> block_next st w = bnext_at t 0 \<and> block_num st w = bnum_at t 0 \<and>
     block_reject st w = breject_at t 0 \<and> block_trial st w = btrial_at t 0 \<and> block_ehead st w = behead_at t 0 \<and>
     (\<forall>l. store_head l st = head_of l t)"

text \<open>The first fetch brings the node page in.\<close>

lemma new_store_node_at:
  assumes S: "new_store v w st t" and al: "alloc_ok alloc" and i: "0 \<le> i" "i < 256"
    and mem: "lru_memory alloc (pf_lru (ix_node st)) (pf_mem (ix_node st))"
  shows "\<exists>u st'. etdb_store_index_node_at alloc i st = Some (u + 16 * i, st') \<and> store_holds u v w st' t"
proof -
  let ?f = "ix_node st" and ?rd = "file_page (ix_node st)"
  obtain b where L: "lru_rep (pf_mem ?f) (pf_lru ?f) [(1, b)]" using S by (auto simp: new_store_def one_page_def)
  have d: "length (pf_data ?f) = 8192" "pf_reads ?f 0" using S by (simp_all add: new_store_def)
  then have rd: "?rd 0 = Some (pf_data ?f)" by (simp add: file_page_def ETDB_PAGE_SIZE_def)
  obtain u m lru where F: "etdb_lru_fetch alloc ?rd (pf_lru ?f) 0 (pf_mem ?f) = Some (u, lru, m)" "lru_holds m lru 0 u"
    "bytes_at (page_heap m) u 8192 = pf_data ?f"
    using fetch_miss(1) [OF L _ order_refl al, of ?rd "pf_data ?f"] mem d rd by (auto simp: ETDB_PAGE_SIZE_def)
  let ?g = "?f\<lparr>pf_lru := lru, pf_mem := m\<rparr>"
  have per: "size_t i div ETDB_INDEX_NODE_SIZE_PER_PAGE = 0" "size_t i mod ETDB_INDEX_NODE_SIZE_PER_PAGE = i"
    using i by (simp_all add: size_t_def ETDB_INDEX_NODE_SIZE_PER_PAGE_def ETDB_PAGE_SIZE_def)
  have at: "etdb_store_index_node_at alloc i st = Some (u + 16 * i, st\<lparr>ix_node := ?g\<rparr>)"
    using F(1) lru_holds_nonzero [OF F(2)] by (simp add: etdb_store_index_node_at_def page_at_def per)
  have g: "pf_bytes ?g u 8192 = pf_data ?f" using F(3) by (simp add: pf_bytes_def)
  have "node_base (st\<lparr>ix_node := ?g\<rparr>) (u + 16 * j) = base_at t j \<and> node_check (st\<lparr>ix_node := ?g\<rparr>) (u + 16 * j) = check_at t j"
    if j: "j \<in> {0..<256}" for j
  proof -
    have n: "nat j < 256" "int (nat j) = j" using j by auto
    have "pf_bytes ?g (u + 16 * j) 8 = take 8 (drop (16 * nat j) (pf_data ?f))"
      "pf_bytes ?g (u + 16 * j + 8) 8 = take 8 (drop (16 * nat j + 8) (pf_data ?f))"
      using pf_bytes_part [of "16 * nat j" 8 8192 ?g u] pf_bytes_part [of "16 * nat j + 8" 8 8192 ?g u] n g by (simp_all add: algebra_simps)
    then show ?thesis using S n unfolding new_store_def by (simp add: field_defs get_int_def)
  qed
  moreover have "pf_holds ?g u" using F(2) by (simp add: pf_holds_def)
  moreover have "block_prev (st\<lparr>ix_node := ?g\<rparr>) = block_prev st" "block_next (st\<lparr>ix_node := ?g\<rparr>) = block_next st"
    "block_num (st\<lparr>ix_node := ?g\<rparr>) = block_num st" "block_reject (st\<lparr>ix_node := ?g\<rparr>) = block_reject st"
    "block_trial (st\<lparr>ix_node := ?g\<rparr>) = block_trial st" "block_ehead (st\<lparr>ix_node := ?g\<rparr>) = block_ehead st"
    by (rule block_fields_cong; simp)+
  moreover have "ninfo_sibling (st\<lparr>ix_node := ?g\<rparr>) = ninfo_sibling st" "ninfo_child (st\<lparr>ix_node := ?g\<rparr>) = ninfo_child st"
    by (simp_all add: field_defs fun_eq_iff)
  ultimately have "store_holds u v w (st\<lparr>ix_node := ?g\<rparr>) t" using S unfolding store_holds_def new_store_def by simp
  then show ?thesis using at by blast
qed

lemma zero_ninfos:
  assumes "0 \<le> i" "i < 256" "ix_ninfo st = appended k p (pf_write v (replicate 8192 0) f)"
  shows "ninfo_sibling st (v + 2 * i) = 0" "ninfo_child st (v + 2 * i) = 0"
proof -
  have d: "pf_bytes (ix_ninfo st) = pf_bytes (pf_write v (replicate 8192 0) f)"
    by (simp add: assms(3) fun_eq_iff pf_bytes_def appended_def)
  show "ninfo_sibling st (v + 2 * i) = 0" "ninfo_child st (v + 2 * i) = 0"
    unfolding field_defs d
    using pf_bytes_zero [of "2 * nat i" 1 8192 v f] pf_bytes_zero [of "2 * nat i + 1" 1 8192 v f] assms(1,2)
    by (simp_all add: algebra_simps)
qed

lemma init_reject: "breject_at (etdb_trie_init raw) 0 = 257"
  by (simp add: etdb_trie_init_def Let_def trie_acc_defs etdb_trie_node_realloc_def etdb_trie_ninfo_realloc_def etdb_trie_block_realloc_def)

text \<open>What the allocator knows.\<close>

definition alloc_part :: "page_file \<Rightarrow> etdb_lru \<times> (int \<Rightarrow> etdb_pool) \<times> (int \<Rightarrow> etdb_pool_large) \<times> region set" where
  "alloc_part f = (pf_lru f, pools (page_heap (pf_mem f)), larges (page_heap (pf_mem f)), regions (page_heap (pf_mem f)))"

lemma alloc_part_write [simp]: "alloc_part (appended k p f) = alloc_part f" "alloc_part (pf_write p xs f) = alloc_part f"
  by (simp_all add: alloc_part_def appended_def)

lemma alloc_part_index: "alloc_part (ix_node (index_node_init p i st)) = alloc_part (ix_node st)"
  by (simp add: alloc_part_def)

lemma etdb_init_store_new:
  assumes al: "alloc_ok alloc" and r: "cache_ready alloc cn" "cache_ready alloc ci" "cache_ready alloc cb"
    and dir: "length dir \<le> 249" and fl: "c_file cn = []" "8192 \<le> kn" "c_reads cn 0"
    and io: "c_written cn = Some kn" "c_written ci = Some ki" "c_written cb = Some kb"
  shows "\<exists>st v w. etdb_init_store alloc dir None (Some wr) cn ci cb = Some st \<and> new_store v w st (etdb_trie_init raw) \<and>
    (\<exists>fn p gn. open_index alloc cn = Some fn \<and> add_entry alloc 1 fn = Some (p, gn) \<and> alloc_part (ix_node st) = alloc_part gn)"
proof -
  let ?t = "etdb_trie_init raw"
  obtain fn p gn bn where N: "open_index alloc cn = Some fn" "add_entry alloc 1 fn = Some (p, gn)" "pf_data gn = []"
    "lru_rep (pf_mem gn) (pf_lru gn) [(1, bn)]" "pf_reads gn 0"
    using ready_open [OF r(1) al, of 1] fl(1,3) by auto
  obtain fi v gi where I: "open_index alloc ci = Some fi" "add_entry alloc 0 fi = Some (v, gi)" "pf_holds gi v"
    using ready_open [OF r(2) al order_refl] by (auto simp: pf_holds_def)
  obtain fb w gb where B: "open_index alloc cb = Some fb" "add_entry alloc 0 fb = Some (w, gb)" "pf_holds gb w"
    using ready_open [OF r(3) al order_refl] by (auto simp: pf_holds_def)
  note per = ETDB_INDEX_NODE_SIZE_PER_PAGE_def ETDB_INDEX_NINFO_SIZE_PER_PAGE_def ETDB_INDEX_BLOCK_SIZE_PER_PAGE_def ETDB_PAGE_SIZE_def
    size_t_def
  define st0 where "st0 = the (etdb_store_flush_meta (Some wr) \<lparr>st_full = 0, st_close = 0, st_open = 0, st_capacity = 512, st_size = 256,
    st_reject = map (\<lambda>i. int i + 1) [0..<257], ix_node = fn, ix_ninfo = fi, ix_block = fb, st_meta = []\<rparr>)"
  define st1 where "st1 = etdb_index_node_init p (st0\<lparr>ix_node := pf_write p (replicate 8192 0) gn\<rparr>)"
  define st2 where "st2 = st1\<lparr>ix_node := appended kn p (ix_node st1)\<rparr>"
  define st3 where "st3 = st2\<lparr>ix_ninfo := appended ki v (pf_write v (replicate 8192 0) gi)\<rparr>"
  define st4 where "st4 = put_block_ehead w 1 (fold (index_block_init w) [0..<256] (st3\<lparr>ix_block := gb\<rparr>))"
  define st5 where "st5 = st4\<lparr>ix_block := appended kb w (ix_block st4)\<rparr>"
  have c0: "st_capacity st0 = 512" "ix_node st0 = fn" "ix_ninfo st0 = fi" "ix_block st0 = fb" "store_head l st0 = 0" for l
    by (cases l; simp add: st0_def etdb_store_flush_meta_def)+
  have c1: "st_capacity st1 = 512" "ix_ninfo st1 = fi" "ix_block st1 = fb" "store_head l st1 = 0" for l
    using c0 by (simp_all add: st1_def etdb_index_node_init_def fold_frame [where g = st_capacity] fold_frame [where g = ix_ninfo]
        fold_frame [where g = ix_block] fold_frame [where g = "store_head l"])
  have c2: "st_capacity st2 = 512" "ix_ninfo st2 = fi" "ix_block st2 = fb" using c1 by (simp_all add: st2_def)
  have f0: "etdb_store_flush_meta (Some wr) \<lparr>st_full = 0, st_close = 0, st_open = 0, st_capacity = 512, st_size = 256,
    st_reject = map (\<lambda>i. int i + 1) [0..<257], ix_node = fn, ix_ninfo = fi, ix_block = fb, st_meta = []\<rparr> = Some st0"
    by (simp add: st0_def etdb_store_flush_meta_def)
  have "etdb_init_store alloc dir None (Some wr) cn ci cb = Some st5"
    using f0 io N(1,2) I(1,2) B(1,2) dir c0 c1 c2
    by (simp add: etdb_init_store_def etdb_store_file_exit_def etdb_store_add_node_def etdb_store_add_ninfo_def etdb_store_add_block_def
        per st1_def [symmetric] st2_def [symmetric] st3_def [symmetric] st4_def [symmetric] st5_def)
  moreover have n5: "ix_node st5 = appended kn p (ix_node st1)" "ix_ninfo st5 = ix_ninfo st3"
    "store_head l st5 = 0" for l
    using c1(4) by (simp_all add: st5_def st4_def st3_def st2_def put_block_ehead_def fold_frame [where g = ix_node]
        fold_frame [where g = ix_ninfo] fold_frame [where g = "store_head l"])
  moreover have "alloc_part (ix_node st5) = alloc_part gn"
    unfolding n5(1) st1_def etdb_index_node_init_def by (simp add: fold_frame [where g = "\<lambda>st. alloc_part (ix_node st)"] alloc_part_index)
  moreover have "new_store v w st5 ?t"
  proof -
    have "one_page gn 1" using N(4) by (auto simp: one_page_def)
    then have one: "one_page (ix_node st1) 1"
      unfolding st1_def etdb_index_node_init_def by (intro one_page_fold) simp
    have "pf_data (ix_node st1) = []" and rd1: "pf_reads (ix_node st1) 0"
      using N(3,5) by (simp_all add: st1_def etdb_index_node_init_def fold_frame [where g = "\<lambda>st. pf_data (ix_node st)"]
          fold_frame [where g = "\<lambda>st. pf_reads (ix_node st)"])
    then have data: "pf_data (ix_node st5) = pf_bytes (ix_node st1) p 8192"
      using fl(2) by (simp add: n5 appended_def ETDB_PAGE_SIZE_def pf_bytes_def)
    have slots: "int_of_bytes 8 (take 8 (drop (16 * i) (pf_data (ix_node st5)))) = base_at ?t (int i) \<and>
        int_of_bytes 8 (take 8 (drop (16 * i + 8) (pf_data (ix_node st5)))) = check_at ?t (int i)" if "i < 256" for i
    proof -
      have "node_base st1 (p + 16 * int i) = base_at ?t (int i)" "node_check st1 (p + 16 * int i) = check_at ?t (int i)"
        using index_node_init_fields [of i 256 p _ raw] that unfolding st1_def etdb_index_node_init_def by simp_all
      then show ?thesis
        using pf_bytes_part [of "16 * i" 8 8192 "ix_node st1" p] pf_bytes_part [of "16 * i + 8" 8 8192 "ix_node st1" p] that
        by (simp add: field_defs get_int_def data algebra_simps)
    qed
    have ni: "ix_ninfo st5 = appended ki v (pf_write v (replicate 8192 0) gi)" by (simp add: n5 st3_def)
    have b: "\<forall>i\<in>set [Suc 0..<256]. 0 < i" "[0..<256] = 0 # [Suc 0..<256]"
      unfolding set_upt by (auto intro: upt_conv_Cons)
    let ?g = "fold (index_block_init w) [0..<256] (st3\<lparr>ix_block := gb\<rparr>)"
    have "pf_bytes (ix_block st5) = pf_bytes (ix_block st4)" by (simp add: fun_eq_iff st5_def pf_bytes_def appended_def)
    then have b5: "block_prev st5 = block_prev st4" "block_next st5 = block_next st4" "block_num st5 = block_num st4"
      "block_reject st5 = block_reject st4" "block_trial st5 = block_trial st4" "block_ehead st5 = block_ehead st4"
      by (simp_all add: field_defs get_int_def fun_eq_iff)
    have b4: "block_prev st4 w = 0 \<and> block_next st4 w = 0 \<and> block_num st4 w = 256 \<and> block_reject st4 w = 257 \<and>
        block_trial st4 w = 0 \<and> block_ehead st4 w = 1"
      using blocks_behind [OF b(1), of w "index_block_init w 0 (st3\<lparr>ix_block := gb\<rparr>)"] put_block_fields(7-12) [of 0 1 w ?g]
      by (simp add: st4_def b(2) block_first)
    have one5: "one_page (ix_node st5) 1" and len: "length (pf_data (ix_node st5)) = 8192" and hold5: "pf_holds (ix_ninfo st5) v"
      using one I(3) unfolding data ni by (simp_all add: n5(1) pf_bytes_def)
    have rd5: "pf_reads (ix_node st5) 0" using rd1 by (simp add: n5(1) appended_def)
    have "pf_holds (ix_block st5) w" using B(3) by (simp add: st5_def st4_def put_block_ehead_def holds_block_fold)
    then show ?thesis
      unfolding new_store_def using one5 rd5 len slots hold5 b4 zero_ninfos [OF _ _ ni] by (simp add: n5(3) b5 init_acc(3-) init_reject)
  qed
  ultimately show ?thesis using N(1,2) by blast
qed

section \<open>Properties\<close>

lemma init_store_fails:
  assumes "None \<in> {io, c_written cn, c_written ci, c_written cb}"
  shows "etdb_init_store alloc dir None io cn ci cb = None"
proof (rule ccontr)
  assume "etdb_init_store alloc dir None io cn ci cb \<noteq> None"
  then obtain st where "etdb_init_store alloc dir None io cn ci cb = Some st" by blast
  then have "io \<noteq> None \<and> c_written cn \<noteq> None \<and> c_written ci \<noteq> None \<and> c_written cb \<noteq> None"
    by (auto simp: etdb_init_store_def etdb_store_file_exit_def etdb_store_flush_meta_def etdb_store_write_def Let_def
        Option.bind_eq_Some_conv split: if_splits)
  then show False using assms by auto
qed

text \<open>
  C27: a new page store holds what \<open>etdb_trie_init\<close> makes in memory: whenever the system has memory for
  the three caches and the writes of \<open>etdb_init_store\<close> in an empty directory succeed, the one of the
  node page completely, it returns, and with memory for one page more and a node file that can be
  read every entry of the first block is found, with the contents it has there, and the first label
  of a key is followed to the same slot with the same changes of all entries. The node page gets its
  place in the file only because \<open>O_APPEND\<close> ignores the number 1 that it is written under. When one
  of the writes fails, \<open>etdb_init_store\<close> does not return: the error it logs ends the process.
\<close>

theorem etdb_init_store_trie:
  assumes "alloc_ok alloc" "cache_ready alloc cn" "cache_ready alloc ci" "cache_ready alloc cb"
    "length dir \<le> 249" "c_file cn = []" "8192 \<le> kn" "c_reads cn 0"
    "c_written cn = Some kn" "c_written ci = Some ki" "c_written cb = Some kb"
  shows "(\<exists>st v w. etdb_init_store alloc dir None (Some wr) cn ci cb = Some st \<and>
    (lru_memory alloc (pf_lru (ix_node st)) (pf_mem (ix_node st)) \<longrightarrow>
      (\<forall>i\<in>{0..<256}. \<exists>u st'. etdb_store_index_node_at alloc i st = Some (u + 16 * i, st') \<and>
         store_holds u v w st' (etdb_trie_init raw)) \<and>
      (\<forall>label. label \<noteq> 0 \<longrightarrow> (\<exists>u q st' t'. etdb_store_follow unret alloc 0 label st = Some (q, st') \<and>
         etdb_trie_follow (etdb_trie_init raw) 0 label = Some (t', 0, q) \<and> store_holds u v w st' t')))) \<and>
    (\<forall>io rn ri rb. None \<in> {io, rn, ri, rb} \<longrightarrow>
      etdb_init_store alloc dir None io (cn\<lparr>c_written := rn\<rparr>) (ci\<lparr>c_written := ri\<rparr>) (cb\<lparr>c_written := rb\<rparr>) = None)"
proof -
  let ?t = "etdb_trie_init raw"
  obtain st v w where S: "etdb_init_store alloc dir None (Some wr) cn ci cb = Some st" "new_store v w st ?t"
    using etdb_init_store_new [OF assms] by blast
  have at: "\<exists>u st'. etdb_store_index_node_at alloc i st = Some (u + 16 * i, st') \<and> store_holds u v w st' ?t"
    if "i \<in> {0..<256}" "lru_memory alloc (pf_lru (ix_node st)) (pf_mem (ix_node st))" for i
    using new_store_node_at [OF S(2) assms(1)] that by simp
  have "\<exists>u q st' t'. etdb_store_follow unret alloc 0 label st = Some (q, st') \<and> etdb_trie_follow ?t 0 label = Some (t', 0, q) \<and>
      store_holds u v w st' t'" if m: "lru_memory alloc (pf_lru (ix_node st)) (pf_mem (ix_node st))" and l: "label \<noteq> 0" for label :: byte
  proof -
    obtain u st' where A: "etdb_store_index_node_at alloc 0 st = Some (u + 16 * 0, st')" "store_holds u v w st' ?t"
      using at [of 0] m by auto
    have b: "base_at ?t 0 = 0" by (simp add: init_acc)
    have n: "0 < uint label" using l by (simp add: order_less_le uint_0_iff) 
    have "first_free ?t x" if "0 < x" "x < 256" for x using that by (simp add: first_free_def init_acc)
    from this [OF n uint_byte_bounds(2)] have "first_free ?t (base_at ?t 0 XOR uint label)" by (simp add: b)
    moreover have "- (2 ^ 15) < bnum_at ?t 0" by (simp add: init_acc)
    ultimately show ?thesis using holds_follow [OF A, of label unret] l unfolding b by fastforce
  qed
  moreover have "etdb_init_store alloc dir None io (cn\<lparr>c_written := rn\<rparr>) (ci\<lparr>c_written := ri\<rparr>) (cb\<lparr>c_written := rb\<rparr>) = None"
    if "None \<in> {io, rn, ri, rb}" for io rn ri rb
    by (rule init_store_fails) (use that in simp)
  ultimately show ?thesis using S(1) at by blast
qed

definition example_spot :: cache_spot where
  "example_spot = \<lparr>c_self = 16, c_mem = example_cache, c_file = [], c_cap = 3, c_reads = \<lambda>_. True, c_written = Some 8192\<rparr>"

lemma example_ready: "cache_ready example_sysalloc example_spot"
proof -
  obtain lru m where "etdb_init_lru example_sysalloc 16 3 example_cache = Some (lru, m)" "lru_memory example_sysalloc lru m"
    using example_init by metis
  then show ?thesis using example_place by (simp add: cache_ready_def example_spot_def)
qed

text \<open>The pool after the first page.\<close>

lemma example_first_page:
  assumes "open_index example_sysalloc example_spot = Some fn" "add_entry example_sysalloc 1 fn = Some (p, gn)"
  shows "lpool (pf_lru gn) = 64" "example_pool 232 216 (page_heap (pf_mem gn))"
    "larges (page_heap (pf_mem gn)) 216 = \<lparr>l_next = 0, l_alloc = 4160\<rparr>"
    "regions (page_heap (pf_mem gn)) = {(4160, 8192), (64, 4096), (16, 48)}"
proof -
  obtain lru m where i: "etdb_init_lru example_sysalloc 16 3 example_cache = Some (lru, m)"
    "lpool lru = 64" "example_pool 168 0 (page_heap m)" "regions (page_heap m) = {(64, 4096), (16, 48)}"
    using example_init by metis
  have fn: "fn = \<lparr>pf_lru = lru, pf_mem = m, pf_data = [], pf_reads = \<lambda>_. True\<rparr>"
    using assms(1) i(1) by (simp add: open_index_def example_spot_def)
  note L = etdb_init_lru_rep [OF example_place example_sysalloc _ _ i(1), simplified]
  have c: "cache_size lru \<noteq> etdb_lru.capacity lru" "hash_head_size lru \<noteq> 0"
    using lru_rep_bounds(3,8) [OF L(1)] L(2) by auto
  obtain h1 where h1: "etdb_palloc example_sysalloc 64 48 (page_heap m) = Some (168, h1)" "example_pool 216 0 h1"
    "regions h1 = regions (page_heap m)"
    using example_piece [OF i(3), of 48 example_sysalloc] by auto
  have "example_sysalloc (regions h1) 8192 = 4160" by (simp add: h1(3) i(4) example_sysalloc_def Let_def)
  then obtain h2 where h2: "etdb_palloc example_sysalloc 64 8192 h1 = Some (4160, h2)" "example_pool 232 216 h2"
    "larges h2 216 = \<lparr>l_next = 0, l_alloc = 4160\<rparr>" "regions h2 = insert (4160, 8192) (regions h1)"
    using example_page [OF h1(2), of example_sysalloc] by auto
  have "page_heap (pf_mem gn) = h2 \<and> lpool (pf_lru gn) = 64"
    using assms(2) c i(2) h1(1) h2(1)
    by (auto simp: fn add_entry_def etdb_lru_alloc_entry_def lru_take_def lru_node_size_def ETDB_PAGE_SIZE_def Let_def split: if_splits)
  then show "lpool (pf_lru gn) = 64" "example_pool 232 216 (page_heap (pf_mem gn))"
    "larges (page_heap (pf_mem gn)) 216 = \<lparr>l_next = 0, l_alloc = 4160\<rparr>"
    "regions (page_heap (pf_mem gn)) = {(4160, 8192), (64, 4096), (16, 48)}"
    using h2 h1(3) i(4) by auto
qed

lemma example_second_page:
  assumes "lpool lru = 64" "example_pool 232 216 (page_heap m)" "larges (page_heap m) 216 = \<lparr>l_next = 0, l_alloc = 4160\<rparr>"
    "regions (page_heap m) = {(4160, 8192), (64, 4096), (16, 48)}"
  shows "lru_memory example_sysalloc lru m"
proof -
  obtain h where h: "etdb_palloc example_sysalloc 64 48 (page_heap m) = Some (232, h)" "example_pool 280 216 h"
    "larges h = larges (page_heap m)" "regions h = regions (page_heap m)"
    using example_piece [OF assms(2), of 48 example_sysalloc] by auto
  have "example_sysalloc (regions h) 8192 = 12352" by (simp add: h(4) assms(4) example_sysalloc_def Let_def)
  then have "\<exists>h'. etdb_palloc example_sysalloc 64 8192 h = Some (12352, h')"
    using example_page [OF h(2), of example_sysalloc 12352] assms(3) by (auto simp: h(3))
  then show ?thesis using assms(1) h(1) by (auto simp: lru_memory_def lru_node_size_def ETDB_PAGE_SIZE_def)
qed

theorem etdb_init_store_trie_witness:
  "\<exists>st v w u q st' t'. etdb_init_store example_sysalloc [100, 98] None (Some 2096) example_spot example_spot example_spot = Some st \<and>
     etdb_store_follow 0 example_sysalloc 0 107 st = Some (q, st') \<and>
     etdb_trie_follow (etdb_trie_init undefined) 0 107 = Some (t', 0, q) \<and> store_holds u v w st' t'"
proof -
  note pre = example_sysalloc example_ready example_ready example_ready
  have d: "length ([100, 98] :: bytes) \<le> 249" "c_file example_spot = []" "8192 \<le> (8192 :: nat)" "c_reads example_spot 0"
    "c_written example_spot = Some 8192" "c_written example_spot = Some 8192" "c_written example_spot = Some 8192"
    by (simp_all add: example_spot_def)
  obtain st fn p gn where N: "etdb_init_store example_sysalloc [100, 98] None (Some 2096) example_spot example_spot example_spot = Some st"
    "open_index example_sysalloc example_spot = Some fn" "add_entry example_sysalloc 1 fn = Some (p, gn)"
    "alloc_part (ix_node st) = alloc_part gn"
    using etdb_init_store_new [OF pre d, of 2096 undefined] by blast
  have m: "lru_memory example_sysalloc (pf_lru (ix_node st)) (pf_mem (ix_node st))"
    using N(4) example_first_page [OF N(2,3)] by (intro example_second_page) (simp_all add: alloc_part_def example_pool_def)
  obtain st1 v w where T: "etdb_init_store example_sysalloc [100, 98] None (Some 2096) example_spot example_spot example_spot = Some st1"
    "lru_memory example_sysalloc (pf_lru (ix_node st1)) (pf_mem (ix_node st1)) \<Longrightarrow> (107 :: byte) \<noteq> 0 \<Longrightarrow>
      \<exists>u q st' t'. etdb_store_follow 0 example_sysalloc 0 107 st1 = Some (q, st') \<and>
        etdb_trie_follow (etdb_trie_init undefined) 0 107 = Some (t', 0, q) \<and> store_holds u v w st' t'"
    using conjunct1 [OF etdb_init_store_trie [OF pre d, of 2096 undefined 0]] by blast
  have e: "st1 = st" using N(1) T(1) by simp
  have "(107 :: byte) \<noteq> 0" by simp
  from T(2) [unfolded e, OF m this] show ?thesis using N(1) by blast
qed

end
