(* ===== verification/Cli.thy ===== *)
theory Cli
  imports Sockets Event Handlers
begin

unbundle bit_operations_syntax

text \<open>
  The command line client, \<open>src/etdb_client.c\<close>: the options, the interactive cycle that sends one
  line and prints the answer, and the benchmark that keeps a number of requests under way.

  As in theory \<open>Server\<close> a connection is known by its address, what the system calls return is an
  argument, and \<open>cli_wire\<close> collects what was sent. The line typed by the user is what \<open>linenoise\<close>
  returns, \<^term>\<open>None\<close> for \<open>NULL\<close>. \<open>cli_shown\<close> is the standard output.
\<close>

section \<open>Options\<close>

record cli_options =
  serv_ip :: bytes
  serv_port :: "16 word"
  benchmark :: bool
  request_num :: int
  parallel_conn :: int

definition default_options :: cli_options where
  "default_options = \<lparr>serv_ip = str ''127.0.0.1'', serv_port = 8218, benchmark = False,
     request_num = 10000, parallel_conn = 50\<rparr>"

text \<open>\<open>atoi\<close> of the C library; a number too large for \<open>int\<close> gives its low 32 bits here.\<close>

definition libc_atoi :: "bytes \<Rightarrow> int" where
  "libc_atoi s =
     (let s = dropWhile (\<lambda>w. w = 32 \<or> 9 \<le> w \<and> w \<le> 13) s;
          neg = (s \<noteq> [] \<and> hd s = 45);
          s = (if s \<noteq> [] \<and> (hd s = 45 \<or> hd s = 43) then tl s else s);
          n = dec_val (takeWhile is_digit s)
      in sint (word_of_int (if neg then - n else n) :: 32 word))"

fun parse_options :: "bytes list \<Rightarrow> cli_options \<Rightarrow> cli_options" where
  "parse_options [] opts = opts"
| "parse_options (arg # args) opts =
     parse_options args
       (if take 2 arg = str ''-b'' then opts\<lparr>benchmark := True\<rparr>
        else if take 2 arg = str ''-r'' then
          let tmp = libc_atoi (drop 2 arg) in if tmp > 0 then opts\<lparr>request_num := tmp\<rparr> else opts
        else if take 2 arg = str ''-c'' then
          let tmp = libc_atoi (drop 2 arg) in if tmp > 0 then opts\<lparr>parallel_conn := tmp\<rparr> else opts
        else opts)"

text \<open>
  \<^term>\<open>Inl\<close> is the exit code. The address is copied to an array of 255 bytes; a longer one is
  written behind it, \<^term>\<open>None\<close>.
\<close>

definition etdb_cli_init :: "bytes list \<Rightarrow> (int + cli_options) option" where
  "etdb_cli_init argv =
     (if length argv < 3 then Some (Inl 1)
      else if length (argv ! 1) \<ge> 255 then None
      else Some (Inr (parse_options (drop 2 argv)
             (default_options\<lparr>serv_ip := argv ! 1, serv_port := word_of_int (libc_atoi (argv ! 2))\<rparr>))))"

section \<open>Connections\<close>

record cli_state =
  cli_mgr :: etdb_event_mgr
  cli_conns :: "int \<Rightarrow> etdb_connection option"
  cli_wire :: "int \<Rightarrow> bytes"
  cli_quit :: bool
  cli_shown :: bytes

record connect_io =
  c_raw_in :: "nat \<Rightarrow> byte"
  c_raw_out :: "nat \<Rightarrow> byte"
  c_sockfd :: int
  c_connected :: bool
  c_addr :: int

record cli_io =
  c_got :: "read_result list"
  c_took :: "io_result list"
  c_junk :: int
  c_grows :: "nat \<Rightarrow> bool"
  c_linked :: bool
  c_time :: int

definition cli_put :: "int \<Rightarrow> etdb_connection \<Rightarrow> cli_state \<Rightarrow> cli_state" where
  "cli_put a c s = s\<lparr>cli_conns := (cli_conns s)(a \<mapsto> c)\<rparr>"

definition cli_watch :: "int \<Rightarrow> 32 word \<Rightarrow> int \<Rightarrow> int \<Rightarrow> cli_state \<Rightarrow> cli_state" where
  "cli_watch fd fl num a s = s\<lparr>cli_mgr := snd (etdb_event_mgr_set (cli_mgr s) fd fl num a)\<rparr>"

definition cli_unwatch :: "int \<Rightarrow> 32 word \<Rightarrow> cli_state \<Rightarrow> cli_state" where
  "cli_unwatch fd fl s = s\<lparr>cli_mgr := snd (etdb_event_mgr_ctr (cli_mgr s) fd fl)\<rparr>"

definition cli_print :: "bytes \<Rightarrow> cli_state \<Rightarrow> cli_state" where
  "cli_print out s = s\<lparr>cli_shown := cli_shown s @ out\<rparr>"

text \<open>\<open>etdb_event_mgr_isset\<close>, and the flag is set when it was not.\<close>

definition cli_ensure :: "int \<Rightarrow> 32 word \<Rightarrow> int \<Rightarrow> cli_state \<Rightarrow> cli_state" where
  "cli_ensure fd fl a s =
     (let (m, is_set) = etdb_event_mgr_isset (cli_mgr s) fd fl; s = s\<lparr>cli_mgr := m\<rparr>
      in if \<not> is_set then cli_watch fd fl 1 a s else s)"

text \<open>Stop watching, close, and leave the cycle.\<close>

definition cli_drop :: "int \<Rightarrow> cli_state \<Rightarrow> cli_state" where
  "cli_drop a s =
     s\<lparr>cli_mgr := snd (etdb_event_mgr_del (cli_mgr s) (sock (the (cli_conns s a)))),
       cli_conns := (cli_conns s)(a := None), cli_quit := True\<rparr>"

definition cli_connect :: "connect_io \<Rightarrow> cli_state \<Rightarrow> int + cli_state" where
  "cli_connect io s =
     (case fst (etdb_connect_request (c_raw_in io) (c_raw_out io) (c_sockfd io) (c_connected io)) of
        None \<Rightarrow> Inl 1
      | Some c \<Rightarrow> Inr (cli_watch (sock c) FDEVENT_IN 0 (c_addr io) (cli_put (c_addr io) c s)))"

fun cli_connects :: "connect_io list \<Rightarrow> cli_state \<Rightarrow> int + cli_state" where
  "cli_connects [] s = Inr s"
| "cli_connects (io # ios) s = (case cli_connect io s of Inl e \<Rightarrow> Inl e | Inr s \<Rightarrow> cli_connects ios s)"

text \<open>One connection, or as many as the option says; their addresses are \<open>etdb_cli_conn_tab\<close>.\<close>

definition etdb_cli_init_conn :: "cli_options \<Rightarrow> connect_io list \<Rightarrow> cli_state \<Rightarrow> int + cli_state" where
  "etdb_cli_init_conn opts ios s =
     (let s = s\<lparr>cli_mgr := etdb_event_mgr_init\<rparr>
      in if \<not> benchmark opts then cli_connect (hd ios) s
         else cli_connects (take (nat (parallel_conn opts)) ios) s)"

section \<open>Sending a command\<close>

text \<open>\<^term>\<open>None\<close> also for a connection that was closed and freed.\<close>

definition etdb_cli_handle_user_cmd :: "cli_io \<Rightarrow> int \<Rightarrow> bytes \<Rightarrow> cli_state \<Rightarrow> (int \<times> cli_state) option" where
  "etdb_cli_handle_user_cmd io a cmd s =
     Option.bind (Option.bind (cli_conns s a) (\<lambda>c. etdb_connect_send_cmd (c_grows io) c cmd))
       (\<lambda>(r, c).
          if r < 0 then Some (-1, cli_put a c s)
          else
            let size = bsize (buf_out c)
            in map_option
                 (\<lambda>(n, c, sent, _).
                    let s = cli_put a c s; s = s\<lparr>cli_wire := (cli_wire s)(a := cli_wire s a @ sent)\<rparr>
                    in (0, if n \<noteq> int size then cli_ensure (sock c) FDEVENT_OUT a s else s))
                 (etdb_connect_write c (c_took io)))"

section \<open>Events\<close>

definition cli_read :: "cli_io \<Rightarrow> int \<Rightarrow> cli_state \<Rightarrow> int list \<Rightarrow> (cli_state \<times> int list) option" where
  "cli_read io a s ready =
     map_option (\<lambda>(n, c).
         if n \<le> 0 then (cli_drop a (cli_put a c s), ready) else (cli_put a c s, ready @ [a]))
       (etdb_connect_read_to_buf (the (cli_conns s a)) (c_got io))"

definition cli_write :: "cli_io \<Rightarrow> int \<Rightarrow> cli_state \<Rightarrow> int list \<Rightarrow> (cli_state \<times> int list) option" where
  "cli_write io a s ready =
     map_option (\<lambda>(n, c, sent, _).
         let s = cli_put a c s; s = s\<lparr>cli_wire := (cli_wire s)(a := cli_wire s a @ sent)\<rparr>
         in if n \<le> 0 then (cli_drop a s, ready)
            else if bsize (buf_out c) = 0 then
              let s = cli_unwatch (sock c) FDEVENT_OUT s
              in if bsize (buf_in c) \<noteq> 0 then (s, ready @ [a])
                 else (cli_watch (sock c) FDEVENT_IN 1 a s, ready)
            else (s, ready))
       (etdb_connect_write (the (cli_conns s a)) (c_took io))"

definition cli_event :: "cli_io \<Rightarrow> int \<Rightarrow> cli_state \<Rightarrow> int list \<Rightarrow> (cli_state \<times> int list) option" where
  "cli_event io fd s ready =
     (let ev = the (table (cli_mgr s) fd); a = data_ptr ev
      in if events ev AND FDEVENT_ERR \<noteq> 0 then Some (cli_drop a s, ready)
         else if events ev AND FDEVENT_IN \<noteq> 0 then cli_read io a s ready
         else if events ev AND FDEVENT_OUT \<noteq> 0 then cli_write io a s ready
         else Some (s, ready))"

fun cli_events :: "(int \<Rightarrow> cli_io) \<Rightarrow> int list \<Rightarrow> cli_state \<Rightarrow> int list \<Rightarrow> (cli_state \<times> int list) option" where
  "cli_events ios [] s ready = Some (s, ready)"
| "cli_events ios (fd # fds) s ready =
     Option.bind (cli_event (ios fd) fd s ready) (\<lambda>(s, ready). cli_events ios fds s ready)"

section \<open>Answers\<close>

text \<open>
  The answer is copied to a cleared array of 1024 bytes and printed up to its first zero byte;
  \<^term>\<open>None\<close> when it does not fit, or fits without a zero byte behind it.
\<close>

definition print_data :: "bytes \<Rightarrow> cli_state \<Rightarrow> cli_state option" where
  "print_data b s =
     (if length b > 1024 \<or> length b = 1024 \<and> 0 \<notin> set b then None
      else Some (cli_print (takeWhile (\<lambda>w. w \<noteq> 0) b @ [10]) s))"

fun print_answers :: "bytes list \<Rightarrow> cli_state \<Rightarrow> cli_state option" where
  "print_answers [] s = Some s"
| "print_answers (b # bs) s = Option.bind (print_data b s) (print_answers bs)"

text \<open>
  The first part of the loops over the ready connections: \<^term>\<open>Inl\<close> when there is nothing more to
  do for the connection, \<^term>\<open>Inr\<close> with its answer otherwise.
\<close>

definition cli_recv :: "cli_io \<Rightarrow> int \<Rightarrow> cli_state \<Rightarrow> (cli_state + bytes list \<times> cli_state) option" where
  "cli_recv io a s =
     Option.bind (etdb_connect_recv (c_junk io) (c_grows io) (the (cli_conns s a)))
       (\<lambda>r. case r of
          Inl c \<Rightarrow> if c_linked io then Some (Inl (cli_drop a (cli_put a c s))) else None
        | Inr c \<Rightarrow>
            let s = cli_put a c s
            in if recv_cmd c = [] then Some (Inl (cli_ensure (sock c) FDEVENT_IN a s))
               else Some (Inr (map (slice_bytes c) (recv_cmd c), s)))"

text \<open>The status is left out when values follow it.\<close>

fun show_ready :: "(int \<Rightarrow> cli_io) \<Rightarrow> int list \<Rightarrow> bool \<Rightarrow> cli_state \<Rightarrow> (bool \<times> cli_state) option" where
  "show_ready ios [] responsed s = Some (responsed, s)"
| "show_ready ios (a # as) responsed s =
     Option.bind (cli_recv (ios a) a s)
       (\<lambda>r. case r of
          Inl s \<Rightarrow> show_ready ios as responsed s
        | Inr (req, s) \<Rightarrow>
            Option.bind (print_answers (if length req > 1 then tl req else req) s)
              (show_ready ios as True))"

section \<open>The interactive cycle\<close>

record cli_round =
  c_typed :: "bytes option"
  c_send_io :: cli_io
  c_waited :: wait_result
  c_ev_io :: "int \<Rightarrow> cli_io"
  c_req_io :: "int \<Rightarrow> cli_io"

text \<open>\<^term>\<open>Inl\<close> when waiting failed.\<close>

definition cli_wait :: "cli_round \<Rightarrow> cli_state \<Rightarrow> (cli_state + cli_state \<times> int list) option" where
  "cli_wait rd s =
     (let (m, evs) = etdb_event_mgr_wait (cli_mgr s) (c_waited rd); s = s\<lparr>cli_mgr := m\<rparr>
      in case evs of
           None \<Rightarrow> Some (Inl s)
         | Some fds \<Rightarrow> map_option Inr (cli_events (c_ev_io rd) fds s []))"

text \<open>
  The line is read when the answer to the last one was printed. The result of the round is
  \<^term>\<open>Inl\<close> when the cycle ends.
\<close>

definition cli_answer :: "cli_round \<Rightarrow> bool \<Rightarrow> cli_state \<Rightarrow> (cli_state + bool \<times> cli_state) option" where
  "cli_answer rd responsed s =
     Option.bind (cli_wait rd s)
       (\<lambda>r. case r of
          Inl s \<Rightarrow> Some (Inl s)
        | Inr (s, ready) \<Rightarrow> map_option Inr (show_ready (c_req_io rd) ready responsed s))"

definition cli_turn :: "int \<Rightarrow> cli_round \<Rightarrow> bool \<Rightarrow> cli_state \<Rightarrow> (cli_state + bool \<times> cli_state) option" where
  "cli_turn a rd responsed s =
     (if \<not> responsed then cli_answer rd responsed s
      else case c_typed rd of
             None \<Rightarrow> Some (Inl s)
           | Some buf \<Rightarrow>
               if buf = str ''quit'' then Some (Inl (cli_print (str ''Bye'' @ [10]) s))
               else
                 Option.bind (etdb_cli_handle_user_cmd (c_send_io rd) a buf s)
                   (\<lambda>(r, s). if r < 0 then Some (Inr (True, s)) else cli_answer rd False s))"

fun etdb_cli_cycle :: "int \<Rightarrow> cli_round list \<Rightarrow> bool \<Rightarrow> cli_state \<Rightarrow> cli_state option" where
  "etdb_cli_cycle a rds responsed s =
     (if cli_quit s then Some s
      else case rds of
             [] \<Rightarrow> None
           | rd # rds \<Rightarrow>
               Option.bind (cli_turn a rd responsed s)
                 (\<lambda>r. case r of Inl s \<Rightarrow> Some s | Inr (responsed, s) \<Rightarrow> etdb_cli_cycle a rds responsed s))"

section \<open>The benchmark\<close>

text \<open>Microseconds, \<open>src/store/etdb_time.c\<close>.\<close>

definition etdb_utils_get_timestamp :: "int \<Rightarrow> int \<Rightarrow> int" where
  "etdb_utils_get_timestamp tv_sec tv_usec = tv_sec * 1000000 + tv_usec"

record bench =
  num_sent :: int
  bad_req :: int

text \<open>One request on every connection; \<^term>\<open>None\<close> when there are fewer requests than connections.\<close>

fun bench_first :: "(int \<Rightarrow> cli_io) \<Rightarrow> int list \<Rightarrow> bytes list \<Rightarrow> cli_state \<Rightarrow> cli_state option" where
  "bench_first ios [] reqs s = Some s"
| "bench_first ios (a # as) [] s = None"
| "bench_first ios (a # as) (q # qs) s =
     Option.bind (etdb_cli_handle_user_cmd (ios a) a q s) (\<lambda>(_, s). bench_first ios as qs s)"

definition bench_report :: "int \<Rightarrow> int \<Rightarrow> int \<Rightarrow> bytes" where
  "bench_report num t_start t_end =
     str ''request: '' @ print_d num @ str '', time: '' @ print_d ((t_end - t_start) div 1000) @ str '' ms'' @ [10]"

text \<open>
  The loop over the ready connections: an answer makes room for the next request, and the last
  request ends the cycle with the report, \<^term>\<open>Inl\<close>. The clock does not run backwards, so that
  \<open>div\<close> is the division of C.
\<close>

fun bench_ready ::
    "(int \<Rightarrow> cli_io) \<Rightarrow> int \<Rightarrow> bytes list \<Rightarrow> int list \<Rightarrow> bench \<Rightarrow> cli_state \<Rightarrow> (cli_state + bench \<times> cli_state) option"
where
  "bench_ready ios t_start reqs [] b s = Some (Inr (b, s))"
| "bench_ready ios t_start reqs (a # as) b s =
     Option.bind (cli_recv (ios a) a s)
       (\<lambda>r. case r of
          Inl s \<Rightarrow> bench_ready ios t_start reqs as b s
        | Inr (req, s) \<Rightarrow>
            let c = the (cli_conns s a);
                good = (mem_read (bmem (buf_in c)) (soff (hd (recv_cmd c))) 3 = str ''+OK'');
                b = (if good then b else b\<lparr>bad_req := bad_req b + 1\<rparr>);
                b = b\<lparr>num_sent := num_sent b + 1\<rparr>
            in if num_sent b < int (length reqs) then
                 Option.bind (etdb_cli_handle_user_cmd (ios a) a (reqs ! nat (num_sent b)) s)
                   (\<lambda>(_, s). bench_ready ios t_start reqs as b s)
               else Some (Inl (cli_print (bench_report (int (length reqs)) t_start (c_time (ios a))) s)))"

fun bench_rounds :: "int \<Rightarrow> bytes list \<Rightarrow> cli_round list \<Rightarrow> bench \<Rightarrow> cli_state \<Rightarrow> cli_state option" where
  "bench_rounds t_start reqs rds b s =
     (if cli_quit s then Some s
      else case rds of
             [] \<Rightarrow> None
           | rd # rds \<Rightarrow>
               Option.bind (cli_wait rd s)
                 (\<lambda>r. case r of
                    Inl s \<Rightarrow> Some s
                  | Inr (s, ready) \<Rightarrow>
                      Option.bind (bench_ready (c_req_io rd) t_start reqs ready b s)
                        (\<lambda>r. case r of Inl s \<Rightarrow> Some s | Inr (b, s) \<Rightarrow> bench_rounds t_start reqs rds b s)))"

definition etdb_exec_benchmark_cycle ::
    "(int \<Rightarrow> cli_io) \<Rightarrow> int \<Rightarrow> int list \<Rightarrow> bytes list \<Rightarrow> cli_round list \<Rightarrow> cli_state \<Rightarrow> cli_state option" where
  "etdb_exec_benchmark_cycle ios t_start tab reqs rds s =
     Option.bind (bench_first ios tab reqs s)
       (bench_rounds t_start reqs rds \<lparr>num_sent = int (length tab) - 1, bad_req = 0\<rparr>)"

text \<open>The requests of the phases; \<open>%010d\<close> of a number below \<open>2 ^ 31\<close> is its ten digits.\<close>

definition set_request :: "nat \<Rightarrow> bytes" where
  "set_request n = str ''set k'' @ pad_digits 10 n @ str '' 1''"

definition get_request :: "bytes \<Rightarrow> bytes" where
  "get_request q = str ''get'' @ drop 3 (take (length q - 2) q)"

definition del_request :: "bytes \<Rightarrow> bytes" where
  "del_request q = str ''del'' @ drop 3 q"

definition spset_request :: "nat \<Rightarrow> nat \<times> nat \<Rightarrow> bytes" where
  "spset_request num r =
     str ''spset id_'' @ dec_str num @ [32] @ dec_str (fst r mod 90) @ [32] @ dec_str (snd r mod 180)"

record phase =
  p_ios :: "int \<Rightarrow> cli_io"
  p_start :: int
  p_rounds :: "cli_round list"

definition bench_phase :: "string \<Rightarrow> int list \<Rightarrow> bytes list \<Rightarrow> phase \<Rightarrow> cli_state \<Rightarrow> cli_state option" where
  "bench_phase title tab reqs p s =
     etdb_exec_benchmark_cycle (p_ios p) (p_start p) tab reqs (p_rounds p) (cli_print (str title @ [10]) s)"

text \<open>\<open>keys\<close> are the results of \<open>rand\<close> for the keys, \<open>points\<close> those for the points, one per request.\<close>

definition etdb_exec_benchmark ::
    "nat list \<Rightarrow> (nat \<times> nat) list \<Rightarrow> int list \<Rightarrow> (nat \<Rightarrow> phase) \<Rightarrow> cli_state \<Rightarrow> cli_state option" where
  "etdb_exec_benchmark keys points tab ps s =
     (let sets = map set_request keys; gets = map get_request sets; dels = map del_request gets in do {
        s \<leftarrow> bench_phase ''set benchmark'' tab sets (ps 0) s;
        s \<leftarrow> bench_phase ''get benchmark'' tab gets (ps 1) s;
        s \<leftarrow> bench_phase ''del benchmark'' tab dels (ps 2) s;
        s \<leftarrow> bench_phase ''ping benchmark'' tab (map (\<lambda>_. str ''ping'') keys) (ps 3) s;
        bench_phase ''spset benchmark'' tab
          (map (\<lambda>i. spset_request i (points ! i)) [0..<length keys]) (ps 4) s })"

section \<open>The program\<close>

text \<open>\<^term>\<open>Inl\<close> is the exit code of a client that cannot start; the banner is left out.\<close>

definition main_client ::
    "bytes list \<Rightarrow> connect_io list \<Rightarrow> cli_round list \<Rightarrow> nat list \<Rightarrow> (nat \<times> nat) list \<Rightarrow> (nat \<Rightarrow> phase) \<Rightarrow> cli_state \<Rightarrow>
     (int + cli_state) option" where
  "main_client argv ios rds keys points ps s =
     Option.bind (etdb_cli_init argv)
       (\<lambda>r. case r of
          Inl e \<Rightarrow> Some (Inl e)
        | Inr opts \<Rightarrow>
            (case etdb_cli_init_conn opts ios s of
               Inl e \<Rightarrow> Some (Inl e)
             | Inr s \<Rightarrow>
                 map_option Inr
                   (if \<not> benchmark opts then etdb_cli_cycle (c_addr (hd ios)) rds True s
                    else etdb_exec_benchmark (take (nat (request_num opts)) keys) points
                           (map c_addr (take (nat (parallel_conn opts)) ios)) ps s)))"

section \<open>Properties\<close>

text \<open>A blocking socket: one call of \<open>write\<close> that is not interrupted ends the loop.\<close>

lemma write_loop_blocking:
  assumes "\<exists>r\<in>set os. r \<noteq> Interrupted"
  shows "\<exists>x. write_loop False b ret sent os = Some x"
  using assms
proof (induction os arbitrary: b ret sent)
  case (Cons r os)
  then show ?case by (cases r) (auto simp: Let_def)
qed simp

lemma connect_write_blocking:
  assumes "\<not> noblock c" "buf_wf (buf_out c)" "io_ok False (bsize (buf_out c)) os" "\<exists>r\<in>set os. r \<noteq> Interrupted"
  obtains n c' sent os' where "etdb_connect_write c os = Some (n, c', sent, os')" "sock c' = sock c"
    "sent @ buf_bytes (buf_out c') = buf_bytes (buf_out c)" "n = int (bsize (buf_out c)) \<Longrightarrow> buf_bytes (buf_out c') = []"
proof -
  obtain n b sent os' where w: "write_loop False (buf_out c) 0 [] os = Some (n, b, sent, os')"
    using write_loop_blocking [OF assms(4), of "buf_out c" 0 "[]"] by (metis prod_cases4)
  from write_loop_spec [OF w assms(2,3)] have s: "sent @ buf_bytes b = buf_bytes (buf_out c)" "n = -1 \<or> n = int (length sent)"
    by auto
  have "buf_bytes b = []" if "n = int (bsize (buf_out c))"
  proof -
    have "length sent = bsize (buf_out c)" using s(2) that by auto
    moreover have "length (sent @ buf_bytes b) = bsize (buf_out c)" unfolding s(1) by (simp add: buf_bytes_def)
    ultimately show ?thesis by simp
  qed
  then show thesis using that [of n "c\<lparr>buf_out := b\<rparr>" sent os'] w assms(1) s(1) by (simp add: etdb_connect_write_def)
qed

lemma cli_ensure_watched:
  assumes "watch_inv (cli_mgr s)" "fl \<noteq> 0"
  shows "watched (cli_mgr (cli_ensure fd fl a s)) fd AND fl \<noteq> 0" "cli_conns (cli_ensure fd fl a s) = cli_conns s"
    "cli_wire (cli_ensure fd fl a s) = cli_wire s"
proof -
  obtain m ev where g: "etdb_event_mgr_get_event (cli_mgr s) fd = (m, ev)" by fastforce
  note G = get_event_spec [OF assms(1) g]
  obtain m' where m': "etdb_event_mgr_set m fd fl 1 a = (0, m')" "watched m' = (watched m)(fd := watched m fd OR fl)"
    by (rule event_mgr_set [OF G(6) assms(2), of fd 1 a])
  have "(x OR fl) AND fl = fl" for x by (rule bit_word_eqI) (auto simp: bit_simps)
  then show "watched (cli_mgr (cli_ensure fd fl a s)) fd AND fl \<noteq> 0"
    using G(1,5) m' assms(2) by (simp add: cli_ensure_def cli_watch_def etdb_event_mgr_isset_def g Let_def)
  show "cli_conns (cli_ensure fd fl a s) = cli_conns s" "cli_wire (cli_ensure fd fl a s) = cli_wire s"
    by (simp_all add: cli_ensure_def cli_watch_def etdb_event_mgr_isset_def g Let_def)
qed

text \<open>
  C30: a command line with words is sent as the request of these words: of the bytes queued a part is
  sent at once, in order, and the rest stays in the buffer, and then the connection is watched for
  room to write, so that the rest is not forgotten. A line without words is refused and sends
  nothing.
\<close>

theorem etdb_cli_handle_user_cmd_sent:
  fixes cmd :: bytes
  defines "words \<equiv> filter (\<lambda>s. s \<noteq> []) (take 256 (split_fields 32 cmd))"
  assumes "cli_conns s a = Some c" "\<not> noblock c" "buf_wf (buf_out c)" "length cmd < 2 ^ 31" "\<forall>n. c_grows io n"
    "watch_inv (cli_mgr s)" "\<exists>r\<in>set (c_took io). r \<noteq> Interrupted"
    "io_ok False (length (buf_bytes (buf_out c) @ encode_request words)) (c_took io)"
  shows "\<exists>r s' c'. etdb_cli_handle_user_cmd io a cmd s = Some (r, s') \<and> cli_conns s' a = Some c' \<and>
    (if words = [] then r = -1 \<and> cli_wire s' = cli_wire s \<and> buf_bytes (buf_out c') = buf_bytes (buf_out c)
     else r = 0 \<and> cli_wire s' a @ buf_bytes (buf_out c') = cli_wire s a @ buf_bytes (buf_out c) @ encode_request words \<and>
       (buf_bytes (buf_out c') = [] \<or> watched (cli_mgr s') (sock c) AND FDEVENT_OUT \<noteq> 0))"
proof -
  obtain r d where D: "etdb_connect_send_cmd (c_grows io) c cmd = Some (r, d)" "buf_wf (buf_out d)"
    "words = [] \<Longrightarrow> r = -1 \<and> buf_bytes (buf_out d) = buf_bytes (buf_out c)"
    "words \<noteq> [] \<Longrightarrow> r = 0 \<and> buf_bytes (buf_out d) = buf_bytes (buf_out c) @ encode_request words"
    using send_cmd_spec [OF assms(4,5,6)] unfolding words_def Let_def by blast
  have f: "sock d = sock c" "noblock d = noblock c" using arg_cong [OF send_cmd_frame [OF D(1)], of sock]
      arg_cong [OF send_cmd_frame [OF D(1)], of noblock] by simp_all
  show ?thesis
  proof (cases "words = []")
    case True
    then show ?thesis using D assms(2) by (simp add: etdb_cli_handle_user_cmd_def cli_put_def)
  next
    case False
    have "bsize (buf_out d) = length (buf_bytes (buf_out c) @ encode_request words)"
      using D(4) [OF False] by (metis buf_bytes_def mem_read_length)
    then obtain n e sent os' where E: "etdb_connect_write d (c_took io) = Some (n, e, sent, os')" "sock e = sock d"
      "sent @ buf_bytes (buf_out e) = buf_bytes (buf_out d)" "n = int (bsize (buf_out d)) \<Longrightarrow> buf_bytes (buf_out e) = []"
      using connect_write_blocking [of d "c_took io"] D(2) assms(3,8,9) f(2) by metis
    let ?s = "(cli_put a e s)\<lparr>cli_wire := (cli_wire s)(a := cli_wire s a @ sent)\<rparr>"
    let ?t = "if n \<noteq> int (bsize (buf_out d)) then cli_ensure (sock e) FDEVENT_OUT a ?s else ?s"
    have w: "watch_inv (cli_mgr ?s)" "FDEVENT_OUT \<noteq> 0" using assms(7) by (simp_all add: cli_put_def FDEVENT_OUT_def)
    have h: "etdb_cli_handle_user_cmd io a cmd s = Some (0, ?t)"
      using D(1) D(4) [OF False] E(1) assms(2) by (simp add: etdb_cli_handle_user_cmd_def cli_put_def Let_def)
    have t: "cli_conns ?t a = Some e" "cli_wire ?t a = cli_wire s a @ sent"
      using cli_ensure_watched(2,3) [OF w] by (simp_all add: cli_put_def)
    have "buf_bytes (buf_out e) = [] \<or> watched (cli_mgr ?t) (sock c) AND FDEVENT_OUT \<noteq> 0"
      using E(2,4) f(1) cli_ensure_watched(1) [OF w, of "sock e" a] by auto
    then show ?thesis using h t False E(3) D(4) [OF False] by (intro exI [of _ 0] exI [of _ ?t] exI [of _ e]) simp
  qed
qed

theorem etdb_cli_handle_user_cmd_sent_witness:
  "\<exists>s r s'. cli_conns s 1 = Some (example_conn\<lparr>noblock := False\<rparr>) \<and>
     etdb_cli_handle_user_cmd \<lparr>c_got = [], c_took = [Interrupted, Moved 2], c_junk = 0, c_grows = \<lambda>_. True, c_linked = True, c_time = 0\<rparr>
       1 [103, 32, 107] s = Some (r, s') \<and>
     (\<exists>c' :: etdb_connection. cli_wire s' 1 @ buf_bytes (buf_out c') = buf_bytes (buf_out example_conn) @ encode_request [[103], [107]])"
proof -
  let ?c = "example_conn\<lparr>noblock := False\<rparr>" and ?cmd = "[103, 32, 107] :: bytes"
  let ?io = "\<lparr>c_got = [], c_took = [Interrupted, Moved 2], c_junk = 0, c_grows = \<lambda>_. True, c_linked = True, c_time = 0\<rparr>"
  define s where "s = \<lparr>cli_mgr = etdb_event_mgr_init, cli_conns = [1 \<mapsto> ?c], cli_wire = \<lambda>_. [], cli_quit = False, cli_shown = []\<rparr>"
  have w: "filter (\<lambda>s. s \<noteq> []) (take 256 (split_fields 32 ?cmd)) = [[103], [107]]" by simp
  have "length (buf_bytes (buf_out ?c)) = 3" by (simp add: example_conn_def buf_bytes_def)
  then have io: "io_ok False (length (buf_bytes (buf_out ?c) @ encode_request [[103], [107]])) (c_took ?io)" by simp
  have wf: "buf_wf (buf_out ?c)" using example_conn_out by simp
  have s: "cli_conns s 1 = Some ?c" "cli_wire s = (\<lambda>_. [])" "watch_inv (cli_mgr s)"
    by (simp_all add: s_def init_watch_inv)
  have p: "\<not> noblock ?c" "length ?cmd < 2 ^ 31" "\<forall>n. c_grows ?io n" "\<exists>r\<in>set (c_took ?io). r \<noteq> Interrupted" by simp_all
  obtain r s' and c' :: etdb_connection where h: "etdb_cli_handle_user_cmd ?io 1 ?cmd s = Some (r, s')" and
    "if [[103], [107]] = ([] :: bytes list) then r = -1 \<and> cli_wire s' = cli_wire s \<and> buf_bytes (buf_out c') = buf_bytes (buf_out ?c)
     else r = 0 \<and> cli_wire s' 1 @ buf_bytes (buf_out c') = cli_wire s 1 @ buf_bytes (buf_out ?c) @ encode_request [[103], [107]] \<and>
       (buf_bytes (buf_out c') = [] \<or> watched (cli_mgr s') (sock ?c) AND FDEVENT_OUT \<noteq> 0)"
    using etdb_cli_handle_user_cmd_sent [of s 1 ?c ?cmd ?io, unfolded w, OF s(1) p(1) wf p(2,3) s(3) p(4) io] by blast
  then have "cli_wire s' 1 @ buf_bytes (buf_out c') = buf_bytes (buf_out example_conn) @ encode_request [[103], [107]]"
    by (simp add: s(2))
  then show ?thesis using s(1) h by blast
qed

end
