(* ===== verification/Spec2Isabelle.thy ===== *)
theory Spec2Isabelle
  imports End_To_End Dump Geo_Neighbor Stack Page_Store_Trie Cli File_Config Log
begin

text \<open>
  \<open>etdb\<close> is a key-value server for Linux with four more types of values: hashes, sets, lists and
  points on the map. This development models the program under \<open>src/src\<close> and proves what its
  parts promise. File names below are relative to that directory.

  \<^bold>\<open>How the program is put together\<close>

  A client sends a request, a list of byte strings with their lengths, over a socket. The server is a
  single loop over \<open>epoll\<close>: it reads what has arrived into the buffer of the connection, parses a
  request out of it, looks the command up by its first string, checks the number of arguments, calls
  the handler, and queues the answer. All data are in sixteen slots; a slot is a double-array
  trie from keys to the addresses of values. The first byte of a key is the type of the value. A
  point is stored twice, under its name and under its geohash followed by the name, so that a search
  in a rectangle is a search for a prefix.

  \<^bold>\<open>Theories and sources\<close>

  Data structures:
  \<^item> \<open>Prelude\<close>: bytes, indices with \<open>XOR\<close> of a byte, rings of two mutually inverse links, decimal
    numbers, and the lemma collections;
  \<^item> \<open>Strings\<close> (\<open>store/etdb_string.c\<close>): splitting, case, numbers, trimming, formatted output;
  \<^item> \<open>Queue\<close> (\<open>store/etdb_queue.h\<close>, \<open>etdb_queue.c\<close>): one circular list, its operations as list
    operations; \<open>Queue_Heap\<close>: many lists in one heap behind the locale
    \<open>queue_store\<close>, whose laws are all that the value lists and the page cache use;
  \<^item> \<open>Lists\<close> (\<open>store/etdb_list.h\<close>): lists of strings on the heap, with allocation and freeing;
  \<^item> \<open>Palloc\<close>, \<open>Palloc_Rep\<close> (\<open>store/etdb_palloc.c\<close>): pools; \<open>Stack\<close> (\<open>store/etdb_stack.c\<close>) and
    \<open>Lru\<close> (\<open>store/etdb_lru.c\<close>) on them; \<open>Page_Store\<close>, \<open>Page_Store_Trie\<close> (\<open>store/etdb_store.c\<close>): the
    unfinished trie on disk on three such caches;
  \<^item> \<open>Geo\<close>, \<open>Geo_Neighbor\<close> (\<open>etdb_geo_hash.c\<close>): geohashes.

  The trie, \<open>store/etdb_trie.c\<close>:
  \<^item> \<open>Trie_Model\<close> has the state and every operation;
  \<^item> \<open>Trie_Space\<close>, \<open>Trie_Alloc\<close>, \<open>Trie_Places\<close>, \<open>Trie_Return\<close>, \<open>Trie_Pick\<close>: the free slots and the three
    lists of blocks, the invariant \<open>space_inv\<close> and what each operation does to the free slots;
  \<^item> \<open>Trie_Tree\<close>, \<open>Trie_Move\<close>, \<open>Trie_Link\<close>: the tree that the arrays represent, with the chains of
    siblings; \<open>Trie_Relocate\<close>, \<open>Trie_Resolve\<close>, \<open>Trie_Follow\<close>: moving a family of nodes out of the way,
    in terms of that tree;
  \<^item> \<open>Trie_Map\<close>, \<open>Trie_Erase\<close>, \<open>Trie_Search\<close>: the trie as a finite map, for insertion, deletion, exact,
    prefix and longest-prefix search; \<open>Index\<close>: the locale through which the database uses its tries.

  The database, \<open>etdb_database.c\<close>:
  \<^item> \<open>Database\<close> has the operations on the sixteen tries and the heap of values;
  \<^item> \<open>Store\<close>, \<open>Store_Lists\<close>, \<open>Store_Points\<close>: the view of a slot (keys, hashes, sets, lists and points
    as maps) and each operation as an operation on the view;
  \<^item> \<open>Store_Session\<close>: all states that sequences of operations reach; \<open>Dump\<close>: the file of the
    background save.

  Connections and commands:
  \<^item> \<open>Buf\<close> (\<open>etdb_buf.c\<close>), \<open>Resp\<close> (\<open>etdb_resp.c\<close>), \<open>Connection\<close> and \<open>Sockets\<close> (\<open>etdb_connection.c\<close>);
  \<^item> \<open>Config\<close> (\<open>etdb_config.c\<close>): the table of commands; \<open>Handlers\<close> and \<open>Sys\<close> (\<open>modules/\<close>,
    \<open>etdb_modules.c\<close>): one handler per command; \<open>Serv\<close> (\<open>etdb_serv.c\<close>, \<open>store/etdb_bytes.c\<close>): dispatch;
    \<open>Service\<close>: requests from the arguments received to the bytes queued;
  \<^item> \<open>File_Config\<close> (\<open>etdb_file_config.c\<close>), \<open>Log\<close> (\<open>store/etdb_log.c\<close>).

  The programs:
  \<^item> \<open>Event\<close> (\<open>etdb_event.c\<close>, \<open>etdb_epoll.c\<close>), \<open>Server\<close> (\<open>etdb_server.c\<close>), \<open>Server_State\<close>: the
    cycle as a step relation and what holds in all its reachable states; \<open>Startup\<close> (\<open>etdb_server.c\<close>,
    \<open>etdb_daemon.h\<close>): start and signals; \<open>Program\<close>: the server as a whole;
  \<^item> \<open>Client\<close>, \<open>Client_Exchange\<close> (\<open>hietdb.c\<close>): the library for clients; \<open>Cli\<close> (\<open>etdb_client.c\<close>,
    \<open>store/etdb_time.c\<close>): the command line client and its benchmark; \<open>End_To_End\<close>: the library
    and the server together.

  \<^bold>\<open>State and effects\<close>

  A \<open>struct\<close> is a record, and an operation gets the state and returns it updated. A pointer is an
  address, an integer; where the program shares memory through pointers (queues, lists, values,
  pools, pages) the heap is explicit, and where it only follows one owner the object is a value.
  Integers whose wrapping matters have their width: \<open>size_t\<close> in the parser, the buffers and the pools,
  the \<open>int\<close> that a size is assigned to before a \<open>write\<close>, the 24 bits of the size of a value, the flags,
  the length that \<open>atoi\<close> reads. The indices of the trie and the counters are unbounded, within memory.
  Coordinates are rationals: all bisections of the geohash are exact in a \<open>double\<close>, and \<open>Strings\<close>
  has the rounding of the conversions.

  What the operating system answers is an argument: the list of results of \<open>read\<close> and \<open>write\<close>, the
  descriptors of \<open>epoll_wait\<close>, the files, the address that the allocator gives. The hypotheses on it
  are what is documented: an address from the allocator is not in use (\<open>fresh_alloc\<close>, \<open>alloc_ok\<close>), \<open>write\<close>
  takes no more than it is offered (\<open>io_ok\<close>), \<open>epoll_ctl\<close> fails as \<open>Event\<close> says, \<open>epoll_wait\<close> reports
  watched descriptors, each once, and \<open>accept\<close> returns a descriptor that is not open at that moment
  (\<open>kernel_ok\<close>); what was closed or freed before in the same round may be used again. The kernel's
  list of watched descriptors is part of the state.

  \<^term>\<open>None\<close> always means that the code does not come to its end: a loop runs forever, memory
  outside of a buffer is touched, a null pointer is followed, an error is logged that ends the process
  (\<open>etdb_log_print\<close>; a failed \<open>read\<close> or \<open>write\<close> of a page is one). Loops whose end depends on the
  shape of the data are partial functions into \<^typ>\<open>'a option\<close>, there is no fuel; that they end is
  proved where the invariant of the data holds. A function whose missing \<open>return\<close> is used by a caller
  takes the value seen as an argument.

  \<^bold>\<open>What is shown\<close>

  \<^item> The trie is a finite map. Insertion, deletion and all searches return, keep the invariants and act as
    on a map; deletion and insertion may be mixed in any order, and no slot is lost, as long as some byte begins no
    key. This holds of the keys of the database, the only ones that are deleted; otherwise a deletion
    would break the list of free slots of block 0.
  \<^item> The operations of the database are operations on the view of a slot, no reachable state has a
    dangling key, and the search in a rectangle is exact where the rectangle has a common prefix.
    Where the code falls short, the theorem says so: hashes whose names have the same length share
    their fields, and so do sets their members; a value of 2^24 bytes or more is stored cut; the
    table of offsets in a saved file is zero.
  \<^item> Requests are parsed as they were encoded, nothing is lost or repeated on the way out, every
    admitted command returns and keeps the database representable. A call of the client library is one
    request and its answer, and what it stores is what it gets back from the server. A record whose
    body has not arrived is parsed out of stale memory, and the size of the buffer wraps; this is a
    theorem, too.
  \<^item> In every reachable state of the server the connections counted, those watched and those that
    exist are the same, and the database stays representable, from the start on.
  \<^item> Pieces of the pools do not overlap, except behind a block that is not aligned; the stack and the
    page cache refine lists; a new page store agrees with the trie in memory.
  \<^item> A geohash decodes to a box around the point, neighbours are adjacent cells, and the covering
    prefix is a prefix of all points of the rectangle.

  Bounds: the parser refuses requests of more than 32 MB; that the arguments it yields have less than
  2^31 bytes is proved (\<open>Program\<close>). A value is read back whole below 2^24 bytes (\<open>stored\<close>).

  \<^bold>\<open>Not modelled\<close>

  \<^item> \<open>linenoise.c\<close> and \<open>deps/jemalloc-3.6.0\<close>: code of others, kept in the repository; the line typed and
    the address allocated are parameters;
  \<^item> banners and usage messages, the registration of the signal handler, the printing of tries
    and queues for debugging: output only;
  \<^item> the exponent range of \<open>float\<close> and \<open>double\<close>, and \<open>snprintf\<close> of values wider than its buffer,
    except where a statement says so;
  \<^item> the Python client, the test programs, the build scripts and the tools.
\<close>

end
